(* ===== verification/Cpp_Prelude.thy ===== *)
theory Cpp_Prelude
  imports Main "HOL-Library.Word"
begin

text \<open>
  Shared vocabulary of the development: the C++ types the components use, the way a C++ call can
  end (a value, an exception, undefined behaviour), the raw memory operations
  (\<^verbatim>\<open>std::memcpy\<close>, \<^verbatim>\<open>std::memset\<close>, \<^verbatim>\<open>std::memcmp\<close>) on byte lists with their
  bounds, and the generic lemmas on lists that the component theories rely on.

  A buffer is a list of bytes. Reading or writing outside of it is \<open>Undefined\<close>, so a theorem that
  an operation returns \<open>Inr\<close> says in particular that it stays inside every buffer it touches.
\<close>

section \<open>Types\<close>

type_synonym byte = "8 word"
type_synonym bytes = "byte list"
type_synonym size_t = "64 word"
type_synonym uint64 = "64 word"
type_synonym int64 = "64 word"

datatype cpp_exception =
    Logic_error string
  | Runtime_error string
  | Invalid_argument string
  | Out_of_range string

datatype cpp_fault =
    Undefined
  | Throws cpp_exception

type_synonym 'a result = "cpp_fault + 'a"

section \<open>Sequencing of results\<close>

fun res_bind :: "'a result \<Rightarrow> ('a \<Rightarrow> 'b result) \<Rightarrow> 'b result" where
  "res_bind (Inl e) f = Inl e"
| "res_bind (Inr x) f = f x"

definition res_map :: "('a \<Rightarrow> 'b) \<Rightarrow> 'a result \<Rightarrow> 'b result" where
  "res_map f r = res_bind r (\<lambda>x. Inr (f x))"

definition is_ok :: "'a result \<Rightarrow> bool" where
  "is_ok r = (case r of Inl _ \<Rightarrow> False | Inr _ \<Rightarrow> True)"

section \<open>Raw memory\<close>

definition mem_read :: "'a list \<Rightarrow> nat \<Rightarrow> nat \<Rightarrow> 'a list result" where
  "mem_read buf off n =
     (if off + n \<le> length buf then Inr (take n (drop off buf)) else Inl Undefined)"

definition mem_write :: "'a list \<Rightarrow> nat \<Rightarrow> 'a list \<Rightarrow> 'a list result" where
  "mem_write buf off bs =
     (if off + length bs \<le> length buf
      then Inr (take off buf @ bs @ drop (off + length bs) buf)
      else Inl Undefined)"

definition mem_zero :: "bytes \<Rightarrow> bytes" where
  "mem_zero buf = replicate (length buf) 0"

named_theorems mem_simps \<open>bounds and contents after a raw memory operation\<close>
named_theorems res_simps \<open>the way a result of a composed call decomposes\<close>

section \<open>Lemmas on results\<close>

lemma res_bind_Inr [res_simps]:
  "res_bind r f = Inr y \<longleftrightarrow> (\<exists>x. r = Inr x \<and> f x = Inr y)"
  by (cases r) auto

lemma res_bind_Inl [res_simps]:
  "res_bind r f = Inl e \<longleftrightarrow> r = Inl e \<or> (\<exists>x. r = Inr x \<and> f x = Inl e)"
  by (cases r) auto

lemma res_bind_assoc: "res_bind (res_bind r f) g = res_bind r (\<lambda>x. res_bind (f x) g)"
  by (cases r) auto

lemma res_bind_return [simp]: "res_bind r Inr = r"
  by (cases r) auto

lemma res_map_Inr [res_simps]: "res_map f r = Inr y \<longleftrightarrow> (\<exists>x. r = Inr x \<and> y = f x)"
  by (cases r) (auto simp: res_map_def)

lemma res_map_simps [simp]: "res_map f (Inr x) = Inr (f x)" "res_map f (Inl e) = Inl e"
  by (simp_all add: res_map_def)

lemma is_ok_simps [simp]: "is_ok (Inr x)" "\<not> is_ok (Inl e)"
  by (simp_all add: is_ok_def)

lemma is_ok_iff: "is_ok r \<longleftrightarrow> (\<exists>x. r = Inr x)"
  by (cases r) auto

section \<open>Lemmas on raw memory\<close>

lemma mem_read_ok [mem_simps]:
  "off + n \<le> length buf \<Longrightarrow> mem_read buf off n = Inr (take n (drop off buf))"
  by (simp add: mem_read_def)

lemma mem_read_InrD: "mem_read buf off n = Inr bs \<Longrightarrow> length bs = n \<and> off + n \<le> length buf"
  by (auto simp: mem_read_def split: if_splits)

lemma mem_write_ok [mem_simps]:
  "off + length bs \<le> length buf \<Longrightarrow>
   mem_write buf off bs = Inr (take off buf @ bs @ drop (off + length bs) buf)"
  by (simp add: mem_write_def)

lemma mem_write_length: "mem_write buf off bs = Inr buf' \<Longrightarrow> length buf' = length buf"
  by (auto simp: mem_write_def split: if_splits)

lemma mem_write_read_same:
  "mem_write buf off bs = Inr buf' \<Longrightarrow> mem_read buf' off (length bs) = Inr bs"
  by (auto simp: mem_write_def mem_read_def split: if_splits)

lemma mem_write_read_below:
  assumes "mem_write buf off bs = Inr buf'" and "o2 + n \<le> off"
  shows "mem_read buf' o2 n = mem_read buf o2 n"
proof -
  from assms(1) have len: "off + length bs \<le> length buf"
    and buf': "buf' = take off buf @ bs @ drop (off + length bs) buf"
    by (auto simp: mem_write_def split: if_splits)
  have "take n (drop o2 (take off buf @ ys)) = take n (drop o2 buf)" for ys
    using assms(2) len by (auto simp: drop_take min_def)
  then show ?thesis
    using len assms(2) by (simp add: mem_read_def buf')
qed

lemma mem_write_read_above:
  assumes "mem_write buf off bs = Inr buf'" and "off + length bs \<le> o2"
  shows "mem_read buf' o2 n = mem_read buf o2 n"
proof -
  from assms(1) have len: "off + length bs \<le> length buf"
    and buf': "buf' = take off buf @ bs @ drop (off + length bs) buf"
    by (auto simp: mem_write_def split: if_splits)
  have "drop o2 buf' = drop o2 buf"
    using assms(2) len by (simp add: buf')
  then show ?thesis
    using mem_write_length[OF assms(1)] by (simp add: mem_read_def)
qed

lemma mem_zero_length [simp]: "length (mem_zero buf) = length buf"
  by (simp add: mem_zero_def)

lemma mem_write_all: "length bs = length buf \<Longrightarrow> mem_write buf 0 bs = Inr bs"
  by (simp add: mem_write_def)

section \<open>Lemmas on association lists\<close>

text \<open>
  The hash maps and ordered maps of the code are association lists with distinct keys, in the
  order in which the container is traversed.
\<close>

definition al_remove :: "'k \<Rightarrow> ('k \<times> 'v) list \<Rightarrow> ('k \<times> 'v) list" where
  "al_remove k xs = filter (\<lambda>p. fst p \<noteq> k) xs"

definition al_update :: "'k \<Rightarrow> ('v \<Rightarrow> 'v) \<Rightarrow> ('k \<times> 'v) list \<Rightarrow> ('k \<times> 'v) list" where
  "al_update k f xs = map (\<lambda>p. if fst p = k then (fst p, f (snd p)) else p) xs"

lemma map_of_al_remove [simp]: "map_of (al_remove k xs) = (map_of xs)(k := None)"
  by (induction xs) (auto simp: al_remove_def fun_eq_iff)

lemma fst_al_remove [simp]: "fst ` set (al_remove k xs) = fst ` set xs - {k}"
  by (auto simp: al_remove_def)

lemma distinct_al_remove: "distinct (map fst xs) \<Longrightarrow> distinct (map fst (al_remove k xs))"
  by (induction xs) (auto simp: al_remove_def)

lemma keys_al_update [simp]: "map fst (al_update k f xs) = map fst xs"
  by (simp add: al_update_def)

lemma length_al_update [simp]: "length (al_update k f xs) = length xs"
  by (simp add: al_update_def)

lemma map_of_al_update:
  "map_of (al_update k f xs) k' =
     (if k' = k then map_option f (map_of xs k) else map_of xs k')"
  by (induction xs) (auto simp: al_update_def)

lemma al_remove_notin: "k \<notin> fst ` set xs \<Longrightarrow> al_remove k xs = xs"
  by (induction xs) (auto simp: al_remove_def)

lemma length_al_remove:
  "distinct (map fst xs) \<Longrightarrow> k \<in> fst ` set xs \<Longrightarrow> Suc (length (al_remove k xs)) = length xs"
proof (induction xs)
  case Nil
  then show ?case by simp
next
  case (Cons x xs)
  show ?case
  proof (cases "fst x = k")
    case True
    with Cons.prems have "al_remove k xs = xs" by (auto intro: al_remove_notin)
    with True show ?thesis by (simp add: al_remove_def)
  next
    case False
    with Cons show ?thesis by (auto simp: al_remove_def)
  qed
qed

lemma map_of_append_fresh:
  "k \<notin> fst ` set xs \<Longrightarrow> map_of (xs @ [(k, v)]) = (map_of xs)(k \<mapsto> v)"
  by (induction xs) (auto simp: fun_eq_iff)

section \<open>Lemmas on searching\<close>

lemma find_unique:
  "(\<And>x y. P x \<Longrightarrow> P y \<Longrightarrow> x = y) \<Longrightarrow> find P xs = Some z \<longleftrightarrow> z \<in> set xs \<and> P z"
  by (induction xs) auto

lemma fold_append_map: "fold (\<lambda>x log. log @ [f x]) xs log = log @ map f xs"
  by (induction xs arbitrary: log) auto

end
