(* ===== verification/Rules_Expression.thy ===== *)
theory Rules_Expression
  imports Cpp_Prelude Complex_Main
begin

text \<open>
  The expressions of the rules engine: \<^verbatim>\<open>Modules/rules/node.h\<close>, \<^verbatim>\<open>operands.cpp\<close>,
  \<^verbatim>\<open>operators.cpp\<close> and \<^verbatim>\<open>expression.cpp\<close>. A rule's condition is a vector of tagged tokens;
  \<^verbatim>\<open>shuting_yards\<close> brings it into postfix order, \<^verbatim>\<open>build_parse_tree\<close> makes the tree, \<^verbatim>\<open>evaluate\<close>
  computes its value.

  The queue and the stacks of the source are lists (the head of a stack is its top, the end of the
  queue is where tokens are pushed). What the expression asks of its surroundings is the record
  \<open>operand_env\<close>: \<^verbatim>\<open>std::stod\<close>, the two look-ups of the dispatcher, and the call of a function
  operand; every theorem holds for all of them.

  \<open>bexp\<close> is the abstract syntax of expressions with its meaning, \<open>unparse\<close> prints one with as few
  brackets as precedence and associativity allow, and the main theorem says that parsing the print
  and evaluating the tree gives the meaning.
\<close>

section \<open>Nodes and tokens\<close>

datatype node_type =
    OPERAND_NONE | OPERAND_CONSTANT | OPERAND_ENUM | OPERAND_FUNCTION
  | OPERATOR_EQUAL | OPERATOR_NOT_EQUAL | OPERATOR_LT | OPERATOR_LTE | OPERATOR_GT | OPERATOR_GTE
  | OPERATOR_RIGHT_BRAKET | OPERATOR_LEFT_BRAKET | OPERATOR_AND | OPERATOR_OR | OPERATOR_NOT

type_synonym token = "node_type \<times> string"

fun get_priority :: "node_type \<Rightarrow> nat" where
  "get_priority OPERATOR_NOT = 5"
| "get_priority OPERATOR_EQUAL = 4"
| "get_priority OPERATOR_NOT_EQUAL = 4"
| "get_priority OPERATOR_LT = 4"
| "get_priority OPERATOR_LTE = 4"
| "get_priority OPERATOR_GT = 4"
| "get_priority OPERATOR_GTE = 4"
| "get_priority OPERATOR_AND = 3"
| "get_priority OPERATOR_OR = 2"
| "get_priority _ = 0"

fun is_left_assoc :: "node_type \<Rightarrow> bool" where
  "is_left_assoc OPERATOR_EQUAL = True"
| "is_left_assoc OPERATOR_NOT_EQUAL = True"
| "is_left_assoc OPERATOR_LT = True"
| "is_left_assoc OPERATOR_LTE = True"
| "is_left_assoc OPERATOR_GT = True"
| "is_left_assoc OPERATOR_GTE = True"
| "is_left_assoc OPERATOR_AND = True"
| "is_left_assoc OPERATOR_OR = True"
| "is_left_assoc _ = False"

definition is_operand :: "node_type \<Rightarrow> bool" where
  "is_operand t \<longleftrightarrow> t \<in> {OPERAND_CONSTANT, OPERAND_ENUM, OPERAND_FUNCTION}"

definition is_binary :: "node_type \<Rightarrow> bool" where
  "is_binary t \<longleftrightarrow>
     t \<in> {OPERATOR_AND, OPERATOR_OR, OPERATOR_EQUAL, OPERATOR_GT, OPERATOR_GTE, OPERATOR_LT, OPERATOR_LTE,
          OPERATOR_NOT_EQUAL}"

section \<open>Doubles\<close>

text \<open>The values of \<^verbatim>\<open>double\<close> as far as comparisons tell them apart; both zeros are \<open>Fin 0\<close>.\<close>

datatype dbl = NaN | NInf | Fin rat | PInf

fun dbl_less :: "dbl \<Rightarrow> dbl \<Rightarrow> bool" where
  "dbl_less NaN _ = False"
| "dbl_less _ NaN = False"
| "dbl_less (Fin a) (Fin b) = (a < b)"
| "dbl_less NInf b = (b \<noteq> NInf)"
| "dbl_less a PInf = (a \<noteq> PInf)"
| "dbl_less _ _ = False"

definition dbl_eq :: "dbl \<Rightarrow> dbl \<Rightarrow> bool" where
  "dbl_eq a b \<longleftrightarrow> a \<noteq> NaN \<and> a = b"

definition dbl_le :: "dbl \<Rightarrow> dbl \<Rightarrow> bool" where
  "dbl_le a b \<longleftrightarrow> dbl_less a b \<or> dbl_eq a b"

definition dbl_of_bool :: "bool \<Rightarrow> dbl" where
  "dbl_of_bool b = Fin (if b then 1 else 0)"

definition dbl_true :: "dbl \<Rightarrow> bool" where
  "dbl_true a = (\<not> dbl_eq a (Fin 0))"

section \<open>The tree\<close>

text \<open>The children are pointers; \<open>None\<close> is null. A function operand keeps its function as \<open>'f\<close>.\<close>

datatype 'f node =
    Operand_constant dbl
  | Operand_enum dbl
  | Operand_function 'f
  | Operator node_type "'f node option" "'f node option"

record 'f operand_env =
  oe_stod :: "string \<Rightarrow> dbl result"
  oe_try_row_int_value :: "string \<Rightarrow> int64 option result"
  oe_get_function :: "string \<Rightarrow> 'f result"
  oe_call :: "'f \<Rightarrow> dbl result"

text \<open>\<^verbatim>\<open>static_cast<int>\<close> of the 64-bit value, then the conversion to \<^verbatim>\<open>double\<close>.\<close>

definition operand_enum_value :: "int64 \<Rightarrow> dbl" where
  "operand_enum_value v = Fin (of_int (sint (ucast v :: 32 word)))"

definition make_operand :: "'f operand_env \<Rightarrow> token \<Rightarrow> 'f node option result" where
  "make_operand env token =
     (case fst token of
        OPERAND_CONSTANT \<Rightarrow> res_map (\<lambda>v. Some (Operand_constant v)) (oe_stod env (snd token))
      | OPERAND_ENUM \<Rightarrow>
          res_bind (oe_try_row_int_value env (snd token)) (\<lambda>r.
            case r of
              None \<Rightarrow> res_map (\<lambda>f. Some (Operand_function f)) (oe_get_function env (snd token))
            | Some v \<Rightarrow> Inr (Some (Operand_enum (operand_enum_value v))))
      | OPERAND_FUNCTION \<Rightarrow> res_map (\<lambda>f. Some (Operand_function f)) (oe_get_function env (snd token))
      | _ \<Rightarrow> Inr None)"

definition make_operator :: "node_type \<Rightarrow> 'f node result" where
  "make_operator oper =
     (if is_binary oper \<or> oper = OPERATOR_NOT then Inr (Operator oper None None)
      else Inl (Throws (Logic_error ''node_type_enum is not operator'')))"

section \<open>Evaluation\<close>

fun compare_op :: "node_type \<Rightarrow> dbl \<Rightarrow> dbl \<Rightarrow> bool" where
  "compare_op OPERATOR_EQUAL a b = dbl_eq a b"
| "compare_op OPERATOR_NOT_EQUAL a b = (\<not> dbl_eq a b)"
| "compare_op OPERATOR_LT a b = dbl_less a b"
| "compare_op OPERATOR_LTE a b = dbl_le a b"
| "compare_op OPERATOR_GT a b = dbl_less b a"
| "compare_op OPERATOR_GTE a b = dbl_le b a"
| "compare_op _ a b = False"

text \<open>\<^verbatim>\<open>node::evaluate\<close> of every class. A null child that is called is undefined behaviour;
  \<^verbatim>\<open>&&\<close> and \<^verbatim>\<open>||\<close> do not call their right child when the left one decides. C++ leaves the order open in which the
  operands of the comparisons are evaluated; the left one comes first here. Evaluation has no effects, so the order only decides which of two failures
  is reported.\<close>

fun evaluate_node :: "('f \<Rightarrow> dbl result) \<Rightarrow> 'f node \<Rightarrow> dbl result" where
  "evaluate_node call (Operand_constant v) = Inr v"
| "evaluate_node call (Operand_enum v) = Inr v"
| "evaluate_node call (Operand_function f) = call f"
| "evaluate_node call (Operator oper None r) =
     (if oper = OPERATOR_NOT \<and> r \<noteq> None
      then Inl (Throws (Logic_error ''Illegal expression : NOT has a right child'')) else Inl Undefined)"
| "evaluate_node call (Operator oper (Some l) None) =
     (if oper = OPERATOR_NOT then res_map (\<lambda>v. dbl_of_bool (\<not> dbl_true v)) (evaluate_node call l)
      else res_bind (evaluate_node call l) (\<lambda>v.
        if oper = OPERATOR_AND \<and> \<not> dbl_true v then Inr (dbl_of_bool False)
        else if oper = OPERATOR_OR \<and> dbl_true v then Inr (dbl_of_bool True)
        else Inl Undefined))"
| "evaluate_node call (Operator oper (Some l) (Some r)) =
     (if oper = OPERATOR_NOT then Inl (Throws (Logic_error ''Illegal expression : NOT has a right child''))
      else res_bind (evaluate_node call l) (\<lambda>v.
        if oper = OPERATOR_AND then
          (if dbl_true v then res_map (\<lambda>w. dbl_of_bool (dbl_true w)) (evaluate_node call r)
           else Inr (dbl_of_bool False))
        else if oper = OPERATOR_OR then
          (if dbl_true v then Inr (dbl_of_bool True)
           else res_map (\<lambda>w. dbl_of_bool (dbl_true w)) (evaluate_node call r))
        else res_map (\<lambda>w. dbl_of_bool (compare_op oper v w)) (evaluate_node call r)))"

definition evaluate_expression :: "'f operand_env \<Rightarrow> 'f node option \<Rightarrow> bool result" where
  "evaluate_expression env root_node =
     (case root_node of
        None \<Rightarrow> Inl Undefined
      | Some n \<Rightarrow> res_map (\<lambda>v. \<not> dbl_eq v (Fin 0)) (evaluate_node (oe_call env) n))"

section \<open>The shunting yard\<close>

fun pop_operators :: "node_type \<Rightarrow> token list \<Rightarrow> token list \<Rightarrow> token list \<times> token list" where
  "pop_operators oper queue [] = (queue, [])"
| "pop_operators oper queue (top_token # stack) =
     (if fst top_token \<noteq> OPERATOR_LEFT_BRAKET then
        (if get_priority (fst top_token) > get_priority oper \<or>
            (is_left_assoc oper \<and> get_priority (fst top_token) = get_priority oper)
         then pop_operators oper (queue @ [top_token]) stack
         else (queue, top_token # stack))
      else (queue, top_token # stack))"

fun pop_to_bracket :: "token list \<Rightarrow> token list \<Rightarrow> token list \<times> token list" where
  "pop_to_bracket queue [] = (queue, [])"
| "pop_to_bracket queue (top_token # stack) =
     (if fst top_token \<noteq> OPERATOR_LEFT_BRAKET then pop_to_bracket (queue @ [top_token]) stack else (queue, top_token # stack))"

definition mismatched :: cpp_fault where
  "mismatched = Throws (Logic_error ''mismatched parentheses'')"

definition shunt_token :: "token \<Rightarrow> token list \<times> token list \<Rightarrow> (token list \<times> token list) result" where
  "shunt_token token qs =
     (case qs of (queue, stack) \<Rightarrow>
        if is_operand (fst token) then Inr (queue @ [token], stack)
        else if is_binary (fst token) \<or> fst token = OPERATOR_NOT then
          (case pop_operators (fst token) queue stack of (queue', stack') \<Rightarrow> Inr (queue', token # stack'))
        else if fst token = OPERATOR_LEFT_BRAKET then Inr (queue, token # stack)
        else if fst token = OPERATOR_RIGHT_BRAKET then
          (case pop_to_bracket queue stack of
             (queue', []) \<Rightarrow> Inl mismatched
           | (queue', _ # stack') \<Rightarrow> Inr (queue', stack'))
        else Inr (queue, stack))"

fun shunt_loop :: "token list \<Rightarrow> token list \<times> token list \<Rightarrow> (token list \<times> token list) result" where
  "shunt_loop [] qs = Inr qs"
| "shunt_loop (token # tokens) qs = res_bind (shunt_token token qs) (shunt_loop tokens)"

fun drain :: "token list \<Rightarrow> token list \<Rightarrow> token list result" where
  "drain queue [] = Inr queue"
| "drain queue (top_token # stack) =
     (if fst top_token = OPERATOR_LEFT_BRAKET \<or> fst top_token = OPERATOR_RIGHT_BRAKET then Inl mismatched
      else drain (queue @ [top_token]) stack)"

definition shuting_yards :: "token list \<Rightarrow> token list result" where
  "shuting_yards tokens =
     (if tokens = [] then Inl (Throws (Logic_error ''Tokens vector is empty!''))
      else res_bind (shunt_loop tokens ([], [])) (\<lambda>(queue, stack). drain queue stack))"

section \<open>Building the tree\<close>

definition insufficient :: cpp_fault where
  "insufficient = Throws (Logic_error ''The user has not input sufficient values in the expression'')"

fun set_children :: "'f node \<Rightarrow> 'f node option \<Rightarrow> 'f node option \<Rightarrow> 'f node" where
  "set_children (Operator oper _ _) l r = Operator oper l r"
| "set_children n l r = n"

text \<open>A token that is neither operand, operator nor bracket is not removed from the queue: the loop
  spins without effect, which is undefined behaviour.\<close>

fun build_loop :: "'f operand_env \<Rightarrow> token list \<Rightarrow> 'f node option list \<Rightarrow> 'f node option list result" where
  "build_loop env [] nodes = Inr nodes"
| "build_loop env (token # queue) nodes =
     (if is_operand (fst token) then
        res_bind (make_operand env token) (\<lambda>n. build_loop env queue (n # nodes))
      else if is_binary (fst token) then
        (case nodes of
           param1 # param2 # rest \<Rightarrow>
             res_bind (make_operator (fst token)) (\<lambda>oper.
               build_loop env queue (Some (set_children oper param2 param1) # rest))
         | _ \<Rightarrow> Inl insufficient)
      else if fst token = OPERATOR_NOT then
        (case nodes of
           param1 # rest \<Rightarrow>
             res_bind (make_operator (fst token)) (\<lambda>oper.
               build_loop env queue (Some (set_children oper param1 None) # rest))
         | _ \<Rightarrow> Inl insufficient)
      else if fst token = OPERATOR_LEFT_BRAKET \<or> fst token = OPERATOR_RIGHT_BRAKET then Inl mismatched
      else Inl Undefined)"

definition build_parse_tree :: "'f operand_env \<Rightarrow> token list \<Rightarrow> 'f node option result" where
  "build_parse_tree env tokens =
     res_bind (shuting_yards tokens) (\<lambda>queue.
       res_bind (build_loop env queue []) (\<lambda>nodes.
         case nodes of [root_node] \<Rightarrow> Inr root_node | _ \<Rightarrow> Inl insufficient))"

definition expression_to_string :: "token list \<Rightarrow> string" where
  "expression_to_string tokens = fold (\<lambda>token res. res @ snd token) tokens []"

section \<open>Abstract syntax\<close>

datatype bexp = Leaf token | Not token bexp | Bin token bexp bexp

fun bexp_ok :: "bexp \<Rightarrow> bool" where
  "bexp_ok (Leaf t) = is_operand (fst t)"
| "bexp_ok (Not t e) = (fst t = OPERATOR_NOT \<and> bexp_ok e)"
| "bexp_ok (Bin t a b) = (is_binary (fst t) \<and> bexp_ok a \<and> bexp_ok b)"

definition LB :: token where "LB = (OPERATOR_LEFT_BRAKET, ''('')"
definition RB :: token where "RB = (OPERATOR_RIGHT_BRAKET, '')'')"

text \<open>\<open>unparse p e\<close> prints \<open>e\<close> where an operator of priority at least \<open>p\<close> needs no brackets.\<close>

fun unparse :: "nat \<Rightarrow> bexp \<Rightarrow> token list" where
  "unparse p (Leaf t) = [t]"
| "unparse p (Not t e) = t # unparse 5 e"
| "unparse p (Bin t a b) =
     (let q = get_priority (fst t); ts = unparse q a @ [t] @ unparse (Suc q) b
      in if p \<le> q then ts else [LB] @ ts @ [RB])"

fun postfix :: "bexp \<Rightarrow> token list" where
  "postfix (Leaf t) = [t]"
| "postfix (Not t e) = postfix e @ [t]"
| "postfix (Bin t a b) = postfix a @ postfix b @ [t]"

fun tree_of :: "'f operand_env \<Rightarrow> bexp \<Rightarrow> 'f node option result" where
  "tree_of env (Leaf t) = make_operand env t"
| "tree_of env (Not t e) = res_map (\<lambda>l. Some (Operator OPERATOR_NOT l None)) (tree_of env e)"
| "tree_of env (Bin t a b) =
     res_bind (tree_of env a) (\<lambda>l. res_map (\<lambda>r. Some (Operator (fst t) l r)) (tree_of env b))"

text \<open>The meaning of an expression: of its operands, then of its operators.\<close>

definition operand_value :: "'f operand_env \<Rightarrow> token \<Rightarrow> dbl result" where
  "operand_value env t =
     (if fst t = OPERAND_CONSTANT then oe_stod env (snd t)
      else if fst t = OPERAND_ENUM then
        res_bind (oe_try_row_int_value env (snd t)) (\<lambda>r.
          case r of Some v \<Rightarrow> Inr (operand_enum_value v)
                  | None \<Rightarrow> res_bind (oe_get_function env (snd t)) (oe_call env))
      else res_bind (oe_get_function env (snd t)) (oe_call env))"

fun meaning :: "'f operand_env \<Rightarrow> bexp \<Rightarrow> dbl result" where
  "meaning env (Leaf t) = operand_value env t"
| "meaning env (Not t e) = res_map (\<lambda>v. dbl_of_bool (\<not> dbl_true v)) (meaning env e)"
| "meaning env (Bin t a b) =
     res_bind (meaning env a) (\<lambda>v.
       if fst t = OPERATOR_AND \<and> \<not> dbl_true v then Inr (dbl_of_bool False)
       else if fst t = OPERATOR_OR \<and> dbl_true v then Inr (dbl_of_bool True)
       else res_map (\<lambda>w. dbl_of_bool (if fst t \<in> {OPERATOR_AND, OPERATOR_OR} then dbl_true w
                                      else compare_op (fst t) v w)) (meaning env b))"

section \<open>Operators on the stack\<close>

definition is_operator :: "node_type \<Rightarrow> bool" where
  "is_operator t \<longleftrightarrow> is_binary t \<or> t = OPERATOR_NOT"

lemma binary_facts:
  assumes "is_binary t"
  shows "is_left_assoc t" "2 \<le> get_priority t" "get_priority t \<le> 4" "\<not> is_operand t" "t \<noteq> OPERATOR_NOT"
    "t \<noteq> OPERATOR_LEFT_BRAKET" "t \<noteq> OPERATOR_RIGHT_BRAKET"
  using assms by (auto simp: is_binary_def is_operand_def)

lemma operator_no_bracket: "is_operator t \<Longrightarrow> t \<noteq> OPERATOR_LEFT_BRAKET \<and> t \<noteq> OPERATOR_RIGHT_BRAKET"
  by (auto simp: is_operator_def dest: binary_facts)

lemma shunt_loop_append: "shunt_loop (xs @ ys) qs = res_bind (shunt_loop xs qs) (shunt_loop ys)"
proof (induction xs arbitrary: qs)
  case (Cons x xs)
  then show ?case by (cases "shunt_token x qs") simp_all
qed simp

text \<open>The operators that a printed expression leaves on the stack, and the stacks on which an
  expression of priority \<open>p\<close> may be printed.\<close>

definition pending :: "nat \<Rightarrow> token list \<Rightarrow> bool" where
  "pending p ops \<longleftrightarrow> (\<forall>t \<in> set ops. is_operator (fst t) \<and> p \<le> get_priority (fst t))"

definition blocks :: "nat \<Rightarrow> token list \<Rightarrow> bool" where
  "blocks p S \<longleftrightarrow> 5 \<le> p \<or> S = [] \<or> fst (hd S) = OPERATOR_LEFT_BRAKET \<or> get_priority (fst (hd S)) < p"

lemma pop_operators_pending:
  assumes "is_binary t" and "pending (get_priority t) ops" and "blocks (get_priority t) S"
  shows "pop_operators t queue (ops @ S) = (queue @ ops, S)"
  using assms(2)
proof (induction ops arbitrary: queue)
  case Nil
  then show ?case
    using assms(1,3) binary_facts[OF assms(1)] by (cases S) (auto simp: blocks_def)
next
  case (Cons x ops)
  then have "is_operator (fst x)" "get_priority t \<le> get_priority (fst x)" "pending (get_priority t) ops"
    by (simp_all add: pending_def)
  with Cons.IH binary_facts[OF assms(1)] show ?case
    by (auto dest: operator_no_bracket)
qed

lemma pop_operators_not: "pop_operators OPERATOR_NOT queue S = (queue, S)"
proof (cases S)
  case (Cons x S')
  have "get_priority (fst x) \<le> 5" by (cases "fst x") simp_all
  with Cons show ?thesis by simp
qed simp

lemma pop_to_bracket_pending:
  "pending p ops \<Longrightarrow> pop_to_bracket queue (ops @ LB # S) = (queue @ ops, LB # S)"
  by (induction ops arbitrary: queue) (auto simp: pending_def LB_def dest: operator_no_bracket)

lemma drain_pending: "pending p ops \<Longrightarrow> drain queue ops = Inr (queue @ ops)"
  by (induction ops arbitrary: queue) (auto simp: pending_def dest: operator_no_bracket)

lemma pending_mono: "pending q ops \<Longrightarrow> p \<le> q \<Longrightarrow> pending p ops"
  by (auto simp: pending_def)

section \<open>Printed expressions come out in postfix order\<close>

lemma shunt_binary:
  assumes "is_binary (fst t)" and "blocks (get_priority (fst t)) S"
    and a: "\<exists>q1 s1. shunt_loop ta (queue, S) = Inr (q1, s1 @ S) \<and> q1 @ s1 = queue @ pa \<and> pending (get_priority (fst t)) s1"
    and b: "\<And>queue. \<exists>q2 s2. shunt_loop tb (queue, t # S) = Inr (q2, s2 @ t # S) \<and> q2 @ s2 = queue @ pb \<and>
              pending (Suc (get_priority (fst t))) s2"
  shows "\<exists>q' s'. shunt_loop (ta @ [t] @ tb) (queue, S) = Inr (q', s' @ S) \<and> q' @ s' = queue @ pa @ pb @ [t] \<and>
           pending (get_priority (fst t)) s'"
proof -
  obtain q1 s1 where 1: "shunt_loop ta (queue, S) = Inr (q1, s1 @ S)" "q1 @ s1 = queue @ pa"
    "pending (get_priority (fst t)) s1" using a by blast
  obtain q2 s2 where 2: "shunt_loop tb (queue @ pa, t # S) = Inr (q2, s2 @ t # S)" "q2 @ s2 = (queue @ pa) @ pb"
    "pending (Suc (get_priority (fst t))) s2" using b by blast
  have "shunt_token t (q1, s1 @ S) = Inr (queue @ pa, t # S)"
    using pop_operators_pending[OF assms(1) 1(3) assms(2), of q1] binary_facts[OF assms(1)] assms(1) 1(2)
    by (simp add: shunt_token_def)
  then have "shunt_loop (ta @ [t] @ tb) (queue, S) = Inr (q2, (s2 @ [t]) @ S)"
    using 1(1) 2(1) by (simp add: shunt_loop_append)
  moreover have "pending (get_priority (fst t)) (s2 @ [t])"
    using pending_mono[OF 2(3)] assms(1) by (auto simp: pending_def is_operator_def)
  ultimately show ?thesis
    using 2(2) by (intro exI[of _ q2] exI[of _ "s2 @ [t]"]) simp
qed

lemma shunt_brackets:
  assumes "\<exists>q' s'. shunt_loop ts (queue, LB # S) = Inr (q', s' @ LB # S) \<and> q' @ s' = queue @ ps \<and> pending p s'"
  shows "shunt_loop ([LB] @ ts @ [RB]) (queue, S) = Inr (queue @ ps, S)"
proof -
  obtain q' s' where "shunt_loop ts (queue, LB # S) = Inr (q', s' @ LB # S)" "q' @ s' = queue @ ps" "pending p s'"
    using assms by blast
  moreover have "shunt_token LB (queue, S) = Inr (queue, LB # S)"
    by (simp add: shunt_token_def LB_def is_operand_def is_binary_def)
  moreover have "shunt_token RB (q', s' @ LB # S) = Inr (q' @ s', S)"
    using pop_to_bracket_pending[OF calculation(3), of q' S]
    by (simp add: shunt_token_def RB_def is_operand_def is_binary_def)
  ultimately show ?thesis by (simp add: shunt_loop_append)
qed

lemma shunt_unparse:
  "bexp_ok e \<Longrightarrow> blocks p S \<Longrightarrow>
   \<exists>q' s'. shunt_loop (unparse p e) (queue, S) = Inr (q', s' @ S) \<and> q' @ s' = queue @ postfix e \<and> (p \<le> 5 \<longrightarrow> pending p s')"
proof (induction e arbitrary: p queue S)
  case (Leaf t)
  then show ?case by (simp add: shunt_token_def pending_def)
next
  case (Not t e)
  then have t: "fst t = OPERATOR_NOT" by simp
  have "blocks 5 (t # S)" by (simp add: blocks_def)
  then obtain q' s' where "shunt_loop (unparse 5 e) (queue, t # S) = Inr (q', s' @ t # S)"
    "q' @ s' = queue @ postfix e" "pending 5 s'"
    using Not.IH[of 5 "t # S" queue] Not.prems by auto
  moreover have "shunt_token t (queue, S) = Inr (queue, t # S)"
    using t by (simp add: shunt_token_def is_operand_def pop_operators_not)
  moreover have "p \<le> 5 \<Longrightarrow> pending p (s' @ [t])"
    using pending_mono[OF calculation(3), of p] t by (auto simp: pending_def is_operator_def)
  ultimately show ?case
    by (intro exI[of _ q'] exI[of _ "s' @ [t]"]) simp
next
  case (Bin t a b)
  let ?q = "get_priority (fst t)"
  have bin: "is_binary (fst t)" using Bin.prems by simp
  have q: "?q \<le> 4" using binary_facts[OF bin] by simp
  have body: "\<exists>q' s'. shunt_loop (unparse ?q a @ [t] @ unparse (Suc ?q) b) (queue, S) = Inr (q', s' @ S) \<and>
      q' @ s' = queue @ postfix a @ postfix b @ [t] \<and> pending ?q s'" if "blocks ?q S" for queue S
  proof (rule shunt_binary[OF bin that])
    show "\<exists>q1 s1. shunt_loop (unparse ?q a) (queue, S) = Inr (q1, s1 @ S) \<and> q1 @ s1 = queue @ postfix a \<and> pending ?q s1"
      using Bin.IH(1)[of ?q S queue] Bin.prems that q by auto
    have "blocks (Suc ?q) (t # S)" by (simp add: blocks_def)
    then show "\<exists>q2 s2. shunt_loop (unparse (Suc ?q) b) (queue, t # S) = Inr (q2, s2 @ t # S) \<and>
        q2 @ s2 = queue @ postfix b \<and> pending (Suc ?q) s2" for queue
      using Bin.IH(2)[of "Suc ?q" "t # S" queue] Bin.prems q by auto
  qed
  show ?case
  proof (cases "p \<le> ?q")
    case True
    then have "blocks ?q S" using Bin.prems q by (auto simp: blocks_def)
    from body[OF this, of queue] True show ?thesis by (auto simp: Let_def dest: pending_mono)
  next
    case False
    have "blocks ?q (LB # S)" by (simp add: blocks_def LB_def)
    from shunt_brackets[OF body[OF this]] False show ?thesis
      by (auto simp: Let_def pending_def)
  qed
qed

lemma shuting_yards_unparse:
  assumes "bexp_ok e"
  shows "shuting_yards (unparse 0 e) = Inr (postfix e)"
proof -
  have "blocks 0 []" by (simp add: blocks_def)
  from shunt_unparse[OF assms this, of "[]"] obtain q' s' where
    "shunt_loop (unparse 0 e) ([], []) = Inr (q', s')" "q' @ s' = postfix e" "pending 0 s'" by auto
  moreover have "unparse 0 e \<noteq> []" by (cases e) (auto simp: Let_def)
  ultimately show ?thesis by (simp add: shuting_yards_def drain_pending)
qed

section \<open>Postfix order builds the tree\<close>

lemma build_loop_postfix:
  "bexp_ok e \<Longrightarrow>
   build_loop env (postfix e @ rest) nodes = res_bind (tree_of env e) (\<lambda>n. build_loop env rest (n # nodes))"
proof (induction e arbitrary: rest nodes)
  case (Leaf t)
  then show ?case by simp
next
  case (Not t e)
  then show ?case
    by (simp add: res_bind_assoc res_map_def is_operand_def is_binary_def make_operator_def)
next
  case (Bin t a b)
  then show ?case
    using binary_facts[of "fst t"] by (simp add: res_bind_assoc res_map_def make_operator_def)
qed

lemma build_parse_tree_unparse: "bexp_ok e \<Longrightarrow> build_parse_tree env (unparse 0 e) = tree_of env e"
  using build_loop_postfix[of e env "[]" "[]"]
  by (cases "tree_of env e") (simp_all add: build_parse_tree_def shuting_yards_unparse)

section \<open>The tree evaluates to the meaning\<close>

lemma make_operand_value:
  assumes "is_operand (fst t)" and "make_operand env t = Inr n"
  shows "\<exists>m. n = Some m \<and> evaluate_node (oe_call env) m = operand_value env t"
proof -
  from assms(1) consider "fst t = OPERAND_CONSTANT" | "fst t = OPERAND_ENUM" | "fst t = OPERAND_FUNCTION"
    by (auto simp: is_operand_def)
  then show ?thesis
    using assms(2)
    by cases (auto simp: make_operand_def operand_value_def res_simps split: option.splits)
qed

lemma tree_of_meaning:
  "bexp_ok e \<Longrightarrow> tree_of env e = Inr n \<Longrightarrow>
   \<exists>m. n = Some m \<and> evaluate_node (oe_call env) m = meaning env e"
proof (induction e arbitrary: n)
  case (Leaf t)
  then show ?case by (auto dest: make_operand_value)
next
  case (Not t e)
  then show ?case by (auto simp: res_simps)
next
  case (Bin t a b)
  then obtain l r where l: "tree_of env a = Inr (Some l)" "evaluate_node (oe_call env) l = meaning env a"
    and r: "tree_of env b = Inr (Some r)" "evaluate_node (oe_call env) r = meaning env b"
    and n: "n = Some (Operator (fst t) (Some l) (Some r))"
    by (fastforce simp: res_simps)
  have "fst t \<noteq> OPERATOR_NOT" using Bin.prems binary_facts(5) by auto
  with l r n show ?case by (cases "meaning env a") auto
qed

section \<open>Brackets\<close>

fun depth :: "nat \<Rightarrow> token list \<Rightarrow> nat option" where
  "depth d [] = Some d"
| "depth d (t # ts) =
     (if fst t = OPERATOR_LEFT_BRAKET then depth (Suc d) ts
      else if fst t = OPERATOR_RIGHT_BRAKET then (case d of 0 \<Rightarrow> None | Suc d' \<Rightarrow> depth d' ts)
      else depth d ts)"

definition balanced :: "token list \<Rightarrow> bool" where
  "balanced ts \<longleftrightarrow> depth 0 ts = Some 0"

definition open_brackets :: "token list \<Rightarrow> nat" where
  "open_brackets S = length (filter (\<lambda>t. fst t = OPERATOR_LEFT_BRAKET) S)"

definition stack_ok :: "token list \<Rightarrow> bool" where
  "stack_ok S \<longleftrightarrow> (\<forall>t \<in> set S. is_operator (fst t) \<or> fst t = OPERATOR_LEFT_BRAKET)"

definition queue_ok :: "token list \<Rightarrow> bool" where
  "queue_ok Q \<longleftrightarrow> (\<forall>t \<in> set Q. is_operator (fst t) \<or> is_operand (fst t))"

lemma pop_operators_keeps:
  "stack_ok S \<Longrightarrow> queue_ok Q \<Longrightarrow> pop_operators t Q S = (Q', S') \<Longrightarrow>
   open_brackets S' = open_brackets S \<and> stack_ok S' \<and> queue_ok Q'"
  by (induction t Q S rule: pop_operators.induct)
     (auto simp: stack_ok_def queue_ok_def open_brackets_def split: if_splits)

lemma pop_to_bracket_keeps:
  "stack_ok S \<Longrightarrow> queue_ok Q \<Longrightarrow>
   (case pop_to_bracket Q S of
      (Q', []) \<Rightarrow> open_brackets S = 0
    | (Q', b # S') \<Rightarrow> open_brackets S = Suc (open_brackets S') \<and> stack_ok S' \<and> queue_ok Q')"
  by (induction Q S rule: pop_to_bracket.induct) (auto simp: stack_ok_def queue_ok_def open_brackets_def)

lemma shunt_token_brackets:
  assumes "stack_ok S" and "queue_ok Q"
  shows "case depth (open_brackets S) [t] of
           None \<Rightarrow> shunt_token t (Q, S) = Inl mismatched
         | Some d \<Rightarrow> \<exists>Q' S'. shunt_token t (Q, S) = Inr (Q', S') \<and> open_brackets S' = d \<and> stack_ok S' \<and> queue_ok Q'"
proof -
  consider "is_operand (fst t)" | "is_operator (fst t)" | "fst t = OPERATOR_LEFT_BRAKET"
    | "fst t = OPERATOR_RIGHT_BRAKET" | "fst t = OPERAND_NONE"
    by (cases "fst t") (auto simp: is_operand_def is_operator_def is_binary_def)
  then show ?thesis
  proof cases
    case 1
    with assms show ?thesis
      by (auto simp: shunt_token_def is_operand_def queue_ok_def)
  next
    case 2
    obtain Q' S' where "pop_operators (fst t) Q S = (Q', S')" by fastforce
    with pop_operators_keeps[OF assms this] 2 show ?thesis
      using operator_no_bracket[OF 2]
      by (auto simp: shunt_token_def is_operator_def is_operand_def stack_ok_def open_brackets_def dest: binary_facts)
  next
    case 3
    with assms show ?thesis
      by (simp add: shunt_token_def is_operand_def is_binary_def open_brackets_def stack_ok_def)
  next
    case 4
    with pop_to_bracket_keeps[OF assms] show ?thesis
      by (auto simp: shunt_token_def is_operand_def is_binary_def split: prod.splits list.splits nat.splits)
  next
    case 5
    with assms show ?thesis by (simp add: shunt_token_def is_operand_def is_binary_def)
  qed
qed

lemma depth_Cons: "depth d (t # ts) = (case depth d [t] of None \<Rightarrow> None | Some d' \<Rightarrow> depth d' ts)"
  by (simp split: nat.splits)

lemma shunt_loop_brackets:
  "stack_ok S \<Longrightarrow> queue_ok Q \<Longrightarrow>
   (case depth (open_brackets S) ts of
      None \<Rightarrow> shunt_loop ts (Q, S) = Inl mismatched
    | Some d \<Rightarrow> \<exists>Q' S'. shunt_loop ts (Q, S) = Inr (Q', S') \<and> open_brackets S' = d \<and> stack_ok S' \<and> queue_ok Q')"
proof (induction ts arbitrary: S Q)
  case Nil
  then show ?case by simp
next
  case (Cons t ts)
  show ?case
  proof (cases "depth (open_brackets S) [t]")
    case None
    with shunt_token_brackets[OF Cons.prems, of t] show ?thesis by (subst depth_Cons) simp
  next
    case (Some d)
    with shunt_token_brackets[OF Cons.prems, of t] obtain Q1 S1
      where "shunt_token t (Q, S) = Inr (Q1, S1)" "open_brackets S1 = d" "stack_ok S1" "queue_ok Q1" by auto
    moreover have "shunt_loop (t # ts) (Q, S) = shunt_loop ts (Q1, S1)" using calculation(1) by simp
    moreover have "depth (open_brackets S) (t # ts) = depth d ts"
      by (subst depth_Cons) (simp only: Some option.case)
    ultimately show ?thesis using Cons.IH[of S1 Q1] by (cases "depth d ts") (simp_all del: depth.simps shunt_loop.simps)
  qed
qed

lemma drain_brackets:
  "stack_ok S \<Longrightarrow> queue_ok Q \<Longrightarrow>
   (if open_brackets S = 0 then \<exists>Q'. drain Q S = Inr Q' \<and> queue_ok Q' else drain Q S = Inl mismatched)"
proof (induction Q S rule: drain.induct)
  case (2 Q t S)
  show ?case
  proof (cases "fst t = OPERATOR_LEFT_BRAKET")
    case False
    with 2 have "is_operator (fst t)" by (auto simp: stack_ok_def)
    with 2 False show ?thesis
      using operator_no_bracket[of "fst t"] by (auto simp: stack_ok_def queue_ok_def open_brackets_def)
  qed (simp add: open_brackets_def)
qed (simp add: open_brackets_def)

lemma shuting_yards_brackets:
  assumes "ts \<noteq> []"
  shows "if balanced ts then \<exists>Q. shuting_yards ts = Inr Q \<and> queue_ok Q else shuting_yards ts = Inl mismatched"
proof -
  have "stack_ok []" "queue_ok []" "open_brackets [] = 0" by (simp_all add: stack_ok_def queue_ok_def open_brackets_def)
  with shunt_loop_brackets[of "[]" "[]" ts] show ?thesis
    using assms drain_brackets
    by (cases "depth 0 ts") (fastforce simp: balanced_def shuting_yards_def split: if_splits)+
qed

section \<open>Trees are complete\<close>

fun complete_tree :: "'f node \<Rightarrow> bool" where
  "complete_tree (Operator oper (Some l) (Some r)) = (is_binary oper \<and> complete_tree l \<and> complete_tree r)"
| "complete_tree (Operator oper (Some l) None) = (oper = OPERATOR_NOT \<and> complete_tree l)"
| "complete_tree (Operator oper None r) = False"
| "complete_tree _ = True"

definition env_defined :: "'f operand_env \<Rightarrow> bool" where
  "env_defined env \<longleftrightarrow>
     (\<forall>s. oe_stod env s \<noteq> Inl Undefined) \<and> (\<forall>s. oe_try_row_int_value env s \<noteq> Inl Undefined) \<and>
     (\<forall>s. oe_get_function env s \<noteq> Inl Undefined) \<and> (\<forall>f. oe_call env f \<noteq> Inl Undefined)"

lemma make_operand_complete:
  assumes "is_operand (fst t)" and "env_defined env"
  shows "make_operand env t \<noteq> Inl Undefined" and "make_operand env t = Inr n \<Longrightarrow> \<exists>m. n = Some m \<and> complete_tree m"
proof -
  from assms(1) consider "fst t = OPERAND_CONSTANT" | "fst t = OPERAND_ENUM" | "fst t = OPERAND_FUNCTION"
    by (auto simp: is_operand_def)
  then show "make_operand env t \<noteq> Inl Undefined"
    using assms(2) by cases (auto simp: make_operand_def env_defined_def res_map_def res_simps split: option.splits)
  from \<open>is_operand (fst t)\<close> show "make_operand env t = Inr n \<Longrightarrow> \<exists>m. n = Some m \<and> complete_tree m"
    by (auto simp: is_operand_def make_operand_def res_simps split: option.splits)
qed

definition nodes_ok :: "'f node option list \<Rightarrow> bool" where
  "nodes_ok ns \<longleftrightarrow> (\<forall>n \<in> set ns. \<exists>m. n = Some m \<and> complete_tree m)"

lemma build_loop_complete:
  "queue_ok Q \<Longrightarrow> env_defined env \<Longrightarrow> nodes_ok nodes \<Longrightarrow>
   build_loop env Q nodes \<noteq> Inl Undefined \<and> (\<forall>ns. build_loop env Q nodes = Inr ns \<longrightarrow> nodes_ok ns)"
proof (induction Q arbitrary: nodes)
  case Nil
  then show ?case by simp
next
  case (Cons t Q)
  have Q: "queue_ok Q" using Cons.prems by (simp add: queue_ok_def)
  consider "is_operand (fst t)" | "is_binary (fst t)" | "fst t = OPERATOR_NOT"
    using Cons.prems by (auto simp: queue_ok_def is_operator_def)
  then show ?case
  proof cases
    case 1
    show ?thesis
    proof (cases "make_operand env t")
      case (Inl e)
      with 1 make_operand_complete(1)[OF 1 Cons.prems(2)] show ?thesis by simp
    next
      case (Inr n)
      with make_operand_complete(2)[OF 1 Cons.prems(2)] Cons.prems have "nodes_ok (n # nodes)"
        by (auto simp: nodes_ok_def)
      with Cons.IH[OF Q Cons.prems(2)] 1 Inr show ?thesis by simp
    qed
  next
    case 2
    note facts = binary_facts[OF 2]
    show ?thesis
    proof (cases "\<exists>a b rest. nodes = a # b # rest")
      case True
      then obtain a b rest where n: "nodes = a # b # rest" by blast
      with Cons.prems 2 have "nodes_ok (Some (Operator (fst t) b a) # rest)"
        by (auto simp: nodes_ok_def)
      with Cons.IH[OF Q Cons.prems(2)] 2 facts n show ?thesis by (simp add: make_operator_def)
    next
      case False
      with 2 facts show ?thesis by (auto simp: insufficient_def split: list.splits)
    qed
  next
    case 3
    show ?thesis
    proof (cases nodes)
      case Nil
      with 3 show ?thesis by (simp add: is_operand_def is_binary_def insufficient_def)
    next
      case (Cons a rest)
      with Cons.prems have "nodes_ok (Some (Operator OPERATOR_NOT a None) # rest)"
        by (auto simp: nodes_ok_def)
      with Cons.IH[OF Q Cons.prems(2)] 3 Cons show ?thesis
        by (simp add: is_operand_def is_binary_def make_operator_def)
    qed
  qed
qed

lemma evaluate_complete:
  "complete_tree n \<Longrightarrow> (\<forall>f. call f \<noteq> Inl Undefined) \<Longrightarrow> evaluate_node call n \<noteq> Inl Undefined"
proof (induction call n rule: evaluate_node.induct)
  case (5 call oper l)
  then show ?case by (auto simp: res_map_def res_simps)
next
  case (6 call oper l r)
  then show ?case using binary_facts(5)[of oper] by (auto simp: res_map_def res_simps split: if_splits)
qed auto

section \<open>Properties\<close>

text \<open>C30. An expression printed with the least brackets that priorities and left associativity
  require is parsed back: the tree that \<^verbatim>\<open>build_parse_tree\<close> makes of the tokens evaluates to the
  meaning of the expression, NOT, comparisons, AND and OR binding in this order, AND and OR leaving
  out their right side when the left one decides.\<close>

theorem expression_meaning:
  assumes "bexp_ok e" and "tree_of env e = Inr root_node"
  shows "build_parse_tree env (unparse 0 e) = Inr root_node \<and>
         evaluate_expression env root_node = res_map dbl_true (meaning env e)"
proof -
  obtain m where "root_node = Some m" "evaluate_node (oe_call env) m = meaning env e"
    using tree_of_meaning[OF assms] by blast
  moreover have "(\<lambda>v. \<not> dbl_eq v (Fin 0)) = dbl_true" by (simp add: fun_eq_iff dbl_true_def)
  ultimately show ?thesis
    using assms by (simp add: build_parse_tree_unparse evaluate_expression_def)
qed

definition sample_env :: "nat operand_env" where
  "sample_env =
     \<lparr>oe_stod = (\<lambda>s. if s = ''x'' then Inl (Throws (Invalid_argument ''stod'')) else Inr (Fin (of_nat (length s)))),
      oe_try_row_int_value = (\<lambda>s. Inr (if s = ''E'' then Some 3 else None)),
      oe_get_function = (\<lambda>s. if s = ''GetA'' then Inr 7 else Inl (Throws (Runtime_error ''function does not exist''))),
      oe_call = (\<lambda>f. Inr (Fin (of_nat f)))\<rparr>"

theorem expression_meaning_witness:
  "\<exists>n. build_parse_tree sample_env
         [LB, (OPERAND_FUNCTION, ''GetA''), (OPERATOR_LT, ''<''), (OPERAND_CONSTANT, ''12''), RB] = Inr n \<and>
       evaluate_expression sample_env n = Inr False"
proof -
  let ?e = "Bin (OPERATOR_LT, ''<'') (Leaf (OPERAND_FUNCTION, ''GetA'')) (Leaf (OPERAND_CONSTANT, ''12''))"
  let ?n = "Some (Operator OPERATOR_LT (Some (Operand_function 7)) (Some (Operand_constant (Fin 2))))"
  have "bexp_ok ?e" by (simp add: is_operand_def is_binary_def)
  moreover have "tree_of sample_env ?e = Inr ?n" by (simp add: make_operand_def sample_env_def)
  ultimately have "build_parse_tree sample_env (unparse 0 ?e) = Inr ?n \<and>
      evaluate_expression sample_env ?n = res_map dbl_true (meaning sample_env ?e)"
    by (rule expression_meaning)
  moreover have "meaning sample_env ?e = Inr (Fin 0)"
    by (simp add: operand_value_def sample_env_def dbl_of_bool_def)
  moreover have "build_parse_tree sample_env
         [LB, (OPERAND_FUNCTION, ''GetA''), (OPERATOR_LT, ''<''), (OPERAND_CONSTANT, ''12''), RB] = Inr ?n"
    by (simp add: build_parse_tree_def shuting_yards_def shunt_token_def LB_def RB_def is_operand_def is_binary_def
        make_operand_def make_operator_def sample_env_def)
  ultimately show ?thesis by (simp add: dbl_true_def dbl_eq_def)
qed

text \<open>C32. Brackets: a token vector is put into postfix order exactly when its brackets match, and
  otherwise the constructor of the expression throws the error for mismatched parentheses.\<close>

theorem brackets_are_checked:
  assumes "tokens \<noteq> []"
  shows "(balanced tokens \<longleftrightarrow> (\<exists>queue. shuting_yards tokens = Inr queue)) \<and>
         (balanced tokens \<or> build_parse_tree env tokens = Inl (Throws (Logic_error ''mismatched parentheses'')))"
  using shuting_yards_brackets[OF assms]
  by (auto simp: build_parse_tree_def mismatched_def split: if_splits)

theorem brackets_are_checked_witness:
  "build_parse_tree sample_env [LB, (OPERAND_CONSTANT, ''1'')] = Inl (Throws (Logic_error ''mismatched parentheses''))"
  using brackets_are_checked[of "[LB, (OPERAND_CONSTANT, ''1'')]" sample_env]
  by (simp add: balanced_def LB_def)

text \<open>C31. No token vector makes the parser or the evaluation misbehave: parsing returns or throws,
  and a tree that is returned has the children its operators use, so evaluating it never follows a
  null pointer.\<close>

theorem expression_is_safe:
  assumes "env_defined env"
  shows "build_parse_tree env tokens \<noteq> Inl Undefined \<and>
         (\<forall>n. build_parse_tree env tokens = Inr n \<longrightarrow> evaluate_expression env n \<noteq> Inl Undefined)"
proof (cases "\<exists>queue. shuting_yards tokens = Inr queue \<and> queue_ok queue")
  case True
  then obtain queue where q: "shuting_yards tokens = Inr queue" "queue_ok queue" by blast
  have "nodes_ok []" by (simp add: nodes_ok_def)
  from build_loop_complete[OF q(2) assms this]
  have b: "build_loop env queue [] \<noteq> Inl Undefined" "\<And>ns. build_loop env queue [] = Inr ns \<Longrightarrow> nodes_ok ns" by auto
  show ?thesis
  proof (cases "build_loop env queue []")
    case (Inl e)
    with b(1) q(1) show ?thesis by (simp add: build_parse_tree_def)
  next
    case (Inr ns)
    then have "nodes_ok ns" by (rule b(2))
    moreover have "complete_tree m \<Longrightarrow> evaluate_node (oe_call env) m \<noteq> Inl Undefined" for m
      using assms evaluate_complete[of m "oe_call env"] by (simp add: env_defined_def)
    ultimately show ?thesis
      using q(1) Inr
      by (auto simp: build_parse_tree_def insufficient_def evaluate_expression_def nodes_ok_def res_map_def res_simps
          split: list.splits)
  qed
next
  case False
  then have "shuting_yards tokens = Inl mismatched \<or> tokens = []"
    using shuting_yards_brackets[of tokens] by (auto split: if_splits)
  then show ?thesis by (auto simp: build_parse_tree_def mismatched_def shuting_yards_def)
qed

theorem expression_is_safe_witness:
  "env_defined sample_env \<and> build_parse_tree sample_env [(OPERATOR_NOT, ''!''), RB] \<noteq> Inl Undefined"
proof -
  have "env_defined sample_env" by (simp add: env_defined_def sample_env_def)
  with expression_is_safe[OF this] show ?thesis by blast
qed

end
