(* ===== verification/Strings_Util.thy ===== *)
theory Strings_Util
  imports Cpp_Prelude
begin

text \<open>
  The string helpers of \<^verbatim>\<open>Include/utils/strings.hpp\<close>: splitting at a delimiter, hexadecimal
  text to and from buffers, and the printers and parsers of the enumerations that appear in
  configuration files.

  A C string is the list of its characters before the terminating NUL. \<open>split_string\<close> runs forever
  on an empty delimiter, so it is a \<^theory_text>\<open>partial_function\<close>: \<open>None\<close> is "does not return".
\<close>

section \<open>Searching and splitting\<close>

definition matches_at :: "string \<Rightarrow> string \<Rightarrow> nat \<Rightarrow> bool" where
  "matches_at str pat i \<longleftrightarrow> i + length pat \<le> length str \<and> take (length pat) (drop i str) = pat"

text \<open>\<^verbatim>\<open>std::string::find(pat, pos)\<close>; \<open>None\<close> is \<^verbatim>\<open>npos\<close>.\<close>

function str_find :: "string \<Rightarrow> string \<Rightarrow> nat \<Rightarrow> nat option" where
  "str_find str pat i =
     (if i > length str then None
      else if matches_at str pat i then Some i
      else str_find str pat (Suc i))"
  by pat_completeness auto
termination
  by (relation "measure (\<lambda>(str, pat, i). Suc (length str) - i)") auto

declare str_find.simps [simp del]

partial_function (option) split_loop :: "string \<Rightarrow> string \<Rightarrow> nat \<Rightarrow> string list \<Rightarrow> string list option" where
  "split_loop str delim prev tokens =
     (let pos = (case str_find str delim prev of None \<Rightarrow> length str | Some p \<Rightarrow> p);
          token = take (pos - prev) (drop prev str);
          tokens' = (if token \<noteq> [] then tokens @ [token] else tokens);
          prev' = pos + length delim
      in if pos < length str \<and> prev' < length str then split_loop str delim prev' tokens'
         else Some tokens')"

definition split_string :: "string \<Rightarrow> string \<Rightarrow> string list option" where
  "split_string str delim = split_loop str delim 0 []"

section \<open>Hexadecimal text\<close>

definition char_in :: "char \<Rightarrow> char \<Rightarrow> char \<Rightarrow> bool" where
  "char_in lo c hi \<longleftrightarrow> (of_char lo :: nat) \<le> of_char c \<and> (of_char c :: nat) \<le> of_char hi"

definition is_space :: "char \<Rightarrow> bool" where
  "is_space c \<longleftrightarrow> c = CHR '' '' \<or> char_in (CHR 0x09) c (CHR 0x0D)"

definition is_digit_char :: "char \<Rightarrow> bool" where
  "is_digit_char c = char_in CHR ''0'' c CHR ''9''"

definition hex_char2int :: "char \<Rightarrow> byte result" where
  "hex_char2int input =
     (if char_in CHR ''0'' input CHR ''9'' then Inr (of_nat (of_char input - of_char CHR ''0''))
      else if char_in CHR ''A'' input CHR ''F'' then Inr (of_nat (of_char input - of_char CHR ''A'' + 10))
      else if char_in CHR ''a'' input CHR ''f'' then Inr (of_nat (of_char input - of_char CHR ''a'' + 10))
      else Inl (Throws (Invalid_argument ''Invalid input string'')))"

text \<open>One upper-case digit of \<^verbatim>\<open>%02hhX\<close>.\<close>

definition hex_digit :: "nat \<Rightarrow> char" where
  "hex_digit n = (if n < 10 then char_of (48 + n) else char_of (55 + n))"

definition print_02hhX :: "byte \<Rightarrow> string" where
  "print_02hhX b = [hex_digit (unat b div 16), hex_digit (unat b mod 16)]"

fun buf2hex_loop :: "bytes \<Rightarrow> nat \<Rightarrow> string \<Rightarrow> string result" where
  "buf2hex_loop [] j str = Inr str"
| "buf2hex_loop (b # bs) j str =
     res_bind (mem_write str (j * 2) (print_02hhX b @ [char_of (0::nat)])) (buf2hex_loop bs (Suc j))"

definition buf2hex_string :: "bytes \<Rightarrow> size_t \<Rightarrow> string \<Rightarrow> size_t \<Rightarrow> (bool \<times> string) result" where
  "buf2hex_string buf buff_size str str_size =
     (if buff_size * 2 + 1 > str_size then Inr (False, str)
      else res_bind (mem_read buf 0 (unat buff_size))
             (\<lambda>bs. res_map (\<lambda>s. (True, s)) (buf2hex_loop bs 0 str)))"

fun hex2buf_loop :: "string \<Rightarrow> bytes \<Rightarrow> nat \<Rightarrow> (bytes \<times> nat) result" where
  "hex2buf_loop (h # l # str) buf n =
     res_bind (hex_char2int h) (\<lambda>hi. res_bind (hex_char2int l) (\<lambda>lo.
       res_bind (mem_write buf n [hi * 16 + lo]) (\<lambda>buf'. hex2buf_loop str buf' (Suc n))))"
| "hex2buf_loop _ buf n = Inr (buf, n)"

definition hex_string2buf :: "string option \<Rightarrow> bytes \<Rightarrow> nat \<Rightarrow> nat \<Rightarrow> (bool \<times> bytes \<times> nat) result" where
  "hex_string2buf str buf buf_max_size buf_actual_size =
     (case str of
        None \<Rightarrow> Inr (False, buf, buf_actual_size)
      | Some s \<Rightarrow>
          if length s mod 2 \<noteq> 0 then Inr (False, buf, buf_actual_size)
          else if length s div 2 > buf_max_size then Inr (False, buf, buf_actual_size)
          else res_map (\<lambda>r. (True, r)) (hex2buf_loop s buf 0))"

text \<open>The characters of an array before the first NUL.\<close>

definition c_string :: "string \<Rightarrow> string" where
  "c_string arr = takeWhile (\<lambda>c. c \<noteq> char_of (0::nat)) arr"

section \<open>Enumerations as text\<close>

definition toupper :: "char \<Rightarrow> char" where
  "toupper c = (if char_in CHR ''a'' c CHR ''z'' then char_of (of_char c - 32 :: nat) else c)"

datatype severity = TRACE | DEBUG | INFO | WARNING | ERROR | FATAL

fun severity_stream :: "severity \<Rightarrow> string" where
  "severity_stream TRACE = ''TRACE''"
| "severity_stream DEBUG = ''DEBUG''"
| "severity_stream INFO = ''INFO''"
| "severity_stream WARNING = ''WARNINIG''"
| "severity_stream ERROR = ''ERROR''"
| "severity_stream FATAL = ''FATAL''"

definition parse_severity :: "string option \<Rightarrow> severity option" where
  "parse_severity str =
     (case str of
        None \<Rightarrow> None
      | Some s \<Rightarrow>
          let severity_str = map toupper s in
          if severity_str = ''TRACE'' then Some TRACE
          else if severity_str = ''DEBUG'' then Some DEBUG
          else if severity_str = ''INFO'' then Some INFO
          else if severity_str = ''WARNING'' then Some WARNING
          else if severity_str = ''ERROR'' then Some ERROR
          else if severity_str = ''FATAL'' then Some FATAL
          else None)"

fun severity_name :: "severity \<Rightarrow> string" where
  "severity_name TRACE = ''TRACE''"
| "severity_name DEBUG = ''DEBUG''"
| "severity_name INFO = ''INFO''"
| "severity_name WARNING = ''WARNING''"
| "severity_name ERROR = ''ERROR''"
| "severity_name FATAL = ''FATAL''"

datatype pixel_format =
    RGB | RGBA | BGR | BGRA | I420 | NV12 | YUY2 | UYVY | GRAY8 | GRAY16_LE | UNDEFINED_PIXEL_FORMAT

fun pixel_format_stream :: "pixel_format \<Rightarrow> string" where
  "pixel_format_stream RGB = ''RGB''"
| "pixel_format_stream RGBA = ''RGBA''"
| "pixel_format_stream BGR = ''BGR''"
| "pixel_format_stream BGRA = ''BGRA''"
| "pixel_format_stream I420 = ''I420''"
| "pixel_format_stream NV12 = ''NV12''"
| "pixel_format_stream YUY2 = ''YUY2''"
| "pixel_format_stream UYVY = ''UYVY''"
| "pixel_format_stream GRAY8 = ''GRAY8''"
| "pixel_format_stream GRAY16_LE = ''GRAY16_LE''"
| "pixel_format_stream UNDEFINED_PIXEL_FORMAT = ''UNDEFINED''"

definition pixel_formats :: "pixel_format list" where
  "pixel_formats =
     [RGB, RGBA, BGR, BGRA, I420, NV12, YUY2, UYVY, GRAY8, GRAY16_LE, UNDEFINED_PIXEL_FORMAT]"

text \<open>The loop over the enumeration values, in the order of their codes.\<close>

definition parse_pixel_format :: "string \<Rightarrow> pixel_format option" where
  "parse_pixel_format str = find (\<lambda>f. map toupper str = pixel_format_stream f) pixel_formats"

datatype colors = UNDEFINED_COLOR | RED | GREEN | YELLOW | BLUE | MAGENTA | CYAN | WHITE

definition parse_color :: "string \<Rightarrow> colors option" where
  "parse_color str =
     (let color_str = map toupper str in
      if color_str = ''RED'' then Some RED
      else if color_str = ''GREEN'' then Some GREEN
      else if color_str = ''YELLOW'' then Some YELLOW
      else if color_str = ''BLUE'' then Some BLUE
      else if color_str = ''MAGENTA'' then Some MAGENTA
      else if color_str = ''CYAN'' then Some CYAN
      else if color_str = ''WHITE'' then Some WHITE
      else None)"

section \<open>Splitting, specified on the text itself\<close>

text \<open>
  The reference: cut at the first occurrence of the delimiter, again in what follows it. \<open>join\<close>
  puts the pieces together again.
\<close>

function split_ref :: "string \<Rightarrow> string \<Rightarrow> string list" where
  "split_ref str delim =
     (if delim = [] then [str]
      else case str_find str delim 0 of
             None \<Rightarrow> [str]
           | Some p \<Rightarrow> take p str # split_ref (drop (p + length delim) str) delim)"
  by pat_completeness auto
termination
proof (relation "measure (\<lambda>(str, delim). length str)", goal_cases)
  case (2 str delim p)
  have "matches_at str delim p" if "str_find str delim i = Some p" for i
    using that by (induction str delim i rule: str_find.induct)
      (metis option.distinct(1) option.sel str_find.simps)
  with 2 have "p + length delim \<le> length str" by (auto simp: matches_at_def)
  moreover have "0 < length delim" using 2 by simp
  ultimately have "length str - (p + length delim) < length str" by arith
  then show ?case by simp
qed simp

declare split_ref.simps [simp del]

fun join :: "string \<Rightarrow> string list \<Rightarrow> string" where
  "join delim [] = []"
| "join delim [t] = t"
| "join delim (t # ts) = t @ delim @ join delim ts"

lemma str_find_SomeD:
  "str_find str pat i = Some p \<Longrightarrow>
   i \<le> p \<and> matches_at str pat p \<and> (\<forall>j. i \<le> j \<and> j < p \<longrightarrow> \<not> matches_at str pat j)"
proof (induction str pat i rule: str_find.induct)
  case (1 str pat i)
  show ?case
  proof (cases "i \<le> length str \<and> \<not> matches_at str pat i")
    case True
    with 1 have "Suc i \<le> p \<and> matches_at str pat p \<and> (\<forall>j. Suc i \<le> j \<and> j < p \<longrightarrow> \<not> matches_at str pat j)"
      by (simp add: str_find.simps[of str pat i])
    with True show ?thesis by (metis Suc_leI le_neq_implies_less Suc_leD)
  next
    case False
    with 1 show ?thesis by (auto simp: str_find.simps[of str pat i] split: if_splits)
  qed
qed

lemma str_find_NoneD: "str_find str pat i = None \<Longrightarrow> i \<le> j \<Longrightarrow> \<not> matches_at str pat j"
proof (induction str pat i rule: str_find.induct)
  case (1 str pat i)
  show ?case
  proof (cases "i > length str")
    case True
    with 1 show ?thesis by (auto simp: matches_at_def)
  next
    case False
    with 1 have "\<not> matches_at str pat i" "Suc i \<le> j \<longrightarrow> \<not> matches_at str pat j"
      by (auto simp: str_find.simps[of str pat i] split: if_splits)
    with 1 show ?thesis by (cases "i = j") auto
  qed
qed

lemma matches_at_drop: "prev \<le> length str \<Longrightarrow> matches_at (drop prev str) pat i = matches_at str pat (prev + i)"
  by (auto simp: matches_at_def add.commute)

lemma str_find_drop:
  "prev \<le> length str \<Longrightarrow>
   str_find str pat (prev + i) = map_option ((+) prev) (str_find (drop prev str) pat i)"
proof (induction "Suc (length str) - (prev + i)" arbitrary: i)
  case 0
  then have "length str < prev + i" "length (drop prev str) < i" by auto
  then show ?case by (simp add: str_find.simps[of _ _ "prev + i"] str_find.simps[of _ _ i])
next
  case (Suc n)
  then have "str_find str pat (prev + Suc i) = map_option ((+) prev) (str_find (drop prev str) pat (Suc i))"
    by (intro Suc.hyps) auto
  moreover have "prev + i \<le> length str" "i \<le> length (drop prev str)" using Suc by auto
  ultimately show ?case using Suc.prems
    by (simp add: str_find.simps[of _ _ "prev + i"] str_find.simps[of _ _ i] matches_at_drop)
qed

lemma split_loop_eq:
  "delim \<noteq> [] \<Longrightarrow> prev \<le> length str \<Longrightarrow>
   split_loop str delim prev tokens =
     Some (tokens @ filter (\<lambda>t. t \<noteq> []) (split_ref (drop prev str) delim))"
proof (induction "length str - prev" arbitrary: prev tokens rule: less_induct)
  case less
  have find: "str_find str delim prev = map_option ((+) prev) (str_find (drop prev str) delim 0)"
    using str_find_drop[OF less.prems(2), of delim 0] by simp
  show ?case
  proof (cases "str_find (drop prev str) delim 0")
    case None
    with less.prems find show ?thesis
      by (simp add: split_loop.simps[of str delim prev] split_ref.simps[of "drop prev str"])
  next
    case (Some p)
    then have "matches_at (drop prev str) delim p"
      using str_find_SomeD by blast
    with less.prems(2) have p: "prev + p + length delim \<le> length str"
      by (auto simp: matches_at_def)
    have tl: "split_ref (drop prev str) delim =
        take p (drop prev str) # split_ref (drop (prev + p + length delim) str) delim"
      using Some less.prems(1) by (simp add: split_ref.simps[of "drop prev str"] add.commute add.left_commute)
    let ?toks = "if take p (drop prev str) \<noteq> [] then tokens @ [take p (drop prev str)] else tokens"
    show ?thesis
    proof (cases "prev + p + length delim < length str")
      case True
      moreover have "0 < length delim" using less.prems(1) by simp
      ultimately have "split_loop str delim (prev + p + length delim) ?toks =
          Some (?toks @ filter (\<lambda>t. t \<noteq> []) (split_ref (drop (prev + p + length delim) str) delim))"
        using less.prems(1) by (intro less.hyps) linarith+
      with True Some find tl less.prems(1) show ?thesis
        by (cases "p = 0") (simp_all add: split_loop.simps[of str delim prev] Let_def)
    next
      case False
      with p have "drop (prev + p + length delim) str = []" by simp
      then have "split_ref (drop (prev + p + length delim) str) delim = [[]]"
        using less.prems(1) by (simp add: split_ref.simps[of "[]"] str_find.simps[of "[]"] matches_at_def)
      with False Some find tl less.prems(1) p show ?thesis
        by (simp add: split_loop.simps[of str delim prev] Let_def)
    qed
  qed
qed

lemma split_ref_pieces:
  "delim \<noteq> [] \<Longrightarrow>
   split_ref str delim \<noteq> [] \<and> join delim (split_ref str delim) = str \<and>
   (\<forall>t \<in> set (split_ref str delim). \<forall>i. \<not> matches_at t delim i)"
proof (induction str delim rule: split_ref.induct)
  case (1 str delim)
  show ?case
  proof (cases "str_find str delim 0")
    case None
    then have "\<not> matches_at str delim i" for i using str_find_NoneD by blast
    with None 1 show ?thesis by (simp add: split_ref.simps[of str])
  next
    case (Some p)
    let ?rest = "split_ref (drop (p + length delim) str) delim"
    have IH: "?rest \<noteq> []" "join delim ?rest = drop (p + length delim) str"
      "\<forall>t \<in> set ?rest. \<forall>i. \<not> matches_at t delim i"
      using 1 Some by simp_all
    have m: "matches_at str delim p" and nm: "\<And>j. j < p \<Longrightarrow> \<not> matches_at str delim j"
      using str_find_SomeD[OF Some] by auto
    have "\<not> matches_at (take p str) delim i" for i
    proof
      assume m': "matches_at (take p str) delim i"
      then have "i + length delim \<le> p" by (simp add: matches_at_def)
      moreover have "0 < length delim" using "1.prems" by simp
      ultimately have "i < p" by arith
      moreover have "matches_at str delim i"
        using m' \<open>i + length delim \<le> p\<close> by (auto simp: matches_at_def drop_take)
      ultimately show False using nm by blast
    qed
    moreover have "join delim (take p str # ?rest) = take p str @ delim @ drop (p + length delim) str"
      using IH by (cases ?rest) auto
    moreover have "\<dots> = str"
      using m unfolding matches_at_def by (metis append_take_drop_id drop_drop add.commute)
    ultimately show ?thesis
      using IH Some "1.prems" by (simp add: split_ref.simps[of str])
  qed
qed

lemma split_string_ref:
  "delim \<noteq> [] \<Longrightarrow> split_string str delim = Some (filter (\<lambda>t. t \<noteq> []) (split_ref str delim))"
  by (simp add: split_string_def split_loop_eq)

lemma join_length: "ts \<noteq> [] \<Longrightarrow> sum_list (map length ts) \<le> length (join delim ts)"
  by (induction delim ts rule: join.induct) auto

lemma filter_sum_list: "sum_list (map length (filter P ts)) \<le> sum_list (map length ts)"
  by (induction ts) auto

lemma split_string_lengths:
  assumes "delim \<noteq> []" and "split_string str delim = Some ts"
  shows "sum_list (map length ts) \<le> length str \<and> (\<forall>t \<in> set ts. t \<noteq> [])"
proof -
  have ts: "ts = filter (\<lambda>t. t \<noteq> []) (split_ref str delim)"
    using assms by (simp add: split_string_ref)
  have "sum_list (map length (split_ref str delim)) \<le> length str"
    using split_ref_pieces[OF assms(1), of str] join_length by metis
  with ts show ?thesis
    using filter_sum_list[of "\<lambda>t. t \<noteq> []" "split_ref str delim"] by auto
qed

section \<open>Hexadecimal digits\<close>

lemma of_char_char_of_small: "n < 256 \<Longrightarrow> (of_char (char_of n) :: nat) = n"
  by simp

lemma hex_char2int_digit: "n < 16 \<Longrightarrow> hex_char2int (hex_digit n) = Inr (of_nat n)"
proof -
  assume "n < 16"
  then have "n \<in> {0, 1, 2, 3, 4, 5, 6, 7, 8, 9, 10, 11, 12, 13, 14, 15}"
    unfolding insert_iff empty_iff by presburger
  then show ?thesis
    by (elim insertE emptyE) (simp_all add: hex_digit_def hex_char2int_def char_in_def)
qed

lemma hex_digit_not_NUL: "n < 16 \<Longrightarrow> hex_digit n \<noteq> char_of (0::nat)"
  by (cases "n < 10") (simp_all add: hex_digit_def char_of_eq_iff take_bit_nat_eq_self)

lemma byte_nibbles: "of_nat (unat b div 16) * 16 + of_nat (unat b mod 16) = (b :: byte)"
proof -
  have "of_nat (unat b div 16) * 16 + of_nat (unat b mod 16) = (of_nat (unat b div 16 * 16 + unat b mod 16) :: byte)"
    by (simp only: of_nat_add of_nat_mult of_nat_numeral)
  also have "\<dots> = of_nat (unat b)" by (simp only: div_mult_mod_eq)
  finally show ?thesis by simp
qed

lemma nibbles_less: "unat (b :: byte) div 16 < 16" "unat (b :: byte) mod 16 < 16"
proof -
  have "unat b < 256" using unsigned_less[of b] by simp
  then show "unat b div 16 < 16" by auto
qed simp

definition hex_text :: "bytes \<Rightarrow> string" where
  "hex_text bs = concat (map print_02hhX bs)"

lemma length_hex_text [simp]: "length (hex_text bs) = 2 * length bs"
  by (induction bs) (auto simp: hex_text_def print_02hhX_def)

lemma hex_text_no_NUL: "c \<in> set (hex_text bs) \<Longrightarrow> c \<noteq> char_of (0::nat)"
  using hex_digit_not_NUL[OF nibbles_less(1)] hex_digit_not_NUL[OF nibbles_less(2)]
  by (simp add: hex_text_def print_02hhX_def) metis

lemma buf2hex_loop_eq:
  "bs \<noteq> [] \<Longrightarrow> 2 * (j + length bs) < length str \<Longrightarrow>
   buf2hex_loop bs j str =
     Inr (take (2 * j) str @ hex_text bs @ [char_of (0::nat)] @ drop (Suc (2 * (j + length bs))) str)"
proof (induction bs arbitrary: j str)
  case Nil
  then show ?case by simp
next
  case (Cons b bs)
  let ?w = "print_02hhX b @ [char_of (0::nat)]"
  let ?str = "take (2 * j) str @ ?w @ drop (2 * j + 3) str"
  have len: "length ?w = 3" by (simp add: print_02hhX_def)
  from Cons.prems have w: "mem_write str (j * 2) ?w = Inr ?str"
    by (simp add: mem_write_def print_02hhX_def mult.commute numeral_3_eq_3)
  show ?case
  proof (cases "bs = []")
    case True
    with w show ?thesis by (simp add: hex_text_def numeral_3_eq_3)
  next
    case False
    have "take (2 * Suc j) ?str = take (2 * j) str @ print_02hhX b"
      using Cons.prems by (simp add: print_02hhX_def)
    moreover have "drop (Suc (2 * (Suc j + length bs))) ?str = drop (Suc (2 * (j + length (b # bs)))) str"
    proof -
      have "length (take (2 * j) str @ ?w) = 2 * j + 3" using Cons.prems len by simp
      then have "drop (2 * j + 3 + 2 * length bs) ((take (2 * j) str @ ?w) @ drop (2 * j + 3) str) =
          drop (2 * length bs) (drop (2 * j + 3) str)"
        by (simp only: drop_append) simp
      then show ?thesis by (simp add: numeral_3_eq_3 add.commute)
    qed
    moreover have "length ?str = length str"
      using Cons.prems by (simp add: print_02hhX_def)
    ultimately show ?thesis
      using Cons.IH[OF False, of "Suc j" ?str] Cons.prems w by (simp add: hex_text_def)
  qed
qed

lemma hex2buf_loop_text:
  "n + length bs \<le> length buf \<Longrightarrow>
   hex2buf_loop (hex_text bs) buf n = Inr (take n buf @ bs @ drop (n + length bs) buf, n + length bs)"
proof (induction bs arbitrary: n buf)
  case Nil
  then show ?case by (simp add: hex_text_def)
next
  case (Cons b bs)
  then have w: "mem_write buf n [b] = Inr (take n buf @ [b] @ drop (Suc n) buf)"
    by (simp add: mem_write_def)
  have "hex2buf_loop (hex_text (b # bs)) buf n =
      hex2buf_loop (hex_text bs) (take n buf @ [b] @ drop (Suc n) buf) (Suc n)"
    using w by (simp add: hex_text_def print_02hhX_def hex_char2int_digit nibbles_less byte_nibbles)
  with Cons.IH[of "Suc n" "take n buf @ [b] @ drop (Suc n) buf"] Cons.prems show ?case
    by (simp add: add.commute)
qed

lemma c_string_stop: "\<forall>c \<in> set xs. c \<noteq> char_of (0::nat) \<Longrightarrow> c_string (xs @ [char_of (0::nat)] @ ys) = xs"
  by (simp add: c_string_def takeWhile_append2)

section \<open>Properties\<close>

text \<open>For every non-empty delimiter \<^verbatim>\<open>split_string\<close> returns, and what it returns are the
  non-empty ones among pieces that contain no delimiter and that give the string back when they
  are joined by it.\<close>

theorem split_string_correct:
  assumes "delim \<noteq> []"
  shows "\<exists>ts. split_string str delim = Some (filter (\<lambda>t. t \<noteq> []) ts) \<and>
              join delim ts = str \<and> (\<forall>t \<in> set ts. \<forall>i. \<not> matches_at t delim i)"
  using split_string_ref[OF assms, of str] split_ref_pieces[OF assms, of str] by blast

theorem split_string_correct_witness:
  "split_string ''a.b'' ''.'' = Some [''a'', ''b''] \<and>
   (\<exists>ts. split_string ''a.b'' ''.'' = Some (filter (\<lambda>t. t \<noteq> []) ts) \<and>
         join ''.'' ts = ''a.b'' \<and> (\<forall>t \<in> set ts. \<forall>i. \<not> matches_at t ''.'' i))"
proof (rule conjI)
  show "split_string ''a.b'' ''.'' = Some [''a'', ''b'']"
    by (simp add: split_string_def split_loop.simps str_find.simps matches_at_def)
  show "\<exists>ts. split_string ''a.b'' ''.'' = Some (filter (\<lambda>t. t \<noteq> []) ts) \<and>
         join ''.'' ts = ''a.b'' \<and> (\<forall>t \<in> set ts. \<forall>i. \<not> matches_at t ''.'' i)"
    by (rule split_string_correct) simp
qed

text \<open>Hexadecimal text round trip: a non-empty buffer printed by \<^verbatim>\<open>buf2hex_string\<close> into an
  array with room for two digits per byte and the NUL, and read back by \<^verbatim>\<open>hex_string2buf\<close>, is
  the buffer again; neither direction leaves its array.\<close>

theorem hex_roundtrip:
  assumes "bs \<noteq> []" and "length bs < 4000000000" and "length str = 2 * length bs + 1"
    and "length bs \<le> length out"
  shows "\<exists>s. buf2hex_string bs (of_nat (length bs)) str (of_nat (length str)) = Inr (True, s) \<and>
             hex_string2buf (Some (c_string s)) out (length out) n0 =
               Inr (True, bs @ drop (length bs) out, length bs)"
proof -
  have "(of_nat (length bs) :: size_t) * 2 + 1 = of_nat (length str)"
    using assms(3) by simp
  moreover have "unat (of_nat (length bs) :: size_t) = length bs"
    using assms(2) by (simp add: unsigned_of_nat take_bit_nat_eq_self)
  moreover have "buf2hex_loop bs 0 str = Inr (hex_text bs @ [char_of (0::nat)] @ [])"
    using assms buf2hex_loop_eq[of bs 0 str] by simp
  ultimately have s: "buf2hex_string bs (of_nat (length bs)) str (of_nat (length str)) =
      Inr (True, hex_text bs @ [char_of (0::nat)] @ [])"
    by (simp add: buf2hex_string_def mem_read_def)
  have "c_string (hex_text bs @ [char_of (0::nat)] @ []) = hex_text bs"
    by (rule c_string_stop) (simp add: hex_text_no_NUL)
  with s show ?thesis
    using assms hex2buf_loop_text[of 0 bs out] by (simp add: hex_string2buf_def)
qed

theorem hex_roundtrip_witness:
  "\<exists>s. buf2hex_string [171, 9] 2 (replicate 5 CHR ''?'') 5 = Inr (True, s) \<and>
       hex_string2buf (Some (c_string s)) [0, 0, 0] 3 0 = Inr (True, [171, 9, 0], 2)"
  using hex_roundtrip[of "[171, 9]" "replicate 5 CHR ''?''" "[0, 0, 0]" 0]
  by (simp add: numeral_2_eq_2 numeral_3_eq_3)

text \<open>The name that \<^verbatim>\<open>parse(severity, char[])\<close> writes parses back to the severity, and so
  does the text that the stream operator prints, with one exception: \<open>WARNING\<close> is printed as
  \<open>WARNINIG\<close>, which \<^verbatim>\<open>parse\<close> rejects.\<close>

theorem severity_text:
  "parse_severity (Some (severity_name s)) = Some s \<and>
   (parse_severity (Some (severity_stream s)) = (if s = WARNING then None else Some s))"
  by (cases s) (simp_all add: parse_severity_def toupper_def char_in_def)

lemma pixel_format_stream_inj: "pixel_format_stream f = pixel_format_stream g \<longleftrightarrow> f = g"
  by (cases f; cases g) simp_all

lemma pixel_formats_all: "f \<in> set pixel_formats"
  by (cases f) (simp_all add: pixel_formats_def)

text \<open>\<^verbatim>\<open>parse\<close> accepts a text as a pixel format exactly when the text is, up to case, what the
  stream operator prints for that format.\<close>

theorem pixel_format_roundtrip:
  "parse_pixel_format str = Some f \<longleftrightarrow> map toupper str = pixel_format_stream f"
  unfolding parse_pixel_format_def
  using pixel_formats_all[of f] pixel_format_stream_inj by (subst find_unique) auto

end
