(* ===== verification/Rules_Parser.thy ===== *)
theory Rules_Parser
  imports Rules_Expression Strings_Util
begin

text \<open>
  Reading rules: \<^verbatim>\<open>Modules/rules/rules_parser.cpp\<close> and the naming conventions of
  \<^verbatim>\<open>rules_concrete_generic.cpp\<close>.

  An XML element, as the parser sees it through \<^verbatim>\<open>xml_element_interface\<close>, is a name, a value and
  its children; \<^verbatim>\<open>value_as_int\<close> and the constructor of \<^verbatim>\<open>rule\<close> are parameters of \<open>add_rule\<close>. A null
  pointer that is followed is \<open>Undefined\<close>.
\<close>

section \<open>XML elements\<close>

datatype xml = Xml (xml_name: string) (xml_value: string) (xml_children: "xml list")

definition query_child :: "xml \<Rightarrow> string \<Rightarrow> xml option" where
  "query_child e name = find (\<lambda>c. xml_name c = name) (xml_children e)"

section \<open>Tokens\<close>

definition get_operator_pair_from_string :: "string \<Rightarrow> token result" where
  "get_operator_pair_from_string s =
     (if s = ''&&'' then Inr (OPERATOR_AND, ''&&'')
      else if s = ''||'' then Inr (OPERATOR_OR, ''||'')
      else if s = ''!'' then Inr (OPERATOR_NOT, ''!'')
      else if s = ''=='' then Inr (OPERATOR_EQUAL, ''=='')
      else if s = ''!='' then Inr (OPERATOR_NOT_EQUAL, ''!='')
      else if s = ''<'' then Inr (OPERATOR_LT, ''<'')
      else if s = ''<='' then Inr (OPERATOR_LT, ''<='')
      else if s = ''>'' then Inr (OPERATOR_GT, ''>'')
      else if s = ''>='' then Inr (OPERATOR_GT, ''>='')
      else if s = ''('' then Inr (OPERATOR_LEFT_BRAKET, ''('')
      else if s = '')'' then Inr (OPERATOR_RIGHT_BRAKET, '')'')
      else Inl (Throws (Logic_error ''unknown operator.'')))"

definition get_function_pair_from_string :: "string \<Rightarrow> token" where
  "get_function_pair_from_string function_name = (OPERAND_FUNCTION, function_name)"

text \<open>The first character of an empty \<^verbatim>\<open>std::string\<close> is the terminating NUL.\<close>

definition first_char :: "string \<Rightarrow> char" where
  "first_char s = (case s of [] \<Rightarrow> char_of (0::nat) | c # _ \<Rightarrow> c)"

definition get_enumeration_pair_from_string :: "string \<Rightarrow> token" where
  "get_enumeration_pair_from_string enumeration_name =
     (if is_digit_char (first_char enumeration_name) then (OPERAND_CONSTANT, enumeration_name)
      else let index = str_find enumeration_name ''Get'' 0 in
           if index = None \<or> index \<noteq> Some 0 then (OPERAND_ENUM, enumeration_name)
           else (OPERAND_FUNCTION, enumeration_name))"

section \<open>The parts of a rule\<close>

fun condition_tokens :: "xml list \<Rightarrow> token list \<Rightarrow> token list result" where
  "condition_tokens [] tokens = Inr tokens"
| "condition_tokens (entry # rest) tokens =
     (if xml_name entry = ''Operator'' then
        res_bind (get_operator_pair_from_string (xml_value entry)) (\<lambda>t. condition_tokens rest (tokens @ [t]))
      else if xml_name entry = ''Function'' then
        condition_tokens rest (tokens @ [get_function_pair_from_string (xml_value entry)])
      else if xml_name entry = ''Enumeration'' then
        condition_tokens rest (tokens @ [get_enumeration_pair_from_string (xml_value entry)])
      else condition_tokens rest tokens)"

fun expression_tokens :: "xml list \<Rightarrow> token list \<Rightarrow> token list result" where
  "expression_tokens [] tokens = Inr tokens"
| "expression_tokens (entry # rest) tokens =
     (if xml_name entry = ''Condition'' then
        res_bind (condition_tokens (xml_children entry) tokens) (expression_tokens rest)
      else if xml_name entry = ''Middle_Operator'' then
        res_bind (get_operator_pair_from_string (xml_value entry)) (\<lambda>t. expression_tokens rest (tokens @ [t]))
      else expression_tokens rest tokens)"

definition get_rule_expression :: "xml \<Rightarrow> token list result" where
  "get_rule_expression rules_Ptree = expression_tokens (xml_children rules_Ptree) []"

definition get_rule_triggers :: "xml option \<Rightarrow> string list result" where
  "get_rule_triggers triggers =
     (case triggers of None \<Rightarrow> Inl Undefined | Some t \<Rightarrow> Inr (map xml_value (xml_children t)))"

record true_false_task =
  task_field :: string
  task_state :: string
  task_notify :: string
  task_timeout :: string

definition empty_task :: true_false_task where
  "empty_task = \<lparr>task_field = [], task_state = [], task_notify = [], task_timeout = []\<rparr>"

definition true_task_entry :: "true_false_task \<Rightarrow> xml \<Rightarrow> true_false_task" where
  "true_task_entry task entry =
     (if xml_name entry = ''True_Task_Field'' then task\<lparr>task_field := xml_value entry\<rparr>
      else if xml_name entry = ''True_Task_State'' then task\<lparr>task_state := xml_value entry\<rparr>
      else if xml_name entry = ''True_Task_Notify'' then task\<lparr>task_notify := xml_value entry\<rparr>
      else if xml_name entry = ''True_Task_TimeOut'' then task\<lparr>task_timeout := xml_value entry\<rparr>
      else task)"

definition get_rule_true_tasks :: "xml option \<Rightarrow> true_false_task list result" where
  "get_rule_true_tasks tasks =
     (case tasks of
        None \<Rightarrow> Inl Undefined
      | Some t \<Rightarrow> Inr (map (\<lambda>c. foldl true_task_entry empty_task (xml_children c)) (xml_children t)))"

definition false_task_entry :: "true_false_task \<Rightarrow> xml \<Rightarrow> true_false_task" where
  "false_task_entry task entry =
     (let t1 = (if xml_name entry = ''False_Task_Field'' then task\<lparr>task_field := xml_value entry\<rparr> else task);
          t2 = (if xml_name entry = ''False_Task_State'' then t1\<lparr>task_state := xml_value entry\<rparr> else t1);
          t3 = (if xml_name entry = ''False_Task_Notify'' then t2\<lparr>task_notify := xml_value entry\<rparr> else t2)
      in if xml_name entry = ''False_Task_TimeOut'' then t3\<lparr>task_timeout := xml_value entry\<rparr> else t3)"

definition get_rule_false_tasks :: "xml option \<Rightarrow> true_false_task list result" where
  "get_rule_false_tasks tasks =
     (case tasks of
        None \<Rightarrow> Inl Undefined
      | Some t \<Rightarrow> Inr (map (\<lambda>c. foldl false_task_entry empty_task (xml_children c)) (xml_children t)))"

record rule_data =
  rd_id :: int
  rd_name :: string
  rd_form :: string
  rd_comment :: string
  rd_tokens :: "token list"
  rd_triggers :: "string list"
  rd_true_tasks :: "true_false_task list"
  rd_false_tasks :: "true_false_task list"

definition child_text :: "xml \<Rightarrow> string \<Rightarrow> string" where
  "child_text e name = (case query_child e name of None \<Rightarrow> [] | Some c \<Rightarrow> xml_value c)"

definition read_rule :: "(string \<Rightarrow> int \<Rightarrow> int) \<Rightarrow> xml \<Rightarrow> rule_data result" where
  "read_rule value_as_int rule_child =
     (case query_child rule_child ''Id'' of
        None \<Rightarrow> Inl (Throws (Runtime_error ''Error parsing rules.xml ; no ID in Rule: ''))
      | Some child \<Rightarrow>
          let nId = value_as_int (xml_value child) (-1) in
          if nId = -1 then Inl (Throws (Runtime_error ''Error parsing rules.xml ; RuleId incorrect in Rule: ''))
          else
            (case query_child rule_child ''Expression'' of
               None \<Rightarrow> Inl (Throws (Runtime_error ''Error parsing rules.xml ; no \"Expression\" in Rule: ''))
             | Some expression_child \<Rightarrow>
                 res_bind (get_rule_expression expression_child) (\<lambda>tokens.
                 res_bind (get_rule_triggers (query_child rule_child ''Triggers'')) (\<lambda>triggers.
                 res_bind (get_rule_true_tasks (query_child rule_child ''True_Tasks'')) (\<lambda>true_tasks.
                 res_map (\<lambda>false_tasks.
                     \<lparr>rd_id = nId, rd_name = child_text rule_child ''Name'', rd_form = child_text rule_child ''Form'',
                      rd_comment = child_text rule_child ''Comment'', rd_tokens = tokens, rd_triggers = triggers,
                      rd_true_tasks = true_tasks, rd_false_tasks = false_tasks\<rparr>)
                   (get_rule_false_tasks (query_child rule_child ''False_Tasks'')))))))"

text \<open>The new rule is appended; the value is its index.\<close>

definition add_rule ::
  "(string \<Rightarrow> int \<Rightarrow> int) \<Rightarrow> (rule_data \<Rightarrow> 'r result) \<Rightarrow> xml \<Rightarrow> 'r list \<Rightarrow> (int \<times> 'r list) result" where
  "add_rule value_as_int make_rule rule_child rules =
     res_bind (read_rule value_as_int rule_child) (\<lambda>d.
       res_map (\<lambda>r. (int (length (rules @ [r])) - 1, rules @ [r])) (make_rule d))"

fun parse_category ::
  "(string \<Rightarrow> int \<Rightarrow> int) \<Rightarrow> (rule_data \<Rightarrow> 'r result) \<Rightarrow> xml list \<Rightarrow> 'r list \<Rightarrow> 'r list result" where
  "parse_category value_as_int make_rule [] rules = Inr rules"
| "parse_category value_as_int make_rule (c # cs) rules =
     (if xml_name c = ''Rule''
      then res_bind (add_rule value_as_int make_rule c rules) (\<lambda>(_, rules'). parse_category value_as_int make_rule cs rules')
      else parse_category value_as_int make_rule cs rules)"

fun parse_categories ::
  "(string \<Rightarrow> int \<Rightarrow> int) \<Rightarrow> (rule_data \<Rightarrow> 'r result) \<Rightarrow> xml list \<Rightarrow> 'r list \<Rightarrow> 'r list result" where
  "parse_categories value_as_int make_rule [] rules = Inr rules"
| "parse_categories value_as_int make_rule (e # es) rules =
     (if xml_name e = ''Category''
      then res_bind (parse_category value_as_int make_rule (xml_children e) rules)
             (parse_categories value_as_int make_rule es)
      else parse_categories value_as_int make_rule es rules)"

text \<open>\<open>None\<close> for the root is a file without \<^verbatim>\<open>/Rules\<close>.\<close>

definition parse_rules ::
  "(string \<Rightarrow> int \<Rightarrow> int) \<Rightarrow> (rule_data \<Rightarrow> 'r result) \<Rightarrow> bool \<Rightarrow> xml option \<Rightarrow> 'r list \<Rightarrow> 'r list result" where
  "parse_rules value_as_int make_rule is_loaded root_node rules =
     (if \<not> is_loaded then Inr rules
      else case root_node of
             None \<Rightarrow> Inl (Throws (Runtime_error ''Rules root element is missing \"<Rules>...s</Rules>\"''))
           | Some r \<Rightarrow> parse_categories value_as_int make_rule (xml_children r) rules)"

section \<open>Naming conventions\<close>

definition normalize_rule_name :: "string \<Rightarrow> string \<Rightarrow> string" where
  "normalize_rule_name row_name prefix =
     (let n1 = filter (\<lambda>c. c \<noteq> CHR ''-'') row_name;
          n2 = map (\<lambda>c. if c = CHR '' '' then CHR ''_'' else c) n1;
          n3 = map (\<lambda>c. if c = CHR '','' then CHR ''_'' else c) n2
      in prefix @ n3)"

definition vec_at :: "'a list \<Rightarrow> nat \<Rightarrow> 'a result" where
  "vec_at xs i = (if i < length xs then Inr (xs ! i) else Inl Undefined)"

text \<open>\<^verbatim>\<open>rfind(')')\<close>; \<open>None\<close> is \<^verbatim>\<open>npos\<close>.\<close>

definition rfind_char :: "char \<Rightarrow> string \<Rightarrow> nat option" where
  "rfind_char c s =
     (case find (\<lambda>i. s ! i = c) (rev [0..<length s]) of None \<Rightarrow> None | Some i \<Rightarrow> Some i)"

definition strip_parens :: "string \<Rightarrow> string" where
  "strip_parens s = (case rfind_char CHR '')'' s of None \<Rightarrow> drop 1 s | Some i \<Rightarrow>
      if i = 0 then drop 1 s else take (i - 1) (drop 1 s))"

definition split_first :: "string \<Rightarrow> string \<Rightarrow> string result option" where
  "split_first str delim = map_option (\<lambda>ts. vec_at ts 0) (split_string str delim)"

definition get_row_name_by_prefix :: "string \<Rightarrow> string result option" where
  "get_row_name_by_prefix func_str =
     (if str_find func_str ''GetInput'' 0 \<noteq> None then map_option (res_map ((@) ''i'')) (split_first func_str ''GetInput'')
      else if str_find func_str ''GetOutput'' 0 \<noteq> None then map_option (res_map ((@) ''o'')) (split_first func_str ''GetOutput'')
      else if str_find func_str ''GetRes'' 0 \<noteq> None then map_option (res_map ((@) ''r'')) (split_first func_str ''GetRes'')
      else if str_find func_str ''GetEnabled'' 0 \<noteq> None then map_option (res_map ((@) ''en'')) (split_first func_str ''GetEnabled'')
      else if str_find func_str ''Get'' 0 \<noteq> None then
        map_option (res_map (\<lambda>t. if first_char t = CHR ''('' then strip_parens t else ''r'' @ t)) (split_first func_str ''Get'')
      else Some (Inr []))"

text \<open>\<^verbatim>\<open>data_path_vector\<close>: table, row and path of \<open>table/row.field.field\<close>; \<open>None\<close> is \<^verbatim>\<open>false\<close>.\<close>

definition data_path_vector :: "string \<Rightarrow> (string \<times> string \<times> string list) option result option" where
  "data_path_vector input =
     (case split_string input ''/'' of
        None \<Rightarrow> None
      | Some parts \<Rightarrow>
          if length parts \<le> 1 then Some (Inr None)
          else (case split_string (parts ! 1) ''.'' of
                  None \<Rightarrow> None
                | Some path \<Rightarrow> Some (res_map (\<lambda>row. Some (parts ! 0, row, tl path)) (vec_at path 0))))"

section \<open>Rules written as XML\<close>

fun op_text :: "node_type \<Rightarrow> string" where
  "op_text OPERATOR_AND = ''&&''"
| "op_text OPERATOR_OR = ''||''"
| "op_text OPERATOR_NOT = ''!''"
| "op_text OPERATOR_EQUAL = ''==''"
| "op_text OPERATOR_NOT_EQUAL = ''!=''"
| "op_text OPERATOR_LT = ''<''"
| "op_text OPERATOR_LTE = ''<=''"
| "op_text OPERATOR_GT = ''>''"
| "op_text OPERATOR_GTE = ''>=''"
| "op_text OPERATOR_LEFT_BRAKET = ''(''"
| "op_text OPERATOR_RIGHT_BRAKET = '')''"
| "op_text _ = []"

definition token_xml :: "token \<Rightarrow> xml" where
  "token_xml t =
     (if fst t = OPERAND_FUNCTION then Xml ''Function'' (snd t) []
      else if is_operand (fst t) then Xml ''Enumeration'' (snd t) []
      else Xml ''Operator'' (snd t) [])"

text \<open>The texts that the parser tags as intended: \<^verbatim>\<open><=\<close> and \<^verbatim>\<open>>=\<close> are not among them.\<close>

definition token_ok :: "token \<Rightarrow> bool" where
  "token_ok t \<longleftrightarrow>
     (case fst t of
        OPERAND_FUNCTION \<Rightarrow> True
      | OPERAND_CONSTANT \<Rightarrow> is_digit_char (first_char (snd t))
      | OPERAND_ENUM \<Rightarrow> \<not> is_digit_char (first_char (snd t)) \<and> str_find (snd t) ''Get'' 0 \<noteq> Some 0
      | OPERAND_NONE \<Rightarrow> False
      | OPERATOR_LTE \<Rightarrow> False
      | OPERATOR_GTE \<Rightarrow> False
      | oper \<Rightarrow> snd t = op_text oper)"

lemma operator_pair:
  "token_ok t \<Longrightarrow> \<not> is_operand (fst t) \<Longrightarrow> get_operator_pair_from_string (snd t) = Inr t"
  by (cases t; cases "fst t") (auto simp: token_ok_def is_operand_def get_operator_pair_from_string_def)

lemma enumeration_pair:
  "token_ok t \<Longrightarrow> fst t \<in> {OPERAND_CONSTANT, OPERAND_ENUM} \<Longrightarrow> get_enumeration_pair_from_string (snd t) = t"
  by (cases t) (auto simp: token_ok_def get_enumeration_pair_from_string_def Let_def)

lemma condition_tokens_xml:
  "\<forall>t \<in> set ts. token_ok t \<Longrightarrow> condition_tokens (map token_xml ts) tokens = Inr (tokens @ ts)"
proof (induction ts arbitrary: tokens)
  case (Cons t ts)
  consider "fst t = OPERAND_FUNCTION" | "fst t \<in> {OPERAND_CONSTANT, OPERAND_ENUM}" | "\<not> is_operand (fst t)"
    by (auto simp: is_operand_def)
  then show ?case
  proof cases
    case 1
    then have "get_function_pair_from_string (snd t) = t" by (cases t) (simp add: get_function_pair_from_string_def)
    with 1 Cons show ?thesis by (simp add: token_xml_def)
  next
    case 2
    with Cons show ?thesis by (auto simp: token_xml_def is_operand_def enumeration_pair)
  next
    case 3
    moreover have "fst t \<noteq> OPERAND_FUNCTION" using 3 by (auto simp: is_operand_def)
    ultimately show ?thesis using Cons by (simp add: token_xml_def operator_pair)
  qed
qed simp

lemma get_rule_expression_xml:
  assumes "\<forall>t \<in> set ts. token_ok t"
  shows "get_rule_expression (Xml n v [Xml ''Condition'' w (map token_xml ts)]) = Inr ts"
  using condition_tokens_xml[OF assms, of "[]"] by (simp add: get_rule_expression_def)

section \<open>Rules in document order\<close>

fun traverse :: "('a \<Rightarrow> 'b result) \<Rightarrow> 'a list \<Rightarrow> 'b list result" where
  "traverse f [] = Inr []"
| "traverse f (x # xs) = res_bind (f x) (\<lambda>y. res_map ((#) y) (traverse f xs))"

lemma traverse_append:
  "traverse f (xs @ ys) = res_bind (traverse f xs) (\<lambda>as. res_map ((@) as) (traverse f ys))"
proof (induction xs)
  case Nil
  show ?case by (cases "traverse f ys") simp_all
next
  case (Cons x xs)
  then show ?case by (cases "f x"; cases "traverse f xs"; cases "traverse f ys") simp_all
qed

definition rule_elements :: "xml \<Rightarrow> xml list" where
  "rule_elements r =
     concat (map (\<lambda>c. filter (\<lambda>e. xml_name e = ''Rule'') (xml_children c))
               (filter (\<lambda>c. xml_name c = ''Category'') (xml_children r)))"

lemma parse_category_traverse:
  "parse_category v mk cs rules =
     res_map ((@) rules) (traverse (\<lambda>e. res_bind (read_rule v e) mk) (filter (\<lambda>e. xml_name e = ''Rule'') cs))"
proof (induction cs arbitrary: rules)
  case (Cons c cs)
  then show ?case
  proof (cases "res_bind (read_rule v c) mk")
    case (Inl e)
    with Cons show ?thesis by (auto simp: add_rule_def res_map_def res_bind_assoc res_simps)
  next
    case (Inr r)
    then have "add_rule v mk c rules = Inr (int (length rules), rules @ [r])"
      by (auto simp: add_rule_def res_simps)
    with Cons Inr show ?thesis
      by (cases "traverse (\<lambda>e. res_bind (read_rule v e) mk) (filter (\<lambda>e. xml_name e = ''Rule'') cs)") simp_all
  qed
qed simp

lemma parse_categories_traverse:
  "parse_categories v mk es rules =
     res_map ((@) rules) (traverse (\<lambda>e. res_bind (read_rule v e) mk)
       (concat (map (\<lambda>c. filter (\<lambda>e. xml_name e = ''Rule'') (xml_children c)) (filter (\<lambda>c. xml_name c = ''Category'') es))))"
proof (induction es arbitrary: rules)
  case (Cons e es)
  let ?f = "\<lambda>e. res_bind (read_rule v e) mk"
  show ?case
  proof (cases "traverse ?f (filter (\<lambda>e. xml_name e = ''Rule'') (xml_children e))")
    case (Inl x)
    with Cons show ?thesis by (simp add: parse_category_traverse traverse_append)
  next
    case (Inr as)
    with Cons show ?thesis
      by (cases "traverse ?f (concat (map (\<lambda>c. filter (\<lambda>e. xml_name e = ''Rule'') (xml_children c)) (filter (\<lambda>c. xml_name c = ''Category'') es)))")
         (simp_all add: parse_category_traverse traverse_append)
  qed
qed simp

section \<open>Properties\<close>

text \<open>C29. From the file to the decision, for a rule whose \<^verbatim>\<open>Expression\<close> has a single \<^verbatim>\<open>Condition\<close>: an expression that is written into it token by
  token with the least brackets is read, parsed and evaluated to its meaning. The operators \<^verbatim>\<open><=\<close> and \<^verbatim>\<open>>=\<close> must not occur in it, since they
  are read as \<^verbatim>\<open><\<close> and \<^verbatim>\<open>>\<close>, and every operand must be known to the environment.\<close>

theorem rule_condition_end_to_end:
  assumes "bexp_ok e" and "\<forall>t \<in> set (unparse 0 e). token_ok t" and "tree_of env e = Inr n"
  shows "res_bind (get_rule_expression (Xml ''Expression'' v [Xml ''Condition'' w (map token_xml (unparse 0 e))]))
           (build_parse_tree env) = Inr n \<and>
         evaluate_expression env n = res_map dbl_true (meaning env e)"
proof -
  have "(\<lambda>v. \<not> dbl_eq v (Fin 0)) = dbl_true" by (simp add: fun_eq_iff dbl_true_def)
  with tree_of_meaning[OF assms(1,3)] have "evaluate_expression env n = res_map dbl_true (meaning env e)"
    by (auto simp: evaluate_expression_def)
  then show ?thesis
    using get_rule_expression_xml[OF assms(2), of "''Expression''" v w] build_parse_tree_unparse[OF assms(1), of env] assms(3)
    by simp
qed

theorem rule_condition_end_to_end_witness:
  "\<exists>n. res_bind (get_rule_expression (Xml ''Expression'' [] [Xml ''Condition'' []
          [Xml ''Operator'' ''!'' [], Xml ''Function'' ''GetA'' []]])) (build_parse_tree sample_env) = Inr n \<and>
       evaluate_expression sample_env n = Inr False"
proof -
  let ?e = "Not (OPERATOR_NOT, ''!'') (Leaf (OPERAND_FUNCTION, ''GetA''))"
  have 1: "bexp_ok ?e" by (simp add: is_operand_def)
  have 2: "\<forall>t \<in> set (unparse 0 ?e). token_ok t" by (simp add: token_ok_def)
  have 3: "tree_of sample_env ?e = Inr (Some (Operator OPERATOR_NOT (Some (Operand_function 7)) None))"
    by (simp add: make_operand_def sample_env_def)
  have "meaning sample_env ?e = Inr (Fin 0)"
    by (simp add: operand_value_def sample_env_def dbl_of_bool_def dbl_true_def dbl_eq_def)
  with rule_condition_end_to_end[OF 1 2 3, of "[]" "[]"] show ?thesis
    by (simp add: token_xml_def is_operand_def dbl_true_def dbl_eq_def)
qed

text \<open>\<^verbatim>\<open><=\<close> and \<^verbatim>\<open>>=\<close> are read as \<^verbatim>\<open><\<close> and \<^verbatim>\<open>>\<close>: a condition that compares a value with itself
  by either of them is false, although the tree has operators for both comparisons.\<close>

theorem inclusive_comparisons_read_strict:
  assumes "oe_stod env c = Inr v" and "is_digit_char (first_char c)" and "oper \<in> {''<='', ''>=''}"
  shows "\<exists>n. res_bind (get_rule_expression (Xml ''Expression'' x [Xml ''Condition'' y
                [Xml ''Enumeration'' c [], Xml ''Operator'' oper [], Xml ''Enumeration'' c []]]))
               (build_parse_tree env) = Inr n \<and>
             evaluate_expression env n = Inr False"
proof -
  have "\<not> dbl_less v v" by (cases v) simp_all
  then show ?thesis
    using assms
    by (auto simp: get_rule_expression_def get_enumeration_pair_from_string_def get_operator_pair_from_string_def
        build_parse_tree_def shuting_yards_def shunt_token_def is_operand_def is_binary_def make_operand_def
        make_operator_def evaluate_expression_def dbl_of_bool_def dbl_eq_def)
qed

theorem inclusive_comparisons_read_strict_witness:
  "\<exists>n. res_bind (get_rule_expression (Xml ''Expression'' [] [Xml ''Condition'' []
            [Xml ''Enumeration'' ''10'' [], Xml ''Operator'' ''<='' [], Xml ''Enumeration'' ''10'' []]]))
           (build_parse_tree sample_env) = Inr n \<and>
         evaluate_expression sample_env n = Inr False"
  by (rule inclusive_comparisons_read_strict[of sample_env "''10''" "Fin 2"])
     (simp_all add: sample_env_def first_char_def is_digit_char_def char_in_def)

text \<open>\<^verbatim>\<open>parse_rules\<close> makes a rule of every \<^verbatim>\<open>Rule\<close> element of every \<^verbatim>\<open>Category\<close>, in document order, after
  the rules that are there, and stops with the first error of one of them.\<close>

theorem parse_rules_in_order:
  "parse_rules value_as_int make_rule True (Some r) rules =
     res_map ((@) rules) (traverse (\<lambda>e. res_bind (read_rule value_as_int e) make_rule) (rule_elements r))"
  by (simp add: parse_rules_def parse_categories_traverse rule_elements_def)

text \<open>A rule without a \<^verbatim>\<open>Triggers\<close>, \<^verbatim>\<open>True_Tasks\<close> or \<^verbatim>\<open>False_Tasks\<close> element, and with everything before it in
  order, makes the parser follow a null pointer instead of throwing as for the other elements.\<close>

theorem missing_section_is_undefined:
  assumes "query_child rule_child ''Id'' = Some c" and "value_as_int (xml_value c) (-1) \<noteq> -1"
    and "query_child rule_child ''Expression'' = Some e" and "get_rule_expression e = Inr tokens"
    and "query_child rule_child ''Triggers'' = None \<or> query_child rule_child ''True_Tasks'' = None \<or>
         query_child rule_child ''False_Tasks'' = None"
  shows "read_rule value_as_int rule_child = Inl Undefined"
  using assms
  by (auto simp: read_rule_def Let_def get_rule_triggers_def get_rule_true_tasks_def get_rule_false_tasks_def
      res_map_def res_bind_Inl split: option.splits)

theorem missing_section_is_undefined_witness:
  "read_rule (\<lambda>_ _. 4) (Xml ''Rule'' [] [Xml ''Id'' ''4'' [], Xml ''Expression'' [] []]) = Inl Undefined"
  by (rule missing_section_is_undefined[of _ "Xml ''Id'' ''4'' []" _ "Xml ''Expression'' [] []" "[]"])
     (simp_all add: query_child_def get_rule_expression_def)

end
