(* ===== verification/Types_Util.thy ===== *)
theory Types_Util
  imports Strings_Util
begin

text \<open>
  The type table of \<^verbatim>\<open>Include/core/types.h\<close> and \<^verbatim>\<open>Include/utils/types.hpp\<close>: the run-time type
  codes of rows and message fields, their names in configuration files, their sizes, bitmap types
  (\<^verbatim>\<open>name:bits\<close>), numeric text and byte order.

  \<^verbatim>\<open>get_type\<close> splits its argument at colons and calls itself on the part before one, through
  \<open>split_string\<close>; its model returns \<open>None\<close> where \<open>split_string\<close> would not return.
\<close>

unbundle bit_operations_syntax

section \<open>Type codes\<close>

datatype endian = LITTLE | BIG

datatype type_enum =
    DEBUG_TYPE | UNKNOWN | BYTE | SHORT | INT32 | FLOAT | COMPLEX | EMPTY_TYPE | BOOL | DOUBLE
  | STRING | BUFFER | POINTER | BITMAP | UINT8 | UINT16 | UINT32 | UINT64 | INT8 | INT16 | CHAR_TYPE
  | USHORT | INT64 | ENUM | ARRAY

definition is_simple_type :: "type_enum \<Rightarrow> bool" where
  "is_simple_type type =
     (type \<in> {UINT8, BYTE, BOOL, INT8, CHAR_TYPE, USHORT, UINT16, SHORT, INT16, UINT32, INT32,
              UINT64, INT64, FLOAT, DOUBLE})"

fun sizeof_type :: "type_enum \<Rightarrow> nat" where
  "sizeof_type UINT8 = 1"
| "sizeof_type BYTE = 1"
| "sizeof_type BOOL = 1"
| "sizeof_type INT8 = 1"
| "sizeof_type CHAR_TYPE = 1"
| "sizeof_type USHORT = 2"
| "sizeof_type UINT16 = 2"
| "sizeof_type SHORT = 2"
| "sizeof_type INT16 = 2"
| "sizeof_type UINT32 = 4"
| "sizeof_type INT32 = 4"
| "sizeof_type ENUM = 4"
| "sizeof_type UINT64 = 8"
| "sizeof_type INT64 = 8"
| "sizeof_type FLOAT = 4"
| "sizeof_type DOUBLE = 8"
| "sizeof_type _ = 0"

definition get_type_by_size :: "nat \<Rightarrow> bool \<Rightarrow> type_enum" where
  "get_type_by_size sz unsigned_type =
     (if unsigned_type then
        (if sz = 1 then UINT8 else if sz = 2 then UINT16 else if sz = 4 then UINT32
         else if sz = 8 then UINT64 else UNKNOWN)
      else
        (if sz = 1 then INT8 else if sz = 2 then INT16 else if sz = 4 then INT32
         else if sz = 8 then INT64 else UNKNOWN))"

section \<open>Names of types\<close>

text \<open>The comparisons of \<^verbatim>\<open>get_type\<close> with fixed names, in their order.\<close>

definition type_names :: "(string list \<times> type_enum) list" where
  "type_names =
     [([''byte'', ''uint8'', ''uint8_t'', ''unsigned char'', ''byteEnum'', ''sbyte''], BYTE),
      ([''char'', ''int8_t'', ''char8''], CHAR_TYPE),
      ([''bool'', ''bool8''], BOOL),
      ([''short'', ''int16_t''], INT16),
      ([''unsigned int'', ''dword'', ''unsignedinteger'', ''uint32'', ''uint32_t'',
        ''unsigned long'', ''ulong32'', ''socketip''], UINT32),
      ([''long'', ''long32'', ''int'', ''int32'', ''int32_t''], INT32),
      ([''float'', ''float32''], FLOAT),
      ([''double'', ''long double'', ''double64''], DOUBLE),
      ([''long long'', ''int64'', ''int64_t''], INT64),
      ([''unsigned long long'', ''unsigned __int64'', ''uint64'', ''uint64_t''], UINT64),
      ([''unsignedshortinteger'', ''word'', ''unsigned short'', ''uint16'', ''uint16_t''], UINT16),
      ([''none''], EMPTY_TYPE)]"

definition late_type_names :: "(string list \<times> type_enum) list" where
  "late_type_names =
     [([''complex''], COMPLEX), ([''string''], STRING), ([''enum''], ENUM), ([''array''], ARRAY)]"

fun name_lookup :: "(string list \<times> type_enum) list \<Rightarrow> string \<Rightarrow> type_enum option" where
  "name_lookup [] s = None"
| "name_lookup ((ns, t) # rest) s = (if s \<in> set ns then Some t else name_lookup rest s)"

definition is_buffer_name :: "string \<Rightarrow> bool" where
  "is_buffer_name type_str \<longleftrightarrow>
     str_find type_str ''charbuff['' 0 \<noteq> None \<or> str_find type_str ''char['' 0 \<noteq> None \<or>
     type_str = ''buffer''"

text \<open>The type of a text before it is looked at as a bitmap.\<close>

definition plain_type :: "string \<Rightarrow> type_enum option" where
  "plain_type type_str =
     (case name_lookup type_names type_str of
        Some t \<Rightarrow> Some t
      | None \<Rightarrow> if is_buffer_name type_str then Some BUFFER else name_lookup late_type_names type_str)"

lemma split_pair_shorter:
  assumes "split_string str '':'' = Some [a, b]"
  shows "length a < length str"
  using split_string_lengths[OF _ assms] by (cases b) auto

definition bitmap_base :: "type_enum \<Rightarrow> string \<Rightarrow> bool" where
  "bitmap_base type bits \<longleftrightarrow> (is_simple_type type \<or> type = ENUM) \<and> is_digit_char (bits ! 0)"

function get_type :: "string \<Rightarrow> type_enum option" where
  "get_type type_str =
     (case plain_type type_str of
        Some t \<Rightarrow> Some t
      | None \<Rightarrow>
          (case split_string type_str '':'' of
             None \<Rightarrow> None
           | Some [a, b] \<Rightarrow>
               (case get_type a of
                  None \<Rightarrow> None
                | Some type \<Rightarrow> Some (if bitmap_base type b then BITMAP else COMPLEX))
           | Some _ \<Rightarrow> Some COMPLEX))"
  by pat_completeness auto
termination
  by (relation "measure length") (auto dest: split_pair_shorter)

declare get_type.simps [simp del]

text \<open>\<^verbatim>\<open>get_type_name\<close>: the name and whether the type has one.\<close>

fun get_type_name :: "type_enum \<Rightarrow> bool \<times> string" where
  "get_type_name UINT8 = (True, ''byte'')"
| "get_type_name BYTE = (True, ''byte'')"
| "get_type_name INT8 = (True, ''byte'')"
| "get_type_name CHAR_TYPE = (True, ''byte'')"
| "get_type_name USHORT = (True, ''word'')"
| "get_type_name UINT16 = (True, ''word'')"
| "get_type_name BOOL = (True, ''bool'')"
| "get_type_name INT16 = (True, ''short'')"
| "get_type_name SHORT = (True, ''short'')"
| "get_type_name UINT32 = (True, ''dword'')"
| "get_type_name INT32 = (True, ''int'')"
| "get_type_name UINT64 = (True, ''uint64_t'')"
| "get_type_name INT64 = (True, ''int64_t'')"
| "get_type_name FLOAT = (True, ''float'')"
| "get_type_name DOUBLE = (True, ''double'')"
| "get_type_name ENUM = (True, ''enum'')"
| "get_type_name STRING = (True, ''string'')"
| "get_type_name ARRAY = (True, ''array'')"
| "get_type_name EMPTY_TYPE = (True, ''none'')"
| "get_type_name BUFFER = (True, ''buffer'')"
| "get_type_name COMPLEX = (True, ''complex'')"
| "get_type_name BITMAP = (True, ''bitmap'')"
| "get_type_name _ = (False, ''unknwon'')"

section \<open>Numeric text\<close>

definition LONG_MAX :: nat where
  "LONG_MAX = 9223372036854775807"

fun digits_value :: "nat \<Rightarrow> string \<Rightarrow> nat" where
  "digits_value acc [] = acc"
| "digits_value acc (c # cs) = digits_value (acc * 10 + (of_char c - 48)) cs"

text \<open>\<^verbatim>\<open>std::stol\<close> on a text that starts with a digit.\<close>

definition stol_digits :: "string \<Rightarrow> nat result" where
  "stol_digits s =
     (let n = digits_value 0 (takeWhile is_digit_char s) in
      if n > LONG_MAX then Inl (Throws (Out_of_range ''stol'')) else Inr n)"

text \<open>\<open>None\<close> is \<^verbatim>\<open>return false\<close>; otherwise the number of bits and the size in bytes.\<close>

definition get_bitmap_sizes :: "string \<Rightarrow> (nat \<times> nat) option result option" where
  "get_bitmap_sizes str =
     (case split_string str '':'' of
        None \<Rightarrow> None
      | Some [a, b] \<Rightarrow>
          (case get_type a of
             None \<Rightarrow> None
           | Some type \<Rightarrow>
               Some (if bitmap_base type b
                     then res_map (\<lambda>num_of_bits. Some (num_of_bits, sizeof_type type)) (stol_digits b)
                     else Inr None))
      | Some _ \<Rightarrow> Some (Inr None))"

definition all_digits :: "string \<Rightarrow> bool" where
  "all_digits s \<longleftrightarrow> s \<noteq> [] \<and> (\<forall>c \<in> set s. is_digit_char c)"

text \<open>The number at the beginning of a text, as \<^verbatim>\<open>atoi\<close> and \<^verbatim>\<open>stoll\<close> read it.\<close>

definition signed_value :: "string \<Rightarrow> int" where
  "signed_value text =
     (let digits = (\<lambda>t. int (digits_value 0 (takeWhile is_digit_char t)))
      in case dropWhile is_space text of
           [] \<Rightarrow> 0
         | c # cs \<Rightarrow> if c = CHR ''-'' then - digits cs else if c = CHR ''+'' then digits cs else digits (c # cs))"

definition skip_minus :: "string \<Rightarrow> string" where
  "skip_minus s = (case s of [] \<Rightarrow> [] | c # cs \<Rightarrow> if c = CHR ''-'' then cs else s)"

text \<open>The regular expression \<^verbatim>\<open>^-?\d+?$\<close>, matched against the whole text.\<close>

definition is_integer :: "string \<Rightarrow> bool" where
  "is_integer str_input = all_digits (skip_minus str_input)"

text \<open>The regular expression \<^verbatim>\<open>^-?[0-9]+([.][0-9]+)?$\<close>.\<close>

definition is_numeric :: "string \<Rightarrow> bool" where
  "is_numeric str_input =
     (let body = skip_minus str_input;
          whole = takeWhile is_digit_char body;
          rest = dropWhile is_digit_char body
      in whole \<noteq> [] \<and>
         (rest = [] \<or> (hd rest = CHR ''.'' \<and> all_digits (tl rest))))"

text \<open>The decimal text of a number, as \<^verbatim>\<open>std::to_string\<close> and \<^verbatim>\<open>operator<<\<close> print it.\<close>

fun nat_text :: "nat \<Rightarrow> string" where
  "nat_text n = (if n < 10 then [char_of (48 + n)] else nat_text (n div 10) @ [char_of (48 + n mod 10)])"

section \<open>Byte order\<close>

text \<open>The platform is little endian; the byte at the lowest address comes first.\<close>

definition le_bytes :: "nat \<Rightarrow> 'a::len word \<Rightarrow> bytes" where
  "le_bytes k x = map (\<lambda>i. ucast (drop_bit (8 * i) x)) [0..<k]"

definition is_big_endian :: bool where
  "is_big_endian = (le_bytes 4 (0x01000000 :: 32 word) ! 0 \<noteq> 0)"

definition platform_endian :: endian where
  "platform_endian = (if is_big_endian then BIG else LITTLE)"

definition endian_swap16 :: "16 word \<Rightarrow> 16 word" where
  "endian_swap16 x = drop_bit 8 x OR push_bit 8 x"

definition endian_swap32 :: "32 word \<Rightarrow> 32 word" where
  "endian_swap32 x =
     drop_bit 24 x OR (push_bit 8 x AND 0x00FF0000) OR (drop_bit 8 x AND 0x0000FF00) OR push_bit 24 x"

definition endian_swap64 :: "64 word \<Rightarrow> 64 word" where
  "endian_swap64 x =
     drop_bit 56 x OR (push_bit 40 x AND 0x00FF000000000000) OR (push_bit 24 x AND 0x0000FF0000000000) OR
     (push_bit 8 x AND 0x000000FF00000000) OR (drop_bit 8 x AND 0x00000000FF000000) OR
     (drop_bit 24 x AND 0x0000000000FF0000) OR (drop_bit 40 x AND 0x000000000000FF00) OR push_bit 56 x"

section \<open>Lemmas\<close>

lemma get_type_total: "\<exists>t. get_type s = Some t"
proof (induction s rule: get_type.induct)
  case (1 s)
  have "split_string s '':'' \<noteq> None" by (simp add: split_string_ref)
  then show ?case
    using 1 by (subst get_type.simps) (fastforce split: option.splits list.splits)
qed

lemma get_type_plain: "plain_type s = Some t \<Longrightarrow> get_type s = Some t"
  by (subst get_type.simps) simp

lemma masks:
  "(0x00FF0000 :: 32 word) = push_bit 16 (mask 8)" "(0x0000FF00 :: 32 word) = push_bit 8 (mask 8)"
  "(0x00FF000000000000 :: 64 word) = push_bit 48 (mask 8)" "(0x0000FF0000000000 :: 64 word) = push_bit 40 (mask 8)"
  "(0x000000FF00000000 :: 64 word) = push_bit 32 (mask 8)" "(0x00000000FF000000 :: 64 word) = push_bit 24 (mask 8)"
  "(0x0000000000FF0000 :: 64 word) = push_bit 16 (mask 8)" "(0x000000000000FF00 :: 64 word) = push_bit 8 (mask 8)"
  by (simp_all add: mask_eq_exp_minus_1 push_bit_eq_mult)

lemma le_bytes_eqI:
  assumes "\<And>i j. i < k \<Longrightarrow> j < 8 \<Longrightarrow> bit x (8 * i + j) \<longleftrightarrow> bit y (8 * (k - Suc i) + j)"
  shows "le_bytes k x = rev (le_bytes k y)"
proof (rule nth_equalityI)
  fix i
  assume i: "i < length (le_bytes k x)"
  then have "le_bytes k x ! i = ucast (drop_bit (8 * i) x)"
    and "rev (le_bytes k y) ! i = ucast (drop_bit (8 * (k - Suc i)) y)"
    by (simp_all add: le_bytes_def rev_nth)
  moreover have "(ucast (drop_bit (8 * i) x) :: byte) = ucast (drop_bit (8 * (k - Suc i)) y)"
    using i assms[of i] by (intro bit_word_eqI) (auto simp: bit_simps le_bytes_def)
  ultimately show "le_bytes k x ! i = rev (le_bytes k y) ! i" by simp
qed (simp add: le_bytes_def)

lemma endian_swap16_bytes: "le_bytes 2 (endian_swap16 x) = rev (le_bytes 2 x)"
proof (rule le_bytes_eqI)
  fix i j :: nat
  assume i: "i < 2" and j: "j < 8"
  from i consider "i = 0" | "i = 1" by linarith
  then show "bit (endian_swap16 x) (8 * i + j) \<longleftrightarrow> bit x (8 * (2 - Suc i) + j)"
    using j by cases (auto simp: endian_swap16_def bit_simps dest: bit_imp_le_length)
qed

lemma endian_swap32_bytes: "le_bytes 4 (endian_swap32 x) = rev (le_bytes 4 x)"
proof (rule le_bytes_eqI)
  fix i j :: nat
  assume i: "i < 4" and j: "j < 8"
  from i consider "i = 0" | "i = 1" | "i = 2" | "i = 3" by linarith
  then show "bit (endian_swap32 x) (8 * i + j) \<longleftrightarrow> bit x (8 * (4 - Suc i) + j)"
    using j by cases (auto simp: endian_swap32_def masks bit_simps dest: bit_imp_le_length)
qed

lemma endian_swap64_bytes: "le_bytes 8 (endian_swap64 x) = rev (le_bytes 8 x)"
proof (rule le_bytes_eqI)
  fix i j :: nat
  assume i: "i < 8" and j: "j < 8"
  from i consider "i = 0" | "i = 1" | "i = 2" | "i = 3" | "i = 4" | "i = 5" | "i = 6" | "i = 7" by linarith
  then show "bit (endian_swap64 x) (8 * i + j) \<longleftrightarrow> bit x (8 * (8 - Suc i) + j)"
    using j by cases (auto simp: endian_swap64_def masks bit_simps dest: bit_imp_le_length)
qed

lemma plain_type_no_colon: "plain_type s = Some t \<Longrightarrow> t \<noteq> BITMAP"
  by (auto simp: plain_type_def type_names_def late_type_names_def split: if_splits option.splits)

lemma str_find_no_char:
  assumes "c \<in> set pat" and "c \<notin> set s"
  shows "str_find s pat i = None"
proof (cases "str_find s pat i")
  case (Some p)
  then have "take (length pat) (drop p s) = pat"
    using str_find_SomeD matches_at_def by blast
  with assms have "c \<in> set (take (length pat) (drop p s))" by simp
  with assms(2) show ?thesis by (meson in_set_dropD in_set_takeD)
qed

lemma str_find_bracket: "CHR ''['' \<notin> set s \<Longrightarrow> is_buffer_name s \<longleftrightarrow> s = ''buffer''"
  using str_find_no_char[of "CHR ''[''" "''charbuff[''" s 0] str_find_no_char[of "CHR ''[''" "''char[''" s 0]
  by (simp add: is_buffer_name_def)

lemma split_string_no_colon: "CHR '':'' \<notin> set s \<Longrightarrow> s \<noteq> [] \<Longrightarrow> split_string s '':'' = Some [s]"
  using str_find_no_char[of "CHR '':''" "'':''" s 0]
  by (simp add: split_string_ref split_ref.simps[of s])

lemmas type_name_eval = plain_type_def type_names_def late_type_names_def str_find_bracket

section \<open>Properties\<close>

text \<open>\<^verbatim>\<open>get_type\<close> always returns, and it classifies a text as a bitmap exactly when the text
  is no plain type name and splits at colons into two parts, the first of a simple type or an
  enumeration and the second starting with a digit; for the same texts \<^verbatim>\<open>get_bitmap_sizes\<close> gives
  sizes, unless the number of bits overflows a \<^verbatim>\<open>long\<close>.\<close>

theorem get_type_bitmap:
  "get_type s = Some BITMAP \<longleftrightarrow>
     plain_type s = None \<and>
     (\<exists>a b type. split_string s '':'' = Some [a, b] \<and> get_type a = Some type \<and> bitmap_base type b \<and>
        get_bitmap_sizes s =
          Some (res_map (\<lambda>n. Some (n, sizeof_type type)) (stol_digits b)))"
proof (cases "plain_type s")
  case (Some t)
  then show ?thesis using plain_type_no_colon[OF Some] by (simp add: get_type.simps[of s])
next
  case None
  obtain ts where ts: "split_string s '':'' = Some ts" by (simp add: split_string_ref)
  obtain t where t: "get_type (hd ts) = Some t" using get_type_total by blast
  show ?thesis
    using None ts t
    by (auto simp: get_type.simps[of s] get_bitmap_sizes_def split: list.splits if_splits)
qed

text \<open>The name that \<^verbatim>\<open>get_type_name\<close> gives to a type is read back by \<^verbatim>\<open>get_type\<close> as a type of
  the same size.\<close>

theorem type_name_keeps_size:
  assumes "fst (get_type_name t)"
  shows "\<exists>t'. get_type (snd (get_type_name t)) = Some t' \<and> sizeof_type t' = sizeof_type t"
proof -
  have "plain_type ''bitmap'' = None" by (simp add: type_name_eval)
  moreover have "split_string ''bitmap'' '':'' = Some [''bitmap'']"
    by (rule split_string_no_colon) simp_all
  ultimately have "get_type ''bitmap'' = Some COMPLEX"
    by (subst get_type.simps) simp
  then show ?thesis
    using assms by (cases t) (simp_all add: get_type_plain type_name_eval)
qed

theorem type_name_keeps_size_witness:
  "get_type_name INT64 = (True, ''int64_t'') \<and>
   (\<exists>t'. get_type ''int64_t'' = Some t' \<and> sizeof_type t' = 8)"
  using type_name_keeps_size[of INT64] by simp

text \<open>Every simple type has a power of two of at most eight bytes as its size, and
  \<^verbatim>\<open>get_type_by_size\<close> gives, signed and unsigned, a simple type of the size asked for, or
  \<open>UNKNOWN\<close>.\<close>

theorem type_sizes:
  "(is_simple_type t \<longrightarrow> sizeof_type t \<in> {1, 2, 4, 8} \<and>
      sizeof_type (get_type_by_size (sizeof_type t) u) = sizeof_type t) \<and>
   (get_type_by_size n u \<noteq> UNKNOWN \<longleftrightarrow> n \<in> {1, 2, 4, 8}) \<and>
   (n \<in> {1, 2, 4, 8} \<longrightarrow> is_simple_type (get_type_by_size n u))"
  by (cases t) (auto simp: get_type_by_size_def is_simple_type_def)

theorem type_sizes_witness: "is_simple_type FLOAT \<and> sizeof_type (get_type_by_size (sizeof_type FLOAT) True) = 4"
  using type_sizes[of FLOAT True 4] by (simp add: is_simple_type_def)

text \<open>Each \<^verbatim>\<open>endian_swap\<close> reverses the bytes of its operand in memory.\<close>

theorem endian_swap_reverses:
  "le_bytes 2 (endian_swap16 a) = rev (le_bytes 2 a) \<and>
   le_bytes 4 (endian_swap32 b) = rev (le_bytes 4 b) \<and>
   le_bytes 8 (endian_swap64 c) = rev (le_bytes 8 c)"
  by (simp add: endian_swap16_bytes endian_swap32_bytes endian_swap64_bytes)

end
