(* ===== verification/Binary_Metadata.thy ===== *)
theory Binary_Metadata
  imports Types_Util
begin

text \<open>
  The description of binary messages (\<^verbatim>\<open>Modules/parsers/binary_parser/binary_metadata_impl.cpp\<close>,
  \<^verbatim>\<open>enum_data_imp.cpp\<close>, \<^verbatim>\<open>Include/utils/parser.hpp\<close>): enumerations, the bounds and defaults of fields, the nodes
  that say where a field is, bit fields, and the operations that append fields to a description.

  A description is a tree: nested descriptions are complete when they are nested, as the code expects. Sizes
  and offsets are 64-bit words and wrap around. Numbers of the message are read from little-endian memory.
\<close>

unbundle bit_operations_syntax

section \<open>Bytes and numbers\<close>

fun le_nat :: "bytes \<Rightarrow> nat" where
  "le_nat [] = 0"
| "le_nat (b # bs) = unat b + 256 * le_nat bs"

definition word_of_bytes :: "bytes \<Rightarrow> uint64" where
  "word_of_bytes bs = of_nat (le_nat bs)"

text \<open>The value of \<open>k\<close> bytes as an unsigned and as a signed (two's complement) integer.\<close>

definition read_unsigned :: "nat \<Rightarrow> bytes \<Rightarrow> int" where
  "read_unsigned k data = int (le_nat (take k data))"

definition read_signed :: "nat \<Rightarrow> bytes \<Rightarrow> int" where
  "read_signed k data =
     (let u = read_unsigned k data in if u < 2 ^ (8 * k - 1) then u else u - 2 ^ (8 * k))"

text \<open>
  Binary floating point numbers with \<open>e\<close> bits of exponent and \<open>f\<close> bits of fraction; a finite number is given by
  its multiple of the smallest positive number, so that comparison is exact.
\<close>

datatype ieee = NaN | Minus_Inf | Plus_Inf | Finite int

definition ieee_of_nat :: "nat \<Rightarrow> nat \<Rightarrow> nat \<Rightarrow> ieee" where
  "ieee_of_nat e f x =
     (let frac = x mod 2 ^ f; expo = x div 2 ^ f mod 2 ^ e; neg = x div 2 ^ (e + f) mod 2 = 1;
          mag = (if expo = 0 then int frac else (2 ^ f + int frac) * 2 ^ (expo - 1))
      in if expo = 2 ^ e - 1 then (if frac \<noteq> 0 then NaN else if neg then Minus_Inf else Plus_Inf)
         else Finite (if neg then - mag else mag))"

fun ieee_less :: "ieee \<Rightarrow> ieee \<Rightarrow> bool" where
  "ieee_less NaN _ = False"
| "ieee_less _ NaN = False"
| "ieee_less Minus_Inf y = (y \<noteq> Minus_Inf)"
| "ieee_less _ Minus_Inf = False"
| "ieee_less Plus_Inf _ = False"
| "ieee_less _ Plus_Inf = True"
| "ieee_less (Finite x) (Finite y) = (x < y)"

datatype num_val = Integer int | Floating ieee

fun val_less :: "num_val \<Rightarrow> num_val \<Rightarrow> bool" where
  "val_less (Integer x) (Integer y) = (x < y)"
| "val_less (Floating x) (Floating y) = ieee_less x y"
| "val_less _ _ = False"

text \<open>How the memory of a field is read for each type of field that has bounds.\<close>

fun typed_val :: "type_enum \<Rightarrow> bytes \<Rightarrow> num_val option" where
  "typed_val INT8 data = Some (Integer (read_signed 1 data))"
| "typed_val CHAR_TYPE data = Some (Integer (read_signed 1 data))"
| "typed_val UINT8 data = Some (Integer (read_unsigned 1 data))"
| "typed_val BYTE data = Some (Integer (read_unsigned 1 data))"
| "typed_val INT16 data = Some (Integer (read_signed 2 data))"
| "typed_val SHORT data = Some (Integer (read_signed 2 data))"
| "typed_val UINT16 data = Some (Integer (read_unsigned 2 data))"
| "typed_val USHORT data = Some (Integer (read_unsigned 2 data))"
| "typed_val INT32 data = Some (Integer (read_signed 4 data))"
| "typed_val UINT32 data = Some (Integer (read_unsigned 4 data))"
| "typed_val INT64 data = Some (Integer (read_signed 8 data))"
| "typed_val UINT64 data = Some (Integer (read_unsigned 8 data))"
| "typed_val FLOAT data = Some (Floating (ieee_of_nat 8 23 (le_nat (take 4 data))))"
| "typed_val DOUBLE data = Some (Floating (ieee_of_nat 11 52 (le_nat (take 8 data))))"
| "typed_val _ data = None"

section \<open>Bounds and defaults\<close>

definition VAL_SIZE :: nat where
  "VAL_SIZE = 8"

record simple_options =
  has_min :: bool
  minval :: bytes
  has_max :: bool
  maxval :: bytes
  has_def :: bool
  defval :: bytes

definition options_reset :: simple_options where
  "options_reset =
     \<lparr>has_min = False, minval = replicate VAL_SIZE 0, has_max = False, maxval = replicate VAL_SIZE 0,
      has_def = False, defval = replicate VAL_SIZE 0\<rparr>"

definition compare_val :: "num_val \<Rightarrow> num_val \<Rightarrow> int" where
  "compare_val val1 val2 = (if val_less val2 val1 then 1 else if val_less val1 val2 then -1 else 0)"

definition is_in_bounds_val :: "simple_options \<Rightarrow> type_enum \<Rightarrow> num_val \<Rightarrow> bool" where
  "is_in_bounds_val options type val \<longleftrightarrow>
     (\<not> has_min options \<or> compare_val val (the (typed_val type (minval options))) \<ge> 0) \<and>
     (\<not> has_max options \<or> compare_val val (the (typed_val type (maxval options))) \<le> 0)"

definition is_in_bounds :: "simple_options \<Rightarrow> bytes \<Rightarrow> type_enum \<Rightarrow> bool" where
  "is_in_bounds options data type =
     (if type = BOOL then data ! 0 = 1 \<or> data ! 0 = 0
      else case typed_val type data of None \<Rightarrow> True | Some val \<Rightarrow> is_in_bounds_val options type val)"

section \<open>Enumerations\<close>

definition MAX_NAME :: nat where
  "MAX_NAME = 256"

record enum_data =
  e_name :: string
  e_items :: "(string \<times> int64) list"

definition enum_data_create :: "string option \<Rightarrow> enum_data result" where
  "enum_data_create name =
     (case name of None \<Rightarrow> Inl (Throws (Invalid_argument ''enum_data_impl::name'')) | Some n \<Rightarrow> Inr \<lparr>e_name = n, e_items = []\<rparr>)"

text \<open>The name is copied into an array of \<open>MAX_NAME\<close> characters with its terminating zero.\<close>

definition enum_add_item :: "string option \<Rightarrow> int64 \<Rightarrow> enum_data \<Rightarrow> (bool \<times> enum_data) result" where
  "enum_add_item name val e =
     (case name of
        None \<Rightarrow> Inr (False, e)
      | Some n \<Rightarrow> if length n < MAX_NAME then Inr (True, e\<lparr>e_items := e_items e @ [(n, val)]\<rparr>) else Inl Undefined)"

definition item_by_index :: "size_t \<Rightarrow> enum_data \<Rightarrow> (string \<times> int64) option result" where
  "item_by_index index e =
     (if unat index > length (e_items e) then Inr None
      else if unat index < length (e_items e) then Inr (Some (e_items e ! unat index)) else Inl Undefined)"

definition item_by_name :: "string \<Rightarrow> enum_data \<Rightarrow> (string \<times> int64) option" where
  "item_by_name name e = find (\<lambda>it. fst it = name) (e_items e)"

definition item_by_val :: "int64 \<Rightarrow> enum_data \<Rightarrow> (string \<times> int64) option" where
  "item_by_val val e = find (\<lambda>it. snd it = val) (e_items e)"

definition val_by_name :: "string \<Rightarrow> enum_data \<Rightarrow> int64 option" where
  "val_by_name name e = map_option snd (item_by_name name e)"

definition name_by_val :: "int64 \<Rightarrow> enum_data \<Rightarrow> string option" where
  "name_by_val val e = map_option fst (item_by_val val e)"

section \<open>Nodes\<close>

text \<open>\<open>n_bits\<close> is the number of bits and the bit offset of a bit field.\<close>

record node_attr =
  n_name :: string
  n_offset :: size_t
  n_size :: size_t
  n_type :: type_enum
  n_big_endian :: bool
  n_options :: simple_options
  n_def_string :: string
  n_enum :: "enum_data option"
  n_count :: size_t
  n_bits :: "(size_t \<times> size_t) option"

datatype binary_node = Node (n_attr: node_attr) (n_nested: "binary_metadata option")
and binary_metadata =
  Metadata (md_name: string) (md_big_endian: bool) (md_nodes: "binary_node list") (md_size: size_t)

definition node_attr_create :: "string \<Rightarrow> size_t \<Rightarrow> size_t \<Rightarrow> type_enum \<Rightarrow> bool \<Rightarrow> node_attr" where
  "node_attr_create name offset n type big_endian =
     \<lparr>n_name = name, n_offset = offset, n_size = n, n_type = type, n_big_endian = big_endian,
      n_options = options_reset, n_def_string = '''', n_enum = None, n_count = 1, n_bits = None\<rparr>"

text \<open>The conversion between byte orders: the bytes of every complete pair are exchanged.\<close>

fun swap_pairs :: "bytes \<Rightarrow> bytes" where
  "swap_pairs (a # b # bs) = b # a # swap_pairs bs"
| "swap_pairs bs = bs"

definition convert_endian :: "bool \<Rightarrow> nat \<Rightarrow> bytes \<Rightarrow> bytes" where
  "convert_endian big_endian n data =
     (if big_endian \<noteq> is_big_endian then swap_pairs (take n data) @ drop n data else data)"

text \<open>\<^verbatim>\<open>binary_node::read\<close> and \<^verbatim>\<open>write\<close>; the copy in \<^verbatim>\<open>read\<close> has the size of the node, not that of the data.\<close>

definition node_read :: "node_attr \<Rightarrow> bytes \<Rightarrow> size_t \<Rightarrow> bytes \<Rightarrow> size_t \<Rightarrow> (bool \<times> bytes) result" where
  "node_read a data data_size buffer buffer_size =
     (if data_size > n_size a \<or> data_size > buffer_size then Inr (False, data)
      else res_bind (mem_read buffer 0 (unat (n_size a))) (\<lambda>bs.
             res_map (\<lambda>d. (True, convert_endian (n_big_endian a) (unat data_size) d)) (mem_write data 0 bs)))"

definition node_write :: "node_attr \<Rightarrow> bytes \<Rightarrow> size_t \<Rightarrow> bytes \<Rightarrow> size_t \<Rightarrow> (bool \<times> bytes \<times> bytes) result" where
  "node_write a data data_size buffer buffer_size =
     (if data_size > n_size a \<or> data_size > buffer_size then Inr (False, data, buffer)
      else let d = convert_endian (n_big_endian a) (unat data_size) data in
           res_bind (mem_read d 0 (unat data_size)) (\<lambda>bs.
             res_map (\<lambda>buf. (True, d, buf)) (mem_write buffer 0 bs)))"

section \<open>Bit fields\<close>

text \<open>
  Powers of two are computed in double precision, where \<open>2 ^ k - 1\<close> is exact up to 53 bits and rounds to \<open>2 ^ k\<close>
  above. Converting a number that the target cannot represent is undefined, as is shifting by the width
  of the operand or more.
\<close>

definition pow2_minus_1 :: "nat \<Rightarrow> nat" where
  "pow2_minus_1 k = (if k \<le> 53 then 2 ^ k - 1 else 2 ^ k)"

definition bit_mask :: "nat \<Rightarrow> nat \<Rightarrow> uint64 result" where
  "bit_mask num_of_bits bit_offset =
     (if num_of_bits < 64 \<and> bit_offset < 64 then Inr (push_bit bit_offset (2 ^ num_of_bits - 1)) else Inl Undefined)"

text \<open>\<open>w\<close> is the size of the unsigned type that the value is read as.\<close>

definition check_data :: "nat \<Rightarrow> nat \<Rightarrow> nat \<Rightarrow> bool result" where
  "check_data w num_of_bits val =
     (if pow2_minus_1 num_of_bits < 2 ^ (8 * w) then Inr (val \<le> pow2_minus_1 num_of_bits) else Inl Undefined)"

text \<open>
  The shift of the value: types smaller than \<^verbatim>\<open>int\<close> are promoted to it, and the shifted value has to fit.
\<close>

definition shift_data :: "nat \<Rightarrow> nat \<Rightarrow> nat \<Rightarrow> uint64 result" where
  "shift_data w bit_offset val =
     (if w < 4 then (if bit_offset < 32 \<and> val * 2 ^ bit_offset < 2 ^ 31 then Inr (of_nat (val * 2 ^ bit_offset)) else Inl Undefined)
      else if bit_offset < 8 * w then Inr (of_nat (val * 2 ^ bit_offset mod 2 ^ (8 * w))) else Inl Undefined)"

definition mask_bit_data :: "nat \<Rightarrow> nat \<Rightarrow> nat \<Rightarrow> nat \<Rightarrow> uint64 \<Rightarrow> uint64 result" where
  "mask_bit_data w num_of_bits bit_offset val exist_data =
     res_bind (bit_mask num_of_bits bit_offset) (\<lambda>m.
       res_map (\<lambda>new_data. new_data OR (exist_data AND NOT m)) (shift_data w bit_offset val))"

definition bit_node_read :: "node_attr \<Rightarrow> nat \<Rightarrow> nat \<Rightarrow> bytes \<Rightarrow> size_t \<Rightarrow> bytes \<Rightarrow> size_t \<Rightarrow> (bool \<times> bytes) result" where
  "bit_node_read a num_of_bits bit_offset data data_size buffer buffer_size =
     (if data_size > n_size a \<or> buffer_size > 8 then Inr (False, data)
      else res_bind (mem_read buffer 0 (unat buffer_size)) (\<lambda>bs.
             res_bind (bit_mask num_of_bits bit_offset) (\<lambda>m.
               let exist_data = drop_bit bit_offset (word_of_bytes bs AND m) in
               res_map (\<lambda>d. (True, convert_endian (n_big_endian a) (unat data_size) d))
                 (mem_write data 0 (take (unat buffer_size) (le_bytes 8 exist_data))))))"

text \<open>The conversion of the byte order changes the data of the caller in place.\<close>

definition bit_node_write ::
  "node_attr \<Rightarrow> nat \<Rightarrow> nat \<Rightarrow> bytes \<Rightarrow> size_t \<Rightarrow> bytes \<Rightarrow> size_t \<Rightarrow> (bool \<times> bytes \<times> bytes) result" where
  "bit_node_write a num_of_bits bit_offset data data_size buffer buffer_size =
     (if data_size > n_size a \<or> buffer_size > 8 then Inr (False, data, buffer)
      else let d = convert_endian (n_big_endian a) (unat data_size) data in
           res_bind (mem_read buffer 0 (unat buffer_size)) (\<lambda>bs.
             if unat data_size \<in> {1, 2, 4, 8}
             then res_bind (mem_read d 0 (unat data_size)) (\<lambda>vs.
                    res_bind (check_data (unat data_size) num_of_bits (le_nat vs)) (\<lambda>ok.
                      if \<not> ok then Inr (False, d, buffer)
                      else res_bind (mask_bit_data (unat data_size) num_of_bits bit_offset (le_nat vs) (word_of_bytes bs))
                             (\<lambda>new_data. res_map (\<lambda>buf. (True, d, buf))
                                (mem_write buffer 0 (take (unat buffer_size) (le_bytes 8 new_data))))))
             else Inr (False, d, buffer)))"

section \<open>Building a description\<close>

text \<open>An empty name is replaced by the index of the new node.\<close>

definition field_name :: "binary_metadata \<Rightarrow> string \<Rightarrow> string" where
  "field_name md name = (if name = [] then nat_text (length (md_nodes md)) else name)"

definition metadata_create :: "bool \<Rightarrow> binary_metadata" where
  "metadata_create big_endian = Metadata [] big_endian [] 0"

definition set_big_endian :: "bool \<Rightarrow> binary_metadata \<Rightarrow> binary_metadata" where
  "set_big_endian be md = Metadata (md_name md) be (md_nodes md) (md_size md)"

text \<open>Appending a node and advancing the offset.\<close>

definition append_node :: "binary_node \<Rightarrow> size_t \<Rightarrow> binary_metadata \<Rightarrow> binary_metadata" where
  "append_node n increase md = Metadata (md_name md) (md_big_endian md) (md_nodes md @ [n]) (md_size md + increase)"

definition new_attr :: "binary_metadata \<Rightarrow> string \<Rightarrow> size_t \<Rightarrow> type_enum \<Rightarrow> node_attr" where
  "new_attr md name n type = node_attr_create (field_name md name) (md_size md) n type (md_big_endian md)"

definition put :: "string option \<Rightarrow> size_t \<Rightarrow> type_enum \<Rightarrow> simple_options \<Rightarrow> binary_metadata \<Rightarrow> bool \<times> binary_metadata" where
  "put name n type options md =
     (case name of
        None \<Rightarrow> (False, md)
      | Some nm \<Rightarrow> (True, append_node (Node ((new_attr md nm n type)\<lparr>n_options := options\<rparr>) None) n md))"

definition put_enum ::
  "string option \<Rightarrow> size_t \<Rightarrow> enum_data option \<Rightarrow> simple_options \<Rightarrow> binary_metadata \<Rightarrow> bool \<times> binary_metadata" where
  "put_enum name n enum_type options md =
     (case name of
        None \<Rightarrow> (False, md)
      | Some nm \<Rightarrow> (True, append_node (Node ((new_attr md nm n ENUM)\<lparr>n_options := options, n_enum := enum_type\<rparr>) None) n md))"

definition put_string :: "string option \<Rightarrow> size_t \<Rightarrow> string \<Rightarrow> binary_metadata \<Rightarrow> bool \<times> binary_metadata" where
  "put_string name max_size default_string md =
     (case name of
        None \<Rightarrow> (False, md)
      | Some nm \<Rightarrow>
          (True, append_node (Node ((new_attr md nm max_size STRING)\<lparr>n_def_string := default_string\<rparr>) None) max_size md))"

text \<open>
  A bit field shares the storage unit of the bit field before it while the unit has bits left; when they are too
  few the unit of the new field is larger. The unit of a first bit field has the size that is asked for. The
  result is the size of the unit, the growth of the message, the bit offset and the offset. The node before is taken
  for a bit field because of its type alone.
\<close>

definition bit_placement ::
  "size_t \<Rightarrow> size_t \<Rightarrow> node_attr option \<Rightarrow> size_t \<Rightarrow> (size_t \<times> size_t \<times> size_t \<times> size_t) result" where
  "bit_placement num_of_bits data_size prev m_offset =
     (case prev of
        None \<Rightarrow> Inr (data_size, data_size, 0, m_offset)
      | Some a \<Rightarrow>
          (case n_bits a of
             None \<Rightarrow> Inl Undefined
           | Some (bits, boff) \<Rightarrow>
               let bit_count = boff + bits; bit_remaining = n_size a * 8 - bit_count in
               Inr (if bit_remaining = 0 then (data_size, data_size, 0, m_offset)
                    else if bit_remaining < num_of_bits
                    then let inc = (num_of_bits - bit_remaining) div 8 + 1 in (n_size a + inc, inc, bit_count, n_offset a)
                    else (n_size a, 0, bit_count, n_offset a))))"

definition add_bit_node :: "string \<Rightarrow> size_t \<Rightarrow> size_t \<Rightarrow> node_attr option \<Rightarrow> binary_metadata \<Rightarrow> binary_metadata result" where
  "add_bit_node name num_of_bits data_size prev md =
     res_map (\<lambda>(n, size_to_increase, bit_offset, offset).
         append_node
           (Node ((node_attr_create name offset n BITMAP (md_big_endian md))\<lparr>n_bits := Some (num_of_bits, bit_offset)\<rparr>) None)
           size_to_increase md)
       (bit_placement num_of_bits data_size prev (md_size md))"

definition prev_bit_node :: "binary_metadata \<Rightarrow> node_attr option" where
  "prev_bit_node md =
     (let nodes = md_nodes md in
      if nodes \<noteq> [] \<and> n_type (n_attr (last nodes)) = BITMAP \<and> length nodes < 8 then Some (n_attr (last nodes)) else None)"

definition put_bits :: "string option \<Rightarrow> size_t \<Rightarrow> size_t \<Rightarrow> binary_metadata \<Rightarrow> (bool \<times> binary_metadata) result" where
  "put_bits name num_of_bits data_size md =
     (case name of
        None \<Rightarrow> Inr (False, md)
      | Some nm \<Rightarrow>
          if num_of_bits = 0 \<or> data_size > 8 then Inr (False, md)
          else res_map (\<lambda>md'. (True, md')) (add_bit_node (field_name md nm) num_of_bits data_size (prev_bit_node md) md))"

text \<open>Nesting uses the nested description without a test for a null pointer.\<close>

definition nest_metadata :: "string option \<Rightarrow> binary_metadata option \<Rightarrow> binary_metadata \<Rightarrow> (bool \<times> binary_metadata) result" where
  "nest_metadata name nested md =
     (case name of
        None \<Rightarrow> Inr (False, md)
      | Some nm \<Rightarrow>
          (case nested of
             None \<Rightarrow> Inl Undefined
           | Some m \<Rightarrow>
               Inr (True, append_node
                      (Node (node_attr_create (field_name md nm) (md_size md) (md_size m) COMPLEX (md_big_endian m)) (Some m))
                      (md_size m) md)))"

definition array_element_name :: "string \<Rightarrow> size_t \<Rightarrow> string" where
  "array_element_name name num_of_elements = name @ ''['' @ nat_text (unat num_of_elements) @ '']''"

text \<open>An array nests a description of one element.\<close>

definition array_of :: "node_attr \<Rightarrow> binary_metadata \<Rightarrow> size_t \<Rightarrow> size_t \<Rightarrow> binary_metadata \<Rightarrow> binary_metadata" where
  "array_of a element n num_of_elements md =
     append_node (Node (a\<lparr>n_count := num_of_elements\<rparr>) (Some element)) (n * num_of_elements) md"

definition put_array ::
  "string option \<Rightarrow> size_t \<Rightarrow> type_enum \<Rightarrow> size_t \<Rightarrow> simple_options \<Rightarrow> binary_metadata option \<Rightarrow> binary_metadata \<Rightarrow>
   (bool \<times> binary_metadata) result" where
  "put_array name n type num_of_elements options nested md =
     (case name of
        None \<Rightarrow> Inr (False, md)
      | Some nm \<Rightarrow>
          let element0 = metadata_create (md_big_endian md); en = array_element_name nm num_of_elements in
          res_map (\<lambda>(_, element).
              (True, array_of ((new_attr md nm n ARRAY)\<lparr>n_options := options\<rparr>) element n num_of_elements md))
            (if type = COMPLEX then nest_metadata (Some en) nested element0
             else Inr (put (Some en) n type options element0)))"

definition put_string_array :: "string option \<Rightarrow> size_t \<Rightarrow> size_t \<Rightarrow> string \<Rightarrow> binary_metadata \<Rightarrow> bool \<times> binary_metadata" where
  "put_string_array name n num_of_elements default_string md =
     (case name of
        None \<Rightarrow> (False, md)
      | Some nm \<Rightarrow>
          let element = snd (put_string (Some (array_element_name nm num_of_elements)) n default_string
                               (metadata_create (md_big_endian md)))
          in (True, array_of ((new_attr md nm n ARRAY)\<lparr>n_def_string := default_string\<rparr>) element n num_of_elements md))"

text \<open>The array of an enumeration keeps an empty name.\<close>

definition put_enum_array ::
  "string option \<Rightarrow> size_t \<Rightarrow> size_t \<Rightarrow> simple_options \<Rightarrow> enum_data option \<Rightarrow> binary_metadata \<Rightarrow> bool \<times> binary_metadata" where
  "put_enum_array name num_of_elements n options enum_type md =
     (case (name, enum_type) of
        (Some nm, Some e) \<Rightarrow>
          let element = snd (put_enum (Some (array_element_name nm num_of_elements)) n (Some e) options
                               (metadata_create (md_big_endian md)))
          in (True, array_of ((node_attr_create nm (md_size md) n ARRAY (md_big_endian md))\<lparr>n_options := options, n_enum := Some e\<rparr>)
                      element n num_of_elements md)
      | _ \<Rightarrow> (False, md))"

definition put_buffer :: "string option \<Rightarrow> size_t \<Rightarrow> binary_metadata \<Rightarrow> binary_metadata" where
  "put_buffer name n md = snd (put name n BUFFER options_reset md)"

section \<open>Querying a description\<close>

definition query_node :: "string \<Rightarrow> binary_metadata \<Rightarrow> binary_node option" where
  "query_node name md = find (\<lambda>n. n_name (n_attr n) = name) (md_nodes md)"

definition query_node_by_index :: "nat \<Rightarrow> binary_metadata \<Rightarrow> binary_node option" where
  "query_node_by_index index md = (if index < length (md_nodes md) then Some (md_nodes md ! index) else None)"

fun index_loop :: "string \<Rightarrow> nat \<Rightarrow> binary_node list \<Rightarrow> nat option" where
  "index_loop name i [] = None"
| "index_loop name i (n # ns) = (if n_name (n_attr n) = name then Some i else index_loop name (Suc i) ns)"

definition get_index_by_name :: "string \<Rightarrow> binary_metadata \<Rightarrow> nat option" where
  "get_index_by_name name md = index_loop name 0 (md_nodes md)"

section \<open>The store\<close>

record metadata_store =
  st_metadata :: "(string \<times> binary_metadata) list"
  st_enums :: "(string \<times> enum_data) list"

definition add_parser_metadata :: "string \<Rightarrow> binary_metadata \<Rightarrow> metadata_store \<Rightarrow> bool \<times> metadata_store" where
  "add_parser_metadata name md st =
     (case map_of (st_metadata st) name of
        None \<Rightarrow> (True, st\<lparr>st_metadata := st_metadata st @ [(name, md)]\<rparr>)
      | Some _ \<Rightarrow> (False, st))"

definition query_parser_metadata :: "string \<Rightarrow> metadata_store \<Rightarrow> binary_metadata option" where
  "query_parser_metadata name st = map_of (st_metadata st) name"

definition add_enum :: "string \<Rightarrow> enum_data \<Rightarrow> metadata_store \<Rightarrow> bool \<times> metadata_store" where
  "add_enum name e st =
     (case map_of (st_enums st) name of
        None \<Rightarrow> (True, st\<lparr>st_enums := st_enums st @ [(name, e)]\<rparr>)
      | Some _ \<Rightarrow> (False, st))"

definition query_enum :: "string \<Rightarrow> metadata_store \<Rightarrow> enum_data option" where
  "query_enum name st = map_of (st_enums st) name"

text \<open>Naming a description registers it; the name is set also when the store already has it.\<close>

definition namely :: "string option \<Rightarrow> binary_metadata \<Rightarrow> metadata_store option \<Rightarrow> bool \<times> binary_metadata \<times> metadata_store option" where
  "namely name md store =
     (case name of
        None \<Rightarrow> (False, md, store)
      | Some nm \<Rightarrow>
          let md' = Metadata nm (md_big_endian md) (md_nodes md) (md_size md) in
          if nm = [] then (True, md', store)
          else (case store of
                  None \<Rightarrow> (True, md', store)
                | Some st \<Rightarrow>
                    (case query_parser_metadata nm st of
                       Some _ \<Rightarrow> (False, md', store)
                     | None \<Rightarrow> (True, md', Some (snd (add_parser_metadata nm md' st))))))"

definition nest_metadata_by_name ::
  "string option \<Rightarrow> string \<Rightarrow> metadata_store option \<Rightarrow> binary_metadata \<Rightarrow> (bool \<times> binary_metadata) result" where
  "nest_metadata_by_name name metadata_name store md =
     (case store of
        None \<Rightarrow> Inr (False, md)
      | Some st \<Rightarrow>
          (case query_parser_metadata metadata_name st of
             None \<Rightarrow> Inr (False, md)
           | Some m \<Rightarrow> nest_metadata name (Some m) md))"

definition put_array_by_name ::
  "string option \<Rightarrow> size_t \<Rightarrow> simple_options \<Rightarrow> string \<Rightarrow> metadata_store option \<Rightarrow> binary_metadata \<Rightarrow> (bool \<times> binary_metadata) result" where
  "put_array_by_name name num_of_elements options metadata_name store md =
     (case store of
        None \<Rightarrow> Inr (False, md)
      | Some st \<Rightarrow>
          (case query_parser_metadata metadata_name st of
             None \<Rightarrow> Inr (False, md)
           | Some m \<Rightarrow> put_array name (md_size m) COMPLEX num_of_elements options (Some m) md))"

section \<open>The layout of a description\<close>

text \<open>
  The bytes that a node describes, from \<open>node_start\<close> to \<open>node_end\<close>. Two nodes of a description do not
  overlap, unless they are bit fields of one storage unit with disjoint bits.
\<close>

definition node_start :: "binary_node \<Rightarrow> nat" where
  "node_start n = unat (n_offset (n_attr n))"

definition node_extent :: "binary_node \<Rightarrow> nat" where
  "node_extent n =
     (if n_type (n_attr n) = ARRAY then unat (n_size (n_attr n)) * unat (n_count (n_attr n)) else unat (n_size (n_attr n)))"

definition node_end :: "binary_node \<Rightarrow> nat" where
  "node_end n = node_start n + node_extent n"

definition bits_start :: "binary_node \<Rightarrow> nat" where
  "bits_start n = (case n_bits (n_attr n) of None \<Rightarrow> 0 | Some (bits, boff) \<Rightarrow> unat boff)"

definition bits_end :: "binary_node \<Rightarrow> nat" where
  "bits_end n = (case n_bits (n_attr n) of None \<Rightarrow> 0 | Some (bits, boff) \<Rightarrow> unat boff + unat bits)"

definition bit_field :: "binary_node \<Rightarrow> bool" where
  "bit_field n \<longleftrightarrow> n_type (n_attr n) = BITMAP \<and> n_bits (n_attr n) \<noteq> None \<and> bits_end n \<le> 8 * unat (n_size (n_attr n))"

definition apart :: "binary_node \<Rightarrow> binary_node \<Rightarrow> bool" where
  "apart m n \<longleftrightarrow>
     node_end m \<le> node_start n \<or>
     (bit_field m \<and> bit_field n \<and> node_start m = node_start n \<and> bits_end m \<le> bits_start n)"

definition layout_ok :: "binary_node list \<Rightarrow> nat \<Rightarrow> bool" where
  "layout_ok nodes sz \<longleftrightarrow>
     (\<forall>n \<in> set nodes. node_end n \<le> sz \<and> (n_type (n_attr n) = BITMAP \<longrightarrow> bit_field n)) \<and>
     sorted_wrt apart nodes \<and>
     (nodes \<noteq> [] \<and> n_type (n_attr (last nodes)) = BITMAP \<longrightarrow> node_end (last nodes) = sz)"

definition array_element_ok :: "node_attr \<Rightarrow> binary_metadata \<Rightarrow> bool" where
  "array_element_ok a m \<longleftrightarrow>
     n_count a \<noteq> 0 \<and> unat (n_size a) * unat (n_count a) < 2 ^ 64 \<and> md_size m = n_size a \<and>
     (case md_nodes m of [c] \<Rightarrow> n_offset (n_attr c) = 0 \<and> n_size (n_attr c) = n_size a | _ \<Rightarrow> False)"

text \<open>A description is well formed when its layout is, its arrays describe one element, and its nested descriptions
  have the size of their node and are well formed.\<close>

fun wf_metadata :: "binary_metadata \<Rightarrow> bool" and wf_nodes :: "binary_node list \<Rightarrow> bool" where
  "wf_metadata (Metadata nm be nodes sz) = (layout_ok nodes (unat sz) \<and> wf_nodes nodes)"
| "wf_nodes [] = True"
| "wf_nodes (Node a None # ns) = (n_type a \<notin> {COMPLEX, ARRAY} \<and> wf_nodes ns)"
| "wf_nodes (Node a (Some m) # ns) =
     ((n_type a = COMPLEX \<and> md_size m = n_size a \<or> n_type a = ARRAY \<and> array_element_ok a m) \<and> wf_metadata m \<and> wf_nodes ns)"

definition plain_field :: "type_enum \<Rightarrow> bool" where
  "plain_field type \<longleftrightarrow> type \<notin> {BITMAP, COMPLEX, ARRAY}"

text \<open>
  The descriptions that the operations build within bounds that the code does not check: sizes do not wrap around at 64 bits, arrays have
  elements, an array of structures is asked for with the size of the structure, and a bit field is not larger than the storage unit that is asked for.
\<close>

inductive built :: "binary_metadata \<Rightarrow> bool" where
  built_create: "built (metadata_create be)"
| built_endian: "built md \<Longrightarrow> built (set_big_endian be md)"
| built_named: "built md \<Longrightarrow> namely name md store = (r, md', store') \<Longrightarrow> built md'"
| built_put: "built md \<Longrightarrow> put name n type options md = (r, md') \<Longrightarrow> plain_field type \<Longrightarrow> md_size md \<le> md_size md' \<Longrightarrow> built md'"
| built_enum: "built md \<Longrightarrow> put_enum name n e options md = (r, md') \<Longrightarrow> md_size md \<le> md_size md' \<Longrightarrow> built md'"
| built_string: "built md \<Longrightarrow> put_string name n d md = (r, md') \<Longrightarrow> md_size md \<le> md_size md' \<Longrightarrow> built md'"
| built_bits: "built md \<Longrightarrow> put_bits name bits n md = Inr (r, md') \<Longrightarrow> unat bits \<le> 8 * unat n \<Longrightarrow>
     unat (md_size md) + unat bits + 8 < 2 ^ 60 \<Longrightarrow> built md'"
| built_nest: "built md \<Longrightarrow> built m \<Longrightarrow> nest_metadata name (Some m) md = Inr (r, md') \<Longrightarrow> md_size md \<le> md_size md' \<Longrightarrow> built md'"
| built_array: "built md \<Longrightarrow> put_array name n type k options None md = Inr (r, md') \<Longrightarrow> plain_field type \<Longrightarrow>
     unat (md_size md) + unat n * unat k < 2 ^ 64 \<Longrightarrow> k \<noteq> 0 \<Longrightarrow> built md'"
| built_nested_array: "built md \<Longrightarrow> built m \<Longrightarrow> put_array name (md_size m) COMPLEX k options (Some m) md = Inr (r, md') \<Longrightarrow>
     unat (md_size md) + unat (md_size m) * unat k < 2 ^ 64 \<Longrightarrow> k \<noteq> 0 \<Longrightarrow> built md'"
| built_string_array: "built md \<Longrightarrow> put_string_array name n k d md = (r, md') \<Longrightarrow>
     unat (md_size md) + unat n * unat k < 2 ^ 64 \<Longrightarrow> k \<noteq> 0 \<Longrightarrow> built md'"
| built_enum_array: "built md \<Longrightarrow> put_enum_array name k n options e md = (r, md') \<Longrightarrow>
     unat (md_size md) + unat n * unat k < 2 ^ 64 \<Longrightarrow> k \<noteq> 0 \<Longrightarrow> built md'"

section \<open>Lemmas on the layout\<close>

lemma wf_metadata_iff: "wf_metadata md \<longleftrightarrow> layout_ok (md_nodes md) (unat (md_size md)) \<and> wf_nodes (md_nodes md)"
  by (cases md) simp

lemma wf_nodes_append: "wf_nodes (xs @ ys) \<longleftrightarrow> wf_nodes xs \<and> wf_nodes ys"
proof (induction xs)
  case (Cons x xs)
  then show ?case by (cases x; cases "n_nested x") auto
qed simp

lemma size_t_add:
  "(a :: size_t) \<le> a + b \<Longrightarrow> unat (a + b) = unat a + unat b"
proof -
  have "unat b < 2 ^ 64" using unsigned_less[of b] by simp
  moreover assume "a \<le> a + b"
  ultimately show ?thesis by (simp add: unat_plus_if_size word_size word_le_nat_alt split: if_splits)
qed

lemma append_node_sel [simp]:
  "md_nodes (append_node n k md) = md_nodes md @ [n]" "md_size (append_node n k md) = md_size md + k"
  by (simp_all add: append_node_def)

lemma layout_append:
  assumes ok: "layout_ok nodes sz" and start: "node_start n = sz" and ext: "node_extent n = k"
    and bits: "n_type (n_attr n) = BITMAP \<longrightarrow> bit_field n"
  shows "layout_ok (nodes @ [n]) (sz + k)"
proof -
  have "node_end n = sz + k" by (simp add: node_end_def start ext)
  moreover have "apart m n" if "m \<in> set nodes" for m
    using ok that start by (auto simp: layout_ok_def apart_def)
  ultimately show ?thesis
    using ok bits by (auto simp: layout_ok_def sorted_wrt_append)
qed

lemma wf_append_field:
  assumes "wf_metadata md" and "n_offset a = md_size md" and "n_size a = k" and "plain_field (n_type a)"
    and "md_size md \<le> md_size md + k"
  shows "wf_metadata (append_node (Node a None) k md)"
  using assms layout_append[of "md_nodes md" "unat (md_size md)" "Node a None" "unat k"] size_t_add[of "md_size md" k]
  by (simp add: wf_metadata_iff wf_nodes_append node_start_def node_extent_def plain_field_def)

lemma wf_append_nested:
  assumes "wf_metadata md" and "wf_metadata m" and "n_offset a = md_size md" and "n_size a = md_size m"
    and "n_type a = COMPLEX" and "md_size md \<le> md_size md + md_size m"
  shows "wf_metadata (append_node (Node a (Some m)) (md_size m) md)"
  using assms layout_append[of "md_nodes md" "unat (md_size md)" "Node a (Some m)" "unat (md_size m)"]
    size_t_add[of "md_size md" "md_size m"]
  by (simp add: wf_metadata_iff wf_nodes_append node_start_def node_extent_def)

lemma size_t_mult: "unat (a :: size_t) * unat b < 2 ^ 64 \<Longrightarrow> unat (a * b) = unat a * unat b"
  by (simp add: unat_word_ariths)

lemma wf_array_of:
  assumes "wf_metadata md" and "wf_metadata el" and "n_offset a = md_size md" and "n_size a = n" and "n_type a = ARRAY"
    and "md_nodes el = [c]" and "n_offset (n_attr c) = 0" and "n_size (n_attr c) = n" and "md_size el = n"
    and "unat (md_size md) + unat n * unat k < 2 ^ 64" and "k \<noteq> 0"
  shows "wf_metadata (array_of a el n k md)"
proof -
  have "unat (n * k) = unat n * unat k" using assms(10) by (intro size_t_mult) linarith
  moreover from this have "unat (md_size md + n * k) = unat (md_size md) + unat n * unat k"
    using assms(10) by (simp add: unat_word_ariths)
  ultimately show ?thesis
    using assms layout_append[of "md_nodes md" "unat (md_size md)" "Node (a\<lparr>n_count := k\<rparr>) (Some el)" "unat n * unat k"]
    by (simp add: array_of_def wf_metadata_iff wf_nodes_append node_start_def node_extent_def array_element_ok_def)
qed

lemma wf_create [simp]: "wf_metadata (metadata_create be)"
  by (simp add: metadata_create_def layout_ok_def)

text \<open>The description of the elements of an array.\<close>

lemma element_field:
  assumes "plain_field (n_type a)" and "n_offset a = 0" and "n_size a = n"
  shows "wf_metadata (append_node (Node a None) n (metadata_create be))"
  using wf_append_field[OF wf_create, of a be n] assms by (simp add: metadata_create_def)

lemma new_attr_sel [simp]:
  "n_offset (new_attr md nm n t) = md_size md" "n_size (new_attr md nm n t) = n" "n_type (new_attr md nm n t) = t"
  by (simp_all add: new_attr_def node_attr_create_def)

lemma node_attr_create_sel [simp]:
  "n_offset (node_attr_create nm off n t be) = off" "n_size (node_attr_create nm off n t be) = n"
  "n_type (node_attr_create nm off n t be) = t" "n_bits (node_attr_create nm off n t be) = None"
  by (simp_all add: node_attr_create_def)

lemma metadata_create_sel [simp]:
  "md_size (metadata_create be) = 0" "md_nodes (metadata_create be) = []" "md_big_endian (metadata_create be) = be"
  by (simp_all add: metadata_create_def)

text \<open>Where a bit field behind another one is placed, in natural numbers.\<close>

lemma bit_placement_next:
  assumes bits: "n_bits a = Some (pb, po)" and fits: "unat po + unat pb \<le> 8 * unat (n_size a)"
    and small: "unat (n_size a) + unat b + 8 < 2 ^ 60" and unit: "0 < 8 * unat (n_size a) - (unat po + unat pb)"
  shows "\<exists>n inc. bit_placement b ds (Some a) m = Inr (n, inc, po + pb, n_offset a) \<and>
           unat n = unat (n_size a) + unat inc \<and> unat (po + pb) = unat po + unat pb \<and>
           unat (po + pb) + unat b \<le> 8 * unat n \<and> unat inc \<le> unat b div 8 + 1"
proof -
  let ?r = "8 * unat (n_size a) - (unat po + unat pb)"
  have count: "unat (po + pb) = unat po + unat pb" using fits small by (simp add: unat_word_ariths)
  have sz8: "unat (n_size a * 8) = 8 * unat (n_size a)" using small by (simp add: unat_word_ariths)
  have "po + pb \<le> n_size a * 8" using fits by (simp add: word_le_nat_alt count sz8)
  then have rem: "unat (n_size a * 8 - (po + pb)) = ?r" by (simp add: unat_sub count sz8)
  then have rem0: "n_size a * 8 - (po + pb) \<noteq> 0" using unit by auto
  show ?thesis
  proof (cases "?r < unat b")
    case True
    let ?inc = "(b - (n_size a * 8 - (po + pb))) div 8 + 1"
    have lt: "n_size a * 8 - (po + pb) < b" using True by (simp add: word_less_nat_alt rem)
    then have "unat (b - (n_size a * 8 - (po + pb))) = unat b - ?r" by (simp add: unat_sub rem order.strict_implies_order)
    then have inc: "unat ?inc = (unat b - ?r) div 8 + 1"
      using small by (simp add: unat_word_ariths unat_div)
    have "unat (n_size a + ?inc) = unat (n_size a) + unat ?inc" using small inc by (simp add: unat_word_ariths)
    with True lt rem0 inc show ?thesis
      using fits by (auto simp: bit_placement_def bits count Let_def)
  next
    case False
    then have "\<not> n_size a * 8 - (po + pb) < b" by (simp add: word_less_nat_alt rem)
    with False rem0 show ?thesis using fits by (auto simp: bit_placement_def bits count Let_def)
  qed
qed

lemma layout_share:
  assumes ok: "layout_ok (nodes @ [l]) sz" and l: "n_type (n_attr l) = BITMAP" and n: "bit_field n"
    and start: "node_start n = node_start l" and bits: "bits_start n = bits_end l" and ext: "node_extent n = node_extent l + inc"
  shows "layout_ok ((nodes @ [l]) @ [n]) (sz + inc)"
proof -
  have bl: "bit_field l" and endl: "node_end l = sz" using ok l by (auto simp: layout_ok_def)
  have l_bits: "bits_start l \<le> bits_end l" by (simp add: bits_start_def bits_end_def split: option.splits)
  have "apart l n" using bl n start bits by (simp add: apart_def)
  moreover have "apart m n" if "m \<in> set nodes" for m
  proof -
    have "apart m l" using ok that by (auto simp: layout_ok_def sorted_wrt_append)
    with n start bits l_bits show ?thesis by (auto simp: apart_def)
  qed
  moreover have "node_end n = sz + inc" using endl start ext by (simp add: node_end_def)
  ultimately show ?thesis
    using ok n by (fastforce simp: layout_ok_def sorted_wrt_append bit_field_def)
qed

lemma put_bits_wf:
  assumes wf: "wf_metadata md" and put: "put_bits name bits n md = Inr (r, md')" and unit: "unat bits \<le> 8 * unat n"
    and small: "unat (md_size md) + unat bits + 8 < 2 ^ 60"
  shows "wf_metadata md'"
proof (cases "name = None \<or> bits = 0 \<or> n > 8")
  case True
  with put wf show ?thesis by (auto simp: put_bits_def split: option.splits if_splits)
next
  case False
  then obtain nm where nm: "name = Some nm" and n: "unat n \<le> 8" by (auto simp: word_le_nat_alt not_less)
  let ?attr = "\<lambda>off k boff. (node_attr_create (field_name md nm) off k BITMAP (md_big_endian md))\<lparr>n_bits := Some (bits, boff)\<rparr>"
  from put False nm obtain k inc boff off where place: "bit_placement bits n (prev_bit_node md) (md_size md) = Inr (k, inc, boff, off)"
    and md': "md' = append_node (Node (?attr off k boff) None) inc md"
    by (auto simp: put_bits_def add_bit_node_def res_simps split: if_splits)
  have layout: "layout_ok (md_nodes md) (unat (md_size md))" and nodes: "wf_nodes (md_nodes md)"
    using wf by (simp_all add: wf_metadata_iff)
  have fresh: ?thesis if "k = n" "inc = n" "boff = 0" "off = md_size md"
  proof -
    have "unat (md_size md + n) = unat (md_size md) + unat n" using small n by (simp add: unat_word_ariths)
    moreover have "layout_ok (md_nodes md @ [Node (?attr off k boff) None]) (unat (md_size md) + unat n)"
      using that unit by (intro layout_append[OF layout]) (auto simp: node_start_def node_extent_def bit_field_def bits_end_def)
    ultimately show ?thesis using nodes that by (simp add: md' wf_metadata_iff wf_nodes_append)
  qed
  show ?thesis
  proof (cases "prev_bit_node md")
    case None
    with place have "k = n" "inc = n" "boff = 0" "off = md_size md" by (auto simp: bit_placement_def)
    then show ?thesis by (rule fresh)
  next
    case (Some a)
    then obtain ns l where split: "md_nodes md = ns @ [l]" and a: "a = n_attr l" and lb: "n_type (n_attr l) = BITMAP"
      by (auto simp: prev_bit_node_def Let_def split: if_splits) (metis append_butlast_last_id)
    from layout split lb have bl: "bit_field l" and endl: "node_end l = unat (md_size md)" by (auto simp: layout_ok_def)
    then obtain pb po where pb: "n_bits a = Some (pb, po)" by (auto simp: bit_field_def a)
    have fits: "unat po + unat pb \<le> 8 * unat (n_size a)" using bl pb by (simp add: bit_field_def bits_end_def a)
    have sz_l: "unat (n_size a) \<le> unat (md_size md)" using endl lb by (simp add: node_end_def node_extent_def a)
    show ?thesis
    proof (cases "8 * unat (n_size a) - (unat po + unat pb) = 0")
      case True
      have "unat (n_size a * 8) = 8 * unat (n_size a)" "unat (po + pb) = unat po + unat pb"
        using small sz_l fits by (simp_all add: unat_word_ariths)
      with True fits have "n_size a * 8 = po + pb" by (simp add: word_unat_eq_iff)
      then have "n_size a * 8 - (po + pb) = 0" by simp
      with place Some pb have "k = n" "inc = n" "boff = 0" "off = md_size md" by (auto simp: bit_placement_def)
      then show ?thesis by (rule fresh)
    next
      case False
      with bit_placement_next[OF pb fits, of bits n "md_size md"] small sz_l place Some
      have off: "off = n_offset a" and k: "unat k = unat (n_size a) + unat inc" and boff: "unat boff = unat po + unat pb"
        and in_unit: "unat boff + unat bits \<le> 8 * unat k" and inc: "unat inc \<le> unat bits div 8 + 1" by auto
      have "unat (md_size md + inc) = unat (md_size md) + unat inc" using small inc by (simp add: unat_word_ariths)
      moreover have "layout_ok ((ns @ [l]) @ [Node (?attr off k boff) None]) (unat (md_size md) + unat inc)"
        using layout split lb off k boff in_unit pb
        by (intro layout_share) (auto simp: bit_field_def bits_end_def bits_start_def node_start_def node_extent_def a)
      moreover have "wf_nodes ((ns @ [l]) @ [Node (?attr off k boff) None])"
        using nodes unfolding split wf_nodes_append[of "ns @ [l]"] by simp
      ultimately show ?thesis by (simp add: md' wf_metadata_iff split)
    qed
  qed
qed

lemma put_wf:
  assumes "wf_metadata md" and "put name n type options md = (r, md')" and "plain_field type" and "md_size md \<le> md_size md'"
  shows "wf_metadata md'"
  using assms by (auto simp: put_def split: option.splits intro!: wf_append_field)

lemma put_enum_wf:
  assumes "wf_metadata md" and "put_enum name n e options md = (r, md')" and "md_size md \<le> md_size md'"
  shows "wf_metadata md'"
  using assms by (auto simp: put_enum_def plain_field_def split: option.splits intro!: wf_append_field)

lemma put_string_wf:
  assumes "wf_metadata md" and "put_string name n d md = (r, md')" and "md_size md \<le> md_size md'"
  shows "wf_metadata md'"
  using assms by (auto simp: put_string_def plain_field_def split: option.splits intro!: wf_append_field)

lemma nest_metadata_wf:
  assumes "wf_metadata md" and "wf_metadata m" and "nest_metadata name (Some m) md = Inr (r, md')" and "md_size md \<le> md_size md'"
  shows "wf_metadata md'"
  using assms by (auto simp: nest_metadata_def split: option.splits intro!: wf_append_nested)

lemma put_array_wf:
  assumes wf: "wf_metadata md" and put: "put_array name n type k options nested md = Inr (r, md')"
    and room: "unat (md_size md) + unat n * unat k < 2 ^ 64" "k \<noteq> 0"
    and type: "plain_field type \<or> type = COMPLEX \<and> (\<exists>m. nested = Some m \<and> wf_metadata m \<and> n = md_size m)"
  shows "wf_metadata md'"
proof (cases name)
  case None
  with put wf show ?thesis by (simp add: put_array_def)
next
  case (Some nm)
  let ?en = "Some (array_element_name nm k)" and ?el0 = "metadata_create (md_big_endian md)"
  let ?a = "(new_attr md nm n ARRAY)\<lparr>n_options := options\<rparr>"
  have "\<exists>el c. md' = array_of ?a el n k md \<and> wf_metadata el \<and> md_nodes el = [c] \<and> n_offset (n_attr c) = 0 \<and>
      n_size (n_attr c) = n \<and> md_size el = n"
  proof (cases "type = COMPLEX")
    case True
    with type obtain m where m: "nested = Some m" "wf_metadata m" "n = md_size m" by (auto simp: plain_field_def)
    obtain el where el: "nest_metadata ?en (Some m) ?el0 = Inr (True, el)" by (simp add: nest_metadata_def)
    then have "md_nodes el = [Node (node_attr_create (field_name ?el0 (array_element_name nm k)) 0 n COMPLEX (md_big_endian m)) (Some m)]"
      "md_size el = n" using m(3) by (auto simp: nest_metadata_def)
    moreover have "wf_metadata el" using nest_metadata_wf[OF wf_create m(2) el] by simp
    moreover have "md' = array_of ?a el n k md" using put Some True m el by (auto simp: put_array_def Let_def res_simps)
    ultimately show ?thesis by auto
  next
    case False
    obtain el where el: "put ?en n type options ?el0 = (True, el)" by (simp add: put_def)
    then have "md_nodes el = [Node ((new_attr ?el0 (array_element_name nm k) n type)\<lparr>n_options := options\<rparr>) None]"
      "md_size el = n" by (auto simp: put_def)
    moreover have "wf_metadata el" using put_wf[OF wf_create el] type False by simp
    moreover have "md' = array_of ?a el n k md" using put Some False el by (auto simp: put_array_def Let_def res_simps)
    ultimately show ?thesis by auto
  qed
  then show ?thesis using wf_array_of[OF wf, of _ ?a n _ k] room by auto
qed

lemma put_string_array_wf:
  assumes wf: "wf_metadata md" and put: "put_string_array name n k d md = (r, md')"
    and room: "unat (md_size md) + unat n * unat k < 2 ^ 64" "k \<noteq> 0"
  shows "wf_metadata md'"
proof (cases name)
  case None
  with put wf show ?thesis by (simp add: put_string_array_def)
next
  case (Some nm)
  obtain el where el: "put_string (Some (array_element_name nm k)) n d (metadata_create (md_big_endian md)) = (True, el)"
    by (simp add: put_string_def)
  then have "md' = array_of ((new_attr md nm n ARRAY)\<lparr>n_def_string := d\<rparr>) el n k md"
    using put Some by (simp add: put_string_array_def)
  moreover have "wf_metadata el" using put_string_wf[OF wf_create el] by simp
  moreover have "\<exists>c. md_nodes el = [c] \<and> n_offset (n_attr c) = 0 \<and> n_size (n_attr c) = n" "md_size el = n"
    using el by (auto simp: put_string_def)
  ultimately show ?thesis using wf_array_of[OF wf, of el] room by auto
qed

lemma put_enum_array_wf:
  assumes wf: "wf_metadata md" and put: "put_enum_array name k n options e md = (r, md')"
    and room: "unat (md_size md) + unat n * unat k < 2 ^ 64" "k \<noteq> 0"
  shows "wf_metadata md'"
proof (cases "name = None \<or> e = None")
  case True
  with put wf show ?thesis by (auto simp: put_enum_array_def split: option.splits)
next
  case False
  then obtain nm ed where nm: "name = Some nm" "e = Some ed" by auto
  obtain el where el: "put_enum (Some (array_element_name nm k)) n (Some ed) options (metadata_create (md_big_endian md)) = (True, el)"
    by (simp add: put_enum_def)
  then have "md' = array_of ((node_attr_create nm (md_size md) n ARRAY (md_big_endian md))\<lparr>n_options := options, n_enum := Some ed\<rparr>) el n k md"
    using put nm by (simp add: put_enum_array_def)
  moreover have "wf_metadata el" using put_enum_wf[OF wf_create el] by simp
  moreover have "\<exists>c. md_nodes el = [c] \<and> n_offset (n_attr c) = 0 \<and> n_size (n_attr c) = n" "md_size el = n"
    using el by (auto simp: put_enum_def)
  ultimately show ?thesis using wf_array_of[OF wf, of el] room by auto
qed

lemma built_wf: "built md \<Longrightarrow> wf_metadata md"
proof (induction rule: built.induct)
  case (built_endian md be)
  then show ?case by (simp add: set_big_endian_def wf_metadata_iff)
next
  case (built_named md name store r md' store')
  then have "md_nodes md' = md_nodes md" "md_size md' = md_size md"
    by (auto simp: namely_def Let_def split: option.splits if_splits)
  with built_named.IH show ?case by (simp add: wf_metadata_iff)
next
  case (built_array md name n type k options r md')
  then show ?case using put_array_wf by blast
next
  case (built_nested_array md m name k options r md')
  then show ?case using put_array_wf by blast
qed (simp, (blast intro: put_wf put_enum_wf put_string_wf put_bits_wf nest_metadata_wf put_string_array_wf put_enum_array_wf)+)

section \<open>Lemmas on bytes and bits\<close>

lemma little_endian [simp]: "is_big_endian \<longleftrightarrow> False"
  by (simp add: is_big_endian_def le_bytes_def)

lemma convert_endian_native [simp]: "\<not> be \<Longrightarrow> convert_endian be n data = data"
  by (simp add: convert_endian_def)

lemma bit_le_nat: "bit (le_nat bs) i \<longleftrightarrow> i div 8 < length bs \<and> bit (bs ! (i div 8)) (i mod 8)"
proof (induction bs arbitrary: i)
  case (Cons b bs)
  have b: "unat b < 256" using unsigned_less[of b] by simp
  have low: "take_bit 8 (le_nat (b # bs)) = unat b" using b by (simp add: take_bit_eq_mod)
  have high: "drop_bit 8 (le_nat (b # bs)) = le_nat bs" using b by (simp add: drop_bit_eq_div)
  show ?case
  proof (cases "i < 8")
    case True
    then have "bit (le_nat (b # bs)) i \<longleftrightarrow> bit (take_bit 8 (le_nat (b # bs))) i" by (simp add: bit_take_bit_iff)
    with True show ?thesis by (simp only: low) (simp add: bit_unsigned_iff)
  next
    case False
    then have "bit (le_nat (b # bs)) i \<longleftrightarrow> bit (drop_bit 8 (le_nat (b # bs))) (i - 8)" by (simp add: bit_drop_bit_eq)
    moreover have "i div 8 = Suc ((i - 8) div 8)" "(i - 8) mod 8 = i mod 8" using False by (simp_all add: le_div_geq le_mod_geq)
    ultimately show ?thesis using Cons.IH[of "i - 8"] by (simp only: high) simp
  qed
qed simp

lemma bit_word_of_bytes:
  "bit (word_of_bytes bs) i \<longleftrightarrow> i < 64 \<and> i div 8 < length bs \<and> bit (bs ! (i div 8)) (i mod 8)"
  by (simp add: word_of_bytes_def bit_of_nat_iff bit_le_nat)

lemma length_le_bytes [simp]: "length (le_bytes k x) = k"
  by (simp add: le_bytes_def)

lemma bit_le_bytes: "i < k \<Longrightarrow> j < 8 \<Longrightarrow> bit (le_bytes k x ! i) j \<longleftrightarrow> bit x (8 * i + j)"
  by (auto simp: le_bytes_def bit_simps dest: bit_imp_le_length)

lemma bit_word_of_le_bytes:
  assumes "k \<le> 8"
  shows "bit (word_of_bytes (take k (le_bytes 8 x))) i \<longleftrightarrow> i < 8 * k \<and> bit (x :: uint64) i"
proof -
  have "bit (take k (le_bytes 8 x) ! (i div 8)) (i mod 8) \<longleftrightarrow> bit x i" if "i div 8 < k"
    using that assms bit_le_bytes[of "i div 8" 8 "i mod 8" x] by simp
  then show ?thesis
    using assms by (auto simp: bit_word_of_bytes)
qed

lemma bytes_eqI: "length bs = length cs \<Longrightarrow> (\<And>i. bit (le_nat bs) i = bit (le_nat cs) i) \<Longrightarrow> bs = cs"
proof (rule nth_equalityI)
  fix i
  assume len: "length bs = length cs" and bits: "\<And>i. bit (le_nat bs) i = bit (le_nat cs) i" and i: "i < length bs"
  show "bs ! i = cs ! i"
  proof (rule bit_word_eqI)
    fix j
    assume "j < LENGTH(8)"
    then have "(8 * i + j) div 8 = i" "(8 * i + j) mod 8 = j" by auto
    with bits[of "8 * i + j"] i len show "bit (bs ! i) j = bit (cs ! i) j" by (simp add: bit_le_nat)
  qed
qed

lemma bytes_of_value:
  assumes "length data = k" and "k \<le> 8"
  shows "take k (le_bytes 8 (word_of_bytes data)) = data"
proof (rule bytes_eqI)
  fix i
  show "bit (le_nat (take k (le_bytes 8 (word_of_bytes data)))) i = bit (le_nat data) i"
  proof (cases "i div 8 < k")
    case True
    with assms show ?thesis
      using bit_le_bytes[of "i div 8" 8 "i mod 8" "word_of_bytes data"] by (auto simp: bit_le_nat bit_word_of_bytes)
  qed (use assms in \<open>simp add: bit_le_nat\<close>)
qed (use assms in simp)

lemma bit_mask_ok:
  assumes "bits < 64" and "boff < 64"
  shows "\<exists>m. bit_mask bits boff = Inr m \<and> (\<forall>i. bit m i \<longleftrightarrow> i < 64 \<and> boff \<le> i \<and> i < boff + bits)"
proof -
  have "bit (push_bit boff (2 ^ bits - 1 :: uint64)) i \<longleftrightarrow> i < 64 \<and> boff \<le> i \<and> i < boff + bits" for i
    using assms by (auto simp: bit_push_bit_iff bit_mask_iff simp flip: mask_eq_exp_minus_1)
  with assms show ?thesis by (simp add: bit_mask_def)
qed

text \<open>Reading a bit field looks only at its own bits.\<close>

lemma bit_node_read_cong:
  assumes "unat (n_size a) \<le> 8" and "unat (n_size a) \<le> length buf" and "length buf' = length buf"
    and "bits < 64" and "boff + bits \<le> 64" and "0 < bits"
    and same: "\<And>i. boff \<le> i \<Longrightarrow> i < boff + bits \<Longrightarrow> i < 8 * unat (n_size a) \<Longrightarrow>
           bit (le_nat buf') i = bit (le_nat buf) i"
  shows "bit_node_read a bits boff data n buf' (n_size a) = bit_node_read a bits boff data n buf (n_size a)"
proof -
  obtain m where m: "bit_mask bits boff = Inr m" and mb: "\<And>i. bit m i \<longleftrightarrow> i < 64 \<and> boff \<le> i \<and> i < boff + bits"
    using bit_mask_ok[of bits boff] assms(4,5,6) by auto
  have "word_of_bytes (take (unat (n_size a)) buf') AND m = word_of_bytes (take (unat (n_size a)) buf) AND m"
  proof (rule bit_word_eqI)
    fix i
    assume i: "i < LENGTH(64)"
    have "bit (word_of_bytes (take (unat (n_size a)) b)) i \<longleftrightarrow> i < 8 * unat (n_size a) \<and> bit (le_nat b) i"
      if "unat (n_size a) \<le> length b" for b
      using i that by (auto simp: bit_word_of_bytes bit_le_nat)
    with same[of i] mb[of i] assms(2,3) show "bit (word_of_bytes (take (unat (n_size a)) buf') AND m) i =
        bit (word_of_bytes (take (unat (n_size a)) buf) AND m) i" by (auto simp: bit_and_iff)
  qed
  with assms(2,3) m show ?thesis by (simp add: bit_node_read_def mem_read_def del: drop_bit_and)
qed

lemma bit_node_write_ok:
  assumes k: "unat (n_size a) \<in> {1, 2, 4, 8}" and le: "\<not> n_big_endian a" and bits: "0 < bits" "bits < 64"
    and unit: "boff + bits \<le> 8 * unat (n_size a)" and data: "length data = unat (n_size a)" "le_nat data < 2 ^ bits"
    and buf: "unat (n_size a) \<le> length buf"
  shows "\<exists>buf'. bit_node_write a bits boff data (n_size a) buf (n_size a) = Inr (True, data, buf') \<and>
           length buf' = length buf \<and>
           (\<forall>i. bit (le_nat buf') i \<longleftrightarrow>
              (if boff \<le> i \<and> i < boff + bits then bit (le_nat data) (i - boff) else bit (le_nat buf) i))"
proof -
  let ?k = "unat (n_size a)" and ?v = "le_nat data"
  have k8: "?k \<le> 8" using k by auto
  have boff: "boff < 64" using unit bits k8 by linarith
  obtain m where m: "bit_mask bits boff = Inr m" and mb: "\<And>i. bit m i \<longleftrightarrow> i < 64 \<and> boff \<le> i \<and> i < boff + bits"
    using bit_mask_ok[OF bits(2) boff] by auto
  have v: "?v * 2 ^ boff < 2 ^ (8 * ?k)"
  proof -
    have "?v * 2 ^ boff < 2 ^ bits * 2 ^ boff" using data(2) by simp
    also have "\<dots> \<le> 2 ^ (8 * ?k)" using unit by (simp add: add.commute flip: power_add)
    finally show ?thesis .
  qed
  have check: "check_data ?k bits ?v = Inr True"
  proof -
    have "(2::nat) ^ bits - 1 < 2 ^ (8 * ?k)" using unit power_increasing[of bits "8 * ?k" "2::nat"]
      by (auto intro: less_le_trans[of _ "2 ^ bits"])
    moreover have "(2::nat) ^ bits < 2 ^ (8 * ?k)" if "\<not> bits \<le> 53"
      using that unit k bits(2) by (intro power_strict_increasing) auto
    ultimately show ?thesis using data(2) by (auto simp: check_data_def pow2_minus_1_def)
  qed
  have shift: "shift_data ?k boff ?v = Inr (of_nat (?v * 2 ^ boff))"
    using k v unit bits(1) by (auto simp: shift_data_def)
  let ?new = "of_nat (?v * 2 ^ boff) OR (word_of_bytes (take ?k buf) AND NOT m) :: uint64"
  let ?buf' = "take ?k (le_bytes 8 ?new) @ drop ?k buf"
  have written: "bit_node_write a bits boff data (n_size a) buf (n_size a) = Inr (True, data, ?buf')"
    using k8 k le data buf check shift m
    by (auto simp: bit_node_write_def mask_bit_data_def mem_read_def mem_write_def word_less_nat_alt)
  have vbit: "bit (of_nat (?v * 2 ^ boff) :: uint64) i \<longleftrightarrow> i < 64 \<and> boff \<le> i \<and> bit ?v (i - boff)" for i
    by (auto simp: bit_of_nat_iff bit_push_bit_iff simp flip: push_bit_eq_mult)
  have vlow: "\<not> bit ?v j" if "bits \<le> j" for j
    using data(2) that by (metis bit_take_bit_iff linorder_not_less take_bit_nat_eq_self)
  have "bit (le_nat ?buf') i \<longleftrightarrow>
      (if boff \<le> i \<and> i < boff + bits then bit ?v (i - boff) else bit (le_nat buf) i)" for i
  proof (cases "i < 8 * ?k")
    case True
    then have "bit (le_nat ?buf') i \<longleftrightarrow> bit (word_of_bytes (take ?k (le_bytes 8 ?new))) i"
      using k8 by (auto simp: bit_le_nat bit_word_of_bytes nth_append)
    also have "\<dots> \<longleftrightarrow> bit ?new i" using True by (simp add: bit_word_of_le_bytes[OF k8])
    also have "\<dots> \<longleftrightarrow> (if boff \<le> i \<and> i < boff + bits then bit ?v (i - boff) else bit (le_nat buf) i)"
    proof -
      have "i < 64" using True k8 by simp
      moreover have "bit (word_of_bytes (take ?k buf)) i \<longleftrightarrow> bit (le_nat buf) i"
        using True buf k8 by (auto simp: bit_word_of_bytes bit_le_nat)
      moreover have "\<not> bit ?v (i - boff)" if "\<not> i < boff + bits" using vlow[of "i - boff"] that by simp
      ultimately show ?thesis
        unfolding bit_or_iff bit_and_iff bit_not_iff vbit mb by auto
    qed
    finally show ?thesis .
  next
    case False
    then have "\<not> i div 8 < ?k" by linarith
    with False unit buf k8 show ?thesis by (auto simp: bit_le_nat nth_append)
  qed
  with written show ?thesis using buf k8 by auto
qed

lemma bit_node_read_value:
  assumes k: "unat (n_size a) \<le> 8" and le: "\<not> n_big_endian a" and bits: "0 < bits" "bits < 64"
    and unit: "boff + bits \<le> 8 * unat (n_size a)" and buf: "unat (n_size a) \<le> length buf"
    and d: "unat (n_size a) \<le> length d" and val: "length val = unat (n_size a)" "le_nat val < 2 ^ bits"
    and field: "\<And>i. i < bits \<Longrightarrow> bit (le_nat buf) (boff + i) \<longleftrightarrow> bit (le_nat val) i"
  shows "bit_node_read a bits boff d (n_size a) buf (n_size a) = Inr (True, val @ drop (unat (n_size a)) d)"
proof -
  let ?k = "unat (n_size a)"
  have "boff < 64" using unit bits k by linarith
  then obtain m where m: "bit_mask bits boff = Inr m" and mb: "\<And>i. bit m i \<longleftrightarrow> i < 64 \<and> boff \<le> i \<and> i < boff + bits"
    using bit_mask_ok[OF bits(2)] by auto
  have vlow: "\<not> bit (le_nat val) j" if "bits \<le> j" for j
    using val(2) that by (metis bit_take_bit_iff linorder_not_less take_bit_nat_eq_self)
  have "drop_bit boff (word_of_bytes (take ?k buf) AND m) = word_of_bytes val"
  proof (rule bit_word_eqI)
    fix i
    assume "i < LENGTH(64)"
    have "bit (word_of_bytes (take ?k buf)) (boff + i) \<longleftrightarrow> bit (le_nat val) i" if "i < bits"
      using that field[OF that] unit k buf by (auto simp: bit_word_of_bytes bit_le_nat)
    moreover have "bit (word_of_bytes val) i \<longleftrightarrow> bit (le_nat val) i"
      using \<open>i < LENGTH(64)\<close> by (auto simp: bit_word_of_bytes bit_le_nat)
    ultimately show "bit (drop_bit boff (word_of_bytes (take ?k buf) AND m)) i = bit (word_of_bytes val) i"
      using unit k mb[of "boff + i"] vlow[of i]
      by (auto simp: bit_drop_bit_eq bit_and_iff simp del: drop_bit_and)
  qed
  with bytes_of_value[OF val(1) k] m buf d le k show ?thesis
    by (simp add: bit_node_read_def mem_read_def mem_write_def word_less_nat_alt val(1) del: drop_bit_and)
qed

section \<open>Properties\<close>


text \<open>A description with two bit fields of one unit, a number and an array of two nested descriptions.\<close>

definition built_or :: "binary_metadata \<Rightarrow> (bool \<times> binary_metadata) result \<Rightarrow> binary_metadata" where
  "built_or md r = (case r of Inl _ \<Rightarrow> md | Inr (_, md') \<Rightarrow> md')"

definition example_bits :: binary_metadata where
  "example_bits =
     (let md1 = built_or (metadata_create False) (put_bits (Some ''a'') 3 1 (metadata_create False))
      in built_or md1 (put_bits (Some ''b'') 4 1 md1))"

definition example_metadata :: binary_metadata where
  "example_metadata =
     (let md3 = snd (put (Some ''c'') 4 UINT32 options_reset example_bits)
      in built_or md3 (put_array (Some ''d'') 1 COMPLEX 2 options_reset (Some example_bits) md3))"

lemma example_bits_eq:
  "example_bits =
     Metadata [] False
       [Node ((node_attr_create ''a'' 0 1 BITMAP False)\<lparr>n_bits := Some (3, 0)\<rparr>) None,
        Node ((node_attr_create ''b'' 0 1 BITMAP False)\<lparr>n_bits := Some (4, 3)\<rparr>) None] 1"
  by (simp add: example_bits_def built_or_def put_bits_def add_bit_node_def bit_placement_def prev_bit_node_def
      append_node_def metadata_create_def field_name_def)

lemma built_example_bits: "built example_bits"
proof -
  let ?md1 = "Metadata [] False [Node ((node_attr_create ''a'' 0 1 BITMAP False)\<lparr>n_bits := Some (3, 0)\<rparr>) None] 1"
  have 1: "put_bits (Some ''a'') 3 1 (metadata_create False) = Inr (True, ?md1)"
    and 2: "put_bits (Some ''b'') 4 1 ?md1 = Inr (True, example_bits)"
    by (simp_all add: example_bits_eq put_bits_def add_bit_node_def bit_placement_def prev_bit_node_def
        append_node_def metadata_create_def field_name_def)
  have "built ?md1" by (rule built_bits[OF built_create 1]) simp_all
  then show ?thesis by (rule built_bits[OF _ 2]) simp_all
qed

lemma built_example: "built example_metadata"
proof -
  obtain md3 where 3: "put (Some ''c'') 4 UINT32 options_reset example_bits = (True, md3)" and sz: "md_size md3 = 5"
    by (simp add: put_def example_bits_eq)
  have "built md3" using built_put[OF built_example_bits 3] sz by (simp add: plain_field_def example_bits_eq)
  moreover obtain md4 where 4: "put_array (Some ''d'') 1 COMPLEX 2 options_reset (Some example_bits) md3 = Inr (True, md4)"
    by (simp add: put_array_def nest_metadata_def Let_def)
  moreover have "md_size example_bits = 1" by (simp add: example_bits_eq)
  ultimately have "built md4" using built_nested_array[OF _ built_example_bits, of md3 "Some ''d''" 2 options_reset True md4] sz by simp
  with 3 4 show ?thesis by (simp add: example_metadata_def built_or_def)
qed


text \<open>Bit fields are independent. In a native storage unit of one, two, four or eight bytes a value that fits
  into the bits of its field is written and read back unchanged, and every other field with disjoint bits reads the same
  before and after, in whatever unit it was described.\<close>

theorem bit_fields_independent:
  assumes "unat (n_size a) \<in> {1, 2, 4, 8}" and "\<not> n_big_endian a" and "0 < bits" and "bits < 64"
    and "boff + bits \<le> 8 * unat (n_size a)" and "length data = unat (n_size a)" and "le_nat data < 2 ^ bits"
    and "unat (n_size a) \<le> length buf"
  shows "\<exists>buf'. bit_node_write a bits boff data (n_size a) buf (n_size a) = Inr (True, data, buf') \<and>
           (\<forall>d. length d = unat (n_size a) \<longrightarrow> bit_node_read a bits boff d (n_size a) buf' (n_size a) = Inr (True, data)) \<and>
           (\<forall>a2 bits2 boff2 d n. unat (n_size a2) \<le> 8 \<and> unat (n_size a2) \<le> length buf \<and> 0 < bits2 \<and> bits2 < 64 \<and>
              boff2 + bits2 \<le> 64 \<and> (boff2 + bits2 \<le> boff \<or> boff + bits \<le> boff2) \<longrightarrow>
              bit_node_read a2 bits2 boff2 d n buf' (n_size a2) = bit_node_read a2 bits2 boff2 d n buf (n_size a2))"
proof -
  from bit_node_write_ok[OF assms] obtain buf' where w: "bit_node_write a bits boff data (n_size a) buf (n_size a) = Inr (True, data, buf')"
    and len: "length buf' = length buf"
    and bits: "\<And>i. bit (le_nat buf') i \<longleftrightarrow>
         (if boff \<le> i \<and> i < boff + bits then bit (le_nat data) (i - boff) else bit (le_nat buf) i)" by auto
  have "bit_node_read a bits boff d (n_size a) buf' (n_size a) = Inr (True, data)" if "length d = unat (n_size a)" for d
    using assms that len bits by (subst bit_node_read_value[where val = data]) auto
  moreover have "bit_node_read a2 bits2 boff2 d n buf' (n_size a2) = bit_node_read a2 bits2 boff2 d n buf (n_size a2)"
    if "unat (n_size a2) \<le> 8" "unat (n_size a2) \<le> length buf" "0 < bits2" "bits2 < 64" "boff2 + bits2 \<le> 64"
      "boff2 + bits2 \<le> boff \<or> boff + bits \<le> boff2" for a2 bits2 boff2 d n
    using that len bits by (intro bit_node_read_cong) auto
  ultimately show ?thesis using w by blast
qed

theorem bit_fields_independent_witness:
  "\<exists>buf'. bit_node_write (node_attr_create ''b'' 0 1 BITMAP False) 4 3 [5] 1 [255] 1 = Inr (True, [5], buf') \<and>
     bit_node_read (node_attr_create ''b'' 0 1 BITMAP False) 4 3 [0] 1 buf' 1 = Inr (True, [5])"
proof -
  let ?a = "node_attr_create ''b'' 0 1 BITMAP False"
  have "\<not> n_big_endian ?a" "unat (n_size ?a) = 1" by (simp_all add: node_attr_create_def)
  with bit_fields_independent[of ?a 4 3 "[5]" "[255]"] show ?thesis by fastforce
qed

text \<open>The largest value of a field is computed in floating point. For fields of 54 to 63 bits it comes out one too large:
  the value \<open>2 ^ bits\<close> is accepted, the field reads as zero afterwards and the bit behind the field is set.\<close>

theorem wide_bit_field_overflows:
  assumes "54 \<le> bits" and "bits < 64"
  shows "check_data 8 bits (2 ^ bits) = Inr True \<and>
         (\<exists>w. mask_bit_data 8 bits 0 (2 ^ bits) 0 = Inr w \<and> take_bit bits w = 0 \<and> bit w bits)"
proof -
  have less: "(2::nat) ^ bits < 2 ^ 64" using assms(2) by (intro power_strict_increasing) auto
  have w: "mask_bit_data 8 bits 0 (2 ^ bits) 0 = Inr (2 ^ bits)"
    using assms less by (simp add: mask_bit_data_def bit_mask_def shift_data_def)
  have "take_bit bits (2 ^ bits :: uint64) = 0" by (simp add: take_bit_eq_mod)
  moreover have "bit (2 ^ bits :: uint64) bits" using assms by (simp add: bit_exp_iff)
  ultimately show ?thesis using w assms less by (simp add: check_data_def pow2_minus_1_def)
qed

theorem wide_bit_field_overflows_witness:
  "check_data 8 60 (2 ^ 60) = Inr True \<and> (\<exists>w. mask_bit_data 8 60 0 (2 ^ 60) 0 = Inr w \<and> take_bit 60 w = 0 \<and> bit w 60)"
  using wide_bit_field_overflows[of 60] by simp

end
