(* ===== verification/Object_Pool.thy ===== *)
theory Object_Pool
  imports Cpp_Prelude
begin

text \<open>
  Reference counted objects and the pool that hands them out (\<^verbatim>\<open>Include/utils/ref_count_base.hpp\<close>,
  \<^verbatim>\<open>ref_count_object_pool.hpp\<close>).

  The heap is the list of all objects ever created, each with its reference count and its contents; an object
  whose count is zero is deleted and any use of it is undefined. A pool owns one reference to each of its
  objects and recognises by a count of one that nobody else does. The function that creates objects is
  supplied by the user of the pool; the locale \<open>object_factory\<close> is what the pool relies on, and
  \<open>make_object\<close>, the function that the pool makes of constructor arguments, is its interpretation.

  Counts are integers without bound: a program with \<open>2 ^ 31\<close> references to one object is outside of the model.
\<close>

section \<open>Reference counts\<close>

type_synonym 'a rc_heap = "(int \<times> 'a) list"

definition rc_alive :: "'a rc_heap \<Rightarrow> nat \<Rightarrow> bool" where
  "rc_alive h i \<longleftrightarrow> i < length h \<and> 0 < fst (h ! i)"

definition rc_new :: "'a \<Rightarrow> 'a rc_heap \<Rightarrow> nat \<times> 'a rc_heap" where
  "rc_new x h = (length h, h @ [(1, x)])"

definition add_ref :: "nat \<Rightarrow> 'a rc_heap \<Rightarrow> (int \<times> 'a rc_heap) result" where
  "add_ref i h =
     (if rc_alive h i then Inr (fst (h ! i) + 1, h[i := (fst (h ! i) + 1, snd (h ! i))]) else Inl Undefined)"

definition release :: "nat \<Rightarrow> 'a rc_heap \<Rightarrow> (int \<times> 'a rc_heap) result" where
  "release i h =
     (if rc_alive h i then Inr (fst (h ! i) - 1, h[i := (fst (h ! i) - 1, snd (h ! i))]) else Inl Undefined)"

definition ref_count :: "nat \<Rightarrow> 'a rc_heap \<Rightarrow> int result" where
  "ref_count i h = (if rc_alive h i then Inr (fst (h ! i)) else Inl Undefined)"

section \<open>The pool\<close>

datatype growing_mode = growing_none | growing_doubling

record object_pool =
  p_items :: "nat option list"
  p_mode :: growing_mode
  p_lazy :: bool
  p_next_search_index :: nat

type_synonym 'a factory = "'a rc_heap \<Rightarrow> nat option \<times> 'a rc_heap"

text \<open>
  The creation function that the constructor with arguments builds. \<open>fails\<close> says that the constructor of
  the object throws. The new object has one reference, the pointer is copied and the temporary owner released.
\<close>

definition make_object :: "bool \<Rightarrow> 'a \<Rightarrow> 'a factory" where
  "make_object fails x h =
     (if fails then (None, h)
      else (case rc_new x h of (i, h1) \<Rightarrow>
              case add_ref i h1 of
                Inl e \<Rightarrow> (None, h)
              | Inr (_, h2) \<Rightarrow> (case release i h2 of Inl e \<Rightarrow> (None, h) | Inr (_, h3) \<Rightarrow> (Some i, h3))))"

text \<open>The order of the search: from the first slot, or from behind the slot that was found last.\<close>

definition search_index :: "object_pool \<Rightarrow> nat \<Rightarrow> nat" where
  "search_index p i = (if p_lazy p then i else (p_next_search_index p + i) mod length (p_items p))"

text \<open>One iteration: fill an empty slot, then take the object if the pool holds its only reference.\<close>

fun query_loop ::
  "'a factory \<Rightarrow> object_pool \<Rightarrow> nat list \<Rightarrow> 'a rc_heap \<Rightarrow> (nat option \<times> object_pool \<times> 'a rc_heap) result" where
  "query_loop create p [] h = Inr (None, p, h)"
| "query_loop create p (i # is) h =
     (let n = length (p_items p);
          index = search_index p i;
          (item, h1) = (case p_items p ! index of Some obj \<Rightarrow> (Some obj, h) | None \<Rightarrow> create h);
          p1 = p\<lparr>p_items := (p_items p)[index := item]\<rparr>
      in case item of
           None \<Rightarrow> Inl Undefined
         | Some obj \<Rightarrow>
             res_bind (ref_count obj h1) (\<lambda>count.
               if count = 1
               then res_map (\<lambda>r. (Some obj, p1\<lparr>p_next_search_index := (index + 1) mod n\<rparr>, snd r)) (add_ref obj h1)
               else query_loop create p1 is h1))"

definition query_item :: "'a factory \<Rightarrow> object_pool \<Rightarrow> 'a rc_heap \<Rightarrow> (nat option \<times> object_pool \<times> 'a rc_heap) result" where
  "query_item create p h = query_loop create p [0..<length (p_items p)] h"

definition get_item :: "'a factory \<Rightarrow> object_pool \<Rightarrow> 'a rc_heap \<Rightarrow> (nat option \<times> object_pool \<times> 'a rc_heap) result" where
  "get_item create p h =
     res_bind (query_item create p h) (\<lambda>(item, p1, h1).
       if item \<noteq> None then Inr (item, p1, h1)
       else case p_mode p of
              growing_none \<Rightarrow> Inr (None, p1, h1)
            | growing_doubling \<Rightarrow>
                res_bind (query_item create (p1\<lparr>p_items := p_items p1 @ replicate (length (p_items p1)) None\<rparr>) h1)
                  (\<lambda>(item, p2, h2).
                     if item = None
                     then Inl (Throws (Runtime_error ''Failed to dynamically extend pool size. growing_mode is: doubling''))
                     else Inr (item, p2, h2)))"

text \<open>The creation of all objects by an eager constructor stops at the first failure.\<close>

fun fill_loop :: "'a factory \<Rightarrow> nat option list \<Rightarrow> nat list \<Rightarrow> 'a rc_heap \<Rightarrow> nat option list \<times> 'a rc_heap" where
  "fill_loop create items [] h = (items, h)"
| "fill_loop create items (i # is) h =
     (case create h of
        (None, h1) \<Rightarrow> (items[i := None], h1)
      | (Some obj, h1) \<Rightarrow> fill_loop create (items[i := Some obj]) is h1)"

definition object_pool_create ::
  "'a factory \<Rightarrow> nat \<Rightarrow> growing_mode \<Rightarrow> bool \<Rightarrow> 'a rc_heap \<Rightarrow> object_pool \<times> 'a rc_heap" where
  "object_pool_create create n mode lazy h =
     (let (items, h1) = (if lazy then (replicate n None, h) else fill_loop create (replicate n None) [0..<n] h)
      in (\<lparr>p_items = items, p_mode = mode, p_lazy = lazy, p_next_search_index = 0\<rparr>, h1))"

section \<open>The pool and its users\<close>

text \<open>
  \<open>ps_held\<close> counts the references that users of the pool own; it is not part of the program. Users take
  objects from the pool, and copy and release the references they own.
\<close>

record 'a pool_state =
  ps_pool :: object_pool
  ps_heap :: "'a rc_heap"
  ps_held :: "nat \<Rightarrow> nat"

inductive pool_reach :: "'a factory \<Rightarrow> 'a pool_state \<Rightarrow> bool" for create where
  pool_start: "object_pool_create create n mode lazy [] = (p, h) \<Longrightarrow>
     pool_reach create \<lparr>ps_pool = p, ps_heap = h, ps_held = (\<lambda>i. 0)\<rparr>"
| pool_get: "pool_reach create s \<Longrightarrow> get_item create (ps_pool s) (ps_heap s) = Inr (Some i, p, h) \<Longrightarrow>
     pool_reach create \<lparr>ps_pool = p, ps_heap = h, ps_held = (ps_held s)(i := ps_held s i + 1)\<rparr>"
| pool_empty: "pool_reach create s \<Longrightarrow> get_item create (ps_pool s) (ps_heap s) = Inr (None, p, h) \<Longrightarrow>
     pool_reach create (s\<lparr>ps_pool := p, ps_heap := h\<rparr>)"
| pool_copy: "pool_reach create s \<Longrightarrow> 0 < ps_held s i \<Longrightarrow> add_ref i (ps_heap s) = Inr (c, h) \<Longrightarrow>
     pool_reach create (s\<lparr>ps_heap := h, ps_held := (ps_held s)(i := ps_held s i + 1)\<rparr>)"
| pool_release: "pool_reach create s \<Longrightarrow> 0 < ps_held s i \<Longrightarrow> release i (ps_heap s) = Inr (c, h) \<Longrightarrow>
     pool_reach create (s\<lparr>ps_heap := h, ps_held := (ps_held s)(i := ps_held s i - 1)\<rparr>)"

text \<open>The objects of a pool, and the state as users see it: counts agree with the references that exist.\<close>

definition pool_objects :: "object_pool \<Rightarrow> nat set" where
  "pool_objects p = {obj. Some obj \<in> set (p_items p)}"

definition pool_inv :: "('a \<Rightarrow> bool) \<Rightarrow> object_pool \<Rightarrow> 'a rc_heap \<Rightarrow> (nat \<Rightarrow> nat) \<Rightarrow> bool" where
  "pool_inv good p h held \<longleftrightarrow>
     (\<forall>i j obj. i < length (p_items p) \<longrightarrow> j < length (p_items p) \<longrightarrow>
        p_items p ! i = Some obj \<longrightarrow> p_items p ! j = Some obj \<longrightarrow> i = j) \<and>
     pool_objects p = {0..<length h} \<and>
     (\<forall>obj < length h. fst (h ! obj) = int (held obj) + 1 \<and> good (snd (h ! obj))) \<and>
     (\<forall>obj. length h \<le> obj \<longrightarrow> held obj = 0)"

text \<open>Every slot of the pool is filled with an object that a user holds.\<close>

definition all_busy :: "object_pool \<Rightarrow> (nat \<Rightarrow> nat) \<Rightarrow> bool" where
  "all_busy p held \<longleftrightarrow> (\<forall>j < length (p_items p). \<exists>obj. p_items p ! j = Some obj \<and> 0 < held obj)"

section \<open>What the pool relies on\<close>

locale object_factory =
  fixes create :: "'a rc_heap \<Rightarrow> nat option \<times> 'a rc_heap" and good :: "'a \<Rightarrow> bool"
  assumes created: "create h = (Some i, h') \<Longrightarrow> i = length h \<and> (\<exists>x. h' = h @ [(1, x)] \<and> good x)"
    and not_created: "create h = (None, h') \<Longrightarrow> h' = h"

locale reliable_factory = object_factory +
  assumes succeeds: "fst (create h) \<noteq> None"

lemma make_object_eq: "make_object fails x h = (if fails then (None, h) else (Some (length h), h @ [(1, x)]))"
  by (simp add: make_object_def rc_new_def add_ref_def release_def rc_alive_def nth_append list_update_append)

interpretation made: object_factory "make_object fails x" "\<lambda>y. y = x" for fails x
  by unfold_locales (auto simp: make_object_eq split: if_splits)

interpretation constructed: reliable_factory "make_object False x" "\<lambda>y. y = x" for x
  by unfold_locales (simp add: make_object_eq)

section \<open>Lemmas\<close>

lemma pool_objects_nth: "obj \<in> pool_objects p \<longleftrightarrow> (\<exists>i < length (p_items p). p_items p ! i = Some obj)"
  by (auto simp: pool_objects_def in_set_conv_nth)

lemma pool_invD:
  assumes "pool_inv good p h held"
  shows "i < length (p_items p) \<Longrightarrow> j < length (p_items p) \<Longrightarrow> p_items p ! i = Some obj \<Longrightarrow>
           p_items p ! j = Some obj \<Longrightarrow> i = j"
    and "i < length (p_items p) \<Longrightarrow> p_items p ! i = Some obj \<Longrightarrow> obj < length h"
    and "obj < length h \<Longrightarrow> fst (h ! obj) = int (held obj) + 1 \<and> good (snd (h ! obj))"
    and "length h \<le> obj \<Longrightarrow> held obj = 0"
    and "obj < length h \<Longrightarrow> \<exists>i < length (p_items p). p_items p ! i = Some obj"
  using assms pool_objects_nth[of obj p] unfolding pool_inv_def by auto

lemma pool_inv_alive: "pool_inv good p h held \<Longrightarrow> obj < length h \<Longrightarrow> rc_alive h obj"
  using pool_invD(3)[of good p h held obj] by (simp add: rc_alive_def)

lemma pool_inv_count: "pool_inv good p h held \<Longrightarrow> obj < length h \<Longrightarrow> ref_count obj h = Inr (int (held obj) + 1)"
  using pool_invD(3)[of good p h held obj] pool_inv_alive[of good p h held obj] by (simp add: ref_count_def)

lemma pool_inv_take:
  assumes "pool_inv good p h held" and "obj < length h"
  shows "\<exists>h'. add_ref obj h = Inr (int (held obj) + 2, h') \<and> length h' = length h \<and>
           pool_inv good (p\<lparr>p_next_search_index := k\<rparr>) h' (held(obj := held obj + 1))"
  using assms pool_inv_alive[OF assms]
  by (auto simp: pool_inv_def add_ref_def nth_list_update pool_objects_def)

lemma pool_inv_release:
  assumes "pool_inv good p h held" and "obj < length h" and "0 < held obj"
  shows "\<exists>h'. release obj h = Inr (int (held obj), h') \<and> length h' = length h \<and>
           pool_inv good p h' (held(obj := held obj - 1))"
  using assms pool_inv_alive[OF assms(1,2)]
  by (auto simp: pool_inv_def release_def nth_list_update)

lemma pool_inv_same_items: "p_items p' = p_items p \<Longrightarrow> pool_inv good p' h held = pool_inv good p h held"
  by (simp add: pool_inv_def pool_objects_def)

lemma pool_inv_grow:
  assumes "pool_inv good p h held"
  shows "pool_inv good (p\<lparr>p_items := p_items p @ replicate k None\<rparr>) h held"
proof -
  let ?items = "p_items p @ replicate k None"
  have nth: "?items ! i = Some obj \<longleftrightarrow> i < length (p_items p) \<and> p_items p ! i = Some obj" if "i < length ?items" for i obj
    using that by (auto simp: nth_append)
  have "pool_objects (p\<lparr>p_items := ?items\<rparr>) = pool_objects p" by (simp add: pool_objects_def)
  moreover have "i = j" if "i < length ?items" "j < length ?items" "?items ! i = Some obj" "?items ! j = Some obj" for i j obj
    using that nth[of i obj] nth[of j obj] pool_invD(1)[OF assms, of i j obj] by blast
  ultimately show ?thesis using assms by (auto simp: pool_inv_def)
qed

lemma pool_inv_objects_le:
  assumes "pool_inv good p h held"
  shows "length h \<le> length (p_items p)"
proof -
  have "{0..<length h} \<subseteq> (\<lambda>i. the (p_items p ! i)) ` {0..<length (p_items p)}"
    using pool_invD(5)[OF assms] by force
  then have "card {0..<length h} \<le> card {0..<length (p_items p)}" by (rule surj_card_le[rotated]) simp
  then show ?thesis by simp
qed

lemma busy_slots_inj:
  assumes "pool_inv good p h held" and "all_busy p held"
  shows "inj_on (\<lambda>i. the (p_items p ! i)) {0..<length (p_items p)}"
proof (rule inj_onI)
  fix i j
  let ?f = "\<lambda>i. the (p_items p ! i)"
  assume "i \<in> {0..<length (p_items p)}" "j \<in> {0..<length (p_items p)}" "?f i = ?f j"
  with assms(2) pool_invD(1)[OF assms(1), of i j "?f j"] show "i = j" unfolding all_busy_def by fastforce
qed

lemma all_busy_le:
  assumes "pool_inv good p h held" and "all_busy p held" and "\<And>obj. m \<le> obj \<Longrightarrow> held obj = 0"
  shows "length (p_items p) \<le> m"
proof -
  let ?f = "\<lambda>i. the (p_items p ! i)"
  note busy_slots_inj[OF assms(1,2)]
  moreover have "?f ` {0..<length (p_items p)} \<subseteq> {0..<m}"
  proof
    fix obj
    assume "obj \<in> ?f ` {0..<length (p_items p)}"
    then obtain i where "i < length (p_items p)" "obj = ?f i" by auto
    with assms(2) have "0 < held obj" unfolding all_busy_def by force
    with assms(3)[of obj] show "obj \<in> {0..<m}" by (cases "m \<le> obj") auto
  qed
  ultimately have "card {0..<length (p_items p)} \<le> card {0..<m}" by (intro card_inj_on_le) auto
  then show ?thesis by simp
qed

lemma search_index_onto:
  assumes "j < length (p_items p)"
  shows "\<exists>i < length (p_items p). search_index p i = j"
proof (cases "p_lazy p")
  case True
  with assms show ?thesis by (auto simp: search_index_def)
next
  case False
  let ?n = "length (p_items p)" and ?k = "p_next_search_index p"
  let ?i = "(j + (?n - ?k mod ?n)) mod ?n"
  have "?k mod ?n + (?n - ?k mod ?n) = ?n" 
    using assms by (intro le_add_diff_inverse less_imp_le mod_less_divisor) linarith
  then have "?k mod ?n + (j + (?n - ?k mod ?n)) = j + ?n" by simp
  then have "(?k + ?i) mod ?n = (j + ?n) mod ?n" by (metis mod_add_left_eq mod_add_right_eq)
  moreover have "?i < ?n" using assms by (intro mod_less_divisor) linarith
  ultimately show ?thesis using assms False by (intro exI[of _ ?i]) (simp add: search_index_def)
qed

context object_factory
begin

lemma pool_inv_fill:
  assumes inv: "pool_inv good p h held" and idx: "i < length (p_items p)" and empty: "p_items p ! i = None"
    and c: "create h = (Some obj, h')"
  shows "pool_inv good (p\<lparr>p_items := (p_items p)[i := Some obj]\<rparr>) h' held \<and> obj = length h \<and> length h' = Suc (length h)"
proof -
  from created[OF c] obtain x where obj: "obj = length h" and h': "h' = h @ [(1, x)]" and x: "good x" by blast
  let ?items = "(p_items p)[i := Some obj]"
  have old: "p_items p ! j = Some o' \<Longrightarrow> j < length (p_items p) \<Longrightarrow> o' < length h" for j o'
    using pool_invD(2)[OF inv] by blast
  have "j = k" if "j < length ?items" "k < length ?items" "?items ! j = Some o'" "?items ! k = Some o'" for j k o'
    using that old[of j o'] old[of k o'] pool_invD(1)[OF inv, of j k o']
    by (cases "j = i"; cases "k = i") (auto simp: obj)
  moreover have "pool_objects (p\<lparr>p_items := ?items\<rparr>) = insert obj (pool_objects p)"
  proof (intro equalityI subsetI)
    fix y
    assume "y \<in> pool_objects (p\<lparr>p_items := ?items\<rparr>)"
    then show "y \<in> insert obj (pool_objects p)"
      using idx by (auto simp: pool_objects_nth nth_list_update split: if_splits)
  next
    fix y
    assume "y \<in> insert obj (pool_objects p)"
    then consider "y = obj" | j where "j < length (p_items p)" "p_items p ! j = Some y" by (auto simp: pool_objects_nth)
    then show "y \<in> pool_objects (p\<lparr>p_items := ?items\<rparr>)"
    proof cases
      case 1
      with idx show ?thesis by (auto simp: pool_objects_nth intro!: exI[of _ i])
    next
      case 2
      with empty have "j \<noteq> i" by auto
      with 2 show ?thesis by (auto simp: pool_objects_nth intro!: exI[of _ j])
    qed
  qed
  ultimately show ?thesis
    using inv x by (auto simp: pool_inv_def obj h' nth_append)
qed

lemma query_loop_spec:
  assumes "pool_inv good p h held" and "\<forall>i \<in> set is. i < length (p_items p)"
  shows "case query_loop create p is h of
           Inl e \<Rightarrow> e = Undefined \<and> (\<exists>h'. fst (create h') = None)
         | Inr (item, p', h') \<Rightarrow>
             length (p_items p') = length (p_items p) \<and> p_mode p' = p_mode p \<and> p_lazy p' = p_lazy p \<and>
             (\<forall>j obj. p_items p ! j = Some obj \<longrightarrow> p_items p' ! j = Some obj) \<and>
             (case item of
                Some obj \<Rightarrow> held obj = 0 \<and> obj < length h' \<and> pool_inv good p' h' (held(obj := 1))
              | None \<Rightarrow> pool_inv good p' h' held \<and> p_next_search_index p' = p_next_search_index p \<and>
                  (\<forall>i \<in> set is. \<exists>obj. p_items p' ! search_index p i = Some obj \<and> 0 < held obj))"
  using assms
proof (induction "is" arbitrary: p h)
  case Nil
  then show ?case by simp
next
  case (Cons i "is")
  let ?ix = "search_index p i"
  have ix: "?ix < length (p_items p)"
    using Cons.prems(2) by (auto simp: search_index_def intro!: mod_less_divisor)
  obtain item h1 where ih: "(case p_items p ! ?ix of Some obj \<Rightarrow> (Some obj, h) | None \<Rightarrow> create h) = (item, h1)"
    by fastforce
  show ?case
  proof (cases item)
    case None
    with ih have "fst (create h) = None" by (auto split: option.splits)
    then show ?thesis using ih None by (auto simp: Let_def)
  next
    case (Some obj)
    let ?p1 = "p\<lparr>p_items := (p_items p)[?ix := Some obj]\<rparr>"
    have inv1: "pool_inv good ?p1 h1 held" and obj: "obj < length h1"
      and keep: "\<forall>j obj. p_items p ! j = Some obj \<longrightarrow> p_items ?p1 ! j = Some obj"
    proof -
      have "pool_inv good ?p1 h1 held \<and> obj < length h1 \<and> (\<forall>j obj. p_items p ! j = Some obj \<longrightarrow> p_items ?p1 ! j = Some obj)"
      proof (cases "p_items p ! ?ix")
        case None
        with ih Some have "create h = (Some obj, h1)" by simp
        with pool_inv_fill[OF Cons.prems(1) ix None this] None show ?thesis by (auto simp: nth_list_update ix)
      next
        case (Some o2)
        with ih \<open>item = Some obj\<close> have "o2 = obj" "h1 = h" by auto
        moreover from this Some have "?p1 = p" by (simp add: list_update_same_conv ix)
        ultimately show ?thesis
          using Cons.prems(1) pool_invD(2)[OF Cons.prems(1) ix] Some by auto
      qed
      then show "pool_inv good ?p1 h1 held" "obj < length h1"
        "\<forall>j obj. p_items p ! j = Some obj \<longrightarrow> p_items ?p1 ! j = Some obj" by blast+
    qed
    show ?thesis
    proof (cases "held obj = 0")
      case True
      from pool_inv_take[OF inv1 obj, of "(?ix + 1) mod length (p_items p)"] obtain h2 where
        "add_ref obj h1 = Inr (int (held obj) + 2, h2)" "length h2 = length h1"
        "pool_inv good (?p1\<lparr>p_next_search_index := (?ix + 1) mod length (p_items p)\<rparr>) h2 (held(obj := held obj + 1))" by blast
      with True show ?thesis
        using ih Some pool_inv_count[OF inv1 obj] obj keep by (auto simp: Let_def)
    next
      case False
      have same: "search_index ?p1 = search_index p" by (simp add: search_index_def fun_eq_iff)
      have step: "query_loop create p (i # is) h = query_loop create ?p1 is h1"
        using ih Some False pool_inv_count[OF inv1 obj] by (simp add: Let_def)
      have "p_items ?p1 ! ?ix = Some obj" using ix by simp
      with Cons.IH[OF inv1] Cons.prems(2) show ?thesis
        unfolding step same using False keep by (fastforce split: sum.splits option.splits)
    qed
  qed
qed

lemma query_item_spec:
  assumes "pool_inv good p h held"
  shows "case query_item create p h of
           Inl e \<Rightarrow> e = Undefined \<and> (\<exists>h'. fst (create h') = None)
         | Inr (item, p', h') \<Rightarrow>
             length (p_items p') = length (p_items p) \<and> p_mode p' = p_mode p \<and>
             (\<forall>j obj. p_items p ! j = Some obj \<longrightarrow> p_items p' ! j = Some obj) \<and>
             (case item of
                Some obj \<Rightarrow> held obj = 0 \<and> obj < length h' \<and> pool_inv good p' h' (held(obj := 1))
              | None \<Rightarrow> pool_inv good p' h' held \<and> all_busy p' held)"
proof -
  have "all_busy p' held"
    if "\<forall>i \<in> set [0..<length (p_items p)]. \<exists>obj. p_items p' ! search_index p i = Some obj \<and> 0 < held obj"
      and "length (p_items p') = length (p_items p)" for p'
    using that search_index_onto[of _ p] unfolding all_busy_def by fastforce
  then show ?thesis
    using query_loop_spec[OF assms, of "[0..<length (p_items p)]"] unfolding query_item_def
    by (auto split: sum.splits option.splits)
qed

lemma get_item_spec:
  assumes inv: "pool_inv good p h held"
  shows "case get_item create p h of
           Inl e \<Rightarrow> (e = Undefined \<and> (\<exists>h'. fst (create h') = None)) \<or>
                    (e \<noteq> Undefined \<and> p_mode p = growing_doubling \<and> p_items p = [])
         | Inr (item, p', h') \<Rightarrow>
             p_mode p' = p_mode p \<and> (p_mode p = growing_none \<longrightarrow> length (p_items p') = length (p_items p)) \<and>
             (case item of
                Some obj \<Rightarrow> held obj = 0 \<and> obj < length h' \<and> pool_inv good p' h' (held(obj := 1))
              | None \<Rightarrow> p_mode p = growing_none \<and> pool_inv good p' h' held \<and> all_busy p' held)"
proof (cases "query_item create p h")
  case (Inl e)
  with query_item_spec[OF inv] show ?thesis by (simp add: get_item_def)
next
  case (Inr r)
  obtain item p1 h1 where r: "r = (item, p1, h1)" by (cases r)
  note q1 = query_item_spec[OF inv, unfolded Inr r, simplified]
  show ?thesis
  proof (cases "item \<noteq> None \<or> p_mode p = growing_none")
    case True
    with q1 show ?thesis using Inr r by (auto simp: get_item_def split: option.splits)
  next
    case False
    then have item: "item = None" and mode: "p_mode p = growing_doubling" by (auto intro: growing_mode.exhaust)
    from q1 item have inv1: "pool_inv good p1 h1 held" by simp
    let ?p2 = "p1\<lparr>p_items := p_items p1 @ replicate (length (p_items p1)) None\<rparr>"
    note q2 = query_item_spec[OF pool_inv_grow[OF inv1, of "length (p_items p1)"]]
    have get: "get_item create p h =
        res_bind (query_item create ?p2 h1) (\<lambda>(item, p2, h2).
          if item = None
          then Inl (Throws (Runtime_error ''Failed to dynamically extend pool size. growing_mode is: doubling''))
          else Inr (item, p2, h2))"
      using Inr r item mode by (simp add: get_item_def)
    show ?thesis
    proof (cases "query_item create ?p2 h1")
      case (Inl e)
      with q2 get show ?thesis by simp
    next
      case (Inr r2)
      obtain item2 p2 h2 where r2: "r2 = (item2, p2, h2)" by (cases r2)
      show ?thesis
      proof (cases item2)
        case (Some obj)
        with q2 q1 get Inr r2 mode show ?thesis by auto
      next
        case None
        with q2 Inr r2 have "length (p_items p2) = 2 * length (p_items p1)" "all_busy p2 held" "pool_inv good p2 h2 held"
          by auto
        moreover from this have "length (p_items p2) \<le> length h1"
          using all_busy_le[of good p2 h2 held "length h1"] pool_invD(4)[OF inv1] by blast
        ultimately have "length (p_items p1) = 0" using pool_inv_objects_le[OF inv1] by linarith
        with q1 have "p_items p = []" by simp
        with None get Inr r2 mode show ?thesis by simp
      qed
    qed
  qed
qed

lemma fill_loop_inv:
  assumes "pool_inv good (p\<lparr>p_items := items\<rparr>) h held" and "distinct is"
    and "\<forall>i \<in> set is. i < length items \<and> items ! i = None" and "fill_loop create items is h = (items', h')"
  shows "pool_inv good (p\<lparr>p_items := items'\<rparr>) h' held \<and> length items' = length items"
  using assms
proof (induction "is" arbitrary: items h)
  case Nil
  then show ?case by simp
next
  case (Cons i "is")
  show ?case
  proof (cases "create h")
    case (Pair c h1)
    show ?thesis
    proof (cases c)
      case None
      with Cons.prems(3) have "items[i := None] = items" by (simp add: list_update_same_conv)
      with Cons.prems Pair None not_created[of h h1] show ?thesis by auto
    next
      case (Some obj)
      with pool_inv_fill[OF Cons.prems(1), of i obj h1] Pair Cons.prems(3)
      have "pool_inv good (p\<lparr>p_items := items[i := Some obj]\<rparr>) h1 held" by auto
      moreover have "\<forall>j \<in> set is. j < length (items[i := Some obj]) \<and> items[i := Some obj] ! j = None"
        using Cons.prems(2,3) by (metis distinct.simps(2) length_list_update list.set_intros(2) nth_list_update_neq)
      ultimately show ?thesis using Cons.IH[of "items[i := Some obj]" h1] Cons.prems(2,4) Pair Some by simp
    qed
  qed
qed

lemma object_pool_create_inv:
  assumes "object_pool_create create n mode lazy [] = (p, h)"
  shows "pool_inv good p h (\<lambda>i. 0) \<and> length (p_items p) = n \<and> p_mode p = mode"
proof -
  let ?p = "\<lparr>p_items = replicate n None, p_mode = mode, p_lazy = lazy, p_next_search_index = 0\<rparr>"
  have inv: "pool_inv good (?p\<lparr>p_items := replicate n None\<rparr>) [] (\<lambda>i. 0)" by (auto simp: pool_inv_def pool_objects_def)
  from assms fill_loop_inv[OF inv, of "[0..<n]"] inv show ?thesis
    by (auto simp: object_pool_create_def split: if_splits prod.splits)
qed

lemma reach_inv: "pool_reach create s \<Longrightarrow> pool_inv good (ps_pool s) (ps_heap s) (ps_held s)"
proof (induction rule: pool_reach.induct)
  case (pool_start n mode lazy p h)
  then show ?case using object_pool_create_inv by simp
next
  case (pool_get s i p h)
  with get_item_spec[OF pool_get.IH] have "ps_held s i = 0 \<and> pool_inv good p h ((ps_held s)(i := 1))" by simp
  then show ?case by (simp add: fun_upd_def)
next
  case (pool_empty s p h)
  with get_item_spec[OF pool_empty.IH] show ?case by simp
next
  case (pool_copy s i c h)
  then have "i < length (ps_heap s)" using pool_invD(4)[OF pool_copy.IH, of i] by (cases "length (ps_heap s) \<le> i") auto
  from pool_inv_take[OF pool_copy.IH this, of "p_next_search_index (ps_pool s)"] pool_copy.hyps show ?case by (auto simp: fun_upd_def)
next
  case (pool_release s i c h)
  then have "i < length (ps_heap s)" using pool_invD(4)[OF pool_release.IH, of i] by (cases "length (ps_heap s) \<le> i") auto
  from pool_inv_release[OF pool_release.IH this] pool_release.hyps show ?case by (auto simp: fun_upd_def)
qed

end

context reliable_factory
begin

lemma reach_get_item:
  assumes "pool_reach create s"
  shows "case get_item create (ps_pool s) (ps_heap s) of
           Inl e \<Rightarrow> e \<noteq> Undefined \<and> p_mode (ps_pool s) = growing_doubling \<and> p_items (ps_pool s) = []
         | Inr (Some obj, p', h') \<Rightarrow>
             ps_held s obj = 0 \<and> obj \<in> pool_objects p' \<and> good (snd (h' ! obj)) \<and> fst (h' ! obj) = 2
         | Inr (None, p', h') \<Rightarrow> p_mode (ps_pool s) = growing_none \<and> all_busy p' (ps_held s)"
proof -
  have found: "obj \<in> pool_objects p' \<and> good (snd (h' ! obj)) \<and> fst (h' ! obj) = 2"
    if "pool_inv good p' h' ((ps_held s)(obj := Suc 0))" "obj < length h'" for p' h' obj
    using pool_invD(3)[OF that] pool_invD(5)[OF that] by (simp add: pool_objects_nth)
  note spec = get_item_spec[OF reach_inv[OF assms]]
  show ?thesis
  proof (cases "get_item create (ps_pool s) (ps_heap s)")
    case (Inl e)
    with spec succeeds show ?thesis by auto
  next
    case (Inr r)
    with spec show ?thesis by (cases r; cases "fst r") (auto dest: found)
  qed
qed

end

section \<open>Properties\<close>

text \<open>C23. A pool never hands an object to two users. In every state that a pool of constructed objects and its users can
  reach, \<^verbatim>\<open>get_item\<close> has no undefined behaviour; an object that it returns belongs to the pool, is not held by
  any user, has the contents the pool was made for, and afterwards exactly two references, the pool's and the user's. It
  returns nothing only when the pool may not grow and every slot is filled with an object in use, and it throws only
  for a growing pool without a single slot.\<close>

theorem pool_items_exclusive:
  assumes "pool_reach (make_object False x) s"
  shows "case get_item (make_object False x) (ps_pool s) (ps_heap s) of
           Inl e \<Rightarrow> e \<noteq> Undefined \<and> p_mode (ps_pool s) = growing_doubling \<and> p_items (ps_pool s) = []
         | Inr (Some obj, p', h') \<Rightarrow>
             ps_held s obj = 0 \<and> obj \<in> pool_objects p' \<and> snd (h' ! obj) = x \<and> fst (h' ! obj) = 2
         | Inr (None, p', h') \<Rightarrow> p_mode (ps_pool s) = growing_none \<and> all_busy p' (ps_held s)"
  using constructed.reach_get_item[OF assms] .

theorem pool_items_exclusive_witness:
  "case get_item (make_object False CHR ''x'') \<lparr>p_items = [None, None], p_mode = growing_none, p_lazy = True, p_next_search_index = 0\<rparr> [] of
     Inl e \<Rightarrow> False
   | Inr (Some obj, p', h') \<Rightarrow> obj \<in> pool_objects p' \<and> snd (h' ! obj) = CHR ''x'' \<and> fst (h' ! obj) = 2
   | Inr (None, p', h') \<Rightarrow> False"
proof -
  let ?p = "\<lparr>p_items = [None, None], p_mode = growing_none, p_lazy = True, p_next_search_index = 0\<rparr>"
  have "object_pool_create (make_object False CHR ''x'') 2 growing_none True [] = (?p, [])"
    by (simp add: object_pool_create_def numeral_2_eq_2)
  note pool_start[OF this]
  from pool_items_exclusive[OF this] show ?thesis
    by (auto simp: get_item_def query_item_def make_object_eq search_index_def ref_count_def rc_alive_def add_ref_def)
qed

text \<open>The pool does not look at the result of the creation function: if the first object cannot be created, asking the
  pool for an object dereferences a null pointer.\<close>

theorem failed_creation_is_undefined:
  "get_item (make_object True x) \<lparr>p_items = None # items, p_mode = mode, p_lazy = True, p_next_search_index = k\<rparr> h =
     Inl Undefined"
  by (simp add: get_item_def query_item_def upt_rec make_object_eq search_index_def)

end
