(* ===== verification/Buffers.thy ===== *)
theory Buffers
  imports Object_Pool Strings_Util
begin

text \<open>
  Buffers (\<^verbatim>\<open>Include/utils/buffer_allocator.hpp\<close>): the bounds-checked buffer that parsers share, the
  window into another buffer, and the allocator that keeps a pool of buffers for every size.

  Bounds are compared at 64 bits as in the code, on the branch for platforms with \<^verbatim>\<open>std::memcpy\<close>. Taking the
  address of an element of a vector is only defined for elements it has.
\<close>

section \<open>The safe buffer\<close>

definition sb_size :: "bytes \<Rightarrow> size_t" where
  "sb_size buf = of_nat (length buf)"

definition sb_create :: "size_t \<Rightarrow> bytes" where
  "sb_create n = replicate (unat n) 0"

definition sb_create_copy :: "bytes \<Rightarrow> size_t \<Rightarrow> bytes result" where
  "sb_create_copy data n = res_bind (mem_read data 0 (unat n)) (mem_write (sb_create n) 0)"

definition elem_addr :: "bytes \<Rightarrow> size_t \<Rightarrow> nat result" where
  "elem_addr buf i = (if unat i < length buf then Inr (unat i) else Inl Undefined)"

text \<open>The part of \<^verbatim>\<open>safe_read\<close> behind the test for a null pointer; \<open>data\<close> is the memory it writes to.\<close>

definition safe_read_to :: "bytes \<Rightarrow> bytes \<Rightarrow> size_t \<Rightarrow> size_t \<Rightarrow> (bool \<times> bytes) result" where
  "safe_read_to buf data n offset =
     (if n + offset > sb_size buf then Inr (False, data)
      else res_bind (elem_addr buf offset) (\<lambda>i.
             res_bind (mem_read buf i (unat n)) (\<lambda>bs.
               res_map (\<lambda>data'. (True, data')) (mem_write data 0 bs))))"

definition safe_read :: "bytes \<Rightarrow> bytes option \<Rightarrow> size_t \<Rightarrow> size_t \<Rightarrow> (bool \<times> bytes option) result" where
  "safe_read buf data n offset =
     (case data of
        None \<Rightarrow> Inr (False, None)
      | Some d \<Rightarrow> res_map (\<lambda>(ok, d'). (ok, Some d')) (safe_read_to buf d n offset))"

definition safe_write_from :: "bytes \<Rightarrow> bytes \<Rightarrow> size_t \<Rightarrow> size_t \<Rightarrow> (bool \<times> bytes) result" where
  "safe_write_from buf data n offset =
     (if n + offset > sb_size buf then Inr (False, buf)
      else res_bind (elem_addr buf offset) (\<lambda>i.
             res_bind (mem_read data 0 (unat n)) (\<lambda>bs.
               res_map (\<lambda>buf'. (True, buf')) (mem_write buf i bs))))"

definition safe_write :: "bytes \<Rightarrow> bytes option \<Rightarrow> size_t \<Rightarrow> size_t \<Rightarrow> (bool \<times> bytes) result" where
  "safe_write buf data n offset =
     (case data of None \<Rightarrow> Inr (False, buf) | Some d \<Rightarrow> safe_write_from buf d n offset)"

text \<open>
  The text is the characters up to its terminating zero; reading behind the zero is undefined. The loop returns the
  buffer together with the fault that ended it, since bytes written before an exception stay written.
\<close>

definition c_char :: "string \<Rightarrow> nat \<Rightarrow> char result" where
  "c_char str i = (if i < length str then Inr (str ! i) else if i = length str then Inr (char_of (0::nat)) else Inl Undefined)"

definition hex_pair :: "string \<Rightarrow> nat \<Rightarrow> byte result" where
  "hex_pair str offset =
     res_bind (res_bind (c_char str offset) hex_char2int) (\<lambda>hi.
       res_map (\<lambda>lo. hi * 16 + lo) (res_bind (c_char str (offset + 1)) hex_char2int))"

fun write_hex_loop :: "string \<Rightarrow> nat list \<Rightarrow> bytes \<Rightarrow> bytes \<times> cpp_fault option" where
  "write_hex_loop str [] buf = (buf, None)"
| "write_hex_loop str (i # is) buf =
     (case hex_pair str (2 * i) of
        Inl e \<Rightarrow> (buf, Some e)
      | Inr single_byte \<Rightarrow> write_hex_loop str is (buf[i := single_byte]))"

definition safe_write_hex :: "bytes \<Rightarrow> string option \<Rightarrow> bytes \<times> cpp_fault option" where
  "safe_write_hex buf str =
     (case str of
        None \<Rightarrow> (buf, Some (Throws (Invalid_argument ''str'')))
      | Some s \<Rightarrow>
          if length s mod 2 \<noteq> 0 then (buf, Some (Throws (Runtime_error ''not an even buffer size'')))
          else if length s div 2 > length buf then (buf, Some (Throws (Runtime_error ''size is bigger than buffer size'')))
          else write_hex_loop s [0..<length buf] buf)"

definition sb_nullify :: "bytes \<Rightarrow> bytes" where
  "sb_nullify buf = mem_zero buf"

section \<open>Windows into a buffer\<close>

record relative_buffer =
  rb_source :: bytes
  rb_offset :: size_t
  rb_size :: size_t

definition relative_buffer_create :: "bytes option \<Rightarrow> size_t \<Rightarrow> size_t \<Rightarrow> relative_buffer result" where
  "relative_buffer_create source offset n =
     (case source of
        None \<Rightarrow> Inl (Throws (Invalid_argument ''source_buffer''))
      | Some src \<Rightarrow>
          if offset + n > of_nat (length src) then Inl (Throws (Out_of_range ''size + offset is out of range''))
          else Inr \<lparr>rb_source = src, rb_offset = offset, rb_size = n\<rparr>)"

text \<open>Reading the \<^verbatim>\<open>size()\<close> bytes behind \<^verbatim>\<open>data()\<close>.\<close>

definition relative_buffer_contents :: "relative_buffer \<Rightarrow> bytes result" where
  "relative_buffer_contents b = mem_read (rb_source b) (unat (rb_offset b)) (unat (rb_size b))"

section \<open>The allocator\<close>

text \<open>
  The objects of the pools are buffers, represented by the size they are constructed with, which the interface
  of a buffer cannot change. Each pool has its own part of the heap.
\<close>

definition buffer_factory :: "size_t \<Rightarrow> size_t factory" where
  "buffer_factory buffer_size = make_object False buffer_size"

definition buffer_pool_create :: "nat \<Rightarrow> bool \<Rightarrow> size_t \<Rightarrow> object_pool \<times> size_t rc_heap" where
  "buffer_pool_create pool_size lazy buffer_size =
     object_pool_create (buffer_factory buffer_size) pool_size growing_none lazy []"

record buffer_allocator =
  ba_pools :: "(size_t \<times> object_pool \<times> size_t rc_heap) list"
  ba_max_allocated_memory_per_buffer_size :: size_t
  ba_lazy :: bool

definition buffer_allocator_create :: "size_t \<Rightarrow> bool \<Rightarrow> buffer_allocator" where
  "buffer_allocator_create max_allocated lazy =
     \<lparr>ba_pools = [], ba_max_allocated_memory_per_buffer_size = max_allocated, ba_lazy = lazy\<rparr>"

definition size_div :: "size_t \<Rightarrow> size_t \<Rightarrow> size_t result" where
  "size_div a b = (if b = 0 then Inl Undefined else Inr (a div b))"

text \<open>The reference that the caller gets is the one of the local pointer.\<close>

definition pool_take :: "size_t \<Rightarrow> object_pool \<times> size_t rc_heap \<Rightarrow> (nat option \<times> object_pool \<times> size_t rc_heap) result" where
  "pool_take buffer_size ph =
     res_bind (get_item (buffer_factory buffer_size) (fst ph) (snd ph)) (\<lambda>(item, p, h).
       case item of
         None \<Rightarrow> Inr (None, p, h)
       | Some obj \<Rightarrow>
           res_bind (add_ref obj h) (\<lambda>(_, h1). res_map (\<lambda>(_, h2). (Some obj, p, h2)) (release obj h1)))"

definition allocate :: "size_t \<Rightarrow> buffer_allocator \<Rightarrow> (nat option \<times> buffer_allocator) result" where
  "allocate buffer_size a =
     (case map_of (ba_pools a) buffer_size of
        Some ph \<Rightarrow>
          res_map (\<lambda>(item, ph'). (item, a\<lparr>ba_pools := al_update buffer_size (\<lambda>_. ph') (ba_pools a)\<rparr>))
            (pool_take buffer_size ph)
      | None \<Rightarrow>
          res_bind (size_div (ba_max_allocated_memory_per_buffer_size a) buffer_size) (\<lambda>buffer_count.
            if buffer_size = 0 then Inr (None, a)
            else res_map (\<lambda>(item, ph'). (item, a\<lparr>ba_pools := ba_pools a @ [(buffer_size, ph')]\<rparr>))
                   (pool_take buffer_size (buffer_pool_create (unat buffer_count) (ba_lazy a) buffer_size))))"

text \<open>Allocator and users: \<open>as_held\<close> counts the references of users to each buffer of each size.\<close>

record alloc_state =
  as_alloc :: buffer_allocator
  as_held :: "size_t \<Rightarrow> nat \<Rightarrow> nat"

definition set_held :: "size_t \<Rightarrow> nat \<Rightarrow> nat \<Rightarrow> (size_t \<Rightarrow> nat \<Rightarrow> nat) \<Rightarrow> size_t \<Rightarrow> nat \<Rightarrow> nat" where
  "set_held n obj c held = held(n := (held n)(obj := c))"

inductive alloc_reach :: "size_t \<Rightarrow> bool \<Rightarrow> alloc_state \<Rightarrow> bool" for max_allocated lazy where
  alloc_start: "alloc_reach max_allocated lazy \<lparr>as_alloc = buffer_allocator_create max_allocated lazy, as_held = (\<lambda>_ _. 0)\<rparr>"
| alloc_get: "alloc_reach max_allocated lazy s \<Longrightarrow> allocate n (as_alloc s) = Inr (Some obj, a) \<Longrightarrow>
     alloc_reach max_allocated lazy \<lparr>as_alloc = a, as_held = set_held n obj (as_held s n obj + 1) (as_held s)\<rparr>"
| alloc_refused: "alloc_reach max_allocated lazy s \<Longrightarrow> allocate n (as_alloc s) = Inr (None, a) \<Longrightarrow>
     alloc_reach max_allocated lazy (s\<lparr>as_alloc := a\<rparr>)"
| alloc_copy: "alloc_reach max_allocated lazy s \<Longrightarrow> map_of (ba_pools (as_alloc s)) n = Some (p, h) \<Longrightarrow>
     0 < as_held s n obj \<Longrightarrow> add_ref obj h = Inr (c, h') \<Longrightarrow>
     alloc_reach max_allocated lazy
       \<lparr>as_alloc = (as_alloc s)\<lparr>ba_pools := al_update n (\<lambda>_. (p, h')) (ba_pools (as_alloc s))\<rparr>,
        as_held = set_held n obj (as_held s n obj + 1) (as_held s)\<rparr>"
| alloc_release: "alloc_reach max_allocated lazy s \<Longrightarrow> map_of (ba_pools (as_alloc s)) n = Some (p, h) \<Longrightarrow>
     0 < as_held s n obj \<Longrightarrow> release obj h = Inr (c, h') \<Longrightarrow>
     alloc_reach max_allocated lazy
       \<lparr>as_alloc = (as_alloc s)\<lparr>ba_pools := al_update n (\<lambda>_. (p, h')) (ba_pools (as_alloc s))\<rparr>,
        as_held = set_held n obj (as_held s n obj - 1) (as_held s)\<rparr>"

definition alloc_inv :: "size_t \<Rightarrow> alloc_state \<Rightarrow> bool" where
  "alloc_inv max_allocated s \<longleftrightarrow>
     ba_max_allocated_memory_per_buffer_size (as_alloc s) = max_allocated \<and>
     (\<forall>n p h. map_of (ba_pools (as_alloc s)) n = Some (p, h) \<longrightarrow>
        n \<noteq> 0 \<and> pool_inv (\<lambda>m. m = n) p h (as_held s n) \<and> p_mode p = growing_none \<and>
        length (p_items p) = unat (max_allocated div n)) \<and>
     (\<forall>n. map_of (ba_pools (as_alloc s)) n = None \<longrightarrow> (\<forall>obj. as_held s n obj = 0))"

section \<open>Lemmas on the allocator\<close>

text \<open>Taking a buffer from a pool, by what it does to the pool and to the users.\<close>

lemma pool_take_spec:
  assumes inv: "pool_inv (\<lambda>m. m = n) p h held" and mode: "p_mode p = growing_none"
  shows "\<exists>item p' h'. pool_take n (p, h) = Inr (item, p', h') \<and> p_mode p' = growing_none \<and>
           length (p_items p') = length (p_items p) \<and>
           (case item of
              Some obj \<Rightarrow> held obj = 0 \<and> obj < length h' \<and> pool_inv (\<lambda>m. m = n) p' h' (held(obj := 1))
            | None \<Rightarrow> pool_inv (\<lambda>m. m = n) p' h' held \<and> all_busy p' held)"
proof -
  note spec = made.get_item_spec[OF inv, of False]
  have "get_item (buffer_factory n) p h \<noteq> Inl e" for e
    using spec mode by (auto simp: buffer_factory_def make_object_eq)
  then obtain item p1 h1 where g: "get_item (buffer_factory n) p h = Inr (item, p1, h1)"
    by (metis prod.exhaust sum.exhaust)
  note spec' = spec[folded buffer_factory_def, unfolded g, simplified]
  show ?thesis
  proof (cases item)
    case None
    with g spec' mode show ?thesis by (simp add: pool_take_def)
  next
    case (Some obj)
    with spec' have inv1: "pool_inv (\<lambda>m. m = n) p1 h1 (held(obj := 1))" and obj: "obj < length h1" by simp_all
    from pool_invD(3)[OF inv1 obj] have "h1 ! obj = (2, n)" by (auto intro: prod_eqI)
    then have "add_ref obj h1 = Inr (3, h1[obj := (3, n)])" "release obj (h1[obj := (3, n)]) = Inr (2, h1[obj := (2, n)])"
      and "h1[obj := (2, n)] = h1"
      using obj by (auto simp: add_ref_def release_def rc_alive_def list_update_same_conv)
    with g Some spec' mode inv1 obj show ?thesis by (simp add: pool_take_def)
  qed
qed

lemma alloc_inv_update:
  assumes inv: "alloc_inv max_allocated s" and n: "n \<noteq> 0"
    and pools: "\<And>m. map_of pools' m = (if m = n then Some (p', h') else map_of (ba_pools (as_alloc s)) m)"
    and pool: "pool_inv (\<lambda>m. m = n) p' h' (held' n)" "p_mode p' = growing_none" "length (p_items p') = unat (max_allocated div n)"
    and held: "\<And>m. m \<noteq> n \<Longrightarrow> held' m = as_held s m"
  shows "alloc_inv max_allocated \<lparr>as_alloc = (as_alloc s)\<lparr>ba_pools := pools'\<rparr>, as_held = held'\<rparr>"
  using assms unfolding alloc_inv_def by auto

lemma allocate_spec:
  assumes inv: "alloc_inv max_allocated s" and n: "n \<noteq> 0"
  shows "\<exists>item a p' h'. allocate n (as_alloc s) = Inr (item, a) \<and> map_of (ba_pools a) n = Some (p', h') \<and>
           (case item of
              Some obj \<Rightarrow> as_held s n obj = 0 \<and> obj < length h' \<and>
                alloc_inv max_allocated \<lparr>as_alloc = a, as_held = set_held n obj 1 (as_held s)\<rparr>
            | None \<Rightarrow> alloc_inv max_allocated (s\<lparr>as_alloc := a\<rparr>) \<and> all_busy p' (as_held s n))"
proof -
  obtain p h where ph: "pool_inv (\<lambda>m. m = n) p h (as_held s n)" "p_mode p = growing_none"
      "length (p_items p) = unat (max_allocated div n)"
    and alloc: "allocate n (as_alloc s) =
        res_map (\<lambda>(item, ph'). (item, (as_alloc s)\<lparr>ba_pools :=
           (case map_of (ba_pools (as_alloc s)) n of None \<Rightarrow> ba_pools (as_alloc s) @ [(n, ph')]
            | Some _ \<Rightarrow> al_update n (\<lambda>_. ph') (ba_pools (as_alloc s)))\<rparr>)) (pool_take n (p, h))"
  proof (cases "map_of (ba_pools (as_alloc s)) n")
    case None
    obtain p h where c: "buffer_pool_create (unat (max_allocated div n)) (ba_lazy (as_alloc s)) n = (p, h)" by fastforce
    from made.object_pool_create_inv[of False n "unat (max_allocated div n)" growing_none "ba_lazy (as_alloc s)" p h] c
    have "pool_inv (\<lambda>m. m = n) p h (\<lambda>_. 0)" "length (p_items p) = unat (max_allocated div n)" "p_mode p = growing_none"
      by (simp_all add: buffer_pool_create_def buffer_factory_def)
    moreover have "as_held s n = (\<lambda>_. 0)" using inv None by (auto simp: alloc_inv_def)
    ultimately show ?thesis
      using that[of p h] None n c inv by (simp add: allocate_def size_div_def alloc_inv_def)
  next
    case (Some ph)
    with inv that[of "fst ph" "snd ph"] show ?thesis by (cases ph) (simp add: allocate_def alloc_inv_def)
  qed
  from pool_take_spec[OF ph(1,2)] obtain item p' h' where t: "pool_take n (p, h) = Inr (item, p', h')"
    and p': "p_mode p' = growing_none" "length (p_items p') = length (p_items p)"
    and c: "case item of
              Some obj \<Rightarrow> as_held s n obj = 0 \<and> obj < length h' \<and> pool_inv (\<lambda>m. m = n) p' h' ((as_held s n)(obj := 1))
            | None \<Rightarrow> pool_inv (\<lambda>m. m = n) p' h' (as_held s n) \<and> all_busy p' (as_held s n)"
    by blast
  define pools' where "pools' = (case map_of (ba_pools (as_alloc s)) n of None \<Rightarrow> ba_pools (as_alloc s) @ [(n, p', h')]
            | Some _ \<Rightarrow> al_update n (\<lambda>_. (p', h')) (ba_pools (as_alloc s)))"
  have pools: "map_of pools' m = (if m = n then Some (p', h') else map_of (ba_pools (as_alloc s)) m)" for m
    by (auto simp: pools'_def map_of_al_update map_add_def split: option.splits)
  note upd = alloc_inv_update[OF inv n pools _ p'(1) p'(2)[unfolded ph(3)]]
  have res: "allocate n (as_alloc s) = Inr (item, (as_alloc s)\<lparr>ba_pools := pools'\<rparr>)"
    by (simp add: alloc t pools'_def)
  show ?thesis
  proof (cases item)
    case None
    with upd[of "as_held s"] c res pools show ?thesis by (cases s) auto
  next
    case (Some obj)
    with upd[of "set_held n obj 1 (as_held s)"] c res pools show ?thesis by (auto simp: set_held_def)
  qed
qed

lemma alloc_reach_inv: "alloc_reach max_allocated lazy s \<Longrightarrow> alloc_inv max_allocated s"
proof (induction rule: alloc_reach.induct)
  case alloc_start
  then show ?case by (simp add: alloc_inv_def buffer_allocator_create_def)
next
  case (alloc_get s n obj a)
  have "n \<noteq> 0"
    using alloc_get.hyps(2) alloc_get.IH
    by (auto simp: allocate_def alloc_inv_def size_div_def split: option.splits)
  with allocate_spec[OF alloc_get.IH this] alloc_get.hyps(2) show ?case by auto
next
  case (alloc_refused s n a)
  have "n \<noteq> 0"
    using alloc_refused.hyps(2) alloc_refused.IH
    by (auto simp: allocate_def alloc_inv_def size_div_def split: option.splits)
  with allocate_spec[OF alloc_refused.IH this] alloc_refused.hyps(2) show ?case by auto
next
  case (alloc_copy s n p h obj c h')
  then have ph: "n \<noteq> 0" "pool_inv (\<lambda>m. m = n) p h (as_held s n)" "p_mode p = growing_none"
      "length (p_items p) = unat (max_allocated div n)" by (auto simp: alloc_inv_def)
  have "obj < length h" using pool_invD(4)[OF ph(2), of obj] alloc_copy.hyps(3) by (cases "length h \<le> obj") auto
  from pool_inv_take[OF ph(2) this, of "p_next_search_index p"] alloc_copy.hyps(4)
  have "pool_inv (\<lambda>m. m = n) p h' ((as_held s n)(obj := as_held s n obj + 1))" by auto
  with ph alloc_copy.hyps(2) show ?case
    by (intro alloc_inv_update[OF alloc_copy.IH ph(1)]) (auto simp: map_of_al_update set_held_def)
next
  case (alloc_release s n p h obj c h')
  then have ph: "n \<noteq> 0" "pool_inv (\<lambda>m. m = n) p h (as_held s n)" "p_mode p = growing_none"
      "length (p_items p) = unat (max_allocated div n)" by (auto simp: alloc_inv_def)
  have "obj < length h" using pool_invD(4)[OF ph(2), of obj] alloc_release.hyps(3) by (cases "length h \<le> obj") auto
  from pool_inv_release[OF ph(2) this alloc_release.hyps(3)] alloc_release.hyps(4)
  have "pool_inv (\<lambda>m. m = n) p h' ((as_held s n)(obj := as_held s n obj - 1))" by auto
  with ph alloc_release.hyps(2) show ?case
    by (intro alloc_inv_update[OF alloc_release.IH ph(1)]) (auto simp: map_of_al_update set_held_def)
qed

lemma alloc_invD:
  assumes "alloc_inv max_allocated s" and "map_of (ba_pools (as_alloc s)) n = Some (p, h)"
  shows "n \<noteq> 0" and "pool_inv (\<lambda>m. m = n) p h (as_held s n)" and "p_mode p = growing_none"
    and "length (p_items p) = unat max_allocated div unat n"
  using assms unfolding alloc_inv_def by (auto simp: unat_div)

lemma held_in_heap: "pool_inv good p h held \<Longrightarrow> {obj. 0 < held obj} \<subseteq> {0..<length h}"
  using pool_invD(4)[of good p h held] by (auto simp: subset_iff) (metis leI less_numeral_extra(3))

lemma held_le_items:
  assumes "pool_inv good p h held"
  shows "card {obj. 0 < held obj} \<le> length (p_items p)"
  using card_mono[OF _ held_in_heap[OF assms]] pool_inv_objects_le[OF assms] by simp

lemma all_busy_items_le:
  assumes inv: "pool_inv good p h held" and busy: "all_busy p held"
  shows "length (p_items p) \<le> card {obj. 0 < held obj}"
proof -
  let ?f = "\<lambda>i. the (p_items p ! i)"
  note busy_slots_inj[OF inv busy]
  moreover have "?f ` {0..<length (p_items p)} \<subseteq> {obj. 0 < held obj}" using busy by (fastforce simp: all_busy_def)
  moreover have "finite {obj. 0 < held obj}" using held_in_heap[OF inv] finite_subset by blast
  ultimately have "card {0..<length (p_items p)} \<le> card {obj. 0 < held obj}" by (rule card_inj_on_le)
  then show ?thesis by simp
qed

lemma alloc_inv_held_le:
  assumes inv: "alloc_inv max_allocated s"
  shows "unat n * card {obj. 0 < as_held s n obj} \<le> unat max_allocated"
proof (cases "map_of (ba_pools (as_alloc s)) n")
  case None
  with inv show ?thesis by (simp add: alloc_inv_def)
next
  case (Some ph)
  then obtain p h where "map_of (ba_pools (as_alloc s)) n = Some (p, h)" by (cases ph) auto
  note alloc_invD(2,4)[OF inv this]
  with held_le_items have "card {obj. 0 < as_held s n obj} \<le> unat max_allocated div unat n" by metis
  then show ?thesis by (metis mult_le_mono2 order_trans times_div_less_eq_dividend)
qed

section \<open>Lemmas on the safe buffer\<close>

lemma sb_check:
  assumes "length buf < 2 ^ 64" and "unat n + unat offset < 2 ^ 64"
  shows "n + offset > sb_size buf \<longleftrightarrow> length buf < unat n + unat offset"
  using assms by (simp add: sb_size_def word_less_nat_alt unat_word_ariths unsigned_of_nat take_bit_nat_eq_self)

lemma safe_read_inside:
  assumes "length buf < 2 ^ 64" and "unat offset + unat n \<le> length buf" and "0 < unat n" and "unat n \<le> length data"
  shows "safe_read_to buf data n offset =
           Inr (True, take (unat n) (drop (unat offset) buf) @ drop (unat n) data)"
  using assms sb_check[of buf n offset] by (simp add: safe_read_to_def elem_addr_def mem_read_def mem_write_def)

lemma safe_write_inside:
  assumes "length buf < 2 ^ 64" and "unat offset + unat n \<le> length buf" and "0 < unat n" and "unat n \<le> length data"
  shows "safe_write_from buf data n offset =
           Inr (True, take (unat offset) buf @ take (unat n) data @ drop (unat offset + unat n) buf)"
  using assms sb_check[of buf n offset] by (simp add: safe_write_from_def elem_addr_def mem_read_def mem_write_def)

lemma safe_write_length: "safe_write_from buf data n offset = Inr (ok, buf') \<Longrightarrow> length buf' = length buf"
  by (auto simp: safe_write_from_def res_simps split: if_splits dest: mem_write_length)

lemma hex_pair_text:
  assumes "i < length bs"
  shows "hex_pair (hex_text bs @ rest) (2 * i) = Inr (bs ! i)"
proof -
  have "hex_text bs ! (2 * i) = hex_digit (unat (bs ! i) div 16) \<and> hex_text bs ! (2 * i + 1) = hex_digit (unat (bs ! i) mod 16)"
    using assms
  proof (induction bs arbitrary: i)
    case Nil
    then show ?case by simp
  next
    case (Cons b bs)
    then show ?case by (cases i) (auto simp: hex_text_def print_02hhX_def)
  qed
  moreover have "2 * i + 1 < length (hex_text bs)" using assms by simp
  ultimately show ?thesis
    using hex_char2int_digit[OF nibbles_less(1)[of "bs ! i"]] hex_char2int_digit[OF nibbles_less(2)[of "bs ! i"]]
    by (simp add: hex_pair_def c_char_def nth_append byte_nibbles)
qed

lemma write_hex_loop_text:
  assumes "length bs = length buf" and "k \<le> length buf"
  shows "write_hex_loop (hex_text bs) [k..<length buf] buf = (take k buf @ drop k bs, None)"
  using assms
proof (induction "length buf - k" arbitrary: k buf)
  case 0
  then show ?case by simp
next
  case (Suc d)
  then have k: "k < length buf" by simp
  then have "write_hex_loop (hex_text bs) [k..<length buf] buf =
      write_hex_loop (hex_text bs) [Suc k..<length buf] (buf[k := bs ! k])"
    using hex_pair_text[of k bs "[]"] Suc.prems by (simp add: upt_conv_Cons)
  moreover have "take (Suc k) (buf[k := bs ! k]) @ drop (Suc k) bs = take k buf @ drop k bs"
    using k Suc.prems(1) by (simp add: take_Suc_conv_app_nth Cons_nth_drop_Suc)
  ultimately show ?case using Suc.hyps(1)[of "buf[k := bs ! k]" "Suc k"] Suc.hyps(2) Suc.prems k by simp
qed

lemma write_hex_loop_short:
  assumes "length bs < length buf" and "k \<le> length bs"
  shows "write_hex_loop (hex_text bs) [k..<length buf] buf =
           (take k buf @ drop k bs @ drop (length bs) buf, Some (Throws (Invalid_argument ''Invalid input string'')))"
  using assms
proof (induction "length bs - k" arbitrary: k buf)
  case 0
  then have "k = length bs" by simp
  with 0 show ?case
    by (simp add: upt_conv_Cons hex_pair_def c_char_def hex_char2int_def char_in_def)
next
  case (Suc d)
  then have k: "k < length bs" "k < length buf" by simp_all
  then have "write_hex_loop (hex_text bs) [k..<length buf] buf =
      write_hex_loop (hex_text bs) [Suc k..<length buf] (buf[k := bs ! k])"
    using hex_pair_text[of k bs "[]"] by (simp add: upt_conv_Cons)
  moreover have "take (Suc k) (buf[k := bs ! k]) @ drop (Suc k) bs = take k buf @ drop k bs"
    using k by (simp add: take_Suc_conv_app_nth Cons_nth_drop_Suc)
  ultimately show ?case using Suc.hyps(1)[of "Suc k" "buf[k := bs ! k]"] Suc.hyps(2) Suc.prems k by simp
qed

section \<open>Properties\<close>

text \<open>C26. The allocator keeps its promises for every buffer size that is not zero, in every state that it and its users can
  reach. It never fails; a buffer that it returns has the requested size and is held by nobody else; buffers of one size
  that are in use never take more memory than the configured maximum; and it refuses a buffer only when as many
  buffers of this size are in use as fit into the maximum.\<close>

theorem allocator_exclusive_and_bounded:
  assumes "alloc_reach max_allocated lazy s" and "n \<noteq> 0"
  shows "unat n * card {obj. 0 < as_held s n obj} \<le> unat max_allocated \<and>
         (case allocate n (as_alloc s) of
            Inl e \<Rightarrow> False
          | Inr (Some obj, a) \<Rightarrow>
              as_held s n obj = 0 \<and> (\<exists>p h. map_of (ba_pools a) n = Some (p, h) \<and> h ! obj = (2, n))
          | Inr (None, a) \<Rightarrow> card {obj. 0 < as_held s n obj} = unat max_allocated div unat n)"
proof -
  note inv = alloc_reach_inv[OF assms(1)]
  from allocate_spec[OF inv assms(2)] obtain item a p' h' where a: "allocate n (as_alloc s) = Inr (item, a)"
    and p': "map_of (ba_pools a) n = Some (p', h')"
    and c: "case item of
              Some obj \<Rightarrow> as_held s n obj = 0 \<and> obj < length h' \<and>
                alloc_inv max_allocated \<lparr>as_alloc = a, as_held = set_held n obj 1 (as_held s)\<rparr>
            | None \<Rightarrow> alloc_inv max_allocated (s\<lparr>as_alloc := a\<rparr>) \<and> all_busy p' (as_held s n)"
    by blast
  show ?thesis
  proof (cases item)
    case None
    with c p' have "pool_inv (\<lambda>m. m = n) p' h' (as_held s n)" "length (p_items p') = unat max_allocated div unat n"
      by (auto simp: alloc_inv_def unat_div)
    with held_le_items[of _ p' h'] all_busy_items_le[of _ p' h'] None c
    have "card {obj. 0 < as_held s n obj} = unat max_allocated div unat n" by fastforce
    with a None alloc_inv_held_le[OF inv] show ?thesis by simp
  next
    case (Some obj)
    with c p' have "pool_inv (\<lambda>m. m = n) p' h' ((as_held s n)(obj := 1))"
      using alloc_invD(2)[of max_allocated _ n p' h'] by (fastforce simp: set_held_def)
    from pool_invD(3)[OF this, of obj] Some c have "h' ! obj = (2, n)" by (auto intro: prod_eqI)
    with a Some p' c alloc_inv_held_le[OF inv] show ?thesis by simp
  qed
qed

theorem allocator_exclusive_and_bounded_witness:
  "case allocate 16 (buffer_allocator_create 40 True) of
     Inl e \<Rightarrow> False
   | Inr (Some obj, a) \<Rightarrow> \<exists>p h. map_of (ba_pools a) 16 = Some (p, h) \<and> h ! obj = (2, 16)
   | Inr (None, a) \<Rightarrow> False"
  using allocator_exclusive_and_bounded[OF alloc_start[of 40 True], of 16]
  by (auto split: sum.splits option.splits)

text \<open>A request for a buffer of size zero divides by zero before the size is tested.\<close>

theorem allocate_zero_divides: "allocate 0 (buffer_allocator_create max_allocated lazy) = Inl Undefined"
  by (simp add: allocate_def buffer_allocator_create_def size_div_def)

text \<open>The bounds of the safe buffer are exact for requests whose end can be represented at 64 bits: inside of the buffer
  what is written is read back and every disjoint range keeps its contents, outside of it reading and writing are refused
  and change nothing. The memory of the caller has to hold the number of bytes requested.\<close>

theorem safe_buffer_write_read:
  assumes "length buf < 2 ^ 64" and "0 < unat n" and "unat n \<le> length data" and "unat n + unat offset < 2 ^ 64"
  shows "if unat offset + unat n \<le> length buf
         then \<exists>buf'. safe_write_from buf data n offset = Inr (True, buf') \<and> length buf' = length buf \<and>
                safe_read_to buf' data' n offset = res_map (\<lambda>d. (True, d)) (mem_write data' 0 (take (unat n) data)) \<and>
                (\<forall>i k. i + k \<le> unat offset \<or> unat offset + unat n \<le> i \<longrightarrow> mem_read buf' i k = mem_read buf i k)
         else safe_write_from buf data n offset = Inr (False, buf) \<and> safe_read_to buf data' n offset = Inr (False, data')"
proof (cases "unat offset + unat n \<le> length buf")
  case True
  let ?buf' = "take (unat offset) buf @ take (unat n) data @ drop (unat offset + unat n) buf"
  have w: "mem_write buf (unat offset) (take (unat n) data) = Inr ?buf'" using True assms(3) by (simp add: mem_write_def)
  have len: "length ?buf' = length buf" using mem_write_length[OF w] .
  have "safe_read_to ?buf' data' n offset = res_map (\<lambda>d. (True, d)) (mem_write data' 0 (take (unat n) data))"
    using sb_check[of ?buf' n offset] len assms True mem_write_read_same[OF w] by (simp add: safe_read_to_def elem_addr_def)
  then show ?thesis
    using True safe_write_inside[OF assms(1) True assms(2,3)] len assms(3)
      mem_write_read_below[OF w] mem_write_read_above[OF w] by (auto simp: min_absorb2)
next
  case False
  then show ?thesis using sb_check[OF assms(1,4)] by (simp add: safe_write_from_def safe_read_to_def)
qed

theorem safe_buffer_write_read_witness:
  "\<exists>buf'. safe_write_from [0, 0, 0] [7, 8] 2 1 = Inr (True, buf') \<and>
     safe_read_to buf' [1, 1] 2 1 = res_map (\<lambda>d. (True, d)) (mem_write [1, 1] 0 [7, 8])"
  using safe_buffer_write_read[of "[0, 0, 0]" 2 "[7, 8]" 1 "[1, 1]"] by auto

text \<open>The end of a request is computed at 64 bits and wraps around: for every offset but zero there is a
  length that passes the test of the safe buffer and of a window although it leads out of the buffer.\<close>

theorem safe_buffer_check_wraps:
  assumes "0 < unat offset" and "unat offset < length buf" and "length buf < 2 ^ 63"
  shows "safe_read_to buf data (- offset) offset = Inl Undefined \<and>
         (\<exists>b. relative_buffer_create (Some buf) offset (- offset) = Inr b \<and> relative_buffer_contents b = Inl Undefined)"
proof -
  have "offset \<noteq> 0" using assms(1) by auto
  then have "unat (- offset) = 2 ^ 64 - unat offset"
    using unat_sub_if_size[of 0 offset] assms(1) by (simp add: word_size)
  with assms show ?thesis
    by (simp add: safe_read_to_def elem_addr_def mem_read_def relative_buffer_create_def relative_buffer_contents_def)
qed

theorem safe_buffer_check_wraps_witness:
  "safe_read_to [0, 0] [] (- 1) 1 = Inl Undefined \<and>
   (\<exists>b. relative_buffer_create (Some [0, 0]) 1 (- 1) = Inr b \<and> relative_buffer_contents b = Inl Undefined)"
  using safe_buffer_check_wraps[of 1 "[0, 0]" "[]"] by simp

text \<open>Hexadecimal text is accepted when it is not longer than the buffer. Text of the length of the buffer fills it with
  the bytes it stands for; shorter text is written, and then the loop, which runs over the buffer and not over the
  text, reaches the end of the text and throws.\<close>

theorem safe_write_hex_needs_full_length:
  assumes "length bs \<le> length buf"
  shows "safe_write_hex buf (Some (hex_text bs)) =
           (bs @ drop (length bs) buf,
            if length bs = length buf then None else Some (Throws (Invalid_argument ''Invalid input string'')))"
proof -
  have loop: "safe_write_hex buf (Some (hex_text bs)) = write_hex_loop (hex_text bs) [0..<length buf] buf"
    using assms by (simp add: safe_write_hex_def)
  show ?thesis
  proof (cases "length bs = length buf")
    case True
    with loop write_hex_loop_text[OF True, of 0] show ?thesis by simp
  next
    case False
    with loop assms write_hex_loop_short[of bs buf 0] show ?thesis by simp
  qed
qed

theorem safe_write_hex_needs_full_length_witness:
  "safe_write_hex [0, 0] (Some (hex_text [0xAB])) = ([0xAB, 0], Some (Throws (Invalid_argument ''Invalid input string'')))"
  using safe_write_hex_needs_full_length[of "[0xAB]" "[0, 0]"] by simp

end
