(* ===== verification/Binary_Parser.thy ===== *)
theory Binary_Parser
  imports Binary_Metadata Buffers
begin

text \<open>
  The binary parser (\<^verbatim>\<open>Modules/parsers/binary_parser/binary_parser_impl.cpp\<close>): typed access to the fields of a
  message in a shared buffer, as its description says. A parser of a nested structure is a parser of its own with the
  same buffer and an offset.

  Buffers are kept in a store and parsers refer to them by number, since nested parsers share the buffer of the parser
  that made them and \<^verbatim>\<open>parse\<close> can exchange the buffer of one of them. Memory of the caller is a byte list; operations
  return whether they succeeded together with what they wrote to. A child parser that the map of nested
  parsers holds can be a null pointer. The conversions to and from JSON are not part of this theory.
\<close>

section \<open>Loops that can fail\<close>

fun res_all :: "('a \<Rightarrow> bool result) \<Rightarrow> 'a list \<Rightarrow> bool result" where
  "res_all f [] = Inr True"
| "res_all f (x # xs) = res_bind (f x) (\<lambda>ok. if ok then res_all f xs else Inr False)"

fun res_fold :: "('a \<Rightarrow> 's \<Rightarrow> 's result) \<Rightarrow> 'a list \<Rightarrow> 's \<Rightarrow> 's result" where
  "res_fold f [] s = Inr s"
| "res_fold f (x # xs) s = res_bind (f x s) (res_fold f xs)"

lemma res_all_cong [fundef_cong]:
  "xs = ys \<Longrightarrow> (\<And>x. x \<in> set ys \<Longrightarrow> f x = g x) \<Longrightarrow> res_all f xs = res_all g ys"
  by (induction ys arbitrary: xs) (auto cong: if_cong)

lemma res_fold_cong [fundef_cong]:
  "xs = ys \<Longrightarrow> s = t \<Longrightarrow> (\<And>x u. x \<in> set ys \<Longrightarrow> f x u = g x u) \<Longrightarrow> res_fold f xs s = res_fold g ys t"
proof (induction ys arbitrary: xs s t)
  case (Cons y ys)
  have "res_fold f ys = res_fold g ys" using Cons.IH[OF refl refl] Cons.prems(3) by (auto simp: fun_eq_iff)
  with Cons.prems show ?case by simp
qed simp

lemma res_bind_cong [fundef_cong]:
  "r = r' \<Longrightarrow> (\<And>x. r' = Inr x \<Longrightarrow> f x = g x) \<Longrightarrow> res_bind r f = res_bind r' g"
  by (cases r') auto

section \<open>Parsers\<close>

type_synonym buffers = "bytes list"

datatype parser =
  Parser (p_metadata: binary_metadata) (p_buffer: nat) (p_offset: size_t) (p_parsers: "(string \<times> parser option) list")

text \<open>
  Construction: every nested structure and array gets a parser. A name that occurs twice replaces the parser of
  its first occurrence by a null pointer; a node without nested description ends the construction.
\<close>

fun new_parser :: "binary_metadata \<Rightarrow> nat \<Rightarrow> size_t \<Rightarrow> parser"
and parse_nested :: "binary_node list \<Rightarrow> nat \<Rightarrow> size_t \<Rightarrow> (string \<times> parser option) list \<Rightarrow> (string \<times> parser option) list" where
  "new_parser (Metadata nm be nodes sz) b off = Parser (Metadata nm be nodes sz) b off (parse_nested nodes b off [])"
| "parse_nested [] b off m = m"
| "parse_nested (Node a nest # ns) b off m =
     (if n_type a = COMPLEX \<or> n_type a = ARRAY
      then (if map_of m (n_name a) = None
            then (case nest of
                    None \<Rightarrow> m
                  | Some md \<Rightarrow> parse_nested ns b off (m @ [(n_name a, Some (new_parser md b (off + n_offset a)))]))
            else parse_nested ns b off (al_update (n_name a) (\<lambda>_. None) m))
      else parse_nested ns b off m)"

text \<open>The buffer of a new parser is the next one of the store.\<close>

definition parser_create :: "binary_metadata \<Rightarrow> buffers \<Rightarrow> parser \<times> buffers" where
  "parser_create md h = (new_parser md (length h) 0, h @ [sb_create (md_size md)])"

definition buffer_of :: "buffers \<Rightarrow> parser \<Rightarrow> bytes" where
  "buffer_of h p = h ! p_buffer p"

definition set_buffer :: "parser \<Rightarrow> bytes \<Rightarrow> buffers \<Rightarrow> buffers" where
  "set_buffer p buf h = h[p_buffer p := buf]"

section \<open>Reading and writing by node\<close>

definition read_from_buffer :: "buffers \<Rightarrow> parser \<Rightarrow> bytes \<Rightarrow> size_t \<Rightarrow> size_t \<Rightarrow> bool \<Rightarrow> (bool \<times> bytes) result" where
  "read_from_buffer h p data n offset big_endian =
     res_map (\<lambda>(ok, d). (ok, if ok then convert_endian big_endian (unat n) d else d))
       (safe_read_to (buffer_of h p) data n offset)"

text \<open>The virtual methods \<^verbatim>\<open>read\<close> and \<^verbatim>\<open>write\<close> of a node; bit fields override them.\<close>

definition virtual_read :: "node_attr \<Rightarrow> bytes \<Rightarrow> size_t \<Rightarrow> bytes \<Rightarrow> size_t \<Rightarrow> (bool \<times> bytes) result" where
  "virtual_read a data n buffer buffer_size =
     (case n_bits a of
        None \<Rightarrow> node_read a data n buffer buffer_size
      | Some (bits, boff) \<Rightarrow> bit_node_read a (unat bits) (unat boff) data n buffer buffer_size)"

definition virtual_write :: "node_attr \<Rightarrow> bytes \<Rightarrow> size_t \<Rightarrow> bytes \<Rightarrow> size_t \<Rightarrow> (bool \<times> bytes \<times> bytes) result" where
  "virtual_write a data n buffer buffer_size =
     (case n_bits a of
        None \<Rightarrow> node_write a data n buffer buffer_size
      | Some (bits, boff) \<Rightarrow> bit_node_write a (unat bits) (unat boff) data n buffer buffer_size)"

text \<open>The unit of a bit field is copied to a variable of eight bytes.\<close>

definition read_bits_by_node :: "buffers \<Rightarrow> parser \<Rightarrow> bytes \<Rightarrow> size_t \<Rightarrow> node_attr \<Rightarrow> (bool \<times> bytes) result" where
  "read_bits_by_node h p data n a =
     res_bind (safe_read_to (buffer_of h p) (replicate 8 0) (n_size a) (p_offset p + n_offset a)) (\<lambda>(ok, bit_node_data).
       if \<not> ok then Inr (False, data) else virtual_read a data n bit_node_data (n_size a))"

definition read_by_node :: "buffers \<Rightarrow> parser \<Rightarrow> bytes \<Rightarrow> size_t \<Rightarrow> node_attr \<Rightarrow> (bool \<times> bytes) result" where
  "read_by_node h p data n a =
     (if n > n_size a then Inr (False, data)
      else if n_type a = BITMAP then read_bits_by_node h p data n a
      else read_from_buffer h p data n (p_offset p + n_offset a) (n_big_endian a))"

definition write_bits_by_node :: "buffers \<Rightarrow> parser \<Rightarrow> bytes \<Rightarrow> size_t \<Rightarrow> node_attr \<Rightarrow> (bool \<times> bytes \<times> buffers) result" where
  "write_bits_by_node h p data n a =
     (let offset = p_offset p + n_offset a in
      res_bind (safe_read_to (buffer_of h p) (replicate 8 0) (n_size a) offset) (\<lambda>(ok, bit_node_data).
        if \<not> ok then Inr (False, data, h)
        else res_bind (virtual_write a data n bit_node_data (n_size a)) (\<lambda>(ok, d, bit_node_data).
               if \<not> ok then Inr (False, d, h)
               else res_map (\<lambda>(ok, buf). (ok, d, set_buffer p buf h))
                      (safe_write_from (buffer_of h p) bit_node_data (n_size a) offset))))"

definition write_by_node :: "buffers \<Rightarrow> parser \<Rightarrow> bytes \<Rightarrow> size_t \<Rightarrow> node_attr \<Rightarrow> (bool \<times> bytes \<times> buffers) result" where
  "write_by_node h p data n a =
     (if n > n_size a then Inr (False, data, h)
      else if n_type a = BITMAP then write_bits_by_node h p data n a
      else res_map (\<lambda>(ok, buf). (ok, data, set_buffer p buf h))
             (safe_write_from (buffer_of h p) data n (p_offset p + n_offset a)))"

section \<open>Access to fields\<close>

definition read_simple_by_index :: "buffers \<Rightarrow> parser \<Rightarrow> nat \<Rightarrow> bytes \<Rightarrow> size_t \<Rightarrow> (bool \<times> bytes) result" where
  "read_simple_by_index h p index data n =
     (case query_node_by_index index (p_metadata p) of
        None \<Rightarrow> Inr (False, data)
      | Some node \<Rightarrow> read_by_node h p data n (n_attr node))"

definition read_simple :: "buffers \<Rightarrow> parser \<Rightarrow> string option \<Rightarrow> bytes \<Rightarrow> size_t \<Rightarrow> (bool \<times> bytes) result" where
  "read_simple h p name data n =
     (case name of
        None \<Rightarrow> Inr (False, data)
      | Some nm \<Rightarrow>
          (case query_node nm (p_metadata p) of
             None \<Rightarrow> Inr (False, data)
           | Some node \<Rightarrow> read_by_node h p data n (n_attr node)))"

definition read_enum_by_node :: "buffers \<Rightarrow> parser \<Rightarrow> size_t \<Rightarrow> node_attr \<Rightarrow> int64 option result" where
  "read_enum_by_node h p n a =
     (if unat n \<in> {1, 2, 4, 8}
      then res_map (\<lambda>(ok, d). if ok then Some (of_int (read_signed (unat n) d)) else None)
             (read_by_node h p (replicate (unat n) 0) n a)
      else Inr None)"

definition enum_item :: "node_attr \<Rightarrow> int64 \<Rightarrow> (string \<times> int64) option" where
  "enum_item a val = (case n_enum a of Some e \<Rightarrow> item_by_val val e | None \<Rightarrow> Some ([], val))"

text \<open>By name the field is read with the size of \<^verbatim>\<open>int64_t\<close>, by index with its own size.\<close>

definition read_enum :: "buffers \<Rightarrow> parser \<Rightarrow> string option \<Rightarrow> (string \<times> int64) option result" where
  "read_enum h p name =
     (case name of
        None \<Rightarrow> Inr None
      | Some nm \<Rightarrow>
          (case query_node nm (p_metadata p) of
             None \<Rightarrow> Inr None
           | Some node \<Rightarrow>
               let a = n_attr node in
               if n_type a \<noteq> ENUM \<or> n_size a > 8 then Inr None
               else res_map (\<lambda>v. case v of None \<Rightarrow> None | Some val \<Rightarrow> enum_item a val) (read_enum_by_node h p 8 a)))"

definition read_enum_by_index :: "buffers \<Rightarrow> parser \<Rightarrow> nat \<Rightarrow> (string \<times> int64) option result" where
  "read_enum_by_index h p index =
     (case query_node_by_index index (p_metadata p) of
        None \<Rightarrow> Inr None
      | Some node \<Rightarrow>
          let a = n_attr node in
          if n_type a \<noteq> ENUM \<or> n_size a > 8 then Inr None
          else res_map (\<lambda>v. case v of None \<Rightarrow> None | Some val \<Rightarrow> enum_item a val) (read_enum_by_node h p (n_size a) a))"

definition read_string :: "buffers \<Rightarrow> parser \<Rightarrow> string \<Rightarrow> bytes \<Rightarrow> size_t \<Rightarrow> (bool \<times> bytes) result" where
  "read_string h p name str len =
     (case query_node name (p_metadata p) of
        None \<Rightarrow> Inr (False, str)
      | Some node \<Rightarrow>
          if n_size (n_attr node) > len then Inr (False, str) else read_by_node h p str (n_size (n_attr node)) (n_attr node))"

definition read_string_by_index :: "buffers \<Rightarrow> parser \<Rightarrow> nat \<Rightarrow> bytes \<Rightarrow> size_t \<Rightarrow> (bool \<times> bytes) result" where
  "read_string_by_index h p index str len =
     (case query_node_by_index index (p_metadata p) of
        None \<Rightarrow> Inr (False, str)
      | Some node \<Rightarrow>
          if n_size (n_attr node) > len then Inr (False, str) else read_by_node h p str (n_size (n_attr node)) (n_attr node))"

text \<open>Nothing is returned when there is no such parser; a null pointer in the map is dereferenced.\<close>

definition read_complex :: "parser \<Rightarrow> string option \<Rightarrow> parser option result" where
  "read_complex p name =
     (case name of
        None \<Rightarrow> Inr None
      | Some nm \<Rightarrow>
          (case map_of (p_parsers p) nm of
             None \<Rightarrow> Inr None
           | Some None \<Rightarrow> Inl Undefined
           | Some (Some c) \<Rightarrow> Inr (Some c)))"

definition read_complex_by_index :: "parser \<Rightarrow> nat \<Rightarrow> parser option result" where
  "read_complex_by_index p index =
     (case query_node_by_index index (p_metadata p) of
        None \<Rightarrow> Inr None
      | Some node \<Rightarrow> read_complex p (Some (n_name (n_attr node))))"

text \<open>The first node of the nested description, which describes the elements of an array.\<close>

definition element_node :: "binary_node \<Rightarrow> binary_node option result" where
  "element_node node =
     (case n_nested node of None \<Rightarrow> Inl Undefined | Some m \<Rightarrow> Inr (query_node_by_index 0 m))"

text \<open>
  The attributes of an array: the returned truth value, and the size, number and type of elements if they are set.
\<close>

definition read_array_attributes :: "parser \<Rightarrow> string \<Rightarrow> (bool \<times> (size_t \<times> size_t \<times> type_enum) option) result" where
  "read_array_attributes p name =
     (case query_node name (p_metadata p) of
        None \<Rightarrow> Inr (True, None)
      | Some node \<Rightarrow>
          if n_type (n_attr node) \<noteq> ARRAY then Inr (False, None)
          else res_map (\<lambda>child. case child of
                   None \<Rightarrow> (False, None)
                 | Some c \<Rightarrow> (True, Some (n_size (n_attr c), n_count (n_attr node), n_type (n_attr c))))
                 (element_node node))"

definition read_array_attributes_by_index :: "parser \<Rightarrow> nat \<Rightarrow> (bool \<times> (size_t \<times> size_t \<times> type_enum) option) result" where
  "read_array_attributes_by_index p index =
     (case query_node_by_index index (p_metadata p) of
        None \<Rightarrow> Inr (True, None)
      | Some node \<Rightarrow>
          if n_type (n_attr node) \<noteq> ARRAY then Inr (False, None)
          else res_map (\<lambda>r. case r of
                   None \<Rightarrow> (True, None)
                 | Some c \<Rightarrow>
                     (case query_node_by_index 0 (p_metadata c) of
                        None \<Rightarrow> (False, None)
                      | Some child \<Rightarrow> (True, Some (n_size (n_attr child), n_count (n_attr node), n_type (n_attr child)))))
                 (read_complex_by_index p index))"

text \<open>
  Elements of an array of simple values. The array index is not compared with the number of elements. Reading uses the
  buffer of the nested parser, writing that of the parser itself, and writing reports success in any case.
\<close>

definition read_at :: "buffers \<Rightarrow> parser \<Rightarrow> string \<Rightarrow> bytes \<Rightarrow> size_t \<Rightarrow> size_t \<Rightarrow> (bool \<times> bytes) result" where
  "read_at h p name data n array_index =
     (case map_of (p_parsers p) name of
        None \<Rightarrow> Inr (False, data)
      | Some None \<Rightarrow> Inl Undefined
      | Some (Some c) \<Rightarrow>
          (case query_node_by_index 0 (p_metadata c) of
             None \<Rightarrow> Inl Undefined
           | Some child \<Rightarrow>
               if n_type (n_attr child) \<noteq> COMPLEX
               then read_from_buffer h c data n (p_offset c + array_index * n_size (n_attr child)) (n_big_endian (n_attr child))
               else Inr (False, data)))"

definition read_at_by_index :: "buffers \<Rightarrow> parser \<Rightarrow> nat \<Rightarrow> bytes \<Rightarrow> size_t \<Rightarrow> size_t \<Rightarrow> (bool \<times> bytes) result" where
  "read_at_by_index h p index data n array_index =
     (case query_node_by_index index (p_metadata p) of
        None \<Rightarrow> Inr (False, data)
      | Some node \<Rightarrow> read_at h p (n_name (n_attr node)) data n array_index)"

definition write_at :: "buffers \<Rightarrow> parser \<Rightarrow> string \<Rightarrow> bytes \<Rightarrow> size_t \<Rightarrow> size_t \<Rightarrow> (bool \<times> buffers) result" where
  "write_at h p name data n index =
     (case map_of (p_parsers p) name of
        None \<Rightarrow> Inr (False, h)
      | Some None \<Rightarrow> Inl Undefined
      | Some (Some c) \<Rightarrow>
          (case query_node_by_index 0 (p_metadata c) of
             None \<Rightarrow> Inl Undefined
           | Some child \<Rightarrow>
               if n_type (n_attr child) \<noteq> COMPLEX
               then res_map (\<lambda>(ok, buf). (True, set_buffer p buf h))
                      (safe_write_from (buffer_of h p) data n (p_offset c + index * n_size (n_attr child)))
               else Inr (False, h)))"

definition write_at_by_index :: "buffers \<Rightarrow> parser \<Rightarrow> nat \<Rightarrow> bytes \<Rightarrow> size_t \<Rightarrow> size_t \<Rightarrow> (bool \<times> buffers) result" where
  "write_at_by_index h p index data n array_index =
     (case query_node_by_index index (p_metadata p) of
        None \<Rightarrow> Inr (False, h)
      | Some node \<Rightarrow> write_at h p (n_name (n_attr node)) data n array_index)"

text \<open>
  Elements of an array of structures: a new parser for every access. By name the offset of the parser itself is missing.
\<close>

definition element_metadata :: "binary_node \<Rightarrow> binary_metadata result" where
  "element_metadata node =
     res_bind (element_node node) (\<lambda>child.
       case child of
         None \<Rightarrow> Inl Undefined
       | Some c \<Rightarrow> (case n_nested c of None \<Rightarrow> Inl Undefined | Some m \<Rightarrow> Inr m))"

definition element_size :: "binary_node \<Rightarrow> size_t" where
  "element_size node =
     (case element_node node of Inr (Some c) \<Rightarrow> n_size (n_attr c) | _ \<Rightarrow> 0)"

definition read_complex_at :: "parser \<Rightarrow> string \<Rightarrow> size_t \<Rightarrow> parser option result" where
  "read_complex_at p name array_index =
     (case query_node name (p_metadata p) of
        None \<Rightarrow> Inr None
      | Some node \<Rightarrow>
          if n_count (n_attr node) \<le> array_index then Inr None
          else res_map (\<lambda>m. Some (new_parser m (p_buffer p) (n_offset (n_attr node) + element_size node * array_index)))
                 (element_metadata node))"

definition read_complex_at_by_index :: "parser \<Rightarrow> nat \<Rightarrow> size_t \<Rightarrow> parser option result" where
  "read_complex_at_by_index p index array_index =
     (case query_node_by_index index (p_metadata p) of
        None \<Rightarrow> Inr None
      | Some node \<Rightarrow>
          if n_count (n_attr node) \<le> array_index then Inr None
          else res_map (\<lambda>m. Some (new_parser m (p_buffer p) (p_offset p + n_offset (n_attr node) + element_size node * array_index)))
                 (element_metadata node))"

definition write_field :: "buffers \<Rightarrow> parser \<Rightarrow> string option \<Rightarrow> bytes option \<Rightarrow> size_t \<Rightarrow> (bool \<times> buffers) result" where
  "write_field h p name data n =
     (case (name, data) of
        (Some nm, Some d) \<Rightarrow>
          (case query_node nm (p_metadata p) of
             None \<Rightarrow> Inr (False, h)
           | Some node \<Rightarrow>
               if n_type (n_attr node) \<noteq> BITMAP \<and> n \<noteq> n_size (n_attr node) then Inr (False, h)
               else res_map (\<lambda>(ok, _, h'). (ok, h')) (write_by_node h p d n (n_attr node)))
      | _ \<Rightarrow> Inr (False, h))"

definition write_field_by_index :: "buffers \<Rightarrow> parser \<Rightarrow> nat \<Rightarrow> bytes option \<Rightarrow> size_t \<Rightarrow> type_enum \<Rightarrow> (bool \<times> buffers) result" where
  "write_field_by_index h p index data n type =
     (case query_node_by_index index (p_metadata p) of
        None \<Rightarrow> Inr (False, h)
      | Some node \<Rightarrow>
          (case data of
             None \<Rightarrow> Inr (False, h)
           | Some d \<Rightarrow>
               if type \<noteq> n_type (n_attr node) then Inr (False, h)
               else res_map (\<lambda>(ok, _, h'). (ok, h')) (write_by_node h p d n (n_attr node))))"

definition string_bytes :: "string \<Rightarrow> bytes" where
  "string_bytes s = map (\<lambda>c. of_nat (of_char c)) s @ [0]"

definition write_string_node :: "buffers \<Rightarrow> parser \<Rightarrow> binary_node \<Rightarrow> string \<Rightarrow> (bool \<times> buffers) result" where
  "write_string_node h p node data =
     (if n_type (n_attr node) \<noteq> STRING then Inr (False, h)
      else let n = of_nat (length data) + 1 in
           if n > n_size (n_attr node) then Inr (False, h)
           else res_map (\<lambda>(ok, _, h'). (ok, h')) (write_by_node h p (string_bytes data) n (n_attr node)))"

definition write_string :: "buffers \<Rightarrow> parser \<Rightarrow> string option \<Rightarrow> string option \<Rightarrow> (bool \<times> buffers) result" where
  "write_string h p name data =
     (case (name, data) of
        (Some nm, Some d) \<Rightarrow>
          (case query_node nm (p_metadata p) of None \<Rightarrow> Inr (False, h) | Some node \<Rightarrow> write_string_node h p node d)
      | _ \<Rightarrow> Inr (False, h))"

definition write_string_by_index :: "buffers \<Rightarrow> parser \<Rightarrow> nat \<Rightarrow> string option \<Rightarrow> (bool \<times> buffers) result" where
  "write_string_by_index h p index data =
     (case data of
        None \<Rightarrow> Inr (False, h)
      | Some d \<Rightarrow>
          (case query_node_by_index index (p_metadata p) of None \<Rightarrow> Inr (False, h) | Some node \<Rightarrow> write_string_node h p node d))"

section \<open>Whole messages\<close>

definition parse_data :: "buffers \<Rightarrow> parser \<Rightarrow> bytes \<Rightarrow> size_t \<Rightarrow> (bool \<times> buffers) result" where
  "parse_data h p data n =
     (if md_size (p_metadata p) \<noteq> n \<or> n \<noteq> sb_size (buffer_of h p) then Inr (False, h)
      else res_map (\<lambda>(_, buf). (True, set_buffer p buf h)) (safe_write_from (buffer_of h p) data n (p_offset p)))"

text \<open>Exchanging the buffer: the nested parsers keep the old one.\<close>

definition parse_buffer :: "buffers \<Rightarrow> parser \<Rightarrow> nat \<Rightarrow> bool \<times> parser" where
  "parse_buffer h p b =
     (if md_size (p_metadata p) \<noteq> sb_size (h ! b) then (False, p)
      else (True, Parser (p_metadata p) b (p_offset p) (p_parsers p)))"

text \<open>\<^verbatim>\<open>std::stol\<close> in base 16 on a text of at most two characters, which is too short for a prefix.\<close>

definition hex_value :: "char \<Rightarrow> nat option" where
  "hex_value c = (case hex_char2int c of Inr b \<Rightarrow> Some (unat b) | Inl _ \<Rightarrow> None)"

definition stol16 :: "string \<Rightarrow> int result" where
  "stol16 str =
     (let s1 = dropWhile is_space str;
          neg = (s1 \<noteq> [] \<and> hd s1 = CHR ''-'');
          s2 = (if s1 \<noteq> [] \<and> (hd s1 = CHR ''-'' \<or> hd s1 = CHR ''+'') then tl s1 else s1);
          ds = takeWhile (\<lambda>c. hex_value c \<noteq> None) s2;
          v = int (foldl (\<lambda>acc c. acc * 16 + the (hex_value c)) 0 ds)
      in if ds = [] then Inl (Throws (Invalid_argument ''stol'')) else Inr (if neg then - v else v))"

definition substr2 :: "string \<Rightarrow> nat \<Rightarrow> string result" where
  "substr2 s offset =
     (if offset > length s then Inl (Throws (Out_of_range ''basic_string::substr'')) else Inr (take 2 (drop offset s)))"

fun hex_bytes_loop :: "string \<Rightarrow> nat \<Rightarrow> nat \<Rightarrow> bytes result" where
  "hex_bytes_loop s offset 0 = Inr []"
| "hex_bytes_loop s offset (Suc k) =
     res_bind (res_bind (substr2 s offset) stol16) (\<lambda>v.
       res_map (\<lambda>bs. of_int v # bs) (hex_bytes_loop s (offset + 2) k))"

text \<open>Every exception is caught and reported as failure.\<close>

definition parse_from_string :: "buffers \<Rightarrow> parser \<Rightarrow> string \<Rightarrow> (bool \<times> buffers) result" where
  "parse_from_string h p data =
     (let size = length (buffer_of h p) in
      if length data mod 2 \<noteq> 0 \<or> length data div 2 > size then Inr (False, h)
      else case hex_bytes_loop data 0 size of
             Inl (Throws e) \<Rightarrow> Inr (False, h)
           | Inl Undefined \<Rightarrow> Inl Undefined
           | Inr bs \<Rightarrow>
               res_map (\<lambda>(_, buf). (True, set_buffer p buf h)) (safe_write_from (buffer_of h p) bs (of_nat size) (p_offset p)))"

definition parser_nullify :: "buffers \<Rightarrow> parser \<Rightarrow> buffers" where
  "parser_nullify h p = set_buffer p (sb_nullify (buffer_of h p)) h"

section \<open>Validation\<close>

lemma size_nested: "n_nested n = Some m \<Longrightarrow> size m < size n"
  by (cases n) auto

lemma size_node: "n \<in> set (md_nodes md) \<Longrightarrow> size n < size md"
  by (cases md) (auto dest!: size_list_estimation'[of n _ "size n" size, OF _ order.refl])

lemma query_node_in: "query_node name md = Some n \<Longrightarrow> n \<in> set (md_nodes md)"
  by (auto simp: query_node_def find_Some_iff)

lemma query_by_index_in: "query_node_by_index i md = Some n \<Longrightarrow> n \<in> set (md_nodes md)"
  by (auto simp: query_node_by_index_def split: if_splits)

lemma size_element:
  assumes "element_metadata n = Inr m"
  shows "size m < size n"
proof -
  from assms obtain el c where "n_nested n = Some el" "query_node_by_index 0 el = Some c" "n_nested c = Some m"
    by (auto simp: element_metadata_def element_node_def res_simps split: option.splits)
  then show ?thesis
    using size_nested[of n el] size_node[OF query_by_index_in[of 0 el c]] size_nested[of c m] by linarith
qed

lemma size_queried_element: "query_node name md = Some n \<Longrightarrow> element_metadata n = Inr m \<Longrightarrow> size m < max (size md) k"
  using size_element[of n m] size_node[OF query_node_in[of name md n]] by linarith

text \<open>
  The data of a field is read into eight bytes without initial value; reading bytes of it that were not written is undefined.
\<close>

definition validate_simple :: "buffers \<Rightarrow> parser \<Rightarrow> node_attr \<Rightarrow> bool result" where
  "validate_simple h p a =
     res_bind (read_by_node h p (replicate VAL_SIZE 0) (n_size a) a) (\<lambda>(ok, data).
       if ok \<and> sizeof_type (n_type a) \<le> unat (n_size a) then Inr (is_in_bounds (n_options a) data (n_type a)) else Inl Undefined)"

definition reinterpret_enum :: "size_t \<Rightarrow> bytes \<Rightarrow> int64" where
  "reinterpret_enum n data =
     of_int (if unat n \<in> {1, 2, 4} then read_signed (unat n) data else read_signed 8 data)"

definition validate_enum :: "buffers \<Rightarrow> parser \<Rightarrow> node_attr \<Rightarrow> bool result" where
  "validate_enum h p a =
     res_map (\<lambda>(_, data). case n_enum a of
          None \<Rightarrow> False
        | Some e \<Rightarrow> item_by_val (reinterpret_enum (n_size a) data) e \<noteq> None)
       (read_by_node h p (replicate 8 0) (n_size a) a)"

text \<open>The elements of an array of simple values; an element that cannot be read is skipped.\<close>

definition validate_elements :: "buffers \<Rightarrow> parser \<Rightarrow> node_attr \<Rightarrow> size_t \<Rightarrow> size_t \<Rightarrow> type_enum \<Rightarrow> bool result" where
  "validate_elements h p a elem_size num_of_elements type =
     res_all (\<lambda>i. res_bind (read_at h p (n_name a) (replicate VAL_SIZE 0) elem_size (of_nat i)) (\<lambda>(ok, data).
          if \<not> ok then Inr True
          else if sizeof_type type \<le> unat elem_size then Inr (is_in_bounds (n_options a) data type) else Inl Undefined))
       [0..<unat num_of_elements]"

text \<open>
  \<^verbatim>\<open>validate\<close>. The description is passed along with the parser, whose description it is, so that the
  recursion follows the description; \<open>validate_parser\<close> is the method.
\<close>

function validate_node :: "buffers \<Rightarrow> binary_metadata \<Rightarrow> parser \<Rightarrow> binary_node \<Rightarrow> bool result"
and validate_md :: "buffers \<Rightarrow> binary_metadata \<Rightarrow> parser \<Rightarrow> bool result" where
  "validate_node h md p n =
     (let a = n_attr n in
      if is_simple_type (n_type a) then validate_simple h p a
      else if n_type a = ENUM then validate_enum h p a
      else if n_type a = COMPLEX then
        res_bind (read_complex p (Some (n_name a))) (\<lambda>r.
          case (r, n_nested n) of (Some c, Some m) \<Rightarrow> validate_md h m c | _ \<Rightarrow> Inl Undefined)
      else if n_type a = ARRAY then
        res_bind (read_array_attributes p (n_name a)) (\<lambda>(ok, attrs).
          if \<not> ok then Inr True
          else case attrs of
                 None \<Rightarrow> Inl Undefined
               | Some (elem_size, num_of_elements, type) \<Rightarrow>
                   if type = COMPLEX
                   then (case query_node (n_name a) md of
                           None \<Rightarrow> Inr True
                         | Some node \<Rightarrow>
                             res_bind (element_metadata node) (\<lambda>m.
                               res_all (\<lambda>i. validate_md h m
                                   (new_parser m (p_buffer p) (n_offset (n_attr node) + element_size node * of_nat i)))
                                 [0..<unat num_of_elements]))
                   else if is_simple_type type then validate_elements h p a elem_size num_of_elements type
                   else Inr True)
      else Inr True)"
| "validate_md h md p = res_all (validate_node h md p) (md_nodes md)"
  by pat_completeness auto
termination
proof (relation "measures [\<lambda>x. case x of Inl (h, md, p, n) \<Rightarrow> max (size md) (size n) | Inr (h, md, p) \<Rightarrow> size md,
                           \<lambda>x. case x of Inl _ \<Rightarrow> 0 | Inr _ \<Rightarrow> 1]", goal_cases)
  case 1
  then show ?case by simp
next
  case (2 h md p n a r r' nest c m)
  then show ?case using size_nested[of n m] by auto
qed (auto dest: size_node intro: size_queried_element)

declare validate_node.simps [simp del] validate_md.simps [simp del]

definition validate_parser :: "buffers \<Rightarrow> parser \<Rightarrow> bool result" where
  "validate_parser h p = validate_md h (p_metadata p) p"

definition validate_field :: "buffers \<Rightarrow> parser \<Rightarrow> string option \<Rightarrow> bool result" where
  "validate_field h p name =
     (case name of
        None \<Rightarrow> Inr False
      | Some nm \<Rightarrow>
          (case query_node nm (p_metadata p) of None \<Rightarrow> Inr False | Some node \<Rightarrow> validate_node h (p_metadata p) p node))"

definition validate_field_by_index :: "buffers \<Rightarrow> parser \<Rightarrow> nat \<Rightarrow> bool result" where
  "validate_field_by_index h p index =
     (case query_node_by_index index (p_metadata p) of
        None \<Rightarrow> Inr False
      | Some node \<Rightarrow> validate_node h (p_metadata p) p node)"

section \<open>Default values\<close>

definition write_simple_default :: "parser \<Rightarrow> node_attr \<Rightarrow> buffers \<Rightarrow> buffers result" where
  "write_simple_default p a h =
     (if has_def (n_options a)
      then res_map (\<lambda>(_, _, h'). h') (write_by_node h p (defval (n_options a)) (n_size a) a)
      else Inr h)"

definition write_string_default :: "parser \<Rightarrow> node_attr \<Rightarrow> buffers \<Rightarrow> buffers result" where
  "write_string_default p a h =
     (if n_def_string a \<noteq> [] then res_map snd (write_string h p (Some (n_name a)) (Some (n_def_string a))) else Inr h)"

text \<open>The default of an array of simple values, element by element.\<close>

definition write_array_default :: "parser \<Rightarrow> node_attr \<Rightarrow> size_t \<Rightarrow> size_t \<Rightarrow> buffers \<Rightarrow> buffers result" where
  "write_array_default p a elem_size num_of_elements h =
     res_fold (\<lambda>j h. res_map snd (write_at h p (n_name a) (defval (n_options a)) elem_size (of_nat j)))
       [0..<unat num_of_elements] h"

text \<open>The first element of an array of structures is copied to the others.\<close>

definition copy_first_element :: "parser \<Rightarrow> size_t \<Rightarrow> size_t \<Rightarrow> size_t \<Rightarrow> buffers \<Rightarrow> buffers result" where
  "copy_first_element p elem_size num_of_elements offset h =
     res_bind (safe_read_to (buffer_of h p) (replicate (unat elem_size) 0) elem_size offset) (\<lambda>(_, element).
       res_fold (\<lambda>j h. res_map (\<lambda>(_, buf). set_buffer p buf h)
                   (safe_write_from (buffer_of h p) element elem_size (offset + of_nat j * elem_size)))
         [1..<unat num_of_elements] h)"

function set_default_values :: "binary_metadata \<Rightarrow> parser \<Rightarrow> buffers \<Rightarrow> buffers result" where
  "set_default_values md p h =
     res_fold (\<lambda>n h.
         let a = n_attr n in
         if is_simple_type (n_type a) \<or> n_type a = ENUM then write_simple_default p a h
         else if n_type a = STRING then write_string_default p a h
         else if n_type a = COMPLEX then
           res_bind (read_complex p (Some (n_name a))) (\<lambda>r.
             case (r, n_nested n) of (Some c, Some m) \<Rightarrow> set_default_values m c h | _ \<Rightarrow> Inl Undefined)
         else if n_type a = ARRAY then
           res_bind (read_complex p (Some (n_name a))) (\<lambda>r.
             case r of
               None \<Rightarrow> Inl Undefined
             | Some c \<Rightarrow>
                 (case query_node_by_index 0 (p_metadata c) of
                    None \<Rightarrow> Inr h
                  | Some child \<Rightarrow>
                      let elem_size = n_size (n_attr child); type = n_type (n_attr child) in
                      if has_def (n_options a) \<and> is_simple_type type
                      then write_array_default p a elem_size (n_count a) h
                      else if type = COMPLEX
                      then (if n_count a = 0 then Inl Undefined
                            else res_bind (element_metadata n) (\<lambda>m.
                              let offset = p_offset p + n_offset a in
                              res_bind (set_default_values m (new_parser m (p_buffer p) offset) h)
                                (copy_first_element p elem_size (n_count a) offset)))
                      else Inr h))
         else Inr h)
       (md_nodes md) h"
  by pat_completeness auto
termination
proof (relation "measure (\<lambda>(md, p, h). size md)", goal_cases)
  case (2 md p h n h1 a r r' nest c m)
  then show ?case using size_nested[of n m] size_node[of n md] by auto
next
  case (3 md p h n h1 a r c child)
  then show ?case using size_element size_node by fastforce
qed simp

declare set_default_values.simps [simp del]

definition set_default_value :: "parser \<Rightarrow> string \<Rightarrow> buffers \<Rightarrow> buffers result" where
  "set_default_value p name h =
     (case query_node name (p_metadata p) of
        None \<Rightarrow> Inr h
      | Some n \<Rightarrow>
          let a = n_attr n in
          if is_simple_type (n_type a) \<or> n_type a = ENUM then write_simple_default p a h
          else if n_type a = STRING then write_string_default p a h
          else if n_type a = COMPLEX then
            res_bind (read_complex p (Some (n_name a))) (\<lambda>r.
              case r of Some c \<Rightarrow> set_default_values (p_metadata c) c h | None \<Rightarrow> Inl Undefined)
          else Inr h)"

text \<open>The constructor with its argument \<^verbatim>\<open>reset\<close>.\<close>

definition parser_construct :: "binary_metadata \<Rightarrow> bool \<Rightarrow> buffers \<Rightarrow> (parser \<times> buffers) result" where
  "parser_construct md reset h =
     (let (p, h1) = parser_create md h in
      if reset then res_map (\<lambda>h2. (p, h2)) (set_default_values md p h1) else Inr (p, h1))"

section \<open>Sound parsers\<close>

text \<open>
  A parser is sound when it was constructed for a well-formed description and its message lies inside of its buffer.
\<close>

definition parser_fits :: "buffers \<Rightarrow> parser \<Rightarrow> bool" where
  "parser_fits h p \<longleftrightarrow>
     p_buffer p < length h \<and> length (buffer_of h p) < 2 ^ 64 \<and>
     unat (p_offset p) + unat (md_size (p_metadata p)) \<le> length (buffer_of h p)"

definition sound_parser :: "buffers \<Rightarrow> parser \<Rightarrow> bool" where
  "sound_parser h p \<longleftrightarrow>
     p = new_parser (p_metadata p) (p_buffer p) (p_offset p) \<and> wf_metadata (p_metadata p) \<and> parser_fits h p"

lemma new_parser_sel [simp]:
  "p_metadata (new_parser md b off) = md" "p_buffer (new_parser md b off) = b" "p_offset (new_parser md b off) = off"
  "p_parsers (new_parser md b off) = parse_nested (md_nodes md) b off []"
  by (cases md; simp)+

lemma parse_nested_child:
  assumes "map_of (parse_nested ns b off m) nm = Some (Some c)"
  shows "map_of m nm = Some (Some c) \<or>
         (\<exists>a md. Node a (Some md) \<in> set ns \<and> n_name a = nm \<and> n_type a \<in> {COMPLEX, ARRAY} \<and>
            c = new_parser md b (off + n_offset a))"
  using assms
proof (induction ns arbitrary: m)
  case (Cons n ns)
  obtain a nest where n: "n = Node a nest" by (cases n)
  show ?case
  proof (cases "n_type a = COMPLEX \<or> n_type a = ARRAY")
    case False
    with Cons.prems n have "map_of (parse_nested ns b off m) nm = Some (Some c)" by simp
    from Cons.IH[OF this] show ?thesis by auto
  next
    case type: True
    show ?thesis
    proof (cases "map_of m (n_name a) = None")
      case True
      show ?thesis
      proof (cases nest)
        case None
        with Cons.prems n type True show ?thesis by simp
      next
        case (Some md)
        let ?m = "m @ [(n_name a, Some (new_parser md b (off + n_offset a)))]"
        have "map_of (parse_nested ns b off ?m) nm = Some (Some c)" using Cons.prems n type True Some by simp
        from Cons.IH[OF this] show ?thesis
          using n type Some by (auto simp: map_add_def split: option.splits if_splits)
      qed
    next
      case False
      then have "map_of (parse_nested ns b off (al_update (n_name a) (\<lambda>_. None) m)) nm = Some (Some c)"
        using Cons.prems n type by auto
      from Cons.IH[OF this] show ?thesis by (auto simp: map_of_al_update split: if_splits)
    qed
  qed
qed simp

lemma wf_nodes_nested:
  "wf_nodes ns \<Longrightarrow> Node a (Some m) \<in> set ns \<Longrightarrow>
   wf_metadata m \<and> (n_type a = COMPLEX \<and> md_size m = n_size a \<or> n_type a = ARRAY \<and> array_element_ok a m)"
proof (induction ns)
  case (Cons n ns)
  then show ?case by (cases n; cases "n_nested n") auto
qed simp

lemma wf_nodes_has_nested:
  "wf_nodes ns \<Longrightarrow> n \<in> set ns \<Longrightarrow> n_type (n_attr n) \<in> {COMPLEX, ARRAY} \<Longrightarrow> n_nested n \<noteq> None"
proof (induction ns)
  case (Cons k ns)
  then show ?case by (cases k; cases "n_nested k") auto
qed simp

lemma wf_node_extent:
  assumes "wf_nodes ns" and "n \<in> set ns"
  shows "unat (n_size (n_attr n)) \<le> node_extent n"
proof (cases "n_type (n_attr n) = ARRAY")
  case True
  obtain a nest where n: "n = Node a nest" by (cases n)
  from wf_nodes_has_nested[OF assms] True n obtain m where "nest = Some m" by auto
  with wf_nodes_nested[of ns a m] assms True n have "n_count a \<noteq> 0" by (auto simp: array_element_ok_def)
  then have "0 < unat (n_count a)" by (simp add: unat_gt_0)
  with True n show ?thesis by (simp add: node_extent_def)
qed (simp add: node_extent_def)

lemma sound_node_inside:
  assumes "sound_parser h p" and "n \<in> set (md_nodes (p_metadata p))"
  shows "unat (p_offset p + n_offset (n_attr n)) = unat (p_offset p) + node_start n"
    and "unat (p_offset p) + node_start n + unat (n_size (n_attr n)) \<le> unat (p_offset p) + node_end n"
    and "unat (p_offset p) + node_end n \<le> length (buffer_of h p)"
proof -
  have wf: "layout_ok (md_nodes (p_metadata p)) (unat (md_size (p_metadata p)))" "wf_nodes (md_nodes (p_metadata p))"
    and fits: "parser_fits h p"
    using assms(1) by (auto simp: sound_parser_def wf_metadata_iff)
  have "node_end n \<le> unat (md_size (p_metadata p))" using wf(1) assms(2) by (auto simp: layout_ok_def)
  with fits show 3: "unat (p_offset p) + node_end n \<le> length (buffer_of h p)" by (simp add: parser_fits_def)
  show "unat (p_offset p) + node_start n + unat (n_size (n_attr n)) \<le> unat (p_offset p) + node_end n"
    using wf_node_extent[OF wf(2) assms(2)] by (simp add: node_end_def)
  have "unat (p_offset p) + node_start n < 2 ^ 64" using 3 fits by (simp add: parser_fits_def node_end_def)
  then show "unat (p_offset p + n_offset (n_attr n)) = unat (p_offset p) + node_start n"
    by (simp add: node_start_def unat_word_ariths)
qed

lemma sound_child:
  assumes sound: "sound_parser h p" and child: "map_of (p_parsers p) nm = Some (Some c)"
  shows "sound_parser h c \<and> p_buffer c = p_buffer p \<and>
         (\<exists>n \<in> set (md_nodes (p_metadata p)). n_name (n_attr n) = nm \<and> n_nested n = Some (p_metadata c) \<and>
            n_type (n_attr n) \<in> {COMPLEX, ARRAY} \<and> md_size (p_metadata c) = n_size (n_attr n) \<and>
            unat (p_offset c) = unat (p_offset p) + node_start n)"
proof -
  have p: "p = new_parser (p_metadata p) (p_buffer p) (p_offset p)" and wf: "wf_nodes (md_nodes (p_metadata p))"
    and fits: "parser_fits h p" using sound by (auto simp: sound_parser_def wf_metadata_iff)
  have "p_parsers p = parse_nested (md_nodes (p_metadata p)) (p_buffer p) (p_offset p) []" by (subst p) simp
  with child obtain a md where n: "Node a (Some md) \<in> set (md_nodes (p_metadata p))" and nm: "n_name a = nm"
    and type: "n_type a \<in> {COMPLEX, ARRAY}" and c: "c = new_parser md (p_buffer p) (p_offset p + n_offset a)"
    using parse_nested_child[of "md_nodes (p_metadata p)" "p_buffer p" "p_offset p" "[]" nm c] by auto
  from wf_nodes_nested[OF wf n] type have md: "wf_metadata md" "md_size md = n_size a" by (auto simp: array_element_ok_def)
  from sound_node_inside[OF sound n] have off: "unat (p_offset c) = unat (p_offset p) + node_start (Node a (Some md))"
    and inside: "unat (p_offset c) + unat (md_size md) \<le> length (buffer_of h p)" by (simp_all add: c md(2))
  have "parser_fits h c" using fits inside by (simp add: parser_fits_def buffer_of_def c)
  with md c have "sound_parser h c" by (simp add: sound_parser_def)
  moreover have "\<exists>n \<in> set (md_nodes (p_metadata p)). n_name (n_attr n) = nm \<and> n_nested n = Some (p_metadata c) \<and>
            n_type (n_attr n) \<in> {COMPLEX, ARRAY} \<and> md_size (p_metadata c) = n_size (n_attr n) \<and>
            unat (p_offset c) = unat (p_offset p) + node_start n"
    using n nm type md off by (intro bexI[OF _ n]) (simp add: c)
  ultimately show ?thesis by (simp add: c)
qed

lemma buffer_of_set [simp]: "p_buffer p < length h \<Longrightarrow> buffer_of (set_buffer p buf h) p = buf"
  by (simp add: buffer_of_def set_buffer_def)

lemma sound_set_buffer:
  assumes "sound_parser h p" and "length buf = length (buffer_of h q)"
  shows "sound_parser (set_buffer q buf h) p"
proof -
  have "length (buffer_of (set_buffer q buf h) p) = length (buffer_of h p)" if "p_buffer p < length h"
    using assms(2) that by (cases "p_buffer p = p_buffer q") (simp_all add: buffer_of_def set_buffer_def)
  with assms(1) show ?thesis by (simp add: sound_parser_def parser_fits_def set_buffer_def)
qed

lemma sound_buffer: "sound_parser h p \<Longrightarrow> p_buffer p < length h \<and> length (buffer_of h p) < 2 ^ 64"
  by (simp add: sound_parser_def parser_fits_def)

text \<open>The bytes of a field in the buffer of a parser.\<close>

definition field_bytes :: "buffers \<Rightarrow> parser \<Rightarrow> binary_node \<Rightarrow> nat \<Rightarrow> bytes" where
  "field_bytes h p n k = take k (drop (unat (p_offset p) + node_start n) (buffer_of h p))"

lemma read_by_node_sound:
  assumes "sound_parser h p" and "n \<in> set (md_nodes (p_metadata p))" and "n_type (n_attr n) \<noteq> BITMAP"
    and "0 < unat k" and "k \<le> n_size (n_attr n)" and "unat k \<le> length data"
  shows "read_by_node h p data k (n_attr n) =
           Inr (True, convert_endian (n_big_endian (n_attr n)) (unat k) (field_bytes h p n (unat k) @ drop (unat k) data))"
proof -
  note ins = sound_node_inside[OF assms(1,2)]
  have "unat k \<le> unat (n_size (n_attr n))" using assms(5) by (simp add: word_le_nat_alt)
  then have "safe_read_to (buffer_of h p) data k (p_offset p + n_offset (n_attr n)) =
      Inr (True, field_bytes h p n (unat k) @ drop (unat k) data)"
    using ins assms(4,6) sound_buffer[OF assms(1)]
    by (subst safe_read_inside) (simp_all add: ins(1) field_bytes_def)
  with assms(3,5) show ?thesis by (simp add: read_by_node_def read_from_buffer_def)
qed

lemma write_by_node_sound:
  assumes "sound_parser h p" and "n \<in> set (md_nodes (p_metadata p))" and "n_type (n_attr n) \<noteq> BITMAP"
    and "0 < unat k" and "k \<le> n_size (n_attr n)" and "unat k \<le> length data"
  shows "\<exists>buf. write_by_node h p data k (n_attr n) = Inr (True, data, set_buffer p buf h) \<and>
           mem_write (buffer_of h p) (unat (p_offset p) + node_start n) (take (unat k) data) = Inr buf"
proof -
  note ins = sound_node_inside[OF assms(1,2)]
  have k: "unat k \<le> unat (n_size (n_attr n))" using assms(5) by (simp add: word_le_nat_alt)
  let ?o = "unat (p_offset p) + node_start n"
  let ?buf = "take ?o (buffer_of h p) @ take (unat k) data @ drop (?o + unat k) (buffer_of h p)"
  have "safe_write_from (buffer_of h p) data k (p_offset p + n_offset (n_attr n)) = Inr (True, ?buf)"
    using ins k assms(4,6) sound_buffer[OF assms(1)] by (subst safe_write_inside) (simp_all add: ins(1))
  moreover have "mem_write (buffer_of h p) ?o (take (unat k) data) = Inr ?buf"
    using ins k assms(6) by (simp add: mem_write_def min_absorb2)
  ultimately show ?thesis using assms(3,5) by (simp add: write_by_node_def)
qed

text \<open>Reading a field looks only at its own bytes.\<close>

lemma safe_read_cong:
  assumes "length buf' = length buf" and "mem_read buf' (unat off) (unat n) = mem_read buf (unat off) (unat n)"
  shows "safe_read_to buf' data n off = safe_read_to buf data n off"
  using assms by (simp add: safe_read_to_def sb_size_def elem_addr_def)

lemma mem_read_prefix:
  assumes "mem_read buf' o1 n = mem_read buf o1 n" and "length buf' = length buf" and "k \<le> n" and "o1 + n \<le> length buf"
  shows "mem_read buf' o1 k = mem_read buf o1 k"
proof -
  have "take n (drop o1 buf') = take n (drop o1 buf)" using assms by (simp add: mem_read_def)
  then have "take k (drop o1 buf') = take k (drop o1 buf)" using assms(3) by (metis min_absorb1 take_take)
  with assms show ?thesis by (simp add: mem_read_def)
qed

lemma read_by_node_cong:
  assumes sound: "sound_parser h p" and n: "n \<in> set (md_nodes (p_metadata p))"
    and len: "length (buffer_of h' p) = length (buffer_of h p)"
    and same: "mem_read (buffer_of h' p) (unat (p_offset p) + node_start n) (unat (n_size (n_attr n))) =
               mem_read (buffer_of h p) (unat (p_offset p) + node_start n) (unat (n_size (n_attr n)))"
  shows "read_by_node h' p data k (n_attr n) = read_by_node h p data k (n_attr n)"
proof -
  note ins = sound_node_inside[OF sound n]
  have "safe_read_to (buffer_of h' p) d j (p_offset p + n_offset (n_attr n)) =
        safe_read_to (buffer_of h p) d j (p_offset p + n_offset (n_attr n))" if "j \<le> n_size (n_attr n)" for d j
  proof (rule safe_read_cong[OF len])
    have "unat j \<le> unat (n_size (n_attr n))" using that by (simp add: word_le_nat_alt)
    then show "mem_read (buffer_of h' p) (unat (p_offset p + n_offset (n_attr n))) (unat j) =
        mem_read (buffer_of h p) (unat (p_offset p + n_offset (n_attr n))) (unat j)"
      unfolding ins(1) using mem_read_prefix[OF same len] ins(2,3) by simp
  qed
  then show ?thesis by (simp add: read_by_node_def read_bits_by_node_def read_from_buffer_def)
qed

lemma nodes_apart:
  assumes sound: "sound_parser h p" and "i < length (md_nodes (p_metadata p))" and "j < length (md_nodes (p_metadata p))" and "i \<noteq> j"
    and plain: "n_type (n_attr (md_nodes (p_metadata p) ! i)) \<noteq> BITMAP"
  shows "node_end (md_nodes (p_metadata p) ! i) \<le> node_start (md_nodes (p_metadata p) ! j) \<or>
         node_end (md_nodes (p_metadata p) ! j) \<le> node_start (md_nodes (p_metadata p) ! i)"
proof -
  have "sorted_wrt apart (md_nodes (p_metadata p))" using sound by (auto simp: sound_parser_def wf_metadata_iff layout_ok_def)
  then have "apart (md_nodes (p_metadata p) ! i) (md_nodes (p_metadata p) ! j) \<or>
             apart (md_nodes (p_metadata p) ! j) (md_nodes (p_metadata p) ! i)"
    using assms(2,3,4) by (metis nat_neq_iff sorted_wrt_iff_nth_less)
  with plain show ?thesis by (auto simp: apart_def bit_field_def)
qed

section \<open>Fields as a record\<close>

text \<open>
  What a user of fields relies on: a field reads as it was written, and writing it leaves the other fields alone.
\<close>

locale field_record =
  fixes field :: "'f \<Rightarrow> bool" and fits :: "'f \<Rightarrow> 'v \<Rightarrow> bool" and inv :: "'s \<Rightarrow> bool"
    and wr :: "'f \<Rightarrow> 'v \<Rightarrow> 's \<Rightarrow> 's result" and rd :: "'f \<Rightarrow> 's \<Rightarrow> 'v result"
  assumes written: "inv s \<Longrightarrow> field f \<Longrightarrow> fits f v \<Longrightarrow> \<exists>s'. wr f v s = Inr s' \<and> inv s' \<and> rd f s' = Inr v"
    and kept: "inv s \<Longrightarrow> field f \<Longrightarrow> fits f v \<Longrightarrow> wr f v s = Inr s' \<Longrightarrow> field g \<Longrightarrow> g \<noteq> f \<Longrightarrow> rd g s' = rd g s"
begin

lemma after_writes:
  assumes "inv s" and "\<forall>(f, v) \<in> set ws. field f \<and> fits f v"
  shows "\<exists>s'. res_fold (\<lambda>(f, v). wr f v) ws s = Inr s' \<and> inv s' \<and>
           (\<forall>g. field g \<longrightarrow> rd g s' = (case map_of (rev ws) g of None \<Rightarrow> rd g s | Some v \<Rightarrow> Inr v))"
  using assms
proof (induction ws arbitrary: s)
  case Nil
  then show ?case by simp
next
  case (Cons w ws)
  obtain f v where w: "w = (f, v)" by (cases w)
  with Cons.prems have fv: "field f" "fits f v" by auto
  from written[OF Cons.prems(1) fv] obtain s1 where s1: "wr f v s = Inr s1" "inv s1" "rd f s1 = Inr v" by blast
  from Cons.IH[OF s1(2)] Cons.prems(2) obtain s' where s': "res_fold (\<lambda>(f, v). wr f v) ws s1 = Inr s'" "inv s'"
    and rd: "\<forall>g. field g \<longrightarrow> rd g s' = (case map_of (rev ws) g of None \<Rightarrow> rd g s1 | Some v \<Rightarrow> Inr v)" by auto
  have "rd g s' = (case map_of (rev (w # ws)) g of None \<Rightarrow> rd g s | Some v \<Rightarrow> Inr v)" if "field g" for g
    using rd that kept[OF Cons.prems(1) fv s1(1) that] s1(3) w
    by (cases "g = f"; cases "map_of (rev ws) g") (auto simp: map_add_def)
  with s' s1 w show ?case by auto
qed

end

text \<open>The fields of a parser that are stored as they are given: no bit fields, native byte order, not empty.\<close>

definition native_field :: "binary_metadata \<Rightarrow> nat \<Rightarrow> bool" where
  "native_field md i \<longleftrightarrow>
     i < length (md_nodes md) \<and> n_type (n_attr (md_nodes md ! i)) \<noteq> BITMAP \<and>
     \<not> n_big_endian (n_attr (md_nodes md ! i)) \<and> n_size (n_attr (md_nodes md ! i)) \<noteq> 0"

definition field_fits :: "binary_metadata \<Rightarrow> nat \<Rightarrow> bytes \<Rightarrow> bool" where
  "field_fits md i data \<longleftrightarrow> length data = unat (n_size (n_attr (md_nodes md ! i)))"

text \<open>Writing and reading a whole field by its index; a refusal counts as a failure.\<close>

definition put_field :: "parser \<Rightarrow> nat \<Rightarrow> bytes \<Rightarrow> buffers \<Rightarrow> buffers result" where
  "put_field p i data h =
     (let a = n_attr (md_nodes (p_metadata p) ! i) in
      res_bind (write_field_by_index h p i (Some data) (n_size a) (n_type a)) (\<lambda>(ok, h').
        if ok then Inr h' else Inl (Throws (Runtime_error ''refused''))))"

definition get_field :: "parser \<Rightarrow> nat \<Rightarrow> buffers \<Rightarrow> bytes result" where
  "get_field p i h =
     (let n = n_size (n_attr (md_nodes (p_metadata p) ! i)) in
      res_bind (read_simple_by_index h p i (replicate (unat n) 0) n) (\<lambda>(ok, data).
        if ok then Inr data else Inl (Throws (Runtime_error ''refused''))))"

lemma put_field_sound:
  assumes sound: "sound_parser h p" and i: "i < length (md_nodes (p_metadata p))"
    and plain: "n_type (n_attr (md_nodes (p_metadata p) ! i)) \<noteq> BITMAP" "n_size (n_attr (md_nodes (p_metadata p) ! i)) \<noteq> 0"
    and data: "length data = unat (n_size (n_attr (md_nodes (p_metadata p) ! i)))"
  shows "\<exists>buf. put_field p i data h = Inr (set_buffer p buf h) \<and> sound_parser (set_buffer p buf h) p \<and>
           mem_write (buffer_of h p) (unat (p_offset p) + node_start (md_nodes (p_metadata p) ! i)) data = Inr buf"
proof -
  let ?n = "md_nodes (p_metadata p) ! i"
  have "0 < unat (n_size (n_attr ?n))" using plain(2) by (simp add: unat_gt_0)
  then obtain buf where buf: "write_by_node h p data (n_size (n_attr ?n)) (n_attr ?n) = Inr (True, data, set_buffer p buf h)"
      "mem_write (buffer_of h p) (unat (p_offset p) + node_start ?n) data = Inr buf"
    using write_by_node_sound[OF sound nth_mem[OF i] plain(1), of "n_size (n_attr ?n)" data] data by auto
  with sound_set_buffer[OF sound mem_write_length[OF buf(2)]] i show ?thesis
    by (auto simp: put_field_def write_field_by_index_def query_node_by_index_def)
qed

lemma get_field_sound:
  assumes sound: "sound_parser h p" and i: "i < length (md_nodes (p_metadata p))"
    and plain: "n_type (n_attr (md_nodes (p_metadata p) ! i)) \<noteq> BITMAP" "n_size (n_attr (md_nodes (p_metadata p) ! i)) \<noteq> 0"
  shows "get_field p i h =
           Inr (convert_endian (n_big_endian (n_attr (md_nodes (p_metadata p) ! i))) (unat (n_size (n_attr (md_nodes (p_metadata p) ! i))))
             (field_bytes h p (md_nodes (p_metadata p) ! i) (unat (n_size (n_attr (md_nodes (p_metadata p) ! i))))))"
proof -
  let ?n = "md_nodes (p_metadata p) ! i"
  have "0 < unat (n_size (n_attr ?n))" using plain(2) by (simp add: unat_gt_0)
  with read_by_node_sound[OF sound nth_mem[OF i] plain(1), of "n_size (n_attr ?n)"] i show ?thesis
    by (simp add: get_field_def read_simple_by_index_def query_node_by_index_def Let_def)
qed

lemma get_field_after_put:
  assumes sound: "sound_parser h p" and i: "i < length (md_nodes (p_metadata p))"
    and plain: "n_type (n_attr (md_nodes (p_metadata p) ! i)) \<noteq> BITMAP" "n_size (n_attr (md_nodes (p_metadata p) ! i)) \<noteq> 0"
    and data: "length data = unat (n_size (n_attr (md_nodes (p_metadata p) ! i)))"
    and put: "put_field p i data h = Inr h'"
  shows "get_field p i h' = Inr (convert_endian (n_big_endian (n_attr (md_nodes (p_metadata p) ! i))) (length data) data)"
proof -
  let ?n = "md_nodes (p_metadata p) ! i"
  from put_field_sound[OF sound i plain data] put obtain buf where h': "h' = set_buffer p buf h" "sound_parser h' p"
    and w: "mem_write (buffer_of h p) (unat (p_offset p) + node_start ?n) data = Inr buf" by auto
  have "buffer_of h' p = buf" using sound_buffer[OF sound] h'(1) by simp
  with mem_write_read_same[OF w] have "field_bytes h' p ?n (length data) = data"
    by (auto simp: field_bytes_def mem_read_def split: if_splits)
  with get_field_sound[OF h'(2) i plain] data show ?thesis by simp
qed

lemma put_field_keeps:
  assumes sound: "sound_parser h p" and i: "i < length (md_nodes (p_metadata p))"
    and plain: "n_type (n_attr (md_nodes (p_metadata p) ! i)) \<noteq> BITMAP" "n_size (n_attr (md_nodes (p_metadata p) ! i)) \<noteq> 0"
    and data: "length data = unat (n_size (n_attr (md_nodes (p_metadata p) ! i)))"
    and put: "put_field p i data h = Inr h'" and j: "j < length (md_nodes (p_metadata p))" "j \<noteq> i"
  shows "read_by_node h' p d k (n_attr (md_nodes (p_metadata p) ! j)) = read_by_node h p d k (n_attr (md_nodes (p_metadata p) ! j))"
proof -
  let ?ni = "md_nodes (p_metadata p) ! i" and ?nj = "md_nodes (p_metadata p) ! j"
  from put_field_sound[OF sound i plain data] put obtain buf where h': "h' = set_buffer p buf h"
    and w: "mem_write (buffer_of h p) (unat (p_offset p) + node_start ?ni) data = Inr buf" by auto
  have buf: "buffer_of h' p = buf" using sound_buffer[OF sound] h' by simp
  note ini = sound_node_inside[OF sound nth_mem[OF i]] and inj = sound_node_inside[OF sound nth_mem[OF j(1)]]
  from nodes_apart[OF sound i j(1) j(2)[symmetric] plain(1)]
  consider "node_end ?ni \<le> node_start ?nj" | "node_end ?nj \<le> node_start ?ni" by blast
  then have "mem_read buf (unat (p_offset p) + node_start ?nj) (unat (n_size (n_attr ?nj))) =
      mem_read (buffer_of h p) (unat (p_offset p) + node_start ?nj) (unat (n_size (n_attr ?nj)))"
  proof cases
    case 1
    then show ?thesis using ini(2) data by (intro mem_write_read_above[OF w]) linarith
  next
    case 2
    then show ?thesis using inj(2) by (intro mem_write_read_below[OF w]) linarith
  qed
  then show ?thesis
    using mem_write_length[OF w] by (intro read_by_node_cong[OF sound nth_mem[OF j(1)]]) (simp_all add: buf)
qed

interpretation message: field_record "native_field (p_metadata p)" "field_fits (p_metadata p)" "\<lambda>h. sound_parser h p"
  "put_field p" "get_field p" for p
proof unfold_locales
  fix h i data
  assume asm: "sound_parser h p" "native_field (p_metadata p) i" "field_fits (p_metadata p) i data"
  from put_field_sound[of h p i data] get_field_after_put[of h p i data] asm
  show "\<exists>h'. put_field p i data h = Inr h' \<and> sound_parser h' p \<and> get_field p i h' = Inr data"
    by (auto simp: native_field_def field_fits_def)
next
  fix h i data h' j
  assume "sound_parser h p" "native_field (p_metadata p) i" "field_fits (p_metadata p) i data" "put_field p i data h = Inr h'"
    "native_field (p_metadata p) j" "j \<noteq> i"
  with put_field_keeps[of h p i data h' j] show "get_field p j h' = get_field p j h"
    by (simp add: get_field_def read_simple_by_index_def query_node_by_index_def native_field_def field_fits_def)
qed

lemma created_sound:
  assumes "wf_metadata md" and "parser_create md h = (p, h')"
  shows "sound_parser h' p \<and> p_metadata p = md"
proof -
  have "unat (md_size md) < 2 ^ 64" using unsigned_less[of "md_size md"] by simp
  with assms show ?thesis
    by (auto simp: parser_create_def sound_parser_def parser_fits_def buffer_of_def nth_append sb_create_def)
qed

text \<open>
  The parsers that a user can obtain from a parser, with the way that leads to them: by the name of a nested structure, as an element of an
  array by the index of its field, and as an element of an array by name. The last one drops the offset of the parser that is asked,
  so it is a way only from parsers at the start of their buffer.
\<close>

datatype step = Member string | Element nat size_t | Named_element string size_t

inductive reached :: "parser \<Rightarrow> step list \<Rightarrow> parser \<Rightarrow> bool" where
  reached_self: "reached p [] p"
| reached_member: "reached p path c \<Longrightarrow> read_complex c (Some nm) = Inr (Some d) \<Longrightarrow> reached p (path @ [Member nm]) d"
| reached_element: "reached p path c \<Longrightarrow> query_node_by_index i (p_metadata c) = Some n \<Longrightarrow> n_type (n_attr n) = ARRAY \<Longrightarrow>
     read_complex_at_by_index c i k = Inr (Some d) \<Longrightarrow> reached p (path @ [Element i k]) d"
| reached_named: "reached p path c \<Longrightarrow> query_node nm (p_metadata c) = Some n \<Longrightarrow> n_type (n_attr n) = ARRAY \<Longrightarrow> p_offset c = 0 \<Longrightarrow>
     read_complex_at c nm k = Inr (Some d) \<Longrightarrow> reached p (path @ [Named_element nm k]) d"

text \<open>
  Where the description puts what a way leads to, without any parser: the offsets of the fields on the way are added, for an element of an
  array with the sizes of the elements before it.
\<close>

definition element_described :: "binary_node \<Rightarrow> size_t \<Rightarrow> binary_metadata \<Rightarrow> bool" where
  "element_described n k m \<longleftrightarrow>
     n_type (n_attr n) = ARRAY \<and> k < n_count (n_attr n) \<and>
     (\<exists>am e. n_nested n = Some am \<and> md_nodes am = [e] \<and> n_nested e = Some m)"

definition element_start :: "binary_node \<Rightarrow> size_t \<Rightarrow> nat" where
  "element_start n k = node_start n + unat (n_size (n_attr n)) * unat k"

inductive lies_at :: "binary_metadata \<Rightarrow> step list \<Rightarrow> nat \<Rightarrow> binary_metadata \<Rightarrow> bool" where
  lies_here: "lies_at md [] 0 md"
| lies_member: "lies_at md path off m \<Longrightarrow> n \<in> set (md_nodes m) \<Longrightarrow> n_name (n_attr n) = nm \<Longrightarrow> n_type (n_attr n) \<in> {COMPLEX, ARRAY} \<Longrightarrow>
     n_nested n = Some m' \<Longrightarrow> lies_at md (path @ [Member nm]) (off + node_start n) m'"
| lies_element: "lies_at md path off m \<Longrightarrow> query_node_by_index i m = Some n \<Longrightarrow> element_described n k m' \<Longrightarrow>
     lies_at md (path @ [Element i k]) (off + element_start n k) m'"
| lies_named: "lies_at md path off m \<Longrightarrow> query_node nm m = Some n \<Longrightarrow> element_described n k m' \<Longrightarrow>
     lies_at md (path @ [Named_element nm k]) (off + element_start n k) m'"

text \<open>The parser of an element of an array.\<close>

lemma sound_element:
  assumes sound: "sound_parser h c" and n: "n \<in> set (md_nodes (p_metadata c))" and type: "n_type (n_attr n) = ARRAY" and k: "k < n_count (n_attr n)"
    and el: "element_metadata n = Inr m" and d: "d = new_parser m (p_buffer c) (p_offset c + n_offset (n_attr n) + element_size n * k)"
  shows "sound_parser h d \<and> element_described n k m \<and> unat (p_offset d) = unat (p_offset c) + element_start n k"
proof -
  obtain a am where na: "n = Node a (Some am)" using el by (cases n; cases "n_nested n") (auto simp: element_metadata_def element_node_def)
  have wf: "wf_nodes (md_nodes (p_metadata c))" and fits: "parser_fits h c" using sound by (auto simp: sound_parser_def wf_metadata_iff)
  from wf_nodes_nested[OF wf n[unfolded na]] type na have am: "wf_metadata am" "array_element_ok a am" by auto
  from am(2) obtain e where e: "md_nodes am = [e]" "n_size (n_attr e) = n_size a"
    by (auto simp: array_element_ok_def split: list.splits)
  from el na e(1) have m: "n_nested e = Some m" by (auto simp: element_metadata_def element_node_def query_node_by_index_def split: option.splits)
  obtain b where eb: "e = Node b (Some m)" using m by (cases e) simp
  from am(1) e(1) eb have "wf_nodes [Node b (Some m)]" by (simp add: wf_metadata_iff)
  then have wm: "wf_metadata m" "md_size m = n_size a" using e(2) eb by (auto simp: array_element_ok_def)
  have es: "element_size n = n_size a" using na e by (simp add: element_size_def element_node_def query_node_by_index_def)
  let ?s = "unat (n_size a)" and ?k = "unat k"
  have "?k < unat (n_count a)" using k na by (simp add: word_less_nat_alt)
  then have "?s * Suc ?k \<le> ?s * unat (n_count a)" by (intro mult_le_mono2) simp
  moreover have "unat (p_offset c) + (node_start n + ?s * unat (n_count a)) \<le> length (buffer_of h c)"
    using sound_node_inside(3)[OF sound n] type na by (simp add: node_end_def node_extent_def)
  ultimately have in_buf: "unat (p_offset c) + node_start n + ?s * ?k + ?s \<le> length (buffer_of h c)" by simp
  have less: "length (buffer_of h c) < 2 ^ 64" using fits by (simp add: parser_fits_def)
  have mul: "unat (n_size a * k) = ?s * ?k" using in_buf less by (simp add: unat_word_ariths)
  have off: "unat (p_offset d) = unat (p_offset c) + element_start n k"
    using in_buf less mul sound_node_inside(1)[OF sound n] unat_word_ariths(1)[of "p_offset c + n_offset (n_attr n)" "n_size a * k"]
    by (simp add: d es[unfolded na] element_start_def na)
  moreover have "parser_fits h d" using fits in_buf off wm(2) by (simp add: parser_fits_def buffer_of_def d element_start_def na)
  moreover have "element_described n k m" using type k na e(1) m by (simp add: element_described_def)
  ultimately show ?thesis using wm(1) by (simp add: sound_parser_def d)
qed

text \<open>The parser that a way leads to is sound, and it is at the place of the description.\<close>

lemma reached_sound:
  assumes "reached p path c" and "sound_parser h p" and "p_offset p = 0"
  shows "sound_parser h c \<and> p_buffer c = p_buffer p \<and> lies_at (p_metadata p) path (unat (p_offset c)) (p_metadata c)"
  using assms
proof (induction rule: reached.induct)
  case (reached_self p)
  then show ?case by (simp add: lies_here)
next
  case (reached_member p path c nm d)
  then have ih: "sound_parser h c" "p_buffer c = p_buffer p" "lies_at (p_metadata p) path (unat (p_offset c)) (p_metadata c)" by auto
  have "map_of (p_parsers c) nm = Some (Some d)" using reached_member.hyps(2) by (auto simp: read_complex_def split: option.splits)
  from sound_child[OF ih(1) this] ih(2) lies_member[OF ih(3)] show ?case by auto
next
  case (reached_element p path c i n k d)
  then have ih: "sound_parser h c" "p_buffer c = p_buffer p" "lies_at (p_metadata p) path (unat (p_offset c)) (p_metadata c)" by auto
  from reached_element.hyps(2,4) obtain m where m: "k < n_count (n_attr n)" "element_metadata n = Inr m"
    "d = new_parser m (p_buffer c) (p_offset c + n_offset (n_attr n) + element_size n * k)"
    by (auto simp: read_complex_at_by_index_def res_simps not_le split: if_splits)
  from sound_element[OF ih(1) query_by_index_in[OF reached_element.hyps(2)] reached_element.hyps(3) m] ih(2) lies_element[OF ih(3) reached_element.hyps(2)]
  show ?case by (auto simp: m(3))
next
  case (reached_named p path c nm n k d)
  then have ih: "sound_parser h c" "p_buffer c = p_buffer p" "lies_at (p_metadata p) path (unat (p_offset c)) (p_metadata c)" by auto
  from reached_named.hyps(2,5) obtain m where m: "k < n_count (n_attr n)" "element_metadata n = Inr m"
    "d = new_parser m (p_buffer c) (p_offset c + n_offset (n_attr n) + element_size n * k)"
    using reached_named.hyps(4) by (auto simp: read_complex_at_def res_simps not_le split: if_splits)
  from sound_element[OF ih(1) query_node_in[OF reached_named.hyps(2)] reached_named.hyps(3) m] ih(2) lies_named[OF ih(3) reached_named.hyps(2)]
  show ?case by (auto simp: m(3))
qed

section \<open>Properties\<close>

text \<open>C9. A message is a record of its fields. For every description that can be built and every sequence of writes
  to its fields in native byte order, with data of the size of the field, all writes succeed and afterwards every field
  reads the value that was written to it last, or what it read before if it was not written.\<close>

theorem message_is_record:
  assumes "built md" and "parser_create md h = (p, h0)"
    and "\<forall>(i, data) \<in> set ws. native_field md i \<and> field_fits md i data"
  shows "\<exists>h'. res_fold (\<lambda>(i, data). put_field p i data) ws h0 = Inr h' \<and>
           (\<forall>i. native_field md i \<longrightarrow>
              get_field p i h' = (case map_of (rev ws) i of None \<Rightarrow> get_field p i h0 | Some data \<Rightarrow> Inr data))"
  using message.after_writes[of h0 p ws] created_sound[OF built_wf[OF assms(1)] assms(2)] assms(3) by auto

theorem message_is_record_witness:
  "\<exists>h'. res_fold (\<lambda>(i, data). put_field (fst (parser_create example_metadata [])) i data) [(2, [1, 2, 3, 4]), (2, [5, 6, 7, 8])]
            (snd (parser_create example_metadata [])) = Inr h' \<and>
        get_field (fst (parser_create example_metadata [])) 2 h' = Inr [5, 6, 7, 8]"
proof -
  obtain p h0 where create: "parser_create example_metadata [] = (p, h0)" by fastforce
  have "native_field example_metadata 2" "field_fits example_metadata 2 [1, 2, 3, 4]" "field_fits example_metadata 2 [5, 6, 7, 8]"
    by (simp_all add: native_field_def field_fits_def example_metadata_def put_def put_array_def nest_metadata_def
        example_bits_eq built_or_def array_of_def append_node_def new_attr_def node_attr_create_def Let_def)
  with message_is_record[OF built_example create, of "[(2, [1, 2, 3, 4]), (2, [5, 6, 7, 8])]"]
  show ?thesis unfolding create by force
qed


text \<open>A number in a structure in a structure: its place is 4, the sum of two offsets.\<close>

definition example_inner :: binary_metadata where
  "example_inner = snd (put (Some ''x'') 2 UINT16 options_reset (metadata_create False))"

definition example_deep :: binary_metadata where
  "example_deep =
     (let middle = built_or example_inner (nest_metadata (Some ''y'') (Some example_inner) example_inner)
      in built_or example_inner (nest_metadata (Some ''z'') (Some middle) example_inner))"

lemma built_inner: "built example_inner"
  unfolding example_inner_def
  by (rule built_put[OF built_create, of "Some ''x''" 2 UINT16 options_reset False]) (simp_all add: put_def plain_field_def)

lemma example_deep_eq:
  "example_inner = Metadata [] False [Node ((node_attr_create ''x'' 0 2 UINT16 False)\<lparr>n_options := options_reset\<rparr>) None] 2"
  "nest_metadata (Some ''y'') (Some example_inner) example_inner =
     Inr (True, Metadata [] False [Node ((node_attr_create ''x'' 0 2 UINT16 False)\<lparr>n_options := options_reset\<rparr>) None,
                                   Node (node_attr_create ''y'' 2 2 COMPLEX False) (Some example_inner)] 4)"
  by (simp_all add: example_inner_def put_def nest_metadata_def append_node_def new_attr_def field_name_def metadata_create_def)

lemma built_deep:
  "built example_deep"
  "example_deep = Metadata [] False [Node ((node_attr_create ''x'' 0 2 UINT16 False)\<lparr>n_options := options_reset\<rparr>) None,
     Node (node_attr_create ''z'' 2 4 COMPLEX False)
       (Some (Metadata [] False [Node ((node_attr_create ''x'' 0 2 UINT16 False)\<lparr>n_options := options_reset\<rparr>) None,
                                 Node (node_attr_create ''y'' 2 2 COMPLEX False) (Some example_inner)] 4))] 6"
proof -
  let ?m = "Metadata [] False [Node ((node_attr_create ''x'' 0 2 UINT16 False)\<lparr>n_options := options_reset\<rparr>) None,
                               Node (node_attr_create ''y'' 2 2 COMPLEX False) (Some example_inner)] 4"
  let ?d = "Metadata [] False [Node ((node_attr_create ''x'' 0 2 UINT16 False)\<lparr>n_options := options_reset\<rparr>) None,
     Node (node_attr_create ''z'' 2 4 COMPLEX False) (Some ?m)] 6"
  have n: "nest_metadata (Some ''z'') (Some ?m) example_inner = Inr (True, ?d)"
    by (simp add: example_deep_eq(1) nest_metadata_def append_node_def new_attr_def field_name_def)
  show eq: "example_deep = ?d" unfolding example_deep_def example_deep_eq(2) by (simp add: built_or_def n)
  have "built ?m" by (rule built_nest[OF built_inner built_inner example_deep_eq(2)]) (simp add: example_deep_eq(1))
  from built_nest[OF built_inner this n] show "built example_deep" unfolding eq by (simp add: example_deep_eq(1))
qed


text \<open>Fields of the other byte order do not read as they were written: \<^verbatim>\<open>read\<close> converts and
  \<^verbatim>\<open>write\<close> does not, and the conversion exchanges the bytes of every pair instead of reversing the field.\<close>

theorem foreign_endian_field_changes:
  assumes "sound_parser h p" and "i < length (md_nodes (p_metadata p))"
    and "n_type (n_attr (md_nodes (p_metadata p) ! i)) \<noteq> BITMAP" and "n_big_endian (n_attr (md_nodes (p_metadata p) ! i))"
    and "n_size (n_attr (md_nodes (p_metadata p) ! i)) \<noteq> 0"
    and "length data = unat (n_size (n_attr (md_nodes (p_metadata p) ! i)))" and "put_field p i data h = Inr h'"
  shows "get_field p i h' = Inr (swap_pairs data)"
  using get_field_after_put[OF assms(1,2,3,5,6,7)] assms(4) by (simp add: convert_endian_def)

definition example_big_endian :: binary_metadata where
  "example_big_endian = snd (put (Some ''x'') 4 UINT32 options_reset (metadata_create True))"

theorem foreign_endian_field_changes_witness:
  "\<exists>h'. put_field (fst (parser_create example_big_endian [])) 0 [1, 2, 3, 4] (snd (parser_create example_big_endian [])) = Inr h' \<and>
     get_field (fst (parser_create example_big_endian [])) 0 h' = Inr [2, 1, 4, 3]"
proof -
  obtain p h where create: "parser_create example_big_endian [] = (p, h)" by fastforce
  have "built example_big_endian"
    unfolding example_big_endian_def
    by (rule built_put[OF built_create, of "Some ''x''" 4 UINT32 options_reset True]) (simp_all add: put_def plain_field_def)
  from created_sound[OF built_wf[OF this] create] have sound: "sound_parser h p" and md: "p_metadata p = example_big_endian" by auto
  have node: "md_nodes example_big_endian = [Node ((new_attr (metadata_create True) ''x'' 4 UINT32)\<lparr>n_options := options_reset\<rparr>) None]"
    by (simp add: example_big_endian_def put_def)
  let ?a = "n_attr (md_nodes (p_metadata p) ! 0)"
  have a: "0 < length (md_nodes (p_metadata p))" "n_type ?a \<noteq> BITMAP" "n_big_endian ?a" "n_size ?a \<noteq> 0"
      "length [1, 2, 3, 4 :: byte] = unat (n_size ?a)"
    by (simp_all add: md node) (simp_all add: new_attr_def node_attr_create_def)
  from put_field_sound[OF sound a(1,2,4,5)] obtain h' where h': "put_field p 0 [1, 2, 3, 4] h = Inr h'" by auto
  with foreign_endian_field_changes[OF sound a h'] create show ?thesis by simp
qed

text \<open>An enumeration that is not eight bytes large cannot be read by its name, only by its index: by name it is read with
  the size of a 64-bit integer, which is larger than the field.\<close>

theorem small_enum_unreadable_by_name:
  assumes "query_node nm (p_metadata p) = Some node" and "n_size (n_attr node) < 8"
  shows "read_enum h p (Some nm) = Inr None"
  using assms by (simp add: read_enum_def read_enum_by_node_def read_by_node_def Let_def)

theorem small_enum_unreadable_by_name_witness:
  "read_enum [[0, 0, 0, 0]] (new_parser (snd (put_enum (Some ''e'') 4 None options_reset (metadata_create False))) 0 0) (Some ''e'') = Inr None"
  by (rule small_enum_unreadable_by_name) (auto simp: query_node_def put_enum_def field_name_def new_attr_def node_attr_create_def)

text \<open>The element of an array of structures that is asked for by the name of the array is looked up as if the parser began
  at the start of the buffer. Its place differs from that of the same element asked for by index exactly when the parser is a
  nested one with an offset.\<close>

theorem element_by_name_loses_offset:
  assumes "query_node nm (p_metadata p) = Some node" and "query_node_by_index i (p_metadata p) = Some node"
    and "read_complex_at p nm k = Inr (Some c)" and "read_complex_at_by_index p i k = Inr (Some d)"
  shows "p_metadata c = p_metadata d \<and> p_offset d = p_offset p + p_offset c"
  using assms by (auto simp: read_complex_at_def read_complex_at_by_index_def res_simps split: if_splits)

theorem element_by_name_loses_offset_witness:
  "\<exists>c d. read_complex_at (new_parser example_metadata 0 9) ''d'' 1 = Inr (Some c) \<and>
     read_complex_at_by_index (new_parser example_metadata 0 9) 3 1 = Inr (Some d) \<and> p_offset d = 9 + p_offset c"
proof -
  let ?p = "new_parser example_metadata 0 9"
  obtain node where node: "query_node ''d'' (p_metadata ?p) = Some node" "query_node_by_index 3 (p_metadata ?p) = Some node"
      "n_count (n_attr node) = 2" "\<exists>m. element_metadata node = Inr m"
    by (simp add: query_node_def query_node_by_index_def example_metadata_def put_def put_array_def nest_metadata_def element_metadata_def
        element_node_def example_bits_eq built_or_def array_of_def append_node_def new_attr_def node_attr_create_def field_name_def
        metadata_create_def Let_def)
  from node(4) obtain m where "element_metadata node = Inr m" by blast
  with node(1-3) have "\<exists>c. read_complex_at ?p ''d'' 1 = Inr (Some c)" "\<exists>d. read_complex_at_by_index ?p 3 1 = Inr (Some d)"
    by (simp_all add: read_complex_at_def read_complex_at_by_index_def word_le_nat_alt)
  then obtain c d where "read_complex_at ?p ''d'' 1 = Inr (Some c)" "read_complex_at_by_index ?p 3 1 = Inr (Some d)" by blast
  with element_by_name_loses_offset[OF node(1,2), of 1 c d] show ?thesis by auto
qed

text \<open>After a buffer was handed to a parser, its own fields are read from the new buffer, and the fields of nested
  structures still from the old one.\<close>

theorem nested_parsers_keep_old_buffer:
  assumes "sound_parser h p" and "md_size (p_metadata p) = sb_size (h ! b)" and "map_of (p_parsers p) nm = Some (Some c)"
  shows "\<exists>p'. parse_buffer h p b = (True, p') \<and> buffer_of h p' = h ! b \<and>
           read_complex p' (Some nm) = Inr (Some c) \<and> buffer_of h c = buffer_of h p"
  using assms sound_child[OF assms(1,3)] by (simp add: parse_buffer_def buffer_of_def read_complex_def)

theorem nested_parsers_keep_old_buffer_witness:
  "\<exists>p' c. parse_buffer [replicate 7 0, replicate 7 1] (new_parser example_metadata 0 0) 1 = (True, p') \<and>
     read_complex p' (Some ''d'') = Inr (Some c) \<and>
     buffer_of [replicate 7 0, replicate 7 1] c = replicate 7 0"
proof -
  let ?p = "new_parser example_metadata 0 0" and ?h = "[replicate 7 0, replicate 7 (1 :: byte)]"
  have size: "md_size example_metadata = 7"
    by (simp add: example_metadata_def put_def put_array_def nest_metadata_def example_bits_eq built_or_def array_of_def Let_def)
  have sound: "sound_parser ?h ?p" using built_wf[OF built_example] by (simp add: sound_parser_def parser_fits_def buffer_of_def size)
  have "\<exists>c. map_of (p_parsers ?p) ''d'' = Some (Some c)"
    by (simp add: example_metadata_def put_def put_array_def nest_metadata_def example_bits_eq built_or_def array_of_def
        append_node_def new_attr_def node_attr_create_def field_name_def Let_def)
  then obtain c where "map_of (p_parsers ?p) ''d'' = Some (Some c)" by blast
  from nested_parsers_keep_old_buffer[OF sound _ this, of 1] show ?thesis by (auto simp: size sb_size_def buffer_of_def)
qed

text \<open>A field of 60 bits in a unit of eight bytes and one of 10 bits behind it.\<close>

definition example_wide_unit :: binary_metadata where
  "example_wide_unit =
     (let md1 = built_or (metadata_create False) (put_bits (Some ''a'') 60 8 (metadata_create False))
      in built_or md1 (put_bits (Some ''b'') 10 8 md1))"

text \<open>A bit field that does not fit into the rest of an eight byte unit gets a unit of nine bytes, which is copied to a
  variable of eight bytes whenever the field is read or written.\<close>

theorem wide_bit_unit_overruns:
  "read_simple (snd (parser_create example_wide_unit [])) (fst (parser_create example_wide_unit [])) (Some ''b'') data 1 = Inl Undefined"
proof -
  have md: "example_wide_unit = Metadata [] False
       [Node ((node_attr_create ''a'' 0 8 BITMAP False)\<lparr>n_bits := Some (60, 0)\<rparr>) None,
        Node ((node_attr_create ''b'' 0 9 BITMAP False)\<lparr>n_bits := Some (10, 60)\<rparr>) None] 9"
    by (simp add: example_wide_unit_def built_or_def put_bits_def add_bit_node_def bit_placement_def prev_bit_node_def
        append_node_def metadata_create_def field_name_def)
  show ?thesis
    by (simp add: md parser_create_def read_simple_def query_node_def read_by_node_def read_bits_by_node_def buffer_of_def sb_create_def
        safe_read_to_def sb_size_def elem_addr_def mem_read_def mem_write_def node_attr_create_def)
qed

text \<open>Writing an element of an array reports success also when the element lies outside of the buffer and nothing is written.\<close>

theorem write_at_hides_failure:
  assumes "map_of (p_parsers p) nm = Some (Some c)" and "query_node_by_index 0 (p_metadata c) = Some child"
    and "n_type (n_attr child) \<noteq> COMPLEX" and "p_buffer p < length h"
    and "n + (p_offset c + i * n_size (n_attr child)) > sb_size (buffer_of h p)"
  shows "write_at h p nm data n i = Inr (True, h)"
  using assms by (simp add: write_at_def safe_write_from_def set_buffer_def buffer_of_def)

theorem write_at_hides_failure_witness:
  "write_at [replicate 8 0]
     (new_parser (built_or (metadata_create False) (put_array (Some ''v'') 4 UINT32 2 options_reset None (metadata_create False))) 0 0)
     ''v'' [1, 2, 3, 4] 4 2 = Inr (True, [replicate 8 0])"
proof -
  let ?md = "built_or (metadata_create False) (put_array (Some ''v'') 4 UINT32 2 options_reset None (metadata_create False))"
  obtain el where el: "el = snd (put (Some (array_element_name ''v'' 2)) 4 UINT32 options_reset (metadata_create False))" by blast
  have "map_of (p_parsers (new_parser ?md 0 0)) ''v'' = Some (Some (new_parser el 0 0))"
    by (simp add: el put_array_def put_def built_or_def array_of_def append_node_def new_attr_def node_attr_create_def
        field_name_def metadata_create_def Let_def)
  then show ?thesis
    by (rule write_at_hides_failure)
      (auto simp: el query_node_by_index_def put_def new_attr_def node_attr_create_def buffer_of_def sb_size_def)
qed

section \<open>What validation decides\<close>

text \<open>
  The reference: every number lies within its bounds and every enumeration has a value of its type, in the message that
  starts at \<open>base\<close>, including nested structures.
\<close>

definition field_valid :: "bytes \<Rightarrow> nat \<Rightarrow> node_attr \<Rightarrow> bool" where
  "field_valid buf pos a =
     (let data = take (unat (n_size a)) (drop pos buf) in
      if is_simple_type (n_type a) then is_in_bounds (n_options a) data (n_type a)
      else if n_type a = ENUM
      then (case n_enum a of None \<Rightarrow> False | Some e \<Rightarrow> of_int (read_signed (unat (n_size a)) data) \<in> snd ` set (e_items e))
      else True)"

fun md_valid :: "bytes \<Rightarrow> nat \<Rightarrow> binary_metadata \<Rightarrow> bool"
and nodes_valid :: "bytes \<Rightarrow> nat \<Rightarrow> binary_node list \<Rightarrow> bool" where
  "md_valid buf base (Metadata nm be ns sz) = nodes_valid buf base ns"
| "nodes_valid buf base [] = True"
| "nodes_valid buf base (Node a nest # ns) =
     (field_valid buf (base + unat (n_offset a)) a \<and>
      (case nest of None \<Rightarrow> True | Some m \<Rightarrow> md_valid buf (base + unat (n_offset a)) m) \<and> nodes_valid buf base ns)"

text \<open>Descriptions without arrays whose fields have the sizes of their types, native byte order and different names.\<close>

fun typed_md :: "binary_metadata \<Rightarrow> bool" and typed_nodes :: "binary_node list \<Rightarrow> bool" where
  "typed_md (Metadata nm be ns sz) = (distinct (map (\<lambda>n. n_name (n_attr n)) ns) \<and> typed_nodes ns)"
| "typed_nodes [] = True"
| "typed_nodes (Node a nest # ns) =
     (n_type a \<noteq> ARRAY \<and> \<not> n_big_endian a \<and> (is_simple_type (n_type a) \<longrightarrow> unat (n_size a) = sizeof_type (n_type a)) \<and>
      (n_type a = ENUM \<longrightarrow> unat (n_size a) \<in> {1, 2, 4, 8}) \<and>
      (case nest of None \<Rightarrow> True | Some m \<Rightarrow> typed_md m) \<and> typed_nodes ns)"

lemma parse_nested_keeps:
  assumes "nm \<notin> (\<lambda>n. n_name (n_attr n)) ` set ns"
  shows "map_of (parse_nested ns b off m) nm = map_of m nm"
  using assms
proof (induction ns arbitrary: m)
  case (Cons n ns)
  then show ?case
    by (cases n; cases "n_nested n") (auto simp: map_add_def map_of_al_update split: option.splits)
qed simp

lemma parse_nested_complete:
  assumes "wf_nodes ns" and "distinct (map (\<lambda>n. n_name (n_attr n)) ns)"
    and "\<forall>n \<in> set ns. map_of m (n_name (n_attr n)) = None"
    and "Node a (Some md) \<in> set ns" and "n_type a = COMPLEX \<or> n_type a = ARRAY"
  shows "map_of (parse_nested ns b off m) (n_name a) = Some (Some (new_parser md b (off + n_offset a)))"
  using assms
proof (induction ns arbitrary: m)
  case (Cons n ns)
  obtain an nest where n: "n = Node an nest" by (cases n)
  show ?case
  proof (cases "n = Node a (Some md)")
    case True
    let ?m = "m @ [(n_name a, Some (new_parser md b (off + n_offset a)))]"
    have "parse_nested (n # ns) b off m = parse_nested ns b off ?m" using Cons.prems True by simp
    moreover have "n_name a \<notin> (\<lambda>n. n_name (n_attr n)) ` set ns" using Cons.prems(2) True by auto
    ultimately show ?thesis using parse_nested_keeps[of "n_name a" ns b off ?m] Cons.prems(3) True by (simp add: map_add_def)
  next
    case False
    then have tail: "Node a (Some md) \<in> set ns" using Cons.prems(4) by simp
    have wf: "wf_nodes ns" using Cons.prems(1) n by (cases nest) auto
    have step: "\<exists>m'. parse_nested (n # ns) b off m = parse_nested ns b off m' \<and> (\<forall>k \<in> set ns. map_of m' (n_name (n_attr k)) = None)"
    proof (cases "n_type an = COMPLEX \<or> n_type an = ARRAY")
      case True
      then obtain md' where "nest = Some md'" using Cons.prems(1) n by (cases nest) auto
      moreover have "\<forall>k \<in> set ns. n_name (n_attr k) \<noteq> n_name an" using Cons.prems(2) n by force
      ultimately show ?thesis
        using True Cons.prems(3) n
        by (intro exI[of _ "m @ [(n_name an, Some (new_parser md' b (off + n_offset an)))]"]) (auto simp: map_add_def split: option.splits)
    next
      case no: False
      then show ?thesis using Cons.prems(3) n by (intro exI[of _ m]) auto
    qed
    then obtain m' where "parse_nested (n # ns) b off m = parse_nested ns b off m'" "\<forall>k \<in> set ns. map_of m' (n_name (n_attr k)) = None"
      by blast
    with Cons.IH[OF wf _ _ tail Cons.prems(5), of m'] Cons.prems(2) show ?thesis by simp
  qed
qed simp

lemma nodes_valid_all: "nodes_valid buf base ns \<longleftrightarrow> (\<forall>n \<in> set ns. nodes_valid buf base [n])"
proof (induction ns)
  case (Cons n ns)
  then show ?case by (cases n) auto
qed simp

lemma typed_nodes_all: "typed_nodes ns \<longleftrightarrow> (\<forall>n \<in> set ns. typed_nodes [n])"
proof (induction ns)
  case (Cons n ns)
  then show ?case by (cases n) auto
qed simp

lemma res_all_Inr: "(\<And>x. x \<in> set xs \<Longrightarrow> f x = Inr (P x)) \<Longrightarrow> res_all f xs = Inr (\<forall>x \<in> set xs. P x)"
  by (induction xs) auto

lemma is_in_bounds_prefix:
  assumes "sizeof_type type \<le> length data" and "is_simple_type type"
  shows "is_in_bounds options (data @ rest) type = is_in_bounds options data type"
proof -
  have "type \<noteq> BOOL \<Longrightarrow> typed_val type (data @ rest) = typed_val type data"
    using assms by (cases type) (auto simp: is_simple_type_def read_unsigned_def read_signed_def)
  moreover have "type = BOOL \<Longrightarrow> (data @ rest) ! 0 = data ! 0" using assms by (cases data) auto
  ultimately show ?thesis by (auto simp: is_in_bounds_def)
qed

lemma sizeof_simple: "is_simple_type type \<Longrightarrow> 0 < sizeof_type type \<and> sizeof_type type \<le> 8"
  by (cases type) (auto simp: is_simple_type_def)

lemma item_by_val_iff: "item_by_val v e \<noteq> None \<longleftrightarrow> v \<in> snd ` set (e_items e)"
  by (force simp: item_by_val_def find_None_iff image_iff)

lemma read_signed_prefix: "k \<le> length data \<Longrightarrow> read_signed k (data @ rest) = read_signed k data"
  by (simp add: read_signed_def read_unsigned_def)

lemma validate_simple_sound:
  assumes sound: "sound_parser h p" and n: "n \<in> set (md_nodes (p_metadata p))" and type: "is_simple_type (n_type (n_attr n))"
    and size: "unat (n_size (n_attr n)) = sizeof_type (n_type (n_attr n))" and le: "\<not> n_big_endian (n_attr n)"
  shows "validate_simple h p (n_attr n) = Inr (field_valid (buffer_of h p) (unat (p_offset p) + node_start n) (n_attr n))"
proof -
  let ?a = "n_attr n" and ?k = "unat (n_size (n_attr n))"
  have "n_type ?a \<noteq> BITMAP" using type by (auto simp: is_simple_type_def)
  then have r: "read_by_node h p (replicate VAL_SIZE 0) (n_size ?a) ?a = Inr (True, field_bytes h p n ?k @ replicate (8 - ?k) 0)"
    using read_by_node_sound[OF sound n, of "n_size ?a" "replicate VAL_SIZE 0"] sizeof_simple[OF type] size le by (simp add: VAL_SIZE_def)
  have "length (field_bytes h p n ?k) = ?k" using sound_node_inside[OF sound n] by (simp add: field_bytes_def)
  then show ?thesis
    using type r size is_in_bounds_prefix[of "n_type ?a" "field_bytes h p n ?k"]
    by (simp add: validate_simple_def field_valid_def field_bytes_def Let_def)
qed

lemma validate_enum_sound:
  assumes sound: "sound_parser h p" and n: "n \<in> set (md_nodes (p_metadata p))" and type: "n_type (n_attr n) = ENUM"
    and size: "unat (n_size (n_attr n)) \<in> {1, 2, 4, 8}" and le: "\<not> n_big_endian (n_attr n)"
  shows "validate_enum h p (n_attr n) = Inr (field_valid (buffer_of h p) (unat (p_offset p) + node_start n) (n_attr n))"
proof -
  let ?a = "n_attr n" and ?k = "unat (n_size (n_attr n))"
  have r: "read_by_node h p (replicate 8 0) (n_size ?a) ?a = Inr (True, field_bytes h p n ?k @ replicate (8 - ?k) 0)"
    using read_by_node_sound[OF sound n, of "n_size ?a" "replicate 8 0"] size le type by auto
  have len: "length (field_bytes h p n ?k) = ?k" using sound_node_inside[OF sound n] by (simp add: field_bytes_def)
  have "reinterpret_enum (n_size ?a) (field_bytes h p n ?k @ replicate (8 - ?k) 0) = of_int (read_signed ?k (field_bytes h p n ?k))"
    using size len read_signed_prefix[of ?k "field_bytes h p n ?k"] by (auto simp: reinterpret_enum_def)
  with r type show ?thesis
    by (cases "n_enum ?a")
      (simp_all add: validate_enum_def field_valid_def field_bytes_def item_by_val_iff is_simple_type_def Let_def del: not_None_eq)
qed

lemma complex_child:
  assumes sound: "sound_parser h p" and typed: "typed_md (p_metadata p)" and n: "n \<in> set (md_nodes (p_metadata p))"
    and type: "n_type (n_attr n) = COMPLEX"
  shows "\<exists>m c. n_nested n = Some m \<and> read_complex p (Some (n_name (n_attr n))) = Inr (Some c) \<and> p_metadata c = m \<and>
           sound_parser h c \<and> p_buffer c = p_buffer p \<and> unat (p_offset c) = unat (p_offset p) + node_start n \<and> typed_md m"
proof -
  obtain a nest where an: "n = Node a nest" by (cases n)
  have p: "p = new_parser (p_metadata p) (p_buffer p) (p_offset p)" and wf: "wf_nodes (md_nodes (p_metadata p))"
    using sound by (auto simp: sound_parser_def wf_metadata_iff)
  have dist: "distinct (map (\<lambda>n. n_name (n_attr n)) (md_nodes (p_metadata p)))" and tn: "typed_nodes [n]"
    using typed typed_nodes_all[of "md_nodes (p_metadata p)"] n by (cases "p_metadata p"; auto)+
  from wf_nodes_has_nested[OF wf n] type an obtain m where m: "nest = Some m" by auto
  let ?c = "new_parser m (p_buffer p) (p_offset p + n_offset a)"
  have "p_parsers p = parse_nested (md_nodes (p_metadata p)) (p_buffer p) (p_offset p) []" by (subst p) simp
  then have c: "map_of (p_parsers p) (n_name a) = Some (Some ?c)"
    using parse_nested_complete[OF wf dist, of "[]" a m "p_buffer p" "p_offset p"] n an m type by simp
  moreover have "unat (p_offset ?c) = unat (p_offset p) + node_start n" using sound_node_inside(1)[OF sound n] an by simp
  ultimately show ?thesis
    using sound_child[OF sound c] an m tn by (auto simp: read_complex_def)
qed

lemma validate_node_sound:
  assumes sound: "sound_parser h p" and md: "p_metadata p = md" and typed: "typed_md md" and n: "n \<in> set (md_nodes md)"
    and nested: "\<And>m c. size m < size md \<Longrightarrow> sound_parser h c \<Longrightarrow> p_metadata c = m \<Longrightarrow> typed_md m \<Longrightarrow>
      validate_md h m c = Inr (md_valid (buffer_of h c) (unat (p_offset c)) m)"
  shows "validate_node h md p n = Inr (nodes_valid (buffer_of h p) (unat (p_offset p)) [n])"
proof -
  obtain a nest where an: "n = Node a nest" by (cases n)
  note n' = n[folded md]
  have tn: "typed_nodes [n]" using typed n typed_nodes_all[of "md_nodes md"] by (cases md) auto
  have wf: "wf_nodes (md_nodes (p_metadata p))" using sound by (auto simp: sound_parser_def wf_metadata_iff)
  have nest: "nest = None" if "n_type a \<noteq> COMPLEX"
    using that tn wf_nodes_nested[OF wf, of a] n' an by (cases nest) auto
  consider (simple) "is_simple_type (n_type a)" | (enum) "n_type a = ENUM" | (complex) "n_type a = COMPLEX"
    | (other) "\<not> is_simple_type (n_type a)" "n_type a \<noteq> ENUM" "n_type a \<noteq> COMPLEX" by blast
  then show ?thesis
  proof cases
    case simple
    then have "n_type a \<noteq> COMPLEX" by (auto simp: is_simple_type_def)
    with nest simple validate_simple_sound[OF sound n'] tn show ?thesis
      by (simp add: validate_node.simps an node_start_def Let_def)
  next
    case enum
    then have "\<not> is_simple_type (n_type a)" "n_type a \<noteq> COMPLEX" by (auto simp: is_simple_type_def)
    with nest enum validate_enum_sound[OF sound n'] tn show ?thesis
      by (simp add: validate_node.simps an node_start_def Let_def)
  next
    case complex
    from complex_child[OF sound typed[folded md] n'] complex an obtain m c where c: "nest = Some m"
        "read_complex p (Some (n_name a)) = Inr (Some c)" "p_metadata c = m" "sound_parser h c" "p_buffer c = p_buffer p"
        "unat (p_offset c) = unat (p_offset p) + node_start n" "typed_md m" by auto
    have "size m < size md" using size_nested[of n m] size_node[OF n] c(1) an by simp
    from nested[OF this c(4,3,7)] c complex show ?thesis
      by (simp add: validate_node.simps an Let_def node_start_def buffer_of_def field_valid_def is_simple_type_def)
  next
    case other
    with nest tn show ?thesis by (simp add: validate_node.simps an Let_def field_valid_def)
  qed
qed

lemma validate_md_sound:
  "sound_parser h p \<Longrightarrow> p_metadata p = md \<Longrightarrow> typed_md md \<Longrightarrow>
   validate_md h md p = Inr (md_valid (buffer_of h p) (unat (p_offset p)) md)"
proof (induction "size md" arbitrary: md p rule: less_induct)
  case less
  have "res_all (validate_node h md p) (md_nodes md) =
      Inr (\<forall>n \<in> set (md_nodes md). nodes_valid (buffer_of h p) (unat (p_offset p)) [n])"
    using less by (intro res_all_Inr validate_node_sound) auto
  then show ?case
    using nodes_valid_all[of "buffer_of h p" "unat (p_offset p)" "md_nodes md"] by (cases md) (simp add: validate_md.simps)
qed


text \<open>A number that is at most 10, once in a message and once in a structure nested in it.\<close>

definition example_bounded :: binary_metadata where
  "example_bounded = snd (put (Some ''x'') 2 UINT16 (options_reset\<lparr>has_max := True, maxval := [10, 0, 0, 0, 0, 0, 0, 0]\<rparr>) (metadata_create False))"

definition example_outer :: binary_metadata where
  "example_outer = built_or example_bounded (nest_metadata (Some ''y'') (Some example_bounded) example_bounded)"

lemma example_outer_eq:
  "example_bounded = Metadata [] False [Node ((node_attr_create ''x'' 0 2 UINT16 False)
     \<lparr>n_options := options_reset\<lparr>has_max := True, maxval := [10, 0, 0, 0, 0, 0, 0, 0]\<rparr>\<rparr>) None] 2"
  "example_outer = Metadata [] False [Node ((node_attr_create ''x'' 0 2 UINT16 False)
     \<lparr>n_options := options_reset\<lparr>has_max := True, maxval := [10, 0, 0, 0, 0, 0, 0, 0]\<rparr>\<rparr>) None,
     Node (node_attr_create ''y'' 2 2 COMPLEX False) (Some example_bounded)] 4"
  by (simp_all add: example_outer_def example_bounded_def built_or_def put_def nest_metadata_def append_node_def new_attr_def
      field_name_def metadata_create_def)


end
