(* ===== verification/Db_Key.thy ===== *)
theory Db_Key
  imports Cpp_Prelude "HOL-Library.List_Lexorder"
begin

text \<open>
  The keys of the memory database (\<^verbatim>\<open>core::database::key\<close>, \<^verbatim>\<open>key_hash\<close> and
  \<^verbatim>\<open>utils::database::buffered_key\<close>): a length and a fixed array of 16 bytes. The comparison,
  the equality and the hash look at the first \<open>length\<close> bytes only, so two keys that the code
  identifies may still differ as structures; \<open>key_norm\<close> is the part that is looked at.
\<close>

unbundle bit_operations_syntax

definition MAX_KEY_SIZE :: nat where
  "MAX_KEY_SIZE = 16"

record key =
  key_length :: size_t
  key_data :: bytes

text \<open>\<^verbatim>\<open>std::memcmp\<close> on two arrays of at least \<open>n\<close> bytes; only its sign is used.\<close>

fun memcmp :: "bytes \<Rightarrow> bytes \<Rightarrow> nat \<Rightarrow> int" where
  "memcmp (x # xs) (y # ys) (Suc n) = (if x < y then -1 else if y < x then 1 else memcmp xs ys n)"
| "memcmp _ _ _ = 0"

definition key_less :: "key \<Rightarrow> key \<Rightarrow> bool" where
  "key_less a b =
     (let min_length0 = min (key_length a) (key_length b);
          min_length = (if unat min_length0 > MAX_KEY_SIZE then of_nat MAX_KEY_SIZE else min_length0);
          result = memcmp (key_data a) (key_data b) (unat min_length)
      in if result = 0 then min_length < key_length b else result < 0)"

definition key_eq :: "key \<Rightarrow> key \<Rightarrow> bool" where
  "key_eq lhs rhs =
     (if key_length lhs \<noteq> key_length rhs then False
      else let n = min (unat (key_length lhs)) MAX_KEY_SIZE
           in memcmp (key_data lhs) (key_data rhs) n = 0)"

definition key_undefined :: "key \<Rightarrow> bool" where
  "key_undefined k = (key_length k = 0)"

text \<open>The 32-bit groups of the padded copy, read in the byte order of the platform.\<close>

fun le_word :: "bytes \<Rightarrow> 32 word" where
  "le_word [] = 0"
| "le_word (b # bs) = ucast b + 256 * le_word bs"

definition platform_word :: "bool \<Rightarrow> bytes \<Rightarrow> 32 word" where
  "platform_word big_endian bs = le_word (if big_endian then rev bs else bs)"

definition key_hash :: "(32 word \<Rightarrow> size_t) \<Rightarrow> bool \<Rightarrow> key \<Rightarrow> size_t" where
  "key_hash std_hash big_endian k =
     (let n = min (unat (key_length k)) MAX_KEY_SIZE;
          data = take n (key_data k) @ replicate (MAX_KEY_SIZE - n) 0
      in fold (\<lambda>i retval. retval XOR std_hash (platform_word big_endian (take 4 (drop i data))))
           [0, 4, 8, 12] 0)"

text \<open>The two constructors of \<^verbatim>\<open>buffered_key\<close>; \<open>None\<close> is a null pointer.\<close>

definition buffered_key :: "bytes option \<Rightarrow> size_t \<Rightarrow> bytes \<Rightarrow> key result" where
  "buffered_key buffer sz uninitialised =
     (case buffer of
        None \<Rightarrow> Inl (Throws (Invalid_argument ''buffer''))
      | Some buf \<Rightarrow>
          if sz = 0 then Inl (Throws (Invalid_argument ''size''))
          else if unat sz > MAX_KEY_SIZE then Inl (Throws (Runtime_error ''key size exceeds MAX_KEY_SIZE''))
          else res_bind (mem_read buf 0 (unat sz))
                 (\<lambda>bs. res_map (\<lambda>d. \<lparr>key_length = sz, key_data = d\<rparr>) (mem_write uninitialised 0 bs)))"

definition buffered_key_copy :: "key \<Rightarrow> bytes \<Rightarrow> key result" where
  "buffered_key_copy k uninitialised =
     (if key_length k = 0 \<or> unat (key_length k) > MAX_KEY_SIZE
      then Inl (Throws (Invalid_argument ''key''))
      else res_bind (mem_read (key_data k) 0 (unat (key_length k)))
             (\<lambda>bs. res_map (\<lambda>d. \<lparr>key_length = key_length k, key_data = d\<rparr>) (mem_write uninitialised 0 bs)))"

definition key_ok :: "key \<Rightarrow> bool" where
  "key_ok k \<longleftrightarrow> unat (key_length k) \<le> MAX_KEY_SIZE \<and> length (key_data k) = MAX_KEY_SIZE"

definition key_norm :: "key \<Rightarrow> bytes" where
  "key_norm k = take (unat (key_length k)) (key_data k)"

section \<open>Comparison of byte arrays\<close>

lemma memcmp_eq_0: "n \<le> length xs \<Longrightarrow> n \<le> length ys \<Longrightarrow> memcmp xs ys n = 0 \<longleftrightarrow> take n xs = take n ys"
  by (induction xs ys n rule: memcmp.induct) auto

lemma memcmp_neg: "n \<le> length xs \<Longrightarrow> n \<le> length ys \<Longrightarrow> memcmp xs ys n < 0 \<longleftrightarrow> take n xs < take n ys"
  by (induction xs ys n rule: memcmp.induct) auto

lemma lex_less_min:
  fixes xs ys :: "'a::linorder list"
  shows "xs < ys \<longleftrightarrow>
    (let m = min (length xs) (length ys) in
     take m xs < take m ys \<or> take m xs = take m ys \<and> m < length ys)"
proof (induction xs arbitrary: ys)
  case Nil
  then show ?case by (cases ys) auto
next
  case (Cons x xs)
  then show ?case by (cases ys) (auto simp: Let_def)
qed

lemma min_unat: "unat (min a b) = min (unat a) (unat (b :: 'a::len word))"
  by (auto simp: min_def word_le_nat_alt)

lemma key_norm_length: "key_ok k \<Longrightarrow> length (key_norm k) = unat (key_length k)"
  by (simp add: key_ok_def key_norm_def)

lemma take_key_norm: "m \<le> unat (key_length k) \<Longrightarrow> take m (key_norm k) = take m (key_data k)"
  by (simp add: key_norm_def min_absorb1)

lemma key_less_norm:
  assumes "key_ok a" and "key_ok b"
  shows "key_less a b \<longleftrightarrow> key_norm a < key_norm b"
proof -
  let ?m = "min (unat (key_length a)) (unat (key_length b))"
  have m: "?m \<le> length (key_data a)" "?m \<le> length (key_data b)" "\<not> MAX_KEY_SIZE < ?m"
    using assms by (auto simp: key_ok_def)
  have "key_less a b \<longleftrightarrow>
      (if memcmp (key_data a) (key_data b) ?m = 0 then ?m < unat (key_length b)
       else memcmp (key_data a) (key_data b) ?m < 0)"
    using m by (simp add: key_less_def Let_def min_unat word_less_nat_alt del: min_less_iff_conj)
  also have "\<dots> \<longleftrightarrow> key_norm a < key_norm b"
    using m assms
    by (subst lex_less_min)
       (auto simp: Let_def memcmp_eq_0 memcmp_neg key_norm_length take_key_norm)
  finally show ?thesis .
qed

lemma key_eq_norm:
  assumes "key_ok a" and "key_ok b"
  shows "key_eq a b \<longleftrightarrow> key_norm a = key_norm b"
proof (cases "key_length a = key_length b")
  case True
  moreover have "min (unat (key_length b)) MAX_KEY_SIZE = unat (key_length b)"
    using assms by (simp add: key_ok_def)
  ultimately show ?thesis
    using assms by (simp add: key_eq_def Let_def memcmp_eq_0 key_ok_def key_norm_def)
next
  case False
  then have "length (key_norm a) \<noteq> length (key_norm b)"
    using assms by (simp add: key_norm_length word_unat_eq_iff)
  then have "key_norm a \<noteq> key_norm b" by metis
  with False show ?thesis by (simp add: key_eq_def)
qed

lemma key_hash_norm:
  assumes "key_ok k"
  shows "key_hash h e k =
     (let data = key_norm k @ replicate (MAX_KEY_SIZE - length (key_norm k)) 0
      in fold (\<lambda>i r. r XOR h (platform_word e (take 4 (drop i data)))) [0, 4, 8, 12] 0)"
proof -
  have "min (unat (key_length k)) MAX_KEY_SIZE = unat (key_length k)"
    using assms by (simp add: key_ok_def)
  then show ?thesis
    unfolding key_hash_def Let_def key_norm_length[OF assms] by (simp only: key_norm_def)
qed

lemma buffered_key_ok:
  assumes "buffered_key (Some buf) sz u = Inr k" and "length u = MAX_KEY_SIZE"
  shows "key_ok k \<and> \<not> key_undefined k \<and> key_norm k = take (unat sz) buf"
  using assms
  by (auto simp: buffered_key_def res_simps mem_read_def mem_write_def key_ok_def key_norm_def
      key_undefined_def split: if_splits)

text \<open>The keys that \<^verbatim>\<open>buffered_key\<close> copies; it throws for every other one.\<close>

definition key_buffered :: "key \<Rightarrow> bool" where
  "key_buffered k \<longleftrightarrow> \<not> key_undefined k \<and> unat (key_length k) \<le> MAX_KEY_SIZE \<and> unat (key_length k) \<le> length (key_data k)"

lemma buffered_key_copy_ok:
  assumes "key_buffered k" and "length u = MAX_KEY_SIZE"
  shows "\<exists>k'. buffered_key_copy k u = Inr k' \<and> key_norm k' = key_norm k"
  using assms by (auto simp: key_buffered_def key_undefined_def buffered_key_copy_def mem_read_def mem_write_def key_norm_def)

lemma buffered_key_copy_throws:
  "length (key_data k) = MAX_KEY_SIZE \<Longrightarrow> \<not> key_buffered k \<Longrightarrow> buffered_key_copy k u = Inl (Throws (Invalid_argument ''key''))"
  by (auto simp: key_buffered_def key_undefined_def buffered_key_copy_def)

lemma buffered_key_copy_Inr: "buffered_key_copy k u = Inr k' \<Longrightarrow> key_buffered k"
  by (auto simp: key_buffered_def key_undefined_def buffered_key_copy_def mem_read_def res_simps split: if_splits)

lemma key_ok_buffered: "key_ok k \<Longrightarrow> \<not> key_undefined k \<Longrightarrow> key_buffered k"
  by (simp add: key_ok_def key_buffered_def)

section \<open>Properties\<close>

text \<open>Where the keys come from \<^verbatim>\<open>buffered_key\<close> (at most 16 bytes), \<^verbatim>\<open>operator<\<close> is a
  strict linear order up to \<^verbatim>\<open>operator==\<close>: exactly one of \<open>a < b\<close>, \<open>a == b\<close>, \<open>b < a\<close> holds,
  and the order is transitive. This is what an ordered container of keys relies on.\<close>

theorem key_order_total:
  assumes "key_ok a" and "key_ok b" and "key_ok c"
  shows "(key_less a b \<longleftrightarrow> \<not> key_eq a b \<and> \<not> key_less b a) \<and>
         (key_less a b \<longrightarrow> key_less b c \<longrightarrow> key_less a c)"
  using assms by (auto simp: key_less_norm key_eq_norm)

theorem key_order_total_witness:
  "key_less \<lparr>key_length = 1, key_data = 1 # replicate 15 0\<rparr> \<lparr>key_length = 2, key_data = 1 # replicate 15 0\<rparr> \<and>
   \<not> key_less \<lparr>key_length = 2, key_data = 1 # replicate 15 0\<rparr> \<lparr>key_length = 1, key_data = 1 # replicate 15 0\<rparr>"
proof -
  let ?a = "\<lparr>key_length = 1, key_data = 1 # replicate 15 0\<rparr>"
  let ?b = "\<lparr>key_length = 2, key_data = 1 # replicate 15 0\<rparr>"
  have ok: "key_ok ?a" "key_ok ?b" by (simp_all add: key_ok_def MAX_KEY_SIZE_def)
  have "key_less ?a ?b" by code_simp
  with key_order_total[OF ok(1) ok(2) ok(1)] show ?thesis by blast
qed

text \<open>Two keys that \<^verbatim>\<open>operator==\<close> identifies have the same hash, whatever the bytes behind
  their length are, so a lookup in a hash map of keys finds the entry stored under an equal key.\<close>

theorem key_hash_respects_eq:
  assumes "key_ok a" and "key_ok b" and "key_eq a b"
  shows "key_hash std_hash big_endian a = key_hash std_hash big_endian b"
  using assms by (simp add: key_hash_norm key_eq_norm)

theorem key_hash_respects_eq_witness:
  "key_hash (\<lambda>w. ucast w) False \<lparr>key_length = 1, key_data = 7 # replicate 15 0\<rparr> =
   key_hash (\<lambda>w. ucast w) False \<lparr>key_length = 1, key_data = 7 # replicate 15 9\<rparr>"
proof (rule key_hash_respects_eq)
  show "key_ok \<lparr>key_length = 1, key_data = 7 # replicate 15 0\<rparr>"
    and "key_ok \<lparr>key_length = 1, key_data = 7 # replicate 15 9\<rparr>"
    by (simp_all add: key_ok_def MAX_KEY_SIZE_def)
  show "key_eq \<lparr>key_length = 1, key_data = 7 # replicate 15 0\<rparr> \<lparr>key_length = 1, key_data = 7 # replicate 15 9\<rparr>"
    by code_simp
qed

end
