(* ===== verification/Callbacks.thy ===== *)
theory Callbacks
  imports Cpp_Prelude
begin

text \<open>
  The notification primitives of \<^verbatim>\<open>Include/utils\<close>: \<^verbatim>\<open>callback_handler\<close> (a vector of
  callback objects, used by rows, tables, datasets and disposable objects) and \<^verbatim>\<open>signal\<close> (an
  ordered map from integer tokens to functions).

  Both raise their subscribers on a copy that is taken under the lock: up to 32 entries are copied
  into a fixed array on the stack, more into a heap vector. The two copies are modelled as the
  index loops of the source over an array of pointers (\<open>None\<close> is the null pointer), so that the
  bound of the stack array is part of what is proved.

  The locale \<open>callback_registry\<close> is the contract of \<^verbatim>\<open>subscribe_callback\<close> /
  \<^verbatim>\<open>unsubscribe_callback\<close> that every owner of a handler offers to its clients.
\<close>

section \<open>Copying the subscribers and invoking the copy\<close>

definition MAX_STACK_CALLBACK_COUNT :: nat where
  "MAX_STACK_CALLBACK_COUNT = 32"

definition array_store :: "'a option list \<Rightarrow> nat \<Rightarrow> 'a \<Rightarrow> 'a option list result" where
  "array_store arr i x = (if i < length arr then Inr (arr[i := Some x]) else Inl Undefined)"

fun copy_loop :: "'a list \<Rightarrow> nat \<Rightarrow> 'a option list \<Rightarrow> 'a option list result" where
  "copy_loop [] i arr = Inr arr"
| "copy_loop (x # xs) i arr = res_bind (array_store arr i x) (copy_loop xs (Suc i))"

fun call_loop :: "('a \<Rightarrow> 's \<Rightarrow> 's) \<Rightarrow> nat \<Rightarrow> 'a option list \<Rightarrow> 's \<Rightarrow> 's result" where
  "call_loop f 0 arr s = Inr s"
| "call_loop f (Suc n) (Some x # arr) s = call_loop f n arr (f x s)"
| "call_loop f (Suc n) (None # arr) s = Inl Undefined"
| "call_loop f (Suc n) [] s = Inl Undefined"

section \<open>callback\_handler\<close>

definition raise_callbacks :: "('s \<Rightarrow> 'c list) \<Rightarrow> ('c \<Rightarrow> 's \<Rightarrow> 's) \<Rightarrow> 's \<Rightarrow> 's result" where
  "raise_callbacks callbacks callable s =
     (let callback_count = length (callbacks s) in
      if callback_count \<le> MAX_STACK_CALLBACK_COUNT
      then res_bind (copy_loop (callbacks s) 0 (replicate MAX_STACK_CALLBACK_COUNT None))
             (\<lambda>cloned_callbacks. call_loop callable callback_count cloned_callbacks s)
      else res_bind (copy_loop (callbacks s) 0 (replicate callback_count None))
             (\<lambda>cloned_callbacks. call_loop callable callback_count cloned_callbacks s))"

definition add_callback :: "'c \<Rightarrow> 'c list \<Rightarrow> bool \<times> 'c list" where
  "add_callback callback callbacks =
     (if callback \<in> set callbacks then (False, callbacks) else (True, callbacks @ [callback]))"

definition remove_callback :: "'c \<Rightarrow> 'c list \<Rightarrow> bool \<times> 'c list" where
  "remove_callback callback callbacks =
     (if callback \<notin> set callbacks then (False, callbacks) else (True, remove1 callback callbacks))"

definition clear_callbacks :: "'c list \<Rightarrow> 'c list" where
  "clear_callbacks callbacks = []"

section \<open>signal\<close>

type_synonym signal_token = int
type_synonym 'f signal = "(signal_token \<times> 'f) list"

definition signal_token_undefined :: signal_token where
  "signal_token_undefined = -1"

definition INT_MAX :: int where
  "INT_MAX = 2147483647"

definition MAX_STACK_SUBSCRIBERS_COUNT :: nat where
  "MAX_STACK_SUBSCRIBERS_COUNT = 32"

function signal_free_token :: "'f signal \<Rightarrow> signal_token \<Rightarrow> signal_token" where
  "signal_free_token subs i =
     (if i < INT_MAX
      then if map_of subs i = None then i else signal_free_token subs (i + 1)
      else signal_token_undefined)"
  by pat_completeness auto
termination
  by (relation "measure (\<lambda>(subs, i). nat (INT_MAX - i))") auto

declare signal_free_token.simps [simp del]

text \<open>\<^verbatim>\<open>std::map::emplace\<close>: insertion at the place of the key in the order of the keys.\<close>

fun map_emplace :: "int \<Rightarrow> 'v \<Rightarrow> (int \<times> 'v) list \<Rightarrow> (int \<times> 'v) list" where
  "map_emplace k v [] = [(k, v)]"
| "map_emplace k v ((k', v') # m) =
     (if k < k' then (k, v) # (k', v') # m
      else if k = k' then (k', v') # m
      else (k', v') # map_emplace k v m)"

definition signal_subscribe :: "'f \<Rightarrow> 'f signal \<Rightarrow> signal_token \<times> nat \<times> 'f signal" where
  "signal_subscribe func subs =
     (let token = signal_free_token subs 0;
          subs' = (if token \<noteq> signal_token_undefined then map_emplace token func subs else subs)
      in (token, length subs', subs'))"

definition signal_unsubscribe :: "signal_token \<Rightarrow> 'f signal \<Rightarrow> bool \<times> nat \<times> 'f signal" where
  "signal_unsubscribe token subs =
     (case map_of subs token of
        None \<Rightarrow> (False, length subs, subs)
      | Some _ \<Rightarrow> (let subs' = al_remove token subs in (True, length subs', subs')))"

definition signal_raise :: "('s \<Rightarrow> 'f signal) \<Rightarrow> ('f \<Rightarrow> 's \<Rightarrow> 's) \<Rightarrow> 's \<Rightarrow> (bool \<times> 's) result" where
  "signal_raise subscribers invoke s =
     (let subscribers_count = length (subscribers s) in
      if subscribers_count > 0 then
        res_map (\<lambda>s'. (False, s'))
          (if subscribers_count \<le> MAX_STACK_SUBSCRIBERS_COUNT
           then res_bind (copy_loop (map snd (subscribers s)) 0 (replicate MAX_STACK_SUBSCRIBERS_COUNT None))
                  (\<lambda>cloned_functions. call_loop invoke subscribers_count cloned_functions s)
           else res_bind (copy_loop (map snd (subscribers s)) 0 (replicate subscribers_count None))
                  (\<lambda>cloned_functions. call_loop invoke subscribers_count cloned_functions s))
      else Inr (False, s))"

definition signal_count :: "'f signal \<Rightarrow> nat" where
  "signal_count subs = length subs"

text \<open>Move construction and assignment empty the source.\<close>

definition signal_move :: "'f signal \<Rightarrow> 'f signal \<times> 'f signal" where
  "signal_move other = (other, [])"

definition signal_inv :: "'f signal \<Rightarrow> bool" where
  "signal_inv subs \<longleftrightarrow> sorted_wrt (<) (map fst subs) \<and> (\<forall>t \<in> fst ` set subs. 0 \<le> t \<and> t < INT_MAX)"

section \<open>The contract of an owner of callbacks\<close>

locale callback_registry =
  fixes cbs :: "'s \<Rightarrow> 'c list"
    and add :: "'c \<Rightarrow> 's \<Rightarrow> bool \<times> 's"
    and remove :: "'c \<Rightarrow> 's \<Rightarrow> bool \<times> 's"
  assumes add_reports: "fst (add c s) \<longleftrightarrow> c \<notin> set (cbs s)"
    and add_appends: "cbs (snd (add c s)) = (if c \<in> set (cbs s) then cbs s else cbs s @ [c])"
    and remove_reports: "fst (remove c s) \<longleftrightarrow> c \<in> set (cbs s)"
    and remove_drops: "cbs (snd (remove c s)) = remove1 c (cbs s)"
begin

lemma add_distinct: "distinct (cbs s) \<Longrightarrow> distinct (cbs (snd (add c s)))"
  by (simp add: add_appends)

lemma remove_distinct: "distinct (cbs s) \<Longrightarrow> distinct (cbs (snd (remove c s)))"
  by (simp add: remove_drops)

lemma added_is_member: "c \<in> set (cbs (snd (add c s)))"
  by (simp add: add_appends)

lemma add_twice: "\<not> fst (add c (snd (add c s)))"
  by (simp add: add_reports added_is_member)

lemma removed_not_member: "distinct (cbs s) \<Longrightarrow> c \<notin> set (cbs (snd (remove c s)))"
  by (simp add: remove_drops)

lemma remove_twice: "distinct (cbs s) \<Longrightarrow> \<not> fst (remove c (snd (remove c s)))"
  by (simp add: remove_reports removed_not_member)

lemma add_remove: "c \<notin> set (cbs s) \<Longrightarrow> cbs (snd (remove c (snd (add c s)))) = cbs s"
  by (simp add: remove_drops add_appends remove1_append)

lemma others_kept:
  "d \<noteq> c \<Longrightarrow> d \<in> set (cbs (snd (add c s))) \<longleftrightarrow> d \<in> set (cbs s)"
  "d \<noteq> c \<Longrightarrow> d \<in> set (cbs (snd (remove c s))) \<longleftrightarrow> d \<in> set (cbs s)"
  by (auto simp: add_appends remove_drops)

end

interpretation handler: callback_registry "\<lambda>cs. cs" add_callback remove_callback
  by unfold_locales (auto simp: add_callback_def remove_callback_def remove1_idem)

section \<open>The copy is complete and the loops stay in bounds\<close>

lemma copy_loop_eq:
  "i + length xs \<le> length arr \<Longrightarrow>
   copy_loop xs i arr = Inr (take i arr @ map Some xs @ drop (i + length xs) arr)"
proof (induction xs arbitrary: i arr)
  case Nil
  then show ?case by simp
next
  case (Cons x xs)
  then have i: "i < length arr" and "Suc i + length xs \<le> length (arr[i := Some x])" by simp_all
  from Cons.IH[OF this(2)] have
    "copy_loop xs (Suc i) (arr[i := Some x]) =
       Inr (take (Suc i) (arr[i := Some x]) @ map Some xs @ drop (Suc i + length xs) (arr[i := Some x]))" .
  moreover have "take (Suc i) (arr[i := Some x]) = take i arr @ [Some x]"
    using i by (simp add: take_Suc_conv_app_nth)
  ultimately show ?case
    using i by (simp add: array_store_def)
qed

lemma call_loop_map_Some: "call_loop f (length xs) (map Some xs @ ys) s = Inr (fold f xs s)"
  by (induction xs arbitrary: s) auto

lemma copy_then_call:
  "length xs \<le> n \<Longrightarrow>
   res_bind (copy_loop xs 0 (replicate n None)) (\<lambda>arr. call_loop f (length xs) arr s) =
     Inr (fold f xs s)"
  by (simp add: copy_loop_eq call_loop_map_Some)

lemma raise_callbacks_fold: "raise_callbacks cbs f s = Inr (fold f (cbs s) s)"
  by (simp add: raise_callbacks_def copy_then_call Let_def)

lemma copy_then_call_snd:
  "length xs \<le> n \<Longrightarrow>
   res_bind (copy_loop (map snd xs) 0 (replicate n None)) (\<lambda>arr. call_loop f (length xs) arr s) =
     Inr (fold f (map snd xs) s)"
  using copy_then_call[of "map snd xs" n f s] by simp

lemma signal_raise_fold:
  "signal_raise subs f s = Inr (False, fold f (map snd (subs s)) s)"
  by (cases "subs s = []") (simp_all add: signal_raise_def copy_then_call_snd Let_def)

section \<open>Tokens of a signal\<close>

lemma map_emplace_keys: "fst ` set (map_emplace k v m) = insert k (fst ` set m)"
  by (induction k v m rule: map_emplace.induct) auto

lemma map_emplace_sorted:
  "sorted_wrt (<) (map fst m) \<Longrightarrow> sorted_wrt (<) (map fst (map_emplace k v m))"
proof (induction k v m rule: map_emplace.induct)
  case (2 k v k' v' m)
  then show ?case
    using map_emplace_keys[of k v m] by (force simp flip: image_image simp: image_iff)
qed simp

lemma map_of_map_emplace:
  "map_of m k = None \<Longrightarrow> map_of (map_emplace k v m) = (map_of m)(k \<mapsto> v)"
  by (induction k v m rule: map_emplace.induct) (auto simp: fun_eq_iff split: if_splits)

lemma length_map_emplace:
  "map_of m k = None \<Longrightarrow> length (map_emplace k v m) = Suc (length m)"
  by (induction k v m rule: map_emplace.induct) (auto split: if_splits)

lemma al_remove_map_emplace:
  "map_of m k = None \<Longrightarrow> al_remove k (map_emplace k v m) = m"
proof (induction k v m rule: map_emplace.induct)
  case (2 k v k' v' m)
  then have "k \<notin> fst ` set m"
    by (auto simp: map_of_eq_None_iff split: if_splits)
  then have "al_remove k m = m" by (rule al_remove_notin)
  with 2 show ?case by (auto simp: al_remove_def split: if_splits)
qed (simp add: al_remove_def)

text \<open>The token found is the first free one, if one is found at all.\<close>

lemma signal_free_token_first:
  assumes "signal_free_token subs i = t" and "t \<noteq> signal_token_undefined"
  shows "i \<le> t \<and> t < INT_MAX \<and> map_of subs t = None \<and> (\<forall>j. i \<le> j \<and> j < t \<longrightarrow> map_of subs j \<noteq> None)"
  using assms
proof (induction subs i rule: signal_free_token.induct)
  case (1 subs i)
  show ?case
  proof (cases "i < INT_MAX \<and> map_of subs i \<noteq> None")
    case True
    with 1 have IH: "i + 1 \<le> t \<and> t < INT_MAX \<and> map_of subs t = None \<and>
        (\<forall>j. i + 1 \<le> j \<and> j < t \<longrightarrow> map_of subs j \<noteq> None)"
      by (simp add: signal_free_token.simps[of subs i] split: if_splits)
    moreover have "map_of subs j \<noteq> None" if "i \<le> j" "j < t" for j
      using IH True that by (cases "j = i") auto
    ultimately show ?thesis by auto
  next
    case False
    with 1 show ?thesis
      by (auto simp: signal_free_token.simps[of subs i] split: if_splits)
  qed
qed

lemma signal_free_token_none:
  "0 \<le> i \<Longrightarrow> signal_free_token subs i = signal_token_undefined \<Longrightarrow>
   i \<le> j \<Longrightarrow> j < INT_MAX \<Longrightarrow> map_of subs j \<noteq> None"
proof (induction subs i rule: signal_free_token.induct)
  case (1 subs i)
  then show ?case
    by (cases "j = i")
       (auto simp: signal_free_token.simps[of subs i] signal_token_undefined_def split: if_splits)
qed

lemma signal_free_token_exists:
  assumes "int (length subs) < INT_MAX"
  shows "signal_free_token subs 0 \<noteq> signal_token_undefined"
proof
  assume "signal_free_token subs 0 = signal_token_undefined"
  then have "\<forall>j \<in> {0..<INT_MAX}. j \<in> fst ` set subs"
    using signal_free_token_none[of 0 subs] by (auto simp: map_of_eq_None_iff)
  then have "card {0..<INT_MAX} \<le> card (fst ` set subs)"
    by (intro card_mono) auto
  also have "\<dots> \<le> length subs"
    by (metis card_length length_map list.set_map)
  finally show False
    using assms by simp
qed

lemma sorted_filter_fst: "sorted_wrt (<) (map fst m) \<Longrightarrow> sorted_wrt (<) (map fst (filter P m))"
  by (induction m) auto

lemma signal_inv_al_remove: "signal_inv subs \<Longrightarrow> signal_inv (al_remove t subs)"
  by (auto simp: signal_inv_def al_remove_def sorted_filter_fst)

lemma signal_inv_map_emplace:
  "signal_inv subs \<Longrightarrow> 0 \<le> t \<Longrightarrow> t < INT_MAX \<Longrightarrow> signal_inv (map_emplace t f subs)"
  by (auto simp: signal_inv_def map_emplace_sorted map_emplace_keys)

section \<open>Properties\<close>

text \<open>Raising a handler never leaves the 32-entry array nor dereferences an empty slot, however
  many callbacks are registered, and it calls exactly the callbacks that were registered when it
  started, once each and in order of registration, also when the callbacks themselves add to or
  remove from the handler.\<close>

theorem raise_calls_snapshot:
  "raise_callbacks callbacks callable s = Inr (fold callable (callbacks s) s)"
  by (rule raise_callbacks_fold)

text \<open>Registration: adding reports whether the callback is new, removing reports whether it was
  there; a removed callback is gone, every other one stays, and removing what was just added
  restores the handler. A handler without duplicates stays without duplicates.\<close>

theorem handler_registration:
  assumes "distinct cs"
  shows "fst (add_callback c cs) = (c \<notin> set cs) \<and> fst (remove_callback c cs) = (c \<in> set cs) \<and>
         distinct (snd (add_callback c cs)) \<and> distinct (snd (remove_callback c cs)) \<and>
         set (snd (add_callback c cs)) = insert c (set cs) \<and>
         set (snd (remove_callback c cs)) = set cs - {c} \<and>
         (c \<in> set cs \<or> remove_callback c (snd (add_callback c cs)) = (True, cs))"
  using assms handler.add_distinct[OF assms, of c] handler.remove_distinct[OF assms, of c]
    handler.add_reports[of c cs] handler.remove_reports[of c cs] handler.add_appends[of c cs]
    handler.remove_drops[of c cs] handler.add_remove[of c cs]
  by (auto simp: prod_eq_iff handler.remove_reports)

theorem handler_registration_witness:
  "remove_callback (3::nat) (snd (add_callback 3 [1, 2])) = (True, [1, 2])"
  using handler_registration[of "[1, 2::nat]" 3] by simp

text \<open>Subscribing to a signal takes the least free token, keeps every other subscription, and
  unsubscribing that token restores the signal; the signal's invariant (tokens in increasing order,
  non-negative and below INT\_MAX) is kept by both. It fails only when INT\_MAX subscribers
  are there.\<close>

theorem signal_subscribe_correct:
  assumes "signal_inv subs" and "int (length subs) < INT_MAX"
    and "signal_subscribe func subs = (token, n, subs')"
  shows "0 \<le> token \<and> map_of subs token = None \<and> (\<forall>j. 0 \<le> j \<and> j < token \<longrightarrow> map_of subs j \<noteq> None) \<and>
         map_of subs' = (map_of subs)(token \<mapsto> func) \<and> n = Suc (length subs) \<and> signal_inv subs' \<and>
         signal_unsubscribe token subs' = (True, length subs, subs)"
proof -
  have u: "signal_free_token subs 0 \<noteq> signal_token_undefined"
    using assms(2) by (rule signal_free_token_exists)
  with assms(3) have t: "token = signal_free_token subs 0" and s': "subs' = map_emplace token func subs"
    and n: "n = length subs'"
    by (auto simp: signal_subscribe_def Let_def)
  have f: "0 \<le> token \<and> token < INT_MAX \<and> map_of subs token = None \<and>
      (\<forall>j. 0 \<le> j \<and> j < token \<longrightarrow> map_of subs j \<noteq> None)"
    using signal_free_token_first[of subs 0 token] t u by simp
  with assms(1) have "signal_inv subs'" unfolding s' by (intro signal_inv_map_emplace) auto
  with f s' n show ?thesis
    by (simp add: map_of_map_emplace length_map_emplace signal_unsubscribe_def al_remove_map_emplace)
qed

theorem signal_subscribe_correct_witness:
  "signal_subscribe CHR ''c'' [(0, CHR ''a''), (2, CHR ''b'')] =
     (1, 3, [(0, CHR ''a''), (1, CHR ''c''), (2, CHR ''b'')]) \<and>
   signal_unsubscribe 1 [(0, CHR ''a''), (1, CHR ''c''), (2, CHR ''b'')] =
     (True, 2, [(0, CHR ''a''), (2, CHR ''b'')])"
proof -
  have sub: "signal_subscribe CHR ''c'' [(0, CHR ''a''), (2, CHR ''b'')] =
     (1, 3, [(0, CHR ''a''), (1, CHR ''c''), (2, CHR ''b'')])"
    by (simp add: signal_subscribe_def signal_free_token.simps INT_MAX_def signal_token_undefined_def)
  have inv: "signal_inv [(0, CHR ''a''), (2, CHR ''b'')]" by (simp add: signal_inv_def INT_MAX_def)
  have "int (length [(0::int, CHR ''a''), (2, CHR ''b'')]) < INT_MAX" by (simp add: INT_MAX_def)
  from signal_subscribe_correct[OF inv this sub] sub show ?thesis by simp
qed

text \<open>Raising a signal stays inside its 32-entry array and invokes the functions of the
  subscribers present at the start, in the order of their tokens; the value returned is always
  false.\<close>

theorem signal_raise_in_token_order:
  "signal_raise subscribers invoke s = Inr (False, fold invoke (map snd (subscribers s)) s)"
  by (rule signal_raise_fold)

end
