(* ===== verification/Memory_Row.thy ===== *)
theory Memory_Row
  imports Db_Key Types_Util Callbacks
begin

text \<open>
  A row of the memory database: \<^verbatim>\<open>Modules/database/memory_database/row.cpp\<close> on top of
  \<^verbatim>\<open>row_base\<close> (\<^verbatim>\<open>Include/utils/database.hpp\<close>).

  A bounded row owns a buffer of its maximal size placed behind the object; an unbounded one
  allocates and grows its buffer as it is written. \<open>row_value\<close> is what a row stands for, a sequence
  of bytes, and the locale \<open>byte_cell\<close> is the contract of such a cell: what is written is read
  back, padded with zeros.

  Pointers are options (\<open>None\<close> is \<^verbatim>\<open>nullptr\<close>), the contents of freshly allocated memory are given
  by the parameter \<open>junk\<close>, allocation succeeds (so that the sizes of the object and of the data behind it, which
  \<^verbatim>\<open>create\<close> adds without a test, do not wrap around at 64 bits), and a row callback is recorded in the list of
  notifications with the arguments it is called with. The interfaces of parsers that
  \<^verbatim>\<open>check_and_write_bytes\<close> calls are the functions of \<open>parser_ops\<close>.
\<close>

section \<open>State\<close>

definition UNBOUNDED_ROW_SIZE :: size_t where
  "UNBOUNDED_ROW_SIZE = - 1"

record row_info =
  ri_type :: type_enum
  ri_name :: string
  ri_description :: string
  ri_type_name :: string

type_synonym row_callback = nat
type_synonym notification = "row_callback \<times> size_t \<times> bytes option"

record 'm row =
  r_key :: key
  r_info :: row_info
  r_parser_metadata :: "'m option"
  r_parent :: "nat option"
  r_callbacks :: "row_callback list"
  r_max_size :: size_t
  r_current_size :: size_t
  r_buffer :: "bytes option"
  r_unbounded :: bool
  r_allocation_size :: size_t
  r_write_priority :: byte

record ('m, 'p) parser_ops =
  po_create_parser :: "'m \<Rightarrow> 'p option"
  po_buffer_size :: "'p \<Rightarrow> size_t"
  po_parse :: "'p \<Rightarrow> bytes option \<Rightarrow> size_t \<Rightarrow> bool \<times> 'p"
  po_validate :: "'p \<Rightarrow> bool"

definition is_empty_type :: "'m row \<Rightarrow> bool" where
  "is_empty_type r \<longleftrightarrow> ri_type (r_info r) = EMPTY_TYPE"

section \<open>Construction\<close>

text \<open>The constructor; \<open>buffer\<close> is the memory behind the object, if there is some.\<close>

definition memory_row_impl ::
  "key \<Rightarrow> size_t \<Rightarrow> bytes option \<Rightarrow> row_info \<Rightarrow> 'm option \<Rightarrow> nat option \<Rightarrow> 'm row" where
  "memory_row_impl key sz buffer info parser parent =
     \<lparr>r_key = key, r_info = info, r_parser_metadata = parser, r_parent = parent, r_callbacks = [],
      r_max_size = (if buffer = None then UNBOUNDED_ROW_SIZE else sz),
      r_current_size = 0,
      r_buffer = map_option mem_zero buffer,
      r_unbounded = (buffer = None),
      r_allocation_size = 0,
      r_write_priority = 0\<rparr>"

definition fresh :: "(nat \<Rightarrow> byte) \<Rightarrow> nat \<Rightarrow> bytes" where
  "fresh junk n = map junk [0..<n]"

definition memory_row_create ::
  "(nat \<Rightarrow> byte) \<Rightarrow> key \<Rightarrow> size_t \<Rightarrow> row_info \<Rightarrow> 'm option \<Rightarrow> nat option \<Rightarrow> 'm row option" where
  "memory_row_create junk key sz info parser parent =
     (if sz = 0 \<and> ri_type info \<noteq> EMPTY_TYPE then None
      else if sz \<noteq> UNBOUNDED_ROW_SIZE
      then Some (memory_row_impl key sz (Some (fresh junk (unat sz))) info parser parent)
      else Some (memory_row_impl key 0 None info parser parent))"

section \<open>Reading\<close>

definition ptr_read :: "bytes option \<Rightarrow> nat \<Rightarrow> bytes result" where
  "ptr_read p n = (case p of None \<Rightarrow> Inl Undefined | Some buf \<Rightarrow> mem_read buf 0 n)"

definition ptr_write :: "bytes option \<Rightarrow> bytes \<Rightarrow> bytes option result" where
  "ptr_write p bs = (case p of None \<Rightarrow> Inl Undefined | Some buf \<Rightarrow> res_map Some (mem_write buf 0 bs))"

definition row_data_size :: "'m row \<Rightarrow> size_t" where
  "row_data_size r = r_max_size r"

definition row_read_bytes :: "'m row \<Rightarrow> bytes option \<Rightarrow> size_t \<Rightarrow> (bool \<times> bytes option) result" where
  "row_read_bytes r buffer sz =
     (if buffer = None \<or> sz > r_max_size r \<or> sz = 0 then Inr (False, buffer)
      else
        let actual_size = min sz (r_current_size r) in
        res_bind (if actual_size < sz then ptr_write buffer (replicate (unat sz) 0) else Inr buffer)
          (\<lambda>buffer1.
             if actual_size = 0 then Inr (True, buffer1)
             else res_bind (ptr_read (r_buffer r) (unat actual_size))
                    (\<lambda>bs. res_map (\<lambda>b. (True, b)) (ptr_write buffer1 bs))))"

definition row_read_all :: "'m row \<Rightarrow> bytes option \<Rightarrow> (bool \<times> bytes option) result" where
  "row_read_all r buffer = row_read_bytes r buffer (r_max_size r)"

section \<open>Writing\<close>

definition row_raise_callbacks :: "'m row \<Rightarrow> size_t \<Rightarrow> bytes option \<Rightarrow> notification list result" where
  "row_raise_callbacks r sz buffer =
     raise_callbacks (\<lambda>_. r_callbacks r) (\<lambda>callback log. log @ [(callback, sz, buffer)]) []"

text \<open>\<^verbatim>\<open>std::memcmp\<close> of the row's buffer with the data.\<close>

definition row_same_data :: "'m row \<Rightarrow> bytes option \<Rightarrow> size_t \<Rightarrow> bool result" where
  "row_same_data r buffer sz =
     res_bind (ptr_read (r_buffer r) (unat sz)) (\<lambda>old.
       res_map (\<lambda>new. memcmp old new (unat sz) = 0) (ptr_read buffer (unat sz)))"

definition row_grow :: "(nat \<Rightarrow> byte) \<Rightarrow> size_t \<Rightarrow> 'm row \<Rightarrow> 'm row" where
  "row_grow junk sz r =
     (if r_unbounded r \<and> r_allocation_size r < sz
      then r\<lparr>r_buffer := Some (fresh junk (unat sz)), r_allocation_size := sz\<rparr>
      else r)"

definition row_store :: "bytes option \<Rightarrow> size_t \<Rightarrow> 'm row \<Rightarrow> 'm row result" where
  "row_store buffer sz r =
     res_bind (ptr_read buffer (unat sz)) (\<lambda>bs.
       res_map (\<lambda>b. r\<lparr>r_current_size := sz, r_buffer := b\<rparr>) (ptr_write (r_buffer r) bs))"

definition row_write_bytes ::
  "(nat \<Rightarrow> byte) \<Rightarrow> 'm row \<Rightarrow> bytes option \<Rightarrow> size_t \<Rightarrow> bool \<Rightarrow> byte \<Rightarrow>
   (bool \<times> 'm row \<times> notification list) result" where
  "row_write_bytes junk r buffer sz force_report priority =
     (if (buffer = None \<or> sz > r_max_size r \<or> sz = 0) \<and> \<not> is_empty_type r then Inr (False, r, [])
      else if priority < r_write_priority r then Inr (True, r, [])
      else
        res_bind
          (if \<not> is_empty_type r \<and> \<not> force_report \<and> r_current_size r = sz
           then row_same_data r buffer sz else Inr False)
          (\<lambda>same.
             let raise = \<not> same;
                 r1 = row_grow junk sz r
             in res_bind (if raise \<and> \<not> is_empty_type r then row_store buffer sz r1 else Inr r1)
                  (\<lambda>r2. if raise then res_map (\<lambda>ns. (True, r2, ns)) (row_raise_callbacks r2 sz buffer)
                        else Inr (True, r2, []))))"

definition row_set_write_priority :: "byte \<Rightarrow> 'm row \<Rightarrow> bool \<times> 'm row" where
  "row_set_write_priority priority r = (True, r\<lparr>r_write_priority := priority\<rparr>)"

definition row_check_and_write_bytes ::
  "('m, 'p) parser_ops \<Rightarrow> (nat \<Rightarrow> byte) \<Rightarrow> 'm row \<Rightarrow> bytes option \<Rightarrow> size_t \<Rightarrow> bool \<Rightarrow> byte \<Rightarrow>
   (bool \<times> 'm row \<times> notification list) result" where
  "row_check_and_write_bytes ops junk r buffer sz force_report priority =
     (case r_parser_metadata r of
        None \<Rightarrow> Inr (False, r, [])
      | Some m \<Rightarrow>
          (case po_create_parser ops m of
             None \<Rightarrow> Inr (False, r, [])
           | Some parser \<Rightarrow>
               if sz \<noteq> po_buffer_size ops parser then Inr (False, r, [])
               else (case po_parse ops parser buffer sz of
                       (False, _) \<Rightarrow> Inr (False, r, [])
                     | (True, parser') \<Rightarrow>
                         if \<not> po_validate ops parser' then Inr (False, r, [])
                         else row_write_bytes junk r buffer sz force_report priority)))"

section \<open>Callbacks of a row\<close>

definition row_subscribe_callback :: "row_callback \<Rightarrow> 'm row \<Rightarrow> bool \<times> 'm row" where
  "row_subscribe_callback callback r =
     (let (ok, cs) = add_callback callback (r_callbacks r) in (ok, r\<lparr>r_callbacks := cs\<rparr>))"

definition row_unsubscribe_callback :: "row_callback \<Rightarrow> 'm row \<Rightarrow> bool \<times> 'm row" where
  "row_unsubscribe_callback callback r =
     (let (ok, cs) = remove_callback callback (r_callbacks r) in (ok, r\<lparr>r_callbacks := cs\<rparr>))"

definition row_query_parser_metadata :: "'m row \<Rightarrow> 'm option" where
  "row_query_parser_metadata r = r_parser_metadata r"

interpretation row_registry:
  callback_registry r_callbacks row_subscribe_callback row_unsubscribe_callback
  by unfold_locales
     (auto simp: row_subscribe_callback_def row_unsubscribe_callback_def add_callback_def
       remove_callback_def remove1_idem)

section \<open>Invariant and abstract value\<close>

definition row_capacity :: "'m row \<Rightarrow> size_t" where
  "row_capacity r = (if r_unbounded r then r_allocation_size r else r_max_size r)"

definition row_inv :: "'m row \<Rightarrow> bool" where
  "row_inv r \<longleftrightarrow>
     (case r_buffer r of
        None \<Rightarrow> r_unbounded r \<and> r_allocation_size r = 0
      | Some buf \<Rightarrow> length buf = unat (row_capacity r)) \<and>
     r_current_size r \<le> row_capacity r \<and>
     (r_unbounded r \<longrightarrow> r_max_size r = UNBOUNDED_ROW_SIZE) \<and>
     distinct (r_callbacks r)"

definition row_value :: "'m row \<Rightarrow> bytes" where
  "row_value r = (case r_buffer r of None \<Rightarrow> [] | Some buf \<Rightarrow> take (unat (r_current_size r)) buf)"

text \<open>What no write changes.\<close>

definition row_frame :: "'m row \<Rightarrow> 'm row \<Rightarrow> bool" where
  "row_frame r r' \<longleftrightarrow>
     r_key r' = r_key r \<and> r_info r' = r_info r \<and> r_parser_metadata r' = r_parser_metadata r \<and>
     r_parent r' = r_parent r \<and> r_callbacks r' = r_callbacks r \<and> r_max_size r' = r_max_size r \<and>
     r_unbounded r' = r_unbounded r \<and> r_write_priority r' = r_write_priority r"

text \<open>What a caller of \<^verbatim>\<open>write_bytes\<close> owes: the data has as many bytes as it says.\<close>

definition data_ok :: "bytes option \<Rightarrow> size_t \<Rightarrow> bool" where
  "data_ok buffer sz \<longleftrightarrow> (\<forall>bs. buffer = Some bs \<longrightarrow> unat sz \<le> length bs)"

definition row_accepts :: "'m row \<Rightarrow> bytes option \<Rightarrow> size_t \<Rightarrow> byte \<Rightarrow> bool" where
  "row_accepts r buffer sz priority \<longleftrightarrow>
     \<not> is_empty_type r \<and> buffer \<noteq> None \<and> 0 < sz \<and> sz \<le> r_max_size r \<and> r_write_priority r \<le> priority"

section \<open>Lemmas\<close>

lemma row_raise_callbacks_eq:
  "row_raise_callbacks r sz buffer = Inr (map (\<lambda>c. (c, sz, buffer)) (r_callbacks r))"
  by (simp add: row_raise_callbacks_def raise_callbacks_fold fold_append_map)

lemma length_fresh [simp]: "length (fresh junk n) = n"
  by (simp add: fresh_def)

lemma row_grow_simps [simp]:
  "r_key (row_grow junk sz r) = r_key r" "r_info (row_grow junk sz r) = r_info r"
  "r_parser_metadata (row_grow junk sz r) = r_parser_metadata r"
  "r_parent (row_grow junk sz r) = r_parent r" "r_callbacks (row_grow junk sz r) = r_callbacks r"
  "r_max_size (row_grow junk sz r) = r_max_size r" "r_unbounded (row_grow junk sz r) = r_unbounded r"
  "r_current_size (row_grow junk sz r) = r_current_size r"
  "r_write_priority (row_grow junk sz r) = r_write_priority r"
  "is_empty_type (row_grow junk sz r) = is_empty_type r"
  by (simp_all add: row_grow_def is_empty_type_def)

lemma row_grow_inv: "row_inv r \<Longrightarrow> row_inv (row_grow junk sz r)"
  by (auto simp: row_inv_def row_grow_def row_capacity_def split: option.splits)

lemma row_grow_capacity:
  assumes "row_inv r" and "sz \<le> r_max_size r" and "0 < sz"
  obtains buf where "r_buffer (row_grow junk sz r) = Some buf" and "unat sz \<le> length buf"
proof (cases "r_buffer (row_grow junk sz r)")
  case None
  then have "r_unbounded r" "r_allocation_size r = 0" "\<not> r_allocation_size r < sz"
    using assms(1) by (auto simp: row_inv_def row_grow_def split: if_splits)
  with assms(3) show ?thesis by simp
next
  case (Some buf)
  moreover have "unat sz \<le> length buf"
    using row_grow_inv[OF assms(1), of junk sz] Some assms(2)
    by (auto simp: row_inv_def row_capacity_def row_grow_def word_le_nat_alt not_less split: if_splits)
  ultimately show ?thesis by (rule that)
qed

lemma row_store_ok:
  assumes "row_inv r" and "sz \<le> r_max_size r" and "0 < sz" and "unat sz \<le> length bs"
  shows "\<exists>r'. row_store (Some bs) sz (row_grow junk sz r) = Inr r' \<and> row_inv r' \<and>
              row_value r' = take (unat sz) bs \<and> row_frame r r'"
proof -
  obtain buf where buf: "r_buffer (row_grow junk sz r) = Some buf" and le: "unat sz \<le> length buf"
    using row_grow_capacity[OF assms(1,2,3)] by blast
  let ?b = "take (unat sz) bs @ drop (unat sz) buf"
  let ?r' = "(row_grow junk sz r)\<lparr>r_current_size := sz, r_buffer := Some ?b\<rparr>"
  have "row_store (Some bs) sz (row_grow junk sz r) = Inr ?r'"
    using assms(4) buf le by (simp add: row_store_def ptr_read_def ptr_write_def mem_read_def mem_write_def)
  moreover have len: "length ?b = length buf" using assms(4) le by simp
  have "length buf = unat (row_capacity (row_grow junk sz r))"
    using row_grow_inv[OF assms(1), of junk sz] buf by (simp add: row_inv_def)
  then have "row_inv ?r'"
    using row_grow_inv[OF assms(1), of junk sz] len le
    by (auto simp: row_inv_def row_capacity_def word_le_nat_alt)
  moreover have "row_value ?r' = take (unat sz) bs"
    using assms(4) by (simp add: row_value_def)
  moreover have "row_frame r ?r'" by (simp add: row_frame_def)
  ultimately show ?thesis by blast
qed

lemma row_same_data_eq:
  assumes "row_inv r" and "r_current_size r = sz" and "0 < sz" and "unat sz \<le> length bs"
  shows "row_same_data r (Some bs) sz = Inr (row_value r = take (unat sz) bs)"
proof -
  obtain buf where buf: "r_buffer r = Some buf" and "length buf = unat (row_capacity r)"
    using assms(1-3) by (cases "r_buffer r") (auto simp: row_inv_def row_capacity_def)
  then have "unat sz \<le> length buf"
    using assms(1,2) by (auto simp: row_inv_def word_le_nat_alt)
  with buf assms(2,4) show ?thesis
    by (simp add: row_same_data_def ptr_read_def mem_read_def memcmp_eq_0 row_value_def)
qed

lemma row_value_length: "row_inv r \<Longrightarrow> length (row_value r) = unat (r_current_size r)"
  by (auto simp: row_inv_def row_value_def word_le_nat_alt row_capacity_def split: option.splits)

text \<open>An accepted write: nothing happens when the value is the same and no report is forced;
  otherwise the value is replaced and every callback is called once.\<close>

lemma row_write_accepted:
  assumes "row_inv r" and "data_ok (Some bs) sz" and "row_accepts r (Some bs) sz priority"
  shows "\<exists>r'. row_write_bytes junk r (Some bs) sz force priority =
              Inr (True, r', if force \<or> row_value r \<noteq> take (unat sz) bs
                             then map (\<lambda>c. (c, sz, Some bs)) (r_callbacks r) else []) \<and>
            row_inv r' \<and> row_value r' = take (unat sz) bs \<and> row_frame r r'"
proof -
  have pre: "\<not> is_empty_type r" "0 < sz" "sz \<le> r_max_size r" "\<not> priority < r_write_priority r"
    and le: "unat sz \<le> length bs"
    using assms(2,3) by (auto simp: row_accepts_def data_ok_def)
  obtain r1 where r1: "row_store (Some bs) sz (row_grow junk sz r) = Inr r1" "row_inv r1"
      "row_value r1 = take (unat sz) bs" and upd: "row_frame r r1"
    using row_store_ok[OF assms(1) pre(3,2) le, of junk] by blast
  have cbs: "r_callbacks r1 = r_callbacks r" using upd by (simp add: row_frame_def)
  let ?same = "\<not> force \<and> row_value r = take (unat sz) bs"
  have test: "(if \<not> is_empty_type r \<and> \<not> force \<and> r_current_size r = sz
      then row_same_data r (Some bs) sz else Inr False) = Inr ?same"
    using row_same_data_eq[OF assms(1) _ pre(2) le] row_value_length[OF assms(1)] pre(1) le
    by (auto simp: word_unat_eq_iff)
  show ?thesis
  proof (cases ?same)
    case True
    then have "r_current_size r = sz"
      using row_value_length[OF assms(1)] le by (simp add: word_unat_eq_iff)
    then have "row_grow junk sz r = r"
      using assms(1) by (auto simp: row_grow_def row_inv_def row_capacity_def)
    with True pre test assms(1) show ?thesis
      by (intro exI[of _ r]) (auto simp: row_write_bytes_def row_frame_def)
  next
    case False
    with pre test r1 upd cbs show ?thesis
      by (intro exI[of _ r1]) (auto simp: row_write_bytes_def row_raise_callbacks_eq)
  qed
qed

lemma row_read_pads:
  assumes "row_inv r" and "0 < sz" and "sz \<le> r_max_size r" and "unat sz \<le> length out"
  shows "row_read_bytes r (Some out) sz =
         Inr (True, Some (take (unat sz) (row_value r @ replicate (unat sz) 0) @ drop (unat sz) out))"
proof -
  let ?n = "unat sz" and ?c = "unat (r_current_size r)"
  have len: "length (row_value r) = ?c" by (rule row_value_length[OF assms(1)])
  have m: "unat (min sz (r_current_size r)) = min ?n ?c" by (rule min_unat)
  have lt: "min sz (r_current_size r) < sz \<longleftrightarrow> ?c < ?n"
    by (auto simp: word_less_nat_alt m)
  have z: "min sz (r_current_size r) = 0 \<longleftrightarrow> ?c = 0"
    using assms(2) by (auto simp: word_unat_eq_iff m word_less_nat_alt)
  have rd: "ptr_read (r_buffer r) (min ?n ?c) = Inr (take (min ?n ?c) (row_value r))" if "?c \<noteq> 0"
    using assms(1) that
    by (auto simp: ptr_read_def row_inv_def row_value_def mem_read_def row_capacity_def word_le_nat_alt min_def
        split: option.splits)
  show ?thesis
  proof (cases "?c < ?n")
    case True
    have w: "ptr_write (Some out) (replicate ?n 0) = Inr (Some (replicate ?n 0 @ drop ?n out))"
      using assms(4) by (simp add: ptr_write_def mem_write_def)
    show ?thesis
    proof (cases "?c = 0")
      case True
      with \<open>?c < ?n\<close> w assms len lt z show ?thesis
        by (auto simp: row_read_bytes_def Let_def not_less)
    next
      case False
      with True w rd assms len lt z m show ?thesis
        by (simp add: row_read_bytes_def Let_def not_less ptr_write_def mem_write_def)
    qed
  next
    case False
    with rd assms len lt z m show ?thesis
      by (simp add: row_read_bytes_def Let_def not_less ptr_write_def mem_write_def min_def word_less_nat_alt
          word_le_nat_alt)
  qed
qed

lemma row_write_total:
  assumes "row_inv r" and "data_ok buffer sz"
  shows "\<exists>ok r' ns. row_write_bytes junk r buffer sz force priority = Inr (ok, r', ns) \<and>
                  row_inv r' \<and> row_frame r r'"
proof (cases "\<exists>bs. buffer = Some bs \<and> row_accepts r buffer sz priority")
  case True
  then show ?thesis using row_write_accepted[OF assms(1)] assms(2) by fastforce
next
  case False
  show ?thesis
  proof (cases "is_empty_type r \<and> \<not> priority < r_write_priority r")
    case True
    then show ?thesis
      using row_grow_inv[OF assms(1)]
      by (auto simp: row_write_bytes_def row_raise_callbacks_eq row_frame_def)
  next
    case not_empty: False
    with False have "row_write_bytes junk r buffer sz force priority = Inr (False, r, []) \<or>
        row_write_bytes junk r buffer sz force priority = Inr (True, r, [])"
      by (cases buffer) (auto simp: row_write_bytes_def row_accepts_def not_less word_neq_0_conv)
    then show ?thesis using assms(1) by (auto simp: row_frame_def)
  qed
qed

lemma row_create_inv: "memory_row_create junk k sz info parser parent = Some r \<Longrightarrow> row_inv r \<and> row_value r = []"
  by (auto simp: memory_row_create_def memory_row_impl_def row_inv_def row_capacity_def row_value_def
      split: if_splits)

lemma row_inv_updates:
  "row_inv r \<Longrightarrow> distinct cs \<Longrightarrow> row_inv (r\<lparr>r_callbacks := cs\<rparr>)"
  "row_inv r \<Longrightarrow> row_inv (r\<lparr>r_write_priority := p\<rparr>)"
  "row_inv r \<Longrightarrow> row_inv (r\<lparr>r_parent := t\<rparr>)"
  by (auto simp: row_inv_def row_capacity_def split: option.splits if_splits)

lemma row_inv_distinct: "row_inv r \<Longrightarrow> distinct (r_callbacks r)"
  by (simp add: row_inv_def)

section \<open>The contract of a cell of bytes\<close>

text \<open>
  \<open>fits s bs\<close> says that the client may store \<open>bs\<close>; a read of \<open>n\<close> bytes is allowed when \<open>n\<close> bytes
  could be stored.
\<close>

locale byte_cell =
  fixes inv :: "'s \<Rightarrow> bool"
    and cell_value :: "'s \<Rightarrow> bytes"
    and fits :: "'s \<Rightarrow> bytes \<Rightarrow> bool"
    and put :: "bytes \<Rightarrow> 's \<Rightarrow> 's option"
    and get :: "'s \<Rightarrow> nat \<Rightarrow> bytes option"
  assumes put_ok: "inv s \<Longrightarrow> fits s bs \<Longrightarrow>
      \<exists>s'. put bs s = Some s' \<and> inv s' \<and> cell_value s' = bs \<and> fits s' = fits s"
    and get_ok: "inv s \<Longrightarrow> fits s (replicate n 0) \<Longrightarrow>
      get s n = Some (take n (cell_value s @ replicate n 0))"
begin

lemma put_get:
  assumes "inv s" and "fits s bs" and "fits s (replicate n 0)"
  shows "\<exists>s'. put bs s = Some s' \<and> get s' n = Some (take n (bs @ replicate n 0))"
  using put_ok[OF assms(1,2)] get_ok assms(3) by metis

lemma last_put_wins:
  assumes "inv s" and "bss \<noteq> []" and "\<forall>bs \<in> set bss. fits s bs" and "fits s (replicate n 0)"
  shows "\<exists>s'. foldl (\<lambda>so bs. Option.bind so (put bs)) (Some s) bss = Some s' \<and> inv s' \<and>
              get s' n = Some (take n (last bss @ replicate n 0))"
  using assms
proof (induction bss arbitrary: s)
  case Nil
  then show ?case by simp
next
  case (Cons bs bss)
  then obtain s1 where s1: "put bs s = Some s1" "inv s1" "cell_value s1 = bs" "fits s1 = fits s"
    using put_ok[of s bs] by auto
  show ?case
  proof (cases "bss = []")
    case True
    with s1 Cons.prems show ?thesis using get_ok[of s1 n] by simp
  next
    case False
    with s1 Cons show ?thesis by (metis (no_types, lifting) Cons.IH foldl_Cons bind.bind_lunit last_ConsR list.set_intros(2))
  qed
qed

end

definition row_fits :: "byte \<Rightarrow> 'm row \<Rightarrow> bytes \<Rightarrow> bool" where
  "row_fits priority r bs \<longleftrightarrow>
     length bs < 2 ^ 64 \<and> row_accepts r (Some bs) (of_nat (length bs)) priority"

definition row_put :: "(nat \<Rightarrow> byte) \<Rightarrow> bool \<Rightarrow> byte \<Rightarrow> bytes \<Rightarrow> 'm row \<Rightarrow> 'm row option" where
  "row_put junk force priority bs r =
     (case row_write_bytes junk r (Some bs) (of_nat (length bs)) force priority of
        Inr (True, r', _) \<Rightarrow> Some r'
      | _ \<Rightarrow> None)"

definition row_get :: "'m row \<Rightarrow> nat \<Rightarrow> bytes option" where
  "row_get r n =
     (case row_read_bytes r (Some (replicate n 0)) (of_nat n) of
        Inr (True, out) \<Rightarrow> out
      | _ \<Rightarrow> None)"

lemma unat_of_length: "n < 2 ^ 64 \<Longrightarrow> unat (of_nat n :: size_t) = n"
  by (simp add: unsigned_of_nat take_bit_nat_eq_self)

lemma row_fits_frame: "row_frame r r' \<Longrightarrow> row_fits p r' = row_fits p r"
  by (auto simp: fun_eq_iff row_fits_def row_accepts_def row_frame_def is_empty_type_def)

interpretation row_cell: byte_cell row_inv row_value "row_fits priority" "row_put junk force priority" row_get
  for junk force priority
proof
  fix r :: "'m row" and bs
  assume inv: "row_inv r" and fits: "row_fits priority r bs"
  then have "data_ok (Some bs) (of_nat (length bs))" by (simp add: data_ok_def row_fits_def unat_of_length)
  then obtain r' where "row_put junk force priority bs r = Some r'" "row_inv r'" "row_value r' = bs" "row_frame r r'"
    using row_write_accepted[OF inv, of bs "of_nat (length bs)" priority junk force] fits
    by (auto simp: row_put_def row_fits_def unat_of_length)
  then show "\<exists>s'. row_put junk force priority bs r = Some s' \<and> row_inv s' \<and> row_value s' = bs \<and>
      row_fits priority s' = row_fits priority r"
    using row_fits_frame by blast
next
  fix r :: "'m row" and n
  assume "row_inv r" and "row_fits priority r (replicate n 0)"
  then show "row_get r n = Some (take n (row_value r @ replicate n 0))"
    using row_read_pads[of r "of_nat n" "replicate n 0"]
    by (simp add: row_get_def row_fits_def row_accepts_def unat_of_length)
qed

section \<open>Properties\<close>

text \<open>A write of an accepted size, at a priority that is high enough, makes the bytes written the
  value of the row, whether the row is bounded or grows, and touches no memory outside of its
  buffer; the callbacks are called, once each, in order and with the data written, exactly when
  the report is forced or the value differs from the old one.\<close>

theorem row_write_correct:
  assumes "row_inv r" and "unat sz \<le> length bs" and "row_accepts r (Some bs) sz priority"
  shows "\<exists>r'. row_write_bytes junk r (Some bs) sz force priority =
              Inr (True, r', if force \<or> row_value r \<noteq> take (unat sz) bs
                             then map (\<lambda>c. (c, sz, Some bs)) (r_callbacks r) else []) \<and>
            row_inv r' \<and> row_value r' = take (unat sz) bs \<and> row_frame r r'"
  using row_write_accepted[OF assms(1) _ assms(3)] assms(2) by (simp add: data_ok_def)

definition sample_info :: "row_info" where
  "sample_info = \<lparr>ri_type = UNKNOWN, ri_name = [], ri_description = [], ri_type_name = []\<rparr>"

definition sample_key :: "key" where
  "sample_key = \<lparr>key_length = 1, key_data = 7 # replicate 15 0\<rparr>"

definition sample_row :: "size_t \<Rightarrow> nat row" where
  "sample_row sz =
     memory_row_impl sample_key sz (if sz = 0 then None else Some (replicate (unat sz) 0)) sample_info None None"

lemma sample_row_simps:
  "row_inv (sample_row sz)" "row_value (sample_row sz) = []" "r_callbacks (sample_row sz) = []"
  "row_accepts (sample_row sz) (Some bs) n p \<longleftrightarrow> 0 < n \<and> n \<le> (if sz = 0 then UNBOUNDED_ROW_SIZE else sz)"
  by (auto simp: sample_row_def memory_row_impl_def row_inv_def row_capacity_def row_value_def row_accepts_def
      is_empty_type_def sample_info_def mem_zero_def)

theorem row_write_correct_witness:
  "\<exists>r'. row_write_bytes (\<lambda>_. 0) (sample_row 4) (Some [1, 2, 3]) 2 False 0 = Inr (True, r', []) \<and>
        row_value r' = [1, 2]"
  using row_write_correct[of "sample_row 4" 2 "[1, 2, 3]" 0 "\<lambda>_. 0" False]
  by (auto simp: sample_row_simps)

text \<open>A write with a null buffer, no bytes or too many, to a row that is not of the empty type,
  is refused with false; a write below the row's priority is ignored and returns true. Neither
  changes the row nor calls a callback, and the caller's buffer is not looked at.\<close>

theorem row_write_refused:
  assumes "\<not> is_empty_type r"
  shows "row_write_bytes junk r buffer sz force priority =
           Inr (if buffer = None \<or> sz = 0 \<or> sz > r_max_size r then False else True, r, []) \<or>
         row_accepts r buffer sz priority"
  using assms by (auto simp: row_write_bytes_def row_accepts_def not_less word_neq_0_conv)

theorem row_write_refused_witness:
  "row_write_bytes (\<lambda>_. 0) (sample_row 4) None 2 True 0 = Inr (False, sample_row 4, [])"
  using row_write_refused[of "sample_row 4" "\<lambda>_. 0" None 2 True 0]
  by (simp add: sample_row_def memory_row_impl_def is_empty_type_def sample_info_def row_accepts_def)

text \<open>C40. A created row satisfies the invariant (buffer as long as the capacity, value inside of it),
  and every write that keeps its side of the contract, whatever its type, size and priority,
  returns without undefined behaviour and keeps the invariant and everything but the stored bytes.\<close>

theorem row_invariant:
  assumes "data_ok buffer sz" and "row_inv r \<or> memory_row_create junk k n info parser parent = Some r"
  shows "\<exists>ok r' ns. row_write_bytes junk r buffer sz force priority = Inr (ok, r', ns) \<and>
                  row_inv r' \<and> row_frame r r' \<and>
                  row_inv (snd (row_set_write_priority p r')) \<and>
                  row_inv (snd (row_subscribe_callback c r')) \<and> row_inv (snd (row_unsubscribe_callback c r'))"
proof -
  have "row_inv r" using assms(2) row_create_inv by blast
  then obtain ok r' ns where "row_write_bytes junk r buffer sz force priority = Inr (ok, r', ns)"
      "row_inv r'" "row_frame r r'"
    using row_write_total[OF _ assms(1)] by blast
  moreover have "row_inv (snd (row_subscribe_callback c r'))" "row_inv (snd (row_unsubscribe_callback c r'))"
    "row_inv (snd (row_set_write_priority p r'))"
    using \<open>row_inv r'\<close> row_registry.add_distinct[of r' c] row_registry.remove_distinct[of r' c]
    by (auto simp: row_subscribe_callback_def row_unsubscribe_callback_def row_set_write_priority_def
        row_inv_updates row_inv_distinct split: prod.splits)
  ultimately show ?thesis by blast
qed

theorem row_invariant_witness:
  "\<exists>ok r' ns. row_write_bytes (\<lambda>_. 3) (sample_row 0) (Some [1, 2]) 2 True 0 = Inr (ok, r', ns) \<and> row_inv r'"
  using row_invariant[of "Some [1, 2]" 2 "sample_row 0" "\<lambda>_. 3" undefined undefined undefined undefined undefined
      True 0 0 0] sample_row_simps(1)[of 0]
  by (auto simp: data_ok_def)

text \<open>After any sequence of accepted writes a read of \<open>n\<close> bytes gives the bytes of the last
  write, cut at \<open>n\<close> or filled up with zeros.\<close>

theorem row_last_write_wins:
  assumes "row_inv r" and "bss \<noteq> []" and "\<forall>bs \<in> set bss. row_fits priority r bs"
    and "row_fits priority r (replicate n 0)"
  shows "\<exists>r'. foldl (\<lambda>so bs. Option.bind so (row_put junk force priority bs)) (Some r) bss = Some r' \<and>
              row_inv r' \<and> row_get r' n = Some (take n (last bss @ replicate n 0))"
  by (rule row_cell.last_put_wins[OF assms])

theorem row_last_write_wins_witness:
  "\<exists>r'. foldl (\<lambda>so bs. Option.bind so (row_put (\<lambda>_. 9) False 0 bs)) (Some (sample_row 4)) [[1, 2, 3], [4]] = Some r' \<and>
        row_get r' 2 = Some [4, 0]"
proof -
  have "\<forall>bs \<in> set [[1, 2, 3], [4]]. row_fits 0 (sample_row 4) bs" "row_fits 0 (sample_row 4) (replicate 2 0)"
    by (simp_all add: sample_row_simps row_fits_def)
  from row_last_write_wins[OF sample_row_simps(1) _ this, of "\<lambda>_. 9" False] show ?thesis
    by (auto simp: numeral_2_eq_2)
qed

text \<open>\<^verbatim>\<open>read_bytes(void*)\<close> reads the row's whole size, which for an unbounded row is the largest
  \<^verbatim>\<open>size_t\<close>: it clears that many bytes of the caller's buffer, so the call is undefined for
  every buffer that can exist and every row that is not filled to that size.\<close>

theorem read_all_unbounded_overruns:
  assumes "row_inv r" and "r_unbounded r" and "r_current_size r < UNBOUNDED_ROW_SIZE"
    and "length out < unat UNBOUNDED_ROW_SIZE"
  shows "row_read_all r (Some out) = Inl Undefined"
proof -
  have "r_max_size r = UNBOUNDED_ROW_SIZE" using assms(1,2) by (simp add: row_inv_def)
  then show ?thesis
    using assms(3,4)
    by (auto simp: row_read_all_def row_read_bytes_def Let_def ptr_write_def mem_write_def min_def)
qed

theorem read_all_unbounded_overruns_witness: "row_read_all (sample_row 0) (Some [0, 0]) = Inl Undefined"
proof (rule read_all_unbounded_overruns)
  show "length [0 :: byte, 0] < unat UNBOUNDED_ROW_SIZE"
    by (simp add: UNBOUNDED_ROW_SIZE_def unsigned_minus_1_eq_mask mask_eq_exp_minus_1)
  show "r_current_size (sample_row 0) < UNBOUNDED_ROW_SIZE"
    by (simp add: UNBOUNDED_ROW_SIZE_def sample_row_def memory_row_impl_def word_less_nat_alt
        unsigned_minus_1_eq_mask mask_eq_exp_minus_1)
qed (simp_all add: sample_row_simps, simp add: sample_row_def memory_row_impl_def)

text \<open>\<^verbatim>\<open>check_and_write_bytes\<close> changes a row, or calls a callback, only after a parser made from the
  row's own metadata has the size of the data, has parsed it and has validated it; then it does what
  \<^verbatim>\<open>write_bytes\<close> does.\<close>

theorem checked_write_is_validated:
  assumes "row_check_and_write_bytes ops junk r buffer sz force priority \<noteq> Inr (False, r, [])"
  shows "\<exists>m parser parser'. r_parser_metadata r = Some m \<and> po_create_parser ops m = Some parser \<and>
           po_buffer_size ops parser = sz \<and> po_parse ops parser buffer sz = (True, parser') \<and>
           po_validate ops parser' \<and>
           row_check_and_write_bytes ops junk r buffer sz force priority =
             row_write_bytes junk r buffer sz force priority"
proof -
  obtain m where m: "r_parser_metadata r = Some m"
    using assms by (cases "r_parser_metadata r") (simp_all add: row_check_and_write_bytes_def)
  obtain parser where parser: "po_create_parser ops m = Some parser"
    using assms m by (cases "po_create_parser ops m") (simp_all add: row_check_and_write_bytes_def)
  have sz: "po_buffer_size ops parser = sz"
    using assms m parser by (auto simp: row_check_and_write_bytes_def split: if_split_asm)
  obtain ok parser' where p: "po_parse ops parser buffer sz = (ok, parser')" by fastforce
  have ok: "ok = True"
    using assms m parser sz p by (cases ok) (simp_all add: row_check_and_write_bytes_def)
  have "po_validate ops parser'"
    using assms m parser sz p ok by (auto simp: row_check_and_write_bytes_def split: if_split_asm)
  with m parser sz p ok show ?thesis
    by (intro exI[of _ m] exI[of _ parser] exI[of _ parser']) (simp add: row_check_and_write_bytes_def)
qed

definition sample_ops :: "(nat, bytes) parser_ops" where
  "sample_ops =
     \<lparr>po_create_parser = (\<lambda>m. Some (replicate m 0)), po_buffer_size = (\<lambda>p. of_nat (length p)),
      po_parse = (\<lambda>p buf n. (buf \<noteq> None, the buf)), po_validate = (\<lambda>p. p \<noteq> [] \<and> hd p < 10)\<rparr>"

theorem checked_write_is_validated_witness:
  "\<exists>m parser parser'. r_parser_metadata ((sample_row 4)\<lparr>r_parser_metadata := Some 2\<rparr>) = Some m \<and>
     po_create_parser sample_ops m = Some parser \<and> po_parse sample_ops parser (Some [3, 4]) 2 = (True, parser') \<and>
     po_validate sample_ops parser'"
proof -
  let ?r = "(sample_row 4)\<lparr>r_parser_metadata := Some 2\<rparr>"
  have "row_inv ?r" "row_value ?r = []" "row_accepts ?r (Some [3, 4]) 2 0"
    by (simp_all add: sample_row_def memory_row_impl_def row_inv_def row_capacity_def row_value_def
        row_accepts_def is_empty_type_def sample_info_def)
  then have "\<exists>r' ns. row_write_bytes (\<lambda>_. 0) ?r (Some [3, 4]) 2 False 0 = Inr (True, r', ns)"
    using row_write_accepted[of ?r "[3, 4]" 2 0 "\<lambda>_. 0" False] by (fastforce simp: data_ok_def)
  then have "row_check_and_write_bytes sample_ops (\<lambda>_. 0) ?r (Some [3, 4]) 2 False 0 \<noteq> Inr (False, ?r, [])"
    by (auto simp: row_check_and_write_bytes_def sample_ops_def)
  from checked_write_is_validated[OF this] show ?thesis by blast
qed

end
