(* ===== verification/Database.thy ===== *)
theory Database
  imports Memory_Row
begin

text \<open>
  Tables and datasets of the memory database: \<^verbatim>\<open>table_base\<close> and \<^verbatim>\<open>dataset_base\<close> of
  \<^verbatim>\<open>Include/utils/database.hpp\<close> with \<^verbatim>\<open>Modules/database/memory_database/table.cpp\<close> and
  \<^verbatim>\<open>set.cpp\<close>.

  The state of a dataset is a record: the map from keys to tables, its callbacks, and the objects
  themselves. Row and table objects are named by their index in \<open>db_rows\<close> and \<open>db_tables\<close>; they
  stay there after they are removed from their map, because clients hold references to them. A hash
  map is the list of its entries in the order in which it is traversed; new entries come last, and
  no statement below depends on the place. Entries are found with \<^verbatim>\<open>operator==\<close> on keys.

  A row registers a callback of its own at its table and a table one at its dataset (\<open>Row_watch\<close>,
  \<open>Table_watch\<close>), through which it learns that it was removed; the callbacks of clients are
  recorded, with their arguments, in \<open>db_events\<close>.

  The locale \<open>keyed_store\<close> is the contract of such a map of objects; tables and datasets are its two
  interpretations.
\<close>

section \<open>State\<close>

datatype table_callback = Table_client nat | Row_watch nat
datatype dataset_callback = Dataset_client nat | Table_watch nat

datatype db_event =
    Row_added nat nat nat
  | Row_removed nat nat nat
  | Table_added nat nat
  | Table_removed nat nat

record table =
  t_key :: key
  t_has_parent :: bool
  t_name :: string
  t_description :: string
  t_rows :: "(key \<times> nat) list"
  t_callbacks :: "table_callback list"
  t_data_callbacks :: "row_callback list"

record 'm db =
  db_key :: key
  db_map :: "(key \<times> nat) list"
  db_callbacks :: "dataset_callback list"
  db_tables :: "table list"
  db_rows :: "'m row list"
  db_events :: "db_event list"

definition the_table :: "'m db \<Rightarrow> nat \<Rightarrow> table" where
  "the_table s tid = db_tables s ! tid"

definition the_row :: "'m db \<Rightarrow> nat \<Rightarrow> 'm row" where
  "the_row s rid = db_rows s ! rid"

definition upd_table :: "nat \<Rightarrow> (table \<Rightarrow> table) \<Rightarrow> 'm db \<Rightarrow> 'm db" where
  "upd_table tid f s = s\<lparr>db_tables := (db_tables s)[tid := f (the_table s tid)]\<rparr>"

definition upd_row :: "nat \<Rightarrow> ('m row \<Rightarrow> 'm row) \<Rightarrow> 'm db \<Rightarrow> 'm db" where
  "upd_row rid f s = s\<lparr>db_rows := (db_rows s)[rid := f (the_row s rid)]\<rparr>"

definition add_event :: "db_event \<Rightarrow> 'm db \<Rightarrow> 'm db" where
  "add_event e s = s\<lparr>db_events := db_events s @ [e]\<rparr>"

text \<open>\<^verbatim>\<open>find\<close> and \<^verbatim>\<open>erase\<close> of a hash map with \<^verbatim>\<open>key_hash\<close> and \<^verbatim>\<open>operator==\<close>.\<close>

definition key_find :: "key \<Rightarrow> (key \<times> nat) list \<Rightarrow> nat option" where
  "key_find k m = map_option snd (find (\<lambda>p. key_eq (fst p) k) m)"

definition key_erase :: "key \<Rightarrow> (key \<times> nat) list \<Rightarrow> (key \<times> nat) list" where
  "key_erase k m = filter (\<lambda>p. \<not> key_eq (fst p) k) m"

section \<open>Callbacks of a table\<close>

definition table_subscribe_callback :: "nat \<Rightarrow> table_callback \<Rightarrow> 'm db \<Rightarrow> bool \<times> 'm db" where
  "table_subscribe_callback tid c s =
     (let (ok, cs) = add_callback c (t_callbacks (the_table s tid))
      in (ok, upd_table tid (\<lambda>t. t\<lparr>t_callbacks := cs\<rparr>) s))"

definition table_unsubscribe_callback :: "nat \<Rightarrow> table_callback \<Rightarrow> 'm db \<Rightarrow> bool \<times> 'm db" where
  "table_unsubscribe_callback tid c s =
     (let (ok, cs) = remove_callback c (t_callbacks (the_table s tid))
      in (ok, upd_table tid (\<lambda>t. t\<lparr>t_callbacks := cs\<rparr>) s))"

text \<open>The function a row subscribes to its own \<^verbatim>\<open>row_removed\<close> signal.\<close>

definition row_detach :: "nat \<Rightarrow> 'm db \<Rightarrow> 'm db" where
  "row_detach rid s =
     (let s1 = (case r_parent (the_row s rid) of
                  None \<Rightarrow> s
                | Some tid \<Rightarrow> snd (table_unsubscribe_callback tid (Row_watch rid) s))
      in upd_row rid (\<lambda>r. r\<lparr>r_parent := None\<rparr>) s1)"

fun on_row_added :: "nat \<Rightarrow> nat \<Rightarrow> table_callback \<Rightarrow> 'm db \<Rightarrow> 'm db" where
  "on_row_added tid rid (Table_client c) s = add_event (Row_added c tid rid) s"
| "on_row_added tid rid (Row_watch r) s = s"

fun on_row_removed :: "nat \<Rightarrow> nat \<Rightarrow> table_callback \<Rightarrow> 'm db \<Rightarrow> 'm db" where
  "on_row_removed tid rid (Table_client c) s = add_event (Row_removed c tid rid) s"
| "on_row_removed tid rid (Row_watch r) s = (if rid = r then row_detach r s else s)"

definition raise_table :: "nat \<Rightarrow> (table_callback \<Rightarrow> 'm db \<Rightarrow> 'm db) \<Rightarrow> 'm db \<Rightarrow> 'm db result" where
  "raise_table tid = raise_callbacks (\<lambda>s. t_callbacks (the_table s tid))"

section \<open>Operations of a table\<close>

definition table_size :: "nat \<Rightarrow> 'm db \<Rightarrow> nat" where
  "table_size tid s = length (t_rows (the_table s tid))"

definition row_subscribe_all :: "row_callback list \<Rightarrow> nat \<Rightarrow> 'm db \<Rightarrow> 'm db" where
  "row_subscribe_all cs rid s = fold (\<lambda>c. upd_row rid (\<lambda>r. snd (row_subscribe_callback c r))) cs s"

definition row_unsubscribe_all :: "row_callback list \<Rightarrow> nat \<Rightarrow> 'm db \<Rightarrow> 'm db" where
  "row_unsubscribe_all cs rid s = fold (\<lambda>c. upd_row rid (\<lambda>r. snd (row_unsubscribe_callback c r))) cs s"

text \<open>\<^verbatim>\<open>memory_table_impl::create_row\<close>: the new object, and the callback its constructor registers.\<close>

definition table_create_row ::
  "(nat \<Rightarrow> byte) \<Rightarrow> nat \<Rightarrow> key \<Rightarrow> size_t \<Rightarrow> row_info \<Rightarrow> 'm option \<Rightarrow> 'm db \<Rightarrow> (nat \<times> 'm db) option" where
  "table_create_row junk tid k sz info parser s =
     (case memory_row_create junk k sz info parser (Some tid) of
        None \<Rightarrow> None
      | Some r \<Rightarrow>
          let rid = length (db_rows s);
              s1 = s\<lparr>db_rows := db_rows s @ [r]\<rparr>
          in Some (rid, snd (table_subscribe_callback tid (Row_watch rid) s1)))"

definition table_add_row ::
  "(nat \<Rightarrow> byte) \<Rightarrow> nat \<Rightarrow> key \<Rightarrow> size_t \<Rightarrow> row_info \<Rightarrow> 'm option \<Rightarrow> 'm db \<Rightarrow> (bool \<times> 'm db) result" where
  "table_add_row junk tid k sz info parser s =
     (if sz = 0 \<and> ri_type info \<noteq> EMPTY_TYPE then Inr (False, s)
      else if key_find k (t_rows (the_table s tid)) \<noteq> None then Inr (False, s)
      else
        (case table_create_row junk tid k sz info parser s of
           None \<Rightarrow> Inr (False, s)
         | Some (rid, s1) \<Rightarrow>
             let s2 = upd_table tid (\<lambda>t. t\<lparr>t_rows := t_rows t @ [(r_key (the_row s1 rid), rid)]\<rparr>) s1
             in res_map
                  (\<lambda>s3. (True, row_subscribe_all (t_data_callbacks (the_table s3 tid)) rid s3))
                  (raise_table tid (on_row_added tid rid) s2)))"

definition table_add_row_plain :: "(nat \<Rightarrow> byte) \<Rightarrow> nat \<Rightarrow> key \<Rightarrow> size_t \<Rightarrow> 'm db \<Rightarrow> (bool \<times> 'm db) result" where
  "table_add_row_plain junk tid k sz s =
     table_add_row junk tid k sz
       \<lparr>ri_type = UNKNOWN, ri_name = [], ri_description = [], ri_type_name = []\<rparr> None s"

text \<open>The removed row is returned through the second component.\<close>

definition table_remove_row :: "nat \<Rightarrow> key \<Rightarrow> 'm db \<Rightarrow> (bool \<times> nat option \<times> 'm db) result" where
  "table_remove_row tid k s =
     (case key_find k (t_rows (the_table s tid)) of
        None \<Rightarrow> Inr (False, None, s)
      | Some rid \<Rightarrow>
          let s1 = row_unsubscribe_all (t_data_callbacks (the_table s tid)) rid s
          in res_map
               (\<lambda>s2. (True, Some rid, upd_table tid (\<lambda>t. t\<lparr>t_rows := key_erase k (t_rows t)\<rparr>) s2))
               (raise_table tid (on_row_removed tid rid) s1))"

definition table_query_row :: "nat \<Rightarrow> key \<Rightarrow> 'm db \<Rightarrow> nat option" where
  "table_query_row tid k s = key_find k (t_rows (the_table s tid))"

definition table_query_row_by_index :: "nat \<Rightarrow> nat \<Rightarrow> 'm db \<Rightarrow> nat option" where
  "table_query_row_by_index tid index s =
     (let rows = t_rows (the_table s tid) in
      if index \<ge> length rows then None else Some (snd (rows ! index)))"

definition table_query_row_by_name :: "nat \<Rightarrow> string \<Rightarrow> 'm db \<Rightarrow> nat option" where
  "table_query_row_by_name tid name s =
     map_option snd (find (\<lambda>p. name = ri_name (r_info (the_row s (snd p)))) (t_rows (the_table s tid)))"

definition table_subscribe_data_callback :: "nat \<Rightarrow> row_callback \<Rightarrow> 'm db \<Rightarrow> bool \<times> 'm db" where
  "table_subscribe_data_callback tid c s =
     (if c \<in> set (t_data_callbacks (the_table s tid)) then (True, s)
      else
        let s1 = fold (\<lambda>p. upd_row (snd p) (\<lambda>r. snd (row_subscribe_callback c r))) (t_rows (the_table s tid)) s
        in (True, upd_table tid (\<lambda>t. t\<lparr>t_data_callbacks := t_data_callbacks t @ [c]\<rparr>) s1))"

definition table_unsubscribe_data_callback :: "nat \<Rightarrow> row_callback \<Rightarrow> 'm db \<Rightarrow> bool \<times> 'm db" where
  "table_unsubscribe_data_callback tid c s =
     (if c \<notin> set (t_data_callbacks (the_table s tid)) then (False, s)
      else (True, fold (\<lambda>p. upd_row (snd p) (\<lambda>r. snd (row_unsubscribe_callback c r)))
                    (t_rows (the_table s tid)) s))"

definition table_clear_rows :: "nat \<Rightarrow> 'm db \<Rightarrow> 'm db result" where
  "table_clear_rows tid s =
     res_map (upd_table tid (\<lambda>t. t\<lparr>t_rows := []\<rparr>))
       (foldl
          (\<lambda>acc p. res_bind acc (\<lambda>s'.
             raise_table tid (on_row_removed tid (snd p))
               (row_unsubscribe_all (t_data_callbacks (the_table s' tid)) (snd p) s')))
          (Inr s) (t_rows (the_table s tid)))"

text \<open>\<^verbatim>\<open>name()\<close> and \<^verbatim>\<open>description()\<close>; \<open>None\<close> is a null pointer.\<close>

definition table_name :: "table \<Rightarrow> string option" where
  "table_name t = (if t_name t = [] then None else Some (t_name t))"

definition table_description :: "table \<Rightarrow> string option" where
  "table_description t = (if t_name t = [] then None else Some (t_description t))"

section \<open>Operations of a dataset\<close>

definition dataset_subscribe_callback :: "dataset_callback \<Rightarrow> 'm db \<Rightarrow> bool \<times> 'm db" where
  "dataset_subscribe_callback c s =
     (let (ok, cs) = add_callback c (db_callbacks s) in (ok, s\<lparr>db_callbacks := cs\<rparr>))"

definition dataset_unsubscribe_callback :: "dataset_callback \<Rightarrow> 'm db \<Rightarrow> bool \<times> 'm db" where
  "dataset_unsubscribe_callback c s =
     (let (ok, cs) = remove_callback c (db_callbacks s) in (ok, s\<lparr>db_callbacks := cs\<rparr>))"

text \<open>The function a table subscribes to its own \<^verbatim>\<open>table_removed\<close> signal.\<close>

definition table_detach :: "nat \<Rightarrow> 'm db \<Rightarrow> 'm db" where
  "table_detach tid s =
     (let s1 = (if t_has_parent (the_table s tid)
                then snd (dataset_unsubscribe_callback (Table_watch tid) s) else s)
      in upd_table tid (\<lambda>t. t\<lparr>t_has_parent := False\<rparr>) s1)"

fun on_table_added :: "nat \<Rightarrow> dataset_callback \<Rightarrow> 'm db \<Rightarrow> 'm db" where
  "on_table_added tid (Dataset_client c) s = add_event (Table_added c tid) s"
| "on_table_added tid (Table_watch t) s = s"

fun on_table_removed :: "nat \<Rightarrow> dataset_callback \<Rightarrow> 'm db \<Rightarrow> 'm db" where
  "on_table_removed tid (Dataset_client c) s = add_event (Table_removed c tid) s"
| "on_table_removed tid (Table_watch t) s = (if tid = t then table_detach t s else s)"

definition raise_dataset :: "(dataset_callback \<Rightarrow> 'm db \<Rightarrow> 'm db) \<Rightarrow> 'm db \<Rightarrow> 'm db result" where
  "raise_dataset = raise_callbacks db_callbacks"

definition dataset_size :: "'m db \<Rightarrow> nat" where
  "dataset_size s = length (db_map s)"

text \<open>\<^verbatim>\<open>table_base\<close>: a null name or description becomes the empty text.\<close>

definition table_base :: "key \<Rightarrow> bool \<Rightarrow> string option \<Rightarrow> string option \<Rightarrow> table" where
  "table_base k has_parent name description =
     \<lparr>t_key = k, t_has_parent = has_parent,
      t_name = (case name of None \<Rightarrow> [] | Some n \<Rightarrow> n),
      t_description = (case description of None \<Rightarrow> [] | Some d \<Rightarrow> d),
      t_rows = [], t_callbacks = [], t_data_callbacks = []\<rparr>"

definition dataset_create_table ::
  "key \<Rightarrow> string option \<Rightarrow> string option \<Rightarrow> 'm db \<Rightarrow> nat \<times> 'm db" where
  "dataset_create_table k name description s =
     (let tid = length (db_tables s);
          s1 = s\<lparr>db_tables := db_tables s @ [table_base k True name description]\<rparr>
      in (tid, snd (dataset_subscribe_callback (Table_watch tid) s1)))"

definition dataset_add_table ::
  "key \<Rightarrow> string option \<Rightarrow> string option \<Rightarrow> 'm db \<Rightarrow> (bool \<times> 'm db) result" where
  "dataset_add_table k name description s =
     (if key_find k (db_map s) \<noteq> None then Inr (False, s)
      else
        (case dataset_create_table k name description s of
           (tid, s1) \<Rightarrow>
             let s2 = s1\<lparr>db_map := db_map s1 @ [(t_key (the_table s1 tid), tid)]\<rparr>
             in res_map (Pair True) (raise_dataset (on_table_added tid) s2)))"

definition dataset_add_table_plain :: "key \<Rightarrow> 'm db \<Rightarrow> (bool \<times> 'm db) result" where
  "dataset_add_table_plain k s = dataset_add_table k None None s"

definition dataset_remove_table :: "key \<Rightarrow> 'm db \<Rightarrow> (bool \<times> nat option \<times> 'm db) result" where
  "dataset_remove_table k s =
     (case key_find k (db_map s) of
        None \<Rightarrow> Inr (False, None, s)
      | Some tid \<Rightarrow>
          res_map (\<lambda>s2. (True, Some tid, s2\<lparr>db_map := key_erase k (db_map s2)\<rparr>))
            (raise_dataset (on_table_removed tid) s))"

definition dataset_query_table :: "key \<Rightarrow> 'm db \<Rightarrow> nat option" where
  "dataset_query_table k s = key_find k (db_map s)"

definition dataset_query_table_by_index :: "nat \<Rightarrow> 'm db \<Rightarrow> nat option" where
  "dataset_query_table_by_index index s =
     (if index \<ge> length (db_map s) then None else Some (snd (db_map s ! index)))"

text \<open>The loop compares with \<^verbatim>\<open>strcmp\<close>, which may not be given the null pointer.\<close>

fun find_table_by_name :: "string \<Rightarrow> 'm db \<Rightarrow> (key \<times> nat) list \<Rightarrow> nat option result" where
  "find_table_by_name name s [] = Inr None"
| "find_table_by_name name s ((k, tid) # rest) =
     (case table_name (the_table s tid) of
        None \<Rightarrow> Inl Undefined
      | Some n \<Rightarrow> if name = n then Inr (Some tid) else find_table_by_name name s rest)"

definition dataset_query_table_by_name :: "string \<Rightarrow> 'm db \<Rightarrow> nat option result" where
  "dataset_query_table_by_name name s = find_table_by_name name s (db_map s)"

definition dataset_clear_tables :: "'m db \<Rightarrow> 'm db result" where
  "dataset_clear_tables s =
     res_map (\<lambda>s'. s'\<lparr>db_map := []\<rparr>)
       (foldl (\<lambda>acc p. res_bind acc (raise_dataset (on_table_removed (snd p)))) (Inr s) (db_map s))"

definition memory_dataset_create :: "key \<Rightarrow> 'm db" where
  "memory_dataset_create k =
     \<lparr>db_key = k, db_map = [], db_callbacks = [], db_tables = [], db_rows = [], db_events = []\<rparr>"

section \<open>Hash maps keyed by keys\<close>

definition keys_ok :: "(key \<times> nat) list \<Rightarrow> bool" where
  "keys_ok m \<longleftrightarrow> (\<forall>k \<in> fst ` set m. key_ok k) \<and> distinct (map (key_norm \<circ> fst) m)"

lemma key_find_map_of:
  "key_ok k \<Longrightarrow> keys_ok m \<Longrightarrow> key_find k m = map_of (map (\<lambda>p. (key_norm (fst p), snd p)) m) (key_norm k)"
  by (induction m) (auto simp: key_find_def keys_ok_def key_eq_norm)

lemma key_find_append:
  assumes "key_ok k" and "key_ok k'" and "keys_ok m" and "key_find k m = None"
  shows "keys_ok (m @ [(k, v)])" and "key_find k' (m @ [(k, v)]) = (if key_eq k k' then Some v else key_find k' m)"
proof -
  have fresh: "key_norm k \<notin> (key_norm \<circ> fst) ` set m"
    using assms by (auto simp: key_find_map_of map_of_eq_None_iff image_iff)
  then show ok: "keys_ok (m @ [(k, v)])"
    using assms by (auto simp: keys_ok_def)
  have "key_eq k k' \<longleftrightarrow> key_norm k = key_norm k'"
    using assms by (simp add: key_eq_norm)
  with fresh assms(1-3) show "key_find k' (m @ [(k, v)]) = (if key_eq k k' then Some v else key_find k' m)"
    by (induction m) (auto simp: key_find_def keys_ok_def key_eq_norm)
qed

lemma key_find_erase:
  assumes "key_ok k" and "key_ok k'" and "keys_ok m"
  shows "keys_ok (key_erase k m)" and "key_find k' (key_erase k m) = (if key_eq k k' then None else key_find k' m)"
  using assms
  by (induction m) (auto simp: keys_ok_def key_erase_def key_find_def key_eq_norm)

section \<open>What an operation does to the state\<close>

fun added_events :: "nat \<Rightarrow> nat \<Rightarrow> table_callback list \<Rightarrow> db_event list" where
  "added_events tid rid [] = []"
| "added_events tid rid (Table_client c # cs) = Row_added c tid rid # added_events tid rid cs"
| "added_events tid rid (Row_watch r # cs) = added_events tid rid cs"

fun removed_events :: "nat \<Rightarrow> nat \<Rightarrow> table_callback list \<Rightarrow> db_event list" where
  "removed_events tid rid [] = []"
| "removed_events tid rid (Table_client c # cs) = Row_removed c tid rid # removed_events tid rid cs"
| "removed_events tid rid (Row_watch r # cs) = removed_events tid rid cs"

fun table_added_events :: "nat \<Rightarrow> dataset_callback list \<Rightarrow> db_event list" where
  "table_added_events tid [] = []"
| "table_added_events tid (Dataset_client c # cs) = Table_added c tid # table_added_events tid cs"
| "table_added_events tid (Table_watch t # cs) = table_added_events tid cs"

fun table_removed_events :: "nat \<Rightarrow> dataset_callback list \<Rightarrow> db_event list" where
  "table_removed_events tid [] = []"
| "table_removed_events tid (Dataset_client c # cs) = Table_removed c tid # table_removed_events tid cs"
| "table_removed_events tid (Table_watch t # cs) = table_removed_events tid cs"

lemma removed_events_append: "removed_events tid rid (xs @ ys) = removed_events tid rid xs @ removed_events tid rid ys"
  by (induction tid rid xs rule: removed_events.induct) auto

lemma table_removed_events_append:
  "table_removed_events tid (xs @ ys) = table_removed_events tid xs @ table_removed_events tid ys"
  by (induction tid xs rule: table_removed_events.induct) auto

lemma fold_on_row_added:
  "fold (on_row_added tid rid) cs s = s\<lparr>db_events := db_events s @ added_events tid rid cs\<rparr>"
  by (induction tid rid cs arbitrary: s rule: added_events.induct) (simp_all add: add_event_def)

lemma fold_on_table_added:
  "fold (on_table_added tid) cs s = s\<lparr>db_events := db_events s @ table_added_events tid cs\<rparr>"
  by (induction tid cs arbitrary: s rule: table_added_events.induct) (simp_all add: add_event_def)

lemma fold_on_row_removed_other:
  "Row_watch rid \<notin> set cs \<Longrightarrow>
   fold (on_row_removed tid rid) cs s = s\<lparr>db_events := db_events s @ removed_events tid rid cs\<rparr>"
  by (induction tid rid cs arbitrary: s rule: removed_events.induct) (auto simp: add_event_def)

lemma fold_on_table_removed_other:
  "Table_watch tid \<notin> set cs \<Longrightarrow>
   fold (on_table_removed tid) cs s = s\<lparr>db_events := db_events s @ table_removed_events tid cs\<rparr>"
  by (induction tid cs arbitrary: s rule: table_removed_events.induct) (auto simp: add_event_def)

lemma row_detach_eq:
  assumes "r_parent (the_row s rid) = Some tid"
  shows "row_detach rid s =
    s\<lparr>db_tables := (db_tables s)[tid := (the_table s tid)\<lparr>t_callbacks := remove1 (Row_watch rid) (t_callbacks (the_table s tid))\<rparr>],
      db_rows := (db_rows s)[rid := (the_row s rid)\<lparr>r_parent := None\<rparr>]\<rparr>"
  using assms
  by (simp add: row_detach_def table_unsubscribe_callback_def upd_row_def upd_table_def the_row_def
      remove_callback_def remove1_idem)

lemma table_detach_eq:
  assumes "t_has_parent (the_table s tid)"
  shows "table_detach tid s =
    s\<lparr>db_callbacks := remove1 (Table_watch tid) (db_callbacks s),
      db_tables := (db_tables s)[tid := (the_table s tid)\<lparr>t_has_parent := False\<rparr>]\<rparr>"
  using assms
  by (simp add: table_detach_def dataset_unsubscribe_callback_def upd_table_def the_table_def
      remove_callback_def remove1_idem)

lemma fold_on_row_removed:
  assumes "distinct cs" and "Row_watch rid \<in> set cs" and "r_parent (the_row s rid) = Some tid"
  shows "fold (on_row_removed tid rid) cs s =
    s\<lparr>db_tables := (db_tables s)[tid := (the_table s tid)\<lparr>t_callbacks := remove1 (Row_watch rid) (t_callbacks (the_table s tid))\<rparr>],
      db_rows := (db_rows s)[rid := (the_row s rid)\<lparr>r_parent := None\<rparr>],
      db_events := db_events s @ removed_events tid rid cs\<rparr>"
proof -
  obtain xs ys where cs: "cs = xs @ Row_watch rid # ys" using assms(2) by (meson split_list)
  with assms(1) have "Row_watch rid \<notin> set xs" "Row_watch rid \<notin> set ys" by auto
  moreover have "r_parent (the_row (s\<lparr>db_events := es\<rparr>) rid) = Some tid" for es
    using assms(3) by (simp add: the_row_def)
  ultimately show ?thesis
    by (simp add: cs fold_on_row_removed_other row_detach_eq removed_events_append)
       (simp add: the_row_def the_table_def)
qed

lemma fold_on_table_removed:
  assumes "distinct cs" and "Table_watch tid \<in> set cs" and "t_has_parent (the_table s tid)"
  shows "fold (on_table_removed tid) cs s =
    s\<lparr>db_callbacks := remove1 (Table_watch tid) (db_callbacks s),
      db_tables := (db_tables s)[tid := (the_table s tid)\<lparr>t_has_parent := False\<rparr>],
      db_events := db_events s @ table_removed_events tid cs\<rparr>"
proof -
  obtain xs ys where cs: "cs = xs @ Table_watch tid # ys" using assms(2) by (meson split_list)
  with assms(1) have "Table_watch tid \<notin> set xs" "Table_watch tid \<notin> set ys" by auto
  moreover have "t_has_parent (the_table (s\<lparr>db_events := es\<rparr>) tid)" for es
    using assms(3) by (simp add: the_table_def)
  ultimately show ?thesis
    by (simp add: cs fold_on_table_removed_other table_detach_eq table_removed_events_append)
       (simp add: the_table_def)
qed

lemma fold_upd_row:
  "rid < length (db_rows s) \<Longrightarrow>
   fold (\<lambda>c. upd_row rid (f c)) cs s = s\<lparr>db_rows := (db_rows s)[rid := fold f cs (the_row s rid)]\<rparr>"
  by (induction cs arbitrary: s) (simp_all add: upd_row_def the_row_def)

lemma fold_row_subscribe:
  "distinct (r_callbacks r @ cs) \<Longrightarrow>
   fold (\<lambda>c r. snd (row_subscribe_callback c r)) cs r = r\<lparr>r_callbacks := r_callbacks r @ cs\<rparr>"
  by (induction cs arbitrary: r) (simp_all add: row_subscribe_callback_def add_callback_def)

lemma fold_row_unsubscribe:
  "fold (\<lambda>c r. snd (row_unsubscribe_callback c r)) cs r = r\<lparr>r_callbacks := fold remove1 cs (r_callbacks r)\<rparr>"
  by (induction cs arbitrary: r) (simp_all add: row_unsubscribe_callback_def remove_callback_def remove1_idem)

lemma fold_remove1_distinct: "distinct xs \<Longrightarrow> fold remove1 cs xs = filter (\<lambda>c. c \<notin> set cs) xs"
  by (induction cs arbitrary: xs) (auto simp: distinct_remove1_removeAll removeAll_filter_not_eq intro: filter_cong)

section \<open>Invariant\<close>

definition table_ok :: "'m db \<Rightarrow> nat \<Rightarrow> bool" where
  "table_ok s tid \<longleftrightarrow>
     (let t = the_table s tid in
      keys_ok (t_rows t) \<and> distinct (map snd (t_rows t)) \<and>
      distinct (t_callbacks t) \<and> distinct (t_data_callbacks t) \<and>
      (\<forall>rid. Row_watch rid \<in> set (t_callbacks t) \<longrightarrow> rid < length (db_rows s)) \<and>
      (\<forall>k rid. (k, rid) \<in> set (t_rows t) \<longrightarrow>
         rid < length (db_rows s) \<and> r_key (the_row s rid) = k \<and> r_parent (the_row s rid) = Some tid \<and>
         Row_watch rid \<in> set (t_callbacks t)))"

definition dataset_ok :: "'m db \<Rightarrow> bool" where
  "dataset_ok s \<longleftrightarrow>
     keys_ok (db_map s) \<and> distinct (map snd (db_map s)) \<and> distinct (db_callbacks s) \<and>
     (\<forall>tid. Table_watch tid \<in> set (db_callbacks s) \<longrightarrow> tid < length (db_tables s)) \<and>
     (\<forall>k tid. (k, tid) \<in> set (db_map s) \<longrightarrow>
        tid < length (db_tables s) \<and> t_key (the_table s tid) = k \<and> t_has_parent (the_table s tid) \<and>
        Table_watch tid \<in> set (db_callbacks s))"

definition db_inv :: "'m db \<Rightarrow> bool" where
  "db_inv s \<longleftrightarrow>
     dataset_ok s \<and> (\<forall>tid < length (db_tables s). table_ok s tid) \<and> (\<forall>r \<in> set (db_rows s). row_inv r)"

lemma db_inv_create: "db_inv (memory_dataset_create k)"
  by (simp add: db_inv_def dataset_ok_def memory_dataset_create_def keys_ok_def)

lemma key_find_SomeD:
  "key_find k m = Some v \<Longrightarrow> \<exists>k'. (k', v) \<in> set m \<and> key_eq k' k"
  by (induction m) (auto simp: key_find_def split: if_splits)

section \<open>The operations in closed form\<close>

lemma table_create_row_eq:
  assumes "table_ok s tid" and "memory_row_create junk k sz info parser (Some tid) = Some r"
    and "tid < length (db_tables s)"
  shows "table_create_row junk tid k sz info parser s =
    Some (length (db_rows s),
      s\<lparr>db_rows := db_rows s @ [r],
        db_tables := (db_tables s)[tid := (the_table s tid)\<lparr>t_callbacks := t_callbacks (the_table s tid) @ [Row_watch (length (db_rows s))]\<rparr>]\<rparr>)"
proof -
  have "Row_watch (length (db_rows s)) \<notin> set (t_callbacks (the_table s tid))"
    using assms(1) by (auto simp: table_ok_def Let_def)
  with assms(2,3) show ?thesis
    by (simp add: table_create_row_def table_subscribe_callback_def add_callback_def upd_table_def the_table_def
        Let_def)
qed

lemma memory_row_create_Some:
  assumes "sz = 0 \<longrightarrow> ri_type info = EMPTY_TYPE"
  obtains r where "memory_row_create junk k sz info parser parent = Some r" "row_inv r"
    "r_key r = k" "r_info r = info" "r_parent r = parent" "r_callbacks r = []"
  using assms row_create_inv[of junk k sz info parser parent]
  by (cases "memory_row_create junk k sz info parser parent")
     (auto simp: memory_row_create_def memory_row_impl_def split: if_splits)

text \<open>Adding a row under a new key.\<close>

lemma table_add_row_new:
  assumes "db_inv s" and "tid < length (db_tables s)" and "sz = 0 \<longrightarrow> ri_type info = EMPTY_TYPE"
    and "table_query_row tid k s = None"
  shows "\<exists>r. row_inv r \<and> r_key r = k \<and> r_info r = info \<and> r_parent r = Some tid \<and>
     r_callbacks r = t_data_callbacks (the_table s tid) \<and>
     table_add_row junk tid k sz info parser s =
       Inr (True, s\<lparr>
         db_tables := (db_tables s)[tid := (the_table s tid)
           \<lparr>t_callbacks := t_callbacks (the_table s tid) @ [Row_watch (length (db_rows s))],
            t_rows := t_rows (the_table s tid) @ [(k, length (db_rows s))]\<rparr>],
         db_events := db_events s @ added_events tid (length (db_rows s)) (t_callbacks (the_table s tid)),
         db_rows := db_rows s @ [r]\<rparr>)"
proof -
  have tok: "table_ok s tid" using assms(1,2) by (simp add: db_inv_def)
  obtain r where r: "memory_row_create junk k sz info parser (Some tid) = Some r" "row_inv r"
    "r_key r = k" "r_info r = info" "r_parent r = Some tid" "r_callbacks r = []"
    using memory_row_create_Some[OF assms(3)] by blast
  have d: "distinct (t_data_callbacks (the_table s tid))" using tok by (simp add: table_ok_def Let_def)
  have ev: "added_events tid rid (cs @ [Row_watch rid']) = added_events tid rid cs" for rid cs rid'
    by (induction tid rid cs rule: added_events.induct) auto
  let ?r = "r\<lparr>r_callbacks := t_data_callbacks (the_table s tid)\<rparr>"
  have "row_inv ?r" using r(2) d by (rule row_inv_updates)
  moreover have "\<not> (sz = 0 \<and> ri_type info \<noteq> EMPTY_TYPE)" using assms(3) by blast
  ultimately show ?thesis
    using assms(2,4) r d table_create_row_eq[OF tok r(1) assms(2)]
    by (intro exI[of _ ?r])
       (simp add: table_add_row_def table_query_row_def raise_table_def raise_callbacks_fold fold_on_row_added
         upd_table_def the_table_def the_row_def row_subscribe_all_def fold_upd_row fold_row_subscribe ev)
qed

lemma table_remove_row_found:
  assumes "db_inv s" and "tid < length (db_tables s)" and "key_ok k" and "table_query_row tid k s = Some rid"
  shows "table_remove_row tid k s =
     Inr (True, Some rid, s\<lparr>
       db_rows := (db_rows s)[rid := (the_row s rid)
         \<lparr>r_callbacks := filter (\<lambda>c. c \<notin> set (t_data_callbacks (the_table s tid))) (r_callbacks (the_row s rid)),
          r_parent := None\<rparr>],
       db_events := db_events s @ removed_events tid rid (t_callbacks (the_table s tid)),
       db_tables := (db_tables s)[tid := (the_table s tid)
         \<lparr>t_callbacks := remove1 (Row_watch rid) (t_callbacks (the_table s tid)),
          t_rows := key_erase k (t_rows (the_table s tid))\<rparr>]\<rparr>)"
proof -
  have tok: "table_ok s tid" using assms(1,2) by (simp add: db_inv_def)
  obtain k' where "(k', rid) \<in> set (t_rows (the_table s tid))"
    using key_find_SomeD assms(4) unfolding table_query_row_def by blast
  with tok have rid: "rid < length (db_rows s)" "r_parent (the_row s rid) = Some tid"
    "Row_watch rid \<in> set (t_callbacks (the_table s tid))" and dc: "distinct (t_callbacks (the_table s tid))"
    by (auto simp: table_ok_def Let_def)
  then have "row_inv (the_row s rid)" using assms(1) by (auto simp: db_inv_def the_row_def)
  then have dr: "distinct (r_callbacks (the_row s rid))" by (rule row_inv_distinct)
  let ?s1 = "row_unsubscribe_all (t_data_callbacks (the_table s tid)) rid s"
  have s1: "?s1 = s\<lparr>db_rows := (db_rows s)[rid := (the_row s rid)\<lparr>r_callbacks :=
      filter (\<lambda>c. c \<notin> set (t_data_callbacks (the_table s tid))) (r_callbacks (the_row s rid))\<rparr>]\<rparr>"
    using rid(1) dr
    by (simp add: row_unsubscribe_all_def fold_upd_row fold_row_unsubscribe fold_remove1_distinct)
  have "r_parent (the_row ?s1 rid) = Some tid" using rid s1 by (simp add: the_row_def)
  from fold_on_row_removed[OF dc rid(3) this] show ?thesis
    using assms(2,4) rid(1) s1
    by (simp add: table_remove_row_def table_query_row_def raise_table_def raise_callbacks_fold the_table_def
        the_row_def upd_table_def)
qed

lemma dataset_add_table_new:
  assumes "db_inv s" and "dataset_query_table k s = None"
  shows "dataset_add_table k name description s =
     Inr (True, s\<lparr>
       db_tables := db_tables s @ [table_base k True name description],
       db_callbacks := db_callbacks s @ [Table_watch (length (db_tables s))],
       db_map := db_map s @ [(k, length (db_tables s))],
       db_events := db_events s @ table_added_events (length (db_tables s)) (db_callbacks s)\<rparr>)"
proof -
  have w: "Table_watch (length (db_tables s)) \<notin> set (db_callbacks s)"
    using assms(1) by (auto simp: db_inv_def dataset_ok_def)
  have ev: "table_added_events tid (cs @ [Table_watch t]) = table_added_events tid cs" for tid cs t
    by (induction tid cs rule: table_added_events.induct) auto
  show ?thesis
    using assms(2) w
    by (simp add: dataset_add_table_def dataset_query_table_def dataset_create_table_def
        dataset_subscribe_callback_def add_callback_def Let_def raise_dataset_def raise_callbacks_fold
        fold_on_table_added the_table_def ev)
       (simp add: table_base_def)
qed

lemma dataset_remove_table_found:
  assumes "db_inv s" and "dataset_query_table k s = Some tid"
  shows "dataset_remove_table k s =
     Inr (True, Some tid, s\<lparr>
       db_callbacks := remove1 (Table_watch tid) (db_callbacks s),
       db_tables := (db_tables s)[tid := (the_table s tid)\<lparr>t_has_parent := False\<rparr>],
       db_events := db_events s @ table_removed_events tid (db_callbacks s),
       db_map := key_erase k (db_map s)\<rparr>)"
proof -
  obtain k' where "(k', tid) \<in> set (db_map s)"
    using key_find_SomeD assms(2) unfolding dataset_query_table_def by blast
  then have "distinct (db_callbacks s)" "Table_watch tid \<in> set (db_callbacks s)" "t_has_parent (the_table s tid)"
    using assms(1) by (auto simp: db_inv_def dataset_ok_def)
  from fold_on_table_removed[OF this] show ?thesis
    using assms(2)
    by (simp add: dataset_remove_table_def dataset_query_table_def raise_dataset_def raise_callbacks_fold)
qed

section \<open>The operations keep the invariant\<close>

lemma table_ok_mono:
  assumes "table_ok s tid" and "the_table s' tid = the_table s tid" and "length (db_rows s) \<le> length (db_rows s')"
    and "\<And>rid. rid < length (db_rows s) \<Longrightarrow> r_parent (the_row s rid) = Some tid \<Longrightarrow>
           r_key (the_row s' rid) = r_key (the_row s rid) \<and> r_parent (the_row s' rid) = Some tid"
  shows "table_ok s' tid"
  using assms unfolding table_ok_def Let_def by (auto dest: less_le_trans)

lemma the_row_append: "rid < length (db_rows s) \<Longrightarrow> (db_rows s @ rs) ! rid = the_row s rid"
  by (simp add: the_row_def nth_append)

lemma add_row_inv:
  assumes "db_inv s" and "tid < length (db_tables s)" and "sz = 0 \<longrightarrow> ri_type info = EMPTY_TYPE" and "key_ok k"
    and "table_query_row tid k s = None"
  shows "\<exists>s'. table_add_row junk tid k sz info parser s = Inr (True, s') \<and> db_inv s'"
proof -
  let ?rid = "length (db_rows s)" and ?t = "the_table s tid"
  obtain r where r: "row_inv r" "r_key r = k" "r_parent r = Some tid"
    and eq: "table_add_row junk tid k sz info parser s =
       Inr (True, s\<lparr>
         db_tables := (db_tables s)[tid := ?t
           \<lparr>t_callbacks := t_callbacks ?t @ [Row_watch ?rid], t_rows := t_rows ?t @ [(k, ?rid)]\<rparr>],
         db_events := db_events s @ added_events tid ?rid (t_callbacks ?t),
         db_rows := db_rows s @ [r]\<rparr>)" (is "_ = Inr (True, ?s')")
    using table_add_row_new[OF assms(1-3,5), of junk parser] by blast
  have tok: "table_ok s tid" using assms(1,2) by (simp add: db_inv_def)
  have "keys_ok (t_rows ?t @ [(k, ?rid)])"
    using tok assms(4,5) by (intro key_find_append) (auto simp: table_ok_def Let_def table_query_row_def)
  moreover have "(a, ?rid) \<notin> set (t_rows ?t)" for a
    using tok by (auto simp: table_ok_def Let_def)
  ultimately have "table_ok ?s' tid"
    using tok r assms(2)
    by (auto simp: table_ok_def Let_def the_table_def the_row_def nth_append less_Suc_eq)
  moreover have "table_ok ?s' t" if "t < length (db_tables s)" "t \<noteq> tid" for t
  proof (rule table_ok_mono)
    show "table_ok s t" using that assms(1) by (simp add: db_inv_def)
  qed (use that in \<open>auto simp: the_table_def the_row_def nth_append\<close>)
  moreover have "dataset_ok ?s'"
    using assms(1,2) by (auto simp: db_inv_def dataset_ok_def the_table_def nth_list_update)
  ultimately have "db_inv ?s'" using assms(1) r(1) by (auto simp: db_inv_def)
  with eq show ?thesis by blast
qed

lemma remove_row_inv:
  assumes "db_inv s" and "tid < length (db_tables s)" and "key_ok k" and "table_query_row tid k s = Some rid"
  shows "\<exists>s'. table_remove_row tid k s = Inr (True, Some rid, s') \<and> db_inv s'"
proof -
  let ?t = "the_table s tid" and ?r = "the_row s rid"
  note eq = table_remove_row_found[OF assms]
  let ?s' = "s\<lparr>db_rows := (db_rows s)[rid := ?r
         \<lparr>r_callbacks := filter (\<lambda>c. c \<notin> set (t_data_callbacks ?t)) (r_callbacks ?r), r_parent := None\<rparr>],
       db_events := db_events s @ removed_events tid rid (t_callbacks ?t),
       db_tables := (db_tables s)[tid := ?t
         \<lparr>t_callbacks := remove1 (Row_watch rid) (t_callbacks ?t), t_rows := key_erase k (t_rows ?t)\<rparr>]\<rparr>"
  have tok: "table_ok s tid" using assms(1,2) by (simp add: db_inv_def)
  obtain k' where k': "(k', rid) \<in> set (t_rows ?t)" "key_eq k' k"
    using key_find_SomeD assms(4) unfolding table_query_row_def by blast
  with tok have rid: "rid < length (db_rows s)" "r_parent ?r = Some tid"
    by (auto simp: table_ok_def Let_def)
  have gone: "rid \<notin> snd ` set (key_erase k (t_rows ?t))"
  proof
    assume "rid \<in> snd ` set (key_erase k (t_rows ?t))"
    then obtain k2 where "(k2, rid) \<in> set (t_rows ?t)" "\<not> key_eq k2 k" by (auto simp: key_erase_def)
    moreover have "distinct (map snd (t_rows ?t))" using tok by (simp add: table_ok_def Let_def)
    ultimately have "k2 = k'" using k' by (auto simp: distinct_map dest: inj_onD[of snd _ "(k2, rid)" "(k', rid)"])
    with \<open>\<not> key_eq k2 k\<close> k' show False by simp
  qed
  have kept: "rid2 \<noteq> rid \<and> rid2 < length (db_rows s) \<and> r_key (the_row s rid2) = k2 \<and>
      r_parent (the_row s rid2) = Some tid \<and> Row_watch rid2 \<in> set (t_callbacks ?t)"
    if "(k2, rid2) \<in> set (key_erase k (t_rows ?t))" for k2 rid2
    using gone that tok by (force simp: key_erase_def table_ok_def Let_def)
  have keys: "keys_ok (key_erase k (t_rows ?t))"
    using tok assms(3) by (intro key_find_erase(1)) (auto simp: table_ok_def Let_def)
  have snds: "distinct (map snd (key_erase k (t_rows ?t)))"
    using tok by (simp add: table_ok_def Let_def key_erase_def distinct_map_filter)
  have "table_ok ?s' tid"
    using tok assms(2) keys snds
    by (auto simp: table_ok_def Let_def the_table_def the_row_def
        dest: notin_set_remove1 kept[unfolded the_table_def the_row_def])
  moreover have "table_ok ?s' t" if "t < length (db_tables s)" "t \<noteq> tid" for t
  proof (rule table_ok_mono)
    show "table_ok s t" using that assms(1) by (simp add: db_inv_def)
  qed (use that rid in \<open>auto simp: the_table_def the_row_def nth_list_update\<close>)
  moreover have "dataset_ok ?s'"
    using assms(1,2) by (auto simp: db_inv_def dataset_ok_def the_table_def nth_list_update)
  moreover have "row_inv ?r" using assms(1) rid(1) by (auto simp: db_inv_def the_row_def)
  then have "row_inv (?r\<lparr>r_callbacks := filter (\<lambda>c. c \<notin> set (t_data_callbacks ?t)) (r_callbacks ?r), r_parent := None\<rparr>)"
    by (intro row_inv_updates) (auto dest: row_inv_distinct)
  then have "\<forall>r \<in> set (db_rows ?s'). row_inv r"
    using assms(1) by (auto simp: db_inv_def dest!: set_update_subset_insert[THEN subsetD])
  moreover have "table_ok ?s' t" if "t < length (db_tables s)" for t
    using calculation(1,2) that by (cases "t = tid") auto
  ultimately have "db_inv ?s'" unfolding db_inv_def by simp
  with eq show ?thesis by blast
qed

lemma add_table_inv:
  assumes "db_inv s" and "key_ok k" and "dataset_query_table k s = None"
  shows "\<exists>s'. dataset_add_table k name description s = Inr (True, s') \<and> db_inv s'"
proof -
  let ?tid = "length (db_tables s)"
  let ?s' = "s\<lparr>db_tables := db_tables s @ [table_base k True name description],
       db_callbacks := db_callbacks s @ [Table_watch ?tid], db_map := db_map s @ [(k, ?tid)],
       db_events := db_events s @ table_added_events ?tid (db_callbacks s)\<rparr>"
  have dok: "dataset_ok s" using assms(1) by (simp add: db_inv_def)
  have "keys_ok (db_map s @ [(k, ?tid)])"
    using dok assms(2,3) by (intro key_find_append) (auto simp: dataset_ok_def dataset_query_table_def)
  moreover have "(a, ?tid) \<notin> set (db_map s)" for a
    using dok by (auto simp: dataset_ok_def)
  moreover have "tid < Suc ?tid" if "(a, tid) \<in> set (db_map s)" for a tid
    using dok that by (auto simp: dataset_ok_def intro: less_SucI)
  ultimately have "dataset_ok ?s'"
    using dok by (auto simp: dataset_ok_def the_table_def nth_append table_base_def)
  moreover have "table_ok ?s' t" if "t < length (db_tables s)" for t
  proof (rule table_ok_mono)
    show "table_ok s t" using that assms(1) by (simp add: db_inv_def)
  qed (use that in \<open>auto simp: the_table_def the_row_def nth_append\<close>)
  moreover have "table_ok ?s' ?tid"
    by (simp add: table_ok_def the_table_def table_base_def keys_ok_def)
  ultimately have "db_inv ?s'" using assms(1) by (auto simp: db_inv_def less_Suc_eq)
  with dataset_add_table_new[OF assms(1,3)] show ?thesis by blast
qed

lemma remove_table_inv:
  assumes "db_inv s" and "key_ok k" and "dataset_query_table k s = Some tid"
  shows "\<exists>s'. dataset_remove_table k s = Inr (True, Some tid, s') \<and> db_inv s'"
proof -
  let ?t = "the_table s tid"
  let ?s' = "s\<lparr>db_callbacks := remove1 (Table_watch tid) (db_callbacks s),
       db_tables := (db_tables s)[tid := ?t\<lparr>t_has_parent := False\<rparr>],
       db_events := db_events s @ table_removed_events tid (db_callbacks s), db_map := key_erase k (db_map s)\<rparr>"
  have dok: "dataset_ok s" using assms(1) by (simp add: db_inv_def)
  obtain k' where k': "(k', tid) \<in> set (db_map s)" "key_eq k' k"
    using key_find_SomeD assms(3) unfolding dataset_query_table_def by blast
  have inj: "inj_on snd (set (db_map s))" using dok by (simp add: dataset_ok_def distinct_map)
  have kept: "tid2 \<noteq> tid \<and> tid2 < length (db_tables s) \<and> t_key (the_table s tid2) = k2 \<and>
      t_has_parent (the_table s tid2) \<and> Table_watch tid2 \<in> set (db_callbacks s)"
    if "(k2, tid2) \<in> set (key_erase k (db_map s))" for k2 tid2
    using that dok k' inj_onD[OF inj, of "(k2, tid)" "(k', tid)"] by (auto simp: key_erase_def dataset_ok_def)
  have "keys_ok (key_erase k (db_map s))"
    using dok assms(2) by (intro key_find_erase(1)) (auto simp: dataset_ok_def)
  moreover have "distinct (map snd (key_erase k (db_map s)))"
    using dok by (simp add: dataset_ok_def key_erase_def distinct_map_filter)
  ultimately have "dataset_ok ?s'"
    using dok
    by (auto simp: dataset_ok_def the_table_def dest: notin_set_remove1 kept[unfolded the_table_def])
  moreover have "table_ok ?s' t" if "t < length (db_tables s)" for t
  proof -
    have "table_ok s t" using that assms(1) by (simp add: db_inv_def)
    with that show ?thesis
      by (cases "t = tid") (simp_all add: table_ok_def the_table_def the_row_def Let_def)
  qed
  ultimately have "db_inv ?s'" using assms(1) by (auto simp: db_inv_def)
  with dataset_remove_table_found[OF assms(1,3)] show ?thesis by blast
qed

section \<open>The contract of a store of objects under keys\<close>

locale keyed_store =
  fixes inv :: "'s \<Rightarrow> bool"
    and admissible :: "key \<Rightarrow> bool"
    and lookup :: "key \<Rightarrow> 's \<Rightarrow> nat option"
    and count :: "'s \<Rightarrow> nat"
    and add :: "key \<Rightarrow> 's \<Rightarrow> (bool \<times> 's) result"
    and remove :: "key \<Rightarrow> 's \<Rightarrow> (bool \<times> nat option \<times> 's) result"
  assumes admissible_ok: "admissible k \<Longrightarrow> key_ok k"
    and lookup_cong: "inv s \<Longrightarrow> key_ok k \<Longrightarrow> key_ok k' \<Longrightarrow> key_eq k k' \<Longrightarrow> lookup k s = lookup k' s"
    and add_present: "lookup k s \<noteq> None \<Longrightarrow> add k s = Inr (False, s)"
    and add_new: "inv s \<Longrightarrow> admissible k \<Longrightarrow> lookup k s = None \<Longrightarrow>
      \<exists>s' v. add k s = Inr (True, s') \<and> inv s' \<and> count s' = Suc (count s) \<and>
             (\<forall>k'. key_ok k' \<longrightarrow> lookup k' s' = (if key_eq k k' then Some v else lookup k' s))"
    and remove_absent: "lookup k s = None \<Longrightarrow> remove k s = Inr (False, None, s)"
    and remove_present: "inv s \<Longrightarrow> key_ok k \<Longrightarrow> lookup k s = Some v \<Longrightarrow>
      \<exists>s'. remove k s = Inr (True, Some v, s') \<and> inv s' \<and> Suc (count s') = count s \<and>
           (\<forall>k'. key_ok k' \<longrightarrow> lookup k' s' = (if key_eq k k' then None else lookup k' s))"
begin

definition adds :: "key list \<Rightarrow> 's \<Rightarrow> 's result" where
  "adds ks s = foldl (\<lambda>acc k. res_bind acc (\<lambda>s'. res_map snd (add k s'))) (Inr s) ks"

lemma adds_snoc: "adds (ks @ [k]) s = res_bind (adds ks s) (\<lambda>s'. res_map snd (add k s'))"
  by (simp add: adds_def)

lemma add_total:
  assumes "inv s" and "admissible k"
  shows "\<exists>s'. add k s = Inr (lookup k s = None, s') \<and> inv s' \<and>
           (\<forall>k'. key_ok k' \<longrightarrow> (lookup k' s' \<noteq> None) = (key_eq k k' \<or> lookup k' s \<noteq> None))"
proof (cases "lookup k s")
  case None
  with add_new[OF assms None] show ?thesis by auto
next
  case (Some v)
  then have "lookup k' s \<noteq> None" if "key_ok k'" "key_eq k k'" for k'
    using lookup_cong[OF assms(1) admissible_ok[OF assms(2)] that] by simp
  with add_present[of k s] Some assms(1) show ?thesis by auto
qed

lemma adds_lookup:
  assumes "inv s" and "\<forall>k \<in> set ks. admissible k"
  shows "\<exists>s'. adds ks s = Inr s' \<and> inv s' \<and>
           (\<forall>k'. key_ok k' \<longrightarrow> (lookup k' s' \<noteq> None) = (lookup k' s \<noteq> None \<or> (\<exists>k \<in> set ks. key_eq k k')))"
  using assms
proof (induction ks rule: rev_induct)
  case Nil
  then show ?case by (simp add: adds_def)
next
  case (snoc k ks)
  then obtain s1 where s1: "adds ks s = Inr s1" "inv s1"
    "\<forall>k'. key_ok k' \<longrightarrow> (lookup k' s1 \<noteq> None) = (lookup k' s \<noteq> None \<or> (\<exists>k \<in> set ks. key_eq k k'))"
    by auto
  obtain s2 where "add k s1 = Inr (lookup k s1 = None, s2)" "inv s2"
    "\<forall>k'. key_ok k' \<longrightarrow> (lookup k' s2 \<noteq> None) = (key_eq k k' \<or> lookup k' s1 \<noteq> None)"
    using add_total[OF s1(2), of k] snoc.prems by auto
  with s1 show ?case by (auto simp: adds_snoc)
qed

lemma add_remove:
  assumes "inv s" and "admissible k" and "lookup k s = None"
  shows "\<exists>s1 v s2. add k s = Inr (True, s1) \<and> lookup k s1 = Some v \<and>
           remove k s1 = Inr (True, Some v, s2) \<and> inv s2 \<and> count s2 = count s \<and>
           (\<forall>k'. key_ok k' \<longrightarrow> lookup k' s2 = lookup k' s)"
proof -
  have k: "key_ok k" "key_eq k k" using assms(2) admissible_ok by (auto simp: key_eq_norm)
  obtain s1 v where s1: "add k s = Inr (True, s1)" "inv s1" "count s1 = Suc (count s)"
    "\<forall>k'. key_ok k' \<longrightarrow> lookup k' s1 = (if key_eq k k' then Some v else lookup k' s)"
    using add_new[OF assms] by blast
  with k have "lookup k s1 = Some v" by simp
  moreover obtain s2 where "remove k s1 = Inr (True, Some v, s2)" "inv s2" "Suc (count s2) = count s1"
    "\<forall>k'. key_ok k' \<longrightarrow> lookup k' s2 = (if key_eq k k' then None else lookup k' s1)"
    using remove_present[OF s1(2) k(1) calculation] by blast
  moreover have "lookup k' s = None" if "key_ok k'" "key_eq k k'" for k'
    using lookup_cong[OF assms(1) k(1) that] assms(3) by simp
  ultimately show ?thesis using s1 by auto
qed

end

text \<open>A store that also tells its clients, once each and in the order of their registration.\<close>

locale observed_store = keyed_store +
  fixes clients :: "'a \<Rightarrow> nat list"
    and log :: "'a \<Rightarrow> db_event list"
    and added :: "nat \<Rightarrow> nat \<Rightarrow> db_event"
    and removed :: "nat \<Rightarrow> nat \<Rightarrow> db_event"
  assumes add_tells: "inv s \<Longrightarrow> admissible k \<Longrightarrow> add k s = Inr (True, s') \<Longrightarrow>
      clients s' = clients s \<and> log s' = log s @ map (\<lambda>c. added c (the (lookup k s'))) (clients s)"
    and remove_tells: "inv s \<Longrightarrow> key_ok k \<Longrightarrow> remove k s = Inr (True, Some v, s') \<Longrightarrow>
      clients s' = clients s \<and> log s' = log s @ map (\<lambda>c. removed c v) (clients s)"
begin

lemma add_remove_tells:
  assumes "inv s" and "admissible k" and "lookup k s = None"
  shows "\<exists>s1 v s2. add k s = Inr (True, s1) \<and> lookup k s1 = Some v \<and> remove k s1 = Inr (True, Some v, s2) \<and>
           inv s2 \<and> (\<forall>k'. key_ok k' \<longrightarrow> lookup k' s2 = lookup k' s) \<and> count s2 = count s \<and>
           log s2 = log s @ map (\<lambda>c. added c v) (clients s) @ map (\<lambda>c. removed c v) (clients s)"
proof -
  have k: "key_ok k" using assms(2) by (rule admissible_ok)
  obtain s1 v s2 where s: "add k s = Inr (True, s1)" "lookup k s1 = Some v" "remove k s1 = Inr (True, Some v, s2)"
    "inv s2" "count s2 = count s" "\<forall>k'. key_ok k' \<longrightarrow> lookup k' s2 = lookup k' s"
    using add_remove[OF assms] by blast
  have "inv s1" using add_new[OF assms] s(1) by auto
  with add_tells[OF assms(1,2) s(1)] remove_tells[OF this k s(3)] s show ?thesis by auto
qed

end

section \<open>Tables and datasets are observed stores\<close>

fun table_clients :: "table_callback list \<Rightarrow> nat list" where
  "table_clients [] = []"
| "table_clients (Table_client c # cs) = c # table_clients cs"
| "table_clients (Row_watch r # cs) = table_clients cs"

fun dataset_clients :: "dataset_callback list \<Rightarrow> nat list" where
  "dataset_clients [] = []"
| "dataset_clients (Dataset_client c # cs) = c # dataset_clients cs"
| "dataset_clients (Table_watch r # cs) = dataset_clients cs"

lemma table_events_map:
  "added_events tid rid cs = map (\<lambda>c. Row_added c tid rid) (table_clients cs)"
  "removed_events tid rid cs = map (\<lambda>c. Row_removed c tid rid) (table_clients cs)"
  by (induction cs rule: table_clients.induct) auto

lemma dataset_events_map:
  "table_added_events tid cs = map (\<lambda>c. Table_added c tid) (dataset_clients cs)"
  "table_removed_events tid cs = map (\<lambda>c. Table_removed c tid) (dataset_clients cs)"
  by (induction cs rule: dataset_clients.induct) auto

lemma table_clients_watch [simp]:
  "table_clients (cs @ [Row_watch r]) = table_clients cs" "table_clients (remove1 (Row_watch r) cs) = table_clients cs"
  by (induction cs rule: table_clients.induct) auto

lemma dataset_clients_watch [simp]:
  "dataset_clients (cs @ [Table_watch r]) = dataset_clients cs"
  "dataset_clients (remove1 (Table_watch r) cs) = dataset_clients cs"
  by (induction cs rule: dataset_clients.induct) auto

definition on_table :: "nat \<Rightarrow> 'm db \<Rightarrow> bool" where
  "on_table tid s \<longleftrightarrow> db_inv s \<and> tid < length (db_tables s)"

definition row_args_ok :: "size_t \<Rightarrow> row_info \<Rightarrow> key \<Rightarrow> bool" where
  "row_args_ok sz info k \<longleftrightarrow> key_ok k \<and> (sz = 0 \<longrightarrow> ri_type info = EMPTY_TYPE)"

lemma key_find_cong:
  "keys_ok m \<Longrightarrow> key_ok k \<Longrightarrow> key_ok k' \<Longrightarrow> key_eq k k' \<Longrightarrow> key_find k m = key_find k' m"
  by (simp add: key_find_map_of key_eq_norm)

lemma length_key_erase:
  "keys_ok m \<Longrightarrow> key_ok k \<Longrightarrow> key_find k m = Some v \<Longrightarrow> Suc (length (key_erase k m)) = length m"
proof (induction m)
  case Nil
  then show ?case by (simp add: key_find_def)
next
  case (Cons p m)
  show ?case
  proof (cases "key_eq (fst p) k")
    case True
    have "\<not> key_eq (fst x) k" if "x \<in> set m" for x
    proof -
      have "key_ok (fst x)" "key_ok (fst p)" "key_norm (fst x) \<noteq> key_norm (fst p)"
        using Cons.prems(1) that by (auto simp: keys_ok_def image_iff)
      with True Cons.prems(2) show ?thesis by (simp add: key_eq_norm)
    qed
    then have "key_erase k m = m" by (auto simp: key_erase_def intro!: filter_True)
    with True show ?thesis by (simp add: key_erase_def)
  next
    case False
    with Cons show ?thesis by (simp add: key_erase_def key_find_def keys_ok_def)
  qed
qed

lemma on_table_keys: "on_table tid s \<Longrightarrow> keys_ok (t_rows (the_table s tid))"
  by (simp add: on_table_def db_inv_def table_ok_def Let_def)

lemma db_inv_keys: "db_inv s \<Longrightarrow> keys_ok (db_map s)"
  by (simp add: db_inv_def dataset_ok_def)

lemmas table_view_defs = table_query_row_def table_size_def the_table_def

interpretation table_store: observed_store "on_table tid" "row_args_ok sz info" "table_query_row tid" "table_size tid"
  "\<lambda>k. table_add_row junk tid k sz info parser" "table_remove_row tid"
  "\<lambda>s. table_clients (t_callbacks (the_table s tid))" db_events
  "\<lambda>c rid. Row_added c tid rid" "\<lambda>c rid. Row_removed c tid rid"
  for junk tid sz info parser
proof (unfold_locales, goal_cases)
  case (1 k)
  then show ?case by (simp add: row_args_ok_def)
next
  case (2 s k k')
  then show ?case using on_table_keys[of tid s] key_find_cong by (simp add: table_query_row_def)
next
  case (3 k s)
  then show ?case by (simp add: table_add_row_def table_query_row_def)
next
  case (4 s k)
  then have pre: "db_inv s" "tid < length (db_tables s)" "sz = 0 \<longrightarrow> ri_type info = EMPTY_TYPE" "key_ok k"
    by (auto simp: on_table_def row_args_ok_def)
  obtain s' where s': "table_add_row junk tid k sz info parser s = Inr (True, s')" "db_inv s'"
    using add_row_inv[OF pre 4(3)] by blast
  with table_add_row_new[OF pre(1-3) 4(3), of junk parser]
  have rows: "t_rows (the_table s' tid) = t_rows (the_table s tid) @ [(k, length (db_rows s))]"
    and len: "length (db_tables s') = length (db_tables s)"
    using pre(2) by (auto simp: the_table_def)
  have "on_table tid s'" using s'(2) pre(2) len by (simp add: on_table_def)
  moreover have "table_query_row tid k' s' = (if key_eq k k' then Some (length (db_rows s)) else table_query_row tid k' s)"
    if "key_ok k'" for k'
    using key_find_append(2)[OF pre(4) that on_table_keys[OF 4(1)]] 4(3) rows by (simp add: table_query_row_def)
  ultimately show ?case using s'(1) rows by (auto simp: table_size_def)
next
  case (5 k s)
  then show ?case by (simp add: table_remove_row_def table_query_row_def)
next
  case (6 s k v)
  then have pre: "db_inv s" "tid < length (db_tables s)" by (auto simp: on_table_def)
  obtain s' where s': "table_remove_row tid k s = Inr (True, Some v, s')" "db_inv s'"
    using remove_row_inv[OF pre 6(2,3)] by blast
  with table_remove_row_found[OF pre 6(2,3)]
  have rows: "t_rows (the_table s' tid) = key_erase k (t_rows (the_table s tid))"
    and len: "length (db_tables s') = length (db_tables s)"
    using pre(2) by (auto simp: the_table_def)
  have "on_table tid s'" using s'(2) pre(2) len by (simp add: on_table_def)
  moreover have "Suc (table_size tid s') = table_size tid s"
    using length_key_erase[OF on_table_keys[OF 6(1)] 6(2)] 6(3) rows by (simp add: table_size_def table_query_row_def)
  moreover have "table_query_row tid k' s' = (if key_eq k k' then None else table_query_row tid k' s)"
    if "key_ok k'" for k'
    using key_find_erase(2)[OF 6(2) that on_table_keys[OF 6(1)]] rows by (simp add: table_query_row_def)
  ultimately show ?case using s'(1) by auto
next
  case (7 s k s')
  then have pre: "db_inv s" "tid < length (db_tables s)" "sz = 0 \<longrightarrow> ri_type info = EMPTY_TYPE" "key_ok k"
    by (auto simp: on_table_def row_args_ok_def)
  have new: "table_query_row tid k s = None"
    using 7(3) by (cases "table_query_row tid k s") (auto simp: table_add_row_def table_query_row_def split: if_splits)
  have "key_find k (t_rows (the_table s tid) @ [(k, length (db_rows s))]) = Some (length (db_rows s))"
    using key_find_append(2)[OF pre(4,4) on_table_keys[OF 7(1)]] new pre(4) by (simp add: table_query_row_def key_eq_norm)
  with table_add_row_new[OF pre(1-3) new, of junk parser] 7(3) pre(2) show ?case
    by (auto simp: the_table_def table_query_row_def table_events_map)
next
  case (8 s k v s')
  then have pre: "db_inv s" "tid < length (db_tables s)" by (auto simp: on_table_def)
  have found: "table_query_row tid k s = Some v"
    using 8(3) by (cases "key_find k (t_rows (the_table s tid))")
      (auto simp: table_remove_row_def table_query_row_def Let_def res_simps)
  with table_remove_row_found[OF pre 8(2) found] 8(3) pre(2) show ?case
    by (auto simp: the_table_def table_events_map)
qed

interpretation dataset_store: observed_store db_inv key_ok dataset_query_table dataset_size
  "\<lambda>k. dataset_add_table k name description" dataset_remove_table
  "\<lambda>s. dataset_clients (db_callbacks s)" db_events
  "\<lambda>c tid. Table_added c tid" "\<lambda>c tid. Table_removed c tid"
  for name description
proof (unfold_locales, goal_cases)
  case (1 k)
  then show ?case .
next
  case (2 s k k')
  then show ?case using db_inv_keys[of s] key_find_cong by (simp add: dataset_query_table_def)
next
  case (3 k s)
  then show ?case by (simp add: dataset_add_table_def dataset_query_table_def)
next
  case (4 s k)
  obtain s' where s': "dataset_add_table k name description s = Inr (True, s')" "db_inv s'"
    using add_table_inv[OF 4] by blast
  with dataset_add_table_new[OF 4(1,3)] have "db_map s' = db_map s @ [(k, length (db_tables s))]" by auto
  with s' key_find_append(2)[OF 4(2) _ db_inv_keys[OF 4(1)]] 4(3) show ?case
    by (auto simp: dataset_query_table_def dataset_size_def)
next
  case (5 k s)
  then show ?case by (simp add: dataset_remove_table_def dataset_query_table_def)
next
  case (6 s k v)
  obtain s' where s': "dataset_remove_table k s = Inr (True, Some v, s')" "db_inv s'"
    using remove_table_inv[OF 6] by blast
  with dataset_remove_table_found[OF 6(1,3)] have "db_map s' = key_erase k (db_map s)" by auto
  with s' key_find_erase(2)[OF 6(2) _ db_inv_keys[OF 6(1)]] length_key_erase[OF db_inv_keys[OF 6(1)] 6(2)] 6(3)
  show ?case by (auto simp: dataset_query_table_def dataset_size_def)
next
  case (7 s k s')
  have new: "dataset_query_table k s = None"
    using 7(3) by (cases "dataset_query_table k s") (auto simp: dataset_add_table_def dataset_query_table_def)
  have "key_find k (db_map s @ [(k, length (db_tables s))]) = Some (length (db_tables s))"
    using key_find_append(2)[OF 7(2,2) db_inv_keys[OF 7(1)]] new 7(2) by (simp add: dataset_query_table_def key_eq_norm)
  with dataset_add_table_new[OF 7(1) new] 7(3) show ?case
    by (auto simp: dataset_query_table_def dataset_events_map)
next
  case (8 s k v s')
  have "dataset_query_table k s = Some v"
    using 8(3) by (cases "key_find k (db_map s)") (auto simp: dataset_remove_table_def dataset_query_table_def res_simps)
  with dataset_remove_table_found[OF 8(1)] 8(3) show ?case
    by (auto simp: dataset_events_map)
qed

section \<open>The remaining operations keep the invariant\<close>

lemma db_inv_upd_row:
  assumes "db_inv s" and "rid < length (db_rows s)"
    and "row_inv (the_row s rid) \<Longrightarrow> row_inv r" and "r_key r = r_key (the_row s rid)" and "r_parent r = r_parent (the_row s rid)"
  shows "db_inv (s\<lparr>db_rows := (db_rows s)[rid := r]\<rparr>)"
proof -
  let ?s' = "s\<lparr>db_rows := (db_rows s)[rid := r]\<rparr>"
  have "row_inv r" using assms(1-3) by (auto simp: db_inv_def the_row_def)
  then have "\<forall>r \<in> set (db_rows ?s'). row_inv r"
    using assms(1) by (auto simp: db_inv_def dest!: set_update_subset_insert[THEN subsetD])
  moreover have "table_ok ?s' t" if "t < length (db_tables s)" for t
  proof (rule table_ok_mono)
    show "table_ok s t" using that assms(1) by (simp add: db_inv_def)
  qed (use assms in \<open>auto simp: the_table_def the_row_def nth_list_update\<close>)
  moreover have "dataset_ok ?s'" using assms(1) by (simp add: db_inv_def dataset_ok_def the_table_def)
  ultimately show ?thesis by (simp add: db_inv_def)
qed

lemma db_inv_upd_table:
  assumes "db_inv s" and "tid < length (db_tables s)"
    and "t_key t = t_key (the_table s tid)" and "t_has_parent t = t_has_parent (the_table s tid)"
    and "t_rows t = t_rows (the_table s tid)" and "distinct (t_callbacks t)" and "distinct (t_data_callbacks t)"
    and "\<And>rid. Row_watch rid \<in> set (t_callbacks t) \<longleftrightarrow> Row_watch rid \<in> set (t_callbacks (the_table s tid))"
  shows "db_inv (s\<lparr>db_tables := (db_tables s)[tid := t]\<rparr>)"
proof -
  let ?s' = "s\<lparr>db_tables := (db_tables s)[tid := t]\<rparr>"
  have "table_ok ?s' tid'" if "tid' < length (db_tables s)" for tid'
  proof -
    have "table_ok s tid'" using that assms(1) by (simp add: db_inv_def)
    with that assms(2-8) show ?thesis
      by (cases "tid' = tid") (simp_all add: table_ok_def the_table_def the_row_def Let_def)
  qed
  moreover have "dataset_ok ?s'"
    using assms(1-4) by (auto simp: db_inv_def dataset_ok_def the_table_def nth_list_update)
  ultimately show ?thesis using assms(1) by (simp add: db_inv_def)
qed

lemma db_inv_dataset_callbacks:
  assumes "db_inv s" and "distinct cs"
    and "\<And>t. Table_watch t \<in> set cs \<longleftrightarrow> Table_watch t \<in> set (db_callbacks s)"
  shows "db_inv (s\<lparr>db_callbacks := cs\<rparr>)"
proof -
  have "table_ok (s\<lparr>db_callbacks := cs\<rparr>) t = table_ok s t" for t
    by (simp add: table_ok_def the_table_def the_row_def)
  with assms show ?thesis by (simp add: db_inv_def dataset_ok_def the_table_def)
qed

lemma fold_upd_rows_inv:
  assumes "\<And>r. row_inv r \<Longrightarrow> row_inv (f r)" and "\<And>r. r_key (f r) = r_key r" and "\<And>r. r_parent (f r) = r_parent r"
  shows "db_inv s \<Longrightarrow> \<forall>p \<in> set ps. snd p < length (db_rows s) \<Longrightarrow>
    db_inv (fold (\<lambda>p. upd_row (snd p) f) ps s) \<and> db_tables (fold (\<lambda>p. upd_row (snd p) f) ps s) = db_tables s"
proof (induction ps arbitrary: s)
  case (Cons p ps)
  then have "db_inv (upd_row (snd p) f s)"
    unfolding upd_row_def by (intro db_inv_upd_row) (auto simp: assms)
  with Cons.IH[of "upd_row (snd p) f s"] Cons.prems show ?case by (simp add: upd_row_def)
qed simp

lemma row_callback_frame:
  "row_inv r \<Longrightarrow> row_inv (snd (row_subscribe_callback c r))" "row_inv r \<Longrightarrow> row_inv (snd (row_unsubscribe_callback c r))"
  "r_key (snd (row_subscribe_callback c r)) = r_key r" "r_key (snd (row_unsubscribe_callback c r)) = r_key r"
  "r_parent (snd (row_subscribe_callback c r)) = r_parent r"
  "r_parent (snd (row_unsubscribe_callback c r)) = r_parent r"
  using row_registry.add_distinct[of r c] row_registry.remove_distinct[of r c]
  by (auto simp: row_subscribe_callback_def row_unsubscribe_callback_def row_inv_updates row_inv_distinct
      split: prod.splits)

lemma table_row_ids: "on_table tid s \<Longrightarrow> \<forall>p \<in> set (t_rows (the_table s tid)). snd p < length (db_rows s)"
  by (auto simp: on_table_def db_inv_def table_ok_def Let_def)

lemma subscribe_data_inv:
  assumes "on_table tid s"
  shows "db_inv (snd (table_subscribe_data_callback tid c s)) \<and> db_inv (snd (table_unsubscribe_data_callback tid c s))"
proof -
  have inv: "db_inv s" and lt: "tid < length (db_tables s)" using assms by (auto simp: on_table_def)
  let ?ps = "t_rows (the_table s tid)"
  let ?s1 = "fold (\<lambda>p. upd_row (snd p) (\<lambda>r. snd (row_subscribe_callback c r))) ?ps s"
  have sub: "db_inv ?s1 \<and> db_tables ?s1 = db_tables s"
    using row_callback_frame by (intro fold_upd_rows_inv inv table_row_ids[OF assms]) auto
  have unsub: "db_inv (fold (\<lambda>p. upd_row (snd p) (\<lambda>r. snd (row_unsubscribe_callback c r))) ?ps s)"
    using row_callback_frame by (intro fold_upd_rows_inv[THEN conjunct1] inv table_row_ids[OF assms]) auto
  have "table_ok s tid" using inv lt by (simp add: db_inv_def)
  then have d: "distinct (t_callbacks (the_table s tid))" "distinct (t_data_callbacks (the_table s tid))"
    by (simp_all add: table_ok_def Let_def)
  have "db_inv (upd_table tid (\<lambda>t. t\<lparr>t_data_callbacks := t_data_callbacks t @ [c]\<rparr>) ?s1)"
    if "c \<notin> set (t_data_callbacks (the_table s tid))"
    unfolding upd_table_def using sub lt d that
    by (intro db_inv_upd_table) (auto simp: the_table_def)
  with inv unsub show ?thesis
    by (simp add: table_subscribe_data_callback_def table_unsubscribe_data_callback_def Let_def)
qed

lemma table_client_inv:
  assumes "on_table tid s"
  shows "db_inv (snd (table_subscribe_callback tid (Table_client c) s)) \<and>
         db_inv (snd (table_unsubscribe_callback tid (Table_client c) s))"
proof -
  have inv: "db_inv s" and lt: "tid < length (db_tables s)" using assms by (auto simp: on_table_def)
  then have "table_ok s tid" by (simp add: db_inv_def)
  then have d: "distinct (t_callbacks (the_table s tid))" "distinct (t_data_callbacks (the_table s tid))"
    by (simp_all add: table_ok_def Let_def)
  have "Row_watch rid \<in> set (remove1 (Table_client c) cs) \<longleftrightarrow> Row_watch rid \<in> set cs" for rid cs
    by (simp add: in_set_remove1)
  with inv lt d show ?thesis
    by (auto simp: table_subscribe_callback_def table_unsubscribe_callback_def add_callback_def remove_callback_def
        upd_table_def intro!: db_inv_upd_table)
qed

lemma dataset_client_inv:
  assumes "db_inv s"
  shows "db_inv (snd (dataset_subscribe_callback (Dataset_client c) s)) \<and>
         db_inv (snd (dataset_unsubscribe_callback (Dataset_client c) s))"
proof -
  have "distinct (db_callbacks s)" using assms by (simp add: db_inv_def dataset_ok_def)
  with assms show ?thesis
    by (auto simp: dataset_subscribe_callback_def dataset_unsubscribe_callback_def add_callback_def
        remove_callback_def in_set_remove1 intro!: db_inv_dataset_callbacks)
qed

end
