(* ===== verification/Database_Properties.thy ===== *)
theory Database_Properties
  imports Database
begin

text \<open>
  The states a dataset can reach through the operations of its clients, and what holds in all of
  them. \<open>db_step\<close> is one call: on the dataset, on one of its tables, on a row. A row write takes any
  data that is as long as its size says.
\<close>

section \<open>Reachable states\<close>

inductive db_step :: "'m db \<Rightarrow> 'm db \<Rightarrow> bool" where
  add_table: "key_ok k \<Longrightarrow> dataset_add_table k name description s = Inr (ok, s') \<Longrightarrow> db_step s s'"
| remove_table: "key_ok k \<Longrightarrow> dataset_remove_table k s = Inr (ok, out, s') \<Longrightarrow> db_step s s'"
| dataset_subscribe: "db_step s (snd (dataset_subscribe_callback (Dataset_client c) s))"
| dataset_unsubscribe: "db_step s (snd (dataset_unsubscribe_callback (Dataset_client c) s))"
| add_row: "tid < length (db_tables s) \<Longrightarrow> key_ok k \<Longrightarrow>
    table_add_row junk tid k sz info parser s = Inr (ok, s') \<Longrightarrow> db_step s s'"
| remove_row: "tid < length (db_tables s) \<Longrightarrow> key_ok k \<Longrightarrow>
    table_remove_row tid k s = Inr (ok, out, s') \<Longrightarrow> db_step s s'"
| table_subscribe: "tid < length (db_tables s) \<Longrightarrow>
    db_step s (snd (table_subscribe_callback tid (Table_client c) s))"
| table_unsubscribe: "tid < length (db_tables s) \<Longrightarrow>
    db_step s (snd (table_unsubscribe_callback tid (Table_client c) s))"
| subscribe_data: "tid < length (db_tables s) \<Longrightarrow> db_step s (snd (table_subscribe_data_callback tid d s))"
| unsubscribe_data: "tid < length (db_tables s) \<Longrightarrow> db_step s (snd (table_unsubscribe_data_callback tid d s))"
| write_row: "rid < length (db_rows s) \<Longrightarrow> data_ok buffer sz \<Longrightarrow>
    row_write_bytes junk (the_row s rid) buffer sz force priority = Inr (ok, r, ns) \<Longrightarrow>
    db_step s (s\<lparr>db_rows := (db_rows s)[rid := r]\<rparr>)"
| set_priority: "rid < length (db_rows s) \<Longrightarrow>
    db_step s (upd_row rid (\<lambda>r. snd (row_set_write_priority priority r)) s)"

inductive db_reach :: "'m db \<Rightarrow> bool" where
  start: "db_reach (memory_dataset_create k)"
| step: "db_reach s \<Longrightarrow> db_step s s' \<Longrightarrow> db_reach s'"

inductive_cases db_stepE: "db_step s s'"

lemma add_row_refused:
  "\<not> row_args_ok sz info k \<Longrightarrow> key_ok k \<Longrightarrow> table_add_row junk tid k sz info parser s = Inr (False, s)"
  by (auto simp: table_add_row_def row_args_ok_def)

lemma add_row_step_inv:
  assumes "db_inv s" and "tid < length (db_tables s)" and "key_ok k"
    and "table_add_row junk tid k sz info parser s = Inr (ok, s')"
  shows "db_inv s'"
proof (cases "row_args_ok sz info k \<and> table_query_row tid k s = None")
  case True
  then show ?thesis
    using add_row_inv[OF assms(1,2) _ assms(3), of sz info junk parser] assms(4) by (auto simp: row_args_ok_def)
next
  case False
  then have "table_add_row junk tid k sz info parser s = Inr (False, s)"
    using add_row_refused[of sz info k junk tid parser s] table_store.add_present[of tid k s junk sz info parser] assms(3)
    by (cases "row_args_ok sz info k") simp_all
  then have "s' = s" using assms(4) by simp
  with assms(1) show ?thesis by simp
qed

lemma db_step_inv: "db_step s s' \<Longrightarrow> db_inv s \<Longrightarrow> db_inv s'"
proof (induction rule: db_step.induct)
  case (add_table k name description s ok s')
  then show ?case
    using dataset_store.add_total[of s k name description] by auto
next
  case (remove_table k s ok out s')
  then show ?case
    using dataset_store.remove_absent[of k s] dataset_store.remove_present[of s k]
    by (cases "dataset_query_table k s") auto
next
  case (add_row tid s k junk sz info parser ok s')
  then show ?case using add_row_step_inv by blast
next
  case (remove_row tid s k ok out s')
  then show ?case
    using table_store.remove_absent[of tid k s] remove_row_inv[of s tid k]
    by (cases "table_query_row tid k s") auto
next
  case (write_row rid s buffer sz junk force priority ok r ns)
  moreover have "row_inv (the_row s rid)" using write_row by (auto simp: db_inv_def the_row_def)
  ultimately have "row_inv r \<and> row_frame (the_row s rid) r"
    using row_write_total[of "the_row s rid" buffer sz junk force priority] by auto
  with write_row show ?case by (intro db_inv_upd_row) (auto simp: row_frame_def)
next
  case (set_priority rid s priority)
  then show ?case
    unfolding upd_row_def by (intro db_inv_upd_row) (auto simp: row_set_write_priority_def row_inv_updates)
qed (use table_client_inv dataset_client_inv subscribe_data_inv on_table_def in \<open>blast+\<close>)

lemma db_reach_inv: "db_reach s \<Longrightarrow> db_inv s"
  by (induction rule: db_reach.induct) (auto intro: db_inv_create db_step_inv)

section \<open>Sample states\<close>

definition sample_key2 :: key where
  "sample_key2 = \<lparr>key_length = 1, key_data = 8 # replicate 15 0\<rparr>"

lemma sample_keys: "key_ok sample_key" "key_ok sample_key2" "\<not> key_eq sample_key sample_key2"
  by (simp_all add: sample_key_def sample_key2_def key_ok_def MAX_KEY_SIZE_def key_eq_def Let_def)

definition sample_db :: "nat db" where
  "sample_db =
     \<lparr>db_key = sample_key, db_map = [(sample_key, 0)], db_callbacks = [Table_watch 0, Dataset_client 3],
      db_tables = [(table_base sample_key True (Some ''t'') None)\<lparr>t_callbacks := [Table_client 5],
                     t_data_callbacks := [9]\<rparr>],
      db_rows = [], db_events = []\<rparr>"

lemma sample_db_inv: "on_table 0 sample_db" "db_inv sample_db"
  by (simp_all add: on_table_def db_inv_def dataset_ok_def table_ok_def Let_def sample_db_def keys_ok_def
      table_base_def the_table_def sample_keys)

lemma sample_db_simps:
  "table_query_row 0 k sample_db = None" "t_callbacks (the_table sample_db 0) = [Table_client 5]"
  "t_data_callbacks (the_table sample_db 0) = [9]" "db_rows sample_db = []" "db_events sample_db = []"
  "length (db_tables sample_db) = 1" "dataset_query_table sample_key2 sample_db = None"
  "db_callbacks sample_db = [Table_watch 0, Dataset_client 3]" "table_size 0 sample_db = 0"
  using sample_keys
  by (simp_all add: table_query_row_def key_find_def the_table_def sample_db_def table_base_def
      dataset_query_table_def table_size_def)

section \<open>Properties\<close>

text \<open>C1. Whatever clients do with a dataset, its tables and their rows, every reachable state is
  consistent: no two entries of a table or of the dataset have the same key, every entry names an
  object with that key whose parent is the store and which watches for its removal, callbacks are
  registered once, and every row keeps its own invariant.\<close>

theorem reachable_consistent:
  assumes "db_reach s"
  shows "db_inv s"
  using assms by (rule db_reach_inv)

theorem reachable_consistent_witness:
  "\<exists>s'. dataset_add_table sample_key None None (memory_dataset_create sample_key :: nat db) = Inr (True, s') \<and> db_inv s'"
proof -
  let ?s = "memory_dataset_create sample_key :: nat db"
  have "dataset_query_table sample_key ?s = None"
    by (simp add: dataset_query_table_def key_find_def memory_dataset_create_def)
  then obtain s' where s': "dataset_add_table sample_key None None ?s = Inr (True, s')"
    using add_table_inv[OF db_inv_create sample_keys(1)] by blast
  then have "db_reach s'"
    using db_reach.start db_reach.step db_step.add_table sample_keys(1) by metis
  from reachable_consistent[OF this] s' show ?thesis by blast
qed

text \<open>Adding rows under any list of keys to a table succeeds without undefined behaviour and
  afterwards a key is found exactly when it was there before or equals one of the list.\<close>

theorem table_holds_added_rows:
  assumes "on_table tid s" and "\<forall>k \<in> set ks. row_args_ok sz info k"
  shows "\<exists>s'. foldl (\<lambda>acc k. res_bind acc (\<lambda>s1. res_map snd (table_add_row junk tid k sz info parser s1))) (Inr s) ks = Inr s' \<and>
           on_table tid s' \<and>
           (\<forall>k'. key_ok k' \<longrightarrow>
              (table_query_row tid k' s' \<noteq> None) = (table_query_row tid k' s \<noteq> None \<or> (\<exists>k \<in> set ks. key_eq k k')))"
  using table_store.adds_lookup[OF assms, of junk parser] unfolding table_store.adds_def .

theorem table_holds_added_rows_witness:
  "\<exists>s'. foldl (\<lambda>acc k. res_bind acc (\<lambda>s1. res_map snd (table_add_row (\<lambda>_. 0) 0 k 4 sample_info None s1)))
          (Inr sample_db) [sample_key, sample_key2] = Inr s' \<and> table_query_row 0 sample_key2 s' \<noteq> None"
proof -
  have "\<forall>k \<in> set [sample_key, sample_key2]. row_args_ok 4 sample_info k"
    by (simp add: row_args_ok_def sample_keys)
  from table_holds_added_rows[OF sample_db_inv(1) this, of "\<lambda>_. 0" None] sample_keys show ?thesis
    by (metis key_eq_norm list.set_intros(1) list.set_intros(2))
qed

text \<open>Adding a row under a new key and removing it again gives that row back, leaves every other
  entry and the size as they were, and tells every client of the table about the addition and then
  about the removal, once each and in the order of registration.\<close>

theorem table_add_remove_row:
  assumes "on_table tid s" and "row_args_ok sz info k" and "table_query_row tid k s = None"
  shows "\<exists>s1 rid s2. table_add_row junk tid k sz info parser s = Inr (True, s1) \<and>
           table_query_row tid k s1 = Some rid \<and> table_remove_row tid k s1 = Inr (True, Some rid, s2) \<and>
           on_table tid s2 \<and> (\<forall>k'. key_ok k' \<longrightarrow> table_query_row tid k' s2 = table_query_row tid k' s) \<and>
           table_size tid s2 = table_size tid s \<and>
           db_events s2 = db_events s @ map (\<lambda>c. Row_added c tid rid) (table_clients (t_callbacks (the_table s tid))) @
             map (\<lambda>c. Row_removed c tid rid) (table_clients (t_callbacks (the_table s tid)))"
  by (rule table_store.add_remove_tells[OF assms])

theorem table_add_remove_row_witness:
  "\<exists>s1 rid s2. table_add_row (\<lambda>_. 0) 0 sample_key 4 sample_info None sample_db = Inr (True, s1) \<and>
     table_remove_row 0 sample_key s1 = Inr (True, Some rid, s2) \<and>
     db_events s2 = [Row_added 5 0 rid, Row_removed 5 0 rid]"
  using table_add_remove_row[OF sample_db_inv(1), of 4 sample_info sample_key "\<lambda>_. 0" None]
  by (auto simp: row_args_ok_def sample_keys sample_db_simps)

text \<open>The same round trip for the tables of a dataset.\<close>

theorem dataset_add_remove_table:
  assumes "db_inv s" and "key_ok k" and "dataset_query_table k s = None"
  shows "\<exists>s1 tid s2. dataset_add_table k name description s = Inr (True, s1) \<and>
           dataset_query_table k s1 = Some tid \<and> dataset_remove_table k s1 = Inr (True, Some tid, s2) \<and>
           db_inv s2 \<and> (\<forall>k'. key_ok k' \<longrightarrow> dataset_query_table k' s2 = dataset_query_table k' s) \<and>
           dataset_size s2 = dataset_size s \<and>
           db_events s2 = db_events s @ map (\<lambda>c. Table_added c tid) (dataset_clients (db_callbacks s)) @
             map (\<lambda>c. Table_removed c tid) (dataset_clients (db_callbacks s))"
  by (rule dataset_store.add_remove_tells[OF assms])

theorem dataset_add_remove_table_witness:
  "\<exists>s1 tid s2. dataset_add_table sample_key2 (Some ''u'') None sample_db = Inr (True, s1) \<and>
     dataset_remove_table sample_key2 s1 = Inr (True, Some tid, s2) \<and>
     db_events s2 = [Table_added 3 tid, Table_removed 3 tid]"
  using dataset_add_remove_table[OF sample_db_inv(2) sample_keys(2), of "Some ''u''" None]
  by (auto simp: sample_db_simps)

lemma key_find_index:
  assumes "keys_ok m" and "distinct (map snd m)"
  shows "(\<exists>k. key_ok k \<and> key_find k m = Some v) \<longleftrightarrow> (\<exists>!i. i < length m \<and> snd (m ! i) = v)"
proof -
  have "(\<exists>k. key_ok k \<and> key_find k m = Some v) \<longleftrightarrow> v \<in> snd ` set m"
  proof
    assume "v \<in> snd ` set m"
    then obtain k where k: "(k, v) \<in> set m" by auto
    then have "key_ok k" using assms(1) by (force simp: keys_ok_def)
    moreover have "map_of (map (\<lambda>p. (key_norm (fst p), snd p)) m) (key_norm k) = Some v"
    proof (rule map_of_is_SomeI)
      show "distinct (map fst (map (\<lambda>p. (key_norm (fst p), snd p)) m))"
        using assms(1) by (simp add: keys_ok_def comp_def)
      show "(key_norm k, v) \<in> set (map (\<lambda>p. (key_norm (fst p), snd p)) m)" using k by force
    qed
    ultimately show "\<exists>k. key_ok k \<and> key_find k m = Some v"
      using assms(1) key_find_map_of by metis
  qed (auto dest!: key_find_SomeD intro: rev_image_eqI)
  also have "\<dots> \<longleftrightarrow> (\<exists>!i. i < length m \<and> snd (m ! i) = v)"
  proof
    assume "v \<in> snd ` set m"
    then have "\<exists>!i. i < length (map snd m) \<and> map snd m ! i = v"
      using distinct_Ex1[OF assms(2), of v] by simp
    then show "\<exists>!i. i < length m \<and> snd (m ! i) = v" by (simp cong: conj_cong)
  next
    assume "\<exists>!i. i < length m \<and> snd (m ! i) = v"
    then obtain i where "i < length m" "snd (m ! i) = v" by blast
    then show "v \<in> snd ` set m" by (auto intro: rev_image_eqI[of "m ! i"])
  qed
  finally show ?thesis .
qed

text \<open>Going through the indices of a table meets every row that a key finds, and meets it once.\<close>

theorem table_index_enumerates:
  assumes "on_table tid s"
  shows "(\<exists>k. key_ok k \<and> table_query_row tid k s = Some rid) \<longleftrightarrow>
         (\<exists>!i. table_query_row_by_index tid i s = Some rid)"
proof -
  have "table_ok s tid" using assms by (simp add: on_table_def db_inv_def)
  then have m: "keys_ok (t_rows (the_table s tid))" "distinct (map snd (t_rows (the_table s tid)))"
    by (simp_all add: table_ok_def Let_def)
  show ?thesis
    using key_find_index[OF m, of rid]
    by (simp add: table_query_row_def table_query_row_by_index_def Let_def not_le cong: conj_cong)
qed

theorem table_index_enumerates_witness:
  "(\<exists>k. key_ok k \<and> table_query_row 0 k sample_db = Some 0) \<longleftrightarrow>
   (\<exists>!i. table_query_row_by_index 0 i sample_db = Some 0)"
  by (rule table_index_enumerates[OF sample_db_inv(1)])

lemma fold_upd_rows_at:
  "snd p \<in> snd ` set ps \<Longrightarrow> distinct (map snd ps) \<Longrightarrow> \<forall>p \<in> set ps. snd p < length (db_rows s) \<Longrightarrow>
   the_row (fold (\<lambda>p. upd_row (snd p) f) ps s) (snd p) = f (the_row s (snd p))"
proof (induction ps arbitrary: s)
  case (Cons q ps)
  have other: "the_row (fold (\<lambda>p. upd_row (snd p) f) ps s) rid = the_row s rid" if "rid \<notin> snd ` set ps" for rid s
    using that by (induction ps arbitrary: s) (auto simp: upd_row_def the_row_def)
  show ?case
  proof (cases "snd p = snd q")
    case True
    with Cons.prems have "snd p \<notin> snd ` set ps" by auto
    with True Cons.prems show ?thesis by (simp add: other) (simp add: upd_row_def the_row_def)
  next
    case False
    then have "the_row (upd_row (snd q) f s) (snd p) = the_row s (snd p)" by (simp add: upd_row_def the_row_def)
    with False Cons show ?thesis by (auto simp: upd_row_def)
  qed
qed simp

lemma fold_upd_row_tables: "db_tables (fold (\<lambda>p. upd_row (snd p) f) ps s) = db_tables s"
  by (induction ps arbitrary: s) (simp_all add: upd_row_def)

lemma added_row_callbacks:
  assumes "db_inv s" and "tid < length (db_tables s)" and "row_args_ok sz info k" and "table_query_row tid k s = None"
  shows "\<exists>s' rid. table_add_row junk tid k sz info parser s = Inr (True, s') \<and> table_query_row tid k s' = Some rid \<and>
           r_callbacks (the_row s' rid) = t_data_callbacks (the_table s tid)"
proof -
  have pre: "sz = 0 \<longrightarrow> ri_type info = EMPTY_TYPE" "key_ok k" using assms(3) by (auto simp: row_args_ok_def)
  have keys: "keys_ok (t_rows (the_table s tid))"
    using on_table_keys[of tid s] assms(1,2) by (simp add: on_table_def)
  have "key_find k (t_rows (the_table s tid) @ [(k, length (db_rows s))]) = Some (length (db_rows s))"
    using key_find_append(2)[OF pre(2,2) keys] assms(4) pre(2) by (simp add: table_query_row_def key_eq_norm)
  with table_add_row_new[OF assms(1,2) pre(1) assms(4), of junk parser] assms(2) show ?thesis
    by (auto simp: table_query_row_def the_table_def the_row_def)
qed

text \<open>After a data callback is subscribed at a table for the first time it is registered at every
  row the table has, and a row added later has it from the start.\<close>

theorem data_callback_reaches_rows:
  assumes "on_table tid s" and "c \<notin> set (t_data_callbacks (the_table s tid))"
    and "table_subscribe_data_callback tid c s = (ok, s1)"
  shows "(\<forall>(k, rid) \<in> set (t_rows (the_table s1 tid)). c \<in> set (r_callbacks (the_row s1 rid))) \<and>
         (\<forall>k. row_args_ok sz info k \<longrightarrow> table_query_row tid k s1 = None \<longrightarrow>
            (\<exists>s2 rid. table_add_row junk tid k sz info parser s1 = Inr (True, s2) \<and>
               table_query_row tid k s2 = Some rid \<and> c \<in> set (r_callbacks (the_row s2 rid))))"
proof -
  have lt: "tid < length (db_tables s)" and tok: "table_ok s tid" using assms(1) by (auto simp: on_table_def db_inv_def)
  have inv1: "db_inv s1" using subscribe_data_inv[OF assms(1), of c] assms(3) by simp
  have s1: "s1 = upd_table tid (\<lambda>t. t\<lparr>t_data_callbacks := t_data_callbacks t @ [c]\<rparr>)
      (fold (\<lambda>p. upd_row (snd p) (\<lambda>r. snd (row_subscribe_callback c r))) (t_rows (the_table s tid)) s)"
    using assms(2,3) by (simp add: table_subscribe_data_callback_def Let_def)
  then have t1: "the_table s1 tid = (the_table s tid)\<lparr>t_data_callbacks := t_data_callbacks (the_table s tid) @ [c]\<rparr>"
    and lt1: "tid < length (db_tables s1)"
    using lt by (simp_all add: upd_table_def the_table_def fold_upd_row_tables)
  have "c \<in> set (r_callbacks (the_row s1 rid))" if "(k, rid) \<in> set (t_rows (the_table s1 tid))" for k rid
  proof -
    have mem: "(k, rid) \<in> set (t_rows (the_table s tid))" using that t1 by simp
    have "the_row s1 rid = the_row (fold (\<lambda>p. upd_row (snd p) (\<lambda>r. snd (row_subscribe_callback c r)))
        (t_rows (the_table s tid)) s) (snd (k, rid))"
      by (simp add: s1 upd_table_def the_row_def)
    also have "\<dots> = snd (row_subscribe_callback c (the_row s rid))"
      using fold_upd_rows_at[of "(k, rid)" "t_rows (the_table s tid)" s "\<lambda>r. snd (row_subscribe_callback c r)"]
        mem tok table_row_ids[OF assms(1)] by (force simp: table_ok_def Let_def)
    finally show ?thesis by (simp add: row_registry.added_is_member)
  qed
  moreover have "\<exists>s2 rid. table_add_row junk tid k sz info parser s1 = Inr (True, s2) \<and>
      table_query_row tid k s2 = Some rid \<and> c \<in> set (r_callbacks (the_row s2 rid))"
    if "row_args_ok sz info k" "table_query_row tid k s1 = None" for k
    using added_row_callbacks[OF inv1 lt1 that, of junk parser] t1 by auto
  ultimately show ?thesis by blast
qed

theorem data_callback_reaches_rows_witness:
  "\<exists>s1. table_subscribe_data_callback 0 4 sample_db = (True, s1) \<and>
     (\<exists>s2 rid. table_add_row (\<lambda>_. 0) 0 sample_key 4 sample_info None s1 = Inr (True, s2) \<and>
        table_query_row 0 sample_key s2 = Some rid \<and> 4 \<in> set (r_callbacks (the_row s2 rid)))"
proof -
  obtain s1 where s1: "table_subscribe_data_callback 0 4 sample_db = (True, s1)"
    by (simp add: table_subscribe_data_callback_def sample_db_simps Let_def)
  have "table_query_row 0 sample_key s1 = None"
    using s1 by (auto simp: table_subscribe_data_callback_def sample_db_simps Let_def sample_db_def the_table_def
        table_base_def table_query_row_def upd_table_def key_find_def)
  moreover have "row_args_ok 4 sample_info sample_key" by (simp add: row_args_ok_def sample_keys)
  ultimately show ?thesis
    using data_callback_reaches_rows[OF sample_db_inv(1) _ s1, of 4 sample_info "\<lambda>_. 0" None] s1
    by (auto simp: sample_db_simps)
qed

text \<open>\<^verbatim>\<open>unsubscribe_data_callback\<close> removes the callback from the rows but not from the table's own
  list: it returns true, and yet every row added afterwards is subscribed to it again, and
  subscribing it once more is ignored, so the rows that were there stay without it.\<close>

theorem unsubscribed_data_callback_stays:
  assumes "on_table tid s" and "c \<in> set (t_data_callbacks (the_table s tid))" and "row_args_ok sz info k"
    and "table_query_row tid k s = None"
  shows "\<exists>s1 s2 rid. table_unsubscribe_data_callback tid c s = (True, s1) \<and>
           table_subscribe_data_callback tid c s1 = (True, s1) \<and>
           table_add_row junk tid k sz info parser s1 = Inr (True, s2) \<and>
           table_query_row tid k s2 = Some rid \<and> c \<in> set (r_callbacks (the_row s2 rid))"
proof -
  obtain s1 where s1: "table_unsubscribe_data_callback tid c s = (True, s1)"
    using assms(2) by (simp add: table_unsubscribe_data_callback_def)
  have tables: "db_tables s1 = db_tables s"
    using s1 assms(2) by (auto simp: table_unsubscribe_data_callback_def fold_upd_row_tables)
  then have t1: "the_table s1 tid = the_table s tid" by (simp add: the_table_def)
  have inv1: "db_inv s1" using subscribe_data_inv[OF assms(1), of c] s1 by simp
  have lt1: "tid < length (db_tables s1)" using assms(1) tables by (simp add: on_table_def)
  have "table_query_row tid k s1 = None" using assms(4) t1 by (simp add: table_query_row_def)
  from added_row_callbacks[OF inv1 lt1 assms(3) this, of junk parser] s1 t1 assms(2) show ?thesis
    by (auto simp: table_subscribe_data_callback_def)
qed

theorem unsubscribed_data_callback_stays_witness:
  "\<exists>s1 s2 rid. table_unsubscribe_data_callback 0 9 sample_db = (True, s1) \<and>
     table_add_row (\<lambda>_. 0) 0 sample_key 4 sample_info None s1 = Inr (True, s2) \<and>
     table_query_row 0 sample_key s2 = Some rid \<and> 9 \<in> set (r_callbacks (the_row s2 rid))"
  using unsubscribed_data_callback_stays[OF sample_db_inv(1), of 9 4 sample_info sample_key "\<lambda>_. 0" None]
  by (auto simp: row_args_ok_def sample_keys sample_db_simps)

text \<open>\<^verbatim>\<open>query_table_by_name\<close> compares with the name of every table it passes, and an unnamed table
  has a null name: once a table is added without a name, looking for a name that no earlier table
  has is undefined behaviour, where it returned false before.\<close>

theorem unnamed_table_breaks_lookup:
  assumes "db_inv s" and "key_ok k" and "dataset_query_table k s = None"
    and "\<forall>(k', tid) \<in> set (db_map s). t_name (the_table s tid) \<noteq> [] \<and> t_name (the_table s tid) \<noteq> name"
  shows "dataset_query_table_by_name name s = Inr None \<and>
         (\<exists>s'. dataset_add_table_plain k s = Inr (True, s') \<and> dataset_query_table_by_name name s' = Inl Undefined)"
proof -
  have scan: "find_table_by_name name s' (m @ rest) = find_table_by_name name s' rest"
    if "\<forall>(k', tid) \<in> set m. t_name (the_table s' tid) \<noteq> [] \<and> t_name (the_table s' tid) \<noteq> name"
    for s' :: "'m db" and m rest
    using that by (induction m) (auto simp: table_name_def)
  from dataset_add_table_new[OF assms(1,3), of None None]
  obtain s' where add: "dataset_add_table_plain k s = Inr (True, s')"
    and map: "db_map s' = db_map s @ [(k, length (db_tables s))]"
    and tables: "db_tables s' = db_tables s @ [table_base k True None None]"
    by (auto simp: dataset_add_table_plain_def)
  have "\<forall>(k', tid) \<in> set (db_map s). t_name (the_table s' tid) \<noteq> [] \<and> t_name (the_table s' tid) \<noteq> name"
    using assms(1,4) tables by (fastforce simp: db_inv_def dataset_ok_def the_table_def nth_append)
  then have "dataset_query_table_by_name name s' = find_table_by_name name s' [(k, length (db_tables s))]"
    unfolding dataset_query_table_by_name_def map by (rule scan)
  also have "\<dots> = Inl Undefined"
    by (simp add: tables the_table_def table_base_def table_name_def)
  finally show ?thesis
    using scan[OF assms(4), of "[]"] add by (auto simp: dataset_query_table_by_name_def)
qed

theorem unnamed_table_breaks_lookup_witness:
  "\<exists>s'. dataset_add_table_plain sample_key2 sample_db = Inr (True, s') \<and>
        dataset_query_table_by_name ''x'' s' = Inl Undefined"
proof -
  have "\<forall>(k', tid) \<in> set (db_map sample_db). t_name (the_table sample_db tid) \<noteq> [] \<and> t_name (the_table sample_db tid) \<noteq> ''x''"
    by (simp add: sample_db_def the_table_def table_base_def)
  from unnamed_table_breaks_lookup[OF sample_db_inv(2) sample_keys(2) sample_db_simps(7) this] show ?thesis by blast
qed

end
