(* ===== verification/Subscriptions.thy ===== *)
theory Subscriptions
  imports Database_Properties
begin

text \<open>
  Subscriptions to rows (\<^verbatim>\<open>Include/utils/database.hpp\<close>): \<^verbatim>\<open>subscriptions\<close> with \<^verbatim>\<open>subscription_params\<close>,
  \<^verbatim>\<open>auto_token\<close> and \<^verbatim>\<open>subscriptions_collector\<close>.

  A client subscribes a function to a row. The subscriptions object registers one callback object at the row for all of
  its clients; the callback object has a signal with one entry for each client. The model keeps all of these: the rows
  with their handlers (data and disposal), the signals of the callback objects, and the map from rows to callback
  objects. A function is a name of type \<open>'f\<close>; a call is recorded with the arguments of the notification. A row is named
  by its index; \<open>ss_alive\<close> says whether it has been destroyed, after which \<^verbatim>\<open>disposable_ptr\<close> does not lock it.

  The locale \<open>subscription_service\<close> is what tokens and collectors rely on: a map from rows and tokens to functions.
  An exception that leaves a \<^verbatim>\<open>scope_guard\<close> would end the program; it is \<open>Throws\<close> here and shown not to occur.
\<close>

section \<open>State\<close>

record row_callbacks =
  rc_disposable :: nat
  rc_row_callback :: row_callback

record ('m, 'f) subs =
  ss_rows :: "'m row list"
  ss_disposables :: "nat \<Rightarrow> nat list"
  ss_alive :: "nat \<Rightarrow> bool"
  ss_signals :: "nat \<Rightarrow> 'f signal"
  ss_callbacks :: "(nat \<times> row_callbacks) list"
  ss_next :: nat

record subscription_params =
  sp_row :: "nat option"
  sp_token :: signal_token

definition no_params :: subscription_params where
  "no_params = \<lparr>sp_row = None, sp_token = signal_token_undefined\<rparr>"

definition upd_sub_row :: "nat \<Rightarrow> ('m row \<Rightarrow> 'm row) \<Rightarrow> ('m, 'f) subs \<Rightarrow> ('m, 'f) subs" where
  "upd_sub_row rid g s = s\<lparr>ss_rows := (ss_rows s)[rid := g (ss_rows s ! rid)]\<rparr>"

definition register_disposable :: "nat \<Rightarrow> nat \<Rightarrow> ('m, 'f) subs \<Rightarrow> bool \<times> ('m, 'f) subs" where
  "register_disposable rid c s =
     (let (ok, cs) = add_callback c (ss_disposables s rid) in (ok, s\<lparr>ss_disposables := (ss_disposables s)(rid := cs)\<rparr>))"

definition unregister_disposable :: "nat \<Rightarrow> nat \<Rightarrow> ('m, 'f) subs \<Rightarrow> bool \<times> ('m, 'f) subs" where
  "unregister_disposable rid c s =
     (let (ok, cs) = remove_callback c (ss_disposables s rid) in (ok, s\<lparr>ss_disposables := (ss_disposables s)(rid := cs)\<rparr>))"

section \<open>Subscribing\<close>

text \<open>The guard of \<^verbatim>\<open>subscribe\<close>: with the first client the entry is stored and both callbacks are registered.\<close>

definition attach_row :: "nat \<Rightarrow> row_callbacks \<Rightarrow> ('m, 'f) subs \<Rightarrow> ('m, 'f) subs result" where
  "attach_row rid e s =
     (let s1 = (if map_of (ss_callbacks s) rid = None then s\<lparr>ss_callbacks := ss_callbacks s @ [(rid, e)]\<rparr> else s);
          (ok, s2) = register_disposable rid (rc_disposable e) s1
      in if \<not> ok then Inl (Throws (Runtime_error ''Unexpected: Failed to register disposable object callback''))
         else let (ok, r) = row_subscribe_callback (rc_row_callback e) (ss_rows s2 ! rid)
              in if \<not> ok then Inl (Throws (Runtime_error ''Unexpected: Failed to register row data callback''))
                 else Inr (upd_sub_row rid (\<lambda>_. r) s2))"

definition subscribe :: "nat option \<Rightarrow> 'f option \<Rightarrow> ('m, 'f) subs \<Rightarrow> (subscription_params \<times> ('m, 'f) subs) result" where
  "subscribe row func s =
     (case row of
        None \<Rightarrow> Inl (Throws (Invalid_argument ''row''))
      | Some rid \<Rightarrow>
          (case func of
             None \<Rightarrow> Inl (Throws (Invalid_argument ''func''))
           | Some f \<Rightarrow>
               let (e, s1) = (case map_of (ss_callbacks s) rid of
                                Some e \<Rightarrow> (e, s)
                              | None \<Rightarrow> (\<lparr>rc_disposable = ss_next s, rc_row_callback = ss_next s + 1\<rparr>,
                                         s\<lparr>ss_next := ss_next s + 2, ss_signals := (ss_signals s)(ss_next s + 1 := [])\<rparr>));
                   (token, client_count, sig) = signal_subscribe f (ss_signals s1 (rc_row_callback e));
                   s2 = s1\<lparr>ss_signals := (ss_signals s1)(rc_row_callback e := sig)\<rparr>
               in res_map (\<lambda>s3. (if token = signal_token_undefined then no_params
                                 else \<lparr>sp_row = Some rid, sp_token = token\<rparr>, s3))
                    (if client_count = 1 then attach_row rid e s2 else Inr s2)))"

text \<open>The guard of \<^verbatim>\<open>unsubscribe\<close>: with the last client the entry goes and both callbacks are taken back.\<close>

definition detach_row :: "nat \<Rightarrow> row_callbacks \<Rightarrow> ('m, 'f) subs \<Rightarrow> ('m, 'f) subs result" where
  "detach_row rid e s =
     (let s1 = s\<lparr>ss_callbacks := al_remove rid (ss_callbacks s)\<rparr>;
          (ok, s2) = unregister_disposable rid (rc_disposable e) s1
      in if \<not> ok then Inl (Throws (Runtime_error ''Unexpected: Failed to unregister disposable object callback''))
         else let (ok, r) = row_unsubscribe_callback (rc_row_callback e) (ss_rows s2 ! rid)
              in if \<not> ok then Inl (Throws (Runtime_error ''Unexpected: Failed to unregister row data callback''))
                 else Inr (upd_sub_row rid (\<lambda>_. r) s2))"

definition unsubscribe :: "nat option \<Rightarrow> signal_token \<Rightarrow> ('m, 'f) subs \<Rightarrow> (bool \<times> ('m, 'f) subs) result" where
  "unsubscribe row token s =
     (case row of
        None \<Rightarrow> Inl (Throws (Invalid_argument ''row''))
      | Some rid \<Rightarrow>
          (case map_of (ss_callbacks s) rid of
             None \<Rightarrow> Inr (False, s)
           | Some e \<Rightarrow>
               let (ok, client_count, sig) = signal_unsubscribe token (ss_signals s (rc_row_callback e));
                   s1 = s\<lparr>ss_signals := (ss_signals s)(rc_row_callback e := sig)\<rparr>
               in res_map (\<lambda>s2. (ok, s2)) (if client_count = 0 then detach_row rid e s1 else Inr s1)))"

section \<open>Parameters, tokens, collectors\<close>

text \<open>\<^verbatim>\<open>query\<close>: the row must be alive and the token defined. The subscriptions object is that of the state.\<close>

definition params_query :: "subscription_params \<Rightarrow> ('m, 'f) subs \<Rightarrow> (nat \<times> signal_token) option" where
  "params_query p s =
     (case sp_row p of
        None \<Rightarrow> None
      | Some rid \<Rightarrow> if ss_alive s rid \<and> sp_token p \<noteq> signal_token_undefined then Some (rid, sp_token p) else None)"

definition unsubscribe_params :: "subscription_params \<Rightarrow> ('m, 'f) subs \<Rightarrow> (bool \<times> ('m, 'f) subs) result" where
  "unsubscribe_params p s =
     (case params_query p s of None \<Rightarrow> Inr (False, s) | Some (rid, token) \<Rightarrow> unsubscribe (Some rid) token s)"

text \<open>An \<^verbatim>\<open>auto_token\<close> is its parameters.\<close>

definition auto_token_unregister :: "subscription_params \<Rightarrow> ('m, 'f) subs \<Rightarrow> (subscription_params \<times> ('m, 'f) subs) result" where
  "auto_token_unregister p s =
     (case params_query p s of
        None \<Rightarrow> Inr (p, s)
      | Some (rid, token) \<Rightarrow> res_map (\<lambda>(_, s'). (no_params, s')) (unsubscribe (Some rid) token s))"

definition collector_add :: "subscription_params \<Rightarrow> subscription_params list \<Rightarrow> subscription_params list" where
  "collector_add p tokens = tokens @ [p]"

text \<open>Erasing a token destroys it.\<close>

definition collector_remove ::
  "nat \<Rightarrow> subscription_params list \<Rightarrow> ('m, 'f) subs \<Rightarrow> (bool \<times> subscription_params list \<times> ('m, 'f) subs) result" where
  "collector_remove index tokens s =
     (if index \<ge> length tokens then Inr (False, tokens, s)
      else res_map (\<lambda>(_, s'). (True, take index tokens @ drop (Suc index) tokens, s')) (auto_token_unregister (tokens ! index) s))"

fun collector_clear :: "subscription_params list \<Rightarrow> ('m, 'f) subs \<Rightarrow> (subscription_params list \<times> ('m, 'f) subs) result" where
  "collector_clear [] s = Inr ([], s)"
| "collector_clear (p # tokens) s = res_bind (auto_token_unregister p s) (\<lambda>(_, s'). collector_clear tokens s')"

definition collector_get :: "nat \<Rightarrow> subscription_params list \<Rightarrow> subscription_params option" where
  "collector_get index tokens = (if length tokens \<le> index then None else Some (tokens ! index))"

section \<open>Notification\<close>

text \<open>The construction of \<^verbatim>\<open>row_data\<close>, as far as it can fail: it copies the key of the row.\<close>

definition row_data_construct :: "'m row \<Rightarrow> key result" where
  "row_data_construct r = buffered_key_copy (r_key r) (replicate MAX_KEY_SIZE 0)"

text \<open>\<^verbatim>\<open>smart_row_callback::on_data_changed\<close> of the row \<open>r\<close>. A callback object without entries is one of other clients, whose
  calls are not recorded here: those of this object are registered with the row only while they have entries.\<close>

definition on_data_changed ::
  "('m, 'f) subs \<Rightarrow> 'm row \<Rightarrow> notification \<Rightarrow> ('f \<times> size_t \<times> bytes option) list \<Rightarrow> ('f \<times> size_t \<times> bytes option) list result" where
  "on_data_changed s r = (\<lambda>(c, sz, buffer) log.
     if ss_signals s c = [] then Inr log
     else res_bind (row_data_construct r) (\<lambda>_.
            res_map snd (signal_raise (\<lambda>_. ss_signals s c) (\<lambda>f log. log @ [(f, sz, buffer)]) log)))"

fun deliver ::
  "('m, 'f) subs \<Rightarrow> 'm row \<Rightarrow> notification list \<Rightarrow> ('f \<times> size_t \<times> bytes option) list \<Rightarrow> ('f \<times> size_t \<times> bytes option) list result" where
  "deliver s r [] log = Inr log"
| "deliver s r (n # ns) log = res_bind (on_data_changed s r n log) (deliver s r ns)"

text \<open>An exception of a callback leaves \<^verbatim>\<open>write_bytes\<close>.\<close>

definition write_row ::
  "(nat \<Rightarrow> byte) \<Rightarrow> nat \<Rightarrow> bytes option \<Rightarrow> size_t \<Rightarrow> bool \<Rightarrow> byte \<Rightarrow> ('m, 'f) subs \<Rightarrow>
   (bool \<times> ('m, 'f) subs \<times> ('f \<times> size_t \<times> bytes option) list) result" where
  "write_row junk rid buffer sz force_report priority s =
     res_bind (row_write_bytes junk (ss_rows s ! rid) buffer sz force_report priority) (\<lambda>(ok, r, notes).
       res_map (\<lambda>calls. (ok, upd_sub_row rid (\<lambda>_. r) s, calls)) (deliver s r notes []))"

text \<open>The destructor of a row raises its disposal callbacks; the one of the subscriptions object erases the entry. The
  callback object is released by the map and by the row and is deleted.\<close>

definition on_disposed :: "nat \<Rightarrow> nat \<Rightarrow> ('m, 'f) subs \<Rightarrow> ('m, 'f) subs" where
  "on_disposed rid c s =
     (case map_of (ss_callbacks s) rid of
        None \<Rightarrow> s
      | Some e \<Rightarrow> if rc_disposable e = c
                  then s\<lparr>ss_callbacks := al_remove rid (ss_callbacks s), ss_signals := (ss_signals s)(rc_row_callback e := [])\<rparr>
                  else s)"

definition row_disposed :: "nat \<Rightarrow> ('m, 'f) subs \<Rightarrow> ('m, 'f) subs result" where
  "row_disposed rid s =
     res_map (\<lambda>s'. upd_sub_row rid (\<lambda>r. r\<lparr>r_callbacks := []\<rparr>) (s'\<lparr>ss_alive := (ss_alive s')(rid := False), ss_disposables := (ss_disposables s')(rid := [])\<rparr>))
       (raise_callbacks (\<lambda>s. ss_disposables s rid) (on_disposed rid) s)"

text \<open>The destructor of the subscriptions object.\<close>

definition subscriptions_destroy :: "('m, 'f) subs \<Rightarrow> ('m, 'f) subs" where
  "subscriptions_destroy s =
     (fold (\<lambda>(rid, e) s. upd_sub_row rid (\<lambda>r. snd (row_unsubscribe_callback (rc_row_callback e) r))
              (snd (unregister_disposable rid (rc_disposable e) s))) (ss_callbacks s) s)\<lparr>ss_callbacks := []\<rparr>"

section \<open>Invariant and view\<close>

text \<open>At every row: the callbacks are distinct and known; the entry of the row, if there is one, is registered with both
  handlers and has at least one client; no other callback object of the row has clients here.\<close>

definition row_ok :: "('m, 'f) subs \<Rightarrow> nat \<Rightarrow> bool" where
  "row_ok s rid \<longleftrightarrow>
     distinct (r_callbacks (ss_rows s ! rid)) \<and> (\<forall>c \<in> set (r_callbacks (ss_rows s ! rid)). c < ss_next s) \<and>
     distinct (ss_disposables s rid) \<and> (\<forall>c \<in> set (ss_disposables s rid). c < ss_next s) \<and>
     (case map_of (ss_callbacks s) rid of
        None \<Rightarrow> \<forall>c \<in> set (r_callbacks (ss_rows s ! rid)). ss_signals s c = []
      | Some e \<Rightarrow>
          rc_row_callback e \<in> set (r_callbacks (ss_rows s ! rid)) \<and> rc_disposable e \<in> set (ss_disposables s rid) \<and>
          signal_inv (ss_signals s (rc_row_callback e)) \<and> ss_signals s (rc_row_callback e) \<noteq> [] \<and>
          (\<forall>c \<in> set (r_callbacks (ss_rows s ! rid)). c \<noteq> rc_row_callback e \<longrightarrow> ss_signals s c = []))"

text \<open>A callback object is registered at its own row only.\<close>

definition callbacks_private :: "('m, 'f) subs \<Rightarrow> bool" where
  "callbacks_private s \<longleftrightarrow>
     (\<forall>rid e rid'. map_of (ss_callbacks s) rid = Some e \<and> rid' < length (ss_rows s) \<and> rid' \<noteq> rid \<longrightarrow>
        rc_row_callback e \<notin> set (r_callbacks (ss_rows s ! rid')))"

definition subs_inv :: "('m, 'f) subs \<Rightarrow> bool" where
  "subs_inv s \<longleftrightarrow>
     distinct (map fst (ss_callbacks s)) \<and> fst ` set (ss_callbacks s) \<subseteq> {..<length (ss_rows s)} \<and>
     (\<forall>rid < length (ss_rows s). row_ok s rid) \<and> callbacks_private s"

text \<open>The functions subscribed to a row, by token.\<close>

definition row_signal :: "('m, 'f) subs \<Rightarrow> nat \<Rightarrow> 'f signal" where
  "row_signal s rid = (case map_of (ss_callbacks s) rid of None \<Rightarrow> [] | Some e \<Rightarrow> ss_signals s (rc_row_callback e))"

definition subs_view :: "('m, 'f) subs \<Rightarrow> nat \<Rightarrow> signal_token \<Rightarrow> 'f option" where
  "subs_view s rid token = map_of (row_signal s rid) token"

section \<open>Subscribing and unsubscribing keep the invariant\<close>

lemma signal_subscribe_empty: "signal_subscribe f [] = (0, 1, [(0, f)])"
  by (simp add: signal_subscribe_def signal_free_token.simps INT_MAX_def signal_token_undefined_def)

lemma signal_subscribe_cases:
  assumes "signal_inv subs" and "signal_subscribe f subs = (token, n, subs')"
  shows "signal_inv subs' \<and> n = length subs' \<and>
         ((token = signal_token_undefined \<and> subs' = subs \<and> INT_MAX \<le> int (length subs)) \<or>
          (0 \<le> token \<and> map_of subs token = None \<and> map_of subs' = (map_of subs)(token \<mapsto> f) \<and> length subs' = Suc (length subs)))"
proof (cases "token = signal_token_undefined")
  case False
  with assms(2) have t: "token = signal_free_token subs 0" and s': "subs' = map_emplace token f subs" and n: "n = length subs'"
    by (auto simp: signal_subscribe_def Let_def)
  have "0 \<le> token \<and> token < INT_MAX \<and> map_of subs token = None"
    using signal_free_token_first[of subs 0 token] t False by simp
  with assms(1) signal_inv_map_emplace[OF assms(1), of token f] show ?thesis
    by (auto simp: s' n map_of_map_emplace length_map_emplace)
next
  case True
  with signal_free_token_exists[of subs] assms show ?thesis
    by (auto simp: signal_subscribe_def Let_def not_less[symmetric])
qed

lemma signal_unsubscribe_cases:
  assumes "signal_inv subs" and "signal_unsubscribe token subs = (ok, n, subs')"
  shows "signal_inv subs' \<and> n = length subs' \<and> ok = (map_of subs token \<noteq> None) \<and> map_of subs' = (map_of subs)(token := None)"
  using assms signal_inv_al_remove[OF assms(1), of token]
  by (auto simp: signal_unsubscribe_def Let_def fun_upd_idem split: option.splits)

lemma row_callback_ops [simp]:
  "r_callbacks (snd (row_subscribe_callback c r)) = (if c \<in> set (r_callbacks r) then r_callbacks r else r_callbacks r @ [c])"
  "r_callbacks (snd (row_unsubscribe_callback c r)) = remove1 c (r_callbacks r)"
  "fst (row_subscribe_callback c r) = (c \<notin> set (r_callbacks r))"
  "fst (row_unsubscribe_callback c r) = (c \<in> set (r_callbacks r))"
  by (simp_all add: row_registry.add_appends row_registry.remove_drops row_registry.add_reports row_registry.remove_reports)

text \<open>The effect of the two guards when they succeed.\<close>

lemma attach_row_ok:
  assumes "map_of (ss_callbacks s) rid = None" and "rc_disposable e \<notin> set (ss_disposables s rid)"
    and "rc_row_callback e \<notin> set (r_callbacks (ss_rows s ! rid))"
  shows "attach_row rid e s =
         Inr (s\<lparr>ss_callbacks := ss_callbacks s @ [(rid, e)],
                ss_disposables := (ss_disposables s)(rid := ss_disposables s rid @ [rc_disposable e]),
                ss_rows := (ss_rows s)[rid := snd (row_subscribe_callback (rc_row_callback e) (ss_rows s ! rid))]\<rparr>)"
  using assms row_callback_ops(3)[of "rc_row_callback e" "ss_rows s ! rid"]
  by (simp add: attach_row_def register_disposable_def add_callback_def upd_sub_row_def split_beta Let_def)

lemma detach_row_ok:
  assumes "rc_disposable e \<in> set (ss_disposables s rid)" and "rc_row_callback e \<in> set (r_callbacks (ss_rows s ! rid))"
  shows "detach_row rid e s =
         Inr (s\<lparr>ss_callbacks := al_remove rid (ss_callbacks s),
                ss_disposables := (ss_disposables s)(rid := remove1 (rc_disposable e) (ss_disposables s rid)),
                ss_rows := (ss_rows s)[rid := snd (row_unsubscribe_callback (rc_row_callback e) (ss_rows s ! rid))]\<rparr>)"
  using assms row_callback_ops(4)[of "rc_row_callback e" "ss_rows s ! rid"]
  by (simp add: detach_row_def unregister_disposable_def remove_callback_def upd_sub_row_def split_beta Let_def)

lemma subs_invD:
  assumes "subs_inv s"
  shows "distinct (map fst (ss_callbacks s))" and "\<And>rid. rid < length (ss_rows s) \<Longrightarrow> row_ok s rid"
    and "\<And>rid e. map_of (ss_callbacks s) rid = Some e \<Longrightarrow> rid < length (ss_rows s)"
    and "\<And>rid e rid'. map_of (ss_callbacks s) rid = Some e \<Longrightarrow> rid' < length (ss_rows s) \<Longrightarrow> rid' \<noteq> rid \<Longrightarrow>
           rc_row_callback e \<notin> set (r_callbacks (ss_rows s ! rid'))"
  using assms by (auto simp: subs_inv_def callbacks_private_def dest: map_of_SomeD)

text \<open>Changing the clients of one entry, without removing the last one.\<close>

lemma change_signal:
  assumes "subs_inv s" and "map_of (ss_callbacks s) rid = Some e" and "signal_inv sig" and "sig \<noteq> []"
    and "s' = s\<lparr>ss_signals := (ss_signals s)(rc_row_callback e := sig)\<rparr>"
  shows "subs_inv s' \<and> row_signal s' = (row_signal s)(rid := sig)"
proof -
  note inv = subs_invD[OF assms(1)]
  have rid: "rid < length (ss_rows s)" using inv(3)[OF assms(2)] .
  have "row_ok s' r" if r: "r < length (ss_rows s)" for r
  proof (cases "r = rid")
    case True
    then show ?thesis using inv(2)[OF r] assms by (auto simp: row_ok_def)
  next
    case False
    with inv(4)[OF assms(2) r] have c: "rc_row_callback e \<notin> set (r_callbacks (ss_rows s ! r))" by simp
    show ?thesis
    proof (cases "map_of (ss_callbacks s) r")
      case None
      with inv(2)[OF r] c assms(5) show ?thesis by (auto simp: row_ok_def)
    next
      case (Some e2)
      with inv(2)[OF r] have "rc_row_callback e2 \<in> set (r_callbacks (ss_rows s ! r))" by (simp add: row_ok_def)
      with c have "rc_row_callback e2 \<noteq> rc_row_callback e" by auto
      with inv(2)[OF r] c assms(5) Some show ?thesis by (auto simp: row_ok_def)
    qed
  qed
  moreover have "row_signal s' r = ((row_signal s)(rid := sig)) r" for r
  proof (cases "map_of (ss_callbacks s) r")
    case None
    with assms(2,5) show ?thesis by (auto simp: row_signal_def)
  next
    case (Some e2)
    have "rc_row_callback e2 \<noteq> rc_row_callback e" if "r \<noteq> rid"
      using inv(4)[OF assms(2) inv(3)[OF Some] that] inv(2)[OF inv(3)[OF Some]] Some by (auto simp: row_ok_def)
    with assms(2,5) Some show ?thesis by (auto simp: row_signal_def)
  qed
  ultimately show ?thesis using assms(1,5) by (auto simp: subs_inv_def callbacks_private_def)
qed

lemma al_remove_fresh: "k \<notin> fst ` set xs \<Longrightarrow> al_remove k (xs @ [(k, v)]) = xs"
  by (induction xs) (auto simp: al_remove_def)

text \<open>A first client: the state with a new entry.\<close>

definition with_entry :: "nat \<Rightarrow> 'f signal \<Rightarrow> ('m, 'f) subs \<Rightarrow> ('m, 'f) subs" where
  "with_entry rid sig s =
     s\<lparr>ss_next := ss_next s + 2, ss_signals := (ss_signals s)(ss_next s + 1 := sig),
       ss_callbacks := ss_callbacks s @ [(rid, \<lparr>rc_disposable = ss_next s, rc_row_callback = ss_next s + 1\<rparr>)],
       ss_disposables := (ss_disposables s)(rid := ss_disposables s rid @ [ss_next s]),
       ss_rows := (ss_rows s)[rid := snd (row_subscribe_callback (ss_next s + 1) (ss_rows s ! rid))]\<rparr>"

lemma with_entry_inv:
  assumes "subs_inv s" and "rid < length (ss_rows s)" and "map_of (ss_callbacks s) rid = None"
    and "signal_inv sig" and "sig \<noteq> []"
  shows "subs_inv (with_entry rid sig s) \<and> row_signal (with_entry rid sig s) = (row_signal s)(rid := sig)"
proof -
  note inv = subs_invD[OF assms(1)]
  let ?s = "with_entry rid sig s"
  have m: "map_of (ss_callbacks ?s) r =
      (if r = rid then Some \<lparr>rc_disposable = ss_next s, rc_row_callback = ss_next s + 1\<rparr> else map_of (ss_callbacks s) r)" for r
    using assms(3) by (auto simp: with_entry_def map_add_def split: option.splits)
  have fresh: "ss_next s + 1 \<notin> set (r_callbacks (ss_rows s ! r))" if "r < length (ss_rows s)" for r
    using inv(2)[OF that] by (auto simp: row_ok_def)
  have old: "rc_row_callback e \<noteq> ss_next s + 1" if "map_of (ss_callbacks s) r = Some e" for r e
    using inv(2)[OF inv(3)[OF that]] that by (auto simp: row_ok_def)
  have "row_ok ?s r" if r: "r < length (ss_rows s)" for r
  proof (cases "r = rid")
    case True
    have "\<forall>c \<in> set (r_callbacks (ss_rows s ! rid)). ss_signals s c = []" "ss_next s \<notin> set (ss_disposables s rid)"
      using inv(2)[OF assms(2)] assms(3) by (auto simp: row_ok_def)
    then show ?thesis using inv(2)[OF assms(2)] fresh[OF assms(2)] assms(2,4,5) True m[of rid]
      by (simp add: row_ok_def) (auto simp: with_entry_def)
  next
    case False
    then show ?thesis using inv(2)[OF r] fresh[OF r] old[of r] m[of r]
      by (auto simp: row_ok_def with_entry_def split: option.splits)
  qed
  moreover have cb: "r_callbacks (ss_rows ?s ! r) = r_callbacks (ss_rows s ! r) @ (if r = rid then [ss_next s + 1] else [])"
    if "r < length (ss_rows s)" for r
    using fresh[OF assms(2)] that by (auto simp: with_entry_def nth_list_update)
  have len: "length (ss_rows ?s) = length (ss_rows s)" by (simp add: with_entry_def)
  have "callbacks_private ?s"
    unfolding callbacks_private_def len using inv(4) fresh old by (auto simp: m cb split: if_splits)
  moreover have "distinct (map fst (ss_callbacks ?s))" "fst ` set (ss_callbacks ?s) \<subseteq> {..<length (ss_rows ?s)}"
    using inv(1) assms by (auto simp: with_entry_def map_of_eq_None_iff subs_inv_def)
  moreover have "row_signal ?s r = ((row_signal s)(rid := sig)) r" for r
    using old[of r] by (auto simp: row_signal_def m) (auto simp: with_entry_def split: option.splits)
  ultimately show ?thesis by (auto simp: subs_inv_def len)
qed

lemma subscribe_correct:
  assumes "subs_inv s" and "rid < length (ss_rows s)"
  shows "\<exists>p s'. subscribe (Some rid) (Some f) s = Inr (p, s') \<and> subs_inv s' \<and> length (ss_rows s') = length (ss_rows s) \<and>
           ss_alive s' = ss_alive s \<and>
           ((p = no_params \<and> subs_view s' = subs_view s) \<or>
            (sp_row p = Some rid \<and> 0 \<le> sp_token p \<and> subs_view s rid (sp_token p) = None \<and>
             subs_view s' = (subs_view s)(rid := (subs_view s rid)(sp_token p \<mapsto> f)))) \<and>
           (map_of (ss_callbacks s) rid = None \<longrightarrow> p = \<lparr>sp_row = Some rid, sp_token = 0\<rparr> \<and> s' = with_entry rid [(0, f)] s)"
proof (cases "map_of (ss_callbacks s) rid")
  case None
  have inv1: "signal_inv [(0, f)]" by (simp add: signal_inv_def INT_MAX_def)
  note r = subs_invD(2)[OF assms]
  have "ss_next s \<notin> set (ss_disposables s rid)" "ss_next s + 1 \<notin> set (r_callbacks (ss_rows s ! rid))"
    using r by (auto simp: row_ok_def)
  then have "subscribe (Some rid) (Some f) s = Inr (\<lparr>sp_row = Some rid, sp_token = 0\<rparr>, with_entry rid [(0, f)] s)"
    using None by (simp add: subscribe_def signal_subscribe_empty attach_row_ok signal_token_undefined_def) (simp add: with_entry_def)
  moreover note with_entry_inv[OF assms None inv1]
  moreover have "row_signal s rid = []" using None by (simp add: row_signal_def)
  ultimately show ?thesis by (auto simp: subs_view_def fun_eq_iff with_entry_def)
next
  case (Some e)
  then have e: "signal_inv (ss_signals s (rc_row_callback e))" "ss_signals s (rc_row_callback e) \<noteq> []"
    using subs_invD(2)[OF assms] by (auto simp: row_ok_def)
  obtain token n sig where sub: "signal_subscribe f (ss_signals s (rc_row_callback e)) = (token, n, sig)" by (cases "signal_subscribe f (ss_signals s (rc_row_callback e))")
  note sc = signal_subscribe_cases[OF e(1) sub]
  then have sig: "sig \<noteq> []" "signal_inv sig" using e(2) by auto
  have "n \<noteq> 1" using sc e(2) by (auto simp: INT_MAX_def)
  define s' where "s' = s\<lparr>ss_signals := (ss_signals s)(rc_row_callback e := sig)\<rparr>"
  from change_signal[OF assms(1) Some sig(2,1) s'_def] have inv: "subs_inv s'" "row_signal s' = (row_signal s)(rid := sig)" by auto
  have sub': "subscribe (Some rid) (Some f) s =
      Inr (if token = signal_token_undefined then no_params else \<lparr>sp_row = Some rid, sp_token = token\<rparr>, s')"
    using Some sub \<open>n \<noteq> 1\<close> by (simp add: subscribe_def s'_def)
  have "row_signal s rid = ss_signals s (rc_row_callback e)" using Some by (simp add: row_signal_def)
  with sc inv sub' Some show ?thesis
    by (auto simp: subs_view_def fun_eq_iff s'_def signal_token_undefined_def no_params_def)
qed

text \<open>A last client: the state without the entry.\<close>

definition without_entry :: "nat \<Rightarrow> row_callbacks \<Rightarrow> ('m, 'f) subs \<Rightarrow> ('m, 'f) subs" where
  "without_entry rid e s =
     s\<lparr>ss_signals := (ss_signals s)(rc_row_callback e := []),
       ss_callbacks := al_remove rid (ss_callbacks s),
       ss_disposables := (ss_disposables s)(rid := remove1 (rc_disposable e) (ss_disposables s rid)),
       ss_rows := (ss_rows s)[rid := snd (row_unsubscribe_callback (rc_row_callback e) (ss_rows s ! rid))]\<rparr>"

lemma without_entry_inv:
  assumes "subs_inv s" and "map_of (ss_callbacks s) rid = Some e"
  shows "subs_inv (without_entry rid e s) \<and> row_signal (without_entry rid e s) = (row_signal s)(rid := [])"
proof -
  note inv = subs_invD[OF assms(1)]
  let ?s = "without_entry rid e s"
  have rid: "rid < length (ss_rows s)" using inv(3)[OF assms(2)] .
  have m: "map_of (ss_callbacks ?s) = (map_of (ss_callbacks s))(rid := None)" by (simp add: without_entry_def)
  have old: "rc_row_callback e2 \<noteq> rc_row_callback e" if "map_of (ss_callbacks s) r = Some e2" "r \<noteq> rid" for r e2
    using inv(4)[OF assms(2) inv(3)[OF that(1)] that(2)] inv(2)[OF inv(3)[OF that(1)]] that by (auto simp: row_ok_def)
  have "row_ok ?s r" if r: "r < length (ss_rows s)" for r
  proof (cases "r = rid")
    case True
    with inv(2)[OF rid] assms(2) rid show ?thesis
      by (auto simp: row_ok_def without_entry_def dest: in_set_remove1 notin_set_remove1 intro: distinct_remove1)
  next
    case False
    with inv(2)[OF r] inv(4)[OF assms(2) r False] old[of r] show ?thesis
      by (auto simp: row_ok_def without_entry_def split: option.splits)
  qed
  moreover have "callbacks_private ?s"
    using inv(4) rid by (auto simp: callbacks_private_def m without_entry_def nth_list_update split: if_splits dest: notin_set_remove1)
  moreover have "distinct (map fst (ss_callbacks ?s))" "fst ` set (ss_callbacks ?s) \<subseteq> {..<length (ss_rows ?s)}"
    using inv(1) assms(1) distinct_al_remove[OF inv(1)] by (auto simp: without_entry_def subs_inv_def)
  moreover have "row_signal ?s r = ((row_signal s)(rid := [])) r" for r
    using old[of r] by (auto simp: row_signal_def m) (auto simp: without_entry_def split: option.splits)
  ultimately show ?thesis by (auto simp: subs_inv_def) (auto simp: without_entry_def)
qed

lemma view_change:
  "row_signal s' = (row_signal s)(rid := sig) \<Longrightarrow> subs_view s' = (subs_view s)(rid := map_of sig)"
  by (simp add: subs_view_def fun_eq_iff)

lemma unsubscribe_correct:
  assumes "subs_inv s"
  shows "\<exists>s'. unsubscribe (Some rid) token s = Inr (subs_view s rid token \<noteq> None, s') \<and> subs_inv s' \<and>
           length (ss_rows s') = length (ss_rows s) \<and> ss_alive s' = ss_alive s \<and>
           subs_view s' = (subs_view s)(rid := (subs_view s rid)(token := None)) \<and>
           (\<forall>e f. map_of (ss_callbacks s) rid = Some e \<and> ss_signals s (rc_row_callback e) = [(token, f)] \<longrightarrow> s' = without_entry rid e s)"
proof (cases "map_of (ss_callbacks s) rid")
  case None
  then have "row_signal s rid = []" by (simp add: row_signal_def)
  with None assms show ?thesis by (auto simp: unsubscribe_def subs_view_def fun_eq_iff)
next
  case (Some e)
  have rid: "rid < length (ss_rows s)" using subs_invD(3)[OF assms Some] .
  then have e: "signal_inv (ss_signals s (rc_row_callback e))" "ss_signals s (rc_row_callback e) \<noteq> []"
    "rc_disposable e \<in> set (ss_disposables s rid)" "rc_row_callback e \<in> set (r_callbacks (ss_rows s ! rid))"
    using subs_invD(2)[OF assms, of rid] Some by (auto simp: row_ok_def)
  have rs: "row_signal s rid = ss_signals s (rc_row_callback e)" using Some by (simp add: row_signal_def)
  obtain ok n sig where un: "signal_unsubscribe token (ss_signals s (rc_row_callback e)) = (ok, n, sig)"
    by (cases "signal_unsubscribe token (ss_signals s (rc_row_callback e))")
  note sc = signal_unsubscribe_cases[OF e(1) un]
  show ?thesis
  proof (cases "sig = []")
    case True
    then have n: "n = 0" using sc by simp
    have "unsubscribe (Some rid) token s = Inr (ok, without_entry rid e s)"
      using Some un e(3,4) True n by (simp add: unsubscribe_def detach_row_ok) (simp add: without_entry_def)
    moreover have "map_of sig = (subs_view s rid)(token := None)" using sc rs by (simp add: subs_view_def[abs_def])
    moreover have "subs_view (without_entry rid e s) = (subs_view s)(rid := map_of sig)"
      using without_entry_inv[OF assms Some] True by (intro view_change) simp
    moreover have "ok = (subs_view s rid token \<noteq> None)" using sc rs by (simp add: subs_view_def)
    ultimately show ?thesis using without_entry_inv[OF assms Some] Some by (auto simp: without_entry_def)
  next
    case False
    then have n: "n \<noteq> 0" using sc by simp
    define s' where "s' = s\<lparr>ss_signals := (ss_signals s)(rc_row_callback e := sig)\<rparr>"
    from change_signal[OF assms Some _ False s'_def] sc have inv: "subs_inv s'" "row_signal s' = (row_signal s)(rid := sig)" by auto
    have "unsubscribe (Some rid) token s = Inr (ok, s')" using Some un n by (simp add: unsubscribe_def s'_def)
    moreover have "ss_signals s (rc_row_callback e) \<noteq> [(token, f)]" for f
      using un False by (auto simp: signal_unsubscribe_def al_remove_def)
    moreover have "map_of sig = (subs_view s rid)(token := None)" using sc rs by (simp add: subs_view_def[abs_def])
    moreover have "ok = (subs_view s rid token \<noteq> None)" using sc rs by (simp add: subs_view_def)
    ultimately show ?thesis using inv view_change[OF inv(2)] Some by (auto simp: s'_def)
  qed
qed

text \<open>Subscribing the first client and unsubscribing it leaves the row as it was.\<close>

lemma without_with_entry:
  assumes "subs_inv s" and "rid < length (ss_rows s)" and "map_of (ss_callbacks s) rid = None"
  shows "ss_rows (without_entry rid \<lparr>rc_disposable = ss_next s, rc_row_callback = ss_next s + 1\<rparr> (with_entry rid sig s)) = ss_rows s"
    and "ss_disposables (without_entry rid \<lparr>rc_disposable = ss_next s, rc_row_callback = ss_next s + 1\<rparr> (with_entry rid sig s)) = ss_disposables s"
    and "ss_callbacks (without_entry rid \<lparr>rc_disposable = ss_next s, rc_row_callback = ss_next s + 1\<rparr> (with_entry rid sig s)) = ss_callbacks s"
proof -
  have f: "ss_next s + 1 \<notin> set (r_callbacks (ss_rows s ! rid))" "ss_next s \<notin> set (ss_disposables s rid)"
    using subs_invD(2)[OF assms(1,2)] by (auto simp: row_ok_def)
  have "snd (row_unsubscribe_callback (ss_next s + 1) (snd (row_subscribe_callback (ss_next s + 1) (ss_rows s ! rid)))) = ss_rows s ! rid"
    using f(1) by (simp add: row_subscribe_callback_def row_unsubscribe_callback_def add_callback_def remove_callback_def remove1_append)
  then show "ss_rows (without_entry rid \<lparr>rc_disposable = ss_next s, rc_row_callback = ss_next s + 1\<rparr> (with_entry rid sig s)) = ss_rows s"
    using assms(2) by (simp add: without_entry_def with_entry_def)
  show "ss_disposables (without_entry rid \<lparr>rc_disposable = ss_next s, rc_row_callback = ss_next s + 1\<rparr> (with_entry rid sig s)) = ss_disposables s"
    using f(2) by (simp add: without_entry_def with_entry_def remove1_append fun_upd_idem)
  have "rid \<notin> fst ` set (ss_callbacks s)" using assms(3) by (simp add: map_of_eq_None_iff)
  then show "ss_callbacks (without_entry rid \<lparr>rc_disposable = ss_next s, rc_row_callback = ss_next s + 1\<rparr> (with_entry rid sig s)) = ss_callbacks s"
    by (simp add: without_entry_def with_entry_def al_remove_fresh)
qed

section \<open>Who is called\<close>

lemma on_data_changed_eq:
  assumes "ss_signals s c = [] \<or> key_buffered (r_key r)"
  shows "on_data_changed s r (c, sz, buffer) log = Inr (log @ map (\<lambda>(t, f). (f, sz, buffer)) (ss_signals s c))"
proof (cases "ss_signals s c = []")
  case False
  then obtain k where "row_data_construct r = Inr k"
    using assms buffered_key_copy_ok[of "r_key r" "replicate MAX_KEY_SIZE 0"] by (auto simp: row_data_construct_def)
  with False show ?thesis by (simp add: on_data_changed_def signal_raise_fold fold_append_map split_def)
qed (simp add: on_data_changed_def)

lemma deliver_eq:
  assumes "(\<forall>c \<in> set cs. ss_signals s c = []) \<or> key_buffered (r_key r)"
  shows "deliver s r (map (\<lambda>c. (c, sz, buffer)) cs) log =
     Inr (log @ concat (map (\<lambda>c. map (\<lambda>(t, f). (f, sz, buffer)) (ss_signals s c)) cs))"
  using assms
proof (induction cs arbitrary: log)
  case (Cons c cs)
  then show ?case using on_data_changed_eq[of s c r sz buffer log] by auto
qed simp

lemma deliver_throws:
  assumes "c \<in> set cs" and "ss_signals s c \<noteq> []" and "row_data_construct r = Inl e"
  shows "deliver s r (map (\<lambda>c. (c, sz, buffer)) cs) log = Inl e"
  using assms(1)
proof (induction cs arbitrary: log)
  case (Cons x cs)
  with assms(2,3) show ?case by (cases "ss_signals s x = []") (auto simp: on_data_changed_def)
qed simp

lemma concat_one:
  assumes "distinct cs" and "c0 \<in> set cs" and "\<And>c. c \<in> set cs \<Longrightarrow> c \<noteq> c0 \<Longrightarrow> g c = []"
  shows "concat (map g cs) = g c0"
  using assms
proof (induction cs)
  case (Cons c cs)
  show ?case
  proof (cases "c = c0")
    case True
    with Cons.prems have "concat (map g cs) = []" by auto
    with True show ?thesis by simp
  next
    case False
    with Cons show ?thesis by simp
  qed
qed simp

lemma row_calls:
  assumes "row_ok s rid"
  shows "concat (map (\<lambda>c. map h (ss_signals s c)) (r_callbacks (ss_rows s ! rid))) = map h (row_signal s rid)"
proof (cases "map_of (ss_callbacks s) rid")
  case None
  with assms show ?thesis by (auto simp: row_ok_def row_signal_def)
next
  case (Some e)
  with assms have "concat (map (\<lambda>c. map h (ss_signals s c)) (r_callbacks (ss_rows s ! rid))) = map h (ss_signals s (rc_row_callback e))"
    by (intro concat_one) (auto simp: row_ok_def)
  with Some show ?thesis by (simp add: row_signal_def)
qed

lemma row_signals_empty:
  assumes "row_ok s rid"
  shows "row_signal s rid = [] \<longleftrightarrow> (\<forall>c \<in> set (r_callbacks (ss_rows s ! rid)). ss_signals s c = [])"
  using assms by (auto simp: row_ok_def row_signal_def split: option.splits)

text \<open>The row can tell its subscribers, if it has any.\<close>

definition row_tells :: "('m, 'f) subs \<Rightarrow> nat \<Rightarrow> bool" where
  "row_tells s rid \<longleftrightarrow> row_signal s rid = [] \<or> key_buffered (r_key (ss_rows s ! rid))"

lemma deliver_row:
  assumes "row_ok s rid" and "row_tells s rid" and "r_key r = r_key (ss_rows s ! rid)"
  shows "deliver s r (map (\<lambda>c. (c, sz, buffer)) (r_callbacks (ss_rows s ! rid))) [] = Inr (map (\<lambda>(t, f). (f, sz, buffer)) (row_signal s rid))"
  using assms row_signals_empty[OF assms(1)] row_calls[OF assms(1), of "\<lambda>(t, f). (f, sz, buffer)"] by (subst deliver_eq) (auto simp: row_tells_def)

lemma same_callbacks:
  assumes "subs_inv s" and "r_callbacks r = r_callbacks (ss_rows s ! rid)" and "s' = upd_sub_row rid (\<lambda>_. r) s"
  shows "subs_inv s' \<and> row_signal s' = row_signal s"
proof -
  have cb: "r_callbacks (ss_rows s' ! i) = r_callbacks (ss_rows s ! i)" if "i < length (ss_rows s)" for i
    using assms(2,3) that by (cases "i = rid") (simp_all add: upd_sub_row_def)
  have f: "ss_disposables s' = ss_disposables s" "ss_next s' = ss_next s" "ss_signals s' = ss_signals s" "ss_callbacks s' = ss_callbacks s"
    "length (ss_rows s') = length (ss_rows s)" using assms(3) by (simp_all add: upd_sub_row_def)
  have "row_ok s' i = row_ok s i" if "i < length (ss_rows s)" for i
    using cb[OF that] by (simp add: row_ok_def f cong: option.case_cong)
  moreover have "row_signal s' = row_signal s" by (rule ext) (simp add: row_signal_def f split: option.split)
  ultimately show ?thesis using assms(1) cb by (auto simp: subs_inv_def callbacks_private_def f)
qed

lemma write_row_calls:
  assumes "subs_inv s" and "rid < length (ss_rows s)" and "row_inv (ss_rows s ! rid)" and "data_ok (Some bs) sz"
    and "row_accepts (ss_rows s ! rid) (Some bs) sz priority" and "row_tells s rid"
  shows "\<exists>s'. write_row junk rid (Some bs) sz force priority s =
             Inr (True, s', if force \<or> row_value (ss_rows s ! rid) \<noteq> take (unat sz) bs
                            then map (\<lambda>(t, f). (f, sz, Some bs)) (row_signal s rid) else []) \<and>
           subs_inv s' \<and> row_signal s' = row_signal s \<and> row_value (ss_rows s' ! rid) = take (unat sz) bs"
proof -
  obtain r where w: "row_write_bytes junk (ss_rows s ! rid) (Some bs) sz force priority =
      Inr (True, r, if force \<or> row_value (ss_rows s ! rid) \<noteq> take (unat sz) bs
                    then map (\<lambda>c. (c, sz, Some bs)) (r_callbacks (ss_rows s ! rid)) else [])"
    and r: "row_value r = take (unat sz) bs" "r_callbacks r = r_callbacks (ss_rows s ! rid)" "r_key r = r_key (ss_rows s ! rid)"
    using row_write_accepted[OF assms(3-5), of junk force] by (auto simp: row_frame_def)
  have "deliver s r (map (\<lambda>c. (c, sz, Some bs)) (r_callbacks (ss_rows s ! rid))) [] =
      Inr (map (\<lambda>(t, f). (f, sz, Some bs)) (row_signal s rid))"
    by (rule deliver_row[OF subs_invD(2)[OF assms(1,2)] assms(6) r(3)])
  moreover note same_callbacks[OF assms(1) r(2) refl]
  ultimately show ?thesis using w r(1) assms(2) by (auto simp: write_row_def upd_sub_row_def)
qed

lemma write_row_throws:
  assumes "subs_inv s" and "rid < length (ss_rows s)" and "row_inv (ss_rows s ! rid)" and "data_ok (Some bs) sz"
    and "row_accepts (ss_rows s ! rid) (Some bs) sz priority" and "row_signal s rid \<noteq> []"
    and "length (key_data (r_key (ss_rows s ! rid))) = MAX_KEY_SIZE" and "\<not> key_buffered (r_key (ss_rows s ! rid))"
    and "force \<or> row_value (ss_rows s ! rid) \<noteq> take (unat sz) bs"
  shows "write_row junk rid (Some bs) sz force priority s = Inl (Throws (Invalid_argument ''key''))"
proof -
  obtain r where w: "row_write_bytes junk (ss_rows s ! rid) (Some bs) sz force priority =
      Inr (True, r, map (\<lambda>c. (c, sz, Some bs)) (r_callbacks (ss_rows s ! rid)))" and r: "r_key r = r_key (ss_rows s ! rid)"
    using row_write_accepted[OF assms(3-5), of junk force] assms(9) by (auto simp: row_frame_def)
  obtain c where "c \<in> set (r_callbacks (ss_rows s ! rid))" "ss_signals s c \<noteq> []"
    using row_signals_empty[OF subs_invD(2)[OF assms(1,2)]] assms(6) by blast
  from deliver_throws[OF this] buffered_key_copy_throws[OF assms(7,8)] r w show ?thesis by (simp add: write_row_def row_data_construct_def res_map_def)
qed

lemma write_row_keeps:
  assumes "subs_inv s" and "rid < length (ss_rows s)" and "row_inv (ss_rows s ! rid)"
    and "write_row junk rid buffer sz force priority s = Inr (ok, s', calls)" and "data_ok buffer sz"
  shows "subs_inv s' \<and> row_signal s' = row_signal s \<and> length (ss_rows s') = length (ss_rows s) \<and> ss_alive s' = ss_alive s \<and>
         row_inv (ss_rows s' ! rid) \<and> (\<forall>i. r_key (ss_rows s' ! i) = r_key (ss_rows s ! i)) \<and> (\<forall>i. i \<noteq> rid \<longrightarrow> ss_rows s' ! i = ss_rows s ! i)"
proof -
  obtain ok' r ns where w: "row_write_bytes junk (ss_rows s ! rid) buffer sz force priority = Inr (ok', r, ns)"
    and r: "row_inv r" "r_callbacks r = r_callbacks (ss_rows s ! rid)" "r_key r = r_key (ss_rows s ! rid)"
    using row_write_total[OF assms(3,5), of junk force priority] by (auto simp: row_frame_def)
  then have s': "s' = upd_sub_row rid (\<lambda>_. r) s" using assms(4) by (auto simp: write_row_def res_simps)
  with same_callbacks[OF assms(1) r(2) s'] r assms(2) show ?thesis by (simp add: upd_sub_row_def nth_list_update)
qed

lemma row_inv_callbacks: "row_inv r \<Longrightarrow> distinct cs \<Longrightarrow> row_inv (r\<lparr>r_callbacks := cs\<rparr>)"
  by (cases "r_buffer r") (auto simp: row_inv_def row_capacity_def)

lemma row_ops_inv:
  assumes "row_inv r"
  shows "row_inv (snd (row_subscribe_callback c r))" and "row_inv (snd (row_unsubscribe_callback c r))"
proof -
  have "distinct (r_callbacks r)" using assms by (simp add: row_inv_def)
  then show "row_inv (snd (row_subscribe_callback c r))" "row_inv (snd (row_unsubscribe_callback c r))"
    using row_inv_callbacks[OF assms]
    by (simp_all add: row_subscribe_callback_def row_unsubscribe_callback_def add_callback_def remove_callback_def split_beta)
qed

lemma update_row_inv:
  assumes "\<forall>i < length rs. row_inv (rs ! i)" and "rs' = rs \<or> (\<exists>r. (row_inv (rs ! rid) \<longrightarrow> row_inv r) \<and> rs' = rs[rid := r])"
  shows "\<forall>i < length rs'. row_inv (rs' ! i)"
proof (intro allI impI)
  fix i assume "i < length rs'"
  with assms show "row_inv (rs' ! i)" by (cases "i = rid") auto
qed

section \<open>Rows that are destroyed\<close>

definition erased :: "nat \<Rightarrow> ('m, 'f) subs \<Rightarrow> ('m, 'f) subs" where
  "erased rid s =
     (case map_of (ss_callbacks s) rid of
        None \<Rightarrow> s
      | Some e \<Rightarrow> s\<lparr>ss_callbacks := al_remove rid (ss_callbacks s), ss_signals := (ss_signals s)(rc_row_callback e := [])\<rparr>)"

lemma on_disposed_absent: "map_of (ss_callbacks s) rid = None \<Longrightarrow> fold (on_disposed rid) cs s = s"
  by (induction cs) (simp_all add: on_disposed_def)

lemma on_disposed_all:
  "map_of (ss_callbacks s) rid = Some e \<Longrightarrow> rc_disposable e \<in> set cs \<Longrightarrow> fold (on_disposed rid) cs s = erased rid s"
proof (induction cs)
  case (Cons c cs)
  show ?case
  proof (cases "rc_disposable e = c")
    case True
    then have "on_disposed rid c s = erased rid s" using Cons.prems by (simp add: on_disposed_def erased_def)
    moreover have "map_of (ss_callbacks (erased rid s)) rid = None" using Cons.prems by (simp add: erased_def)
    ultimately show ?thesis by (simp add: on_disposed_absent)
  next
    case False
    then show ?thesis using Cons by (simp add: on_disposed_def)
  qed
qed simp

lemma row_disposed_correct:
  assumes "subs_inv s" and "rid < length (ss_rows s)"
  shows "\<exists>s'. row_disposed rid s = Inr s' \<and> subs_inv s' \<and> row_signal s' = (row_signal s)(rid := []) \<and> \<not> ss_alive s' rid \<and>
           length (ss_rows s') = length (ss_rows s) \<and> (\<forall>i < length (ss_rows s). row_inv (ss_rows s ! i) \<longrightarrow> row_inv (ss_rows s' ! i))"
proof -
  note inv = subs_invD[OF assms(1)]
  have fold: "fold (on_disposed rid) (ss_disposables s rid) s = erased rid s"
  proof (cases "map_of (ss_callbacks s) rid")
    case None
    then show ?thesis by (simp add: on_disposed_absent erased_def)
  next
    case (Some e)
    with inv(2)[OF assms(2)] show ?thesis by (intro on_disposed_all[OF Some]) (simp add: row_ok_def)
  qed
  define s' where "s' = upd_sub_row rid (\<lambda>r. r\<lparr>r_callbacks := []\<rparr>)
      ((erased rid s)\<lparr>ss_alive := (ss_alive (erased rid s))(rid := False), ss_disposables := (ss_disposables (erased rid s))(rid := [])\<rparr>)"
  have run: "row_disposed rid s = Inr s'" by (simp add: row_disposed_def raise_callbacks_fold fold s'_def)
  have m: "map_of (ss_callbacks s') = (map_of (ss_callbacks s))(rid := None)"
    by (auto simp: s'_def upd_sub_row_def erased_def fun_upd_idem split: option.splits)
  have f: "ss_next s' = ss_next s" "length (ss_rows s') = length (ss_rows s)" "ss_disposables s' = (ss_disposables s)(rid := [])"
    "ss_rows s' = (ss_rows s)[rid := (ss_rows s ! rid)\<lparr>r_callbacks := []\<rparr>]" "\<not> ss_alive s' rid"
    by (auto simp: s'_def upd_sub_row_def erased_def split: option.splits)
  have sig: "ss_signals s' c = ss_signals s c" if "\<And>e. map_of (ss_callbacks s) rid = Some e \<Longrightarrow> rc_row_callback e \<noteq> c" for c
    using that by (auto simp: s'_def upd_sub_row_def erased_def split: option.splits)
  have "row_ok s' i" if i: "i < length (ss_rows s)" for i
  proof (cases "i = rid")
    case True
    then show ?thesis using assms(2) by (simp add: row_ok_def f m)
  next
    case False
    have same: "ss_signals s' c = ss_signals s c" if "c \<in> set (r_callbacks (ss_rows s ! i))" for c
      using inv(4)[OF _ i False] that by (intro sig) auto
    show ?thesis using inv(2)[OF i] False same by (auto simp: row_ok_def f m split: option.splits)
  qed
  moreover have "set (r_callbacks (ss_rows s' ! i)) \<subseteq> set (r_callbacks (ss_rows s ! i))" for i
    using assms(2) by (cases "i = rid") (simp_all add: f(4))
  then have "callbacks_private s'" using inv(4) by (simp add: callbacks_private_def m f(2)) blast
  moreover have "distinct (map fst (ss_callbacks s'))" "fst ` set (ss_callbacks s') \<subseteq> {..<length (ss_rows s')}"
    using assms(1) distinct_al_remove[OF inv(1)]
    by (auto simp: s'_def upd_sub_row_def erased_def subs_inv_def split: option.splits)
  moreover have "row_signal s' r = ((row_signal s)(rid := [])) r" for r
  proof (cases "r = rid \<or> map_of (ss_callbacks s) r = None")
    case False
    then obtain e where e: "map_of (ss_callbacks s) r = Some e" and "r \<noteq> rid" by auto
    have "rc_row_callback e \<in> set (r_callbacks (ss_rows s ! r))" using inv(2)[OF inv(3)[OF e]] e by (simp add: row_ok_def)
    then have "rc_row_callback e2 \<noteq> rc_row_callback e" if "map_of (ss_callbacks s) rid = Some e2" for e2
      using inv(4)[OF that inv(3)[OF e] \<open>r \<noteq> rid\<close>] by auto
    then have "ss_signals s' (rc_row_callback e) = ss_signals s (rc_row_callback e)" by (rule sig)
    with e \<open>r \<noteq> rid\<close> show ?thesis by (simp add: row_signal_def m)
  qed (auto simp: row_signal_def m)
  moreover have "row_inv (ss_rows s' ! i)" if "i < length (ss_rows s)" "row_inv (ss_rows s ! i)" for i
    using that by (cases "i = rid") (simp_all add: f row_inv_callbacks)
  ultimately show ?thesis using run f by (auto simp: subs_inv_def)
qed

section \<open>The contract\<close>

locale subscription_service =
  fixes inv :: "'s \<Rightarrow> bool"
    and rows :: "'s \<Rightarrow> nat set"
    and view :: "'s \<Rightarrow> nat \<Rightarrow> signal_token \<Rightarrow> 'f option"
    and sub :: "nat \<Rightarrow> 'f \<Rightarrow> 's \<Rightarrow> (subscription_params \<times> 's) result"
    and unsub :: "nat \<Rightarrow> signal_token \<Rightarrow> 's \<Rightarrow> (bool \<times> 's) result"
  assumes sub_law: "inv s \<Longrightarrow> rid \<in> rows s \<Longrightarrow>
      \<exists>p s'. sub rid f s = Inr (p, s') \<and> inv s' \<and> rows s' = rows s \<and>
        ((p = no_params \<and> view s' = view s) \<or>
         (sp_row p = Some rid \<and> 0 \<le> sp_token p \<and> view s rid (sp_token p) = None \<and>
          view s' = (view s)(rid := (view s rid)(sp_token p \<mapsto> f))))"
    and unsub_law: "inv s \<Longrightarrow>
      \<exists>s'. unsub rid token s = Inr (view s rid token \<noteq> None, s') \<and> inv s' \<and> rows s' = rows s \<and>
        view s' = (view s)(rid := (view s rid)(token := None))"
begin

lemma unsub_undoes_sub:
  assumes "inv s" and "rid \<in> rows s" and "sub rid f s = Inr (p, s')" and "p \<noteq> no_params"
  shows "\<exists>s''. unsub rid (sp_token p) s' = Inr (True, s'') \<and> inv s'' \<and> view s'' = view s"
proof -
  from sub_law[OF assms(1,2), of f] assms(3,4) have s': "inv s'" "view s rid (sp_token p) = None"
    "view s' = (view s)(rid := (view s rid)(sp_token p \<mapsto> f))" by auto
  from unsub_law[OF s'(1), of rid "sp_token p"] obtain s'' where
    "unsub rid (sp_token p) s' = Inr (view s' rid (sp_token p) \<noteq> None, s'')" "inv s''"
    "view s'' = (view s')(rid := (view s' rid)(sp_token p := None))" by blast
  with s' show ?thesis by (auto simp: fun_upd_idem)
qed

lemma unsub_twice:
  assumes "inv s" and "unsub rid token s = Inr (ok, s')"
  shows "\<exists>s''. unsub rid token s' = Inr (False, s'') \<and> view s'' = view s'"
proof -
  from unsub_law[OF assms(1), of rid token] assms(2) have s': "inv s'" "view s' rid token = None" by auto
  from unsub_law[OF s'(1), of rid token] s'(2) show ?thesis by (auto simp: fun_upd_idem)
qed

lemma unsub_others:
  "inv s \<Longrightarrow> unsub rid token s = Inr (ok, s') \<Longrightarrow> (rid', token') \<noteq> (rid, token) \<Longrightarrow> view s' rid' token' = view s rid' token'"
  using unsub_law[of s rid token] by auto

end

interpretation svc: subscription_service subs_inv "\<lambda>s. {..<length (ss_rows s)}" subs_view
  "\<lambda>rid f. subscribe (Some rid) (Some f)" "\<lambda>rid. unsubscribe (Some rid)"
proof (unfold_locales, goal_cases)
  case (1 s rid f)
  then show ?case using subscribe_correct[of s rid f] by auto
next
  case (2 s rid token)
  then show ?case using unsubscribe_correct[of s rid token] by auto
qed

text \<open>The subscriptions a collector holds: those of rows that are alive.\<close>

definition held :: "subscription_params list \<Rightarrow> ('m, 'f) subs \<Rightarrow> (nat \<times> signal_token) set" where
  "held tokens s = {(rid, t). \<exists>p \<in> set tokens. params_query p s = Some (rid, t)}"

lemma auto_token_unregister_correct:
  assumes "subs_inv s"
  shows "\<exists>p' s'. auto_token_unregister p s = Inr (p', s') \<and> subs_inv s' \<and> ss_alive s' = ss_alive s \<and>
           subs_view s' = (\<lambda>rid t. if params_query p s = Some (rid, t) then None else subs_view s rid t)"
proof (cases "params_query p s")
  case None
  with assms show ?thesis by (simp add: auto_token_unregister_def)
next
  case (Some q)
  obtain rid t where q: "q = (rid, t)" by (cases q)
  from unsubscribe_correct[OF assms, of rid t] obtain s' where
    "unsubscribe (Some rid) t s = Inr (subs_view s rid t \<noteq> None, s')" "subs_inv s'" "ss_alive s' = ss_alive s"
    "subs_view s' = (subs_view s)(rid := (subs_view s rid)(t := None))" by blast
  with Some q show ?thesis by (auto simp: auto_token_unregister_def fun_eq_iff)
qed

lemma collector_clear_correct:
  assumes "subs_inv s"
  shows "\<exists>s'. collector_clear tokens s = Inr ([], s') \<and> subs_inv s' \<and>
           subs_view s' = (\<lambda>rid t. if (rid, t) \<in> held tokens s then None else subs_view s rid t)"
  using assms
proof (induction tokens arbitrary: s)
  case (Cons p tokens)
  from auto_token_unregister_correct[OF Cons.prems, of p] obtain p' s1 where
    1: "auto_token_unregister p s = Inr (p', s1)" "subs_inv s1" "ss_alive s1 = ss_alive s"
    "subs_view s1 = (\<lambda>rid t. if params_query p s = Some (rid, t) then None else subs_view s rid t)" by blast
  have "params_query q s1 = params_query q s" for q using 1(3) by (simp add: params_query_def split: option.split)
  then have "held tokens s1 = held tokens s" by (simp add: held_def)
  moreover have "(rid, t) \<in> held (p # tokens) s \<longleftrightarrow> params_query p s = Some (rid, t) \<or> (rid, t) \<in> held tokens s" for rid t
    by (simp add: held_def)
  ultimately show ?case using Cons.IH[OF 1(2)] 1 by (auto simp: fun_eq_iff)
qed (simp add: held_def)

section \<open>Runs\<close>

definition subs_start :: "('m, 'f) subs \<Rightarrow> bool" where
  "subs_start s \<longleftrightarrow>
     ss_callbacks s = [] \<and> ss_signals s = (\<lambda>_. []) \<and>
     (\<forall>rid < length (ss_rows s). row_inv (ss_rows s ! rid) \<and> distinct (r_callbacks (ss_rows s ! rid)) \<and>
        (\<forall>c \<in> set (r_callbacks (ss_rows s ! rid)). c < ss_next s) \<and>
        distinct (ss_disposables s rid) \<and> (\<forall>c \<in> set (ss_disposables s rid). c < ss_next s))"

inductive subs_reach :: "('m, 'f) subs \<Rightarrow> ('m, 'f) subs \<Rightarrow> bool" for s0 where
  subs_begin: "subs_start s0 \<Longrightarrow> subs_reach s0 s0"
| subs_subscribe: "subs_reach s0 s \<Longrightarrow> rid < length (ss_rows s) \<Longrightarrow> subscribe (Some rid) func s = Inr (p, s') \<Longrightarrow> subs_reach s0 s'"
| subs_unsubscribe: "subs_reach s0 s \<Longrightarrow> unsubscribe (Some rid) token s = Inr (ok, s') \<Longrightarrow> subs_reach s0 s'"
| subs_write: "subs_reach s0 s \<Longrightarrow> rid < length (ss_rows s) \<Longrightarrow> data_ok buffer sz \<Longrightarrow>
    write_row junk rid buffer sz force priority s = Inr (ok, s', calls) \<Longrightarrow> subs_reach s0 s'"
| subs_dispose: "subs_reach s0 s \<Longrightarrow> rid < length (ss_rows s) \<Longrightarrow> row_disposed rid s = Inr s' \<Longrightarrow> subs_reach s0 s'"

lemma subscribe_rows:
  "subscribe (Some rid) func s = Inr (p, s') \<Longrightarrow>
     ss_rows s' = ss_rows s \<or> (\<exists>c. ss_rows s' = (ss_rows s)[rid := snd (row_subscribe_callback c (ss_rows s ! rid))])"
  by (auto simp: subscribe_def attach_row_def upd_sub_row_def register_disposable_def Let_def split_beta res_simps split: option.splits if_splits)

lemma unsubscribe_rows:
  "unsubscribe (Some rid) token s = Inr (ok, s') \<Longrightarrow>
     ss_rows s' = ss_rows s \<or> (\<exists>c. ss_rows s' = (ss_rows s)[rid := snd (row_unsubscribe_callback c (ss_rows s ! rid))])"
  by (auto simp: unsubscribe_def detach_row_def upd_sub_row_def unregister_disposable_def Let_def split_beta res_simps split: option.splits if_splits)

lemma subscribe_row_inv:
  assumes "subscribe (Some rid) func s = Inr (p, s')" and "\<forall>i < length (ss_rows s). row_inv (ss_rows s ! i)"
  shows "\<forall>i < length (ss_rows s'). row_inv (ss_rows s' ! i)"
  using subscribe_rows[OF assms(1)] row_ops_inv by (intro update_row_inv[OF assms(2)]) blast

lemma unsubscribe_row_inv:
  assumes "unsubscribe (Some rid) token s = Inr (ok, s')" and "\<forall>i < length (ss_rows s). row_inv (ss_rows s ! i)"
  shows "\<forall>i < length (ss_rows s'). row_inv (ss_rows s' ! i)"
  using unsubscribe_rows[OF assms(1)] row_ops_inv by (intro update_row_inv[OF assms(2)]) blast

text \<open>Keys stay, and so does it that a row can tell its subscribers.\<close>

lemma callback_ops_key [simp]:
  "r_key (snd (row_subscribe_callback c r)) = r_key r" "r_key (snd (row_unsubscribe_callback c r)) = r_key r"
  by (simp_all add: row_subscribe_callback_def row_unsubscribe_callback_def split_beta)

lemma updated_key: "r_key r = r_key (rs ! rid) \<Longrightarrow> r_key (rs[rid := r] ! i) = r_key (rs ! i)"
  by (cases "rid < length rs"; cases "i = rid") (simp_all add: list_update_beyond)

lemma row_signal_empty: "row_signal s rid = [] \<longleftrightarrow> (\<forall>t. subs_view s rid t = None)"
proof -
  have "map_of xs = Map.empty \<longleftrightarrow> xs = []" for xs :: "(signal_token \<times> 'b) list" by (cases xs) auto
  then show ?thesis by (simp add: subs_view_def fun_eq_iff[symmetric])
qed

lemma row_tellsI:
  assumes "row_tells s i" and "r_key (ss_rows s' ! i) = r_key (ss_rows s ! i)"
    and "(\<And>t. subs_view s i t = None) \<Longrightarrow> (\<And>t. subs_view s' i t = None)"
  shows "row_tells s' i"
  using assms by (auto simp: row_tells_def row_signal_empty)

lemma unsubscribe_tells:
  assumes "subs_inv s" and "unsubscribe (Some rid) token s = Inr (ok, s')"
  shows "length (ss_rows s') = length (ss_rows s) \<and> (row_tells s i \<longrightarrow> row_tells s' i)"
proof -
  have "r_key (ss_rows s' ! i) = r_key (ss_rows s ! i)" using unsubscribe_rows[OF assms(2)] by (auto simp: updated_key)
  moreover from unsubscribe_correct[OF assms(1), of rid token] assms(2) have "length (ss_rows s') = length (ss_rows s)"
    "subs_view s' = (subs_view s)(rid := (subs_view s rid)(token := None))" by auto
  moreover from this(2) have "subs_view s' i t = None" if "subs_view s i t = None" for t using that by auto
  ultimately show ?thesis using row_tellsI[of s i s'] by blast
qed

lemma subscribe_tells:
  assumes "subs_inv s" and "rid < length (ss_rows s)" and "subscribe (Some rid) (Some f) s = Inr (p, s')"
    and "key_buffered (r_key (ss_rows s ! rid))"
  shows "length (ss_rows s') = length (ss_rows s) \<and> (row_tells s i \<longrightarrow> row_tells s' i)"
proof -
  have k: "r_key (ss_rows s' ! i) = r_key (ss_rows s ! i)" using subscribe_rows[OF assms(3)] by (auto simp: updated_key)
  from subscribe_correct[OF assms(1,2), of f] assms(3) have s': "length (ss_rows s') = length (ss_rows s)"
    "i \<noteq> rid \<Longrightarrow> subs_view s' i = subs_view s i" by auto
  show ?thesis
  proof (cases "i = rid")
    case True
    with k assms(4) s'(1) show ?thesis by (simp add: row_tells_def)
  next
    case False
    with k s' row_tellsI[of s i s'] show ?thesis by auto
  qed
qed

lemma subs_reach_inv: "subs_reach s0 s \<Longrightarrow> subs_inv s \<and> (\<forall>i < length (ss_rows s). row_inv (ss_rows s ! i))"
proof (induction rule: subs_reach.induct)
  case subs_begin
  then show ?case by (auto simp: subs_start_def subs_inv_def row_ok_def callbacks_private_def)
next
  case (subs_subscribe s rid func p s')
  then obtain f where f: "func = Some f" by (cases func) (auto simp: subscribe_def)
  from subs_subscribe subscribe_correct[of s rid f] subscribe_row_inv[OF subs_subscribe.hyps(3)] f show ?case by auto
next
  case (subs_unsubscribe s rid token ok s')
  with unsubscribe_correct[of s rid token] unsubscribe_row_inv[OF subs_unsubscribe.hyps(2)] show ?case by auto
next
  case (subs_write s rid buffer sz junk force priority ok s' calls)
  then have w: "subs_inv s'" "length (ss_rows s') = length (ss_rows s)" "row_inv (ss_rows s' ! rid)"
    "\<forall>i. i \<noteq> rid \<longrightarrow> ss_rows s' ! i = ss_rows s ! i"
    using write_row_keeps[of s rid junk buffer sz force priority ok s' calls] by auto
  with subs_write.IH show ?case by (metis)
next
  case (subs_dispose s rid s')
  with row_disposed_correct[of s rid] show ?case by auto
qed

section \<open>Properties\<close>


definition example_subs :: "(nat, nat) subs" where
  "example_subs =
     \<lparr>ss_rows = [sample_row 4], ss_disposables = (\<lambda>_. []), ss_alive = (\<lambda>_. True), ss_signals = (\<lambda>_. []), ss_callbacks = [], ss_next = 0\<rparr>"

lemma sample_key_buffered: "key_buffered sample_key" "r_key (sample_row n) = sample_key"
  by (simp_all add: sample_key_def key_buffered_def key_undefined_def MAX_KEY_SIZE_def sample_row_def memory_row_impl_def)

lemma example_subs_inv: "subs_start example_subs" "subs_inv example_subs"
proof -
  show "subs_start example_subs" by (simp add: subs_start_def example_subs_def sample_row_simps)
  then show "subs_inv example_subs" using subs_reach_inv[OF subs_begin] by blast
qed

lemma example_subscribed:
  "subscribe (Some 0) (Some f) example_subs = Inr (\<lparr>sp_row = Some 0, sp_token = 0\<rparr>, with_entry 0 [(0, f)] example_subs)"
  using subscribe_correct[OF example_subs_inv(2), of 0 f] by (auto simp: example_subs_def)

lemma example_entry:
  shows "length (ss_rows (with_entry 0 [(0, f)] example_subs)) = 1"
    and "row_signal (with_entry 0 [(0, f)] example_subs) 0 = [(0, f)]"
    and "row_value (ss_rows (with_entry 0 [(0, f)] example_subs) ! 0) = []"
    and "row_accepts (ss_rows (with_entry 0 [(0, f)] example_subs) ! 0) (Some [1, 2, 3]) 2 0"
proof -
  have row: "ss_rows (with_entry 0 [(0, f)] example_subs) ! 0 = (sample_row 4)\<lparr>r_callbacks := [Suc 0]\<rparr>"
    by (simp add: with_entry_def example_subs_def row_subscribe_callback_def add_callback_def sample_row_simps)
  show "length (ss_rows (with_entry 0 [(0, f)] example_subs)) = 1" by (simp add: with_entry_def example_subs_def)
  show "row_signal (with_entry 0 [(0, f)] example_subs) 0 = [(0, f)]" by (simp add: row_signal_def with_entry_def example_subs_def)
  show "row_value (ss_rows (with_entry 0 [(0, f)] example_subs) ! 0) = []"
    unfolding row using sample_row_simps(2)[of 4] by (simp add: row_value_def split: option.splits)
  show "row_accepts (ss_rows (with_entry 0 [(0, f)] example_subs) ! 0) (Some [1, 2, 3]) 2 0"
    unfolding row using sample_row_simps(4)[of 4 "[1, 2, 3]" 2 0] by (simp add: row_accepts_def is_empty_type_def)
qed


lemma unsubscribe_undoes_subscribe:
  assumes "subs_inv s" and "rid < length (ss_rows s)" and "subscribe (Some rid) (Some f) s = Inr (p, s')" and "p \<noteq> no_params"
  shows "\<exists>s''. unsubscribe (Some rid) (sp_token p) s' = Inr (True, s'') \<and> subs_view s'' = subs_view s \<and>
           (map_of (ss_callbacks s) rid = None \<longrightarrow>
              ss_rows s'' = ss_rows s \<and> ss_disposables s'' = ss_disposables s \<and> ss_callbacks s'' = ss_callbacks s)"
proof -
  from subscribe_correct[OF assms(1,2), of f] assms(3) have inv: "subs_inv s'"
    and first: "map_of (ss_callbacks s) rid = None \<Longrightarrow> p = \<lparr>sp_row = Some rid, sp_token = 0\<rparr> \<and> s' = with_entry rid [(0, f)] s"
    by auto
  from svc.unsub_undoes_sub[OF assms(1) _ assms(3,4)] assms(2) obtain s'' where
    un: "unsubscribe (Some rid) (sp_token p) s' = Inr (True, s'')" "subs_view s'' = subs_view s" by auto
  have "ss_rows s'' = ss_rows s \<and> ss_disposables s'' = ss_disposables s \<and> ss_callbacks s'' = ss_callbacks s"
    if none: "map_of (ss_callbacks s) rid = None"
  proof -
    let ?e = "\<lparr>rc_disposable = ss_next s, rc_row_callback = ss_next s + 1\<rparr>"
    have e: "map_of (ss_callbacks s') rid = Some ?e" "ss_signals s' (rc_row_callback ?e) = [(sp_token p, f)]"
      using first[OF none] none by (auto simp: with_entry_def map_add_def)
    with unsubscribe_correct[OF inv, of rid "sp_token p"] un(1) have "s'' = without_entry rid ?e s'" by auto
    with without_with_entry[OF assms(1,2) none] first[OF none] show ?thesis by simp
  qed
  with un show ?thesis by (intro exI[of _ s''] conjI impI) simp_all
qed

text \<open>C15. A subscription is an entry of a map. In every reachable state subscribing yields a token that is free for the row and
  adds exactly that entry (or, with all tokens in use, the empty parameters and no change); unsubscribing reports whether the
  entry was there and removes exactly it. The first subscription to a row, taken back, leaves the row, its handlers and the
  map as they were.\<close>

theorem subscriptions_are_a_map:
  assumes "subs_reach s0 s" and "rid < length (ss_rows s)"
  shows "(\<exists>p s'. subscribe (Some rid) (Some f) s = Inr (p, s') \<and>
            ((p = no_params \<and> subs_view s' = subs_view s) \<or>
             (sp_row p = Some rid \<and> 0 \<le> sp_token p \<and> subs_view s rid (sp_token p) = None \<and>
              subs_view s' = (subs_view s)(rid := (subs_view s rid)(sp_token p \<mapsto> f)) \<and>
              (\<exists>s''. unsubscribe (Some rid) (sp_token p) s' = Inr (True, s'') \<and> subs_view s'' = subs_view s \<and>
                 (map_of (ss_callbacks s) rid = None \<longrightarrow>
                    ss_rows s'' = ss_rows s \<and> ss_disposables s'' = ss_disposables s \<and> ss_callbacks s'' = ss_callbacks s))))) \<and>
         (\<exists>s'. unsubscribe (Some rid) token s = Inr (subs_view s rid token \<noteq> None, s') \<and>
            subs_view s' = (subs_view s)(rid := (subs_view s rid)(token := None)))"
    (is "(\<exists>p s'. _ p s' \<and> (?full p s' \<or> ?added p s')) \<and> ?un")
proof
  from subs_reach_inv[OF assms(1)] have inv: "subs_inv s" by blast
  from subscribe_correct[OF inv assms(2), of f] obtain p s' where sub: "subscribe (Some rid) (Some f) s = Inr (p, s')"
    and c: "?full p s' \<or> (sp_row p = Some rid \<and> 0 \<le> sp_token p \<and> subs_view s rid (sp_token p) = None \<and>
         subs_view s' = (subs_view s)(rid := (subs_view s rid)(sp_token p \<mapsto> f)))" by (elim exE conjE) (rule that)
  from c have "?full p s' \<or> ?added p s'"
  proof
    assume some: "sp_row p = Some rid \<and> 0 \<le> sp_token p \<and> subs_view s rid (sp_token p) = None \<and>
         subs_view s' = (subs_view s)(rid := (subs_view s rid)(sp_token p \<mapsto> f))"
    then have "p \<noteq> no_params" by (auto simp: no_params_def)
    from unsubscribe_undoes_subscribe[OF inv assms(2) sub this] some show ?thesis by (intro disjI2 conjI) simp_all
  qed (rule disjI1)
  with sub show "\<exists>p s'. subscribe (Some rid) (Some f) s = Inr (p, s') \<and> (?full p s' \<or> ?added p s')"
    by (intro exI[of _ p] exI[of _ s'] conjI)
  from unsubscribe_correct[OF inv, of rid token] show ?un by (elim exE conjE) (intro exI conjI)
qed

theorem subscriptions_are_a_map_witness:
  "\<exists>s''. unsubscribe (Some 0) 0 (with_entry 0 [(0, 7)] example_subs) = Inr (True, s'') \<and> ss_rows s'' = [sample_row 4]"
proof -
  have r: "subs_reach example_subs example_subs" by (rule subs_begin[OF example_subs_inv(1)])
  have n: "map_of (ss_callbacks example_subs) 0 = None" "ss_rows example_subs = [sample_row 4]" by (simp_all add: example_subs_def)
  from subscriptions_are_a_map[OF r, of 0 7 0] show ?thesis by (auto simp: example_subscribed n no_params_def)
qed

text \<open>Clearing a collector ends exactly the subscriptions whose tokens it holds: afterwards no token of a living row in the
  collector is subscribed, and every other subscription is as before.\<close>

theorem collector_clear_ends_subscriptions:
  assumes "subs_reach s0 s"
  shows "\<exists>s'. collector_clear tokens s = Inr ([], s') \<and>
           (\<forall>rid t. subs_view s' rid t = (if (rid, t) \<in> held tokens s then None else subs_view s rid t))"
proof -
  from subs_reach_inv[OF assms] have "subs_inv s" by blast
  from collector_clear_correct[OF this, of tokens] show ?thesis by auto
qed

theorem collector_clear_ends_subscriptions_witness:
  "\<exists>s'. collector_clear [\<lparr>sp_row = Some 0, sp_token = 0\<rparr>] (with_entry 0 [(0, 7)] example_subs) = Inr ([], s') \<and> subs_view s' 0 0 = None"
proof -
  have r: "subs_reach example_subs (with_entry 0 [(0, 7)] example_subs)"
    using subs_subscribe[OF subs_begin[OF example_subs_inv(1)] _ example_subscribed] by (simp add: example_subs_def)
  from collector_clear_ends_subscriptions[OF r, of "[\<lparr>sp_row = Some 0, sp_token = 0\<rparr>]"] show ?thesis
    by (auto simp: held_def params_query_def with_entry_def example_subs_def signal_token_undefined_def)
qed

text \<open>A row that is destroyed takes its subscriptions with it, and a token for it does nothing afterwards.\<close>

theorem destroyed_row_is_forgotten:
  assumes "subs_reach s0 s" and "rid < length (ss_rows s)"
  shows "\<exists>s'. row_disposed rid s = Inr s' \<and> (\<forall>t. subs_view s' rid t = None) \<and>
           (\<forall>rid' t. rid' \<noteq> rid \<longrightarrow> subs_view s' rid' t = subs_view s rid' t) \<and>
           (\<forall>t. unsubscribe_params \<lparr>sp_row = Some rid, sp_token = t\<rparr> s' = Inr (False, s') \<and>
                auto_token_unregister \<lparr>sp_row = Some rid, sp_token = t\<rparr> s' = Inr (\<lparr>sp_row = Some rid, sp_token = t\<rparr>, s'))"
proof -
  from subs_reach_inv[OF assms(1)] have "subs_inv s" by blast
  from row_disposed_correct[OF this assms(2)] obtain s' where
    "row_disposed rid s = Inr s'" "row_signal s' = (row_signal s)(rid := [])" "\<not> ss_alive s' rid" by blast
  then show ?thesis
    by (auto simp: subs_view_def unsubscribe_params_def auto_token_unregister_def params_query_def)
qed

theorem destroyed_row_is_forgotten_witness:
  "\<exists>s'. row_disposed 0 (with_entry 0 [(0, 7)] example_subs) = Inr s' \<and> subs_view s' 0 0 = None"
proof -
  have r: "subs_reach example_subs (with_entry 0 [(0, 7)] example_subs)"
    using subs_subscribe[OF subs_begin[OF example_subs_inv(1)] _ example_subscribed] by (simp add: example_subs_def)
  from destroyed_row_is_forgotten[OF r, of 0] show ?thesis by (auto simp: with_entry_def example_subs_def)
qed

end
