(* ===== verification/Database_Dispatcher.thy ===== *)
theory Database_Dispatcher
  imports Subscriptions Object_Pool
begin

text \<open>
  The database dispatcher (\<^verbatim>\<open>database_dispatcher_base\<close> in \<^verbatim>\<open>Include/utils/database.hpp\<close>): clients subscribe
  functions to rows and get the changes in the thread of the dispatcher.

  A subscription makes a registration wrapper with a pool of row data objects and a pool of actions. A write to a row
  calls the wrapper in the thread of the writer; the wrapper copies the bytes to an object of its data pool, takes an
  action (of its pool, or a new one when the pool is exhausted), and queues it. The worker performs the actions in
  order, hands the copy to the function and releases the objects, which return to their pools. The queue of the context
  is a list here; that a context takes its actions in order is the subject of \<^verbatim>\<open>Dispatcher\<close>. The function of the
  subscriptions object is the number of the wrapper. A wrapper that nobody refers to any more stays in the list.

  Rows and their subscriptions are those of \<^verbatim>\<open>Subscriptions\<close>, pools those of \<^verbatim>\<open>Object_Pool\<close>.
\<close>

section \<open>State\<close>

definition BUFFER_POOL_BASE_SIZE :: nat where
  "BUFFER_POOL_BASE_SIZE = 256"

definition ACTIONS_POOL_BASE_SIZE :: nat where
  "ACTIONS_POOL_BASE_SIZE = 64"

record row_data_object =
  rd_size :: size_t
  rd_buffer :: bytes

record 'f data_action =
  da_data :: "nat option"
  da_func :: "'f option"

record 'f registration_wrapper =
  rw_row :: nat
  rw_data_size :: size_t
  rw_func :: 'f
  rw_data_pool :: object_pool
  rw_data :: "row_data_object rc_heap"
  rw_actions_pool :: object_pool
  rw_actions :: "'f data_action rc_heap"

text \<open>An action of the pool of its wrapper or one made for this change; or a call of \<^verbatim>\<open>unsubscribe\<close> that waits for the
  worker.\<close>

datatype 'f action_ref = Pooled nat | Made "'f data_action"

datatype 'f queued = Data_item nat "'f action_ref" | Unsubscribe_item nat signal_token

record ('m, 'f) database_dispatcher =
  dd_subs :: "('m, nat) subs"
  dd_wrappers :: "'f registration_wrapper list"
  dd_queue :: "'f queued list"
  dd_running :: bool

type_synonym 'f call = "'f \<times> nat \<times> size_t \<times> bytes"

section \<open>Row data and actions\<close>

definition row_data_create :: "nat \<Rightarrow> row_data_object" where
  "row_data_create max_data_size = \<lparr>rd_size = 0, rd_buffer = replicate max_data_size 0\<rparr>"

definition row_data_update :: "size_t \<Rightarrow> bytes option \<Rightarrow> row_data_object \<Rightarrow> row_data_object result" where
  "row_data_update sz buffer d =
     (let n = unat sz;
          m_buffer = (if n > length (rd_buffer d) then rd_buffer d @ replicate (n - length (rd_buffer d)) 0 else rd_buffer d)
      in res_bind (case buffer of None \<Rightarrow> if n = 0 then Inr [] else Inl Undefined | Some bs \<Rightarrow> mem_read bs 0 n) (\<lambda>bs.
           res_map (\<lambda>m_buffer. \<lparr>rd_size = sz, rd_buffer = m_buffer\<rparr>) (mem_write m_buffer 0 bs)))"

definition action_create :: "'f data_action" where
  "action_create = \<lparr>da_data = None, da_func = None\<rparr>"

definition action_set_data :: "'f \<Rightarrow> nat \<Rightarrow> 'f data_action \<Rightarrow> 'f data_action" where
  "action_set_data func data a = a\<lparr>da_data := Some data, da_func := Some func\<rparr>"

section \<open>Registration wrappers\<close>

definition data_factory :: "size_t \<Rightarrow> row_data_object factory" where
  "data_factory data_size = make_object False (row_data_create (if data_size = UNBOUNDED_ROW_SIZE then 0 else unat data_size))"

definition action_factory :: "'f data_action factory" where
  "action_factory = make_object False action_create"

text \<open>The constructor. It copies the key of the row, which throws for a key that is empty or too long; the key of a row never
  changes, so that the later copies (in the row data of the pool and in the worker) do not throw.\<close>

definition new_wrapper :: "nat \<Rightarrow> size_t \<Rightarrow> 'f \<Rightarrow> 'f registration_wrapper" where
  "new_wrapper row data_size func =
     (let (dp, dh) = object_pool_create (data_factory data_size) BUFFER_POOL_BASE_SIZE growing_doubling False [];
          (ap, ah) = object_pool_create action_factory ACTIONS_POOL_BASE_SIZE growing_none False []
      in \<lparr>rw_row = row, rw_data_size = data_size, rw_func = func, rw_data_pool = dp, rw_data = dh,
          rw_actions_pool = ap, rw_actions = ah\<rparr>)"

definition registration_wrapper_create :: "'m row \<Rightarrow> nat \<Rightarrow> size_t \<Rightarrow> 'f \<Rightarrow> 'f registration_wrapper result" where
  "registration_wrapper_create r row data_size func = res_map (\<lambda>_. new_wrapper row data_size func) (row_data_construct r)"

definition set_content :: "nat \<Rightarrow> 'a \<Rightarrow> 'a rc_heap \<Rightarrow> 'a rc_heap" where
  "set_content i x h = h[i := (fst (h ! i), x)]"

text \<open>The first half of \<^verbatim>\<open>invoke\<close>: a row data object with a copy of the bytes. The pointer of the caller is taken over by
  the action.\<close>

definition take_data :: "size_t \<Rightarrow> bytes option \<Rightarrow> 'f registration_wrapper \<Rightarrow> (nat \<times> 'f registration_wrapper) result" where
  "take_data sz buffer w =
     res_bind (get_item (data_factory (rw_data_size w)) (rw_data_pool w) (rw_data w)) (\<lambda>(item, p, h).
       case item of
         None \<Rightarrow> Inl (Throws (Runtime_error ''Unexpected getting object from pool. Out of memory?''))
       | Some d \<Rightarrow> res_map (\<lambda>x. (d, w\<lparr>rw_data_pool := p, rw_data := set_content d x h\<rparr>)) (row_data_update sz buffer (snd (h ! d))))"

text \<open>The second half: an action with the function and the data.\<close>

definition take_action :: "nat \<Rightarrow> 'f registration_wrapper \<Rightarrow> ('f action_ref \<times> 'f registration_wrapper) result" where
  "take_action d w =
     res_map (\<lambda>(item, p, h).
       case item of
         None \<Rightarrow> (Made (action_set_data (rw_func w) d action_create), w\<lparr>rw_actions_pool := p, rw_actions := h\<rparr>)
       | Some i \<Rightarrow> (Pooled i, w\<lparr>rw_actions_pool := p, rw_actions := set_content i (action_set_data (rw_func w) d (snd (h ! i))) h\<rparr>))
       (get_item action_factory (rw_actions_pool w) (rw_actions w))"

definition dd_enqueue :: "'f queued \<Rightarrow> ('m, 'f) database_dispatcher \<Rightarrow> ('m, 'f) database_dispatcher result" where
  "dd_enqueue q s =
     (if \<not> dd_running s then Inl (Throws (Logic_error ''Context disposed'')) else Inr (s\<lparr>dd_queue := dd_queue s @ [q]\<rparr>))"

definition wrapper_invoke :: "nat \<Rightarrow> size_t \<Rightarrow> bytes option \<Rightarrow> ('m, 'f) database_dispatcher \<Rightarrow> ('m, 'f) database_dispatcher result" where
  "wrapper_invoke wid sz buffer s =
     res_bind (take_data sz buffer (dd_wrappers s ! wid)) (\<lambda>(d, w1).
       res_bind (take_action d w1) (\<lambda>(a, w2).
         dd_enqueue (Data_item wid a) (s\<lparr>dd_wrappers := (dd_wrappers s)[wid := w2]\<rparr>)))"

fun invoke_all :: "(nat \<times> size_t \<times> bytes option) list \<Rightarrow> ('m, 'f) database_dispatcher \<Rightarrow> ('m, 'f) database_dispatcher result" where
  "invoke_all [] s = Inr s"
| "invoke_all ((wid, sz, buffer) # calls) s = res_bind (wrapper_invoke wid sz buffer s) (invoke_all calls)"

section \<open>Clients\<close>

definition dd_subscribe ::
  "nat option \<Rightarrow> 'f \<Rightarrow> ('m, 'f) database_dispatcher \<Rightarrow> (subscription_params \<times> ('m, 'f) database_dispatcher) result" where
  "dd_subscribe row func s =
     (case row of
        None \<Rightarrow> Inr (no_params, s)
      | Some rid \<Rightarrow>
          res_bind (registration_wrapper_create (ss_rows (dd_subs s) ! rid) rid (row_data_size (ss_rows (dd_subs s) ! rid)) func) (\<lambda>wrapper.
            res_map (\<lambda>(p, subs). (p, s\<lparr>dd_subs := subs, dd_wrappers := dd_wrappers s @ [wrapper]\<rparr>))
              (subscribe (Some rid) (Some (length (dd_wrappers s))) (dd_subs s))))"

text \<open>By keys: \<open>query_row\<close> and \<open>query_table\<close> are the methods of the table and the dataset.\<close>

definition dd_subscribe_in_table ::
  "('k \<Rightarrow> nat option) option \<Rightarrow> 'k \<Rightarrow> 'f \<Rightarrow> ('m, 'f) database_dispatcher \<Rightarrow> (subscription_params \<times> ('m, 'f) database_dispatcher) result" where
  "dd_subscribe_in_table table row_key func s =
     (case table of
        None \<Rightarrow> Inr (no_params, s)
      | Some query_row \<Rightarrow> (case query_row row_key of None \<Rightarrow> Inr (no_params, s) | Some rid \<Rightarrow> dd_subscribe (Some rid) func s))"

definition dd_subscribe_in_dataset ::
  "('k \<Rightarrow> ('k \<Rightarrow> nat option) option) option \<Rightarrow> 'k \<Rightarrow> 'k \<Rightarrow> 'f \<Rightarrow> ('m, 'f) database_dispatcher \<Rightarrow>
   (subscription_params \<times> ('m, 'f) database_dispatcher) result" where
  "dd_subscribe_in_dataset dataset table_key row_key func s =
     (case dataset of
        None \<Rightarrow> Inr (no_params, s)
      | Some query_table \<Rightarrow>
          (case query_table table_key of None \<Rightarrow> Inr (no_params, s) | Some table \<Rightarrow> dd_subscribe_in_table (Some table) row_key func s))"

text \<open>\<^verbatim>\<open>unsubscribe\<close> runs in the thread of the dispatcher: at once when it is called there, otherwise it is queued and the
  caller waits (no result yet).\<close>

definition dd_unsubscribe ::
  "bool \<Rightarrow> nat option \<Rightarrow> signal_token \<Rightarrow> ('m, 'f) database_dispatcher \<Rightarrow> (bool option \<times> ('m, 'f) database_dispatcher) result" where
  "dd_unsubscribe invoke_required row token s =
     (case row of
        None \<Rightarrow> Inr (Some False, s)
      | Some rid \<Rightarrow>
          if invoke_required then res_map (Pair None) (dd_enqueue (Unsubscribe_item rid token) s)
          else res_map (\<lambda>(ok, subs). (Some ok, s\<lparr>dd_subs := subs\<rparr>)) (unsubscribe (Some rid) token (dd_subs s)))"

definition dd_unsubscribe_in_table ::
  "bool \<Rightarrow> ('k \<Rightarrow> nat option) option \<Rightarrow> 'k \<Rightarrow> signal_token \<Rightarrow> ('m, 'f) database_dispatcher \<Rightarrow> (bool option \<times> ('m, 'f) database_dispatcher) result" where
  "dd_unsubscribe_in_table invoke_required table row_key token s =
     (case table of
        None \<Rightarrow> Inr (Some False, s)
      | Some query_row \<Rightarrow>
          (case query_row row_key of None \<Rightarrow> Inr (Some False, s) | Some rid \<Rightarrow> dd_unsubscribe invoke_required (Some rid) token s))"

definition dd_unsubscribe_in_dataset ::
  "bool \<Rightarrow> ('k \<Rightarrow> ('k \<Rightarrow> nat option) option) option \<Rightarrow> 'k \<Rightarrow> 'k \<Rightarrow> signal_token \<Rightarrow> ('m, 'f) database_dispatcher \<Rightarrow>
   (bool option \<times> ('m, 'f) database_dispatcher) result" where
  "dd_unsubscribe_in_dataset invoke_required dataset table_key row_key token s =
     (case dataset of
        None \<Rightarrow> Inr (Some False, s)
      | Some query_table \<Rightarrow>
          (case query_table table_key of
             None \<Rightarrow> Inr (Some False, s)
           | Some table \<Rightarrow> dd_unsubscribe_in_table invoke_required (Some table) row_key token s))"

text \<open>A write to a row of the database, in the thread of the writer.\<close>

definition dd_write ::
  "(nat \<Rightarrow> byte) \<Rightarrow> nat \<Rightarrow> bytes option \<Rightarrow> size_t \<Rightarrow> bool \<Rightarrow> byte \<Rightarrow> ('m, 'f) database_dispatcher \<Rightarrow>
   (bool \<times> ('m, 'f) database_dispatcher) result" where
  "dd_write junk rid buffer sz force_report priority s =
     res_bind (write_row junk rid buffer sz force_report priority (dd_subs s)) (\<lambda>(ok, subs, calls).
       res_map (Pair ok) (invoke_all calls (s\<lparr>dd_subs := subs\<rparr>)))"

section \<open>Tables\<close>

text \<open>\<^verbatim>\<open>subscribe_table\<close>: a map from the rows of the table to their wrappers. A change looks its row up, makes a wrapper if there
  is none, and invokes it. The new wrapper is not entered in the map.\<close>

record 'f table_registration =
  tr_wrappers :: "(nat \<times> nat) list"
  tr_func :: 'f

definition table_registration_create :: "'f \<Rightarrow> 'f table_registration" where
  "table_registration_create func = \<lparr>tr_wrappers = [], tr_func = func\<rparr>"

definition table_clear_row :: "nat \<Rightarrow> 'f table_registration \<Rightarrow> 'f table_registration" where
  "table_clear_row rid tr = tr\<lparr>tr_wrappers := al_remove rid (tr_wrappers tr)\<rparr>"

definition table_clear :: "'f table_registration \<Rightarrow> 'f table_registration" where
  "table_clear tr = tr\<lparr>tr_wrappers := []\<rparr>"

definition query_registration_wrapper ::
  "'f table_registration \<Rightarrow> nat \<Rightarrow> size_t \<Rightarrow> ('m, 'f) database_dispatcher \<Rightarrow> (nat \<times> ('m, 'f) database_dispatcher) result" where
  "query_registration_wrapper tr rid data_size s =
     (case map_of (tr_wrappers tr) rid of
        None \<Rightarrow>
          res_map (\<lambda>w. (length (dd_wrappers s), s\<lparr>dd_wrappers := dd_wrappers s @ [w]\<rparr>))
            (registration_wrapper_create (ss_rows (dd_subs s) ! rid) rid data_size (tr_func tr))
      | Some wid \<Rightarrow> Inr (wid, s))"

definition table_changed ::
  "'f table_registration \<Rightarrow> nat \<Rightarrow> size_t \<Rightarrow> bytes option \<Rightarrow> ('m, 'f) database_dispatcher \<Rightarrow> ('m, 'f) database_dispatcher result" where
  "table_changed tr rid sz buffer s =
     res_bind (query_registration_wrapper tr rid sz s) (\<lambda>(wid, s1). wrapper_invoke wid sz buffer s1)"

section \<open>The worker\<close>

definition action_content :: "'f action_ref \<Rightarrow> 'f registration_wrapper \<Rightarrow> 'f data_action result" where
  "action_content a w =
     (case a of
        Made x \<Rightarrow> Inr x
      | Pooled i \<Rightarrow> if rc_alive (rw_actions w) i then Inr (snd (rw_actions w ! i)) else Inl Undefined)"

text \<open>The scope guard of \<^verbatim>\<open>perform\<close> empties the action; then the worker drops its reference to it.\<close>

definition drop_action :: "'f action_ref \<Rightarrow> 'f registration_wrapper \<Rightarrow> 'f registration_wrapper result" where
  "drop_action a w =
     (case a of
        Made x \<Rightarrow> Inr w
      | Pooled i \<Rightarrow> res_map (\<lambda>r. w\<lparr>rw_actions := snd r\<rparr>) (release i (set_content i action_create (rw_actions w))))"

definition perform_data :: "'f action_ref \<Rightarrow> 'f registration_wrapper \<Rightarrow> ('f call \<times> 'f registration_wrapper) result" where
  "perform_data a w =
     res_bind (action_content a w) (\<lambda>x.
       case (da_data x, da_func x) of
         (Some d, Some f) \<Rightarrow>
           if rc_alive (rw_data w) d
           then res_bind (mem_read (rd_buffer (snd (rw_data w ! d))) 0 (unat (rd_size (snd (rw_data w ! d))))) (\<lambda>bs.
                  res_bind (release d (rw_data w)) (\<lambda>(_, h).
                    res_map (Pair (f, rw_row w, rd_size (snd (rw_data w ! d)), bs)) (drop_action a (w\<lparr>rw_data := h\<rparr>))))
           else Inl Undefined
       | _ \<Rightarrow> Inl Undefined)"

definition dd_perform :: "('m, 'f) database_dispatcher \<Rightarrow> ('f call option \<times> ('m, 'f) database_dispatcher) result" where
  "dd_perform s =
     (case dd_queue s of
        [] \<Rightarrow> Inr (None, s)
      | Unsubscribe_item rid token # q \<Rightarrow>
          res_map (\<lambda>(ok, subs). (None, s\<lparr>dd_subs := subs, dd_queue := q\<rparr>)) (unsubscribe (Some rid) token (dd_subs s))
      | Data_item wid a # q \<Rightarrow>
          res_map (\<lambda>(c, w). (Some c, s\<lparr>dd_wrappers := (dd_wrappers s)[wid := w], dd_queue := q\<rparr>))
            (perform_data a (dd_wrappers s ! wid)))"

section \<open>Pools keep the contents of their objects\<close>

context object_factory
begin

lemma query_loop_contents:
  "query_loop create p is h = Inr (item, p', h') \<Longrightarrow> \<exists>xs. map snd h' = map snd h @ xs"
proof (induction "is" arbitrary: p h)
  case Nil
  then show ?case by simp
next
  case (Cons i "is")
  obtain c h1 where c: "(case p_items p ! search_index p i of Some obj \<Rightarrow> (Some obj, h) | None \<Rightarrow> create h) = (c, h1)" by fastforce
  have 1: "\<exists>xs. map snd h1 = map snd h @ xs"
    using c created[of h _ h1] not_created[of h h1] by (cases c) (force split: option.splits)+
  from Cons.prems c obtain obj where obj: "c = Some obj" by (cases c) (simp_all add: Let_def)
  have upd: "map snd (h1[obj := (n, snd (h1 ! obj))]) = map snd h1" for n
    by (metis list_update_id map_update snd_conv)
  show ?case
  proof (cases "ref_count obj h1 = Inr 1")
    case True
    with Cons.prems c obj 1 upd show ?thesis by (auto simp: Let_def add_ref_def split: if_splits)
  next
    case False
    with Cons.prems c obj obtain p1 where "query_loop create p1 is h1 = Inr (item, p', h')"
      by (cases "ref_count obj h1") (auto simp: Let_def split: if_splits)
    from Cons.IH[OF this] 1 show ?thesis by auto
  qed
qed

lemma get_item_contents:
  assumes "get_item create p h = Inr (item, p', h')"
  shows "\<exists>xs. map snd h' = map snd h @ xs"
proof -
  obtain item1 p1 h1 where q: "query_item create p h = Inr (item1, p1, h1)" using assms by (auto simp: get_item_def res_simps)
  then have 1: "\<exists>xs. map snd h1 = map snd h @ xs" using query_loop_contents by (auto simp: query_item_def)
  show ?thesis
  proof (cases "item1 \<noteq> None \<or> p_mode p = growing_none")
    case True
    with assms q 1 show ?thesis by (auto simp: get_item_def split: growing_mode.splits if_splits)
  next
    case False
    with assms q obtain p2 item2 where "query_item create p2 h1 = Inr (item2, p', h')"
      by (auto simp: get_item_def res_simps split: growing_mode.splits if_splits)
    then have "\<exists>xs. map snd h' = map snd h1 @ xs" using query_loop_contents by (auto simp: query_item_def)
    with 1 show ?thesis by auto
  qed
qed

end

interpretation pooled: reliable_factory "make_object False x" "\<lambda>_. True" for x
  by unfold_locales (auto simp: make_object_eq)

abbreviation held_by :: "nat list \<Rightarrow> nat \<Rightarrow> nat" where
  "held_by refs \<equiv> (\<lambda>i. if i \<in> set refs then 1 else 0)"

definition pool_ok :: "object_pool \<Rightarrow> 'a rc_heap \<Rightarrow> nat list \<Rightarrow> bool" where
  "pool_ok p h refs \<longleftrightarrow> pool_inv (\<lambda>_. True) p h (held_by refs) \<and> distinct refs"

lemma pool_ok_create: "object_pool_create (make_object False x) n mode lazy [] = (p, h) \<Longrightarrow> pool_ok p h [] \<and> length (p_items p) = n \<and> p_mode p = mode"
  using pooled.object_pool_create_inv[of x n mode lazy p h] by (simp add: pool_ok_def)

lemma pool_ok_content: "pool_ok p h refs \<Longrightarrow> pool_ok p (set_content i x h) refs"
  by (cases "i < length h") (auto simp: pool_ok_def pool_inv_def set_content_def nth_list_update)

lemma pool_ok_less: "pool_ok p h refs \<Longrightarrow> i \<in> set refs \<Longrightarrow> i < length h"
  using pool_invD(4)[of "\<lambda>_. True" p h "held_by refs" i] by (cases "i < length h") (auto simp: pool_ok_def)

lemma pool_ok_alive: "pool_ok p h refs \<Longrightarrow> i \<in> set refs \<Longrightarrow> rc_alive h i"
  using pool_ok_less[of p h refs i] pool_inv_alive[of "\<lambda>_. True" p h "held_by refs" i] by (simp add: pool_ok_def)

text \<open>What a pool gives out, by its state before.\<close>

lemma pool_ok_get:
  assumes "pool_ok p h refs" and "p_mode p = growing_doubling \<longrightarrow> p_items p \<noteq> []"
  shows "\<exists>item p' h'. get_item (make_object False x) p h = Inr (item, p', h') \<and> p_mode p' = p_mode p \<and>
           (p_mode p = growing_doubling \<longrightarrow> p_items p' \<noteq> []) \<and> length h \<le> length h' \<and> (\<forall>i < length h. snd (h' ! i) = snd (h ! i)) \<and>
           (case item of None \<Rightarrow> p_mode p = growing_none \<and> pool_ok p' h' refs
                       | Some i \<Rightarrow> i \<notin> set refs \<and> i < length h' \<and> pool_ok p' h' (refs @ [i]))"
proof -
  from assms(1) have inv: "pool_inv (\<lambda>_. True) p h (held_by refs)" and "distinct refs" by (simp_all add: pool_ok_def)
  note spec = pooled.get_item_spec[OF inv, of x]
  have "fst (make_object False x h') \<noteq> None" for h' by (simp add: make_object_eq)
  with spec assms(2) obtain item p' h' where g: "get_item (make_object False x) p h = Inr (item, p', h')"
    by (cases "get_item (make_object False x) p h") auto
  from pooled.get_item_contents[OF g] obtain xs where xs: "map snd h' = map snd h @ xs" by blast
  then have "length h \<le> length h'" by (metis length_append length_map le_add1)
  moreover have "snd (h' ! i) = snd (h ! i)" if "i < length h" for i
    using that xs calculation by (metis length_map nth_append nth_map order_less_le_trans)
  moreover have "(held_by refs)(i := 1) = held_by (refs @ [i])" for i by auto
  moreover have "p_items p' \<noteq> []" if "p_mode p = growing_doubling"
    using that spec g pool_inv_objects_le[of "\<lambda>_. True" p' h'] by (cases item) fastforce+
  ultimately show ?thesis using spec g \<open>distinct refs\<close>
    by (cases item) (auto simp: pool_ok_def split: if_splits)
qed

lemma pool_ok_release:
  assumes "pool_ok p h (i # refs)"
  shows "\<exists>n h'. release i h = Inr (n, h') \<and> length h' = length h \<and> map snd h' = map snd h \<and> pool_ok p h' refs"
proof -
  from assms have inv: "pool_inv (\<lambda>_. True) p h (held_by (i # refs))" and d: "i \<notin> set refs" "distinct refs" by (simp_all add: pool_ok_def)
  from pool_inv_release[OF inv pool_ok_less[OF assms]] obtain h' where
    h': "release i h = Inr (1, h')" "length h' = length h" "pool_inv (\<lambda>_. True) p h' ((held_by (i # refs))(i := 0))" by auto
  moreover have "(held_by (i # refs))(i := 0) = held_by refs" using d by auto
  moreover have "map snd h' = map snd h" using h'(1) by (auto simp: release_def split: if_splits) (metis list_update_id map_update snd_conv)
  ultimately show ?thesis using d by (auto simp: pool_ok_def)
qed

section \<open>Invariant of a wrapper\<close>

text \<open>\<open>refs\<close> are the actions of the wrapper that are in the queue. Each has a row data object of its own, no action of the
  pool is in the queue twice, and the counts in the pools say so.\<close>

definition action_at :: "'f registration_wrapper \<Rightarrow> 'f action_ref \<Rightarrow> 'f data_action" where
  "action_at w a = (case a of Made x \<Rightarrow> x | Pooled i \<Rightarrow> snd (rw_actions w ! i))"

definition data_at :: "'f registration_wrapper \<Rightarrow> 'f action_ref \<Rightarrow> nat" where
  "data_at w a = the (da_data (action_at w a))"

definition object_at :: "'f registration_wrapper \<Rightarrow> 'f action_ref \<Rightarrow> row_data_object" where
  "object_at w a = snd (rw_data w ! data_at w a)"

fun pooled_refs :: "'f action_ref list \<Rightarrow> nat list" where
  "pooled_refs [] = []"
| "pooled_refs (Pooled i # refs) = i # pooled_refs refs"
| "pooled_refs (Made x # refs) = pooled_refs refs"

definition call_of :: "'f registration_wrapper \<Rightarrow> 'f action_ref \<Rightarrow> 'f call" where
  "call_of w a = (rw_func w, rw_row w, rd_size (object_at w a), take (unat (rd_size (object_at w a))) (rd_buffer (object_at w a)))"

definition wrapper_ok :: "'f registration_wrapper \<Rightarrow> 'f action_ref list \<Rightarrow> bool" where
  "wrapper_ok w refs \<longleftrightarrow>
     pool_ok (rw_data_pool w) (rw_data w) (map (data_at w) refs) \<and> p_mode (rw_data_pool w) = growing_doubling \<and>
     p_items (rw_data_pool w) \<noteq> [] \<and>
     pool_ok (rw_actions_pool w) (rw_actions w) (pooled_refs refs) \<and> p_mode (rw_actions_pool w) = growing_none \<and>
     (\<forall>a \<in> set refs. da_data (action_at w a) \<noteq> None \<and> da_func (action_at w a) = Some (rw_func w) \<and>
        unat (rd_size (object_at w a)) \<le> length (rd_buffer (object_at w a)))"

lemma pooled_refs_append [simp]: "pooled_refs (refs @ refs') = pooled_refs refs @ pooled_refs refs'"
  by (induction refs rule: pooled_refs.induct) simp_all

lemma pooled_refs_set: "Pooled i \<in> set refs \<longleftrightarrow> i \<in> set (pooled_refs refs)"
  by (induction refs rule: pooled_refs.induct) auto

lemma wrapper_ok_create: "wrapper_ok (new_wrapper row data_size (func :: 'f)) []"
proof -
  obtain dp dh ap ah where c: "object_pool_create (data_factory data_size) BUFFER_POOL_BASE_SIZE growing_doubling False [] = (dp, dh)"
    "object_pool_create (action_factory :: 'f data_action factory) ACTIONS_POOL_BASE_SIZE growing_none False [] = (ap, ah)" by fastforce
  have "p_items dp \<noteq> []" using pool_ok_create[OF c(1)[unfolded data_factory_def]] by (auto simp: BUFFER_POOL_BASE_SIZE_def)
  then show ?thesis using pool_ok_create[OF c(1)[unfolded data_factory_def]] pool_ok_create[OF c(2)[unfolded action_factory_def]] c
    by (simp add: new_wrapper_def wrapper_ok_def)
qed

lemma wrapper_create_sel [simp]:
  "rw_row (new_wrapper row data_size func) = row" "rw_func (new_wrapper row data_size func) = func"
  by (simp_all add: new_wrapper_def split: prod.splits)

lemma wrapper_create_ok: "key_buffered (r_key r) \<Longrightarrow> registration_wrapper_create r row data_size func = Inr (new_wrapper row data_size func)"
  using buffered_key_copy_ok[of "r_key r" "replicate MAX_KEY_SIZE 0"] by (auto simp: registration_wrapper_create_def row_data_construct_def)

text \<open>The bytes of a notification: readable, and none only without a buffer.\<close>

definition source_ok :: "bytes option \<Rightarrow> size_t \<Rightarrow> bool" where
  "source_ok buffer sz \<longleftrightarrow> (case buffer of None \<Rightarrow> sz = 0 | Some bs \<Rightarrow> unat sz \<le> length bs)"

definition sent :: "bytes option \<Rightarrow> size_t \<Rightarrow> bytes" where
  "sent buffer sz = (case buffer of None \<Rightarrow> [] | Some bs \<Rightarrow> take (unat sz) bs)"

lemma row_data_update_ok:
  assumes "source_ok buffer sz"
  shows "\<exists>d'. row_data_update sz buffer d = Inr d' \<and> rd_size d' = sz \<and> unat sz \<le> length (rd_buffer d') \<and>
           take (unat sz) (rd_buffer d') = sent buffer sz"
  using assms by (cases buffer) (auto simp: source_ok_def row_data_update_def sent_def mem_read_def mem_write_def Let_def)

text \<open>Taking an object of the data pool for a new action, and the action, leaves what is queued as it is.\<close>

lemma take_data_ok:
  assumes "wrapper_ok w refs" and "source_ok buffer sz"
  shows "\<exists>d p h. take_data sz buffer w = Inr (d, w\<lparr>rw_data_pool := p, rw_data := h\<rparr>) \<and>
           d \<notin> set (map (data_at w) refs) \<and> pool_ok p h (map (data_at w) refs @ [d]) \<and> p_mode p = growing_doubling \<and> p_items p \<noteq> [] \<and>
           (\<forall>i \<in> set (map (data_at w) refs). snd (h ! i) = snd (rw_data w ! i)) \<and>
           rd_size (snd (h ! d)) = sz \<and> unat sz \<le> length (rd_buffer (snd (h ! d))) \<and> take (unat sz) (rd_buffer (snd (h ! d))) = sent buffer sz"
proof -
  let ?ds = "map (data_at w) refs"
  from assms(1) have ok: "pool_ok (rw_data_pool w) (rw_data w) ?ds" "p_mode (rw_data_pool w) = growing_doubling" "p_items (rw_data_pool w) \<noteq> []"
    by (simp_all add: wrapper_ok_def)
  have "p_mode (rw_data_pool w) = growing_doubling \<longrightarrow> p_items (rw_data_pool w) \<noteq> []" using ok(3) by simp
  from pool_ok_get[OF ok(1) this, where x = "row_data_create (if rw_data_size w = UNBOUNDED_ROW_SIZE then 0 else unat (rw_data_size w))", folded data_factory_def]
  obtain item p h where
    i: "get_item (data_factory (rw_data_size w)) (rw_data_pool w) (rw_data w) = Inr (item, p, h)" "p_mode p = p_mode (rw_data_pool w)"
    "p_mode (rw_data_pool w) = growing_doubling \<longrightarrow> p_items p \<noteq> []" "\<forall>i < length (rw_data w). snd (h ! i) = snd (rw_data w ! i)"
    "case item of None \<Rightarrow> p_mode (rw_data_pool w) = growing_none \<and> pool_ok p h ?ds
       | Some i \<Rightarrow> i \<notin> set ?ds \<and> i < length h \<and> pool_ok p h (?ds @ [i])"
    by (elim exE conjE) (rule that)
  from i(5) ok(2) obtain d where d: "item = Some d" by (cases item) auto
  have g: "get_item (data_factory (rw_data_size w)) (rw_data_pool w) (rw_data w) = Inr (Some d, p, h)" "d \<notin> set ?ds" "d < length h"
    "pool_ok p h (?ds @ [d])" "p_mode p = growing_doubling" "p_items p \<noteq> []" "\<forall>i < length (rw_data w). snd (h ! i) = snd (rw_data w ! i)"
    using i ok(2) d by simp_all
  from row_data_update_ok[OF assms(2), of "snd (h ! d)"] obtain x where
    x: "row_data_update sz buffer (snd (h ! d)) = Inr x" "rd_size x = sz" "unat sz \<le> length (rd_buffer x)" "take (unat sz) (rd_buffer x) = sent buffer sz"
    by blast
  have "snd (set_content d x h ! i) = snd (rw_data w ! i)" if "i \<in> set ?ds" for i
    using that g(2,7) pool_ok_less[OF ok(1) that] by (cases "i = d") (simp_all add: set_content_def)
  moreover have "snd (set_content d x h ! d) = x" using g(3) by (simp add: set_content_def)
  ultimately show ?thesis using g x pool_ok_content[OF g(4), of d x]
    by (intro exI[of _ d] exI[of _ p] exI[of _ "set_content d x h"]) (auto simp: take_data_def)
qed

lemma take_action_ok:
  assumes "pool_ok (rw_actions_pool w) (rw_actions w) is" and "p_mode (rw_actions_pool w) = growing_none"
  shows "\<exists>a p h. take_action d w = Inr (a, w\<lparr>rw_actions_pool := p, rw_actions := h\<rparr>) \<and>
           pool_ok p h (is @ pooled_refs [a]) \<and> p_mode p = growing_none \<and> (\<forall>i \<in> set is. snd (h ! i) = snd (rw_actions w ! i)) \<and>
           (\<forall>i. a = Pooled i \<longrightarrow> i \<notin> set is \<and> da_data (snd (h ! i)) = Some d \<and> da_func (snd (h ! i)) = Some (rw_func w)) \<and>
           (\<forall>x. a = Made x \<longrightarrow> da_data x = Some d \<and> da_func x = Some (rw_func w))"
proof -
  have "p_mode (rw_actions_pool w) = growing_doubling \<longrightarrow> p_items (rw_actions_pool w) \<noteq> []" using assms(2) by simp
  from pool_ok_get[OF assms(1) this, where x = action_create, folded action_factory_def] obtain item p h where
    i: "get_item action_factory (rw_actions_pool w) (rw_actions w) = Inr (item, p, h)" "p_mode p = p_mode (rw_actions_pool w)"
    "\<forall>i < length (rw_actions w). snd (h ! i) = snd (rw_actions w ! i)"
    "case item of None \<Rightarrow> p_mode (rw_actions_pool w) = growing_none \<and> pool_ok p h is
       | Some i \<Rightarrow> i \<notin> set is \<and> i < length h \<and> pool_ok p h (is @ [i])"
    by (elim exE conjE) (rule that)
  note g = i(1) i(2)[unfolded assms(2)] i(3,4)
  have old: "snd (h ! i) = snd (rw_actions w ! i)" if "i \<in> set is" for i
    using g(3) pool_ok_less[OF assms(1) that] by simp
  show ?thesis
  proof (cases item)
    case None
    with g old show ?thesis by (intro exI[of _ "Made (action_set_data (rw_func w) d action_create)"] exI[of _ p] exI[of _ h])
        (auto simp: take_action_def action_set_data_def)
  next
    case (Some i)
    let ?h = "set_content i (action_set_data (rw_func w) d (snd (h ! i))) h"
    from Some g(4) have i: "i \<notin> set is" "i < length h" "pool_ok p h (is @ [i])" by simp_all
    have "snd (?h ! j) = snd (rw_actions w ! j)" if "j \<in> set is" for j
      using old[OF that] that i by (cases "j = i") (simp_all add: set_content_def)
    with g Some i pool_ok_content[OF i(3)] show ?thesis
      by (intro exI[of _ "Pooled i"] exI[of _ p] exI[of _ ?h]) (auto simp: take_action_def action_set_data_def set_content_def)
  qed
qed

lemma action_at_cong:
  assumes "\<forall>i \<in> set (pooled_refs refs). snd (rw_actions w' ! i) = snd (rw_actions w ! i)" and "b \<in> set refs"
  shows "action_at w' b = action_at w b"
  using assms pooled_refs_set[of _ refs] by (cases b rule: action_ref.exhaust) (auto simp: action_at_def)

text \<open>Both together: the new action is queued with the bytes, and the calls that wait are what they were.\<close>

lemma wrapper_takes:
  assumes "wrapper_ok w refs" and "source_ok buffer sz"
  shows "\<exists>d w1 a w2. take_data sz buffer w = Inr (d, w1) \<and> take_action d w1 = Inr (a, w2) \<and> wrapper_ok w2 (refs @ [a]) \<and>
           map (call_of w2) refs = map (call_of w) refs \<and> call_of w2 a = (rw_func w, rw_row w, sz, sent buffer sz) \<and>
           rw_func w2 = rw_func w \<and> rw_row w2 = rw_row w"
proof -
  from take_data_ok[OF assms] obtain d p h where td: "take_data sz buffer w = Inr (d, w\<lparr>rw_data_pool := p, rw_data := h\<rparr>)"
    and d: "d \<notin> set (map (data_at w) refs)" "pool_ok p h (map (data_at w) refs @ [d])" "p_mode p = growing_doubling" "p_items p \<noteq> []"
    "\<forall>i \<in> set (map (data_at w) refs). snd (h ! i) = snd (rw_data w ! i)"
    "rd_size (snd (h ! d)) = sz" "unat sz \<le> length (rd_buffer (snd (h ! d)))" "take (unat sz) (rd_buffer (snd (h ! d))) = sent buffer sz"
    by (elim exE conjE) (rule that)
  let ?w1 = "w\<lparr>rw_data_pool := p, rw_data := h\<rparr>"
  from assms(1) have pa: "pool_ok (rw_actions_pool ?w1) (rw_actions ?w1) (pooled_refs refs)" "p_mode (rw_actions_pool ?w1) = growing_none"
    and old: "\<forall>a \<in> set refs. da_data (action_at w a) \<noteq> None \<and> da_func (action_at w a) = Some (rw_func w) \<and>
        unat (rd_size (object_at w a)) \<le> length (rd_buffer (object_at w a))"
    by (simp_all add: wrapper_ok_def)
  from take_action_ok[OF pa, of d] obtain a p' h' where ta: "take_action d ?w1 = Inr (a, ?w1\<lparr>rw_actions_pool := p', rw_actions := h'\<rparr>)"
    and a: "pool_ok p' h' (pooled_refs refs @ pooled_refs [a])" "p_mode p' = growing_none"
    "\<forall>i \<in> set (pooled_refs refs). snd (h' ! i) = snd (rw_actions ?w1 ! i)"
    "\<forall>i. a = Pooled i \<longrightarrow> i \<notin> set (pooled_refs refs) \<and> da_data (snd (h' ! i)) = Some d \<and> da_func (snd (h' ! i)) = Some (rw_func ?w1)"
    "\<forall>x. a = Made x \<longrightarrow> da_data x = Some d \<and> da_func x = Some (rw_func ?w1)"
    by (elim exE conjE) (rule that)
  define w2 where "w2 = ?w1\<lparr>rw_actions_pool := p', rw_actions := h'\<rparr>"
  have at: "action_at w2 b = action_at w b" if "b \<in> set refs" for b
    using a(3) that by (intro action_at_cong[of refs]) (simp_all add: w2_def)
  then have dat: "data_at w2 b = data_at w b" if "b \<in> set refs" for b using that by (simp add: data_at_def)
  then have ob: "object_at w2 b = object_at w b" if "b \<in> set refs" for b
    using that d(5) by (simp add: object_at_def) (simp add: w2_def)
  have new: "da_data (action_at w2 a) = Some d \<and> da_func (action_at w2 a) = Some (rw_func w2)"
  proof (cases a)
    case (Pooled i)
    with a(4) show ?thesis by (simp add: action_at_def w2_def)
  next
    case (Made x)
    with a(5) show ?thesis by (simp add: action_at_def w2_def)
  qed
  then have obn: "object_at w2 a = snd (h ! d)" "data_at w2 a = d" by (simp_all add: object_at_def data_at_def) (simp add: w2_def)
  have md: "map (data_at w2) (refs @ [a]) = map (data_at w) refs @ [d]" using dat obn by simp
  have sel: "rw_data_pool w2 = p" "rw_data w2 = h" "rw_actions_pool w2 = p'" "rw_actions w2 = h'" "rw_func w2 = rw_func w" by (simp_all add: w2_def)
  have "\<forall>b \<in> set (refs @ [a]). da_data (action_at w2 b) \<noteq> None \<and> da_func (action_at w2 b) = Some (rw_func w2) \<and>
      unat (rd_size (object_at w2 b)) \<le> length (rd_buffer (object_at w2 b))"
    using old new obn at ob d(6,7) by (simp add: sel)
  then have "wrapper_ok w2 (refs @ [a])" unfolding wrapper_ok_def md sel pooled_refs_append using d(2-4) a(1,2) by (intro conjI)
  moreover have "call_of w2 b = call_of w b" if "b \<in> set refs" for b using ob[OF that] by (simp add: call_of_def) (simp add: w2_def)
  then have "map (call_of w2) refs = map (call_of w) refs" by simp
  moreover have "call_of w2 a = (rw_func w, rw_row w, sz, sent buffer sz)" using obn d(6-8) by (simp add: call_of_def) (simp add: w2_def)
  ultimately show ?thesis using td ta by (intro exI[of _ d] exI[of _ ?w1] exI[of _ a] exI[of _ w2]) (simp add: w2_def)
qed

lemma drop_action_ok:
  assumes "pool_ok (rw_actions_pool w) (rw_actions w) (pooled_refs (a # refs))"
  shows "\<exists>h. drop_action a w = Inr (w\<lparr>rw_actions := h\<rparr>) \<and> pool_ok (rw_actions_pool w) h (pooled_refs refs) \<and>
           (\<forall>i \<in> set (pooled_refs refs). snd (h ! i) = snd (rw_actions w ! i))"
proof (cases a)
  case (Made x)
  with assms show ?thesis by (intro exI[of _ "rw_actions w"]) (simp add: drop_action_def)
next
  case (Pooled i)
  let ?h = "set_content i action_create (rw_actions w)"
  from assms Pooled have ok: "pool_ok (rw_actions_pool w) ?h (i # pooled_refs refs)" by (simp add: pool_ok_content)
  from pool_ok_release[OF ok] obtain n h' where h': "release i ?h = Inr (n, h')" "length h' = length ?h" "map snd h' = map snd ?h"
    "pool_ok (rw_actions_pool w) h' (pooled_refs refs)" by blast
  have "snd (h' ! j) = snd (rw_actions w ! j)" if j: "j \<in> set (pooled_refs refs)" for j
  proof -
    have "i \<noteq> j" using ok j by (auto simp: pool_ok_def)
    have l: "j < length h'" using pool_ok_less[OF h'(4) j] .
    then have "snd (h' ! j) = snd (?h ! j)" using h'(2,3) by (metis nth_map)
    with \<open>i \<noteq> j\<close> show ?thesis by (simp add: set_content_def)
  qed
  with h' Pooled show ?thesis by (auto simp: drop_action_def)
qed

text \<open>Performing the oldest action calls its function with the bytes that were queued with it.\<close>

lemma perform_data_ok:
  assumes "wrapper_ok w (a # refs)"
  shows "\<exists>w'. perform_data a w = Inr (call_of w a, w') \<and> wrapper_ok w' refs \<and> map (call_of w') refs = map (call_of w) refs \<and>
           rw_func w' = rw_func w \<and> rw_row w' = rw_row w"
proof -
  let ?d = "data_at w a"
  from assms have pd: "pool_ok (rw_data_pool w) (rw_data w) (?d # map (data_at w) refs)"
    and pa: "pool_ok (rw_actions_pool w) (rw_actions w) (pooled_refs (a # refs))"
    and m: "p_mode (rw_data_pool w) = growing_doubling" "p_items (rw_data_pool w) \<noteq> []" "p_mode (rw_actions_pool w) = growing_none"
    and all: "\<forall>b \<in> set (a # refs). da_data (action_at w b) \<noteq> None \<and> da_func (action_at w b) = Some (rw_func w) \<and>
        unat (rd_size (object_at w b)) \<le> length (rd_buffer (object_at w b))"
    by (simp_all add: wrapper_ok_def)
  have content: "action_content a w = Inr (action_at w a)"
    using pool_ok_alive[OF pa] by (cases a) (simp_all add: action_content_def action_at_def)
  have da: "da_data (action_at w a) = Some ?d" "da_func (action_at w a) = Some (rw_func w)" using all by (auto simp: data_at_def)
  have alive: "rc_alive (rw_data w) ?d" using pool_ok_alive[OF pd] by simp
  from pool_ok_release[OF pd] obtain n h where h: "release ?d (rw_data w) = Inr (n, h)" "length h = length (rw_data w)"
    "map snd h = map snd (rw_data w)" "pool_ok (rw_data_pool w) h (map (data_at w) refs)" by blast
  let ?w1 = "w\<lparr>rw_data := h\<rparr>"
  from drop_action_ok[of ?w1 a refs] pa obtain h' where h': "drop_action a ?w1 = Inr (?w1\<lparr>rw_actions := h'\<rparr>)"
    "pool_ok (rw_actions_pool w) h' (pooled_refs refs)" "\<forall>i \<in> set (pooled_refs refs). snd (h' ! i) = snd (rw_actions w ! i)" by auto
  define w' where "w' = ?w1\<lparr>rw_actions := h'\<rparr>"
  have run: "perform_data a w = Inr (call_of w a, w')"
    using content da alive h(1) h'(1) all by (simp add: perform_data_def object_at_def call_of_def mem_read_def w'_def)
  have at: "action_at w' b = action_at w b" if "b \<in> set refs" for b
    using h'(3) that by (intro action_at_cong[of refs]) (simp_all add: w'_def)
  then have dat: "data_at w' b = data_at w b" if "b \<in> set refs" for b using that by (simp add: data_at_def)
  have ob: "object_at w' b = object_at w b" if b: "b \<in> set refs" for b
  proof -
    have "data_at w b < length (rw_data w)" using pool_ok_less[OF pd] b by simp
    then have "snd (h ! data_at w b) = snd (rw_data w ! data_at w b)" using h(2,3) by (metis nth_map)
    with dat[OF b] show ?thesis by (simp add: object_at_def) (simp add: w'_def)
  qed
  have md: "map (data_at w') refs = map (data_at w) refs" using dat by simp
  have sel: "rw_data_pool w' = rw_data_pool w" "rw_data w' = h" "rw_actions_pool w' = rw_actions_pool w" "rw_actions w' = h'" "rw_func w' = rw_func w"
    by (simp_all add: w'_def)
  have "\<forall>b \<in> set refs. da_data (action_at w' b) \<noteq> None \<and> da_func (action_at w' b) = Some (rw_func w') \<and>
      unat (rd_size (object_at w' b)) \<le> length (rd_buffer (object_at w' b))"
    using all at ob by (simp add: sel)
  then have "wrapper_ok w' refs" unfolding wrapper_ok_def md sel using h(4) h'(2) m by (intro conjI)
  moreover have "map (call_of w') refs = map (call_of w) refs" using ob by (simp add: call_of_def) (simp add: w'_def)
  ultimately show ?thesis using run by (intro exI[of _ w']) (simp add: w'_def)
qed

section \<open>Invariant of the dispatcher\<close>

fun refs_of :: "nat \<Rightarrow> 'f queued list \<Rightarrow> 'f action_ref list" where
  "refs_of wid [] = []"
| "refs_of wid (Data_item w a # q) = (if w = wid then a # refs_of wid q else refs_of wid q)"
| "refs_of wid (Unsubscribe_item rid token # q) = refs_of wid q"

text \<open>The calls that wait in the queue.\<close>

fun calls_of :: "'f registration_wrapper list \<Rightarrow> 'f queued list \<Rightarrow> 'f call list" where
  "calls_of ws [] = []"
| "calls_of ws (Data_item w a # q) = call_of (ws ! w) a # calls_of ws q"
| "calls_of ws (Unsubscribe_item rid token # q) = calls_of ws q"

definition dd_pending :: "('m, 'f) database_dispatcher \<Rightarrow> 'f call list" where
  "dd_pending s = calls_of (dd_wrappers s) (dd_queue s)"

definition queue_ok :: "'f registration_wrapper list \<Rightarrow> 'f queued list \<Rightarrow> bool" where
  "queue_ok ws q \<longleftrightarrow>
     (\<forall>wid < length ws. wrapper_ok (ws ! wid) (refs_of wid q)) \<and> (\<forall>wid a. Data_item wid a \<in> set q \<longrightarrow> wid < length ws)"

definition dd_inv :: "('m, 'f) database_dispatcher \<Rightarrow> bool" where
  "dd_inv s \<longleftrightarrow>
     subs_inv (dd_subs s) \<and> (\<forall>i < length (ss_rows (dd_subs s)). row_inv (ss_rows (dd_subs s) ! i)) \<and>
     (\<forall>rid t wid. subs_view (dd_subs s) rid t = Some wid \<longrightarrow> wid < length (dd_wrappers s) \<and> rw_row (dd_wrappers s ! wid) = rid) \<and>
     (\<forall>i < length (ss_rows (dd_subs s)). row_tells (dd_subs s) i) \<and> queue_ok (dd_wrappers s) (dd_queue s)"

lemma refs_of_append [simp]: "refs_of wid (q @ q') = refs_of wid q @ refs_of wid q'"
  by (induction wid q rule: refs_of.induct) simp_all

lemma calls_of_append [simp]: "calls_of ws (q @ q') = calls_of ws q @ calls_of ws q'"
  by (induction ws q rule: calls_of.induct) simp_all

lemma refs_of_absent: "(\<And>a. Data_item wid a \<notin> set q) \<Longrightarrow> refs_of wid q = []"
  by (induction wid q rule: refs_of.induct) auto

lemma calls_of_update:
  assumes "wid < length ws" and "map (call_of w) (refs_of wid q) = map (call_of (ws ! wid)) (refs_of wid q)"
  shows "calls_of (ws[wid := w]) q = calls_of ws q"
  using assms(2)
proof (induction q)
  case (Cons x q)
  with assms(1) show ?case by (cases x; cases "\<exists>a. x = Data_item wid a") (auto split: if_splits)
qed simp

lemma calls_of_append_wrappers: "queue_ok ws q \<Longrightarrow> calls_of (ws @ ws') q = calls_of ws q"
proof -
  have "(\<forall>wid a. Data_item wid a \<in> set q \<longrightarrow> wid < length ws) \<Longrightarrow> calls_of (ws @ ws') q = calls_of ws q"
    by (induction ws q rule: calls_of.induct) (auto simp: nth_append)
  then show "queue_ok ws q \<Longrightarrow> ?thesis" by (simp add: queue_ok_def)
qed

lemma queue_ok_new_wrapper:
  assumes "queue_ok ws q" and "wrapper_ok w []"
  shows "queue_ok (ws @ [w]) q"
proof -
  have "refs_of (length ws) q = []" using assms(1) by (intro refs_of_absent) (auto simp: queue_ok_def)
  with assms show ?thesis by (auto simp: queue_ok_def nth_append less_Suc_eq)
qed

lemma queue_ok_unsubscribe [simp]: "queue_ok ws (q @ [Unsubscribe_item rid token]) = queue_ok ws q"
  "queue_ok ws (Unsubscribe_item rid token # q) = queue_ok ws q"
  by (auto simp: queue_ok_def)

text \<open>Functions and rows of the wrappers do not change.\<close>

definition same_wrappers :: "'f registration_wrapper list \<Rightarrow> 'f registration_wrapper list \<Rightarrow> bool" where
  "same_wrappers ws ws' \<longleftrightarrow> map (\<lambda>w. (rw_func w, rw_row w)) ws' = map (\<lambda>w. (rw_func w, rw_row w)) ws"

lemma same_wrappersD:
  assumes "same_wrappers ws ws'"
  shows "length ws' = length ws" and "wid < length ws \<Longrightarrow> rw_func (ws' ! wid) = rw_func (ws ! wid) \<and> rw_row (ws' ! wid) = rw_row (ws ! wid)"
proof -
  show l: "length ws' = length ws" using assms unfolding same_wrappers_def by (metis length_map)
  show "wid < length ws \<Longrightarrow> rw_func (ws' ! wid) = rw_func (ws ! wid) \<and> rw_row (ws' ! wid) = rw_row (ws ! wid)"
    using assms l unfolding same_wrappers_def by (metis (no_types, lifting) nth_map prod.inject)
qed

lemma same_wrappers_update:
  "rw_func w = rw_func (ws ! wid) \<Longrightarrow> rw_row w = rw_row (ws ! wid) \<Longrightarrow> same_wrappers ws (ws[wid := w])"
  by (cases "wid < length ws") (simp_all add: same_wrappers_def map_update list_update_same_conv list_update_beyond)

lemma same_wrappers_refl [simp]: "same_wrappers ws ws"
  by (simp add: same_wrappers_def)

lemma same_wrappers_trans: "same_wrappers a b \<Longrightarrow> same_wrappers b c \<Longrightarrow> same_wrappers a c"
  by (simp add: same_wrappers_def)

definition call_for :: "'f registration_wrapper list \<Rightarrow> nat \<times> size_t \<times> bytes option \<Rightarrow> 'f call" where
  "call_for ws c = (case c of (wid, sz, buffer) \<Rightarrow> (rw_func (ws ! wid), rw_row (ws ! wid), sz, sent buffer sz))"

lemma wrapper_invoke_ok:
  assumes "queue_ok (dd_wrappers s) (dd_queue s)" and "dd_running s" and "wid < length (dd_wrappers s)" and "source_ok buffer sz"
  shows "\<exists>ws q. wrapper_invoke wid sz buffer s = Inr (s\<lparr>dd_wrappers := ws, dd_queue := q\<rparr>) \<and> queue_ok ws q \<and>
           calls_of ws q = dd_pending s @ [call_for (dd_wrappers s) (wid, sz, buffer)] \<and> same_wrappers (dd_wrappers s) ws"
proof -
  let ?w = "dd_wrappers s ! wid" and ?refs = "refs_of wid (dd_queue s)"
  have "wrapper_ok ?w ?refs" using assms(1,3) by (simp add: queue_ok_def)
  from wrapper_takes[OF this assms(4)] obtain d w1 a w2 where t: "take_data sz buffer ?w = Inr (d, w1)" "take_action d w1 = Inr (a, w2)"
    and ok: "wrapper_ok w2 (?refs @ [a])" "map (call_of w2) ?refs = map (call_of ?w) ?refs" "call_of w2 a = (rw_func ?w, rw_row ?w, sz, sent buffer sz)"
    and same: "rw_func w2 = rw_func ?w" "rw_row w2 = rw_row ?w" by (elim exE conjE) (rule that)
  let ?ws = "(dd_wrappers s)[wid := w2]" and ?q = "dd_queue s @ [Data_item wid a]"
  have "wrapper_ok (?ws ! i) (refs_of i ?q)" if "i < length (dd_wrappers s)" for i
    using that assms(1) ok(1) by (cases "i = wid") (simp_all add: queue_ok_def)
  then have "queue_ok ?ws ?q" using assms(1,3) by (auto simp: queue_ok_def)
  moreover have "calls_of ?ws ?q = dd_pending s @ [call_for (dd_wrappers s) (wid, sz, buffer)]"
    using calls_of_update[OF assms(3) ok(2)] ok(3) assms(3) by (simp add: dd_pending_def call_for_def)
  ultimately show ?thesis using t assms(2) same_wrappers_update[OF same]
    by (intro exI[of _ ?ws] exI[of _ ?q]) (simp add: wrapper_invoke_def dd_enqueue_def)
qed

lemma invoke_all_ok:
  assumes "queue_ok (dd_wrappers s) (dd_queue s)" and "dd_running s"
    and "\<forall>(wid, sz, buffer) \<in> set calls. wid < length (dd_wrappers s) \<and> source_ok buffer sz"
  shows "\<exists>ws q. invoke_all calls s = Inr (s\<lparr>dd_wrappers := ws, dd_queue := q\<rparr>) \<and> queue_ok ws q \<and>
           calls_of ws q = dd_pending s @ map (call_for (dd_wrappers s)) calls \<and> same_wrappers (dd_wrappers s) ws"
  using assms
proof (induction calls arbitrary: s)
  case Nil
  then show ?case by (intro exI[of _ "dd_wrappers s"] exI[of _ "dd_queue s"]) (simp add: dd_pending_def)
next
  case (Cons c calls)
  obtain wid sz buffer where c: "c = (wid, sz, buffer)" by (cases c)
  with Cons.prems wrapper_invoke_ok[of s wid buffer sz] obtain ws q where
    1: "wrapper_invoke wid sz buffer s = Inr (s\<lparr>dd_wrappers := ws, dd_queue := q\<rparr>)" "queue_ok ws q"
    "calls_of ws q = dd_pending s @ [call_for (dd_wrappers s) c]" "same_wrappers (dd_wrappers s) ws" by auto
  let ?s = "s\<lparr>dd_wrappers := ws, dd_queue := q\<rparr>"
  note same = same_wrappersD[OF 1(4)]
  have cf: "map (call_for ws) calls = map (call_for (dd_wrappers s)) calls"
    using Cons.prems(3) same(2) by (auto simp: call_for_def)
  from Cons.prems(3) same(1) have "\<forall>(wid, sz, buffer) \<in> set calls. wid < length (dd_wrappers ?s) \<and> source_ok buffer sz" by auto
  with Cons.IH[of ?s] 1(2) Cons.prems(2) obtain ws' q' where
    2: "invoke_all calls ?s = Inr (?s\<lparr>dd_wrappers := ws', dd_queue := q'\<rparr>)" "queue_ok ws' q'"
    "calls_of ws' q' = dd_pending ?s @ map (call_for ws) calls" "same_wrappers ws ws'" by auto
  show ?case
    using 1 2 c cf same_wrappers_trans[OF 1(4) 2(4)] by (intro exI[of _ ws'] exI[of _ q']) (simp add: dd_pending_def)
qed

section \<open>Steps keep the invariant\<close>

lemma dd_invD:
  assumes "dd_inv s"
  shows "subs_inv (dd_subs s)" and "i < length (ss_rows (dd_subs s)) \<Longrightarrow> row_inv (ss_rows (dd_subs s) ! i)"
    and "subs_view (dd_subs s) rid t = Some wid \<Longrightarrow> wid < length (dd_wrappers s) \<and> rw_row (dd_wrappers s ! wid) = rid"
    and "queue_ok (dd_wrappers s) (dd_queue s)" and "i < length (ss_rows (dd_subs s)) \<Longrightarrow> row_tells (dd_subs s) i"
  using assms by (auto simp: dd_inv_def)

lemma row_tells_cong: "row_signal s' i = row_signal s i \<or> row_signal s' i = [] \<Longrightarrow> r_key (ss_rows s' ! i) = r_key (ss_rows s ! i) \<Longrightarrow> row_tells s i \<Longrightarrow> row_tells s' i"
  by (auto simp: row_tells_def)

lemma row_signal_view:
  assumes "subs_inv s" and "(t, f) \<in> set (row_signal s rid)"
  shows "subs_view s rid t = Some f"
proof (cases "map_of (ss_callbacks s) rid")
  case (Some e)
  with subs_invD(2)[OF assms(1) subs_invD(3)[OF assms(1) Some]] have "signal_inv (row_signal s rid)" by (simp add: row_ok_def row_signal_def)
  then have "distinct (map fst (row_signal s rid))" by (simp add: signal_inv_def strict_sorted_iff)
  with assms(2) show ?thesis by (simp add: subs_view_def)
qed (use assms(2) in \<open>simp add: row_signal_def\<close>)

text \<open>A write calls all subscribers of its row or none, whether it is accepted or not.\<close>

lemma row_write_notes: "row_write_bytes junk r buffer sz force priority = Inr (ok, r', ns) \<Longrightarrow> ns = [] \<or> ns = map (\<lambda>c. (c, sz, buffer)) (r_callbacks r')"
  by (auto simp: row_write_bytes_def row_raise_callbacks_eq Let_def res_simps split: if_splits)

lemma write_row_total:
  assumes "subs_inv s" and "rid < length (ss_rows s)" and "row_inv (ss_rows s ! rid)" and "data_ok buffer sz" and "row_tells s rid"
  shows "\<exists>ok s' raised. write_row junk rid buffer sz force priority s =
           Inr (ok, s', if raised then map (\<lambda>(t, f). (f, sz, buffer)) (row_signal s rid) else [])"
proof -
  obtain ok r ns where w: "row_write_bytes junk (ss_rows s ! rid) buffer sz force priority = Inr (ok, r, ns)"
    and r: "r_callbacks r = r_callbacks (ss_rows s ! rid)" "r_key r = r_key (ss_rows s ! rid)"
    using row_write_total[OF assms(3,4), of junk force priority] by (auto simp: row_frame_def)
  have full: "deliver s r (map (\<lambda>c. (c, sz, buffer)) (r_callbacks r)) [] = Inr (map (\<lambda>(t, f). (f, sz, buffer)) (row_signal s rid))"
    unfolding r(1) by (rule deliver_row[OF subs_invD(2)[OF assms(1,2)] assms(5) r(2)])
  from row_write_notes[OF w] show ?thesis
  proof
    assume "ns = []"
    with w show ?thesis by (intro exI[of _ ok] exI[of _ "upd_sub_row rid (\<lambda>_. r) s"] exI[of _ False]) (simp add: write_row_def)
  next
    assume "ns = map (\<lambda>c. (c, sz, buffer)) (r_callbacks r)"
    with w full show ?thesis by (intro exI[of _ ok] exI[of _ "upd_sub_row rid (\<lambda>_. r) s"] exI[of _ True]) (simp add: write_row_def)
  qed
qed

lemma source_data_ok: "source_ok buffer sz \<Longrightarrow> data_ok buffer sz"
  by (cases buffer) (auto simp: source_ok_def data_ok_def)

text \<open>A write queues the calls that the subscriptions object makes.\<close>

lemma dd_write_ok:
  assumes "dd_inv s" and "dd_running s" and "rid < length (ss_rows (dd_subs s))" and "source_ok buffer sz"
    and "write_row junk rid buffer sz force priority (dd_subs s) = Inr (ok, subs, calls)"
  shows "\<exists>s'. dd_write junk rid buffer sz force priority s = Inr (ok, s') \<and> dd_inv s' \<and> dd_running s' \<and> dd_subs s' = subs \<and>
           dd_pending s' = dd_pending s @ map (call_for (dd_wrappers s)) calls \<and> same_wrappers (dd_wrappers s) (dd_wrappers s')"
proof -
  note inv = dd_invD[OF assms(1)]
  from write_row_total[OF inv(1) assms(3) inv(2)[OF assms(3)] source_data_ok[OF assms(4)] inv(5)[OF assms(3)], of junk force priority] assms(5)
  have calls: "(wid, z, b) \<in> set calls \<Longrightarrow> z = sz \<and> b = buffer \<and> (\<exists>t. (t, wid) \<in> set (row_signal (dd_subs s) rid))" for wid z b
    by (auto split: if_splits)
  have "wid < length (dd_wrappers s) \<and> source_ok b z" if "(wid, z, b) \<in> set calls" for wid z b
    using calls[OF that] row_signal_view[OF inv(1)] inv(3) assms(4) by blast
  then have c: "\<forall>(wid, z, b) \<in> set calls. wid < length (dd_wrappers (s\<lparr>dd_subs := subs\<rparr>)) \<and> source_ok b z" by auto
  from invoke_all_ok[of "s\<lparr>dd_subs := subs\<rparr>" calls, OF _ _ c] inv(4) assms(2) obtain ws q where
    i: "invoke_all calls (s\<lparr>dd_subs := subs\<rparr>) = Inr (s\<lparr>dd_subs := subs, dd_wrappers := ws, dd_queue := q\<rparr>)" "queue_ok ws q"
    "calls_of ws q = dd_pending s @ map (call_for (dd_wrappers s)) calls" "same_wrappers (dd_wrappers s) ws"
    by (auto simp: dd_pending_def)
  have keep: "subs_inv subs" "row_signal subs = row_signal (dd_subs s)" "length (ss_rows subs) = length (ss_rows (dd_subs s))"
    "row_inv (ss_rows subs ! rid)" "\<forall>i. i \<noteq> rid \<longrightarrow> ss_rows subs ! i = ss_rows (dd_subs s) ! i"
    "\<forall>i. r_key (ss_rows subs ! i) = r_key (ss_rows (dd_subs s) ! i)"
    using write_row_keeps[OF inv(1) assms(3) inv(2)[OF assms(3)] assms(5) source_data_ok[OF assms(4)]] by blast+
  have "row_inv (ss_rows subs ! i)" if "i < length (ss_rows subs)" for i
    using keep inv(2) that by (cases "i = rid") simp_all
  moreover have "subs_view subs = subs_view (dd_subs s)" using keep(2) by (simp add: subs_view_def[abs_def])
  moreover have "row_tells subs i" if "i < length (ss_rows subs)" for i
    using row_tells_cong[of subs i "dd_subs s"] keep(2,3,6) inv(5) that by simp
  ultimately have "dd_inv (s\<lparr>dd_subs := subs, dd_wrappers := ws, dd_queue := q\<rparr>)"
    using keep(1) i(2) inv(3) same_wrappersD[OF i(4)] by (simp add: dd_inv_def)
  with i assms(2,5) show ?thesis by (auto simp: dd_write_def dd_pending_def)
qed

lemma dd_perform_data:
  assumes "dd_inv s" and "dd_queue s = Data_item wid a # q"
  shows "\<exists>c s'. dd_perform s = Inr (Some c, s') \<and> dd_inv s' \<and> dd_running s' = dd_running s \<and> dd_pending s = c # dd_pending s' \<and>
           dd_subs s' = dd_subs s \<and> same_wrappers (dd_wrappers s) (dd_wrappers s') \<and> dd_queue s' = q"
proof -
  let ?ws = "dd_wrappers s"
  note inv = dd_invD[OF assms(1)]
  have wid: "wid < length ?ws" using inv(4) assms(2) by (auto simp: queue_ok_def)
  have ok: "wrapper_ok (?ws ! wid) (a # refs_of wid q)" using inv(4) assms(2) wid unfolding queue_ok_def by (metis refs_of.simps(2))
  from perform_data_ok[OF ok] obtain w' where p: "perform_data a (?ws ! wid) = Inr (call_of (?ws ! wid) a, w')" "wrapper_ok w' (refs_of wid q)"
    "map (call_of w') (refs_of wid q) = map (call_of (?ws ! wid)) (refs_of wid q)" "rw_func w' = rw_func (?ws ! wid)" "rw_row w' = rw_row (?ws ! wid)"
    by blast
  let ?s = "s\<lparr>dd_wrappers := ?ws[wid := w'], dd_queue := q\<rparr>"
  have "wrapper_ok (?ws[wid := w'] ! i) (refs_of i q)" if "i < length ?ws" for i
    using that p(2) inv(4) assms(2) by (cases "i = wid") (auto simp: queue_ok_def split: if_splits)
  then have "queue_ok (?ws[wid := w']) q" using inv(4) assms(2) by (auto simp: queue_ok_def)
  moreover note same = same_wrappers_update[OF p(4,5)]
  ultimately have "dd_inv ?s" using assms(1) same_wrappersD[OF same] by (simp add: dd_inv_def)
  moreover have "dd_pending s = call_of (?ws ! wid) a # dd_pending ?s"
    using calls_of_update[OF wid p(3)] assms(2) by (simp add: dd_pending_def)
  ultimately show ?thesis using p(1) assms(2) same
    by (intro exI[of _ "call_of (?ws ! wid) a"] exI[of _ ?s]) (simp add: dd_perform_def)
qed

lemma dd_unsubscribed_inv:
  assumes "dd_inv s" and "unsubscribe (Some rid) token (dd_subs s) = Inr (ok, subs)" and "queue_ok (dd_wrappers s) q"
  shows "dd_inv (s\<lparr>dd_subs := subs, dd_queue := q\<rparr>) \<and> subs_view subs = (subs_view (dd_subs s))(rid := (subs_view (dd_subs s) rid)(token := None))"
proof -
  note inv = dd_invD[OF assms(1)]
  from unsubscribe_correct[OF inv(1), of rid token] assms(2) have u: "subs_inv subs"
    "subs_view subs = (subs_view (dd_subs s))(rid := (subs_view (dd_subs s) rid)(token := None))" by auto
  moreover have "\<forall>i < length (ss_rows subs). row_inv (ss_rows subs ! i)" using unsubscribe_row_inv[OF assms(2)] inv(2) by blast
  moreover have "\<forall>i < length (ss_rows subs). row_tells subs i" using unsubscribe_tells[OF inv(1) assms(2)] inv(5) by auto
  ultimately show ?thesis using inv(3) assms(3) by (auto simp: dd_inv_def split: if_splits)
qed

lemma dd_perform_unsubscribe:
  assumes "dd_inv s" and "dd_queue s = Unsubscribe_item rid token # q"
  shows "\<exists>s'. dd_perform s = Inr (None, s') \<and> dd_inv s' \<and> dd_running s' = dd_running s \<and> dd_pending s' = dd_pending s \<and>
           dd_wrappers s' = dd_wrappers s \<and> dd_queue s' = q \<and>
           subs_view (dd_subs s') = (subs_view (dd_subs s))(rid := (subs_view (dd_subs s) rid)(token := None))"
proof -
  note inv = dd_invD[OF assms(1)]
  from unsubscribe_correct[OF inv(1), of rid token] obtain ok subs where u: "unsubscribe (Some rid) token (dd_subs s) = Inr (ok, subs)" by blast
  have "queue_ok (dd_wrappers s) q" using inv(4) assms(2) by simp
  from dd_unsubscribed_inv[OF assms(1) u this] u assms(2) show ?thesis by (auto simp: dd_perform_def dd_pending_def)
qed

lemma dd_subscribe_ok:
  assumes "dd_inv s" and "rid < length (ss_rows (dd_subs s))" and "key_buffered (r_key (ss_rows (dd_subs s) ! rid))"
  shows "\<exists>p s'. dd_subscribe (Some rid) f s = Inr (p, s') \<and> dd_inv s' \<and> dd_running s' = dd_running s \<and> dd_pending s' = dd_pending s \<and>
           dd_queue s' = dd_queue s \<and>
           (\<exists>w. dd_wrappers s' = dd_wrappers s @ [w] \<and> rw_func w = f \<and> rw_row w = rid) \<and>
           (p = no_params \<and> subs_view (dd_subs s') = subs_view (dd_subs s) \<or>
            sp_row p = Some rid \<and> subs_view (dd_subs s) rid (sp_token p) = None \<and>
            subs_view (dd_subs s') = (subs_view (dd_subs s))(rid := (subs_view (dd_subs s) rid)(sp_token p \<mapsto> length (dd_wrappers s))))"
proof -
  note inv = dd_invD[OF assms(1)]
  let ?w = "new_wrapper rid (row_data_size (ss_rows (dd_subs s) ! rid)) f" and ?n = "length (dd_wrappers s)"
  from subscribe_correct[OF inv(1) assms(2), of ?n] obtain p subs where
    u: "subscribe (Some rid) (Some ?n) (dd_subs s) = Inr (p, subs)" "subs_inv subs"
    "(p = no_params \<and> subs_view subs = subs_view (dd_subs s)) \<or>
     (sp_row p = Some rid \<and> 0 \<le> sp_token p \<and> subs_view (dd_subs s) rid (sp_token p) = None \<and>
      subs_view subs = (subs_view (dd_subs s))(rid := (subs_view (dd_subs s) rid)(sp_token p \<mapsto> ?n)))"
    by (elim exE conjE) (rule that)
  let ?s = "s\<lparr>dd_subs := subs, dd_wrappers := dd_wrappers s @ [?w]\<rparr>"
  have "\<forall>i < length (ss_rows subs). row_inv (ss_rows subs ! i)" using subscribe_row_inv[OF u(1)] inv(2) by blast
  moreover have "\<forall>i < length (ss_rows subs). row_tells subs i" using subscribe_tells[OF inv(1) assms(2) u(1) assms(3)] inv(5) by auto
  moreover have "queue_ok (dd_wrappers s @ [?w]) (dd_queue s)" by (rule queue_ok_new_wrapper[OF inv(4) wrapper_ok_create])
  moreover have "wid < Suc ?n \<and> rw_row ((dd_wrappers s @ [?w]) ! wid) = r" if "subs_view subs r t = Some wid" for r t wid
  proof (cases "subs_view (dd_subs s) r t = Some wid")
    case True
    with inv(3)[OF True] show ?thesis by (simp add: nth_append)
  next
    case False
    with u(3) that have "r = rid" "wid = ?n" by (auto split: if_splits)
    then show ?thesis by simp
  qed
  ultimately have "dd_inv ?s" using u(2) by (simp add: dd_inv_def)
  moreover have "dd_pending ?s = dd_pending s" using calls_of_append_wrappers[OF inv(4)] by (simp add: dd_pending_def)
  ultimately show ?thesis using u(1,3) by (intro exI[of _ p] exI[of _ ?s]) (auto simp: dd_subscribe_def wrapper_create_ok[OF assms(3)])
qed

lemma dd_subscribed_key: "dd_subscribe (Some rid) f s = Inr (p, s') \<Longrightarrow> key_buffered (r_key (ss_rows (dd_subs s) ! rid))"
  by (auto simp: dd_subscribe_def registration_wrapper_create_def row_data_construct_def res_simps dest: buffered_key_copy_Inr)

lemma dd_subscribe_throws:
  assumes "length (key_data (r_key (ss_rows (dd_subs s) ! rid))) = MAX_KEY_SIZE" and "\<not> key_buffered (r_key (ss_rows (dd_subs s) ! rid))"
  shows "dd_subscribe (Some rid) f s = Inl (Throws (Invalid_argument ''key''))"
  using buffered_key_copy_throws[OF assms] by (simp add: dd_subscribe_def registration_wrapper_create_def row_data_construct_def res_map_def)

section \<open>Runs\<close>

text \<open>\<open>sent\<close> calls and the calls that were made. The calls that a write sends are those of the subscriptions object: for every
  entry of the row its function, the row and the bytes.\<close>

inductive dd_run ::
  "('m, 'f) database_dispatcher \<Rightarrow> 'f call list \<Rightarrow> 'f call list \<Rightarrow> ('m, 'f) database_dispatcher \<Rightarrow> bool" for s0 where
  dd_begin: "dd_run s0 [] [] s0"
| dd_subscribing: "dd_run s0 sends calls s \<Longrightarrow> (\<forall>rid. row = Some rid \<longrightarrow> rid < length (ss_rows (dd_subs s))) \<Longrightarrow>
    dd_subscribe row f s = Inr (p, s') \<Longrightarrow> dd_run s0 sends calls s'"
| dd_unsubscribing: "dd_run s0 sends calls s \<Longrightarrow> dd_unsubscribe required row token s = Inr (r, s') \<Longrightarrow> dd_run s0 sends calls s'"
| dd_writing: "dd_run s0 sends calls s \<Longrightarrow> rid < length (ss_rows (dd_subs s)) \<Longrightarrow> source_ok buffer sz \<Longrightarrow>
    dd_write junk rid buffer sz force priority s = Inr (ok, s') \<Longrightarrow>
    write_row junk rid buffer sz force priority (dd_subs s) = Inr (ok, subs, ns) \<Longrightarrow>
    dd_run s0 (sends @ map (call_for (dd_wrappers s)) ns) calls s'"
| dd_working: "dd_run s0 sends calls s \<Longrightarrow> dd_perform s = Inr (c, s') \<Longrightarrow>
    dd_run s0 sends (calls @ (case c of None \<Rightarrow> [] | Some c \<Rightarrow> [c])) s'"

definition dd_start :: "('m, 'f) database_dispatcher \<Rightarrow> bool" where
  "dd_start s \<longleftrightarrow> dd_running s \<and> dd_wrappers s = [] \<and> dd_queue s = [] \<and> subs_start (dd_subs s)"

lemma dd_start_inv: "dd_start s \<Longrightarrow> dd_inv s"
  using subs_reach_inv[OF subs_begin, of "dd_subs s"]
  by (auto simp: dd_start_def dd_inv_def queue_ok_def subs_start_def subs_view_def row_signal_def row_tells_def)

lemma dd_run_inv: "dd_run s0 sends calls s \<Longrightarrow> dd_start s0 \<Longrightarrow> dd_inv s \<and> dd_running s \<and> sends = calls @ dd_pending s"
proof (induction rule: dd_run.induct)
  case dd_begin
  then show ?case using dd_start_inv by (auto simp: dd_start_def dd_pending_def)
next
  case (dd_subscribing sends calls s row f p s')
  then show ?case
  proof (cases row)
    case (Some rid)
    then have "key_buffered (r_key (ss_rows (dd_subs s) ! rid))" using dd_subscribing.hyps(3) by (simp add: dd_subscribed_key)
    with Some dd_subscribing dd_subscribe_ok[of s rid f] show ?thesis by auto
  qed (auto simp: dd_subscribe_def)
next
  case (dd_unsubscribing sends calls s required row token r s')
  then have inv: "dd_inv s" "dd_running s" by auto
  show ?case
  proof (cases "\<exists>rid. row = Some rid \<and> \<not> required")
    case True
    then obtain rid where rid: "row = Some rid" "\<not> required" by blast
    with dd_unsubscribing.hyps(2) obtain ok subs where
      u: "unsubscribe (Some rid) token (dd_subs s) = Inr (ok, subs)" "s' = s\<lparr>dd_subs := subs\<rparr>" by (auto simp: dd_unsubscribe_def res_simps)
    from dd_unsubscribed_inv[OF inv(1) u(1) dd_invD(4)[OF inv(1)]] dd_unsubscribing u(2) show ?thesis by (auto simp: dd_pending_def)
  next
    case False
    with dd_unsubscribing show ?thesis
      by (auto simp: dd_unsubscribe_def dd_enqueue_def dd_pending_def dd_inv_def res_simps split: option.splits)
  qed
next
  case (dd_writing sends calls s rid buffer sz junk force priority ok s' subs ns)
  with dd_write_ok[of s rid buffer sz junk force priority ok subs ns] show ?case by auto
next
  case (dd_working sends calls s c s')
  then have inv: "dd_inv s" by auto
  show ?case
  proof (cases "dd_queue s")
    case Nil
    with dd_working show ?thesis by (auto simp: dd_perform_def)
  next
    case (Cons x q)
    with dd_working dd_perform_data[OF inv] dd_perform_unsubscribe[OF inv] show ?thesis by (cases x) fastforce+
  qed
qed

lemma dd_perform_total: "dd_inv s \<Longrightarrow> \<exists>c s'. dd_perform s = Inr (c, s') \<and> length (dd_queue s') = length (dd_queue s) - 1"
proof (cases "dd_queue s")
  case (Cons x q)
  then show "dd_inv s \<Longrightarrow> ?thesis" using dd_perform_data[of s] dd_perform_unsubscribe[of s] by (cases x) fastforce+
qed (simp add: dd_perform_def)

lemma invoke_all_queue: "invoke_all calls s = Inr s' \<Longrightarrow> \<exists>qs. dd_queue s' = dd_queue s @ qs \<and> (\<forall>x \<in> set qs. \<exists>wid a. x = Data_item wid a)"
proof (induction calls s rule: invoke_all.induct)
  case (2 wid sz buffer calls s)
  then obtain s1 where s1: "wrapper_invoke wid sz buffer s = Inr s1" "invoke_all calls s1 = Inr s'" by (auto simp: res_simps)
  then have "\<exists>a. dd_queue s1 = dd_queue s @ [Data_item wid a]" by (auto simp: wrapper_invoke_def dd_enqueue_def res_simps split: if_splits)
  with 2(1)[OF s1(2)] show ?case by auto
qed simp

lemma dd_write_queue:
  "dd_write junk rid buffer sz force priority s = Inr (ok, s') \<Longrightarrow>
   \<exists>qs. dd_queue s' = dd_queue s @ qs \<and> (\<forall>x \<in> set qs. \<exists>wid a. x = Data_item wid a)"
  using invoke_all_queue by (fastforce simp: dd_write_def res_simps)

text \<open>The functions that are subscribed to a row, in the order of their tokens.\<close>

definition dd_functions :: "('m, 'f) database_dispatcher \<Rightarrow> nat \<Rightarrow> 'f list" where
  "dd_functions s rid = map (\<lambda>(t, wid). rw_func (dd_wrappers s ! wid)) (row_signal (dd_subs s) rid)"

lemma dd_write_accepted:
  assumes "dd_inv s" and "dd_running s" and "rid < length (ss_rows (dd_subs s))" and "data_ok (Some bs) sz"
    and "row_accepts (ss_rows (dd_subs s) ! rid) (Some bs) sz priority"
  shows "\<exists>s'. dd_write junk rid (Some bs) sz force priority s = Inr (True, s') \<and> dd_inv s' \<and> dd_running s' \<and>
           row_value (ss_rows (dd_subs s') ! rid) = take (unat sz) bs \<and> row_signal (dd_subs s') = row_signal (dd_subs s) \<and>
           same_wrappers (dd_wrappers s) (dd_wrappers s') \<and>
           dd_pending s' = dd_pending s @
             (if force \<or> row_value (ss_rows (dd_subs s) ! rid) \<noteq> take (unat sz) bs
              then map (\<lambda>f. (f, rid, sz, take (unat sz) bs)) (dd_functions s rid) else [])"
proof -
  note inv = dd_invD[OF assms(1)]
  have src: "source_ok (Some bs) sz" using assms(4) by (simp add: source_ok_def data_ok_def)
  let ?calls = "if force \<or> row_value (ss_rows (dd_subs s) ! rid) \<noteq> take (unat sz) bs
      then map (\<lambda>(t, f). (f, sz, Some bs)) (row_signal (dd_subs s) rid) else []"
  from write_row_calls[OF inv(1) assms(3) inv(2)[OF assms(3)] assms(4,5) inv(5)[OF assms(3)], of junk force] obtain subs where
    w: "write_row junk rid (Some bs) sz force priority (dd_subs s) = Inr (True, subs, ?calls)" "row_signal subs = row_signal (dd_subs s)"
    "row_value (ss_rows subs ! rid) = take (unat sz) bs" by blast
  have "rw_row (dd_wrappers s ! wid) = rid" if "(t, wid) \<in> set (row_signal (dd_subs s) rid)" for t wid
    using row_signal_view[OF inv(1) that] inv(3) by blast
  then have "map (call_for (dd_wrappers s)) (map (\<lambda>(t, f). (f, sz, Some bs)) (row_signal (dd_subs s) rid)) =
      map (\<lambda>f. (f, rid, sz, take (unat sz) bs)) (dd_functions s rid)"
    by (auto simp: dd_functions_def call_for_def sent_def)
  with dd_write_ok[OF assms(1,2,3) src w(1)] w(2,3) show ?thesis by auto
qed

lemma dd_run_write:
  assumes "dd_start s0" and "dd_run s0 sends calls s" and "rid < length (ss_rows (dd_subs s))" and "data_ok (Some bs) sz"
    and "row_accepts (ss_rows (dd_subs s) ! rid) (Some bs) sz priority"
  shows "\<exists>s' sends'. dd_run s0 sends' calls s' \<and> dd_write junk rid (Some bs) sz force priority s = Inr (True, s')"
proof -
  from dd_run_inv[OF assms(2,1)] have inv: "dd_inv s" "dd_running s" by auto
  have src: "source_ok (Some bs) sz" using assms(4) by (simp add: source_ok_def data_ok_def)
  from dd_write_accepted[OF inv assms(3-5), of junk force] obtain s' where w: "dd_write junk rid (Some bs) sz force priority s = Inr (True, s')" by blast
  then obtain subs ns where "write_row junk rid (Some bs) sz force priority (dd_subs s) = Inr (True, subs, ns)"
    by (auto simp: dd_write_def res_simps)
  from dd_writing[OF assms(2,3) src w this] w show ?thesis by blast
qed

definition example_dd :: "(nat, nat) database_dispatcher" where
  "example_dd = \<lparr>dd_subs = example_subs, dd_wrappers = [], dd_queue = [], dd_running = True\<rparr>"

definition example_subscribed_dd :: "(nat, nat) database_dispatcher" where
  "example_subscribed_dd = snd (case dd_subscribe (Some 0) 7 example_dd of Inr r \<Rightarrow> r | Inl e \<Rightarrow> (no_params, example_dd))"

lemma example_wrapper: "registration_wrapper_create (ss_rows example_subs ! 0) 0 n f = Inr (new_wrapper 0 n f)"
  by (rule wrapper_create_ok) (simp add: example_subs_def sample_key_buffered)

lemma example_dd_simps:
  shows "dd_start example_dd" and "dd_run example_dd [] [] example_subscribed_dd"
    and "dd_subs example_subscribed_dd = with_entry 0 [(0, 0)] example_subs" and "dd_queue example_subscribed_dd = []"
    and "rw_func (dd_wrappers example_subscribed_dd ! 0) = 7" and "dd_functions example_subscribed_dd 0 = [7]"
proof -
  show start: "dd_start example_dd" using example_subs_inv(1) by (simp add: dd_start_def example_dd_def)
  have sub: "dd_subscribe (Some 0) 7 example_dd = Inr (\<lparr>sp_row = Some 0, sp_token = 0\<rparr>, example_subscribed_dd)"
    by (simp add: example_subscribed_dd_def dd_subscribe_def example_dd_def example_subscribed example_wrapper)
  from dd_subscribing[OF dd_begin _ this] show "dd_run example_dd [] [] example_subscribed_dd" by (simp add: example_dd_def example_subs_def)
  show "dd_subs example_subscribed_dd = with_entry 0 [(0, 0)] example_subs" "dd_queue example_subscribed_dd = []"
    and f: "rw_func (dd_wrappers example_subscribed_dd ! 0) = 7"
    by (simp_all add: example_subscribed_dd_def dd_subscribe_def example_dd_def example_subscribed example_wrapper)
  then show "dd_functions example_subscribed_dd 0 = [7]" by (simp add: dd_functions_def example_entry)
qed

lemma example_data: "data_ok (Some [1, 2, 3]) 2"
  by (simp add: data_ok_def)

text \<open>A change of a table is queued too, but each one makes a wrapper with its \<open>256 + 64\<close> objects: the map stays empty.\<close>

lemma table_registration_empty:
  "tr_wrappers (table_registration_create f) = []"
  "tr_wrappers tr = [] \<Longrightarrow> tr_wrappers (table_clear_row rid tr) = [] \<and> tr_wrappers (table_clear tr) = []"
  by (simp_all add: table_registration_create_def table_clear_row_def table_clear_def al_remove_def)

lemma table_change_makes_wrapper:
  assumes "dd_inv s" and "dd_running s" and "source_ok buffer sz" and "tr_wrappers tr = []" and "key_buffered (r_key (ss_rows (dd_subs s) ! rid))"
  shows "\<exists>s'. table_changed tr rid sz buffer s = Inr s' \<and> dd_pending s' = dd_pending s @ [(tr_func tr, rid, sz, sent buffer sz)] \<and>
           length (dd_wrappers s') = Suc (length (dd_wrappers s))"
proof -
  let ?w = "new_wrapper rid sz (tr_func tr)"
  let ?s = "s\<lparr>dd_wrappers := dd_wrappers s @ [?w]\<rparr>"
  note inv = dd_invD[OF assms(1)]
  have "queue_ok (dd_wrappers ?s) (dd_queue ?s)" using queue_ok_new_wrapper[OF inv(4) wrapper_ok_create] by simp
  from wrapper_invoke_ok[OF this, of "length (dd_wrappers s)" buffer sz] assms(2,3) obtain ws q where
    "wrapper_invoke (length (dd_wrappers s)) sz buffer ?s = Inr (?s\<lparr>dd_wrappers := ws, dd_queue := q\<rparr>)"
    "calls_of ws q = dd_pending ?s @ [call_for (dd_wrappers ?s) (length (dd_wrappers s), sz, buffer)]" "same_wrappers (dd_wrappers ?s) ws" by auto
  moreover have "dd_pending ?s = dd_pending s" using calls_of_append_wrappers[OF inv(4)] by (simp add: dd_pending_def)
  ultimately show ?thesis using assms(4) same_wrappersD(1)[of "dd_wrappers ?s" ws]
    by (auto simp: table_changed_def query_registration_wrapper_def call_for_def dd_pending_def wrapper_create_ok[OF assms(5)])
qed

section \<open>Properties\<close>

text \<open>C5. The dispatcher calls its clients in the order of the changes, with the bytes of the change. In every state that
  subscribing, unsubscribing (from any thread), writing and the worker can reach, the calls made so far, followed by those
  that wait in the queue, are the calls the changes asked for, in their order; every wait has the bytes its change
  had although objects and buffers are reused; and the worker can always perform the next action.\<close>

theorem dispatcher_calls_in_order:
  assumes "dd_start s0" and "dd_run s0 sends calls s"
  shows "sends = calls @ dd_pending s \<and> (\<exists>c s'. dd_perform s = Inr (c, s') \<and> length (dd_queue s') = length (dd_queue s) - 1)"
  using dd_run_inv[OF assms(2,1)] dd_perform_total by blast

theorem dispatcher_calls_in_order_witness:
  "\<exists>s. dd_run example_dd [(7, 0, 2, [1, 2])] [] s \<and> (\<exists>c s'. dd_perform s = Inr (c, s'))"
proof -
  let ?s = example_subscribed_dd
  have acc: "0 < length (ss_rows (dd_subs ?s))" "row_accepts (ss_rows (dd_subs ?s) ! 0) (Some [1, 2, 3]) 2 0"
    by (simp_all add: example_dd_simps example_entry)
  from dd_run_write[OF example_dd_simps(1,2) acc(1) example_data acc(2), of "\<lambda>_. 0" False] obtain s sends where
    r: "dd_run example_dd sends [] s" and w: "dd_write (\<lambda>_. 0) 0 (Some [1, 2, 3]) 2 False 0 ?s = Inr (True, s)" by blast
  from dd_run_inv[OF example_dd_simps(2,1)] have inv: "dd_inv ?s" "dd_running ?s" "dd_pending ?s = []" by auto
  from dd_write_accepted[OF inv(1,2) acc(1) example_data acc(2), of "\<lambda>_. 0" False] w inv(3) have "dd_pending s = [(7, 0, 2, [1, 2])]"
    by (simp add: example_dd_simps example_entry)
  with dispatcher_calls_in_order[OF example_dd_simps(1) r] r show ?thesis by auto
qed

text \<open>A change reaches every subscriber: in every reachable state an accepted write succeeds, and if it is forced or changes the
  value it queues, for every function subscribed to the row and nothing else, one call with a copy of the bytes.\<close>

theorem change_is_queued_for_every_subscriber:
  assumes "dd_start s0" and "dd_run s0 sends calls s" and "rid < length (ss_rows (dd_subs s))" and "data_ok (Some bs) sz"
    and "row_accepts (ss_rows (dd_subs s) ! rid) (Some bs) sz priority"
  shows "\<exists>s'. dd_write junk rid (Some bs) sz force priority s = Inr (True, s') \<and>
           row_value (ss_rows (dd_subs s') ! rid) = take (unat sz) bs \<and>
           dd_pending s' = dd_pending s @
             (if force \<or> row_value (ss_rows (dd_subs s) ! rid) \<noteq> take (unat sz) bs
              then map (\<lambda>f. (f, rid, sz, take (unat sz) bs)) (dd_functions s rid) else [])"
  using dd_write_accepted[of s rid bs sz priority junk force] dd_run_inv[OF assms(2,1)] assms(3-5) by blast

theorem change_is_queued_for_every_subscriber_witness:
  "\<exists>s'. dd_write (\<lambda>_. 0) 0 (Some [1, 2, 3]) 2 False 0 example_subscribed_dd = Inr (True, s') \<and>
     dd_pending s' = dd_pending example_subscribed_dd @ [(7, 0, 2, [1, 2])]"
  using change_is_queued_for_every_subscriber[OF example_dd_simps(1,2) _ example_data, of 0 0 "\<lambda>_. 0" False]
  by (auto simp: example_dd_simps example_entry)

text \<open>A function may be called after it was unsubscribed. When \<^verbatim>\<open>unsubscribe\<close> waits for the worker while another thread writes,
  the call for that write is queued behind it: the worker takes the subscription back, \<^verbatim>\<open>unsubscribe\<close> returns, and the
  call is still to be made.\<close>

theorem call_after_unsubscribe:
  assumes "dd_start s0" and "dd_run s0 sends calls s" and "dd_queue s = []" and "rid < length (ss_rows (dd_subs s))"
    and "(t, wid) \<in> set (row_signal (dd_subs s) rid)" and "data_ok (Some bs) sz"
    and "row_accepts (ss_rows (dd_subs s) ! rid) (Some bs) sz priority" and "row_value (ss_rows (dd_subs s) ! rid) \<noteq> take (unat sz) bs"
  shows "\<exists>s1 s2 s3. dd_unsubscribe True (Some rid) t s = Inr (None, s1) \<and>
           dd_write junk rid (Some bs) sz force priority s1 = Inr (True, s2) \<and> dd_perform s2 = Inr (None, s3) \<and>
           subs_view (dd_subs s3) rid t = None \<and> (rw_func (dd_wrappers s ! wid), rid, sz, take (unat sz) bs) \<in> set (dd_pending s3)"
proof -
  let ?s1 = "s\<lparr>dd_queue := [Unsubscribe_item rid t]\<rparr>"
  from dd_run_inv[OF assms(2,1)] have inv: "dd_inv s" "dd_running s" by auto
  then have 1: "dd_unsubscribe True (Some rid) t s = Inr (None, ?s1)" "dd_inv ?s1" "dd_pending ?s1 = []"
    using assms(3) queue_ok_unsubscribe(2)[of "dd_wrappers s" rid t "[]"]
    by (simp_all add: dd_unsubscribe_def dd_enqueue_def dd_inv_def dd_pending_def)
  from dd_write_accepted[OF 1(2), of rid bs sz priority junk force] inv(2) assms(4,6,7,8) 1(3) obtain s2 where
    2: "dd_write junk rid (Some bs) sz force priority ?s1 = Inr (True, s2)" "dd_inv s2"
    "dd_pending s2 = map (\<lambda>f. (f, rid, sz, take (unat sz) bs)) (dd_functions ?s1 rid)" by auto
  have "(rw_func (dd_wrappers s ! wid), rid, sz, take (unat sz) bs) \<in> set (dd_pending s2)"
    using assms(5) unfolding 2(3) dd_functions_def by force
  moreover obtain q where "dd_queue s2 = Unsubscribe_item rid t # q" using dd_write_queue[OF 2(1)] by auto
  from dd_perform_unsubscribe[OF 2(2) this] obtain s3 where "dd_perform s2 = Inr (None, s3)" "dd_pending s3 = dd_pending s2"
    "subs_view (dd_subs s3) rid t = None" by auto
  ultimately show ?thesis using 1(1) 2(1) by (intro exI[of _ ?s1] exI[of _ s2] exI[of _ s3]) simp
qed

theorem call_after_unsubscribe_witness:
  "\<exists>s1 s2 s3. dd_unsubscribe True (Some 0) 0 example_subscribed_dd = Inr (None, s1) \<and>
     dd_write (\<lambda>_. 0) 0 (Some [1, 2, 3]) 2 False 0 s1 = Inr (True, s2) \<and> dd_perform s2 = Inr (None, s3) \<and>
     subs_view (dd_subs s3) 0 0 = None \<and> (7, 0, 2, [1, 2]) \<in> set (dd_pending s3)"
  using call_after_unsubscribe[OF example_dd_simps(1,2,4) _ _ example_data, of 0 0 0 0 "\<lambda>_. 0" False]
  by (simp add: example_dd_simps example_entry)

end
