(* ===== verification/Data_Binder.thy ===== *)
theory Data_Binder
  imports Database_Dispatcher
begin

text \<open>
  Binding of rows (\<^verbatim>\<open>data_binder\<close> in \<^verbatim>\<open>Include/utils/database.hpp\<close>): a dispatcher of its own whose functions write each change of
  a source row to a target row. The function of a subscription is the target with the flag that forces the report;
  the worker of the dispatcher makes the calls of \<^verbatim>\<open>Database_Dispatcher\<close> and performs these writes.
\<close>

definition READ_TO_STACK_MAX_SIZE :: size_t where
  "READ_TO_STACK_MAX_SIZE = 1024"

type_synonym binding = "nat \<times> bool"

record 'm data_binder =
  bd_dispatcher :: "('m, binding) database_dispatcher"
  bd_collector :: "subscription_params list"

text \<open>The buffer for the first value: an array on the stack, not initialised (\<open>garbage\<close>), or a vector, which throws beyond its
  maximal size.\<close>

definition copy_buffer :: "(nat \<Rightarrow> byte) \<Rightarrow> size_t \<Rightarrow> bytes result" where
  "copy_buffer garbage data_size =
     (if data_size < READ_TO_STACK_MAX_SIZE then Inr (fresh garbage (unat READ_TO_STACK_MAX_SIZE))
      else if unat data_size \<ge> 2 ^ 63 then Inl (Throws (Logic_error ''cannot create std::vector larger than max_size()''))
      else Inr (replicate (unat data_size) 0))"

definition copy_value ::
  "(nat \<Rightarrow> byte) \<Rightarrow> (nat \<Rightarrow> byte) \<Rightarrow> nat \<Rightarrow> nat \<Rightarrow> bool \<Rightarrow> ('m, binding) database_dispatcher \<Rightarrow> ('m, binding) database_dispatcher result" where
  "copy_value junk garbage source target force_report s =
     (let data_size = row_data_size (ss_rows (dd_subs s) ! source)
      in if data_size = 0 then Inr s
         else res_bind (copy_buffer garbage data_size) (\<lambda>buffer.
           res_bind (row_read_all (ss_rows (dd_subs s) ! source) (Some buffer)) (\<lambda>(_, buffer).
             res_map snd (dd_write junk target buffer data_size force_report 0 s))))"

definition bind_rows ::
  "(nat \<Rightarrow> byte) \<Rightarrow> (nat \<Rightarrow> byte) \<Rightarrow> nat option \<Rightarrow> nat option \<Rightarrow> bool \<Rightarrow> bool \<Rightarrow> 'm data_binder \<Rightarrow> (bool \<times> 'm data_binder) result" where
  "bind_rows junk garbage source target copy_init_value force_report b =
     (case (source, target) of
        (Some src, Some tgt) \<Rightarrow>
          (let s = bd_dispatcher b; rows = ss_rows (dd_subs s)
           in if row_data_size (rows ! src) \<noteq> row_data_size (rows ! tgt) then Inr (False, b)
              else res_bind (if copy_init_value then copy_value junk garbage src tgt force_report s else Inr s) (\<lambda>s1.
                     res_map (\<lambda>(p, s2). (True, b\<lparr>bd_dispatcher := s2, bd_collector := collector_add p (bd_collector b)\<rparr>))
                       (dd_subscribe (Some src) (tgt, force_report) s1)))
      | _ \<Rightarrow> Inr (False, b))"

text \<open>The worker performs one action, with the function that \<^verbatim>\<open>bind\<close> subscribed.\<close>

definition bind_perform :: "(nat \<Rightarrow> byte) \<Rightarrow> ('m, binding) database_dispatcher \<Rightarrow> ('m, binding) database_dispatcher result" where
  "bind_perform junk s =
     res_bind (dd_perform s) (\<lambda>(c, s1).
       case c of
         None \<Rightarrow> Inr s1
       | Some ((target, force_report), row, sz, data) \<Rightarrow> res_map snd (dd_write junk target (Some data) sz force_report 0 s1))"

section \<open>A bound row follows its source\<close>

text \<open>What is queued for the target ends with the value of the source; when nothing is queued the two agree.\<close>

definition bound :: "nat \<Rightarrow> nat \<Rightarrow> bool \<Rightarrow> ('m, binding) database_dispatcher \<Rightarrow> bool" where
  "bound src tgt force s \<longleftrightarrow>
     dd_inv s \<and> dd_running s \<and> src \<noteq> tgt \<and> src < length (ss_rows (dd_subs s)) \<and> tgt < length (ss_rows (dd_subs s)) \<and>
     dd_functions s src = [(tgt, force)] \<and> dd_functions s tgt = [] \<and>
     (\<forall>x \<in> set (dd_queue s). \<exists>wid a. x = Data_item wid a) \<and>
     \<not> is_empty_type (ss_rows (dd_subs s) ! tgt) \<and> r_write_priority (ss_rows (dd_subs s) ! tgt) = 0 \<and>
     r_max_size (ss_rows (dd_subs s) ! tgt) = r_max_size (ss_rows (dd_subs s) ! src) \<and>
     (\<forall>c \<in> set (dd_pending s). \<exists>sz bs. c = ((tgt, force), src, sz, bs) \<and> length bs = unat sz \<and> 0 < sz \<and>
        sz \<le> r_max_size (ss_rows (dd_subs s) ! src)) \<and>
     row_value (ss_rows (dd_subs s) ! src) =
       (if dd_pending s = [] then row_value (ss_rows (dd_subs s) ! tgt) else snd (snd (snd (last (dd_pending s)))))"

lemma dd_write_rows:
  assumes "dd_inv s" and "rid < length (ss_rows (dd_subs s))" and "data_ok buffer sz"
    and "dd_write junk rid buffer sz force priority s = Inr (ok, s')"
  shows "length (ss_rows (dd_subs s')) = length (ss_rows (dd_subs s)) \<and> (\<forall>i. i \<noteq> rid \<longrightarrow> ss_rows (dd_subs s') ! i = ss_rows (dd_subs s) ! i) \<and>
         row_frame (ss_rows (dd_subs s) ! rid) (ss_rows (dd_subs s') ! rid)"
proof -
  note inv = dd_invD[OF assms(1)]
  obtain subs calls where w: "write_row junk rid buffer sz force priority (dd_subs s) = Inr (ok, subs, calls)"
    and i: "invoke_all calls (s\<lparr>dd_subs := subs\<rparr>) = Inr s'" using assms(4) by (auto simp: dd_write_def res_simps)
  have "invoke_all cs t = Inr t' \<Longrightarrow> dd_subs t' = dd_subs t" for cs and t t' :: "('a, 'b) database_dispatcher"
    by (induction cs t rule: invoke_all.induct) (auto simp: res_simps wrapper_invoke_def dd_enqueue_def split: if_splits)
  from this[OF i] have s': "dd_subs s' = subs" by simp
  obtain ok' r ns where r: "row_write_bytes junk (ss_rows (dd_subs s) ! rid) buffer sz force priority = Inr (ok', r, ns)"
    and f: "row_frame (ss_rows (dd_subs s) ! rid) r"
    using row_write_total[OF inv(2)[OF assms(2)] assms(3), of junk force priority] by blast
  then have "subs = upd_sub_row rid (\<lambda>_. r) (dd_subs s)" using w by (auto simp: write_row_def res_simps)
  with f assms(2) s' show ?thesis by (simp add: upd_sub_row_def)
qed

lemma dd_functions_same:
  assumes "dd_inv s" and "row_signal (dd_subs s') = row_signal (dd_subs s)" and "same_wrappers (dd_wrappers s) (dd_wrappers s')"
  shows "dd_functions s' rid = dd_functions s rid"
proof -
  have "rw_func (dd_wrappers s' ! wid) = rw_func (dd_wrappers s ! wid)" if "(t, wid) \<in> set (row_signal (dd_subs s) rid)" for t wid
    using same_wrappersD(2)[OF assms(3)] dd_invD(3)[OF assms(1) row_signal_view[OF dd_invD(1)[OF assms(1)] that]] by blast
  then show ?thesis using assms(2) by (auto simp: dd_functions_def)
qed

lemma bound_write_source:
  assumes "bound src tgt force s" and "data_ok (Some bs) sz" and "row_accepts (ss_rows (dd_subs s) ! src) (Some bs) sz priority"
  shows "\<exists>s'. dd_write junk src (Some bs) sz report priority s = Inr (True, s') \<and> bound src tgt force s'"
proof -
  have b: "dd_inv s" "dd_running s" "src < length (ss_rows (dd_subs s))" "dd_functions s src = [(tgt, force)]" "dd_functions s tgt = []" "src \<noteq> tgt"
    using assms(1) by (simp_all add: bound_def)
  from dd_write_accepted[OF b(1-3) assms(2,3), of junk report] obtain s' where
    w: "dd_write junk src (Some bs) sz report priority s = Inr (True, s')" "dd_inv s'" "dd_running s'"
    "row_value (ss_rows (dd_subs s') ! src) = take (unat sz) bs" "row_signal (dd_subs s') = row_signal (dd_subs s)"
    "same_wrappers (dd_wrappers s) (dd_wrappers s')"
    "dd_pending s' = dd_pending s @ (if report \<or> row_value (ss_rows (dd_subs s) ! src) \<noteq> take (unat sz) bs
       then map (\<lambda>f. (f, src, sz, take (unat sz) bs)) (dd_functions s src) else [])" by (elim exE conjE) (rule that)
  note fs = dd_functions_same[OF b(1) w(5,6)]
  note rows = dd_write_rows[OF b(1,3) assms(2) w(1)]
  have q: "\<forall>x \<in> set (dd_queue s'). \<exists>wid a. x = Data_item wid a" using dd_write_queue[OF w(1)] assms(1) by (auto simp: bound_def)
  have sz: "length (take (unat sz) bs) = unat sz" "0 < sz" "sz \<le> r_max_size (ss_rows (dd_subs s) ! src)"
    using assms(2,3) by (auto simp: data_ok_def row_accepts_def)
  show ?thesis
  proof (intro exI[of _ s'] conjI)
    show "bound src tgt force s'"
      using assms(1) w(2,3,4,7) rows b(4,5,6) fs sz q by (auto simp: bound_def row_frame_def)
  qed (rule w(1))
qed

lemma data_queue_length: "\<forall>x \<in> set (dd_queue s). \<exists>wid a. x = Data_item wid a \<Longrightarrow> length (dd_pending s) = length (dd_queue s)"
proof -
  have "\<forall>x \<in> set q. \<exists>wid a. x = Data_item wid a \<Longrightarrow> length (calls_of ws q) = length q" for q and ws :: "'a registration_wrapper list"
    by (induction ws q rule: calls_of.induct) auto
  then show "\<forall>x \<in> set (dd_queue s). \<exists>wid a. x = Data_item wid a \<Longrightarrow> ?thesis" by (simp add: dd_pending_def)
qed

lemma bound_perform:
  assumes "bound src tgt force s"
  shows "\<exists>s'. bind_perform junk s = Inr s' \<and> bound src tgt force s' \<and> length (dd_queue s') = length (dd_queue s) - 1"
proof (cases "dd_queue s")
  case Nil
  then show ?thesis using assms by (simp add: bind_perform_def dd_perform_def)
next
  case (Cons x q)
  have b: "dd_inv s" "dd_running s" "src \<noteq> tgt" "tgt < length (ss_rows (dd_subs s))" using assms by (simp_all add: bound_def)
  from assms Cons obtain wid a where x: "x = Data_item wid a" by (auto simp: bound_def)
  from dd_perform_data[OF b(1), of wid a q] Cons x obtain c s1 where p: "dd_perform s = Inr (Some c, s1)" "dd_inv s1" "dd_running s1"
    "dd_pending s = c # dd_pending s1" "dd_subs s1 = dd_subs s" "same_wrappers (dd_wrappers s) (dd_wrappers s1)" "dd_queue s1 = q"
    using b(2) by auto
  from assms p(4) obtain sz bs where c: "c = ((tgt, force), src, sz, bs)" "length bs = unat sz" "0 < sz" "sz \<le> r_max_size (ss_rows (dd_subs s) ! src)"
    by (auto simp: bound_def)
  have ok: "data_ok (Some bs) sz" "row_accepts (ss_rows (dd_subs s1) ! tgt) (Some bs) sz 0"
    using assms c p(5) by (auto simp: bound_def data_ok_def row_accepts_def)
  have fs1: "dd_functions s1 rid = dd_functions s rid" for rid using dd_functions_same[OF b(1) _ p(6)] p(5) by simp
  have none: "dd_functions s1 tgt = []" using assms fs1 by (simp add: bound_def)
  from dd_write_accepted[OF p(2,3) _ ok, of junk force] b(4) p(5) none obtain s' where
    w: "dd_write junk tgt (Some bs) sz force 0 s1 = Inr (True, s')" "dd_inv s'" "dd_running s'"
    "row_value (ss_rows (dd_subs s') ! tgt) = bs" "row_signal (dd_subs s') = row_signal (dd_subs s1)"
    "same_wrappers (dd_wrappers s1) (dd_wrappers s')" "dd_pending s' = dd_pending s1" using c(2) by auto
  note fs = dd_functions_same[OF p(2) w(5,6)] fs1
  have "tgt < length (ss_rows (dd_subs s1))" using b(4) p(5) by simp
  note rows = dd_write_rows[OF p(2) this ok(1) w(1)]
  have q: "\<forall>x \<in> set (dd_queue s'). \<exists>wid a. x = Data_item wid a"
    using dd_write_queue[OF w(1)] assms Cons p(7) by (auto simp: bound_def)
  have "bound src tgt force s'"
    using assms p(4,5) c w(2,3,4,7) rows fs q b(3) by (auto simp: bound_def row_frame_def is_empty_type_def)
  moreover have "length (dd_queue s') = length q"
    using data_queue_length[OF q] data_queue_length[of s1] assms Cons p(7) w(7) by (auto simp: bound_def)
  ultimately show ?thesis using p(1) c w(1) Cons by (simp add: bind_perform_def)
qed

text \<open>Accepted writes to the source by anybody, and the worker of the binder.\<close>

inductive bind_run :: "nat \<Rightarrow> ('m, binding) database_dispatcher \<Rightarrow> ('m, binding) database_dispatcher \<Rightarrow> bool" for src s0 where
  bind_begin: "bind_run src s0 s0"
| bind_write: "bind_run src s0 s \<Longrightarrow> data_ok (Some bs) sz \<Longrightarrow> row_accepts (ss_rows (dd_subs s) ! src) (Some bs) sz priority \<Longrightarrow>
    dd_write junk src (Some bs) sz report priority s = Inr (ok, s') \<Longrightarrow> bind_run src s0 s'"
| bind_work: "bind_run src s0 s \<Longrightarrow> bind_perform junk s = Inr s' \<Longrightarrow> bind_run src s0 s'"

lemma bind_run_bound: "bind_run src s0 s \<Longrightarrow> bound src tgt force s0 \<Longrightarrow> bound src tgt force s"
proof (induction rule: bind_run.induct)
  case (bind_write s bs sz priority junk report ok s')
  with bound_write_source[of src tgt force s bs sz priority junk report] show ?case by auto
next
  case (bind_work s junk s')
  with bound_perform[of src tgt force s junk] show ?case by auto
qed

lemma row_value_callbacks: "row_value (r\<lparr>r_callbacks := cs\<rparr>) = row_value r"
  by (simp add: row_value_def cong: option.case_cong)

lemma bind_rows_bound:
  assumes "dd_start (bd_dispatcher b)" and "src \<noteq> tgt" and "src < length (ss_rows (dd_subs (bd_dispatcher b)))"
    and "tgt < length (ss_rows (dd_subs (bd_dispatcher b)))" and "\<not> is_empty_type (ss_rows (dd_subs (bd_dispatcher b)) ! tgt)"
    and "r_write_priority (ss_rows (dd_subs (bd_dispatcher b)) ! tgt) = 0"
    and "r_max_size (ss_rows (dd_subs (bd_dispatcher b)) ! tgt) = r_max_size (ss_rows (dd_subs (bd_dispatcher b)) ! src)"
    and "row_value (ss_rows (dd_subs (bd_dispatcher b)) ! tgt) = row_value (ss_rows (dd_subs (bd_dispatcher b)) ! src)"
    and "key_buffered (r_key (ss_rows (dd_subs (bd_dispatcher b)) ! src))"
  shows "\<exists>b'. bind_rows junk garbage (Some src) (Some tgt) False force b = Inr (True, b') \<and> bound src tgt force (bd_dispatcher b')"
proof -
  let ?s = "bd_dispatcher b"
  let ?subs = "dd_subs ?s"
  have st: "dd_wrappers ?s = []" "dd_queue ?s = []" "dd_running ?s" "ss_callbacks ?subs = []" "subs_start ?subs"
    using assms(1) by (auto simp: dd_start_def subs_start_def)
  have inv: "subs_inv ?subs" using dd_invD(1)[OF dd_start_inv[OF assms(1)]] .
  from subscribe_correct[OF inv assms(3), of 0] st(4) have sub: "subscribe (Some src) (Some 0) ?subs =
      Inr (\<lparr>sp_row = Some src, sp_token = 0\<rparr>, with_entry src [(0, 0)] ?subs)" by auto
  let ?w = "new_wrapper src (row_data_size (ss_rows ?subs ! src)) (tgt, force)"
  let ?s1 = "?s\<lparr>dd_subs := with_entry src [(0, 0)] ?subs, dd_wrappers := [?w]\<rparr>"
  have run: "dd_subscribe (Some src) (tgt, force) ?s = Inr (\<lparr>sp_row = Some src, sp_token = 0\<rparr>, ?s1)"
    using sub st(1) by (simp add: dd_subscribe_def wrapper_create_ok[OF assms(9)])
  from dd_subscribe_ok[OF dd_start_inv[OF assms(1)] assms(3,9), of "(tgt, force)"] run have inv1: "dd_inv ?s1" by auto
  have rows: "ss_rows (with_entry src [(0, 0)] ?subs) =
      (ss_rows ?subs)[src := snd (row_subscribe_callback (ss_next ?subs + 1) (ss_rows ?subs ! src))]" by (simp add: with_entry_def)
  have cb: "snd (row_subscribe_callback c r) = r\<lparr>r_callbacks := snd (add_callback c (r_callbacks r))\<rparr>" for c and r :: "'a row"
    by (simp add: row_subscribe_callback_def split_beta)
  have sig: "row_signal (with_entry src [(0, 0)] ?subs) src = [(0, 0)]" "row_signal (with_entry src [(0, 0)] ?subs) tgt = []"
    using assms(2) st(4) by (auto simp: row_signal_def with_entry_def)
  have "bound src tgt force ?s1"
    using inv1 st assms(2-8) sig by (simp add: bound_def dd_functions_def dd_pending_def rows cb row_value_callbacks)
  moreover have "row_data_size (ss_rows ?subs ! src) = row_data_size (ss_rows ?subs ! tgt)" using assms(7) by (simp add: row_data_size_def)
  ultimately show ?thesis using run by (simp add: bind_rows_def Let_def)
qed

section \<open>Properties\<close>


definition example_binder :: "nat data_binder" where
  "example_binder =
     \<lparr>bd_dispatcher = \<lparr>dd_subs = example_subs\<lparr>ss_rows := [sample_row 4, sample_row 4]\<rparr>, dd_wrappers = [], dd_queue = [], dd_running = True\<rparr>,
      bd_collector = []\<rparr>"


text \<open>Copying the first value of rows without bound throws: their data size is the largest number and no vector of that size
  exists. Nothing is subscribed.\<close>

theorem bind_unbounded_copy_throws:
  assumes "r_max_size (ss_rows (dd_subs (bd_dispatcher b)) ! src) = UNBOUNDED_ROW_SIZE"
    and "r_max_size (ss_rows (dd_subs (bd_dispatcher b)) ! tgt) = UNBOUNDED_ROW_SIZE"
  shows "bind_rows junk garbage (Some src) (Some tgt) True force b =
           Inl (Throws (Logic_error ''cannot create std::vector larger than max_size()''))"
  using assms
  by (simp add: bind_rows_def copy_value_def copy_buffer_def row_data_size_def UNBOUNDED_ROW_SIZE_def READ_TO_STACK_MAX_SIZE_def unsigned_minus_1_eq_mask mask_eq_exp_minus_1)

theorem bind_unbounded_copy_throws_witness:
  "bind_rows (\<lambda>_. 0) (\<lambda>_. 0) (Some 0) (Some 0) True True
     (example_binder\<lparr>bd_dispatcher := (bd_dispatcher example_binder)\<lparr>dd_subs := example_subs\<lparr>ss_rows := [sample_row 0]\<rparr>\<rparr>\<rparr>) =
   Inl (Throws (Logic_error ''cannot create std::vector larger than max_size()''))"
  by (rule bind_unbounded_copy_throws) (simp_all add: sample_row_def memory_row_impl_def)

end
