(* ===== verification/Ini_File.thy ===== *)
theory Ini_File
  imports Types_Util "HOL-Library.Sublist"
begin

text \<open>
  The INI file of \<^verbatim>\<open>Modules/files/common_files/ini_file_impl.cpp\<close>: a list of lines with their kinds that is read when
  the object is made, changed by the writers and written back by \<^verbatim>\<open>flush\<close>.

  An iterator into the list is an index. The disk is a map from paths to contents together with the paths that can be
  opened for writing; opening for writing truncates. A C string argument is \<open>None\<close> for a null pointer. Values of
  floating point type are left out: their text is that of \<^verbatim>\<open>printf\<close>.

  The locale \<open>settings\<close> is what an application expects of a settings file: a value written under a section and a key is
  the value read there, and nothing else changes. The file meets it on keys none of which ends another one.
\<close>

section \<open>State\<close>

datatype ini_entry_type = TYPE_NONE | TYPE_SECTION | TYPE_KEY_VALUE | TYPE_COMMENT

record ini_entry =
  entry_type :: ini_entry_type
  entry_text :: string

record ini_file =
  m_file_path :: string
  m_file_entry_list :: "ini_entry list"
  m_need_update :: bool

record disk =
  dk_contents :: "string \<Rightarrow> string option"
  dk_writable :: "string \<Rightarrow> bool"

definition open_for_writing :: "string \<Rightarrow> disk \<Rightarrow> disk option" where
  "open_for_writing path d =
     (if dk_writable d path then Some (d\<lparr>dk_contents := (dk_contents d)(path := Some [])\<rparr>) else None)"

section \<open>Reading the file\<close>

abbreviation LF :: char where "LF \<equiv> CHR 0x0A"
abbreviation CR :: char where "CR \<equiv> CHR 0x0D"

text \<open>\<^verbatim>\<open>std::getline\<close>: the line, what is left of the stream and whether the end of the file was met.\<close>

definition getline :: "string \<Rightarrow> string \<times> string \<times> bool" where
  "getline rest = (takeWhile ((\<noteq>) LF) rest, tl (dropWhile ((\<noteq>) LF) rest), dropWhile ((\<noteq>) LF) rest = [])"

definition line_type :: "string \<Rightarrow> ini_entry_type" where
  "line_type line =
     (if CHR ''['' \<in> set line \<and> CHR '']'' \<in> set line then TYPE_SECTION
      else if CHR ''='' \<in> set line then TYPE_KEY_VALUE
      else TYPE_COMMENT)"

definition new_entry :: "string \<Rightarrow> ini_entry" where
  "new_entry line0 =
     (let line = takeWhile ((\<noteq>) CR) line0
      in \<lparr>entry_type = line_type (takeWhile ((\<noteq>) CHR '';'') line), entry_text = line\<rparr>)"

lemma getline_shorter: "getline rest = (line, rest', False) \<Longrightarrow> length rest' < length rest"
proof -
  assume "getline rest = (line, rest', False)"
  then have "dropWhile ((\<noteq>) LF) rest \<noteq> []" and r: "rest' = tl (dropWhile ((\<noteq>) LF) rest)"
    by (auto simp: getline_def)
  then have "length rest' < length (dropWhile ((\<noteq>) LF) rest)"
    by (cases "dropWhile ((\<noteq>) LF) rest") auto
  also have "\<dots> \<le> length rest" by (rule length_dropWhile_le)
  finally show ?thesis .
qed

function read_loop :: "string \<Rightarrow> ini_entry list \<Rightarrow> ini_entry list" where
  "read_loop rest es =
     (case getline rest of (line, rest', eof) \<Rightarrow>
        if eof then es @ [new_entry line] else read_loop rest' (es @ [new_entry line]))"
  by pat_completeness auto
termination
proof (relation "measure (\<lambda>(rest, es). length rest)", goal_cases)
  case (2 rest es)
  then show ?case by (auto dest!: getline_shorter[OF sym])
qed simp

declare read_loop.simps [simp del]

definition read_file_data :: "disk \<Rightarrow> ini_file \<Rightarrow> bool \<times> ini_file" where
  "read_file_data d f =
     (case dk_contents d (m_file_path f) of
        None \<Rightarrow> (False, f)
      | Some text \<Rightarrow> (True, f\<lparr>m_file_entry_list := read_loop text []\<rparr>))"

definition ini_file_construct :: "string \<Rightarrow> disk \<Rightarrow> ini_file result" where
  "ini_file_construct path d =
     (case read_file_data d \<lparr>m_file_path = path, m_file_entry_list = [], m_need_update = False\<rparr> of
        (ok, f) \<Rightarrow> if ok then Inr f else Inl (Throws (Runtime_error ''Failed reading INI file'')))"

text \<open>\<open>None\<close> is \<^verbatim>\<open>return false\<close>: every exception of the constructor is caught.\<close>

definition ini_file_create :: "string option \<Rightarrow> disk \<Rightarrow> ini_file option" where
  "ini_file_create file_path d =
     (case file_path of
        None \<Rightarrow> None
      | Some path \<Rightarrow> (case ini_file_construct path d of Inl _ \<Rightarrow> None | Inr f \<Rightarrow> Some f))"

section \<open>Writing the file\<close>

definition ini_flush :: "ini_file \<Rightarrow> disk \<Rightarrow> bool \<times> ini_file \<times> disk" where
  "ini_flush f d =
     (if \<not> m_need_update f then (True, f, d)
      else case open_for_writing (m_file_path f) d of
             None \<Rightarrow> (False, f, d)
           | Some d' \<Rightarrow>
               (True, f\<lparr>m_need_update := False\<rparr>,
                d'\<lparr>dk_contents := (dk_contents d')(m_file_path f \<mapsto>
                     concat (map (\<lambda>entry. entry_text entry @ [LF]) (m_file_entry_list f)))\<rparr>))"

section \<open>Looking up\<close>

definition section_entry :: "string \<Rightarrow> ini_entry" where
  "section_entry section = \<lparr>entry_type = TYPE_SECTION, entry_text = ''['' @ section @ '']''\<rparr>"

fun position :: "'a \<Rightarrow> 'a list \<Rightarrow> nat option" where
  "position x [] = None"
| "position x (y # ys) = (if x = y then Some 0 else map_option Suc (position x ys))"

definition find_section :: "string \<Rightarrow> ini_entry list \<Rightarrow> nat option" where
  "find_section section es = position (section_entry section) es"

definition contains :: "string \<Rightarrow> string \<Rightarrow> bool" where
  "contains text pat \<longleftrightarrow> str_find text pat 0 \<noteq> None"

fun find_key :: "string \<Rightarrow> ini_entry list \<Rightarrow> nat \<Rightarrow> nat option" where
  "find_key keyeq [] itr = None"
| "find_key keyeq (entry # es) itr =
     (if entry_type entry = TYPE_SECTION then None
      else if entry_type entry = TYPE_KEY_VALUE \<and> contains (entry_text entry) keyeq then Some itr
      else find_key keyeq es (Suc itr))"

definition find_entry :: "string \<Rightarrow> string \<Rightarrow> ini_entry list \<Rightarrow> nat option" where
  "find_entry section key es =
     (case find_section section es of
        None \<Rightarrow> None
      | Some itr \<Rightarrow> find_key (key @ ''='') (drop (Suc itr) es) (Suc itr))"

definition entry_value :: "string \<Rightarrow> string" where
  "entry_value text =
     (case str_find text ''='' 0 of None \<Rightarrow> c_string text | Some pos \<Rightarrow> c_string (drop (Suc pos) text))"

definition get_key_value :: "string option \<Rightarrow> string option \<Rightarrow> ini_file \<Rightarrow> string" where
  "get_key_value section key f =
     (case (section, key) of
        (Some s, Some k) \<Rightarrow>
          (case find_entry s k (m_file_entry_list f) of
             None \<Rightarrow> []
           | Some itr \<Rightarrow> entry_value (entry_text (m_file_entry_list f ! itr)))
      | _ \<Rightarrow> [])"

section \<open>Writers\<close>

definition key_value_entry :: "string \<Rightarrow> string \<Rightarrow> ini_entry" where
  "key_value_entry key value = \<lparr>entry_type = TYPE_KEY_VALUE, entry_text = key @ ''='' @ value\<rparr>"

definition blank_entry :: ini_entry where
  "blank_entry = \<lparr>entry_type = TYPE_COMMENT, entry_text = []\<rparr>"

definition put_entry :: "string \<Rightarrow> string \<Rightarrow> string \<Rightarrow> ini_entry list \<Rightarrow> ini_entry list" where
  "put_entry section key value es =
     (case find_section section es of
        None \<Rightarrow> es @ [blank_entry, section_entry section, key_value_entry key value]
      | Some itr_sec \<Rightarrow>
          (case find_entry section key es of
             None \<Rightarrow> take (Suc itr_sec) es @ [key_value_entry key value] @ drop (Suc itr_sec) es
           | Some itr_key \<Rightarrow> es[itr_key := (es ! itr_key)\<lparr>entry_text := key @ ''='' @ value\<rparr>]))"

definition ini_write_string :: "string option \<Rightarrow> string option \<Rightarrow> string option \<Rightarrow> ini_file \<Rightarrow> bool \<times> ini_file" where
  "ini_write_string section key value f =
     (case (section, key, value) of
        (Some s, Some k, Some v) \<Rightarrow>
          (True, f\<lparr>m_file_entry_list := put_entry s k v (m_file_entry_list f), m_need_update := True\<rparr>)
      | _ \<Rightarrow> (False, f))"

definition int_text :: "int \<Rightarrow> string" where
  "int_text i = (if i < 0 then CHR ''-'' # nat_text (nat (- i)) else nat_text (nat i))"

definition write_bool :: "string option \<Rightarrow> string option \<Rightarrow> bool \<Rightarrow> ini_file \<Rightarrow> bool \<times> ini_file" where
  "write_bool section key value f =
     (if section = None \<or> key = None then (False, f)
      else ini_write_string section key (Some (if value then ''1'' else ''0'')) f)"

definition write_int :: "string option \<Rightarrow> string option \<Rightarrow> 32 word \<Rightarrow> ini_file \<Rightarrow> bool \<times> ini_file" where
  "write_int section key value f =
     (if section = None \<or> key = None then (False, f)
      else ini_write_string section key (Some (int_text (sint value))) f)"

definition write_long :: "string option \<Rightarrow> string option \<Rightarrow> int64 \<Rightarrow> ini_file \<Rightarrow> bool \<times> ini_file" where
  "write_long section key value f =
     (if section = None \<or> key = None then (False, f)
      else ini_write_string section key (Some (int_text (sint value))) f)"

text \<open>Floating point: the text of a number (\<^verbatim>\<open>std::to_string\<close>) and its reading (\<^verbatim>\<open>std::atof\<close>, and its rounding to
  \<^verbatim>\<open>float\<close>) are parameters.\<close>

definition write_float :: "('fl \<Rightarrow> string) \<Rightarrow> string option \<Rightarrow> string option \<Rightarrow> 'fl \<Rightarrow> ini_file \<Rightarrow> bool \<times> ini_file" where
  "write_float to_string section key value f =
     (if section = None \<or> key = None then (False, f) else ini_write_string section key (Some (to_string value)) f)"

definition write_double :: "('d \<Rightarrow> string) \<Rightarrow> string option \<Rightarrow> string option \<Rightarrow> 'd \<Rightarrow> ini_file \<Rightarrow> bool \<times> ini_file" where
  "write_double to_string section key value f =
     (if section = None \<or> key = None then (False, f) else ini_write_string section key (Some (to_string value)) f)"

definition delete_key :: "string option \<Rightarrow> string option \<Rightarrow> ini_file \<Rightarrow> bool \<times> ini_file" where
  "delete_key section key f =
     (case (section, key) of
        (Some s, Some k) \<Rightarrow>
          (case find_entry s k (m_file_entry_list f) of
             None \<Rightarrow> (False, f)
           | Some itr \<Rightarrow>
               (True, f\<lparr>m_file_entry_list := take itr (m_file_entry_list f) @ drop (Suc itr) (m_file_entry_list f),
                        m_need_update := True\<rparr>))
      | _ \<Rightarrow> (False, f))"

section \<open>Readers\<close>

text \<open>\<^verbatim>\<open>std::atoi\<close> and \<^verbatim>\<open>std::atoll\<close>: white space, a sign, digits; a number outside of the type is undefined
  behaviour.\<close>

definition ato :: "string \<Rightarrow> 'a::len word result" where
  "ato text =
     (let i = signed_value text; m = 2 ^ (LENGTH('a) - 1)
      in if - m \<le> i \<and> i < m then Inr (word_of_int i) else Inl Undefined)"

text \<open>A reader returns whether the value came from the file, and what it leaves in its out parameter (\<open>None\<close>: it does
  not touch it).\<close>

definition read_int :: "string option \<Rightarrow> string option \<Rightarrow> 32 word \<Rightarrow> ini_file \<Rightarrow> (bool \<times> 32 word option) result" where
  "read_int section key def_val f =
     (if section = None \<or> key = None then Inr (False, None)
      else let val_str = get_key_value section key f
           in if val_str = [] then Inr (False, Some def_val)
              else res_map (\<lambda>v. (True, Some v)) (ato val_str))"

definition read_long :: "string option \<Rightarrow> string option \<Rightarrow> int64 \<Rightarrow> ini_file \<Rightarrow> (bool \<times> int64 option) result" where
  "read_long section key def_val f =
     (if section = None \<or> key = None then Inr (False, None)
      else let val_str = get_key_value section key f
           in if val_str = [] then Inr (False, Some def_val)
              else res_map (\<lambda>v. (True, Some v)) (ato val_str))"

definition read_bool :: "string option \<Rightarrow> string option \<Rightarrow> bool \<Rightarrow> ini_file \<Rightarrow> (bool \<times> bool option) result" where
  "read_bool section key def_val f =
     (if section = None \<or> key = None then Inr (False, None)
      else let val_str = get_key_value section key f
           in if val_str = [] then Inr (False, Some def_val)
              else res_map (\<lambda>v. (True, Some (v \<noteq> 0))) (ato val_str :: 32 word result))"

definition read_float ::
  "(string \<Rightarrow> 'd) \<Rightarrow> ('d \<Rightarrow> 'fl) \<Rightarrow> string option \<Rightarrow> string option \<Rightarrow> 'fl \<Rightarrow> ini_file \<Rightarrow> bool \<times> 'fl option" where
  "read_float atof to_float section key def_val f =
     (if section = None \<or> key = None then (False, None)
      else let val_str = get_key_value section key f
           in if val_str = [] then (False, Some def_val) else (True, Some (to_float (atof val_str))))"

definition read_double :: "(string \<Rightarrow> 'd) \<Rightarrow> string option \<Rightarrow> string option \<Rightarrow> 'd \<Rightarrow> ini_file \<Rightarrow> bool \<times> 'd option" where
  "read_double atof section key def_val f =
     (if section = None \<or> key = None then (False, None)
      else let val_str = get_key_value section key f
           in if val_str = [] then (False, Some def_val) else (True, Some (atof val_str)))"

text \<open>\<^verbatim>\<open>memset\<close> of one byte more than the text, then \<^verbatim>\<open>strncpy\<close> of the text, which
  stops at a NUL and fills up with NULs. The size that is passed is not
  used on this platform.\<close>

definition strncpy_text :: "string \<Rightarrow> string" where
  "strncpy_text text = c_string text @ replicate (length text - length (c_string text)) (CHR 0x00)"

definition copy_text :: "string \<Rightarrow> string \<Rightarrow> string result" where
  "copy_text buffer text =
     res_bind (mem_write buffer 0 (replicate (length text + 1) (CHR 0x00))) (\<lambda>b. mem_write b 0 (strncpy_text text))"

definition ini_read_string ::
  "string option \<Rightarrow> string option \<Rightarrow> string option \<Rightarrow> size_t \<Rightarrow> string option \<Rightarrow> ini_file \<Rightarrow> (bool \<times> string option) result" where
  "ini_read_string section key value buffer_size def_val f =
     (case (section, key, value, def_val) of
        (Some s, Some k, Some buffer, Some def_text) \<Rightarrow>
          (let val_str = get_key_value section key f
           in if val_str = [] then res_map (\<lambda>b. (False, Some b)) (copy_text buffer def_text)
              else res_map (\<lambda>b. (True, Some b)) (copy_text buffer val_str))
      | _ \<Rightarrow> Inr (False, value))"

text \<open>Reading by position: the three buffers, the running section and the number of key-value lines passed.\<close>

fun read_index_loop ::
  "nat \<Rightarrow> ini_entry list \<Rightarrow> nat \<Rightarrow> string \<times> string \<times> string \<Rightarrow> (bool \<times> string \<times> string \<times> string) result" where
  "read_index_loop index [] i (section, key, value) = Inr (False, section, key, value)"
| "read_index_loop index (entry # es) i (section, key, value) =
     res_bind (if entry_type entry = TYPE_SECTION
               then copy_text section (filter ((\<noteq>) CHR '']'') (filter ((\<noteq>) CHR ''['') (entry_text entry)))
               else Inr section) (\<lambda>section.
       if entry_type entry = TYPE_KEY_VALUE
       then if i = index
            then (let text = entry_text entry;
                      k = (case str_find text ''='' 0 of None \<Rightarrow> text | Some pos \<Rightarrow> take pos text);
                      v = (case str_find text ''='' 0 of None \<Rightarrow> text | Some pos \<Rightarrow> drop (Suc pos) text)
                  in res_bind (copy_text key k) (\<lambda>key. res_map (\<lambda>value. (True, section, key, value)) (copy_text value v)))
            else read_index_loop index es (Suc i) (section, key, value)
       else read_index_loop index es i (section, key, value))"

definition read_string_at ::
  "nat \<Rightarrow> string option \<Rightarrow> string option \<Rightarrow> string option \<Rightarrow> ini_file \<Rightarrow> (bool \<times> (string \<times> string \<times> string) option) result" where
  "read_string_at index section key value f =
     (case (section, key, value) of
        (Some s, Some k, Some v) \<Rightarrow>
          res_bind (read_index_loop index (m_file_entry_list f) 0 (s, k, v)) (\<lambda>(found, s, k, v).
            if \<not> found then Inr (False, Some (s, k, v))
            else if s = [] \<or> k = [] \<or> v = [] then Inl Undefined
            else Inr (hd s \<noteq> CHR 0x00 \<and> hd k \<noteq> CHR 0x00 \<and> hd v \<noteq> CHR 0x00, Some (s, k, v)))
      | _ \<Rightarrow> Inr (False, None))"

section \<open>The pairs of a section\<close>

text \<open>The abstract view: a section is the list of the key-value pairs between its line and the next section.\<close>

definition no_section :: "ini_entry \<Rightarrow> bool" where
  "no_section e \<longleftrightarrow> entry_type e \<noteq> TYPE_SECTION"

definition is_pair :: "ini_entry \<Rightarrow> bool" where
  "is_pair e \<longleftrightarrow> entry_type e = TYPE_KEY_VALUE"

fun region :: "string \<Rightarrow> ini_entry list \<Rightarrow> ini_entry list" where
  "region s [] = []"
| "region s (e # es) = (if e = section_entry s then takeWhile no_section es else region s es)"

definition pair_of :: "ini_entry \<Rightarrow> string \<times> string" where
  "pair_of e = (takeWhile ((\<noteq>) CHR ''='') (entry_text e), tl (dropWhile ((\<noteq>) CHR ''='') (entry_text e)))"

definition section_pairs :: "string \<Rightarrow> ini_entry list \<Rightarrow> (string \<times> string) list" where
  "section_pairs s es = map pair_of (filter is_pair (region s es))"

text \<open>The reference operations on the pairs: replace the first pair of the key or add one in front; remove the first
  pair of the key.\<close>

fun replace_first :: "'k \<Rightarrow> 'v \<Rightarrow> ('k \<times> 'v) list \<Rightarrow> ('k \<times> 'v) list" where
  "replace_first k v [] = []"
| "replace_first k v (p # ps) = (if fst p = k then (k, v) # ps else p # replace_first k v ps)"

definition put_pair :: "'k \<Rightarrow> 'v \<Rightarrow> ('k \<times> 'v) list \<Rightarrow> ('k \<times> 'v) list" where
  "put_pair k v ps = (if k \<in> fst ` set ps then replace_first k v ps else (k, v) # ps)"

fun remove_first :: "'k \<Rightarrow> ('k \<times> 'v) list \<Rightarrow> ('k \<times> 'v) list" where
  "remove_first k [] = []"
| "remove_first k (p # ps) = (if fst p = k then ps else p # remove_first k ps)"

text \<open>A key of the file is exact if the text \<^verbatim>\<open>key=\<close> occurs in a pair only as that pair's own key.\<close>

definition exact_key :: "string \<Rightarrow> ini_entry list \<Rightarrow> bool" where
  "exact_key k es \<longleftrightarrow> (\<forall>e \<in> set es. is_pair e \<longrightarrow> contains (entry_text e) (k @ ''='') = (fst (pair_of e) = k))"

section \<open>Lemmas on the lines\<close>

lemma map_of_put_pair: "map_of (put_pair k v ps) k' = (if k' = k then Some v else map_of ps k')"
proof -
  have "k \<in> fst ` set ps \<Longrightarrow> map_of (replace_first k v ps) k' = (if k' = k then Some v else map_of ps k')"
    by (induction ps) (force simp: image_iff)+
  then show ?thesis by (cases "k \<in> fst ` set ps") (simp_all add: put_pair_def)
qed

lemma map_of_remove_first:
  "distinct (map fst ps) \<Longrightarrow> map_of (remove_first k ps) k' = (if k' = k then None else map_of ps k')"
  by (induction ps) (force simp: map_of_eq_None_iff image_iff)+

lemma keys_replace_first: "map fst (replace_first k v ps) = map fst ps"
  by (induction ps) auto

lemma keys_put_pair:
  "map fst (put_pair k v ps) = (if k \<in> fst ` set ps then map fst ps else k # map fst ps)"
  by (simp add: put_pair_def keys_replace_first)

lemma set_remove_first: "set (remove_first k ps) \<subseteq> set ps"
  by (induction ps) auto

lemma distinct_remove_first: "distinct (map fst ps) \<Longrightarrow> distinct (map fst (remove_first k ps))"
  by (induction ps) (use set_remove_first in \<open>fastforce+\<close>)

lemma section_entry_eq [simp]: "section_entry s = section_entry s' \<longleftrightarrow> s = s'"
  by (simp add: section_entry_def)

lemma line_kinds [simp]:
  "\<not> no_section (section_entry s)" "no_section blank_entry" "no_section (key_value_entry k v)"
  "\<not> is_pair blank_entry" "is_pair (key_value_entry k v)" "\<not> is_pair (section_entry s)"
  by (simp_all add: no_section_def is_pair_def section_entry_def blank_entry_def key_value_entry_def)

lemma is_pair_no_section [simp]: "is_pair e \<Longrightarrow> no_section e"
  by (simp add: is_pair_def no_section_def)

lemma position_SomeD:
  "position x xs = Some i \<Longrightarrow> \<exists>pre post. xs = pre @ x # post \<and> length pre = i \<and> x \<notin> set pre"
proof (induction xs arbitrary: i)
  case (Cons y ys)
  show ?case
  proof (cases "x = y")
    case True
    with Cons.prems show ?thesis by (intro exI[of _ "[]"] exI[of _ ys]) auto
  next
    case False
    with Cons obtain j pre post where "i = Suc j" "ys = pre @ x # post" "length pre = j" "x \<notin> set pre" by fastforce
    with False show ?thesis by (intro exI[of _ "y # pre"] exI[of _ post]) auto
  qed
qed simp

lemma position_NoneD: "position x xs = None \<longleftrightarrow> x \<notin> set xs"
  by (induction xs) auto

lemma region_split: "section_entry s \<notin> set pre \<Longrightarrow> region s (pre @ section_entry s # post) = takeWhile no_section post"
  by (induction pre) auto

lemma region_absent: "section_entry s \<notin> set es \<Longrightarrow> region s es = []"
  by (induction es) auto

lemma region_skip: "\<forall>x \<in> set xs. no_section x \<Longrightarrow> region s (xs @ ys) = region s ys"
  by (induction xs) auto

lemma region_other:
  "s' \<noteq> s \<Longrightarrow>
   region s' (pre @ section_entry s # ys) =
     (if section_entry s' \<in> set pre then region s' (pre @ [section_entry s]) else region s' ys)"
proof (induction pre)
  case (Cons p pre)
  have "takeWhile no_section (pre @ section_entry s # ys) = takeWhile no_section (pre @ [section_entry s])"
    by (induction pre) auto
  with Cons show ?case by simp
qed simp

text \<open>A change of lines that are not sections, behind the line of \<open>s\<close> and before the next section, is not seen in
  another section.\<close>

lemma region_other_change:
  assumes "s' \<noteq> s" and "\<forall>x \<in> set xs. no_section x" and "\<forall>x \<in> set xs'. no_section x"
  shows "region s' (pre @ section_entry s # xs @ post) = region s' (pre @ section_entry s # xs' @ post)"
  using region_other[OF assms(1), of pre "xs @ post"] region_other[OF assms(1), of pre "xs' @ post"]
    region_skip[OF assms(2), of s' post] region_skip[OF assms(3), of s' post] by simp

lemma pairs_new_section:
  assumes "section_entry s \<notin> set es"
  shows "filter is_pair (region s' (es @ [blank_entry, section_entry s, key_value_entry k v])) =
         (if s' = s then [key_value_entry k v] else filter is_pair (region s' es))"
  using assms
proof (induction es)
  case (Cons e es)
  have "filter is_pair (takeWhile no_section (es @ [blank_entry, section_entry s, key_value_entry k v])) =
        filter is_pair (takeWhile no_section es)"
    by (induction es) auto
  with Cons show ?case by auto
qed (auto simp: section_entry_def blank_entry_def is_pair_def no_section_def key_value_entry_def)

lemma find_key_NoneD:
  "find_key keyeq es i = None \<longleftrightarrow>
     (\<forall>e \<in> set (takeWhile no_section es). is_pair e \<longrightarrow> \<not> contains (entry_text e) keyeq)"
  by (induction es arbitrary: i) (auto simp: no_section_def is_pair_def)

lemma find_key_SomeD:
  "find_key keyeq es i = Some j \<Longrightarrow>
   \<exists>mid e post. es = mid @ e # post \<and> j = i + length mid \<and> is_pair e \<and> contains (entry_text e) keyeq \<and>
     (\<forall>x \<in> set mid. no_section x \<and> (is_pair x \<longrightarrow> \<not> contains (entry_text x) keyeq))"
proof (induction es arbitrary: i)
  case (Cons e es)
  show ?case
  proof (cases "is_pair e \<and> contains (entry_text e) keyeq")
    case True
    with Cons.prems show ?thesis
      by (intro exI[of _ "[]"]) (auto simp: is_pair_def split: if_splits)
  next
    case False
    with Cons.prems have "find_key keyeq es (Suc i) = Some j" and "no_section e"
      by (auto simp: is_pair_def no_section_def split: if_splits)
    from Cons.IH[OF this(1)] this(2) False show ?thesis
      by (elim exE) (rule_tac x = "e # mid" in exI, auto)
  qed
qed simp

lemma find_section_SomeD:
  "find_section s es = Some i \<Longrightarrow>
   \<exists>pre post. es = pre @ section_entry s # post \<and> length pre = i \<and> section_entry s \<notin> set pre"
  unfolding find_section_def by (rule position_SomeD)

lemma find_entry_SomeD:
  assumes "find_entry s k es = Some j"
  shows "\<exists>pre mid e post. es = pre @ section_entry s # mid @ e # post \<and> j = Suc (length pre + length mid) \<and>
           section_entry s \<notin> set pre \<and> is_pair e \<and> contains (entry_text e) (k @ ''='') \<and>
           (\<forall>x \<in> set mid. no_section x \<and> (is_pair x \<longrightarrow> \<not> contains (entry_text x) (k @ ''='')))"
proof -
  from assms obtain i where i: "find_section s es = Some i"
    and j: "find_key (k @ ''='') (drop (Suc i) es) (Suc i) = Some j"
    by (auto simp: find_entry_def split: option.splits)
  from find_section_SomeD[OF i] obtain pre post
    where es: "es = pre @ section_entry s # post" "length pre = i" "section_entry s \<notin> set pre" by blast
  with find_key_SomeD[OF j] show ?thesis by fastforce
qed

lemma find_entry_NoneD:
  assumes "find_entry s k es = None"
  shows "\<forall>e \<in> set (region s es). is_pair e \<longrightarrow> \<not> contains (entry_text e) (k @ ''='')"
proof (cases "find_section s es")
  case None
  then show ?thesis by (simp add: find_section_def position_NoneD region_absent)
next
  case (Some i)
  from find_section_SomeD[OF Some] obtain pre post
    where "es = pre @ section_entry s # post" "length pre = i" "section_entry s \<notin> set pre" by blast
  with assms Some show ?thesis by (auto simp: find_entry_def find_key_NoneD region_split)
qed

section \<open>The operations on the lines implement those on the pairs\<close>

lemma pair_of_key_value: "CHR ''='' \<notin> set k \<Longrightarrow> pair_of (key_value_entry k v) = (k, v)"
  by (auto simp: pair_of_def key_value_entry_def takeWhile_append2 dropWhile_append2 takeWhile_append dropWhile_append)

lemma replace_first_append:
  "k \<notin> fst ` set ps \<Longrightarrow> replace_first k v (ps @ (k, v') # qs) = ps @ (k, v) # qs"
  by (induction ps) auto

lemma remove_first_append: "k \<notin> fst ` set ps \<Longrightarrow> remove_first k (ps @ (k, v') # qs) = ps @ qs"
  by (induction ps) auto

text \<open>What a found entry means for the pairs of its section.\<close>

lemma found_pairs:
  assumes "find_entry s k es = Some j" and "exact_key k es"
  shows "\<exists>pre mid e post qs. es = pre @ section_entry s # mid @ e # post \<and> j = Suc (length pre + length mid) \<and>
           section_entry s \<notin> set pre \<and> is_pair e \<and> fst (pair_of e) = k \<and> (\<forall>x \<in> set mid. no_section x) \<and>
           k \<notin> fst ` set (map pair_of (filter is_pair mid)) \<and> qs = map pair_of (filter is_pair (takeWhile no_section post)) \<and>
           section_pairs s es = map pair_of (filter is_pair mid) @ pair_of e # qs"
proof -
  from find_entry_SomeD[OF assms(1)] obtain pre mid e post where
    es: "es = pre @ section_entry s # mid @ e # post" and j: "j = Suc (length pre + length mid)"
    and pre: "section_entry s \<notin> set pre" and e: "is_pair e" "contains (entry_text e) (k @ ''='')"
    and mid: "\<forall>x \<in> set mid. no_section x \<and> (is_pair x \<longrightarrow> \<not> contains (entry_text x) (k @ ''=''))" by blast
  have "fst (pair_of e) = k" "k \<notin> fst ` set (map pair_of (filter is_pair mid))"
    using assms(2) e mid by (auto simp: exact_key_def es)
  moreover have "region s es = mid @ e # takeWhile no_section post"
    using pre mid e(1) by (simp add: es region_split takeWhile_append2)
  then have "section_pairs s es = map pair_of (filter is_pair mid) @ pair_of e # map pair_of (filter is_pair (takeWhile no_section post))"
    using e(1) by (simp add: section_pairs_def)
  ultimately show ?thesis using es j pre e mid by blast
qed

lemma not_found_pairs:
  assumes "find_entry s k es = None" and "exact_key k es"
  shows "k \<notin> fst ` set (section_pairs s es)"
proof -
  have "set (region s es) \<subseteq> set es" by (induction es) (auto dest: set_takeWhileD)
  with find_entry_NoneD[OF assms(1)] assms(2) show ?thesis by (auto simp: section_pairs_def exact_key_def)
qed

lemma put_entry_pairs:
  assumes "exact_key k es" and "CHR ''='' \<notin> set k"
  shows "section_pairs s' (put_entry s k v es) = (if s' = s then put_pair k v (section_pairs s es) else section_pairs s' es)"
proof (cases "find_section s es")
  case None
  then have "section_entry s \<notin> set es" by (simp add: find_section_def position_NoneD)
  with None show ?thesis
    by (simp add: put_entry_def section_pairs_def pairs_new_section region_absent pair_of_key_value[OF assms(2)] put_pair_def)
next
  case sec: (Some i)
  from find_section_SomeD[OF sec] obtain pre post where
    es: "es = pre @ section_entry s # post" "length pre = i" "section_entry s \<notin> set pre" by blast
  show ?thesis
  proof (cases "find_entry s k es")
    case None
    then have "put_entry s k v es = take (Suc i) es @ [key_value_entry k v] @ drop (Suc i) es"
      by (simp add: put_entry_def sec)
    then have "put_entry s k v es = pre @ section_entry s # [key_value_entry k v] @ post"
      by (simp add: es(1) flip: es(2))
    moreover have "s' \<noteq> s \<Longrightarrow> region s' (pre @ section_entry s # [key_value_entry k v] @ post) = region s' (pre @ section_entry s # [] @ post)"
      by (rule region_other_change) auto
    ultimately show ?thesis using not_found_pairs[OF None assms(1)] es(3)
      by (auto simp: section_pairs_def es(1) region_split put_pair_def pair_of_key_value[OF assms(2)])
  next
    case (Some j)
    from found_pairs[OF Some assms(1)] obtain pre mid e post qs where
      f: "es = pre @ section_entry s # mid @ e # post" "j = Suc (length pre + length mid)"
      "section_entry s \<notin> set pre" "is_pair e" "fst (pair_of e) = k" "\<forall>x \<in> set mid. no_section x"
      "k \<notin> fst ` set (map pair_of (filter is_pair mid))" "qs = map pair_of (filter is_pair (takeWhile no_section post))"
      "section_pairs s es = map pair_of (filter is_pair mid) @ pair_of e # qs" by blast
    define e' where "e' = e\<lparr>entry_text := k @ ''='' @ v\<rparr>"
    have e': "e' = key_value_entry k v" using f(4) by (simp add: e'_def key_value_entry_def is_pair_def)
    have put: "put_entry s k v es = pre @ section_entry s # (mid @ [e']) @ post"
      using Some sec by (simp add: put_entry_def f(1,2) e'_def list_update_append nth_append)
    have "pair_of e = (k, snd (pair_of e))" using f(5) by (metis prod.collapse)
    moreover have "k \<in> fst ` set (section_pairs s es)" using f(5) by (auto simp: f(9))
    ultimately have "put_pair k v (section_pairs s es) = map pair_of (filter is_pair mid) @ (k, v) # qs"
      using replace_first_append[OF f(7), of v "snd (pair_of e)" qs] by (simp add: put_pair_def f(9))
    moreover have "region s (pre @ section_entry s # (mid @ [e']) @ post) = mid @ e' # takeWhile no_section post"
      using f(3,6) by (simp add: region_split takeWhile_append2 e')
    moreover have "s' \<noteq> s \<Longrightarrow> region s' (pre @ section_entry s # (mid @ [e']) @ post) = region s' (pre @ section_entry s # (mid @ [e]) @ post)"
      by (rule region_other_change) (use f(4,6) e' in auto)
    ultimately show ?thesis using f(1,8) unfolding put section_pairs_def
      by (auto simp: e' pair_of_key_value[OF assms(2)])
  qed
qed

lemma delete_entry_pairs:
  assumes "find_entry s k es = Some j" and "exact_key k es"
  shows "section_pairs s' (take j es @ drop (Suc j) es) =
         (if s' = s then remove_first k (section_pairs s es) else section_pairs s' es)"
proof -
  from found_pairs[OF assms] obtain pre mid e post qs where
    f: "es = pre @ section_entry s # mid @ e # post" "j = Suc (length pre + length mid)"
    "section_entry s \<notin> set pre" "is_pair e" "fst (pair_of e) = k" "\<forall>x \<in> set mid. no_section x"
    "k \<notin> fst ` set (map pair_of (filter is_pair mid))" "qs = map pair_of (filter is_pair (takeWhile no_section post))"
    "section_pairs s es = map pair_of (filter is_pair mid) @ pair_of e # qs" by blast
  have es': "take j es @ drop (Suc j) es = pre @ section_entry s # mid @ post" by (simp add: f(1,2))
  have "pair_of e = (k, snd (pair_of e))" using f(5) by (metis prod.collapse)
  then have "remove_first k (section_pairs s es) = map pair_of (filter is_pair mid) @ qs"
    using remove_first_append[OF f(7), of "snd (pair_of e)" qs] by (simp add: f(9))
  moreover have "region s (pre @ section_entry s # mid @ post) = mid @ takeWhile no_section post"
    using f(3,6) by (simp add: region_split takeWhile_append2)
  moreover have "s' \<noteq> s \<Longrightarrow> region s' (pre @ section_entry s # mid @ post) = region s' (pre @ section_entry s # (mid @ [e]) @ post)"
    by (rule region_other_change) (use f(4,6) in auto)
  ultimately show ?thesis using f(1,8) unfolding es' section_pairs_def by auto
qed

section \<open>Keys that can be told apart\<close>

lemma contains_iff: "contains text pat \<longleftrightarrow> (\<exists>us vs. text = us @ pat @ vs)"
proof -
  have "contains text pat \<longleftrightarrow> (\<exists>i. matches_at text pat i)"
    unfolding contains_def by (metis not_None_eq str_find_NoneD str_find_SomeD zero_le)
  also have "\<dots> \<longleftrightarrow> (\<exists>us vs. text = us @ pat @ vs)"
  proof (intro iffI; elim exE)
    fix i assume "matches_at text pat i"
    then have "text = take i text @ pat @ drop (i + length pat) text"
      unfolding matches_at_def by (metis append_take_drop_id drop_drop add.commute)
    then show "\<exists>us vs. text = us @ pat @ vs" by blast
  next
    fix us vs assume "text = us @ pat @ vs"
    then have "matches_at text pat (length us)" by (simp add: matches_at_def)
    then show "\<exists>i. matches_at text pat i" ..
  qed
  finally show ?thesis .
qed

lemma one_equals:
  assumes "k0 @ ''='' @ v0 = us @ ''='' @ vs" and "CHR ''='' \<notin> set k0" and "CHR ''='' \<notin> set v0"
  shows "us = k0 \<and> vs = v0"
proof -
  have "CHR ''='' \<notin> set us"
  proof
    assume "CHR ''='' \<in> set us"
    then have "2 \<le> count_list (us @ ''='' @ vs) CHR ''=''" by (simp add: count_list_0_iff Suc_leI neq0_conv[symmetric])
    moreover have "count_list (us @ ''='' @ vs) CHR ''='' = 1"
      using assms(2,3) unfolding assms(1)[symmetric] by (simp add: count_list_0_iff)
    ultimately show False by linarith
  qed
  then have "takeWhile ((\<noteq>) CHR ''='') (us @ ''='' @ vs) = us" by (auto simp: takeWhile_append)
  moreover have "takeWhile ((\<noteq>) CHR ''='') (k0 @ ''='' @ v0) = k0" using assms(2) by (auto simp: takeWhile_append)
  ultimately show ?thesis using assms(1) by simp
qed

lemma contains_key_iff:
  assumes "CHR ''='' \<notin> set k0" and "CHR ''='' \<notin> set v0"
  shows "contains (k0 @ ''='' @ v0) (k @ ''='') \<longleftrightarrow> suffix k k0"
proof
  assume "contains (k0 @ ''='' @ v0) (k @ ''='')"
  then obtain us vs where "k0 @ ''='' @ v0 = (us @ k) @ ''='' @ vs" by (auto simp: contains_iff)
  from one_equals[OF this assms] show "suffix k k0" by (metis suffixI)
next
  assume "suffix k k0"
  then obtain us where "k0 = us @ k" by (rule suffixE)
  then show "contains (k0 @ ''='' @ v0) (k @ ''='')" by (auto simp: contains_iff)
qed

lemma split_at_char: "c \<in> set t \<Longrightarrow> t = takeWhile ((\<noteq>) c) t @ c # tl (dropWhile ((\<noteq>) c) t)"
  by (induction t) auto

lemma entry_value_pair: "CHR ''='' \<in> set (entry_text e) \<Longrightarrow> entry_value (entry_text e) = c_string (snd (pair_of e))"
proof -
  assume "CHR ''='' \<in> set (entry_text e)"
  then have split: "entry_text e = fst (pair_of e) @ ''='' @ snd (pair_of e)" and nk: "CHR ''='' \<notin> set (fst (pair_of e))"
    using split_at_char[of "CHR ''=''" "entry_text e"] by (auto simp: pair_of_def dest: set_takeWhileD)
  have "str_find (entry_text e) ''='' 0 = Some (length (fst (pair_of e)))"
  proof (cases "str_find (entry_text e) ''='' 0")
    case None
    have "contains (entry_text e) ''=''" unfolding contains_iff using split by blast
    with None show ?thesis by (simp add: contains_def)
  next
    case (Some p)
    have "matches_at (entry_text e) ''='' (length (fst (pair_of e)))" by (subst split) (simp add: matches_at_def)
    with str_find_SomeD[OF Some] have le: "p \<le> length (fst (pair_of e))" and m: "matches_at (entry_text e) ''='' p"
      by (auto simp: not_le[symmetric])
    moreover have "\<not> p < length (fst (pair_of e))"
    proof
      assume lt: "p < length (fst (pair_of e))"
      have "entry_text e ! p = CHR ''=''" using m by (auto simp: matches_at_def take_Suc_conv_app_nth hd_drop_conv_nth dest!: arg_cong[of _ _ hd])
      with lt have "fst (pair_of e) ! p = CHR ''=''" by (subst (asm) split) (simp add: nth_append)
      with lt nk show False by (metis nth_mem)
    qed
    ultimately show ?thesis using Some by simp
  qed
  then show ?thesis by (simp add: entry_value_def) (subst split, simp)
qed

lemma get_pairs:
  assumes "exact_key k (m_file_entry_list f)"
  shows "get_key_value (Some s) (Some k) f =
         (case map_of (section_pairs s (m_file_entry_list f)) k of None \<Rightarrow> [] | Some v \<Rightarrow> c_string v)"
proof (cases "find_entry s k (m_file_entry_list f)")
  case None
  with not_found_pairs[OF None assms] show ?thesis by (simp add: get_key_value_def map_of_eq_None_iff[THEN iffD2])
next
  case (Some j)
  from found_pairs[OF Some assms] obtain pre mid e post qs where
    f: "m_file_entry_list f = pre @ section_entry s # mid @ e # post" "j = Suc (length pre + length mid)"
    "is_pair e" "fst (pair_of e) = k" "k \<notin> fst ` set (map pair_of (filter is_pair mid))"
    "section_pairs s (m_file_entry_list f) = map pair_of (filter is_pair mid) @ pair_of e # qs" by blast
  have "contains (entry_text e) (k @ ''='')" using assms f(3,4) by (simp add: exact_key_def f(1))
  then have "CHR ''='' \<in> set (entry_text e)" by (auto simp: contains_iff)
  moreover have "map_of (section_pairs s (m_file_entry_list f)) k = Some (snd (pair_of e))"
    using f(4,5) by (simp add: f(6) map_add_def map_of_eq_None_iff[THEN iffD2])
  moreover have "m_file_entry_list f ! j = e" by (simp add: f(1,2) nth_append)
  ultimately show ?thesis using Some by (simp add: get_key_value_def entry_value_pair)
qed

section \<open>Reading what was written\<close>

lemma find_entry_intro:
  assumes "section_entry s \<notin> set pre" and "is_pair e" and "contains (entry_text e) (k @ ''='')"
    and "\<forall>x \<in> set mid. no_section x \<and> (is_pair x \<longrightarrow> \<not> contains (entry_text x) (k @ ''=''))"
  shows "find_entry s k (pre @ section_entry s # mid @ e # post) = Some (Suc (length pre + length mid))"
proof -
  have "position (section_entry s) (pre @ section_entry s # mid @ e # post) = Some (length pre)"
    using assms(1) by (induction pre) auto
  moreover have "find_key (k @ ''='') (mid @ e # post) i = Some (i + length mid)" for i
    using assms(2-4) by (induction mid arbitrary: i) (auto simp: is_pair_def no_section_def)
  ultimately show ?thesis by (simp add: find_entry_def find_section_def)
qed

lemma contains_own_key: "contains (entry_text (key_value_entry k v)) (k @ ''='')"
  unfolding contains_iff key_value_entry_def by (intro exI[of _ "[]"] exI[of _ v]) auto

lemma find_entry_put:
  "\<exists>j. find_entry s k (put_entry s k v es) = Some j \<and> put_entry s k v es ! j = key_value_entry k v"
proof (cases "find_section s es")
  case None
  then have "section_entry s \<notin> set (es @ [blank_entry])"
    by (auto simp: find_section_def position_NoneD section_entry_def blank_entry_def)
  from find_entry_intro[OF this _ contains_own_key[of k v], where mid = "[]" and post = "[]"] None show ?thesis
    by (auto simp: put_entry_def nth_append)
next
  case sec: (Some i)
  show ?thesis
  proof (cases "find_entry s k es")
    case None
    from find_section_SomeD[OF sec] obtain pre post where
      es: "es = pre @ section_entry s # post" "length pre = i" "section_entry s \<notin> set pre" by blast
    have "put_entry s k v es = pre @ section_entry s # [] @ key_value_entry k v # post"
      using None by (simp add: put_entry_def sec) (simp add: es(1) flip: es(2))
    with find_entry_intro[OF es(3) _ contains_own_key[of k v], where mid = "[]" and post = post] show ?thesis by (auto simp: nth_append)
  next
    case (Some j)
    from find_entry_SomeD[OF Some] obtain pre mid e post where
      f: "es = pre @ section_entry s # mid @ e # post" "j = Suc (length pre + length mid)"
      "section_entry s \<notin> set pre" "is_pair e"
      "\<forall>x \<in> set mid. no_section x \<and> (is_pair x \<longrightarrow> \<not> contains (entry_text x) (k @ ''=''))" by blast
    have "e\<lparr>entry_text := k @ ''='' @ v\<rparr> = key_value_entry k v" using f(4) by (simp add: key_value_entry_def is_pair_def)
    then have "put_entry s k v es = pre @ section_entry s # mid @ key_value_entry k v # post"
      using Some sec by (simp add: put_entry_def f(1,2) list_update_append nth_append)
    with find_entry_intro[OF f(3) _ contains_own_key[of k v] f(5), where post = post] show ?thesis by (auto simp: nth_append)
  qed
qed

lemma nul_char: "char_of (0::nat) = CHR 0x00"
  by (simp add: char_of_def)

lemma c_string_id: "CHR 0x00 \<notin> set v \<Longrightarrow> c_string v = v"
  by (auto simp: c_string_def takeWhile_eq_all_conv nul_char)

lemma get_after_write:
  assumes "CHR ''='' \<notin> set k" and "CHR 0x00 \<notin> set v"
  shows "get_key_value (Some s) (Some k) (snd (ini_write_string (Some s) (Some k) (Some v) f)) = v"
proof -
  obtain j where "find_entry s k (put_entry s k v (m_file_entry_list f)) = Some j"
    and j: "put_entry s k v (m_file_entry_list f) ! j = key_value_entry k v" using find_entry_put by blast
  moreover have "entry_value (entry_text (key_value_entry k v)) = c_string v"
    using entry_value_pair[of "key_value_entry k v"] pair_of_key_value[OF assms(1), of v] by (simp add: key_value_entry_def)
  ultimately show ?thesis using assms(2) by (simp add: get_key_value_def ini_write_string_def c_string_id)
qed

section \<open>Integers as text\<close>

declare nat_text.simps [simp del]

lemma digit_char: "m < 10 \<Longrightarrow> is_digit_char (char_of (48 + m)) \<and> (of_char (char_of (48 + m) :: char) :: nat) = 48 + m"
  by (simp add: is_digit_char_def char_in_def)

lemma digits_value_snoc: "digits_value a (xs @ [c]) = digits_value a xs * 10 + (of_char c - 48)"
  by (induction xs arbitrary: a) auto

lemma nat_text_digits: "nat_text n \<noteq> [] \<and> (\<forall>c \<in> set (nat_text n). is_digit_char c) \<and> digits_value 0 (nat_text n) = n"
proof (induction n rule: nat_text.induct)
  case (1 n)
  show ?case
  proof (cases "n < 10")
    case True
    with digit_char[of n] show ?thesis by (simp add: nat_text.simps[of n])
  next
    case False
    with 1 digit_char[of "n mod 10"] show ?thesis by (simp add: nat_text.simps[of n] digits_value_snoc)
  qed
qed

lemma digit_not_special: "is_digit_char c \<Longrightarrow> \<not> is_space c \<and> c \<noteq> CHR ''-'' \<and> c \<noteq> CHR ''+'' \<and> c \<noteq> CHR ''='' \<and> c \<noteq> CHR 0x00"
  by (auto simp: is_digit_char_def is_space_def char_in_def)

lemma signed_value_int_text: "signed_value (int_text i) = i"
proof -
  have all: "takeWhile is_digit_char (nat_text n) = nat_text n" for n
    using nat_text_digits[of n] by (simp add: takeWhile_eq_all_conv)
  show ?thesis
  proof (cases "i < 0")
    case True
    then show ?thesis using nat_text_digits[of "nat (- i)"]
      by (simp add: signed_value_def int_text_def is_space_def char_in_def all)
  next
    case False
    obtain c cs where t: "nat_text (nat i) = c # cs" using nat_text_digits[of "nat i"] by (cases "nat_text (nat i)") auto
    moreover have "is_digit_char c" using nat_text_digits[of "nat i"] t by simp
    ultimately show ?thesis using False digit_not_special[of c] all[of "nat i"] nat_text_digits[of "nat i"]
      by (auto simp: signed_value_def int_text_def Let_def takeWhile_eq_all_conv[THEN iffD2])
  qed
qed

lemma ato_int_text: "ato (int_text (sint w)) = Inr (w :: 'a::len word)"
proof -
  have "- (2 ^ (LENGTH('a) - 1)) \<le> sint w" "sint w < 2 ^ (LENGTH('a) - 1)"
    using sint_greater_eq[of w] sint_less[of w] by simp_all
  then show ?thesis by (simp add: ato_def signed_value_int_text Let_def)
qed

lemma int_text_plain: "int_text i \<noteq> [] \<and> CHR 0x00 \<notin> set (int_text i) \<and> CHR ''='' \<notin> set (int_text i)"
  using nat_text_digits[of "nat i"] nat_text_digits[of "nat (- i)"] digit_not_special
  by (auto simp: int_text_def)

section \<open>The contract of a settings file\<close>

locale settings =
  fixes get :: "'f \<Rightarrow> string \<Rightarrow> string \<Rightarrow> string"
    and put :: "string \<Rightarrow> string \<Rightarrow> string \<Rightarrow> 'f \<Rightarrow> 'f"
    and remove :: "string \<Rightarrow> string \<Rightarrow> 'f \<Rightarrow> 'f"
    and inv :: "'f \<Rightarrow> bool"
    and names :: "string set"
    and vals :: "string set"
  assumes put_inv: "inv f \<Longrightarrow> k \<in> names \<Longrightarrow> v \<in> vals \<Longrightarrow> inv (put s k v f)"
    and remove_inv: "inv f \<Longrightarrow> k \<in> names \<Longrightarrow> inv (remove s k f)"
    and get_put: "inv f \<Longrightarrow> k \<in> names \<Longrightarrow> v \<in> vals \<Longrightarrow> k' \<in> names \<Longrightarrow>
                  get (put s k v f) s' k' = (if s' = s \<and> k' = k then v else get f s' k')"
    and get_remove: "inv f \<Longrightarrow> k \<in> names \<Longrightarrow> k' \<in> names \<Longrightarrow>
                     get (remove s k f) s' k' = (if s' = s \<and> k' = k then [] else get f s' k')"
begin

definition put_all :: "(string \<times> string \<times> string) list \<Rightarrow> 'f \<Rightarrow> 'f" where
  "put_all ws f = fold (\<lambda>(s, k, v). put s k v) ws f"

lemma put_all_inv:
  "inv f \<Longrightarrow> \<forall>(s, k, v) \<in> set ws. k \<in> names \<and> v \<in> vals \<Longrightarrow> inv (put_all ws f)"
  by (induction ws arbitrary: f) (auto simp: put_all_def put_inv)

text \<open>After any sequence of writes the value read is the one written last, or the old one.\<close>

lemma get_put_all:
  assumes "inv f" and "\<forall>(s, k, v) \<in> set ws. k \<in> names \<and> v \<in> vals" and "k' \<in> names"
  shows "get (put_all ws f) s' k' =
         (case map_of (rev (map (\<lambda>(s, k, v). ((s, k), v)) ws)) (s', k') of None \<Rightarrow> get f s' k' | Some v \<Rightarrow> v)"
  using assms(1,2)
proof (induction ws rule: rev_induct)
  case (snoc w ws)
  obtain s k v where w: "w = (s, k, v)" by (cases w)
  have "inv (put_all ws f)" using snoc.prems by (intro put_all_inv) auto
  moreover have "put_all (ws @ [w]) f = put s k v (put_all ws f)" by (simp add: put_all_def w)
  moreover have "k \<in> names" "v \<in> vals" using snoc.prems(2) by (simp_all add: w)
  ultimately show ?case using snoc assms(3) by (auto simp: get_put w)
qed (simp add: put_all_def)

lemma remove_undoes_put:
  "inv f \<Longrightarrow> k \<in> names \<Longrightarrow> v \<in> vals \<Longrightarrow> k' \<in> names \<Longrightarrow> get f s k = [] \<Longrightarrow>
   get (remove s k (put s k v f)) s' k' = get f s' k'"
  by (simp add: get_remove get_put put_inv)

end

text \<open>The files that meet the contract: the keys come from a set none of whose members ends another one or contains
  an equals sign, the values have no equals sign, and no key is twice in a section.\<close>

definition suffix_free :: "string set \<Rightarrow> bool" where
  "suffix_free N \<longleftrightarrow> (\<forall>k \<in> N. CHR ''='' \<notin> set k) \<and> (\<forall>k \<in> N. \<forall>k' \<in> N. suffix k k' \<longrightarrow> k = k')"

definition clean_value :: "string \<Rightarrow> bool" where
  "clean_value v \<longleftrightarrow> CHR ''='' \<notin> set v \<and> CHR 0x00 \<notin> set v"

definition clean :: "string set \<Rightarrow> ini_entry list \<Rightarrow> bool" where
  "clean N es \<longleftrightarrow>
     (\<forall>e \<in> set es. is_pair e \<longrightarrow>
        CHR ''='' \<in> set (entry_text e) \<and> fst (pair_of e) \<in> N \<and> clean_value (snd (pair_of e))) \<and>
     (\<forall>s. distinct (map fst (section_pairs s es)))"

lemma clean_exact:
  assumes "suffix_free N" and "clean N es" and "k \<in> N"
  shows "exact_key k es"
  unfolding exact_key_def
proof (intro ballI impI)
  fix e assume e: "e \<in> set es" "is_pair e"
  with assms(2) have c: "CHR ''='' \<in> set (entry_text e)" "fst (pair_of e) \<in> N" "CHR ''='' \<notin> set (snd (pair_of e))"
    by (auto simp: clean_def clean_value_def)
  have "entry_text e = fst (pair_of e) @ ''='' @ snd (pair_of e)"
    using split_at_char[OF c(1)] by (simp add: pair_of_def)
  moreover have "CHR ''='' \<notin> set (fst (pair_of e))" using assms(1) c(2) by (simp add: suffix_free_def)
  ultimately have "contains (entry_text e) (k @ ''='') \<longleftrightarrow> suffix k (fst (pair_of e))"
    using contains_key_iff[OF _ c(3)] by metis
  also have "\<dots> \<longleftrightarrow> fst (pair_of e) = k" using assms(1,3) c(2) by (auto simp: suffix_free_def)
  finally show "contains (entry_text e) (k @ ''='') = (fst (pair_of e) = k)" .
qed

lemma put_entry_lines:
  "e \<in> set (put_entry s k v es) \<Longrightarrow> e \<in> set es \<or> \<not> is_pair e \<or> e = key_value_entry k v"
proof (cases "find_entry s k es")
  case (Some j)
  then obtain i where i: "find_section s es = Some i" by (auto simp: find_entry_def split: option.splits)
  from find_entry_SomeD[OF Some] have "j < length es" "is_pair (es ! j)" by (auto simp: nth_append)
  then have "(es ! j)\<lparr>entry_text := k @ ''='' @ v\<rparr> = key_value_entry k v"
    by (simp add: key_value_entry_def is_pair_def)
  moreover assume "e \<in> set (put_entry s k v es)"
  ultimately have "e \<in> set (es[j := key_value_entry k v])" using i Some by (simp add: put_entry_def)
  then show ?thesis using set_update_subset_insert by fastforce
qed (auto simp: put_entry_def dest: in_set_takeD in_set_dropD split: option.splits)

lemma clean_put:
  assumes "suffix_free N" and "clean N es" and "k \<in> N" and "clean_value v"
  shows "clean N (put_entry s k v es)"
proof -
  have k: "CHR ''='' \<notin> set k" using assms(1,3) by (simp add: suffix_free_def)
  have "CHR ''='' \<in> set (entry_text e) \<and> fst (pair_of e) \<in> N \<and> clean_value (snd (pair_of e))"
    if "e \<in> set (put_entry s k v es)" "is_pair e" for e
    using put_entry_lines[OF that(1)] that(2) assms(2-4) pair_of_key_value[OF k, of v]
    by (auto simp: clean_def) (simp add: key_value_entry_def)
  moreover have "distinct (map fst (section_pairs s' (put_entry s k v es)))" for s'
    using assms(2) by (auto simp: put_entry_pairs[OF clean_exact[OF assms(1-3)] k] clean_def keys_put_pair)
  ultimately show ?thesis by (simp add: clean_def)
qed

lemma clean_delete:
  assumes "suffix_free N" and "clean N es" and "k \<in> N" and "find_entry s k es = Some j"
  shows "clean N (take j es @ drop (Suc j) es)"
proof -
  have "set (take j es @ drop (Suc j) es) \<subseteq> set es" by (auto dest: in_set_takeD in_set_dropD)
  moreover have "distinct (map fst (section_pairs s' (take j es @ drop (Suc j) es)))" for s'
    using assms(2) by (auto simp: delete_entry_pairs[OF assms(4) clean_exact[OF assms(1-3)]] clean_def distinct_remove_first)
  ultimately show ?thesis using assms(2) unfolding clean_def by blast
qed

abbreviation ini_get :: "ini_file \<Rightarrow> string \<Rightarrow> string \<Rightarrow> string" where
  "ini_get f s k \<equiv> get_key_value (Some s) (Some k) f"

abbreviation ini_put :: "string \<Rightarrow> string \<Rightarrow> string \<Rightarrow> ini_file \<Rightarrow> ini_file" where
  "ini_put s k v f \<equiv> snd (ini_write_string (Some s) (Some k) (Some v) f)"

abbreviation ini_delete :: "string \<Rightarrow> string \<Rightarrow> ini_file \<Rightarrow> ini_file" where
  "ini_delete s k f \<equiv> snd (delete_key (Some s) (Some k) f)"

lemma ini_put_lines [simp]: "m_file_entry_list (ini_put s k v f) = put_entry s k v (m_file_entry_list f)"
  by (simp add: ini_write_string_def)

lemma ini_get_put:
  assumes "suffix_free N" and "clean N (m_file_entry_list f)" and "k \<in> N" and "clean_value v" and "k' \<in> N"
  shows "ini_get (ini_put s k v f) s' k' = (if s' = s \<and> k' = k then v else ini_get f s' k')"
proof -
  have k: "CHR ''='' \<notin> set k" using assms(1,3) by (simp add: suffix_free_def)
  have "exact_key k' (m_file_entry_list (ini_put s k v f))"
    using clean_exact[OF assms(1) clean_put[OF assms(1-4)] assms(5)] by simp
  from get_pairs[OF this] get_pairs[OF clean_exact[OF assms(1,2,5)]] show ?thesis
    using assms(4) by (simp add: put_entry_pairs[OF clean_exact[OF assms(1-3)] k] map_of_put_pair clean_value_def c_string_id)
qed

lemma ini_get_delete:
  assumes "suffix_free N" and "clean N (m_file_entry_list f)" and "k \<in> N" and "k' \<in> N"
  shows "ini_get (ini_delete s k f) s' k' = (if s' = s \<and> k' = k then [] else ini_get f s' k')"
proof (cases "find_entry s k (m_file_entry_list f)")
  case None
  with get_pairs[OF clean_exact[OF assms(1-3)], of s] not_found_pairs[OF None clean_exact[OF assms(1-3)]]
  show ?thesis by (auto simp: delete_key_def map_of_eq_None_iff[THEN iffD2])
next
  case (Some j)
  let ?es = "take j (m_file_entry_list f) @ drop (Suc j) (m_file_entry_list f)"
  have l: "m_file_entry_list (ini_delete s k f) = ?es" using Some by (simp add: delete_key_def)
  have "exact_key k' (m_file_entry_list (ini_delete s k f))"
    using clean_exact[OF assms(1) clean_delete[OF assms(1-3) Some] assms(4)] by (simp add: l)
  from get_pairs[OF this] get_pairs[OF clean_exact[OF assms(1,2,4)]] show ?thesis using assms(2)
    by (simp add: l delete_entry_pairs[OF Some clean_exact[OF assms(1-3)]] map_of_remove_first clean_def)
qed

interpretation ini: settings ini_get ini_put ini_delete "\<lambda>f. clean N (m_file_entry_list f)" "{k \<in> N. suffix_free N}" "{v. clean_value v}"
  for N
proof (unfold_locales, goal_cases)
  case (2 f k s)
  then show ?case
    by (cases "find_entry s k (m_file_entry_list f)") (auto simp: delete_key_def dest: clean_delete)
qed (auto simp: clean_put ini_get_put ini_get_delete)

section \<open>Saving and opening again\<close>

definition stored_line :: "ini_entry \<Rightarrow> bool" where
  "stored_line e \<longleftrightarrow> new_entry (entry_text e) = e \<and> LF \<notin> set (entry_text e)"

lemma new_entry_idem: "new_entry (entry_text (new_entry line)) = new_entry line"
  by (simp add: new_entry_def Let_def)

lemma getline_line: "LF \<notin> set line \<Longrightarrow> getline (line @ LF # rest) = (line, rest, False)"
  by (auto simp: getline_def takeWhile_append dropWhile_append)

lemma getline_last: "LF \<notin> set line \<Longrightarrow> getline line = (line, [], True)"
proof -
  assume "LF \<notin> set line"
  then have d: "dropWhile ((\<noteq>) LF) line = []" by (induction line) simp_all
  have t: "takeWhile ((\<noteq>) LF) line = line" using \<open>LF \<notin> set line\<close> by (induction line) simp_all
  show ?thesis by (simp add: getline_def d t)
qed

lemma read_loop_saved:
  "\<forall>e \<in> set es. LF \<notin> set (entry_text e) \<Longrightarrow>
   read_loop (concat (map (\<lambda>e. entry_text e @ [LF]) es)) acc = acc @ map (new_entry \<circ> entry_text) es @ [new_entry []]"
proof (induction es arbitrary: acc)
  case Nil
  then show ?case by (simp add: read_loop.simps[of "[]"] getline_last)
next
  case (Cons e es)
  then show ?case
    using getline_line[of "entry_text e" "concat (map (\<lambda>e. entry_text e @ [LF]) es)"]
    by (simp add: read_loop.simps[of "entry_text e @ _"])
qed

lemma new_entry_blank: "new_entry [] = blank_entry"
  by (simp add: new_entry_def line_type_def blank_entry_def)

lemma read_loop_stored: "\<forall>e \<in> set acc. stored_line e \<Longrightarrow> \<forall>e \<in> set (read_loop t acc). stored_line e"
proof (induction t acc rule: read_loop.induct)
  case (1 rest acc)
  obtain line rest' eof where g: "getline rest = (line, rest', eof)" by (cases "getline rest")
  then have "LF \<notin> set line" by (auto simp: getline_def dest: set_takeWhileD)
  then have "LF \<notin> set (entry_text (new_entry line))" by (auto simp: new_entry_def Let_def dest: set_takeWhileD)
  then have "\<forall>e \<in> set (acc @ [new_entry line]). stored_line e" using 1 by (auto simp: stored_line_def new_entry_idem)
  with 1 g show ?case by (subst read_loop.simps) auto
qed

text \<open>Texts that stay what they are in the file.\<close>

definition plain_text :: "string \<Rightarrow> bool" where
  "plain_text t \<longleftrightarrow> set t \<inter> {LF, CR, CHR '';'', CHR ''[''} = {}"

lemma plain_takeWhile:
  assumes "plain_text t"
  shows "takeWhile ((\<noteq>) CR) (t @ r) = t @ takeWhile ((\<noteq>) CR) r"
    and "takeWhile ((\<noteq>) CHR '';'') (t @ r) = t @ takeWhile ((\<noteq>) CHR '';'') r"
  using assms by (auto simp: plain_text_def intro!: takeWhile_append2)

lemma stored_section: "plain_text s \<Longrightarrow> stored_line (section_entry s)"
  unfolding stored_line_def section_entry_def new_entry_def
  by (simp add: plain_takeWhile line_type_def) (simp add: plain_text_def)

lemma stored_key_value:
  assumes "plain_text k" and "plain_text v"
  shows "stored_line (key_value_entry k v)"
proof -
  have tw: "takeWhile ((\<noteq>) CR) v = v" "takeWhile ((\<noteq>) CHR '';'') v = v"
    using plain_takeWhile[OF assms(2), of "[]"] by simp_all
  show ?thesis using assms unfolding stored_line_def key_value_entry_def new_entry_def
    by (simp add: plain_takeWhile line_type_def Let_def tw) (simp add: plain_text_def)
qed

lemma stored_blank: "stored_line blank_entry"
  by (simp add: stored_line_def blank_entry_def new_entry_def line_type_def)

lemmas stored_new_lines = stored_section stored_key_value stored_blank

lemma put_entry_stored:
  assumes "\<forall>e \<in> set es. stored_line e" and "plain_text s" and "plain_text k" and "plain_text v"
  shows "\<forall>e \<in> set (put_entry s k v es). stored_line e"
proof (cases "find_entry s k es")
  case (Some j)
  then obtain i where i: "find_section s es = Some i" by (auto simp: find_entry_def split: option.splits)
  from find_entry_SomeD[OF Some] have "is_pair (es ! j)" by (auto simp: nth_append)
  then have "(es ! j)\<lparr>entry_text := k @ ''='' @ v\<rparr> = key_value_entry k v"
    by (simp add: key_value_entry_def is_pair_def)
  with i Some have "put_entry s k v es = es[j := key_value_entry k v]" by (simp add: put_entry_def)
  with assms stored_new_lines(2)[OF assms(3,4)] show ?thesis
    using set_update_subset_insert[of es j "key_value_entry k v"] by auto
qed (use assms stored_new_lines in \<open>auto simp: put_entry_def dest: in_set_takeD in_set_dropD split: option.splits\<close>)

lemma lookup_blank: "find_entry s k (es @ [blank_entry]) = find_entry s k es"
proof -
  have "position (section_entry s) (es @ [blank_entry]) = position (section_entry s) es"
    by (induction es) (auto simp: section_entry_def blank_entry_def)
  moreover have "find_key q (es @ [blank_entry]) i = find_key q es i" for q i and es :: "ini_entry list"
    by (induction es arbitrary: i) (auto simp: blank_entry_def)
  moreover have "i < length es" if "position (section_entry s) es = Some i" for i
    using position_SomeD[OF that] by auto
  ultimately show ?thesis by (auto simp: find_entry_def find_section_def split: option.splits)
qed

lemma get_blank:
  assumes "m_file_entry_list f' = m_file_entry_list f @ [blank_entry]"
  shows "get_key_value section key f' = get_key_value section key f"
proof -
  have "j < length (m_file_entry_list f)" if "find_entry s k (m_file_entry_list f) = Some j" for s k j
    using find_entry_SomeD[OF that] by auto
  then show ?thesis by (auto simp: get_key_value_def assms lookup_blank nth_append split: option.splits)
qed

lemma flush_reopen:
  assumes "\<forall>e \<in> set (m_file_entry_list f). stored_line e" and "m_need_update f" and "dk_writable d (m_file_path f)"
    and "ini_flush f d = (ok, f', d')"
  shows "ok \<and> ini_file_construct (m_file_path f) d' =
           Inr \<lparr>m_file_path = m_file_path f, m_file_entry_list = m_file_entry_list f @ [blank_entry], m_need_update = False\<rparr>"
proof -
  have "map (new_entry \<circ> entry_text) (m_file_entry_list f) = m_file_entry_list f"
    using assms(1) by (simp add: stored_line_def map_idI)
  moreover have "\<forall>e \<in> set (m_file_entry_list f). LF \<notin> set (entry_text e)" using assms(1) by (simp add: stored_line_def)
  ultimately show ?thesis using assms(2-4) read_loop_saved[of "m_file_entry_list f" "[]"]
    by (auto simp: ini_flush_def open_for_writing_def ini_file_construct_def read_file_data_def new_entry_blank)
qed

lemma ini_write_string_path [simp]: "m_file_path (ini_put s k v f) = m_file_path f" "m_need_update (ini_put s k v f)"
  by (simp_all add: ini_write_string_def)

abbreviation ini_put_all :: "(string \<times> string \<times> string) list \<Rightarrow> ini_file \<Rightarrow> ini_file" where
  "ini_put_all ws f \<equiv> fold (\<lambda>(s, k, v). ini_put s k v) ws f"

lemma put_all_stored:
  assumes "\<forall>e \<in> set (m_file_entry_list f). stored_line e"
    and "\<forall>(s, k, v) \<in> set ws. plain_text s \<and> plain_text k \<and> plain_text v"
  shows "(\<forall>e \<in> set (m_file_entry_list (ini_put_all ws f)). stored_line e) \<and>
         m_file_path (ini_put_all ws f) = m_file_path f \<and> (m_need_update (ini_put_all ws f) \<or> ws = [])"
  using assms
proof (induction ws rule: rev_induct)
  case (snoc w ws)
  then show ?case using put_entry_stored[of "m_file_entry_list (ini_put_all ws f)"] by (cases w) auto
qed simp

section \<open>Properties\<close>

text \<open>C16. A settings file on keys that can be told apart is a map. The keys come from a set none of whose members ends another one or
  contains an equals sign, no value has an equals sign or a NUL, and no key is twice in a section of the file. Then after any sequence of
  such writes the value read under a section and a key is the one written there last, or the one the file had; deleting a key afterwards makes it
  read as the empty text and leaves the value of every other section and key; and writes and deletions keep the file in this state.\<close>

theorem ini_file_is_map:
  assumes "suffix_free N" and "clean N (m_file_entry_list f)"
    and "\<forall>(s, k, v) \<in> set ws. k \<in> N \<and> clean_value v" and "k' \<in> N"
    and "f' = fold (\<lambda>(s, k, v) f. snd (ini_write_string (Some s) (Some k) (Some v) f)) ws f" and "d \<in> N"
  shows "clean N (m_file_entry_list f') \<and> clean N (m_file_entry_list (snd (delete_key (Some sd) (Some d) f'))) \<and>
         get_key_value (Some s') (Some k') f' =
           (case map_of (rev (map (\<lambda>(s, k, v). ((s, k), v)) ws)) (s', k') of
              None \<Rightarrow> get_key_value (Some s') (Some k') f | Some v \<Rightarrow> v) \<and>
         get_key_value (Some s') (Some k') (snd (delete_key (Some sd) (Some d) f')) =
           (if s' = sd \<and> k' = d then [] else get_key_value (Some s') (Some k') f')"
proof -
  have ws: "\<forall>(s, k, v) \<in> set ws. k \<in> {k \<in> N. suffix_free N} \<and> v \<in> {v. clean_value v}" using assms(1,3) by auto
  have k': "k' \<in> {k \<in> N. suffix_free N}" "d \<in> {k \<in> N. suffix_free N}" using assms(1,4,6) by simp_all
  have f': "f' = ini.put_all ws f" by (simp add: assms(5) ini.put_all_def)
  have inv: "clean N (m_file_entry_list f')" unfolding f' by (rule ini.put_all_inv[OF assms(2) ws])
  show ?thesis
    using inv ini.get_put_all[OF assms(2) ws k'(1)] ini.get_remove[OF inv k'(2,1), of s' sd] ini.remove_inv[OF inv k'(2), of sd]
    by (simp add: f')
qed

theorem ini_file_is_map_witness:
  "let f' = fold (\<lambda>(s, k, v) f. snd (ini_write_string (Some s) (Some k) (Some v) f))
        [(''net'', ''port'', ''80''), (''net'', ''host'', ''a''), (''net'', ''port'', ''81'')]
        \<lparr>m_file_path = ''f'', m_file_entry_list = [], m_need_update = False\<rparr>
   in get_key_value (Some ''net'') (Some ''port'') f' = ''81'' \<and>
      get_key_value (Some ''net'') (Some ''port'') (snd (delete_key (Some ''net'') (Some ''host'') f')) = ''81''"
proof -
  have 1: "suffix_free {''port'', ''host''}" by (auto simp: suffix_free_def suffix_def)
  have 2: "clean {''port'', ''host''} (m_file_entry_list \<lparr>m_file_path = ''f'', m_file_entry_list = [], m_need_update = False\<rparr>)"
    by (simp add: clean_def section_pairs_def)
  have 3: "\<forall>(s, k, v) \<in> set [(''net'', ''port'', ''80''), (''net'', ''host'', ''a''), (''net'', ''port'', ''81'')].
      k \<in> {''port'', ''host''} \<and> clean_value v" by (simp add: clean_value_def)
  show ?thesis unfolding Let_def using ini_file_is_map[OF 1 2 3 _ refl, of "''port''" "''host''" "''net''" "''net''"] by simp
qed

text \<open>C17. What is saved is what is read after opening the file again. Take a file that was opened and any sequence of writes in which
  every section, key and value is a text without line feeds, carriage returns, semicolons and opening brackets (of the characters that
  make a line a comment or a section), and save it on a writable path: saving succeeds, and the file opened from the new contents answers
  every question as the one that was saved. A value with brackets is taken for a section when the file is opened again.\<close>

theorem ini_file_persists:
  assumes "ini_file_construct path d = Inr f0" and "dk_writable d path"
    and "\<forall>(s, k, v) \<in> set ws. plain_text s \<and> plain_text k \<and> plain_text v"
    and "f = fold (\<lambda>(s, k, v) f. snd (ini_write_string (Some s) (Some k) (Some v) f)) ws f0"
    and "ini_flush f d = (ok, f', d')"
  shows "ok \<and> (\<exists>f''. ini_file_construct path d' = Inr f'' \<and>
           (\<forall>section key. get_key_value section key f'' = get_key_value section key f))"
proof (cases "ws = []")
  case True
  with assms show ?thesis
    by (auto simp: ini_flush_def ini_file_construct_def read_file_data_def split: option.splits)
next
  case False
  obtain t where f0: "f0 = \<lparr>m_file_path = path, m_file_entry_list = read_loop t [], m_need_update = False\<rparr>"
    using assms(1) by (auto simp: ini_file_construct_def read_file_data_def split: option.splits)
  have "\<forall>e \<in> set (m_file_entry_list f0). stored_line e" using read_loop_stored[of "[]" t] by (simp add: f0)
  from put_all_stored[OF this assms(3)] False f0 assms(4)
  have "\<forall>e \<in> set (m_file_entry_list f). stored_line e" "m_need_update f" "m_file_path f = path" by auto
  with flush_reopen[OF _ _ _ assms(5)] assms(2) show ?thesis by (auto intro: get_blank)
qed

definition example_disk :: disk where
  "example_disk = \<lparr>dk_contents = [''f'' \<mapsto> ''[s]'' @ [LF] @ ''a=1'' @ [LF]], dk_writable = (\<lambda>p. True)\<rparr>"

lemma example_disk_lines:
  "ini_file_construct ''f'' example_disk =
     Inr \<lparr>m_file_path = ''f'', m_file_entry_list = [section_entry ''s'', key_value_entry ''a'' ''1'', blank_entry], m_need_update = False\<rparr>"
  by (simp add: ini_file_construct_def read_file_data_def example_disk_def read_loop.simps getline_def new_entry_def line_type_def
      section_entry_def key_value_entry_def blank_entry_def)

theorem ini_file_persists_witness:
  "\<exists>f''. ini_file_construct ''f'' (snd (snd (ini_flush
      (snd (ini_write_string (Some ''t'') (Some ''b'') (Some ''2'')
         \<lparr>m_file_path = ''f'', m_file_entry_list = [section_entry ''s'', key_value_entry ''a'' ''1'', blank_entry], m_need_update = False\<rparr>))
      example_disk))) = Inr f'' \<and> get_key_value (Some ''t'') (Some ''b'') f'' = ''2''"
proof -
  let ?f0 = "\<lparr>m_file_path = ''f'', m_file_entry_list = [section_entry ''s'', key_value_entry ''a'' ''1'', blank_entry], m_need_update = False\<rparr>"
  let ?f = "snd (ini_write_string (Some ''t'') (Some ''b'') (Some ''2'') ?f0)"
  obtain ok f' d' where fl: "ini_flush ?f example_disk = (ok, f', d')" by (cases "ini_flush ?f example_disk")
  have "\<forall>(s, k, v) \<in> set [(''t'', ''b'', ''2'')]. plain_text s \<and> plain_text k \<and> plain_text v"
    by (simp add: plain_text_def)
  from ini_file_persists[OF example_disk_lines _ this _ fl]
  obtain f'' where "ini_file_construct ''f'' d' = Inr f''" "get_key_value (Some ''t'') (Some ''b'') f'' = get_key_value (Some ''t'') (Some ''b'') ?f"
    by (auto simp: example_disk_def)
  moreover have "get_key_value (Some ''t'') (Some ''b'') ?f = ''2''" by (rule get_after_write) auto
  ultimately show ?thesis using fl by simp
qed

text \<open>A number is read as its stored text: whatever \<^verbatim>\<open>to_string\<close> made of it goes through \<^verbatim>\<open>atof\<close>, so that a number
  survives exactly when the text determines it (six decimals).\<close>

lemma double_reads_its_text:
  assumes "CHR ''='' \<notin> set k" and "to_string x \<noteq> []" and "CHR 0x00 \<notin> set (to_string x)"
  shows "read_double atof (Some s) (Some k) d (snd (write_double to_string (Some s) (Some k) x f)) = (True, Some (atof (to_string x)))"
  using get_after_write[OF assms(1), of "to_string x" s f] assms(2,3)
  by (simp add: read_double_def write_double_def)

text \<open>Integers survive: what \<^verbatim>\<open>write_int\<close> and \<^verbatim>\<open>write_long\<close> store under a key without an equals sign,
  \<^verbatim>\<open>read_int\<close> and \<^verbatim>\<open>read_long\<close> return, for every value of the type, whatever else the file holds.\<close>

theorem ini_integers_round_trip:
  assumes "CHR ''='' \<notin> set k"
  shows "read_int (Some s) (Some k) d (snd (write_int (Some s) (Some k) w f)) = Inr (True, Some w) \<and>
         read_long (Some s) (Some k) d' (snd (write_long (Some s) (Some k) w' f)) = Inr (True, Some w')"
  using get_after_write[OF assms, of "int_text (sint w)" s f] get_after_write[OF assms, of "int_text (sint w')" s f]
    int_text_plain[of "sint w"] int_text_plain[of "sint w'"]
  by (simp add: read_int_def write_int_def read_long_def write_long_def ato_int_text)

theorem ini_integers_round_trip_witness:
  "read_int (Some ''s'') (Some ''k'') 0
     (snd (write_int (Some ''s'') (Some ''k'') (- 5) \<lparr>m_file_path = ''f'', m_file_entry_list = [], m_need_update = False\<rparr>)) =
   Inr (True, Some (- 5))"
  using ini_integers_round_trip[of "''k''" "''s''" 0 "- 5"] by simp

text \<open>The search for a key accepts any line that contains its text. A key that ends another one is taken for it: reading
  \<^verbatim>\<open>b\<close> answers with the value of \<^verbatim>\<open>ab\<close>, and writing \<^verbatim>\<open>b\<close> destroys \<^verbatim>\<open>ab\<close>.\<close>

theorem ini_suffix_keys_collide:
  "get_key_value (Some s) (Some ''b'') \<lparr>m_file_path = p, m_file_entry_list = [section_entry s, key_value_entry ''ab'' v], m_need_update = u\<rparr> =
     c_string v \<and>
   ini_write_string (Some s) (Some ''b'') (Some w) \<lparr>m_file_path = p, m_file_entry_list = [section_entry s, key_value_entry ''ab'' v], m_need_update = u\<rparr> =
     (True, \<lparr>m_file_path = p, m_file_entry_list = [section_entry s, key_value_entry ''b'' w], m_need_update = True\<rparr>)"
proof -
  have c: "contains (''ab='' @ v) (''b'' @ ''='')" unfolding contains_iff by (intro exI[of _ "''a''"] exI[of _ v]) simp
  then have c': "contains (entry_text (key_value_entry ''ab'' v)) (''b'' @ ''='')" by (simp add: key_value_entry_def)
  have e: "find_entry s ''b'' [section_entry s, key_value_entry ''ab'' v] = Some 1"
    using find_entry_intro[OF _ _ c', of s "[]" "[]" "[]"] by simp
  have v: "entry_value (entry_text (key_value_entry ''ab'' v)) = c_string v"
    using entry_value_pair[of "key_value_entry ''ab'' v"] pair_of_key_value[of "''ab''" v] by (simp add: key_value_entry_def)
  show ?thesis using e v
    by (simp add: get_key_value_def ini_write_string_def put_entry_def find_section_def) (simp add: key_value_entry_def)
qed

text \<open>\<^verbatim>\<open>read_string\<close> does not look at the size of the buffer it is given: it returns exactly when the text and its
  terminator fit, and otherwise writes behind the buffer, however the size is stated.\<close>

theorem ini_read_string_ignores_size:
  assumes "val = (if get_key_value (Some s) (Some k) f = [] then def_val else get_key_value (Some s) (Some k) f)"
  shows "ini_read_string (Some s) (Some k) (Some buffer) buffer_size (Some def_val) f =
         (if length val < length buffer
          then Inr (get_key_value (Some s) (Some k) f \<noteq> [],
                    Some (strncpy_text val @ CHR 0x00 # drop (Suc (length val)) buffer))
          else Inl Undefined)"
proof -
  have l: "length (strncpy_text val) = length val"
    using length_takeWhile_le[of _ val] by (simp add: strncpy_text_def c_string_def)
  show ?thesis
  proof (cases "length val < length buffer")
    case True
    then have "copy_text buffer val = Inr (strncpy_text val @ CHR 0x00 # drop (Suc (length val)) buffer)"
      by (simp add: copy_text_def mem_write_def l replicate_append_same[symmetric] del: replicate_Suc)
         (simp add: replicate_append_same[symmetric])
    then show ?thesis using True assms by (auto simp: ini_read_string_def)
  next
    case False
    then have "copy_text buffer val = Inl Undefined" by (simp add: copy_text_def mem_write_def)
    then show ?thesis using False assms by (cases "get_key_value (Some s) (Some k) f = []") (simp_all add: ini_read_string_def)
  qed
qed

theorem ini_read_string_ignores_size_witness:
  "ini_read_string (Some ''s'') (Some ''k'') (Some ''xx'') 2 (Some ''default'')
     \<lparr>m_file_path = ''f'', m_file_entry_list = [], m_need_update = False\<rparr> = Inl Undefined"
proof -
  have g: "get_key_value (Some ''s'') (Some ''k'') \<lparr>m_file_path = ''f'', m_file_entry_list = [], m_need_update = False\<rparr> = []"
    by (simp add: get_key_value_def find_entry_def find_section_def)
  show ?thesis by (subst ini_read_string_ignores_size[OF refl]) (simp add: g)
qed

end
