(* ===== verification/Rules_Data.thy ===== *)
theory Rules_Data
  imports Rules_Parser Binary_Parser Data_Binder Ini_File
begin

text \<open>
  The data of rules: rows, enumerations and functions by name (\<^verbatim>\<open>rules_concrete_generic.cpp\<close> and the base class in
  \<^verbatim>\<open>Include/utils/rules.hpp\<close>), and the tasks of a rule (\<^verbatim>\<open>rule::parse_true_false_tasks\<close>, \<^verbatim>\<open>rule::create_complex_task\<close>
  in \<^verbatim>\<open>rule.cpp\<close>, and the look-ups of \<^verbatim>\<open>rules_dispatcher_impl.cpp\<close> they use).

  The tables and the dataset are interfaces to this code; they are given by their look-ups by name. A row is named by its
  index in the list of rows, as in \<^verbatim>\<open>Subscriptions\<close>. A function that reads a row, and the function of a task, are data:
  the values that the closures capture. Reading the text of a floating point number (\<^verbatim>\<open>std::stod\<close>, \<^verbatim>\<open>std::stof\<close>,
  \<^verbatim>\<open>std::strtod\<close>) is a parameter.
\<close>

section \<open>State\<close>

type_synonym name_table = "string \<Rightarrow> nat option"

text \<open>The closures of \<^verbatim>\<open>query_function\<close>: a whole row, or a field of a row with its offset and the size of the buffer.\<close>

datatype row_function = Row_value nat | Field_value nat node_attr size_t size_t

record rules_data =
  rg_dataset :: "string \<Rightarrow> name_table option"
  rg_input_table :: name_table
  rg_enable_table :: name_table
  rg_existence_table :: name_table
  rg_output_table :: name_table
  rg_management_table :: "name_table option"
  rg_store :: metadata_store
  rg_existence_map :: "(size_t \<times> nat) list"
  rg_enabled_map :: "(size_t \<times> nat) list"
  rg_func_map :: "(string \<times> row_function) list"
  rg_enum_map :: "(string \<times> int64) list"

definition rules_data_create ::
  "(string \<Rightarrow> name_table option) \<Rightarrow> name_table \<Rightarrow> name_table \<Rightarrow> name_table \<Rightarrow> name_table \<Rightarrow> name_table option \<Rightarrow> metadata_store \<Rightarrow> rules_data" where
  "rules_data_create dataset input_table enable_table existence_table output_table management_table store =
     \<lparr>rg_dataset = dataset, rg_input_table = input_table, rg_enable_table = enable_table, rg_existence_table = existence_table,
      rg_output_table = output_table, rg_management_table = management_table, rg_store = store,
      rg_existence_map = [], rg_enabled_map = [], rg_func_map = [], rg_enum_map = []\<rparr>"

text \<open>\<^verbatim>\<open>emplace\<close> keeps an entry that is already there. A call that does not return is undefined behaviour.\<close>

definition emplace :: "'k \<Rightarrow> 'v \<Rightarrow> ('k \<times> 'v) list \<Rightarrow> ('k \<times> 'v) list" where
  "emplace k v m = (if map_of m k = None then m @ [(k, v)] else m)"

definition returned :: "'a result option \<Rightarrow> 'a result" where
  "returned r = (case r of None \<Rightarrow> Inl Undefined | Some x \<Rightarrow> x)"

section \<open>Rows by name\<close>

definition query_row_by_string :: "string \<Rightarrow> rules_data \<Rightarrow> (nat \<times> string list) option result" where
  "query_row_by_string row_string d =
     (case rg_input_table d row_string of
        Some rid \<Rightarrow> Inr (Some (rid, []))
      | None \<Rightarrow>
     (case rg_output_table d row_string of
        Some rid \<Rightarrow> Inr (Some (rid, []))
      | None \<Rightarrow>
     (case rg_existence_table d row_string of
        Some rid \<Rightarrow> Inr (Some (rid, []))
      | None \<Rightarrow>
     (case rg_enable_table d row_string of
        Some rid \<Rightarrow> Inr (Some (rid, []))
      | None \<Rightarrow>
          res_map (\<lambda>path.
            case path of
              None \<Rightarrow> None
            | Some (table_string, row, path_vector) \<Rightarrow>
                (case rg_dataset d table_string of
                   None \<Rightarrow> None
                 | Some table \<Rightarrow> map_option (\<lambda>rid. (rid, path_vector)) (table row)))
            (returned (data_path_vector row_string))))))"

definition query_rule_existence_row :: "size_t \<Rightarrow> rules_data \<Rightarrow> nat option" where
  "query_rule_existence_row rule_id d = map_of (rg_existence_map d) rule_id"

definition query_rule_enable_row :: "size_t \<Rightarrow> rules_data \<Rightarrow> nat option" where
  "query_rule_enable_row rule_id d = map_of (rg_enabled_map d) rule_id"

definition query_reload_rules_row :: "rules_data \<Rightarrow> nat option" where
  "query_reload_rules_row d = (case rg_management_table d of None \<Rightarrow> None | Some table \<Rightarrow> table ''RELOAD_RULES'')"

definition add_rule_enable_row :: "size_t \<Rightarrow> string \<Rightarrow> rules_data \<Rightarrow> (bool \<times> rules_data) result" where
  "add_rule_enable_row rule_id row_name d =
     res_map (\<lambda>row.
       case row of
         None \<Rightarrow> (False, d)
       | Some (rid, _) \<Rightarrow> (True, d\<lparr>rg_enabled_map := emplace rule_id rid (rg_enabled_map d)\<rparr>))
       (query_row_by_string (normalize_rule_name row_name ''en'') d)"

definition add_rule_existence_row :: "size_t \<Rightarrow> string \<Rightarrow> rules_data \<Rightarrow> bool \<times> rules_data" where
  "add_rule_existence_row rule_id row_name d =
     (case rg_existence_table d (normalize_rule_name row_name ''r'') of
        None \<Rightarrow> (False, d)
      | Some rid \<Rightarrow> (True, d\<lparr>rg_existence_map := emplace rule_id rid (rg_existence_map d)\<rparr>))"

section \<open>Enumerations\<close>

definition add_enum_map :: "string \<Rightarrow> rules_data \<Rightarrow> bool \<times> rules_data" where
  "add_enum_map enum_name d =
     (case query_enum enum_name (rg_store d) of
        None \<Rightarrow> (False, d)
      | Some e \<Rightarrow> (True, d\<lparr>rg_enum_map := fold (\<lambda>(name, value). emplace name value) (e_items e) (rg_enum_map d)\<rparr>))"

definition get_enumeration :: "string \<Rightarrow> rules_data \<Rightarrow> int64 option" where
  "get_enumeration enum_string d = map_of (rg_enum_map d) enum_string"

definition get_enumeration_of :: "string \<Rightarrow> string \<Rightarrow> rules_data \<Rightarrow> int64 option \<times> rules_data" where
  "get_enumeration_of enum_name_val enum_type_name d =
     (case get_enumeration enum_name_val d of
        Some v \<Rightarrow> (Some v, d)
      | None \<Rightarrow>
          if enum_type_name \<noteq> [] then let d1 = snd (add_enum_map enum_type_name d) in (get_enumeration enum_name_val d1, d1)
          else (None, d))"

text \<open>\<^verbatim>\<open>std::stoll\<close>: white space, a sign, digits, and whatever follows.\<close>

definition skip_sign :: "string \<Rightarrow> string" where
  "skip_sign str = (case dropWhile is_space str of [] \<Rightarrow> [] | c # cs \<Rightarrow> if c = CHR ''-'' \<or> c = CHR ''+'' then cs else c # cs)"

definition stoll :: "string \<Rightarrow> int64 result" where
  "stoll str =
     (let i = signed_value str
      in if takeWhile is_digit_char (skip_sign str) = [] then Inl (Throws (Invalid_argument ''stoll''))
         else if - (2 ^ 63) \<le> i \<and> i < 2 ^ 63 then Inr (word_of_int i) else Inl (Throws (Out_of_range ''stoll'')))"

definition try_row_int_value :: "string \<Rightarrow> row_info option \<Rightarrow> rules_data \<Rightarrow> (int64 option \<times> rules_data) result" where
  "try_row_int_value str_row info d =
     (if is_integer str_row then res_map (\<lambda>v. (Some v, d)) (stoll str_row)
      else (case info of
              Some i \<Rightarrow> Inr (get_enumeration_of str_row (ri_type_name i) d)
            | None \<Rightarrow> Inr (get_enumeration str_row d, d)))"

text \<open>\<^verbatim>\<open>strtod\<close> stores a pointer into the text, here the number of characters it has read.\<close>

definition try_row_float_value :: "(string \<Rightarrow> 'd \<times> nat) \<Rightarrow> string \<Rightarrow> 'd option" where
  "try_row_float_value strtod str_row =
     (let (ret, n) = strtod str_row; ptr = Some n in if ptr \<noteq> None then None else Some ret)"

definition try_get_enum_value :: "string \<Rightarrow> string \<Rightarrow> rules_data \<Rightarrow> int64 option \<times> rules_data" where
  "try_get_enum_value enum_name enum_val d = get_enumeration_of enum_val enum_name d"

section \<open>Functions\<close>

text \<open>The path through the nested parsers of a row. A field that the last description does not have is dereferenced.\<close>

fun get_node_and_offset_by_path :: "parser \<Rightarrow> string list \<Rightarrow> (node_attr \<times> size_t) option result" where
  "get_node_and_offset_by_path p [] = Inr None"
| "get_node_and_offset_by_path p [name] =
     (case query_node name (p_metadata p) of
        None \<Rightarrow> Inl Undefined
      | Some node \<Rightarrow> Inr (Some (n_attr node, p_offset p + n_offset (n_attr node))))"
| "get_node_and_offset_by_path p (name # path) =
     res_bind (read_complex p (Some name)) (\<lambda>c.
       case c of None \<Rightarrow> Inr None | Some internal_parser \<Rightarrow> get_node_and_offset_by_path internal_parser path)"

text \<open>The buffer that a closure captures is a vector of the size of the row; every call reads the whole row into it.\<close>

definition row_buffer_create :: "size_t \<Rightarrow> size_t result" where
  "row_buffer_create n =
     (if unat n \<ge> 2 ^ 63 then Inl (Throws (Logic_error ''cannot create std::vector larger than max_size()'')) else Inr n)"

definition row_field :: "binary_metadata row \<Rightarrow> string list \<Rightarrow> (node_attr \<times> size_t \<times> size_t) option result" where
  "row_field row path_vector =
     res_bind (row_buffer_create (row_data_size row)) (\<lambda>n.
       case row_query_parser_metadata row of
         None \<Rightarrow> Inr None
       | Some metadata \<Rightarrow>
           res_map (map_option (\<lambda>(node, node_offset). (node, node_offset, n)))
             (get_node_and_offset_by_path (fst (parser_create metadata [])) path_vector))"

definition add_function_map :: "string \<Rightarrow> row_function \<Rightarrow> rules_data \<Rightarrow> rules_data" where
  "add_function_map name f d = d\<lparr>rg_func_map := emplace name f (rg_func_map d)\<rparr>"

definition query_function ::
  "binary_metadata row list \<Rightarrow> string \<Rightarrow> rules_data \<Rightarrow> (row_function option \<times> rules_data) result" where
  "query_function rows func_string d =
     (case map_of (rg_func_map d) func_string of
        Some f \<Rightarrow> Inr (Some f, d)
      | None \<Rightarrow>
          res_bind (returned (get_row_name_by_prefix func_string)) (\<lambda>row_string.
          res_bind (query_row_by_string row_string d) (\<lambda>found.
            case found of
              None \<Rightarrow> Inr (None, d)
            | Some (rid, path_vector) \<Rightarrow>
                let row = rows ! rid; type = ri_type (r_info row);
                    (ok, d1) = (if type = ENUM then add_enum_map (ri_type_name (r_info row)) d else (True, d))
                in if \<not> ok then Inr (None, d1)
                   else if is_simple_type type \<or> type = ENUM
                   then Inr (Some (Row_value rid), add_function_map func_string (Row_value rid) d1)
                   else if type = COMPLEX
                   then res_bind (row_field row path_vector) (\<lambda>field.
                     case field of
                       None \<Rightarrow> Inr (None, d1)
                     | Some (node, node_offset, n) \<Rightarrow>
                         if \<not> is_simple_type (n_type node) \<and> n_type node \<noteq> ENUM then Inr (None, d1)
                         else if n_type node = ENUM
                         then (case n_enum node of
                                 None \<Rightarrow> Inl Undefined
                               | Some enum_data \<Rightarrow>
                                   let (ok, d2) = add_enum_map (e_name enum_data) d1; f = Field_value rid node node_offset n
                                   in if ok then Inr (Some f, add_function_map func_string f d2) else Inr (None, d2))
                         else let f = Field_value rid node node_offset n in Inr (Some f, add_function_map func_string f d1))
                   else Inr (None, d1))))"

definition get_function :: "binary_metadata row list \<Rightarrow> string \<Rightarrow> rules_data \<Rightarrow> (row_function \<times> rules_data) result" where
  "get_function rows str_func d =
     res_bind (query_function rows str_func d) (\<lambda>(f, d1).
       case f of None \<Rightarrow> Inl (Throws (Runtime_error ''function does not exist'')) | Some f \<Rightarrow> Inr (f, d1))"

section \<open>Calling the functions\<close>

text \<open>A binary floating point number as a multiple of the smallest positive number \<open>2 ^ - k\<close>.\<close>

definition dbl_of_ieee :: "nat \<Rightarrow> ieee \<Rightarrow> dbl" where
  "dbl_of_ieee k x =
     (case x of ieee.NaN \<Rightarrow> dbl.NaN | Minus_Inf \<Rightarrow> NInf | Plus_Inf \<Rightarrow> PInf | Finite i \<Rightarrow> Fin (of_int i / 2 ^ k))"

definition float_value :: "bytes \<Rightarrow> dbl" where
  "float_value data = dbl_of_ieee 149 (ieee_of_nat 8 23 (le_nat (take 4 data)))"

definition double_value :: "bytes \<Rightarrow> dbl" where
  "double_value data = dbl_of_ieee 1074 (ieee_of_nat 11 52 (le_nat (take 8 data)))"

definition number_value :: "type_enum \<Rightarrow> bytes \<Rightarrow> dbl" where
  "number_value type buffer =
     (if type = FLOAT then float_value buffer else if type = DOUBLE then double_value buffer
      else Fin (of_int (read_signed 4 buffer)))"

definition call_row_function :: "binary_metadata row list \<Rightarrow> row_function \<Rightarrow> dbl result" where
  "call_row_function rows f =
     (case f of
        Row_value rid \<Rightarrow>
          res_bind (row_read_all (rows ! rid) (Some (replicate 8 0))) (\<lambda>(_, buffer).
            case buffer of None \<Rightarrow> Inl Undefined | Some buffer \<Rightarrow> Inr (number_value (ri_type (r_info (rows ! rid))) buffer))
      | Field_value rid node node_offset n \<Rightarrow>
          res_bind (row_read_bytes (rows ! rid) (Some (replicate (unat n) 0)) n) (\<lambda>(ok, buffer).
            if \<not> ok then Inl (Throws (Runtime_error ''failed to read data from row''))
            else case buffer of
                   None \<Rightarrow> Inl Undefined
                 | Some buffer \<Rightarrow>
                     res_map (\<lambda>(_, data). number_value (n_type node) data)
                       (virtual_read node (replicate 8 0) (n_size node) (drop (unat node_offset) buffer) (n - node_offset))))"

section \<open>Tasks\<close>

text \<open>The closures of \<^verbatim>\<open>parse_true_false_tasks\<close> and \<^verbatim>\<open>create_complex_task\<close> with what they capture: row, value and the flag
  that forces the report; for a field also its node, its offset and the size of the buffer. They are \<^verbatim>\<open>mutable\<close>: writing
  a field may change the captured value.\<close>

datatype task_func =
    Write_number nat int64 bool
  | Write_float nat bytes bool
  | Write_field nat int64 bool node_attr size_t size_t

record task_struct =
  ts_rule_id :: size_t
  ts_task_id :: nat
  ts_interval :: size_t
  ts_func :: task_func

definition field_number ::
  "(string \<Rightarrow> bytes result) \<Rightarrow> (string \<Rightarrow> bytes result) \<Rightarrow> node_attr \<Rightarrow> string \<Rightarrow> rules_data \<Rightarrow> (int64 \<times> rules_data) result" where
  "field_number stod stof node data d =
     (if is_simple_type (n_type node)
      then (if n_type node = DOUBLE then res_map (\<lambda>bs. (word_of_bytes bs, d)) (stod data)
            else if n_type node = FLOAT then res_map (\<lambda>bs. (word_of_bytes bs, d)) (stof data)
            else res_map (\<lambda>v. (v, d)) (stoll data))
      else if n_type node = ENUM
      then (case n_enum node of
              None \<Rightarrow> Inl Undefined
            | Some enum_data \<Rightarrow>
                let (v, d1) = try_get_enum_value (e_name enum_data) data d in Inr (case v of None \<Rightarrow> 0 | Some v \<Rightarrow> v, d1))
      else Inl (Throws (Runtime_error ''create_complex_task: unsupported type'')))"

definition create_complex_task ::
  "(string \<Rightarrow> bytes result) \<Rightarrow> (string \<Rightarrow> bytes result) \<Rightarrow> binary_metadata row list \<Rightarrow> nat \<Rightarrow> string list \<Rightarrow> string \<Rightarrow> bool \<Rightarrow> rules_data \<Rightarrow>
   (task_func \<times> rules_data) result" where
  "create_complex_task stod stof rows rid path_vector data force_report d =
     (case row_query_parser_metadata (rows ! rid) of
        None \<Rightarrow> Inl (Throws (Runtime_error ''create_complex_task: failed to get metadata from row''))
      | Some metadata \<Rightarrow>
          res_bind (get_node_and_offset_by_path (fst (parser_create metadata [])) path_vector) (\<lambda>field.
            case field of
              None \<Rightarrow> Inl (Throws (Runtime_error ''create_complex_task: failed to get value offset''))
            | Some (node, node_offset) \<Rightarrow>
                res_bind (row_buffer_create (row_data_size (rows ! rid))) (\<lambda>n.
                  res_map (\<lambda>(val, d1). (Write_field rid val force_report node node_offset n, d1)) (field_number stod stof node data d))))"

definition task_interval :: "string \<Rightarrow> size_t result" where
  "task_interval timeout = (if timeout = ''0'' then Inr 0 else res_map (\<lambda>i :: 32 word. scast i) (ato timeout))"

definition simple_task ::
  "(string \<Rightarrow> bytes \<times> nat) \<Rightarrow> binary_metadata row list \<Rightarrow> nat \<Rightarrow> string \<Rightarrow> bool \<Rightarrow> rules_data \<Rightarrow> (task_func \<times> rules_data) result" where
  "simple_task strtod rows rid state force_report d =
     res_bind (try_row_int_value state (Some (r_info (rows ! rid))) d) (\<lambda>(v, d1).
       case v of
         Some numerical_row_data \<Rightarrow> Inr (Write_number rid numerical_row_data force_report, d1)
       | None \<Rightarrow>
           (case try_row_float_value strtod state of
              Some float_row_data \<Rightarrow> Inr (Write_float rid float_row_data force_report, d1)
            | None \<Rightarrow> Inl (Throws (Logic_error ('': '' @ state @ ''  Is not an Enum or a Constant'')))))"

record readers =
  stod_of :: "string \<Rightarrow> bytes result"
  stof_of :: "string \<Rightarrow> bytes result"
  strtod_of :: "string \<Rightarrow> bytes \<times> nat"

definition parse_task ::
  "readers \<Rightarrow> binary_metadata row list \<Rightarrow> size_t \<Rightarrow> nat \<Rightarrow> true_false_task \<Rightarrow> rules_data \<Rightarrow> (task_struct \<times> rules_data) result" where
  "parse_task rd rows rule_id task_id task d =
     res_bind (task_interval (task_timeout task)) (\<lambda>interval.
     res_bind (query_row_by_string (task_field task) d) (\<lambda>row.
       case row of
         None \<Rightarrow> Inl (Throws (Invalid_argument ''task.task_field''))
       | Some (rid, _) \<Rightarrow>
           let force_report = (task_notify task = ''Always'')
           in res_map (\<lambda>(f, d1). (\<lparr>ts_rule_id = rule_id, ts_task_id = task_id, ts_interval = interval, ts_func = f\<rparr>, d1))
                (if ri_type (r_info (rows ! rid)) = COMPLEX
                 then res_bind (returned (map_option Inr (split_string (task_field task) ''.''))) (\<lambda>path_vector.
                        create_complex_task (stod_of rd) (stof_of rd) rows rid
                          (if length path_vector > 1 then tl path_vector else path_vector) (task_state task) force_report d)
                 else simple_task (strtod_of rd) rows rid (task_state task) force_report d)))"

fun parse_true_false_tasks ::
  "readers \<Rightarrow> binary_metadata row list \<Rightarrow> size_t \<Rightarrow> nat \<Rightarrow> true_false_task list \<Rightarrow> rules_data \<Rightarrow> (task_struct list \<times> rules_data) result" where
  "parse_true_false_tasks rd rows rule_id task_id [] d = Inr ([], d)"
| "parse_true_false_tasks rd rows rule_id task_id (task # tasks) d =
     res_bind (parse_task rd rows rule_id task_id task d) (\<lambda>(t, d1).
       res_map (\<lambda>(ts, d2). (t # ts, d2)) (parse_true_false_tasks rd rows rule_id (Suc task_id) tasks d1))"

text \<open>A call of the closure: the state of the database dispatcher and the closure afterwards.\<close>

definition call_task ::
  "(nat \<Rightarrow> byte) \<Rightarrow> task_func \<Rightarrow> (binary_metadata, 'f) database_dispatcher \<Rightarrow> (task_func \<times> (binary_metadata, 'f) database_dispatcher) result" where
  "call_task junk f s =
     (case f of
        Write_number rid val force_report \<Rightarrow>
          res_map (\<lambda>(_, s1). (f, s1))
            (dd_write junk rid (Some (le_bytes 8 val)) (row_data_size (ss_rows (dd_subs s) ! rid)) force_report 0 s)
      | Write_float rid val force_report \<Rightarrow> res_map (\<lambda>(_, s1). (f, s1)) (dd_write junk rid (Some val) 4 force_report 0 s)
      | Write_field rid val force_report node node_offset n \<Rightarrow>
          res_bind (row_read_bytes (ss_rows (dd_subs s) ! rid) (Some (replicate (unat n) 0)) n) (\<lambda>(_, buffer).
            case buffer of
              None \<Rightarrow> Inl Undefined
            | Some buffer \<Rightarrow>
                res_bind (virtual_write node (le_bytes 8 val) (n_size node) (drop (unat node_offset) buffer) (n - node_offset))
                  (\<lambda>(_, data, rest).
                    res_map (\<lambda>(_, s1). (Write_field rid (word_of_bytes data) force_report node node_offset n, s1))
                      (dd_write junk rid (Some (take (unat node_offset) buffer @ rest)) n force_report 0 s))))"

section \<open>Numbers in rows\<close>

lemma le_nat_le_bytes: "le_nat (le_bytes k x) = take_bit (8 * k) (unat x)"
proof (rule bit_eqI)
  fix i
  have "bit (le_bytes k x ! (i div 8)) (i mod 8) = bit x i" if "i div 8 < k" using bit_le_bytes[OF that, of "i mod 8" x] by simp
  moreover have "i div 8 < k \<longleftrightarrow> i < 8 * k" by auto
  ultimately show "bit (le_nat (le_bytes k x)) i = bit (take_bit (8 * k) (unat x)) i"
    by (auto simp: bit_le_nat bit_take_bit_iff bit_unsigned_iff possible_bit_word)
qed

lemma le_nat_append_zeros: "le_nat (bs @ replicate n 0) = le_nat bs"
proof (induction bs)
  case Nil
  then show ?case by (induction n) simp_all
qed simp

lemma take_le_bytes: "j \<le> k \<Longrightarrow> take j (le_bytes k x) = le_bytes j x"
  by (simp add: le_bytes_def take_map)

lemma le_nat_take_padded:
  "le_nat (take m (le_bytes n x @ replicate r 0)) = take_bit (8 * min m n) (unat x)"
proof (cases "m \<le> n")
  case True
  then show ?thesis by (simp add: take_le_bytes le_nat_le_bytes)
next
  case False
  then have "take m (le_bytes n x @ replicate r 0) = le_bytes n x @ replicate (min (m - n) r) 0" by (simp add: min_def)
  then show ?thesis using False by (simp add: le_nat_append_zeros le_nat_le_bytes)
qed

lemma sint_32_cases: "sint (w :: 32 word) = (if uint w < 2 ^ 31 then uint w else uint w - 2 ^ 32)"
proof -
  have b: "0 \<le> uint w" "uint w < 2 ^ 32" using uint_lt2p[of w] by simp_all
  have "sint w = (uint w + 2 ^ 31) mod 2 ^ 32 - 2 ^ 31"
    by (simp add: sint_uint signed_take_bit_eq_take_bit_shift take_bit_eq_mod)
  moreover have "(uint w + 2 ^ 31) mod 2 ^ 32 = (if uint w < 2 ^ 31 then uint w + 2 ^ 31 else uint w - 2 ^ 31)"
    using b by (auto simp: mod_pos_pos_trivial intro!: int_mod_pos_eq[of _ _ 1])
  ultimately show ?thesis by simp
qed

lemma uint_ucast_take_bit: "int (take_bit 32 (unat (v :: 64 word))) = uint (ucast v :: 32 word)"
  by (simp add: unsigned_ucast_eq take_bit_eq_mod zmod_int)

lemma row_function_value:
  assumes "row_inv (rows ! rid)" and "0 < r_max_size (rows ! rid)" and "r_max_size (rows ! rid) \<le> 8"
    and "length (row_value (rows ! rid)) = unat (r_max_size (rows ! rid))"
  shows "call_row_function rows (Row_value rid) =
           Inr (number_value (ri_type (r_info (rows ! rid))) (row_value (rows ! rid) @ replicate (8 - unat (r_max_size (rows ! rid))) 0))"
proof -
  have "unat (r_max_size (rows ! rid)) \<le> 8" using assms(3) by (simp add: word_le_nat_alt)
  with row_read_pads[OF assms(1,2) order_refl, of "replicate 8 0"] assms(4) show ?thesis
    by (simp add: call_row_function_def row_read_all_def)
qed

text \<open>A number written by a task: the low bytes of the value, as many as the row has.\<close>

lemma call_number_ok:
  assumes "dd_inv s" and "dd_running s" and "rid < length (ss_rows (dd_subs s))" and "r = ss_rows (dd_subs s) ! rid"
    and "\<not> is_empty_type r" and "r_write_priority r = 0" and "0 < r_max_size r" and "r_max_size r \<le> 8"
  shows "\<exists>s'. call_task junk (Write_number rid v force) s = Inr (Write_number rid v force, s') \<and> dd_inv s' \<and> dd_running s' \<and>
           row_value (ss_rows (dd_subs s') ! rid) = le_bytes (unat (r_max_size r)) v \<and> row_frame r (ss_rows (dd_subs s') ! rid) \<and>
           row_inv (ss_rows (dd_subs s') ! rid)"
proof -
  have n: "unat (r_max_size r) \<le> 8" using assms(8) by (simp add: word_le_nat_alt)
  have ok: "data_ok (Some (le_bytes 8 v)) (r_max_size r)" "row_accepts (ss_rows (dd_subs s) ! rid) (Some (le_bytes 8 v)) (r_max_size r) 0"
    using n assms(4-8) by (simp_all add: data_ok_def row_accepts_def)
  from dd_write_accepted[OF assms(1-3) ok, of junk force] obtain s' where
    w: "dd_write junk rid (Some (le_bytes 8 v)) (r_max_size r) force 0 s = Inr (True, s')" "dd_inv s'" "dd_running s'"
    "row_value (ss_rows (dd_subs s') ! rid) = take (unat (r_max_size r)) (le_bytes 8 v)" by (elim exE conjE) (rule that)
  note rows = dd_write_rows[OF assms(1,3) ok(1) w(1)]
  have "row_inv (ss_rows (dd_subs s') ! rid)" using dd_invD(2)[OF w(2)] rows assms(3) by simp
  with w rows n assms(4) show ?thesis by (auto simp: call_task_def row_data_size_def take_le_bytes res_simps)
qed

text \<open>Fields. \<open>padded\<close> is what reading the whole row gives.\<close>

definition padded :: "binary_metadata row \<Rightarrow> bytes" where
  "padded r = take (unat (r_max_size r)) (row_value r @ replicate (unat (r_max_size r)) 0)"

lemma length_padded [simp]: "length (padded r) = unat (r_max_size r)"
  by (simp add: padded_def)

lemma le_bytes_word_of_bytes:
  assumes "length bs = 8"
  shows "le_bytes 8 (word_of_bytes bs) = bs"
proof (rule bytes_eqI)
  fix i
  show "bit (le_nat (le_bytes 8 (word_of_bytes bs))) i = bit (le_nat bs) i"
    using assms by (auto simp: le_nat_le_bytes bit_take_bit_iff bit_unsigned_iff bit_word_of_bytes bit_le_nat possible_bit_word)
qed (simp add: assms)

lemma word_of_le_bytes: "word_of_bytes (le_bytes 8 (v :: int64)) = v"
proof -
  have "take_bit 64 v = v" by (rule take_bit_word_eq_self) simp
  then have "take_bit 64 (unat v) = unat v" using unsigned_take_bit_eq[of 64 v] by metis
  then show ?thesis by (simp add: word_of_bytes_def le_nat_le_bytes)
qed

lemma length_swap_pairs [simp]: "length (swap_pairs bs) = length bs"
  by (induction bs rule: swap_pairs.induct) simp_all

lemma swap_pairs_twice [simp]: "swap_pairs (swap_pairs bs) = bs"
  by (induction bs rule: swap_pairs.induct) simp_all

lemma convert_endian_simps [simp]:
  "length (convert_endian be n data) = length data" "n \<le> length data \<Longrightarrow> convert_endian be n (convert_endian be n data) = data"
  by (auto simp: convert_endian_def)

lemma padded_read:
  assumes "row_inv r" and "0 < r_max_size r"
  shows "row_read_bytes r (Some (replicate (unat (r_max_size r)) 0)) (r_max_size r) = Inr (True, Some (padded r))"
  using row_read_pads[OF assms order_refl, of "replicate (unat (r_max_size r)) 0"] by (simp add: padded_def)

text \<open>Writing a field of a row that is not a bit field.\<close>

lemma field_written:
  assumes "n_bits node = None" and "n_size node \<le> 8" and "unat off + unat (n_size node) \<le> unat (r_max_size r)"
    and "d = convert_endian (n_big_endian node) (unat (n_size node)) (le_bytes 8 v)"
    and "rest = take (unat (n_size node)) d @ drop (unat off + unat (n_size node)) (padded r)"
  shows "virtual_write node (le_bytes 8 v) (n_size node) (drop (unat off) (padded r)) (r_max_size r - off) = Inr (True, d, rest) \<and>
         length (take (unat off) (padded r) @ rest) = unat (r_max_size r)"
proof -
  have k: "unat (n_size node) \<le> 8" using assms(2) by (simp add: word_le_nat_alt)
  have off: "off \<le> r_max_size r" using assms(3) by (simp add: word_le_nat_alt)
  have le: "n_size node \<le> r_max_size r - off" using assms(3) off by (simp add: word_le_nat_alt unat_sub)
  have lek: "unat (n_size node) \<le> unat (r_max_size r) - unat off" using assms(3) by simp
  show ?thesis
    using k le lek assms(1,3-5) by (simp add: virtual_write_def node_write_def mem_read_def mem_write_def add.commute Let_def not_less)
qed

lemma call_field_ok:
  assumes "dd_inv s" and "dd_running s" and "rid < length (ss_rows (dd_subs s))" and "r = ss_rows (dd_subs s) ! rid"
    and "\<not> is_empty_type r" and "r_write_priority r = 0" and "0 < r_max_size r"
    and "n_bits node = None" and "n_size node \<le> 8" and "unat off + unat (n_size node) \<le> unat (r_max_size r)"
  shows "\<exists>s'. call_task junk (Write_field rid v force node off (r_max_size r)) s =
             Inr (Write_field rid (word_of_bytes (convert_endian (n_big_endian node) (unat (n_size node)) (le_bytes 8 v))) force node off (r_max_size r), s') \<and>
           dd_inv s' \<and> dd_running s' \<and> length (ss_rows (dd_subs s')) = length (ss_rows (dd_subs s)) \<and> row_frame r (ss_rows (dd_subs s') ! rid) \<and>
           row_value (ss_rows (dd_subs s') ! rid) =
             take (unat off) (padded r) @ take (unat (n_size node)) (convert_endian (n_big_endian node) (unat (n_size node)) (le_bytes 8 v)) @
             drop (unat off + unat (n_size node)) (padded r)"
proof -
  let ?n = "r_max_size r" and ?d = "convert_endian (n_big_endian node) (unat (n_size node)) (le_bytes 8 v)"
  let ?b = "take (unat off) (padded r) @ take (unat (n_size node)) ?d @ drop (unat off + unat (n_size node)) (padded r)"
  have read: "row_read_bytes r (Some (replicate (unat ?n) 0)) ?n = Inr (True, Some (padded r))"
    using padded_read[OF _ assms(7)] dd_invD(2)[OF assms(1,3)] assms(4) by simp
  note wr = field_written[OF assms(8-10) refl refl, of v]
  then have len: "length ?b = unat ?n" by blast
  have ok: "data_ok (Some ?b) ?n" "row_accepts (ss_rows (dd_subs s) ! rid) (Some ?b) ?n 0"
    using len assms(4-7) by (simp_all add: data_ok_def row_accepts_def)
  from dd_write_accepted[OF assms(1-3) ok, of junk force] obtain s' where
    w: "dd_write junk rid (Some ?b) ?n force 0 s = Inr (True, s')" "dd_inv s'" "dd_running s'"
    "row_value (ss_rows (dd_subs s') ! rid) = take (unat ?n) ?b" by (elim exE conjE) (rule that)
  have "take (unat ?n) ?b = ?b" using len by (intro take_all) simp
  with w dd_write_rows[OF assms(1,3) ok(1) w(1)] read wr assms(4) show ?thesis by (simp add: call_task_def res_simps)
qed

section \<open>Properties\<close>

text \<open>C20. What a condition reads from a row after a task put an integer into it. The row has from one to eight bytes, priority 0, is not
  of the empty type and not of type \<^verbatim>\<open>FLOAT\<close> or \<^verbatim>\<open>DOUBLE\<close> (where the bits of the integer are read as a number with a point). A row of four and
  more bytes is read as the low 32 bits of the integer as a signed number, also when it has eight bytes and holds more; a shorter row is read
  as its low bytes without sign, also when its type is signed.\<close>

theorem task_value_read_back:
  assumes "dd_inv s" and "dd_running s" and "rid < length (ss_rows (dd_subs s))" and "r = ss_rows (dd_subs s) ! rid"
    and "\<not> is_empty_type r" and "r_write_priority r = 0" and "0 < r_max_size r" and "r_max_size r \<le> 8"
    and "ri_type (r_info r) \<noteq> FLOAT" and "ri_type (r_info r) \<noteq> DOUBLE"
  shows "\<exists>s'. call_task junk (Write_number rid v force) s = Inr (Write_number rid v force, s') \<and>
           call_row_function (ss_rows (dd_subs s')) (Row_value rid) =
             Inr (Fin (of_int (if r_max_size r < 4 then uint v mod 2 ^ (8 * unat (r_max_size r)) else sint (ucast v :: 32 word))))"
proof -
  from call_number_ok[OF assms(1-8), of junk v force] obtain s' where
    s': "call_task junk (Write_number rid v force) s = Inr (Write_number rid v force, s')"
    "row_value (ss_rows (dd_subs s') ! rid) = le_bytes (unat (r_max_size r)) v" "row_frame r (ss_rows (dd_subs s') ! rid)"
    "row_inv (ss_rows (dd_subs s') ! rid)" by (elim exE conjE) (rule that)
  let ?n = "unat (r_max_size r)"
  have max: "r_max_size (ss_rows (dd_subs s') ! rid) = r_max_size r" "r_info (ss_rows (dd_subs s') ! rid) = r_info r"
    using s'(3) by (simp_all add: row_frame_def)
  have call: "call_row_function (ss_rows (dd_subs s')) (Row_value rid) = Inr (Fin (of_int (read_signed 4 (le_bytes ?n v @ replicate (8 - ?n) 0))))"
    using row_function_value[OF s'(4)] s'(2) max assms(7-10) by (simp add: number_value_def)
  have u: "read_unsigned 4 (le_bytes ?n v @ replicate (8 - ?n) 0) = int (take_bit (8 * min 4 ?n) (unat v))"
    by (simp only: read_unsigned_def le_nat_take_padded)
  have "read_signed 4 (le_bytes ?n v @ replicate (8 - ?n) 0) = (if ?n < 4 then uint v mod 2 ^ (8 * ?n) else sint (ucast v :: 32 word))"
  proof (cases "?n < 4")
    case True
    then have "(2 :: nat) ^ (8 * ?n) \<le> 2 ^ 24" by (intro power_increasing) auto
    then have "take_bit (8 * ?n) (unat v) < 2 ^ 24" using take_bit_nat_less_exp[of "8 * ?n" "unat v"] by (rule order.strict_trans2[rotated])
    then have "int (take_bit (8 * ?n) (unat v)) < 2 ^ 31" by simp
    with True show ?thesis by (simp add: read_signed_def u min_def take_bit_eq_mod zmod_int)
  next
    case False
    then have "read_unsigned 4 (le_bytes ?n v @ replicate (8 - ?n) 0) = uint (ucast v :: 32 word)"
      by (simp add: u min_def uint_ucast_take_bit)
    then show ?thesis using False by (simp add: read_signed_def sint_32_cases)
  qed
  moreover have "?n < 4 \<longleftrightarrow> r_max_size r < 4" by (simp add: word_less_nat_alt)
  ultimately show ?thesis using s'(1) call by auto
qed

definition rule_row :: "type_enum \<Rightarrow> size_t \<Rightarrow> binary_metadata option \<Rightarrow> binary_metadata row" where
  "rule_row type n metadata =
     memory_row_impl sample_key n (Some (replicate (unat n) 0)) (sample_info\<lparr>ri_type := type\<rparr>) metadata None"

definition rules_dd :: "binary_metadata row list \<Rightarrow> (binary_metadata, 'f) database_dispatcher" where
  "rules_dd rows =
     \<lparr>dd_subs = \<lparr>ss_rows = rows, ss_disposables = (\<lambda>_. []), ss_alive = (\<lambda>_. True), ss_signals = (\<lambda>_. []), ss_callbacks = [], ss_next = 0\<rparr>,
      dd_wrappers = [], dd_queue = [], dd_running = True\<rparr>"

lemma rule_row_simps [simp]:
  "row_inv (rule_row t n m)" "r_callbacks (rule_row t n m) = []" "r_write_priority (rule_row t n m) = 0" "r_max_size (rule_row t n m) = n"
  "is_empty_type (rule_row t n m) \<longleftrightarrow> t = EMPTY_TYPE" "ri_type (r_info (rule_row t n m)) = t" "row_value (rule_row t n m) = []"
  "ri_type_name (r_info (rule_row t n m)) = []" "r_parser_metadata (rule_row t n m) = m"
  by (simp_all add: rule_row_def memory_row_impl_def row_inv_def row_capacity_def row_value_def is_empty_type_def sample_info_def mem_zero_def)

lemma rules_dd_simps [simp]: "ss_rows (dd_subs (rules_dd rows)) = rows" "dd_running (rules_dd rows)"
  by (simp_all add: rules_dd_def)

lemma rules_dd_start: "\<forall>r \<in> set rows. row_inv r \<and> r_callbacks r = [] \<Longrightarrow> dd_start (rules_dd rows)"
  by (simp add: dd_start_def rules_dd_def subs_start_def)

lemma rules_dd_inv: "\<forall>r \<in> set rows. row_inv r \<and> r_callbacks r = [] \<Longrightarrow> dd_inv (rules_dd rows)"
  using rules_dd_start dd_start_inv by blast

theorem task_value_read_back_witness:
  "(\<exists>s'. call_task (\<lambda>_. 0) (Write_number 0 (- 1) True) (rules_dd [rule_row INT8 1 None] :: (binary_metadata, nat) database_dispatcher) =
      Inr (Write_number 0 (- 1) True, s') \<and> call_row_function (ss_rows (dd_subs s')) (Row_value 0) = Inr (Fin 255)) \<and>
   (\<exists>s'. call_task (\<lambda>_. 0) (Write_number 0 (- 1) True) (rules_dd [rule_row INT32 4 None] :: (binary_metadata, nat) database_dispatcher) =
      Inr (Write_number 0 (- 1) True, s') \<and> call_row_function (ss_rows (dd_subs s')) (Row_value 0) = Inr (Fin (- 1)))"
proof
  have "uint (- 1 :: int64) mod 2 ^ 8 = 255" "sint (ucast (- 1 :: int64) :: 32 word) = - 1" by (simp_all add: unsigned_minus_1_eq_mask mask_eq_exp_minus_1)
  then show "\<exists>s'. call_task (\<lambda>_. 0) (Write_number 0 (- 1) True) (rules_dd [rule_row INT8 1 None] :: (binary_metadata, nat) database_dispatcher) =
      Inr (Write_number 0 (- 1) True, s') \<and> call_row_function (ss_rows (dd_subs s')) (Row_value 0) = Inr (Fin 255)"
    and "\<exists>s'. call_task (\<lambda>_. 0) (Write_number 0 (- 1) True) (rules_dd [rule_row INT32 4 None] :: (binary_metadata, nat) database_dispatcher) =
      Inr (Write_number 0 (- 1) True, s') \<and> call_row_function (ss_rows (dd_subs s')) (Row_value 0) = Inr (Fin (- 1))"
    using task_value_read_back[OF rules_dd_inv, of "[rule_row INT8 1 None]" 0 _ "\<lambda>_. 0" "- 1" True]
      task_value_read_back[OF rules_dd_inv, of "[rule_row INT32 4 None]" 0 _ "\<lambda>_. 0" "- 1" True] by auto
qed

text \<open>An integer constant for a \<^verbatim>\<open>FLOAT\<close> row is stored as the bits of the integer: conditions then read a number that is
  smaller by the factor \<open>2 ^ 149\<close>.\<close>

theorem integer_task_on_float_row:
  assumes "dd_inv s" and "dd_running s" and "rid < length (ss_rows (dd_subs s))" and "r = ss_rows (dd_subs s) ! rid"
    and "ri_type (r_info r) = FLOAT" and "r_write_priority r = 0" and "r_max_size r = 4" and "unat v < 2 ^ 23"
  shows "\<exists>s'. call_task junk (Write_number rid v force) s = Inr (Write_number rid v force, s') \<and>
           call_row_function (ss_rows (dd_subs s')) (Row_value rid) = Inr (Fin (of_nat (unat v) / 2 ^ 149))"
proof -
  have pre: "\<not> is_empty_type r" "0 < r_max_size r" "r_max_size r \<le> 8" using assms(5,7) by (simp_all add: is_empty_type_def)
  from call_number_ok[OF assms(1-4) pre(1) assms(6) pre(2,3), of junk v force] obtain s' where
    s': "call_task junk (Write_number rid v force) s = Inr (Write_number rid v force, s')"
    "row_value (ss_rows (dd_subs s') ! rid) = le_bytes (unat (r_max_size r)) v" "row_frame r (ss_rows (dd_subs s') ! rid)"
    "row_inv (ss_rows (dd_subs s') ! rid)" by (elim exE conjE) (rule that)
  have max: "r_max_size (ss_rows (dd_subs s') ! rid) = 4" "r_info (ss_rows (dd_subs s') ! rid) = r_info r"
    using s'(3) assms(7) by (simp_all add: row_frame_def)
  have "take_bit 32 (unat v) = unat v" using assms(8) by (simp add: take_bit_nat_eq_self_iff)
  then have "le_nat (le_bytes 4 v) = unat v" by (simp add: le_nat_le_bytes)
  moreover have "unat v div 2 ^ 23 = 0" "unat v div 2 ^ 31 = 0" using assms(8) by simp_all
  ultimately have "float_value (le_bytes 4 v @ replicate 4 0) = Fin (of_nat (unat v) / 2 ^ 149)"
    using assms(8) by (simp add: float_value_def ieee_of_nat_def Let_def dbl_of_ieee_def)
  then show ?thesis using row_function_value[OF s'(4)] s'(1,2) max assms(5,7) by (auto simp: number_value_def)
qed

theorem integer_task_on_float_row_witness:
  "\<exists>s'. call_task (\<lambda>_. 0) (Write_number 0 1 True) (rules_dd [rule_row FLOAT 4 None] :: (binary_metadata, nat) database_dispatcher) =
      Inr (Write_number 0 1 True, s') \<and> call_row_function (ss_rows (dd_subs s')) (Row_value 0) = Inr (Fin (1 / 2 ^ 149))"
  using integer_task_on_float_row[OF rules_dd_inv, of "[rule_row FLOAT 4 None]" 0 _ 1 "\<lambda>_. 0" True] by auto

text \<open>A constant that is not an integer is refused. The text of a number with a fraction, for a row of any simple type, \<^verbatim>\<open>FLOAT\<close>
  included, ends the construction of the rule with an exception.\<close>

theorem fraction_task_rejected:
  assumes "query_row_by_string (task_field task) d = Inr (Some (rid, path))" and "ri_type (r_info (rows ! rid)) \<noteq> COMPLEX"
    and "task_interval (task_timeout task) = Inr interval" and "\<not> is_integer (task_state task)"
    and "fst (get_enumeration_of (task_state task) (ri_type_name (r_info (rows ! rid))) d) = None"
  shows "parse_task rd rows rule_id task_id task d =
           Inl (Throws (Logic_error ('': '' @ task_state task @ ''  Is not an Enum or a Constant'')))"
proof -
  have "try_row_float_value strtod str = None" for strtod :: "string \<Rightarrow> bytes \<times> nat" and str
    by (simp add: try_row_float_value_def split_beta)
  with assms show ?thesis
    by (auto simp: parse_task_def simple_task_def try_row_int_value_def res_simps split_beta Let_def)
qed

definition example_readers :: readers where
  "example_readers = \<lparr>stod_of = (\<lambda>_. Inl Undefined), stof_of = (\<lambda>_. Inl Undefined), strtod_of = (\<lambda>_. ([], 0))\<rparr>"

definition example_rules_data :: rules_data where
  "example_rules_data = rules_data_create (\<lambda>_. None) (\<lambda>name. if name = ''iSpeed'' then Some 0 else if name = ''iHeight'' then Some 1 else None)
     (\<lambda>name. if name = ''enAlarm'' then Some 2 else None) (\<lambda>name. if name = ''rAlarm'' then Some 3 else None)
     (\<lambda>name. if name = ''oLamp'' then Some 4 else None) None \<lparr>st_metadata = [], st_enums = []\<rparr>"

theorem fraction_task_rejected_witness:
  "parse_task example_readers [rule_row FLOAT 4 None] 1 0 \<lparr>task_field = ''iSpeed'', task_state = ''1.5'', task_notify = ''Always'', task_timeout = ''0''\<rparr> example_rules_data =
     Inl (Throws (Logic_error '': 1.5  Is not an Enum or a Constant''))"
  using fraction_task_rejected[of "\<lparr>task_field = ''iSpeed'', task_state = ''1.5'', task_notify = ''Always'', task_timeout = ''0''\<rparr>" example_rules_data 0 "[]"
      "[rule_row FLOAT 4 None]" 0 example_readers 1 0]
  by (simp add: query_row_by_string_def example_rules_data_def rules_data_create_def task_interval_def is_integer_def skip_minus_def all_digits_def
      is_digit_char_def char_in_def get_enumeration_of_def get_enumeration_def)

text \<open>A task on a big-endian field writes its value in the order of the field only with every second call. Writing the field
  converts the value that the function of the task has captured, in place, so that the next call converts it back.\<close>

theorem big_endian_task_alternates:
  assumes "dd_inv s" and "dd_running s" and "rid < length (ss_rows (dd_subs s))" and "r = ss_rows (dd_subs s) ! rid"
    and "\<not> is_empty_type r" and "r_write_priority r = 0" and "0 < r_max_size r" and "n_big_endian node"
    and "n_bits node = None" and "n_size node \<le> 8" and "unat off + unat (n_size node) \<le> unat (r_max_size r)"
    and "f = Write_field rid v force node off (r_max_size r)"
    and "field = (\<lambda>s. take (unat (n_size node)) (drop (unat off) (row_value (ss_rows (dd_subs s) ! rid))))"
  shows "\<exists>f1 s1 s2. call_task junk f s = Inr (f1, s1) \<and> field s1 = swap_pairs (le_bytes (unat (n_size node)) v) \<and>
           call_task junk f1 s1 = Inr (f, s2) \<and> field s2 = le_bytes (unat (n_size node)) v"
proof -
  let ?k = "unat (n_size node)"
  let ?v = "word_of_bytes (convert_endian True ?k (le_bytes 8 v))"
  have k: "?k \<le> 8" using assms(10) by (simp add: word_le_nat_alt)
  from call_field_ok[OF assms(1-7,9-11), of junk v force] assms(8) obtain s1 where
    s1: "call_task junk f s = Inr (Write_field rid ?v force node off (r_max_size r), s1)" "dd_inv s1" "dd_running s1"
    "length (ss_rows (dd_subs s1)) = length (ss_rows (dd_subs s))" "row_frame r (ss_rows (dd_subs s1) ! rid)"
    "row_value (ss_rows (dd_subs s1) ! rid) =
       take (unat off) (padded r) @ take ?k (convert_endian True ?k (le_bytes 8 v)) @ drop (unat off + ?k) (padded r)" using assms(12) by auto
  let ?r = "ss_rows (dd_subs s1) ! rid"
  have frame: "\<not> is_empty_type ?r" "r_write_priority ?r = 0" "r_max_size ?r = r_max_size r"
    using s1(5) assms(5,6) by (simp_all add: row_frame_def is_empty_type_def)
  have inverse: "convert_endian True ?k (le_bytes 8 ?v) = le_bytes 8 v" "word_of_bytes (le_bytes 8 v) = v"
    using k by (simp_all add: le_bytes_word_of_bytes word_of_le_bytes)
  have "rid < length (ss_rows (dd_subs s1))" using s1(4) assms(3) by simp
  from call_field_ok[OF s1(2,3) this refl frame(1,2) _ assms(9,10), of off junk ?v force] frame(3) assms(7,8,11) inverse obtain s2 where
    s2: "call_task junk (Write_field rid ?v force node off (r_max_size r)) s1 = Inr (f, s2)"
    "row_value (ss_rows (dd_subs s2) ! rid) = take (unat off) (padded ?r) @ take ?k (le_bytes 8 v) @ drop (unat off + ?k) (padded ?r)"
    using assms(12) by auto
  have "unat off \<le> unat (r_max_size r)" using assms(11) by simp
  then have "field s1 = swap_pairs (le_bytes ?k v)" "field s2 = le_bytes ?k v"
    using s1(6) s2(2) k frame(3) by (simp_all add: assms(13) convert_endian_def take_le_bytes)
  with s1(1) s2(1) show ?thesis by blast
qed

definition example_big_endian_node :: node_attr where
  "example_big_endian_node = node_attr_create ''speed'' 0 2 UINT16 True"

theorem big_endian_task_alternates_witness:
  "\<exists>f1 s1 s2. call_task (\<lambda>_. 0) (Write_field 0 1 True example_big_endian_node 0 4)
       (rules_dd [rule_row COMPLEX 4 None] :: (binary_metadata, nat) database_dispatcher) = Inr (f1, s1) \<and>
     take 2 (row_value (ss_rows (dd_subs s1) ! 0)) = [0, 1] \<and>
     call_task (\<lambda>_. 0) f1 s1 = Inr (Write_field 0 1 True example_big_endian_node 0 4, s2) \<and>
     take 2 (row_value (ss_rows (dd_subs s2) ! 0)) = [1, 0]"
proof -
  let ?s = "rules_dd [rule_row COMPLEX 4 None] :: (binary_metadata, nat) database_dispatcher"
  have "le_bytes 2 (1 :: int64) = [1, 0]" by (simp add: le_bytes_def numeral_2_eq_2)
  then show ?thesis
    using big_endian_task_alternates[of ?s 0 "rule_row COMPLEX 4 None" example_big_endian_node 0 "Write_field 0 1 True example_big_endian_node 0 4"
        1 True _ "\<lambda>_. 0", OF rules_dd_inv] by (simp add: example_big_endian_node_def node_attr_create_def)
qed

end
