(* ===== verification/Context_Timers.thy ===== *)
theory Context_Timers
  imports Cpp_Prelude Complex_Main
begin

text \<open>
  The timers of a context (\<^verbatim>\<open>simple_context::timer\<close> and the timer functions of \<^verbatim>\<open>simple_context\<close> in
  \<^verbatim>\<open>Include/utils/dispatcher.hpp\<close>): clients with invocation counts, registration by interval, the
  choice of the timers that expire next and the rescheduling of the timers that were waited for.

  A time point is a number of nanoseconds; an interval is the rational number of milliseconds that a
  \<^verbatim>\<open>double\<close> stands for, computed with exactly. Timers are compared by identity in the code, so each has
  a number of its own. What a client does when it is invoked is a parameter, the change it makes to
  the clients of its timer.
\<close>

section \<open>Clients\<close>

definition INT_MAX :: int where "INT_MAX = 2147483647"

definition UNDEFINED_CLINET_ID :: int where "UNDEFINED_CLINET_ID = -1"

record client_wrapper =
  cw_id :: int
  cw_timer_client :: nat
  cw_invocation_count :: "32 word"
  cw_expired :: bool

text \<open>The static counter, before and after a call.\<close>

definition get_next_client_id :: "int \<Rightarrow> int \<times> int" where
  "get_next_client_id NEXT_ID =
     (let retval = NEXT_ID; next = NEXT_ID + 1 in (retval, if next = INT_MAX then 0 else next))"

definition client_wrapper_create :: "int \<Rightarrow> nat \<Rightarrow> 32 word \<Rightarrow> client_wrapper" where
  "client_wrapper_create i timer_client invocation_count =
     \<lparr>cw_id = i, cw_timer_client = timer_client, cw_invocation_count = invocation_count, cw_expired = False\<rparr>"

definition client_invoke :: "client_wrapper \<Rightarrow> client_wrapper" where
  "client_invoke c =
     (if cw_invocation_count c > 0 then
        let n = cw_invocation_count c - 1 in
        c\<lparr>cw_invocation_count := n, cw_expired := (if n = 0 then True else cw_expired c)\<rparr>
      else c)"

section \<open>Timers\<close>

record timer =
  tm_object :: nat
  tm_interval :: rat
  tm_clients :: "client_wrapper list"

definition client_count :: "timer \<Rightarrow> nat" where
  "client_count t = length (tm_clients t)"

definition add_client :: "int \<Rightarrow> nat \<Rightarrow> 32 word \<Rightarrow> timer \<Rightarrow> timer" where
  "add_client i timer_client invocation_count t =
     t\<lparr>tm_clients := tm_clients t @ [client_wrapper_create i timer_client invocation_count]\<rparr>"

fun erase_client :: "int \<Rightarrow> client_wrapper list \<Rightarrow> client_wrapper list" where
  "erase_client i [] = []"
| "erase_client i (c # cs) = (if cw_id c = i then cs else c # erase_client i cs)"

definition remove_client :: "int \<Rightarrow> timer \<Rightarrow> bool \<times> timer" where
  "remove_client i t =
     (if \<exists>c \<in> set (tm_clients t). cw_id c = i then (True, t\<lparr>tm_clients := erase_client i (tm_clients t)\<rparr>)
      else (False, t))"

text \<open>\<^verbatim>\<open>is_expired\<close>: whether the interval is over, and the nanoseconds that are left.\<close>

definition is_expired :: "int \<Rightarrow> int \<Rightarrow> timer \<Rightarrow> bool \<times> nat" where
  "is_expired now reference_time t =
     (let time_interval = of_int (now - reference_time) in
      if time_interval \<ge> tm_interval t * 1000000 then (True, 0)
      else (False, nat \<lfloor>tm_interval t * 1000000 - time_interval\<rfloor>))"

text \<open>The loop of \<^verbatim>\<open>timer::invoke\<close> over the copy of the clients. A wrapper is shared between the copy and the
  list of the clients; \<open>react n\<close> is what the client \<open>n\<close> does to that list when it is invoked. The result
  has the clients that were invoked, in order.\<close>

fun invoke_clients ::
  "(nat \<Rightarrow> client_wrapper list \<Rightarrow> client_wrapper list) \<Rightarrow> client_wrapper list \<Rightarrow> client_wrapper list \<Rightarrow>
   client_wrapper list \<times> nat list" where
  "invoke_clients react [] cs = (cs, [])"
| "invoke_clients react (c # executing) cs =
     (let c' = client_invoke c;
          cs1 = react (cw_timer_client c) (map (\<lambda>d. if cw_id d = cw_id c then c' else d) cs);
          cs2 = (if cw_expired c' then erase_client (cw_id c) cs1 else cs1)
      in map_prod id ((#) (cw_timer_client c)) (invoke_clients react executing cs2))"

definition timer_invoke :: "(nat \<Rightarrow> client_wrapper list \<Rightarrow> client_wrapper list) \<Rightarrow> timer \<Rightarrow> timer \<times> nat list" where
  "timer_invoke react t =
     (case invoke_clients react (tm_clients t) (tm_clients t) of (cs, invoked) \<Rightarrow> (t\<lparr>tm_clients := cs\<rparr>, invoked))"

section \<open>The timers of a context\<close>

type_synonym timers = "(int \<times> timer) list"

definition ULLONG_MAX :: nat where "ULLONG_MAX = 2 ^ 64 - 1"

fun next_timers_loop :: "int \<Rightarrow> timers \<Rightarrow> timer list \<Rightarrow> int \<Rightarrow> nat \<Rightarrow> timer list \<times> int \<times> nat" where
  "next_timers_loop now [] ts deadline wait_interval = (ts, deadline, wait_interval)"
| "next_timers_loop now (p # ps) ts deadline wait_interval =
     (if client_count (snd p) > 0 then
        let expire_interval = snd (is_expired now (fst p) (snd p)) in
        if expire_interval < wait_interval
        then next_timers_loop now ps [snd p] (now + int expire_interval) expire_interval
        else if expire_interval = wait_interval
        then next_timers_loop now ps (ts @ [snd p]) deadline wait_interval
        else next_timers_loop now ps ts deadline wait_interval
      else next_timers_loop now ps ts deadline wait_interval)"

text \<open>The timers left after the empty ones were cleaned up; the timers to wait for, the deadline and the time
  to wait.\<close>

definition get_next_timers :: "int \<Rightarrow> timers \<Rightarrow> int \<Rightarrow> timers \<times> timer list \<times> int \<times> nat" where
  "get_next_timers now m_timers deadline =
     (let ps = filter (\<lambda>p. client_count (snd p) \<noteq> 0) m_timers in (ps, next_timers_loop now ps [] deadline ULLONG_MAX))"

text \<open>The first loop of \<^verbatim>\<open>check_timers\<close>; the second one erases through iterators that the first erasure
  has made invalid, so two timers to erase are undefined behaviour.\<close>

definition reschedule :: "int \<Rightarrow> timer \<Rightarrow> timers \<Rightarrow> timers" where
  "reschedule now t m_timers =
     map (\<lambda>p. if tm_object (snd p) = tm_object t then (now, snd p) else p) m_timers"

definition registered :: "timers \<Rightarrow> timer \<Rightarrow> bool" where
  "registered m_timers t \<longleftrightarrow> (\<exists>p \<in> set m_timers. tm_object (snd p) = tm_object t)"

definition check_timers :: "int \<Rightarrow> timer list \<Rightarrow> timers \<Rightarrow> (timer list \<times> timers) result" where
  "check_timers now ts m_timers =
     (let removed_timers = filter (\<lambda>t. \<not> registered m_timers t) ts in
      if length removed_timers > 1 then Inl Undefined
      else Inr (filter (registered m_timers) ts, fold (reschedule now) ts m_timers))"

text \<open>\<^verbatim>\<open>add_timer\<close>: the token, and the timers. \<open>fresh\<close> is the identity of the timer object that may be made,
  \<open>i\<close> the identifier of the new client.\<close>

definition add_timer :: "int \<Rightarrow> nat \<Rightarrow> int \<Rightarrow> rat \<Rightarrow> nat \<Rightarrow> 32 word \<Rightarrow> timers \<Rightarrow> int \<times> timers" where
  "add_timer now fresh i interval invokable invocation_count m_timers =
     (let it = (if invocation_count = 0 then find (\<lambda>p. tm_interval (snd p) = interval) m_timers else None);
          drop_it = (case it of Some p \<Rightarrow> client_count (snd p) = 0 | None \<Rightarrow> False);
          ps = (if drop_it then remove1 (the it) m_timers else m_timers)
      in case (if drop_it then None else it) of
           Some p \<Rightarrow> (i, map (\<lambda>q. if q = p then (fst p, add_client i invokable invocation_count (snd p)) else q) ps)
         | None \<Rightarrow> (i, ps @ [(now, add_client i invokable invocation_count
                              \<lparr>tm_object = fresh, tm_interval = interval, tm_clients = []\<rparr>)]))"

fun remove_timer :: "int \<Rightarrow> timers \<Rightarrow> bool \<times> timers" where
  "remove_timer i [] = (False, [])"
| "remove_timer i (p # ps) =
     (case remove_client i (snd p) of (removed, t) \<Rightarrow>
      case remove_timer i ps of (r, ps') \<Rightarrow>
        (removed \<or> r, if removed \<and> client_count t = 0 then ps' else (fst p, t) # ps'))"

section \<open>Choosing the next timers\<close>

definition remaining :: "int \<Rightarrow> int \<times> timer \<Rightarrow> nat" where
  "remaining now p = snd (is_expired now (fst p) (snd p))"

definition least_remaining :: "int \<Rightarrow> timers \<Rightarrow> nat \<Rightarrow> nat" where
  "least_remaining now ps w = fold min (map (remaining now) ps) w"

lemma least_remaining_simps [simp]:
  "least_remaining now [] w = w" "least_remaining now (p # ps) w = least_remaining now ps (min (remaining now p) w)"
  by (simp_all add: least_remaining_def)

lemma least_remaining_le: "least_remaining now ps w \<le> w"
proof (induction ps arbitrary: w)
  case (Cons p ps)
  then have "least_remaining now ps (min (remaining now p) w) \<le> min (remaining now p) w" .
  then show ?case by simp
qed simp

lemma next_timers_loop_Cons:
  "client_count (snd p) > 0 \<Longrightarrow> next_timers_loop now (p # ps) ts deadline w =
     (if remaining now p < w then next_timers_loop now ps [snd p] (now + int (remaining now p)) (remaining now p)
      else next_timers_loop now ps (if remaining now p = w then ts @ [snd p] else ts) deadline w)"
  by (simp add: remaining_def Let_def)

lemma next_timers_loop_min:
  assumes "\<forall>p. p \<in> set ps \<longrightarrow> client_count (snd p) > 0"
  shows "next_timers_loop now ps ts deadline w =
     (if least_remaining now ps w < w
      then (map snd (filter (\<lambda>p. remaining now p = least_remaining now ps w) ps),
            now + int (least_remaining now ps w), least_remaining now ps w)
      else (ts @ map snd (filter (\<lambda>p. remaining now p = w) ps), deadline, w))"
  using assms
proof (induction ps arbitrary: ts deadline w)
  case (Cons p ps)
  have pos: "client_count (snd p) > 0" using Cons.prems by (metis list.set_intros(1))
  have IH: "next_timers_loop now ps ts deadline w =
     (if least_remaining now ps w < w
      then (map snd (filter (\<lambda>p. remaining now p = least_remaining now ps w) ps),
            now + int (least_remaining now ps w), least_remaining now ps w)
      else (ts @ map snd (filter (\<lambda>p. remaining now p = w) ps), deadline, w))" for ts deadline w
    using Cons by (meson list.set_intros(2))
  show ?case
  proof (cases "remaining now p < w")
    case True
    then have eq: "least_remaining now (p # ps) w = least_remaining now ps (remaining now p)" by simp
    show ?thesis
      using True least_remaining_le[of now ps "remaining now p"]
      by (simp add: next_timers_loop_Cons[OF pos] IH eq del: least_remaining_simps next_timers_loop.simps)
  next
    case False
    then have eq: "least_remaining now (p # ps) w = least_remaining now ps w" by (simp add: min_def)
    show ?thesis
      using False least_remaining_le[of now ps w]
      by (auto simp: next_timers_loop_Cons[OF pos] IH eq simp del: least_remaining_simps next_timers_loop.simps)
  qed
qed simp

lemma fold_min_least:
  fixes w :: nat
  assumes "x \<in> set xs" and "x < w"
  shows "fold min xs w < w \<and> fold min xs w \<in> set xs \<and> (\<forall>y \<in> set xs. fold min xs w \<le> y)"
proof -
  have "fold min xs w = Min (set (w # xs))"
    by (metis List.finite_set Min.set_eq_fold)
  then have m: "fold min xs w = Min (insert w (set xs))" by simp
  then have "fold min xs w \<le> x" using assms(1) by simp
  moreover have "fold min xs w \<in> insert w (set xs)" unfolding m by (intro Min_in) auto
  ultimately show ?thesis using m assms(2) by auto
qed

lemma get_next_timers_cleans:
  "fst (get_next_timers now m_timers dl) = filter (\<lambda>p. client_count (snd p) \<noteq> 0) m_timers"
  by (simp add: get_next_timers_def Let_def)

section \<open>Counting invocations\<close>

lemma erase_client_fresh: "i \<notin> cw_id ` set cs \<Longrightarrow> erase_client i cs = cs"
  by (induction cs) auto

lemma erase_client_append: "i \<notin> cw_id ` set xs \<Longrightarrow> erase_client i (xs @ ys) = xs @ erase_client i ys"
  by (induction xs) auto

lemma client_invoke_id [simp]: "cw_id (client_invoke c) = cw_id c" "cw_timer_client (client_invoke c) = cw_timer_client c"
  by (simp_all add: client_invoke_def Let_def)

lemma invoke_clients_plain:
  assumes "distinct (map cw_id (old @ executing))"
  shows "invoke_clients (\<lambda>_. id) executing (old @ executing) =
     (old @ filter (\<lambda>c. \<not> cw_expired c) (map client_invoke executing), map cw_timer_client executing)"
  using assms
proof (induction executing arbitrary: old)
  case (Cons c cs)
  have upd: "map (\<lambda>d. if cw_id d = cw_id c then client_invoke c else d) (old @ c # cs) = old @ client_invoke c # cs"
  proof -
    have "map (\<lambda>d. if cw_id d = cw_id c then client_invoke c else d) xs = xs" if "cw_id c \<notin> cw_id ` set xs" for xs
      using that by (induction xs) auto
    then show ?thesis using Cons.prems by simp
  qed
  have id: "cw_id c \<notin> cw_id ` set old" using Cons.prems by auto
  have dist: "distinct (map cw_id (old @ cs))" "distinct (map cw_id ((old @ [client_invoke c]) @ cs))" using Cons.prems by auto
  show ?case
  proof (cases "cw_expired (client_invoke c)")
    case True
    have "erase_client (cw_id c) (old @ client_invoke c # cs) = old @ cs" using id by (simp add: erase_client_append)
    then show ?thesis using Cons.IH[OF dist(1)] True upd by (simp add: Let_def del: map_append)
  next
    case False
    then show ?thesis using Cons.IH[OF dist(2)] upd by (simp add: Let_def del: map_append)
  qed
qed simp

definition plain_tick :: "timer \<Rightarrow> timer \<times> nat list" where
  "plain_tick t = timer_invoke (\<lambda>_. id) t"

primrec plain_ticks :: "nat \<Rightarrow> timer \<Rightarrow> nat list" where
  "plain_ticks 0 t = []"
| "plain_ticks (Suc k) t = (case plain_tick t of (t', invoked) \<Rightarrow> invoked @ plain_ticks k t')"

lemma plain_tick_clients:
  "distinct (map cw_id (tm_clients t)) \<Longrightarrow>
   plain_tick t = (t\<lparr>tm_clients := filter (\<lambda>c. \<not> cw_expired c) (map client_invoke (tm_clients t))\<rparr>, map cw_timer_client (tm_clients t))"
  using invoke_clients_plain[of "[]" "tm_clients t"] by (simp add: plain_tick_def timer_invoke_def)

lemma distinct_filter_invoke:
  "distinct (map f cs) \<Longrightarrow> (\<And>c. f (client_invoke c) = f c) \<Longrightarrow> distinct (map f (filter P (map client_invoke cs)))"
  by (induction cs) (auto simp: image_iff)

lemma map_filter_invoke:
  "(\<And>c. f (client_invoke c) = f c) \<Longrightarrow> f ` set (filter P (map client_invoke cs)) \<subseteq> f ` set cs"
  by force

lemma absent_client: "n \<notin> cw_timer_client ` set (tm_clients t) \<Longrightarrow> distinct (map cw_id (tm_clients t)) \<Longrightarrow> count_list (plain_ticks k t) n = 0"
proof (induction k arbitrary: t)
  case (Suc k)
  let ?t = "t\<lparr>tm_clients := filter (\<lambda>c. \<not> cw_expired c) (map client_invoke (tm_clients t))\<rparr>"
  have "count_list (plain_ticks k ?t) n = 0"
    using Suc.prems by (intro Suc.IH) (auto simp: distinct_filter_invoke)
  moreover have "count_list (map cw_timer_client (tm_clients t)) n = 0" using Suc.prems(1) by (simp add: count_list_0_iff)
  ultimately show ?case using Suc.prems by (simp add: plain_tick_clients)
qed simp

lemma count_distinct: "distinct xs \<Longrightarrow> x \<in> set xs \<Longrightarrow> count_list xs x = 1"
  by (induction xs) (auto simp: count_list_0_iff)

text \<open>A client that asked for a number of invocations gets exactly that many, one with each tick of its
  timer; a client that gave no number is invoked with every tick.\<close>

theorem timer_invocation_count:
  assumes "c \<in> set (tm_clients t)" and "\<not> cw_expired c"
    and "distinct (map cw_id (tm_clients t))" and "distinct (map cw_timer_client (tm_clients t))"
  shows "count_list (plain_ticks k t) (cw_timer_client c) =
           (if cw_invocation_count c = 0 then k else min k (unat (cw_invocation_count c)))"
  using assms
proof (induction k arbitrary: t c)
  case (Suc k)
  let ?t = "t\<lparr>tm_clients := filter (\<lambda>c. \<not> cw_expired c) (map client_invoke (tm_clients t))\<rparr>" and ?c = "client_invoke c"
  have tick: "plain_ticks (Suc k) t = map cw_timer_client (tm_clients t) @ plain_ticks k ?t"
    using Suc.prems(3) by (simp add: plain_tick_clients)
  have once: "count_list (map cw_timer_client (tm_clients t)) (cw_timer_client c) = 1"
    using Suc.prems(1,4) by (intro count_distinct) auto
  show ?case
  proof (cases "cw_expired ?c")
    case True
    then have one: "cw_invocation_count c = 1"
      using Suc.prems(2) by (auto simp: client_invoke_def Let_def split: if_splits)
    have "cw_timer_client c \<notin> cw_timer_client ` set (tm_clients ?t)"
    proof
      assume "cw_timer_client c \<in> cw_timer_client ` set (tm_clients ?t)"
      then obtain d where d: "d \<in> set (tm_clients t)" "\<not> cw_expired (client_invoke d)" "cw_timer_client d = cw_timer_client c"
        by auto
      then have "d = c" using Suc.prems(1,4) by (metis inj_onD distinct_map)
      with d True show False by simp
    qed
    then have "count_list (plain_ticks k ?t) (cw_timer_client c) = 0"
      using Suc.prems(3) by (intro absent_client) (simp_all add: distinct_filter_invoke)
    with tick once one show ?thesis by simp
  next
    case False
    have "count_list (plain_ticks k ?t) (cw_timer_client ?c) =
        (if cw_invocation_count ?c = 0 then k else min k (unat (cw_invocation_count ?c)))"
      using Suc.prems False by (intro Suc.IH) (simp_all add: distinct_filter_invoke)
    moreover have "cw_invocation_count c = 0 \<and> cw_invocation_count ?c = 0 \<or>
        cw_invocation_count ?c \<noteq> 0 \<and> unat (cw_invocation_count c) = Suc (unat (cw_invocation_count ?c))"
      using False Suc.prems(2) by (auto simp: client_invoke_def Let_def unat_minus_one word_gt_0 unat_gt_0 split: if_splits)
    ultimately show ?thesis using tick once by auto
  qed
qed simp

definition sample_client :: client_wrapper where
  "sample_client = client_wrapper_create 7 3 2"

definition sample_timer :: timer where
  "sample_timer = \<lparr>tm_object = 0, tm_interval = 5, tm_clients = [sample_client]\<rparr>"

theorem timer_invocation_count_witness: "count_list (plain_ticks 4 sample_timer) 3 = 2"
  using timer_invocation_count[of sample_client sample_timer 4]
  by (simp add: sample_timer_def sample_client_def client_wrapper_create_def)

section \<open>Properties of the timers of a context\<close>

text \<open>The worker waits for the timers that expire first: when some timer has clients, the timers chosen are
  all those with the least time left, in the order of their registration, and the deadline is the present
  time plus that time; timers without clients are forgotten.\<close>

theorem next_timers_expire_first:
  assumes "get_next_timers now m_timers dl = (ps, ts, deadline, wait_interval)"
    and "p \<in> set m_timers" and "client_count (snd p) > 0" and "remaining now p < ULLONG_MAX"
  shows "ps = filter (\<lambda>p. client_count (snd p) \<noteq> 0) m_timers \<and> ts \<noteq> [] \<and>
         ts = map snd (filter (\<lambda>q. remaining now q = wait_interval) ps) \<and>
         (\<forall>q. q \<in> set ps \<longrightarrow> wait_interval \<le> remaining now q) \<and> deadline = now + int wait_interval"
proof -
  have ps: "ps = filter (\<lambda>p. client_count (snd p) \<noteq> 0) m_timers"
    and loop: "next_timers_loop now ps [] dl ULLONG_MAX = (ts, deadline, wait_interval)"
    using assms(1) by (auto simp: get_next_timers_def Let_def)
  have p: "p \<in> set ps" using assms(2,3) ps by simp
  have m: "least_remaining now ps ULLONG_MAX < ULLONG_MAX"
    "least_remaining now ps ULLONG_MAX \<in> remaining now ` set ps"
    "\<forall>q. q \<in> set ps \<longrightarrow> least_remaining now ps ULLONG_MAX \<le> remaining now q"
    using fold_min_least[of "remaining now p" "map (remaining now) ps" ULLONG_MAX] p assms(4)
    by (auto simp: least_remaining_def)
  have all: "\<forall>p. p \<in> set ps \<longrightarrow> client_count (snd p) > 0" by (simp add: ps)
  from loop m(1) have w: "ts = map snd (filter (\<lambda>q. remaining now q = wait_interval) ps)"
    "deadline = now + int wait_interval" "wait_interval = least_remaining now ps ULLONG_MAX"
    by (auto simp: next_timers_loop_min[OF all] split: if_splits)
  have "ts \<noteq> []" using m(2) w(1,3) by (auto simp: filter_empty_conv)
  with ps w m(3) show ?thesis by auto
qed

theorem next_timers_expire_first_witness:
  "\<exists>ps ts w. get_next_timers 1000 [(0, sample_timer)] 0 = (ps, ts, 1000 + int w, w) \<and> ts \<noteq> []"
proof -
  obtain ps ts d w where g: "get_next_timers 1000 [(0, sample_timer)] 0 = (ps, ts, d, w)" by (metis prod_cases4)
  have "remaining 1000 (0, sample_timer) < ULLONG_MAX"
    by (simp add: remaining_def is_expired_def sample_timer_def ULLONG_MAX_def)
  moreover have "client_count (snd (0 :: int, sample_timer)) > 0" by (simp add: client_count_def sample_timer_def)
  ultimately show ?thesis using next_timers_expire_first[OF g, of "(0, sample_timer)"] g by auto
qed

text \<open>After the wait, the timers that are still registered are rescheduled from the deadline, so that their
  ticks do not drift, and the others are left alone; one timer that was unregistered during the wait is
  dropped.\<close>

lemma check_timers_reschedules:
  "check_timers deadline ts m_timers =
     (if 1 < length (filter (\<lambda>t. \<not> registered m_timers t) ts) then Inl Undefined
      else Inr (filter (registered m_timers) ts,
             map (\<lambda>p. if \<exists>t \<in> set ts. tm_object t = tm_object (snd p) then (deadline, snd p) else p) m_timers))"
proof -
  have "fold (reschedule now) ts ps = map (\<lambda>p. if \<exists>t \<in> set ts. tm_object t = tm_object (snd p) then (now, snd p) else p) ps" for now ps
    by (induction ts arbitrary: ps) (auto simp: reschedule_def)
  then show ?thesis by (simp add: check_timers_def Let_def)
qed

lemma remove_client_object: "tm_object (snd (remove_client i t)) = tm_object t"
  by (simp add: remove_client_def)

lemma remove_timer_objects:
  "p \<in> set (snd (remove_timer i ps)) \<Longrightarrow>
   \<exists>q. q \<in> set ps \<and> tm_object (snd q) = tm_object (snd p) \<and> (i \<notin> cw_id ` set (tm_clients (snd q)) \<or> client_count (snd q) \<noteq> 1)"
proof (induction ps)
  case (Cons a ps)
  obtain removed t where t: "remove_client i (snd a) = (removed, t)" by fastforce
  have "length (erase_client j cs) = (if j \<in> cw_id ` set cs then length cs - 1 else length cs)" for j cs
    by (induction cs) (auto simp: Suc_pred length_pos_if_in_set simp del: length_greater_0_conv split: if_splits)
  then have count: "removed \<Longrightarrow> client_count t = client_count (snd a) - 1" "\<not> removed \<Longrightarrow> i \<notin> cw_id ` set (tm_clients (snd a))"
    using t by (auto simp: remove_client_def client_count_def split: if_splits)
  have obj: "tm_object t = tm_object (snd a)" using remove_client_object[of i "snd a"] t by simp
  from Cons.prems t show ?case
  proof (cases "p \<in> set (snd (remove_timer i ps))")
    case True
    then show ?thesis using Cons.IH by (metis list.set_intros(2))
  next
    case False
    then have "p = (fst a, t)" "\<not> (removed \<and> client_count t = 0)" using Cons.prems t by (auto split: prod.splits if_splits)
    then show ?thesis using count obj by (intro exI[of _ a]) auto
  qed
qed simp

lemma remove_timer_from:
  "p \<in> set (snd (remove_timer i ps)) \<Longrightarrow> \<exists>q. q \<in> set ps \<and> snd p = snd (remove_client i (snd q))"
proof (induction ps)
  case (Cons a ps)
  obtain removed t where t: "remove_client i (snd a) = (removed, t)" by fastforce
  show ?case
  proof (cases "p \<in> set (snd (remove_timer i ps))")
    case True
    then show ?thesis using Cons.IH by (metis list.set_intros(2))
  next
    case False
    then have "p = (fst a, t)" using Cons.prems t by (auto split: prod.splits if_splits)
    then show ?thesis using t by (intro exI[of _ a]) simp
  qed
qed simp

lemma unregistered:
  assumes "map cw_id (tm_clients t) = [i]"
    and "\<forall>q. q \<in> set ps \<and> tm_object (snd q) = tm_object t \<longrightarrow> snd q = t"
  shows "\<not> registered (snd (remove_timer i ps)) t"
proof
  have c: "client_count t = 1" "i \<in> cw_id ` set (tm_clients t)"
    using assms(1) by (auto simp: client_count_def map_eq_Cons_conv)
  assume "registered (snd (remove_timer i ps)) t"
  then obtain p where "p \<in> set (snd (remove_timer i ps))" "tm_object (snd p) = tm_object t" by (auto simp: registered_def)
  then obtain q where "q \<in> set ps" "tm_object (snd q) = tm_object t" "i \<notin> cw_id ` set (tm_clients (snd q)) \<or> client_count (snd q) \<noteq> 1"
    using remove_timer_objects by metis
  moreover from this assms(2) have "snd q = t" by blast
  ultimately show False using c by simp
qed

text \<open>Two timers, each with one client, that are waited for and whose clients are both unregistered before
  the deadline are erased one after the other through iterators of the same vector, of which the first
  erasure has made the second invalid.\<close>

theorem two_unregistered_timers_undefined:
  assumes "distinct (map (tm_object \<circ> snd) m_timers)" and "t1 \<in> snd ` set m_timers" and "t2 \<in> snd ` set m_timers" and "t1 \<noteq> t2"
    and "map cw_id (tm_clients t1) = [i1]" and "map cw_id (tm_clients t2) = [i2]" and "t1 \<in> set ts" and "t2 \<in> set ts" and "i1 \<noteq> i2"
  shows "check_timers deadline ts (snd (remove_timer i2 (snd (remove_timer i1 m_timers)))) = Inl Undefined"
proof -
  let ?m1 = "snd (remove_timer i1 m_timers)" and ?m2 = "snd (remove_timer i2 (snd (remove_timer i1 m_timers)))"
  have unique: "a = b" if "a \<in> snd ` set m_timers" "b \<in> snd ` set m_timers" "tm_object a = tm_object b" for a b
    using assms(1) that by (auto simp: distinct_map inj_on_def)
  have "\<not> registered ?m1 t1"
    using unique[OF _ assms(2)] by (intro unregistered[OF assms(5)]) blast
  then have g1: "\<not> registered ?m2 t1"
    using remove_timer_objects[of _ i2 ?m1] unfolding registered_def by metis
  have "snd (remove_client i1 t2) = t2" using assms(6,9) by (auto simp: remove_client_def map_eq_Cons_conv)
  then have "snd q = t2" if "q \<in> set ?m1" "tm_object (snd q) = tm_object t2" for q
    using that remove_timer_from[OF that(1)] unique[OF _ assms(3)] remove_client_object[of i1] by (metis imageI)
  then have g2: "\<not> registered ?m2 t2" by (intro unregistered[OF assms(6)]) auto
  have "{t1, t2} \<subseteq> set (filter (\<lambda>t. \<not> registered ?m2 t) ts)" using g1 g2 assms(7,8) by auto
  then have "2 \<le> length (filter (\<lambda>t. \<not> registered ?m2 t) ts)"
    using assms(4) card_mono[of "set (filter (\<lambda>t. \<not> registered ?m2 t) ts)" "{t1, t2}"] card_length[of "filter (\<lambda>t. \<not> registered ?m2 t) ts"] by simp
  then show ?thesis by (simp add: check_timers_def Let_def)
qed

definition other_timer :: timer where
  "other_timer = \<lparr>tm_object = 1, tm_interval = 5, tm_clients = [client_wrapper_create 8 4 0]\<rparr>"

theorem two_unregistered_timers_undefined_witness:
  "check_timers 50 [sample_timer, other_timer] (snd (remove_timer 8 (snd (remove_timer 7 [(0, sample_timer), (0, other_timer)])))) =
   Inl Undefined"
  by (rule two_unregistered_timers_undefined[of _ sample_timer other_timer])
    (simp_all add: sample_timer_def other_timer_def sample_client_def client_wrapper_create_def)

definition timers_ok :: "int \<Rightarrow> timers \<Rightarrow> bool" where
  "timers_ok i m_timers \<longleftrightarrow> (\<forall>p. p \<in> set m_timers \<longrightarrow> client_count (snd p) > 0 \<and> i \<notin> cw_id ` set (tm_clients (snd p)))"

lemma remove_client_absent: "i \<notin> cw_id ` set (tm_clients t) \<Longrightarrow> remove_client i t = (False, t)"
  by (auto simp: remove_client_def)

lemma remove_client_added:
  "i \<notin> cw_id ` set (tm_clients t) \<Longrightarrow> remove_client i (add_client i n c t) = (True, t)"
  by (simp add: remove_client_def add_client_def erase_client_append client_wrapper_create_def)

lemma remove_timer_absent: "timers_ok i ps \<Longrightarrow> remove_timer i ps = (False, ps)"
  by (induction ps) (auto simp: timers_ok_def remove_client_absent)

lemma remove_timer_append:
  "remove_timer i (ps @ qs) = (fst (remove_timer i ps) \<or> fst (remove_timer i qs), snd (remove_timer i ps) @ snd (remove_timer i qs))"
  by (induction ps) (auto split: prod.splits)

text \<open>Registering a client and unregistering it again leaves the timers as they were, whether the client got a
  timer of its own or joined one of the same interval.\<close>

theorem timer_register_unregister:
  assumes "timers_ok i m_timers" and "distinct m_timers"
    and "add_timer now fresh i interval invokable invocation_count m_timers = (token, m_timers')"
  shows "token = i \<and> m_timers' \<noteq> m_timers \<and> remove_timer token m_timers' = (True, m_timers)"
proof -
  let ?it = "if invocation_count = 0 then find (\<lambda>p. tm_interval (snd p) = interval) m_timers else None"
  show ?thesis
  proof (cases ?it)
    case None
    let ?t = "\<lparr>tm_object = fresh, tm_interval = interval, tm_clients = []\<rparr>"
    have m': "m_timers' = m_timers @ [(now, add_client i invokable invocation_count ?t)]" "token = i"
      using assms(3) None by (auto simp: add_timer_def Let_def split: if_splits)
    have "remove_timer i [(now, add_client i invokable invocation_count ?t)] = (True, [])"
      by (simp add: remove_client_added client_count_def)
    then show ?thesis using remove_timer_append remove_timer_absent[OF assms(1)] m' by simp
  next
    case (Some p)
    then have p: "p \<in> set m_timers" by (auto simp: find_Some_iff split: if_splits)
    then have ok: "client_count (snd p) > 0" "i \<notin> cw_id ` set (tm_clients (snd p))" using assms(1) unfolding timers_ok_def by blast+
    let ?q = "(fst p, add_client i invokable invocation_count (snd p))"
    have m: "m_timers' = map (\<lambda>q. if q = p then ?q else q) m_timers" "token = i"
      using assms(3) Some ok(1) by (auto simp: add_timer_def Let_def split: if_splits)
    obtain as bs where split: "m_timers = as @ p # bs" using p by (auto simp: in_set_conv_decomp)
    have "map (\<lambda>q. if q = p then ?q else q) xs = xs" if "p \<notin> set xs" for xs using that by (induction xs) auto
    then have m': "m_timers' = as @ [?q] @ bs" using m(1) split assms(2) by simp
    have "timers_ok i as" "timers_ok i bs" using assms(1) split by (auto simp: timers_ok_def)
    moreover have "remove_timer i [?q] = (True, [p])" using ok by (simp add: remove_client_added)
    ultimately have "remove_timer i m_timers' = (True, m_timers)"
      using m' split remove_timer_absent by (simp only: remove_timer_append) simp
    moreover have "tm_clients (add_client i invokable invocation_count (snd p)) \<noteq> tm_clients (snd p)" by (simp add: add_client_def)
    then have "m_timers' \<noteq> m_timers" using m' split by (metis append_Cons append_same_eq append_self_conv2 list.inject same_append_eq snd_conv)
    ultimately show ?thesis using m(2) by simp
  qed
qed

theorem timer_register_unregister_witness:
  "remove_timer 9 (snd (add_timer 10 1 9 5 4 0 [(0, sample_timer)])) = (True, [(0, sample_timer)])"
proof -
  obtain tok ts where a: "add_timer 10 1 9 5 4 0 [(0, sample_timer)] = (tok, ts)" by fastforce
  have "timers_ok 9 [(0, sample_timer)]"
    by (simp add: timers_ok_def client_count_def sample_timer_def sample_client_def client_wrapper_create_def)
  from timer_register_unregister[OF this distinct_singleton a] have "tok = 9" "remove_timer tok ts = (True, [(0, sample_timer)])" by blast+
  then show ?thesis using a by (metis snd_conv)
qed

end
