(* ===== verification/Rules_Dispatcher.thy ===== *)
theory Rules_Dispatcher
  imports Rules_Data Context_Timers
begin

text \<open>
  Rules at work: \<^verbatim>\<open>rule\<close> (\<^verbatim>\<open>Modules/rules/rule.cpp\<close>) and \<^verbatim>\<open>rules_dispatcher_impl\<close>.

  The rules dispatcher is a database dispatcher. A rule subscribes to its trigger rows and to its enable row; its worker
  evaluates the rule when a trigger changes, performs the tasks of the branch that holds, at once or by a timer of the
  context, and publishes the result. Disabling a rule takes its subscriptions and its timers back.

  The state has the database dispatcher, the timers of its context, the rule objects and the three maps of tokens. A
  subscribed function is one of three closures with the rule object it captures. A timer gets a copy of the function of
  its task. The worker performs one queued call or one timer at a time; the other threads appear as writes to rows
  between them. The tree of a rule's condition is built by \<^verbatim>\<open>Rules_Expression\<close>. Reading the rule file again is a
  parameter, the rules that the parser appends.
\<close>

section \<open>State\<close>

record rule =
  ru_id :: size_t
  ru_name :: string
  ru_triggers :: "string list"
  ru_true_tasks :: "task_struct list"
  ru_false_tasks :: "task_struct list"
  ru_expression :: "row_function node option"

datatype rule_call = Evaluate nat | Enable nat | Reload

record rules_dispatcher =
  rs_dispatcher :: "(binary_metadata, rule_call) database_dispatcher"
  rs_data :: rules_data
  rs_objects :: "rule list"
  rs_rules :: "nat list"
  rs_timers :: timers
  rs_clients :: "task_func list"
  rs_next_id :: int
  rs_next_timer :: nat
  rs_timer_tokens :: "(size_t \<times> (nat \<times> int option) list) list"
  rs_trigger_tokens :: "(size_t \<times> (string \<times> signal_token) list) list"
  rs_enable_tokens :: "(size_t \<times> signal_token) list"

text \<open>\<^verbatim>\<open>operator[]\<close> of a map makes the entry; \<open>map_put\<close> is an assignment to it.\<close>

definition map_at :: "('k \<times> 'v list) list \<Rightarrow> 'k \<Rightarrow> 'v list" where
  "map_at m k = (case map_of m k of None \<Rightarrow> [] | Some v \<Rightarrow> v)"

definition map_put :: "'k \<Rightarrow> 'v \<Rightarrow> ('k \<times> 'v) list \<Rightarrow> ('k \<times> 'v) list" where
  "map_put k v m = (if map_of m k = None then m @ [(k, v)] else al_update k (\<lambda>_. v) m)"

abbreviation rs_rows :: "rules_dispatcher \<Rightarrow> binary_metadata row list" where
  "rs_rows s \<equiv> ss_rows (dd_subs (rs_dispatcher s))"

definition branch_tasks :: "bool \<Rightarrow> rule \<Rightarrow> task_struct list" where
  "branch_tasks res r = (if res then ru_true_tasks r else ru_false_tasks r)"

text \<open>The function of a task after it was called.\<close>

definition set_task :: "nat \<Rightarrow> bool \<Rightarrow> nat \<Rightarrow> task_func \<Rightarrow> rules_dispatcher \<Rightarrow> rules_dispatcher" where
  "set_task obj res i f s =
     s\<lparr>rs_objects := (rs_objects s)[obj :=
         (let r = rs_objects s ! obj; upd = (\<lambda>ts. ts[i := (ts ! i)\<lparr>ts_func := f\<rparr>])
          in if res then r\<lparr>ru_true_tasks := upd (ru_true_tasks r)\<rparr> else r\<lparr>ru_false_tasks := upd (ru_false_tasks r)\<rparr>)]\<rparr>"

section \<open>Timers of tasks\<close>

definition register_for_timer :: "int \<Rightarrow> task_struct \<Rightarrow> rules_dispatcher \<Rightarrow> rules_dispatcher result" where
  "register_for_timer now task s =
     (if ts_interval task = 0 then Inl (Throws (Invalid_argument ''interval''))
      else let (i, next_id) = get_next_client_id (rs_next_id s);
               (token, timers) = add_timer now (rs_next_timer s) i (of_nat (unat (ts_interval task))) (length (rs_clients s)) 1 (rs_timers s)
           in Inr (s\<lparr>rs_timers := timers, rs_clients := rs_clients s @ [ts_func task], rs_next_id := next_id,
                     rs_next_timer := Suc (rs_next_timer s),
                     rs_timer_tokens := map_put (ts_rule_id task) (map_put (ts_task_id task) (Some token)
                                          (map_at (rs_timer_tokens s) (ts_rule_id task))) (rs_timer_tokens s)\<rparr>))"

text \<open>Parameters without a context do not unregister anything.\<close>

definition unregister_timer :: "int option \<Rightarrow> rules_dispatcher \<Rightarrow> bool \<times> rules_dispatcher" where
  "unregister_timer params s =
     (case params of
        None \<Rightarrow> (False, s)
      | Some token \<Rightarrow> (case remove_timer token (rs_timers s) of (ok, timers) \<Rightarrow> (ok, s\<lparr>rs_timers := timers\<rparr>)))"

definition unregister_for_timer :: "task_struct \<Rightarrow> rules_dispatcher \<Rightarrow> bool \<times> rules_dispatcher" where
  "unregister_for_timer task s =
     (case map_of (rs_timer_tokens s) (ts_rule_id task) of
        None \<Rightarrow> (False, s)
      | Some tokens \<Rightarrow>
          (case map_of tokens (ts_task_id task) of
             None \<Rightarrow> unregister_timer None
               (s\<lparr>rs_timer_tokens := map_put (ts_rule_id task) (tokens @ [(ts_task_id task, None)]) (rs_timer_tokens s)\<rparr>)
           | Some params \<Rightarrow> unregister_timer params s))"

definition cancel_task_timers :: "task_struct list \<Rightarrow> rules_dispatcher \<Rightarrow> rules_dispatcher" where
  "cancel_task_timers tasks s = fold (\<lambda>task s. if ts_interval task \<noteq> 0 then snd (unregister_for_timer task s) else s) tasks s"

definition unsubscribe_rule_tasks_timers :: "size_t \<Rightarrow> rules_dispatcher \<Rightarrow> bool \<times> rules_dispatcher" where
  "unsubscribe_rule_tasks_timers rule_id s =
     (let tokens = map_at (rs_timer_tokens s) rule_id
      in if tokens = [] then (False, s\<lparr>rs_timer_tokens := map_put rule_id [] (rs_timer_tokens s)\<rparr>)
         else let (ret_val, s1) = fold (\<lambda>(_, params) (ret_val, s). let (ok, s') = unregister_timer params s in (ret_val \<and> ok, s')) tokens (True, s)
              in (ret_val, s1\<lparr>rs_timer_tokens := map_put rule_id [] (rs_timer_tokens s1)\<rparr>))"

section \<open>Evaluation\<close>

definition RULE_TRUE :: "32 word" where "RULE_TRUE = 0"
definition RULE_FALSE :: "32 word" where "RULE_FALSE = 1"
definition RULE_ENABLE :: "32 word" where "RULE_ENABLE = 0"
definition RULE_DISABLE :: "32 word" where "RULE_DISABLE = 1"

definition publish_rule_existence :: "(nat \<Rightarrow> byte) \<Rightarrow> size_t \<Rightarrow> bool \<Rightarrow> rules_dispatcher \<Rightarrow> (bool \<times> rules_dispatcher) result" where
  "publish_rule_existence junk rule_id is_existence s =
     (case query_rule_existence_row rule_id (rs_data s) of
        None \<Rightarrow> Inr (False, s)
      | Some rid \<Rightarrow>
          res_map (\<lambda>(_, dd). (True, s\<lparr>rs_dispatcher := dd\<rparr>))
            (dd_write junk rid (Some (le_bytes 4 (if is_existence then RULE_TRUE else RULE_FALSE))) 4 True 0 (rs_dispatcher s)))"

fun perform_tasks :: "int \<Rightarrow> (nat \<Rightarrow> byte) \<Rightarrow> nat \<Rightarrow> bool \<Rightarrow> nat list \<Rightarrow> rules_dispatcher \<Rightarrow> rules_dispatcher result" where
  "perform_tasks now junk obj res [] s = Inr s"
| "perform_tasks now junk obj res (i # is) s =
     (let task = branch_tasks res (rs_objects s ! obj) ! i
      in if ts_interval task \<noteq> 0
         then res_bind (register_for_timer now task s) (perform_tasks now junk obj res is)
         else res_bind (call_task junk (ts_func task) (rs_dispatcher s)) (\<lambda>(f, dd).
                perform_tasks now junk obj res is (set_task obj res i f (s\<lparr>rs_dispatcher := dd\<rparr>))))"

definition perform_task :: "int \<Rightarrow> (nat \<Rightarrow> byte) \<Rightarrow> nat \<Rightarrow> bool \<Rightarrow> rules_dispatcher \<Rightarrow> rules_dispatcher result" where
  "perform_task now junk obj res s =
     res_bind (perform_tasks now junk obj res [0..<length (branch_tasks res (rs_objects s ! obj))] s) (\<lambda>s1.
       res_map snd (publish_rule_existence junk (ru_id (rs_objects s ! obj)) res s1))"

text \<open>Evaluation of the condition only calls its functions.\<close>

definition evaluation_env :: "binary_metadata row list \<Rightarrow> row_function operand_env" where
  "evaluation_env rows =
     \<lparr>oe_stod = (\<lambda>_. Inl Undefined), oe_try_row_int_value = (\<lambda>_. Inl Undefined), oe_get_function = (\<lambda>_. Inl Undefined),
      oe_call = call_row_function rows\<rparr>"

definition evaluate :: "int \<Rightarrow> (nat \<Rightarrow> byte) \<Rightarrow> nat \<Rightarrow> rules_dispatcher \<Rightarrow> (bool \<times> rules_dispatcher) result" where
  "evaluate now junk obj s =
     (let r = rs_objects s ! obj
      in res_bind (evaluate_expression (evaluation_env (rs_rows s)) (ru_expression r)) (\<lambda>res.
           let s1 = cancel_task_timers (ru_false_tasks r) (cancel_task_timers (ru_true_tasks r) s)
           in res_map (Pair res) (perform_task now junk obj res s1)))"

section \<open>Triggers and enabling\<close>

definition query_rule_by_id :: "size_t \<Rightarrow> rules_dispatcher \<Rightarrow> nat option" where
  "query_rule_by_id rule_id s = find (\<lambda>obj. ru_id (rs_objects s ! obj) = rule_id) (rs_rules s)"

fun subscribe_triggers :: "nat \<Rightarrow> size_t \<Rightarrow> string list \<Rightarrow> rules_dispatcher \<Rightarrow> (bool \<times> rules_dispatcher) result" where
  "subscribe_triggers obj rule_id [] s = Inr (True, s)"
| "subscribe_triggers obj rule_id (trigger # triggers) s =
     res_bind (query_row_by_string trigger (rs_data s)) (\<lambda>row.
       case row of
         None \<Rightarrow> Inr (False, s)
       | Some (rid, _) \<Rightarrow>
           res_bind (dd_subscribe (Some rid) (Evaluate obj) (rs_dispatcher s)) (\<lambda>(p, dd).
             subscribe_triggers obj rule_id triggers
               (s\<lparr>rs_dispatcher := dd,
                  rs_trigger_tokens := map_put rule_id (emplace trigger (sp_token p) (map_at (rs_trigger_tokens s) rule_id))
                                         (rs_trigger_tokens s)\<rparr>)))"

definition subscribe_rule_triggers :: "size_t \<Rightarrow> rules_dispatcher \<Rightarrow> (bool \<times> rules_dispatcher) result" where
  "subscribe_rule_triggers rule_id s =
     (if map_at (rs_trigger_tokens s) rule_id \<noteq> [] then Inr (False, s)
      else (case query_rule_by_id rule_id s of
              None \<Rightarrow> Inr (False, s)
            | Some obj \<Rightarrow> subscribe_triggers obj rule_id (ru_triggers (rs_objects s ! obj)) s))"

text \<open>The handlers run in the worker, where \<^verbatim>\<open>unsubscribe\<close> does not wait. A name without a token reads the token 0.\<close>

fun unsubscribe_triggers :: "size_t \<Rightarrow> string list \<Rightarrow> rules_dispatcher \<Rightarrow> (bool \<times> rules_dispatcher) result" where
  "unsubscribe_triggers rule_id [] s = Inr (True, s)"
| "unsubscribe_triggers rule_id (trigger # triggers) s =
     res_bind (query_row_by_string trigger (rs_data s)) (\<lambda>row.
       case row of
         None \<Rightarrow> Inr (False, s)
       | Some (rid, _) \<Rightarrow>
           let tokens = map_at (rs_trigger_tokens s) rule_id;
               token = (case map_of tokens trigger of None \<Rightarrow> 0 | Some t \<Rightarrow> t)
           in res_bind (dd_unsubscribe False (Some rid) token (rs_dispatcher s)) (\<lambda>(_, dd).
                unsubscribe_triggers rule_id triggers
                  (s\<lparr>rs_dispatcher := dd,
                     rs_trigger_tokens := map_put rule_id (al_remove trigger tokens) (rs_trigger_tokens s)\<rparr>)))"

definition unsubscribe_rule_triggers :: "size_t \<Rightarrow> rules_dispatcher \<Rightarrow> (bool \<times> rules_dispatcher) result" where
  "unsubscribe_rule_triggers rule_id s =
     (if map_at (rs_trigger_tokens s) rule_id = [] then Inr (False, s)
      else (case query_rule_by_id rule_id s of
              None \<Rightarrow> Inr (False, s)
            | Some obj \<Rightarrow> unsubscribe_triggers rule_id (ru_triggers (rs_objects s ! obj)) s))"

definition subscribe_rule_enabled :: "nat \<Rightarrow> rules_dispatcher \<Rightarrow> (bool \<times> rules_dispatcher) result" where
  "subscribe_rule_enabled obj s =
     (let rule_id = ru_id (rs_objects s ! obj)
      in case query_rule_enable_row rule_id (rs_data s) of
           None \<Rightarrow> Inr (False, s)
         | Some rid \<Rightarrow>
             res_map (\<lambda>(p, dd). (True, s\<lparr>rs_dispatcher := dd, rs_enable_tokens := emplace rule_id (sp_token p) (rs_enable_tokens s)\<rparr>))
               (dd_subscribe (Some rid) (Enable obj) (rs_dispatcher s)))"

definition unsubscribe_rule_enable :: "size_t \<Rightarrow> rules_dispatcher \<Rightarrow> (bool \<times> rules_dispatcher) result" where
  "unsubscribe_rule_enable rule_id s =
     (if rs_enable_tokens s = [] then Inr (False, s)
      else if query_rule_by_id rule_id s = None then Inr (False, s)
      else (case query_rule_enable_row rule_id (rs_data s) of
              None \<Rightarrow> Inr (False, s)
            | Some rid \<Rightarrow>
                let token = (case map_of (rs_enable_tokens s) rule_id of None \<Rightarrow> 0 | Some t \<Rightarrow> t)
                in res_map (\<lambda>(_, dd). (True, s\<lparr>rs_dispatcher := dd, rs_enable_tokens := al_remove rule_id (rs_enable_tokens s)\<rparr>))
                     (dd_unsubscribe False (Some rid) token (rs_dispatcher s))))"

text \<open>\<^verbatim>\<open>row_data::read\<close> of a type of \<open>k\<close> bytes; the text of the exception is shortened.\<close>

definition row_data_read :: "nat \<Rightarrow> size_t \<Rightarrow> bytes \<Rightarrow> bytes result" where
  "row_data_read k sz data =
     (if unat sz < k then Inl (Throws (Runtime_error ''Reading size mismatch'')) else mem_read data 0 k)"

definition handle_enable_state :: "int \<Rightarrow> (nat \<Rightarrow> byte) \<Rightarrow> nat \<Rightarrow> 32 word \<Rightarrow> rules_dispatcher \<Rightarrow> rules_dispatcher result" where
  "handle_enable_state now junk obj enable_state s =
     (if enable_state = RULE_ENABLE then res_map snd (evaluate now junk obj s) else Inr s)"

definition enable_changed :: "int \<Rightarrow> (nat \<Rightarrow> byte) \<Rightarrow> nat \<Rightarrow> size_t \<Rightarrow> bytes \<Rightarrow> rules_dispatcher \<Rightarrow> rules_dispatcher result" where
  "enable_changed now junk obj sz data s =
     (let rule_id = ru_id (rs_objects s ! obj)
      in res_bind (row_data_read 4 sz data) (\<lambda>bs.
           let enable_state = of_nat (le_nat bs) :: 32 word
           in res_bind (if enable_state = RULE_ENABLE then subscribe_rule_triggers rule_id s
                        else if enable_state = RULE_DISABLE
                        then res_map (\<lambda>(is_ok, s1). let (ok, s2) = unsubscribe_rule_tasks_timers rule_id s1 in (is_ok \<or> ok, s2))
                               (unsubscribe_rule_triggers rule_id s)
                        else Inr (False, s)) (\<lambda>(is_ok, s1).
                if is_ok then handle_enable_state now junk obj enable_state s1 else Inr s1)))"

section \<open>All rules\<close>

fun subscribe_all_rules_triggers :: "nat list \<Rightarrow> rules_dispatcher \<Rightarrow> rules_dispatcher result" where
  "subscribe_all_rules_triggers [] s = Inr s"
| "subscribe_all_rules_triggers (obj # objs) s =
     res_bind (subscribe_rule_triggers (ru_id (rs_objects s ! obj)) s) (\<lambda>(_, s1). subscribe_all_rules_triggers objs s1)"

fun subscribe_all_rules_enable :: "nat list \<Rightarrow> rules_dispatcher \<Rightarrow> rules_dispatcher result" where
  "subscribe_all_rules_enable [] s = Inr s"
| "subscribe_all_rules_enable (obj # objs) s =
     res_bind (subscribe_rule_enabled obj s) (\<lambda>(_, s1). subscribe_all_rules_enable objs s1)"

definition rules_start :: "rules_dispatcher \<Rightarrow> rules_dispatcher result" where
  "rules_start s =
     res_bind (subscribe_all_rules_triggers (rs_rules s) s) (\<lambda>s1.
     res_bind (subscribe_all_rules_enable (rs_rules s1) s1) (\<lambda>s2.
       res_map (\<lambda>(_, dd). s2\<lparr>rs_dispatcher := dd\<rparr>)
         (dd_subscribe (query_reload_rules_row (rs_data s2)) Reload (rs_dispatcher s2))))"

fun withdraw_rules :: "nat list \<Rightarrow> rules_dispatcher \<Rightarrow> rules_dispatcher result" where
  "withdraw_rules [] s = Inr s"
| "withdraw_rules (obj # objs) s =
     (let rule_id = ru_id (rs_objects s ! obj)
      in res_bind (unsubscribe_rule_triggers rule_id s) (\<lambda>(_, s1).
         res_bind (unsubscribe_rule_enable rule_id (snd (unsubscribe_rule_tasks_timers rule_id s1))) (\<lambda>(_, s2).
           withdraw_rules objs s2)))"

text \<open>\<open>parse\<close> is what the parser does with the file: the rules it makes and the data it has looked up meanwhile.\<close>

definition append_rules :: "rule list \<Rightarrow> rules_dispatcher \<Rightarrow> rules_dispatcher" where
  "append_rules rules s =
     s\<lparr>rs_objects := rs_objects s @ rules,
       rs_rules := rs_rules s @ [length (rs_objects s)..<length (rs_objects s) + length rules]\<rparr>"

definition reload_new_rules :: "(rules_data \<Rightarrow> (rule list \<times> rules_data) result) \<Rightarrow> rules_dispatcher \<Rightarrow> rules_dispatcher result" where
  "reload_new_rules parse s =
     res_bind (withdraw_rules (rs_rules s) s) (\<lambda>s1.
     res_bind (parse (rs_data s1)) (\<lambda>(rules, data).
       let s2 = append_rules rules
                  (s1\<lparr>rs_timer_tokens := [], rs_trigger_tokens := [], rs_enable_tokens := [], rs_rules := [], rs_data := data\<rparr>)
       in res_bind (subscribe_all_rules_triggers (rs_rules s2) s2) (\<lambda>s3. subscribe_all_rules_enable (rs_rules s3) s3)))"

fun create_rules_mechanism :: "nat list \<Rightarrow> rules_dispatcher \<Rightarrow> rules_dispatcher result" where
  "create_rules_mechanism [] s = Inr s"
| "create_rules_mechanism (obj # objs) s =
     (let r = rs_objects s ! obj
      in res_bind (add_rule_enable_row (ru_id r) (ru_name r) (rs_data s)) (\<lambda>(ok, d1).
           if \<not> ok then Inl (Throws (Runtime_error ''failed to add_rule_enable_row''))
           else let (ok, d2) = add_rule_existence_row (ru_id r) (ru_name r) d1
                in if \<not> ok then Inl (Throws (Runtime_error ''failed to add_rule_existence_row''))
                   else create_rules_mechanism objs (s\<lparr>rs_data := d2\<rparr>)))"

text \<open>\<^verbatim>\<open>add_rule\<close> with the rule that the parser has made; \<open>None\<close> is its index -1. The result is the identifier as an \<^verbatim>\<open>int\<close>.\<close>

definition dispatcher_add_rule :: "rule option \<Rightarrow> rules_dispatcher \<Rightarrow> (int \<times> rules_dispatcher) result" where
  "dispatcher_add_rule new s =
     (case new of
        None \<Rightarrow> Inr (-1, s)
      | Some r \<Rightarrow>
          let s1 = append_rules [r] s
          in res_bind (add_rule_enable_row (ru_id r) (ru_name r) (rs_data s1)) (\<lambda>(_, d1).
             let s2 = s1\<lparr>rs_data := snd (add_rule_existence_row (ru_id r) (ru_name r) d1)\<rparr>
             in res_bind (subscribe_rule_triggers (ru_id r) s2) (\<lambda>(_, s3).
                res_map (\<lambda>(_, s4). (sint (ucast (ru_id r) :: 32 word), s4))
                  (case query_rule_by_id (ru_id r) s3 of None \<Rightarrow> Inr (False, s3) | Some obj \<Rightarrow> subscribe_rule_enabled obj s3))))"

section \<open>The worker\<close>

definition rules_perform ::
  "int \<Rightarrow> (nat \<Rightarrow> byte) \<Rightarrow> (rules_data \<Rightarrow> (rule list \<times> rules_data) result) \<Rightarrow> rules_dispatcher \<Rightarrow> rules_dispatcher result" where
  "rules_perform now junk parse s =
     res_bind (dd_perform (rs_dispatcher s)) (\<lambda>(c, dd).
       let s1 = s\<lparr>rs_dispatcher := dd\<rparr>
       in case c of
            None \<Rightarrow> Inr s1
          | Some (f, row, sz, data) \<Rightarrow>
              (case f of
                 Evaluate obj \<Rightarrow> res_map snd (evaluate now junk obj s1)
               | Enable obj \<Rightarrow> enable_changed now junk obj sz data s1
               | Reload \<Rightarrow> reload_new_rules parse s1))"

fun call_clients :: "(nat \<Rightarrow> byte) \<Rightarrow> nat list \<Rightarrow> rules_dispatcher \<Rightarrow> rules_dispatcher result" where
  "call_clients junk [] s = Inr s"
| "call_clients junk (n # ns) s =
     res_bind (call_task junk (rs_clients s ! n) (rs_dispatcher s)) (\<lambda>(f, dd).
       call_clients junk ns (s\<lparr>rs_dispatcher := dd, rs_clients := (rs_clients s)[n := f]\<rparr>))"

text \<open>The worker invokes the timer at position \<open>i\<close>; the functions of tasks do not touch the timers.\<close>

definition timer_expired :: "(nat \<Rightarrow> byte) \<Rightarrow> nat \<Rightarrow> rules_dispatcher \<Rightarrow> rules_dispatcher result" where
  "timer_expired junk i s =
     (case timer_invoke (\<lambda>_. id) (snd (rs_timers s ! i)) of
        (t, invoked) \<Rightarrow> call_clients junk invoked (s\<lparr>rs_timers := (rs_timers s)[i := (fst (rs_timers s ! i), t)]\<rparr>))"

section \<open>Task timers are a map\<close>

text \<open>The timers that wait for tasks, by rule and task: the interval and the function.\<close>

definition client_id :: "int \<times> timer \<Rightarrow> int" where
  "client_id p = cw_id (hd (tm_clients (snd p)))"

definition live :: "rules_dispatcher \<Rightarrow> int \<Rightarrow> (rat \<times> task_func) option" where
  "live s = map_of (map (\<lambda>p. (client_id p, (tm_interval (snd p), rs_clients s ! cw_timer_client (hd (tm_clients (snd p)))))) (rs_timers s))"

definition task_token :: "rules_dispatcher \<Rightarrow> size_t \<Rightarrow> nat \<Rightarrow> int option" where
  "task_token s rule_id k = (case map_of (map_at (rs_timer_tokens s) rule_id) k of None \<Rightarrow> None | Some t \<Rightarrow> t)"

definition rule_timers :: "rules_dispatcher \<Rightarrow> size_t \<Rightarrow> nat \<Rightarrow> (rat \<times> task_func) option" where
  "rule_timers s rule_id k = (case task_token s rule_id k of None \<Rightarrow> None | Some t \<Rightarrow> live s t)"

text \<open>Every timer has one client, which one token names; the numbers of clients are below the next one.\<close>

definition timers_inv :: "rules_dispatcher \<Rightarrow> bool" where
  "timers_inv s \<longleftrightarrow>
     (\<forall>p \<in> set (rs_timers s). (\<exists>c. tm_clients (snd p) = [c] \<and> cw_timer_client c < length (rs_clients s)) \<and> client_id p < rs_next_id s \<and>
        (\<exists>rule_id k. task_token s rule_id k = Some (client_id p))) \<and>
     distinct (map client_id (rs_timers s)) \<and>
     (\<forall>rule_id k t. task_token s rule_id k = Some t \<longrightarrow> t < rs_next_id s) \<and>
     (\<forall>rule_id k rule_id' k' t. task_token s rule_id k = Some t \<and> task_token s rule_id' k' = Some t \<longrightarrow> rule_id' = rule_id \<and> k' = k)"

lemma map_of_map_put [simp]: "map_of (map_put k v m) = (map_of m)(k \<mapsto> v)"
  by (auto simp: map_put_def map_of_al_update fun_eq_iff map_add_def split: option.splits)

lemma map_at_map_put: "map_at (map_put k v m) k' = (if k' = k then v else map_at m k')"
  by (simp add: map_at_def)

lemma remove_timer_filter:
  assumes "\<forall>p \<in> set ps. \<exists>c. tm_clients (snd p) = [c]"
  shows "remove_timer i ps = ((\<exists>p \<in> set ps. client_id p = i), filter (\<lambda>p. client_id p \<noteq> i) ps)"
  using assms by (induction ps) (auto simp: remove_client_def client_count_def client_id_def split_beta)

lemma timers_invD:
  assumes "timers_inv s"
  shows "\<And>p. p \<in> set (rs_timers s) \<Longrightarrow> \<exists>c. tm_clients (snd p) = [c] \<and> cw_timer_client c < length (rs_clients s)"
    and "\<And>p. p \<in> set (rs_timers s) \<Longrightarrow> client_id p < rs_next_id s"
    and "\<And>p. p \<in> set (rs_timers s) \<Longrightarrow> \<exists>rule_id k. task_token s rule_id k = Some (client_id p)"
    and "distinct (map client_id (rs_timers s))"
    and "\<And>rule_id k t. task_token s rule_id k = Some t \<Longrightarrow> t < rs_next_id s"
    and "\<And>rule_id k rule_id' k' t. task_token s rule_id k = Some t \<Longrightarrow> task_token s rule_id' k' = Some t \<Longrightarrow> rule_id' = rule_id \<and> k' = k"
  using assms unfolding timers_inv_def by blast+

lemma task_token_cong: "rs_timer_tokens s' = rs_timer_tokens s \<Longrightarrow> task_token s' = task_token s"
  by (simp add: task_token_def fun_eq_iff)

lemma live_cong: "rs_timers s' = rs_timers s \<Longrightarrow> rs_clients s' = rs_clients s \<Longrightarrow> live s' = live s"
  by (simp add: live_def)

lemma rule_timers_eq: "task_token s' = task_token s \<Longrightarrow> live s' = live s \<Longrightarrow> rule_timers s' = rule_timers s"
  by (auto simp: rule_timers_def fun_eq_iff split: option.split)

lemma rule_timers_no_token: "task_token s r k = None \<Longrightarrow> (rule_timers s)(r := (rule_timers s r)(k := None)) = rule_timers s"
  by (auto simp: rule_timers_def fun_eq_iff)

lemma rule_timers_cong:
  "rs_timer_tokens s' = rs_timer_tokens s \<Longrightarrow> rs_timers s' = rs_timers s \<Longrightarrow> rs_clients s' = rs_clients s \<Longrightarrow> rule_timers s' = rule_timers s"
  by (intro rule_timers_eq task_token_cong live_cong)

lemma timers_inv_cong:
  "rs_timer_tokens s' = rs_timer_tokens s \<Longrightarrow> rs_timers s' = rs_timers s \<Longrightarrow> rs_clients s' = rs_clients s \<Longrightarrow> rs_next_id s' = rs_next_id s \<Longrightarrow>
   timers_inv s' = timers_inv s"
  by (simp add: timers_inv_def task_token_cong[of s' s])

lemma live_filter:
  "rs_timers s' = filter (\<lambda>p. client_id p \<noteq> t) (rs_timers s) \<Longrightarrow> rs_clients s' = rs_clients s \<Longrightarrow> live s' = (live s)(t := None)"
proof -
  have "map_of (map (\<lambda>p. (client_id p, g p)) (filter (\<lambda>p. client_id p \<noteq> t) ps)) = (map_of (map (\<lambda>p. (client_id p, g p)) ps))(t := None)"
    for ps and g :: "_ \<Rightarrow> rat \<times> task_func" by (induction ps) (auto simp: fun_eq_iff)
  then show "rs_timers s' = filter (\<lambda>p. client_id p \<noteq> t) (rs_timers s) \<Longrightarrow> rs_clients s' = rs_clients s \<Longrightarrow> ?thesis"
    by (simp add: live_def)
qed

text \<open>Taking one timer back, whoever it belongs to.\<close>

lemma unregister_timer_ok:
  assumes "timers_inv s" and "unregister_timer (Some t) s = (ok, s')"
  shows "timers_inv s' \<and> live s' = (live s)(t := None) \<and> task_token s' = task_token s \<and> (\<exists>ts. s' = s\<lparr>rs_timers := ts\<rparr>) \<and>
         ok = (live s t \<noteq> None)"
proof -
  note inv = timers_invD[OF assms(1)]
  from remove_timer_filter[of "rs_timers s" t] inv(1) have r: "remove_timer t (rs_timers s) = ((\<exists>p \<in> set (rs_timers s). client_id p = t), filter (\<lambda>p. client_id p \<noteq> t) (rs_timers s))"
    by blast
  then have s': "s' = s\<lparr>rs_timers := filter (\<lambda>p. client_id p \<noteq> t) (rs_timers s)\<rparr>" and ok: "ok = (\<exists>p \<in> set (rs_timers s). client_id p = t)"
    using assms(2) by (simp_all add: unregister_timer_def)
  have tt: "task_token s' = task_token s" using s' by (intro task_token_cong) simp
  have sel: "rs_timers s' = filter (\<lambda>p. client_id p \<noteq> t) (rs_timers s)" "rs_clients s' = rs_clients s" "rs_next_id s' = rs_next_id s"
    unfolding s' by simp_all
  have "timers_inv s'" unfolding timers_inv_def tt sel
    using inv(1-4) inv(5,6) by (intro conjI ballI allI impI) (auto simp: distinct_map_filter)
  moreover have "live s' = (live s)(t := None)" using s' by (intro live_filter) simp_all
  moreover have "ok = (live s t \<noteq> None)" unfolding ok live_def by (auto simp: map_of_eq_None_iff image_iff)
  ultimately show ?thesis using s' tt by blast
qed

lemma rule_timers_remove:
  assumes "timers_inv s" and "task_token s rule_id k = Some t" and "live s' = (live s)(t := None)" and "task_token s' = task_token s"
  shows "rule_timers s' = (rule_timers s)(rule_id := (rule_timers s rule_id)(k := None))"
proof (intro ext)
  fix r j
  show "rule_timers s' r j = ((rule_timers s)(rule_id := (rule_timers s rule_id)(k := None))) r j"
  proof (cases "task_token s r j = Some t")
    case True
    with timers_invD(6)[OF assms(1,2) True] assms(3,4) show ?thesis by (simp add: rule_timers_def)
  next
    case False
    then have "\<not> (r = rule_id \<and> j = k)" using assms(2) by auto
    then show ?thesis using False assms(3,4) by (auto simp: rule_timers_def split: option.splits)
  qed
qed

text \<open>What the other parts of the state see of the timer operations.\<close>

definition timers_only :: "rules_dispatcher \<Rightarrow> rules_dispatcher \<Rightarrow> bool" where
  "timers_only s s' \<longleftrightarrow>
     rs_dispatcher s' = rs_dispatcher s \<and> rs_data s' = rs_data s \<and> rs_objects s' = rs_objects s \<and> rs_rules s' = rs_rules s \<and>
     rs_trigger_tokens s' = rs_trigger_tokens s \<and> rs_enable_tokens s' = rs_enable_tokens s"

lemma timers_only_refl [simp]: "timers_only s s"
  and timers_only_trans: "timers_only s s1 \<Longrightarrow> timers_only s1 s2 \<Longrightarrow> timers_only s s2"
  by (simp_all add: timers_only_def)

lemma unregister_for_timer_ok:
  assumes "timers_inv s" and "unregister_for_timer task s = (ok, s')"
  shows "timers_inv s' \<and> rule_timers s' = (rule_timers s)(ts_rule_id task := (rule_timers s (ts_rule_id task))(ts_task_id task := None)) \<and>
         timers_only s s' \<and> rs_next_id s' = rs_next_id s"
proof (cases "map_of (rs_timer_tokens s) (ts_rule_id task)")
  case None
  then have "task_token s (ts_rule_id task) (ts_task_id task) = None" by (simp add: task_token_def map_at_def)
  with None assms show ?thesis by (auto simp: unregister_for_timer_def rule_timers_no_token)
next
  case (Some tokens)
  then have at: "map_at (rs_timer_tokens s) (ts_rule_id task) = tokens" by (simp add: map_at_def)
  show ?thesis
  proof (cases "map_of tokens (ts_task_id task)")
    case None
    then have s': "s' = s\<lparr>rs_timer_tokens := map_put (ts_rule_id task) (tokens @ [(ts_task_id task, None)]) (rs_timer_tokens s)\<rparr>"
      using assms(2) Some by (simp add: unregister_for_timer_def unregister_timer_def)
    have tt: "task_token s' = task_token s" using None at s' by (auto simp: task_token_def map_at_map_put fun_eq_iff map_add_def split: option.splits)
    have "live s' = live s" using s' by (intro live_cong) simp_all
    moreover have "task_token s (ts_rule_id task) (ts_task_id task) = None" using None at by (simp add: task_token_def)
    moreover have "timers_inv s'" unfolding timers_inv_def tt using assms(1) s' by (simp add: timers_inv_def)
    ultimately show ?thesis using s' rule_timers_eq[OF tt] by (simp add: rule_timers_no_token timers_only_def)
  next
    case (Some params)
    then have u: "unregister_timer params s = (ok, s')" using assms(2) \<open>map_of (rs_timer_tokens s) (ts_rule_id task) = Some tokens\<close>
      by (simp add: unregister_for_timer_def)
    have tok: "task_token s (ts_rule_id task) (ts_task_id task) = params" using Some at by (simp add: task_token_def)
    show ?thesis
    proof (cases params)
      case None
      with u tok assms(1) show ?thesis by (auto simp: unregister_timer_def rule_timers_no_token)
    next
      case (Some t)
      from unregister_timer_ok[OF assms(1) u[unfolded Some]] have o: "timers_inv s'" "live s' = (live s)(t := None)" "task_token s' = task_token s"
        "\<exists>ts. s' = s\<lparr>rs_timers := ts\<rparr>" by auto
      from o(4) have "timers_only s s'" "rs_next_id s' = rs_next_id s" by (auto simp: timers_only_def)
      with rule_timers_remove[OF assms(1) tok[unfolded Some] o(2,3)] o(1) show ?thesis by simp
    qed
  qed
qed

definition delayed :: "task_struct \<Rightarrow> bool" where
  "delayed task \<longleftrightarrow> ts_interval task \<noteq> 0"

definition timer_entry :: "task_struct \<Rightarrow> nat \<times> rat \<times> task_func" where
  "timer_entry task = (ts_task_id task, of_nat (unat (ts_interval task)), ts_func task)"

lemma dom_timer_entries: "dom (map_of (map timer_entry ts)) = ts_task_id ` set ts"
  by (simp add: dom_map_of_conv_image_fst timer_entry_def image_image)

lemma cancel_task_timers_ok:
  assumes "timers_inv s" and "\<forall>task \<in> set tasks. ts_rule_id task = rule_id"
  shows "timers_inv (cancel_task_timers tasks s) \<and>
         rule_timers (cancel_task_timers tasks s) = (rule_timers s)(rule_id := (rule_timers s rule_id) |` (- ts_task_id ` set (filter delayed tasks))) \<and>
         timers_only s (cancel_task_timers tasks s) \<and> rs_next_id (cancel_task_timers tasks s) = rs_next_id s"
  using assms
proof (induction tasks arbitrary: s)
  case Nil
  then show ?case by (simp add: cancel_task_timers_def)
next
  case (Cons task tasks)
  show ?case
  proof (cases "delayed task")
    case False
    with Cons show ?thesis by (simp add: cancel_task_timers_def delayed_def)
  next
    case True
    obtain ok s1 where u: "unregister_for_timer task s = (ok, s1)" by fastforce
    note u' = unregister_for_timer_ok[OF Cons.prems(1) u]
    have c: "cancel_task_timers (task # tasks) s = cancel_task_timers tasks s1" using True u by (simp add: cancel_task_timers_def delayed_def)
    have id: "ts_rule_id task = rule_id" using Cons.prems(2) by simp
    have "(rule_timers s1)(rule_id := (rule_timers s1 rule_id) |` (- ts_task_id ` set (filter delayed tasks))) =
          (rule_timers s)(rule_id := (rule_timers s rule_id) |` (- ts_task_id ` set (filter delayed (task # tasks))))"
      using u' True id by (auto simp: fun_eq_iff restrict_map_def)
    moreover have "timers_inv s1" "\<forall>task \<in> set tasks. ts_rule_id task = rule_id" using Cons.prems(2) u' by simp_all
    note Cons.IH[OF this]
    ultimately show ?thesis unfolding c using u' timers_only_trans by metis
  qed
qed

lemma live_append:
  assumes "timers_inv s" and "rs_timers s' = rs_timers s @ [(now, t)]" and "rs_clients s' = rs_clients s @ [f]"
    and "tm_clients t = [c]" and "cw_id c = rs_next_id s" and "cw_timer_client c = length (rs_clients s)"
  shows "live s' = (live s)(rs_next_id s \<mapsto> (tm_interval t, f))"
proof -
  note inv = timers_invD[OF assms(1)]
  have "rs_clients s' ! cw_timer_client (hd (tm_clients (snd p))) = rs_clients s ! cw_timer_client (hd (tm_clients (snd p)))" if "p \<in> set (rs_timers s)" for p
    using inv(1)[OF that] assms(3) by (auto simp: nth_append)
  then have old: "map (\<lambda>p. (client_id p, (tm_interval (snd p), rs_clients s' ! cw_timer_client (hd (tm_clients (snd p)))))) (rs_timers s) =
      map (\<lambda>p. (client_id p, (tm_interval (snd p), rs_clients s ! cw_timer_client (hd (tm_clients (snd p)))))) (rs_timers s)" by simp
  have fresh: "live s (rs_next_id s) = None" using inv(2) by (force simp: live_def map_of_eq_None_iff)
  have "live s' = [rs_next_id s \<mapsto> (tm_interval t, f)] ++ live s"
    unfolding live_def assms(2) map_append old using assms(3-6) by (simp add: client_id_def)
  then show ?thesis using fresh by (auto simp: fun_eq_iff map_add_def split: option.splits)
qed

lemma register_for_timer_ok:
  assumes "timers_inv s" and "delayed task" and "rs_next_id s + 1 < Context_Timers.INT_MAX"
    and "rule_timers s (ts_rule_id task) (ts_task_id task) = None"
  shows "\<exists>s'. register_for_timer now task s = Inr s' \<and> timers_inv s' \<and> rs_next_id s' = rs_next_id s + 1 \<and> timers_only s s' \<and>
           rule_timers s' = (rule_timers s)(ts_rule_id task := (rule_timers s (ts_rule_id task))(ts_task_id task \<mapsto> snd (timer_entry task)))"
proof -
  note inv = timers_invD[OF assms(1)]
  let ?i = "rs_next_id s" and ?r = "ts_rule_id task" and ?k = "ts_task_id task"
  define t where "t = \<lparr>tm_object = rs_next_timer s, tm_interval = of_nat (unat (ts_interval task)),
      tm_clients = [client_wrapper_create ?i (length (rs_clients s)) 1]\<rparr>"
  define s' where "s' = s\<lparr>rs_timers := rs_timers s @ [(now, t)], rs_clients := rs_clients s @ [ts_func task], rs_next_id := ?i + 1,
      rs_next_timer := Suc (rs_next_timer s), rs_timer_tokens := map_put ?r (map_put ?k (Some ?i) (map_at (rs_timer_tokens s) ?r)) (rs_timer_tokens s)\<rparr>"
  have sel: "rs_timers s' = rs_timers s @ [(now, t)]" "rs_clients s' = rs_clients s @ [ts_func task]" "rs_next_id s' = ?i + 1" "timers_only s s'"
    by (simp_all add: s'_def timers_only_def)
  have t: "tm_clients t = [client_wrapper_create ?i (length (rs_clients s)) 1]" "client_id (now, t) = ?i" "tm_interval t = of_nat (unat (ts_interval task))"
    by (simp_all add: t_def client_id_def client_wrapper_create_def)
  have reg: "register_for_timer now task s = Inr s'"
    using assms(2,3) by (simp add: register_for_timer_def delayed_def get_next_client_id_def add_timer_def add_client_def s'_def t_def Let_def)
  have tt: "task_token s' = (task_token s)(?r := (task_token s ?r)(?k \<mapsto> ?i))"
    by (auto simp: task_token_def s'_def map_at_map_put fun_eq_iff)
  have live: "live s' = (live s)(?i \<mapsto> snd (timer_entry task))"
    using live_append[OF assms(1) sel(1,2) t(1)] t(3) by (simp add: client_wrapper_create_def timer_entry_def)
  have notlive: "task_token s ?r ?k \<noteq> Some (client_id p)" if "p \<in> set (rs_timers s)" for p
  proof
    assume "task_token s ?r ?k = Some (client_id p)"
    with assms(4) have "live s (client_id p) = None" by (simp add: rule_timers_def)
    with that show False by (force simp: live_def map_of_eq_None_iff)
  qed
  have tokens: "task_token s' a b = Some (client_id p)" if "p \<in> set (rs_timers s)" "task_token s a b = Some (client_id p)" for p a b
    using notlive[OF that(1)] that(2) by (auto simp: tt)
  have lt: "task_token s a b = Some x \<Longrightarrow> x < ?i" for a b x using inv(5) .
  have "timers_inv s'" unfolding timers_inv_def sel
  proof (intro conjI ballI allI impI)
    fix p assume p: "p \<in> set (rs_timers s @ [(now, t)])"
    show "\<exists>c. tm_clients (snd p) = [c] \<and> cw_timer_client c < length (rs_clients s @ [ts_func task])"
      using p inv(1)[of p] t(1) by (auto simp: client_wrapper_create_def intro: less_SucI)
    show "client_id p < ?i + 1" using p inv(2)[of p] t(2) by auto
    show "\<exists>rule_id k. task_token s' rule_id k = Some (client_id p)"
    proof (cases "p = (now, t)")
      case True
      then show ?thesis using t(2) by (intro exI[of _ ?r] exI[of _ ?k]) (simp add: tt)
    next
      case False
      with p have "p \<in> set (rs_timers s)" by auto
      with inv(3) tokens show ?thesis by blast
    qed
  next
    show "distinct (map client_id (rs_timers s @ [(now, t)]))" using inv(2,4) t(2) by fastforce
  next
    show "x < ?i + 1" if "task_token s' a b = Some x" for a b x using that lt[of a b x] by (auto simp: tt split: if_splits)
  next
    fix a b a' b' x assume "task_token s' a b = Some x \<and> task_token s' a' b' = Some x"
    then show "a' = a" "b' = b" using inv(6)[of a b x a' b'] lt[of a b x] lt[of a' b' x] by (auto simp: tt split: if_splits)
  qed
  moreover have "rule_timers s' = (rule_timers s)(?r := (rule_timers s ?r)(?k \<mapsto> snd (timer_entry task)))"
  proof (intro ext)
    fix a b
    show "rule_timers s' a b = ((rule_timers s)(?r := (rule_timers s ?r)(?k \<mapsto> snd (timer_entry task)))) a b"
      using lt[of a b ?i] by (auto simp: rule_timers_def tt live split: option.splits)
  qed
  ultimately show ?thesis using reg sel(3,4) by blast
qed

section \<open>Performing tasks\<close>

text \<open>What writes leave of a database dispatcher.\<close>

definition rows_frame :: "binary_metadata row list \<Rightarrow> binary_metadata row list \<Rightarrow> bool" where
  "rows_frame rows rows' \<longleftrightarrow> length rows' = length rows \<and> (\<forall>i < length rows. row_frame (rows ! i) (rows' ! i))"

definition written :: "(binary_metadata, 'f) database_dispatcher \<Rightarrow> (binary_metadata, 'f) database_dispatcher \<Rightarrow> bool" where
  "written s s' \<longleftrightarrow>
     dd_inv s' \<and> dd_running s' \<and> rows_frame (ss_rows (dd_subs s)) (ss_rows (dd_subs s')) \<and>
     row_signal (dd_subs s') = row_signal (dd_subs s) \<and> same_wrappers (dd_wrappers s) (dd_wrappers s')"

lemma written_refl: "dd_inv s \<Longrightarrow> dd_running s \<Longrightarrow> written s s"
  by (simp add: written_def rows_frame_def row_frame_def same_wrappers_def)

lemma written_trans: "written s s1 \<Longrightarrow> written s1 s2 \<Longrightarrow> written s s2"
  by (auto simp: written_def rows_frame_def row_frame_def intro: same_wrappers_trans)

lemma dd_write_written:
  assumes "dd_inv s" and "dd_running s" and "rid < length (ss_rows (dd_subs s))" and "data_ok (Some bs) sz"
  shows "\<exists>ok s'. dd_write junk rid (Some bs) sz force priority s = Inr (ok, s') \<and> written s s'"
proof -
  note inv = dd_invD[OF assms(1)]
  have src: "source_ok (Some bs) sz" using assms(4) by (simp add: source_ok_def data_ok_def)
  from write_row_total[OF inv(1) assms(3) inv(2)[OF assms(3)] assms(4) inv(5)[OF assms(3)], of junk force priority] obtain ok subs calls where
    w: "write_row junk rid (Some bs) sz force priority (dd_subs s) = Inr (ok, subs, calls)" by blast
  from dd_write_ok[OF assms(1-3) src w] obtain s' where
    s': "dd_write junk rid (Some bs) sz force priority s = Inr (ok, s')" "dd_inv s'" "dd_running s'" "dd_subs s' = subs"
    "same_wrappers (dd_wrappers s) (dd_wrappers s')" by (elim exE conjE) (rule that)
  have "row_signal subs = row_signal (dd_subs s)" using write_row_keeps[OF inv(1) assms(3) inv(2)[OF assms(3)] w assms(4)] by blast
  moreover have "rows_frame (ss_rows (dd_subs s)) (ss_rows (dd_subs s'))"
    unfolding rows_frame_def
  proof (intro conjI allI impI)
    note rows = dd_write_rows[OF assms(1,3,4) s'(1)]
    show "length (ss_rows (dd_subs s')) = length (ss_rows (dd_subs s))" using rows by blast
    show "row_frame (ss_rows (dd_subs s) ! i) (ss_rows (dd_subs s') ! i)" for i
      using rows by (cases "i = rid") (simp_all add: row_frame_def)
  qed
  ultimately show ?thesis using s' by (auto simp: written_def)
qed

text \<open>A task whose function stays inside of the memory it captures.\<close>

definition task_ok :: "binary_metadata row list \<Rightarrow> task_func \<Rightarrow> bool" where
  "task_ok rows f \<longleftrightarrow>
     (case f of
        Write_number rid v force \<Rightarrow> rid < length rows \<and> r_max_size (rows ! rid) \<le> 8
      | Write_float rid v force \<Rightarrow> rid < length rows \<and> 4 \<le> length v
      | Write_field rid v force node off n \<Rightarrow>
          rid < length rows \<and> n = r_max_size (rows ! rid) \<and> 0 < n \<and> n_bits node = None \<and> n_size node \<le> 8 \<and>
          unat off + unat (n_size node) \<le> unat n)"

lemma task_ok_frame: "rows_frame rows rows' \<Longrightarrow> task_ok rows f \<Longrightarrow> task_ok rows' f"
  by (auto simp: task_ok_def rows_frame_def row_frame_def split: task_func.splits)

lemma call_task_written:
  assumes "dd_inv s" and "dd_running s" and "task_ok (ss_rows (dd_subs s)) f"
  shows "\<exists>f' s'. call_task junk f s = Inr (f', s') \<and> written s s'"
proof (cases f)
  case (Write_number rid v force)
  then have "rid < length (ss_rows (dd_subs s))" "data_ok (Some (le_bytes 8 v)) (r_max_size (ss_rows (dd_subs s) ! rid))"
    using assms(3) by (simp_all add: task_ok_def data_ok_def word_le_nat_alt)
  from dd_write_written[OF assms(1,2) this, of junk force 0] Write_number show ?thesis
    by (auto simp: call_task_def row_data_size_def)
next
  case (Write_float rid v force)
  then have "rid < length (ss_rows (dd_subs s))" "data_ok (Some v) 4" using assms(3) by (simp_all add: task_ok_def data_ok_def)
  from dd_write_written[OF assms(1,2) this, of junk force 0] Write_float show ?thesis by (auto simp: call_task_def)
next
  case (Write_field rid v force node off n)
  let ?r = "ss_rows (dd_subs s) ! rid"
  have ok: "rid < length (ss_rows (dd_subs s))" "n = r_max_size ?r" "0 < n" "n_bits node = None" "n_size node \<le> 8"
    "unat off + unat (n_size node) \<le> unat n" using assms(3) unfolding Write_field task_ok_def task_func.case by blast+
  have read: "row_read_bytes ?r (Some (replicate (unat n) 0)) n = Inr (True, Some (padded ?r))"
    using padded_read[OF dd_invD(2)[OF assms(1) ok(1)]] ok(2,3) by simp
  from field_written[where node = node and off = off and r = ?r and v = v] ok obtain data rest where
    w: "virtual_write node (le_bytes 8 v) (n_size node) (drop (unat off) (padded ?r)) (n - off) = Inr (True, data, rest)"
    "length (take (unat off) (padded ?r) @ rest) = unat n" by auto
  then have "data_ok (Some (take (unat off) (padded ?r) @ rest)) n" by (simp add: data_ok_def)
  from dd_write_written[OF assms(1,2) ok(1) this, of junk force 0] show ?thesis
    using Write_field read w(1) by (auto simp: call_task_def)
qed

text \<open>The rule objects keep everything but the functions of their tasks.\<close>

definition rule_frame :: "rule \<Rightarrow> rule \<Rightarrow> bool" where
  "rule_frame r r' \<longleftrightarrow>
     ru_id r' = ru_id r \<and> ru_name r' = ru_name r \<and> ru_triggers r' = ru_triggers r \<and> ru_expression r' = ru_expression r \<and>
     map (\<lambda>t. t\<lparr>ts_func := Write_number 0 0 False\<rparr>) (ru_true_tasks r') = map (\<lambda>t. t\<lparr>ts_func := Write_number 0 0 False\<rparr>) (ru_true_tasks r) \<and>
     map (\<lambda>t. t\<lparr>ts_func := Write_number 0 0 False\<rparr>) (ru_false_tasks r') = map (\<lambda>t. t\<lparr>ts_func := Write_number 0 0 False\<rparr>) (ru_false_tasks r)"

definition same_but_tasks :: "rules_dispatcher \<Rightarrow> rules_dispatcher \<Rightarrow> bool" where
  "same_but_tasks s s' \<longleftrightarrow>
     rs_data s' = rs_data s \<and> rs_rules s' = rs_rules s \<and> rs_trigger_tokens s' = rs_trigger_tokens s \<and> rs_enable_tokens s' = rs_enable_tokens s \<and>
     length (rs_objects s') = length (rs_objects s) \<and> (\<forall>n < length (rs_objects s). rule_frame (rs_objects s ! n) (rs_objects s' ! n))"

lemma same_but_tasks_refl: "same_but_tasks s s"
  by (simp add: same_but_tasks_def rule_frame_def)

lemma same_but_tasks_trans: "same_but_tasks s s1 \<Longrightarrow> same_but_tasks s1 s2 \<Longrightarrow> same_but_tasks s s2"
  by (auto simp: same_but_tasks_def rule_frame_def)

lemma timers_only_same: "timers_only s s' \<Longrightarrow> same_but_tasks s s'"
  by (simp add: timers_only_def same_but_tasks_def rule_frame_def)

lemma set_task_same:
  assumes "obj < length (rs_objects s)" and "i < length (branch_tasks res (rs_objects s ! obj))"
  shows "same_but_tasks s (set_task obj res i f (s\<lparr>rs_dispatcher := dd\<rparr>))"
  using assms by (auto simp: same_but_tasks_def rule_frame_def set_task_def branch_tasks_def Let_def nth_list_update map_update list_update_same_conv
      split: if_splits)

lemma set_task_simps [simp]:
  "rs_dispatcher (set_task obj res i f s) = rs_dispatcher s" "rs_timers (set_task obj res i f s) = rs_timers s"
  "rs_clients (set_task obj res i f s) = rs_clients s" "rs_next_id (set_task obj res i f s) = rs_next_id s"
  "rs_timer_tokens (set_task obj res i f s) = rs_timer_tokens s" "length (rs_objects (set_task obj res i f s)) = length (rs_objects s)"
  by (simp_all add: set_task_def)

lemma set_task_other:
  "obj < length (rs_objects s) \<Longrightarrow> j \<noteq> i \<Longrightarrow>
   branch_tasks res (rs_objects (set_task obj res i f s) ! obj) ! j = branch_tasks res (rs_objects s ! obj) ! j"
  by (simp add: set_task_def branch_tasks_def Let_def)

lemma branch_tasks_length:
  "obj < length (rs_objects s) \<Longrightarrow> length (branch_tasks res (rs_objects (set_task obj res i f s) ! obj)) = length (branch_tasks res (rs_objects s ! obj))"
  by (simp add: set_task_def branch_tasks_def Let_def)

lemma perform_tasks_ok:
  assumes "dd_inv (rs_dispatcher s)" and "dd_running (rs_dispatcher s)" and "timers_inv s" and "obj < length (rs_objects s)"
    and "tasks = map (\<lambda>i. branch_tasks res (rs_objects s ! obj) ! i) is"
    and "\<forall>i \<in> set is. i < length (branch_tasks res (rs_objects s ! obj))" and "distinct is"
    and "\<forall>task \<in> set tasks. ts_rule_id task = rule_id \<and> task_ok (rs_rows s) (ts_func task)"
    and "distinct (map ts_task_id tasks)" and "\<forall>task \<in> set tasks. rule_timers s rule_id (ts_task_id task) = None"
    and "rs_next_id s + int (length is) < Context_Timers.INT_MAX"
  shows "\<exists>s'. perform_tasks now junk obj res is s = Inr s' \<and> timers_inv s' \<and> written (rs_dispatcher s) (rs_dispatcher s') \<and> same_but_tasks s s' \<and>
           rs_next_id s' \<le> rs_next_id s + int (length is) \<and>
           rule_timers s' = (rule_timers s)(rule_id := rule_timers s rule_id ++ map_of (map timer_entry (filter delayed tasks)))"
  using assms
proof (induction "is" arbitrary: s tasks)
  case Nil
  then show ?case by (simp add: written_refl same_but_tasks_refl)
next
  case (Cons i "is")
  let ?task = "branch_tasks res (rs_objects s ! obj) ! i"
  let ?tasks = "map (\<lambda>i. branch_tasks res (rs_objects s ! obj) ! i) is"
  have tasks: "tasks = ?task # ?tasks" using Cons.prems(5) by simp
  have i: "i < length (branch_tasks res (rs_objects s ! obj))" "i \<notin> set is" using Cons.prems(6,7) by simp_all
  show ?case
  proof (cases "delayed ?task")
    case True
    have rid: "ts_rule_id ?task = rule_id" "rule_timers s rule_id (ts_task_id ?task) = None" using Cons.prems(8,10) tasks by simp_all
    have "rs_next_id s + 1 < Context_Timers.INT_MAX" using Cons.prems(11) by simp
    from register_for_timer_ok[OF Cons.prems(3) True this] rid obtain s1 where
      s1: "register_for_timer now ?task s = Inr s1" "timers_inv s1" "rs_next_id s1 = rs_next_id s + 1" "timers_only s s1"
      "rule_timers s1 = (rule_timers s)(rule_id := (rule_timers s rule_id)(ts_task_id ?task \<mapsto> snd (timer_entry ?task)))" by auto
    have same: "rs_dispatcher s1 = rs_dispatcher s" "rs_objects s1 = rs_objects s" using s1(4) by (simp_all add: timers_only_def)
    have fresh: "ts_task_id ?task \<notin> ts_task_id ` set ?tasks" using Cons.prems(9) unfolding tasks list.map distinct.simps set_map by blast
    have none: "\<forall>task \<in> set ?tasks. rule_timers s1 rule_id (ts_task_id task) = None"
    proof
      fix task assume t: "task \<in> set ?tasks"
      with fresh have "ts_task_id task \<noteq> ts_task_id ?task" by (metis imageI)
      moreover have "rule_timers s rule_id (ts_task_id task) = None" using Cons.prems(10) t unfolding tasks by (metis list.set_intros(2))
      ultimately show "rule_timers s1 rule_id (ts_task_id task) = None" unfolding s1(5) by simp
    qed
    have pre: "dd_inv (rs_dispatcher s1)" "dd_running (rs_dispatcher s1)" "obj < length (rs_objects s1)"
      "?tasks = map (\<lambda>i. branch_tasks res (rs_objects s1 ! obj) ! i) is" "\<forall>i \<in> set is. i < length (branch_tasks res (rs_objects s1 ! obj))"
      "distinct is" "\<forall>task \<in> set ?tasks. ts_rule_id task = rule_id \<and> task_ok (rs_rows s1) (ts_func task)" "distinct (map ts_task_id ?tasks)"
      "rs_next_id s1 + int (length is) < Context_Timers.INT_MAX"
      using Cons.prems tasks same s1(3) by simp_all
    from Cons.IH[OF pre(1,2) s1(2) pre(3-8) none pre(9)] obtain s' where
      s': "perform_tasks now junk obj res is s1 = Inr s'" "timers_inv s'" "written (rs_dispatcher s1) (rs_dispatcher s')" "same_but_tasks s1 s'"
      "rs_next_id s' \<le> rs_next_id s1 + int (length is)"
      "rule_timers s' = (rule_timers s1)(rule_id := rule_timers s1 rule_id ++ map_of (map timer_entry (filter delayed ?tasks)))" by (elim exE conjE) (rule that)
    have "ts_task_id ?task \<notin> dom (map_of (map timer_entry (filter delayed ?tasks)))"
      unfolding dom_timer_entries using fresh filter_is_subset[of delayed ?tasks] by (meson image_mono in_mono)
    then have "(rule_timers s rule_id)(ts_task_id ?task \<mapsto> snd (timer_entry ?task)) ++ map_of (map timer_entry (filter delayed ?tasks)) =
        rule_timers s rule_id ++ map_of (map timer_entry (filter delayed tasks))"
      unfolding tasks using True by (auto simp: fun_eq_iff map_add_def timer_entry_def split: option.splits)
    then have "rule_timers s' = (rule_timers s)(rule_id := rule_timers s rule_id ++ map_of (map timer_entry (filter delayed tasks)))"
      using s'(6) s1(5) by simp
    moreover have "perform_tasks now junk obj res (i # is) s = Inr s'" using True s1(1) s'(1) by (simp add: delayed_def)
    moreover have "same_but_tasks s s'" using same_but_tasks_trans[OF timers_only_same[OF s1(4)] s'(4)] .
    ultimately show ?thesis using s'(2,3,5) s1(3) same(1) by auto
  next
    case False
    have tok: "task_ok (ss_rows (dd_subs (rs_dispatcher s))) (ts_func ?task)" using Cons.prems(8) tasks by simp
    from call_task_written[OF Cons.prems(1,2) tok, of junk] obtain f dd where
      f: "call_task junk (ts_func ?task) (rs_dispatcher s) = Inr (f, dd)" "written (rs_dispatcher s) dd" by blast
    define s1 where "s1 = set_task obj res i f (s\<lparr>rs_dispatcher := dd\<rparr>)"
    have sel: "rs_dispatcher s1 = dd" "rs_next_id s1 = rs_next_id s" "length (rs_objects s1) = length (rs_objects s)" by (simp_all add: s1_def)
    have tm: "rule_timers s1 = rule_timers s" "timers_inv s1"
      using Cons.prems(3) timers_inv_cong[of s1 s] by (auto simp: s1_def intro!: rule_timers_cong)
    have eq: "?tasks = map (\<lambda>i. branch_tasks res (rs_objects s1 ! obj) ! i) is"
    proof (rule map_cong[OF refl])
      fix x assume "x \<in> set is"
      with i(2) have "x \<noteq> i" by blast
      with set_task_other[of obj "s\<lparr>rs_dispatcher := dd\<rparr>" x i res f] Cons.prems(4) show
        "branch_tasks res (rs_objects s ! obj) ! x = branch_tasks res (rs_objects s1 ! obj) ! x" by (simp add: s1_def)
    qed
    have bl: "length (branch_tasks res (rs_objects s1 ! obj)) = length (branch_tasks res (rs_objects s ! obj))"
      using branch_tasks_length[of obj "s\<lparr>rs_dispatcher := dd\<rparr>"] Cons.prems(4) by (simp add: s1_def)
    have fr: "rows_frame (rs_rows s) (rs_rows s1)" "dd_inv dd" "dd_running dd" using f(2) sel(1) by (simp_all add: written_def)
    have pre: "dd_inv (rs_dispatcher s1)" "dd_running (rs_dispatcher s1)" "obj < length (rs_objects s1)"
      "\<forall>i \<in> set is. i < length (branch_tasks res (rs_objects s1 ! obj))"
      "distinct is" "\<forall>task \<in> set ?tasks. ts_rule_id task = rule_id \<and> task_ok (rs_rows s1) (ts_func task)" "distinct (map ts_task_id ?tasks)"
      "\<forall>task \<in> set ?tasks. rule_timers s1 rule_id (ts_task_id task) = None"
      "rs_next_id s1 + int (length is) < Context_Timers.INT_MAX"
      using Cons.prems tasks sel fr bl tm task_ok_frame[OF fr(1)] by auto
    from Cons.IH[OF pre(1,2) tm(2) pre(3) eq pre(4-9)] obtain s' where
      s': "perform_tasks now junk obj res is s1 = Inr s'" "timers_inv s'" "written (rs_dispatcher s1) (rs_dispatcher s')" "same_but_tasks s1 s'"
      "rs_next_id s' \<le> rs_next_id s1 + int (length is)"
      "rule_timers s' = (rule_timers s1)(rule_id := rule_timers s1 rule_id ++ map_of (map timer_entry (filter delayed ?tasks)))" by (elim exE conjE) (rule that)
    have "perform_tasks now junk obj res (i # is) s = Inr s'" using False f(1) s'(1) by (simp add: delayed_def s1_def)
    moreover have "same_but_tasks s s'" using same_but_tasks_trans[OF set_task_same[OF Cons.prems(4) i(1)] s'(4)[unfolded s1_def]] .
    moreover have "written (rs_dispatcher s) (rs_dispatcher s')" using written_trans[OF f(2)] s'(3) sel(1) by simp
    moreover have "filter delayed tasks = filter delayed ?tasks" using False tasks by simp
    ultimately show ?thesis using s'(2,5,6) sel(2) tm(1) by auto
  qed
qed

text \<open>A rule that can be evaluated: its tasks have its number, numbers of their own in each branch, and functions that stay in
  their memory; its timers are those of its delayed tasks.\<close>

definition rule_ok :: "rules_dispatcher \<Rightarrow> rule \<Rightarrow> bool" where
  "rule_ok s r \<longleftrightarrow>
     (\<forall>task \<in> set (ru_true_tasks r) \<union> set (ru_false_tasks r). ts_rule_id task = ru_id r \<and> task_ok (rs_rows s) (ts_func task)) \<and>
     distinct (map ts_task_id (ru_true_tasks r)) \<and> distinct (map ts_task_id (ru_false_tasks r)) \<and>
     dom (rule_timers s (ru_id r)) \<subseteq> ts_task_id ` set (filter delayed (ru_true_tasks r @ ru_false_tasks r)) \<and>
     (\<forall>e. query_rule_existence_row (ru_id r) (rs_data s) = Some e \<longrightarrow> e < length (rs_rows s))"

lemma publish_ok:
  assumes "dd_inv (rs_dispatcher s)" and "dd_running (rs_dispatcher s)"
    and "\<forall>e. query_rule_existence_row rule_id (rs_data s) = Some e \<longrightarrow> e < length (rs_rows s)"
  shows "\<exists>ok s'. publish_rule_existence junk rule_id res s = Inr (ok, s') \<and> written (rs_dispatcher s) (rs_dispatcher s') \<and>
           s' = s\<lparr>rs_dispatcher := rs_dispatcher s'\<rparr> \<and>
           (\<forall>e. query_rule_existence_row rule_id (rs_data s) = Some e \<and> row_accepts (rs_rows s ! e) (Some []) 4 0 \<longrightarrow>
              row_value (rs_rows s' ! e) = le_bytes 4 (if res then RULE_TRUE else RULE_FALSE))"
proof (cases "query_rule_existence_row rule_id (rs_data s)")
  case None
  then show ?thesis using assms(1,2) by (auto simp: publish_rule_existence_def written_refl)
next
  case (Some e)
  let ?v = "le_bytes 4 (if res then RULE_TRUE else RULE_FALSE)"
  have ok: "e < length (rs_rows s)" "data_ok (Some ?v) 4" using assms(3) Some by (simp_all add: data_ok_def)
  from dd_write_written[OF assms(1,2) ok, of junk True 0] obtain b dd where
    dd: "dd_write junk e (Some ?v) 4 True 0 (rs_dispatcher s) = Inr (b, dd)" "written (rs_dispatcher s) dd" by blast
  have "row_value (ss_rows (dd_subs dd) ! e) = ?v" if "row_accepts (rs_rows s ! e) (Some []) 4 0"
  proof -
    from that have "row_accepts (rs_rows s ! e) (Some ?v) 4 0" by (simp add: row_accepts_def)
    from dd_write_accepted[OF assms(1,2) ok this, of junk True] dd(1) show ?thesis by auto
  qed
  then show ?thesis using Some dd by (auto simp: publish_rule_existence_def)
qed

lemma cancel_rule_ok:
  assumes "timers_inv s" and "rule_ok s r" and "s1 = cancel_task_timers (ru_false_tasks r) (cancel_task_timers (ru_true_tasks r) s)"
  shows "timers_inv s1 \<and> timers_only s s1 \<and> rs_next_id s1 = rs_next_id s \<and> rule_timers s1 = (rule_timers s)(ru_id r := Map.empty)"
proof -
  have ids: "\<forall>task \<in> set (ru_true_tasks r). ts_rule_id task = ru_id r" "\<forall>task \<in> set (ru_false_tasks r). ts_rule_id task = ru_id r"
    using assms(2) by (auto simp: rule_ok_def)
  note c1 = cancel_task_timers_ok[OF assms(1) ids(1)]
  then have "timers_inv (cancel_task_timers (ru_true_tasks r) s)" by blast
  note c2 = cancel_task_timers_ok[OF this ids(2), folded assms(3)]
  have dom: "dom (rule_timers s (ru_id r)) \<subseteq> ts_task_id ` set (filter delayed (ru_true_tasks r)) \<union> ts_task_id ` set (filter delayed (ru_false_tasks r))"
    using assms(2) by (auto simp: rule_ok_def)
  have "rule_timers s1 a k = ((rule_timers s)(ru_id r := Map.empty)) a k" for a k
  proof (cases "a = ru_id r \<and> rule_timers s a k \<noteq> None")
    case True
    then have "k \<in> dom (rule_timers s (ru_id r))" by blast
    with dom have "k \<in> ts_task_id ` set (filter delayed (ru_true_tasks r)) \<or> k \<in> ts_task_id ` set (filter delayed (ru_false_tasks r))" by blast
    with True c1 c2 show ?thesis by (auto simp: restrict_map_def)
  next
    case False
    with c1 c2 show ?thesis by (auto simp: restrict_map_def)
  qed
  then have "rule_timers s1 = (rule_timers s)(ru_id r := Map.empty)" by (intro ext)
  with c1 c2 show ?thesis using timers_only_trans by simp blast
qed

lemma evaluate_ok:
  assumes "dd_inv (rs_dispatcher s)" and "dd_running (rs_dispatcher s)" and "timers_inv s" and "obj < length (rs_objects s)"
    and "r = rs_objects s ! obj" and "rule_ok s r" and "evaluate_expression (evaluation_env (rs_rows s)) (ru_expression r) = Inr res"
    and "rs_next_id s + int (length (branch_tasks res r)) < Context_Timers.INT_MAX"
  shows "\<exists>s'. evaluate now junk obj s = Inr (res, s') \<and> timers_inv s' \<and> written (rs_dispatcher s) (rs_dispatcher s') \<and> same_but_tasks s s' \<and>
           rule_timers s' = (rule_timers s)(ru_id r := map_of (map timer_entry (filter delayed (branch_tasks res r)))) \<and>
           (\<forall>e. query_rule_existence_row (ru_id r) (rs_data s) = Some e \<and> row_accepts (rs_rows s ! e) (Some []) 4 0 \<longrightarrow>
              row_value (rs_rows s' ! e) = le_bytes 4 (if res then RULE_TRUE else RULE_FALSE))"
proof -
  let ?id = "ru_id r" and ?tasks = "branch_tasks res r"
  define s1 where "s1 = cancel_task_timers (ru_false_tasks r) (cancel_task_timers (ru_true_tasks r) s)"
  note c = cancel_rule_ok[OF assms(3,6) s1_def]
  then have rt: "rule_timers s1 = (rule_timers s)(?id := Map.empty)" and to: "timers_only s s1" by simp_all
  have sel: "rs_dispatcher s1 = rs_dispatcher s" "rs_objects s1 = rs_objects s" "rs_data s1 = rs_data s" "rs_next_id s1 = rs_next_id s" "timers_inv s1"
    using c by (simp_all add: timers_only_def)
  have idx: "?tasks = map (\<lambda>i. branch_tasks res (rs_objects s1 ! obj) ! i) [0..<length ?tasks]"
    unfolding sel(2) assms(5)[symmetric] by (simp add: map_nth)
  have pre: "\<forall>i \<in> set [0..<length ?tasks]. i < length (branch_tasks res (rs_objects s1 ! obj))" "distinct [0..<length ?tasks]"
    "\<forall>task \<in> set ?tasks. ts_rule_id task = ?id \<and> task_ok (rs_rows s1) (ts_func task)" "distinct (map ts_task_id ?tasks)"
    "\<forall>task \<in> set ?tasks. rule_timers s1 ?id (ts_task_id task) = None"
    "rs_next_id s1 + int (length [0..<length ?tasks]) < Context_Timers.INT_MAX" "obj < length (rs_objects s1)"
    "dd_inv (rs_dispatcher s1)" "dd_running (rs_dispatcher s1)"
    using assms(1,2,4,5,6,8) sel rt by (auto simp: rule_ok_def branch_tasks_def split: if_splits)
  from perform_tasks_ok[OF pre(8,9) sel(5) pre(7) idx pre(1-6), of now junk] obtain s2 where
    s2: "perform_tasks now junk obj res [0..<length ?tasks] s1 = Inr s2" "timers_inv s2" "written (rs_dispatcher s1) (rs_dispatcher s2)"
    "same_but_tasks s1 s2" "rule_timers s2 = (rule_timers s1)(?id := rule_timers s1 ?id ++ map_of (map timer_entry (filter delayed ?tasks)))"
    by (elim exE conjE) (rule that)
  have w2: "dd_inv (rs_dispatcher s2)" "dd_running (rs_dispatcher s2)" "rows_frame (rs_rows s) (rs_rows s2)" "rs_data s2 = rs_data s"
    using s2(3,4) sel(1,3) by (auto simp: written_def same_but_tasks_def)
  have "\<forall>e. query_rule_existence_row ?id (rs_data s2) = Some e \<longrightarrow> e < length (rs_rows s2)"
    using assms(6) w2(3,4) by (simp add: rule_ok_def rows_frame_def)
  from publish_ok[OF w2(1,2) this, of junk res] obtain ok s' where
    s': "publish_rule_existence junk ?id res s2 = Inr (ok, s')" "written (rs_dispatcher s2) (rs_dispatcher s')" "s' = s2\<lparr>rs_dispatcher := rs_dispatcher s'\<rparr>"
    "\<forall>e. query_rule_existence_row ?id (rs_data s2) = Some e \<and> row_accepts (rs_rows s2 ! e) (Some []) 4 0 \<longrightarrow>
       row_value (rs_rows s' ! e) = le_bytes 4 (if res then RULE_TRUE else RULE_FALSE)" by (elim exE conjE) (rule that)
  obtain dd where dd: "s' = s2\<lparr>rs_dispatcher := dd\<rparr>" using s'(3) by blast
  have "perform_task now junk obj res s1 = Inr s'" using s2(1) s'(1) sel(2) assms(5) by (simp add: perform_task_def)
  then have "evaluate now junk obj s = Inr (res, s')" using assms(5,7) by (simp add: evaluate_def Let_def s1_def)
  moreover have "timers_inv s'" "rule_timers s' = rule_timers s2"
    using s2(2) timers_inv_cong[of s' s2] rule_timers_cong[of s' s2] by (simp_all add: dd)
  moreover have "written (rs_dispatcher s) (rs_dispatcher s')" using written_trans[OF s2(3) s'(2)] sel(1) by simp
  moreover have "same_but_tasks s s'"
    using same_but_tasks_trans[OF timers_only_same[OF to] s2(4)] by (simp add: dd same_but_tasks_def)
  moreover have "rule_timers s2 = (rule_timers s)(?id := map_of (map timer_entry (filter delayed ?tasks)))" unfolding s2(5) rt by simp
  moreover have "row_value (rs_rows s' ! e) = le_bytes 4 (if res then RULE_TRUE else RULE_FALSE)"
    if "query_rule_existence_row ?id (rs_data s) = Some e" "row_accepts (rs_rows s ! e) (Some []) 4 0" for e
  proof -
    have "e < length (rs_rows s)" using assms(6) that(1) by (simp add: rule_ok_def)
    then have "row_frame (rs_rows s ! e) (rs_rows s2 ! e)" using w2(3) by (simp add: rows_frame_def)
    with that(2) have "row_accepts (rs_rows s2 ! e) (Some []) 4 0" by (simp add: row_frame_def row_accepts_def is_empty_type_def)
    with s'(4) that(1) w2(4) show ?thesis by simp
  qed
  ultimately show ?thesis by (intro exI[of _ s']) simp
qed

section \<open>Triggers\<close>

lemma view_undefined:
  assumes "subs_inv s"
  shows "subs_view s rid signal_token_undefined = None"
proof (cases "map_of (ss_callbacks s) rid")
  case (Some e)
  from subs_invD(2)[OF assms subs_invD(3)[OF assms Some]] Some have "signal_inv (row_signal s rid)" by (simp add: row_ok_def row_signal_def)
  then have "signal_token_undefined \<notin> fst ` set (row_signal s rid)" by (auto simp: signal_inv_def signal_token_undefined_def)
  then show ?thesis by (simp add: subs_view_def map_of_eq_None_iff)
qed (simp add: subs_view_def row_signal_def)

abbreviation rs_view :: "rules_dispatcher \<Rightarrow> nat \<Rightarrow> signal_token \<Rightarrow> nat option" where
  "rs_view s \<equiv> subs_view (dd_subs (rs_dispatcher s))"

lemma dd_subscribe_keys:
  assumes "dd_subscribe (Some rid) f s = Inr (p, s')"
  shows "r_key (ss_rows (dd_subs s') ! i) = r_key (ss_rows (dd_subs s) ! i)"
proof -
  from assms obtain subs where "subscribe (Some rid) (Some (length (dd_wrappers s))) (dd_subs s) = Inr (p, subs)" "dd_subs s' = subs"
    by (auto simp: dd_subscribe_def res_simps)
  with subscribe_rows[of rid "Some (length (dd_wrappers s))" "dd_subs s" p subs] show ?thesis
    by (auto intro!: updated_key simp: row_subscribe_callback_def split_beta)
qed

lemma dd_subscribe_view:
  assumes "dd_inv s" and "rid < length (ss_rows (dd_subs s))" and "key_buffered (r_key (ss_rows (dd_subs s) ! rid))"
  shows "\<exists>p s'. dd_subscribe (Some rid) f s = Inr (p, s') \<and> dd_inv s' \<and> length (ss_rows (dd_subs s')) = length (ss_rows (dd_subs s)) \<and>
           subs_view (dd_subs s) rid (sp_token p) = None \<and>
           (\<forall>r t. (r, t) \<noteq> (rid, sp_token p) \<longrightarrow> subs_view (dd_subs s') r t = subs_view (dd_subs s) r t)"
proof -
  from dd_subscribe_ok[OF assms, of f] obtain p s' where s': "dd_subscribe (Some rid) f s = Inr (p, s')" "dd_inv s'"
    "p = no_params \<and> subs_view (dd_subs s') = subs_view (dd_subs s) \<or>
     sp_row p = Some rid \<and> subs_view (dd_subs s) rid (sp_token p) = None \<and>
     subs_view (dd_subs s') = (subs_view (dd_subs s))(rid := (subs_view (dd_subs s) rid)(sp_token p \<mapsto> length (dd_wrappers s)))"
    by (elim exE conjE) (rule that)
  from subscribe_correct[OF dd_invD(1)[OF assms(1)] assms(2), of "length (dd_wrappers s)"] s'(1)
  have "length (ss_rows (dd_subs s')) = length (ss_rows (dd_subs s))" by (auto simp: dd_subscribe_def res_simps)
  moreover have "subs_view (dd_subs s) rid (sp_token no_params) = None" using view_undefined[OF dd_invD(1)[OF assms(1)]] by (simp add: no_params_def)
  ultimately show ?thesis using s' by (intro exI[of _ p] exI[of _ s']) auto
qed

lemma dd_unsubscribe_view:
  assumes "dd_inv s"
  shows "\<exists>ok s'. dd_unsubscribe False (Some rid) token s = Inr (ok, s') \<and> dd_inv s' \<and>
           subs_view (dd_subs s') = (subs_view (dd_subs s))(rid := (subs_view (dd_subs s) rid)(token := None)) \<and> dd_wrappers s' = dd_wrappers s"
proof -
  from unsubscribe_correct[OF dd_invD(1)[OF assms], of rid token] obtain ok subs where
    u: "unsubscribe (Some rid) token (dd_subs s) = Inr (ok, subs)" by blast
  from dd_unsubscribed_inv[OF assms u dd_invD(4)[OF assms]] u show ?thesis by (auto simp: dd_unsubscribe_def)
qed

text \<open>The row of a trigger.\<close>

definition trigger_row :: "rules_dispatcher \<Rightarrow> string \<Rightarrow> nat" where
  "trigger_row s trigger = (case query_row_by_string trigger (rs_data s) of Inr (Some (rid, _)) \<Rightarrow> rid | _ \<Rightarrow> 0)"

text \<open>A trigger that is known, on a row whose key the row data of a change can hold.\<close>

definition resolved :: "rules_dispatcher \<Rightarrow> string \<Rightarrow> bool" where
  "resolved s trigger \<longleftrightarrow>
     (\<exists>path. query_row_by_string trigger (rs_data s) = Inr (Some (trigger_row s trigger, path))) \<and> trigger_row s trigger < length (rs_rows s) \<and>
     key_buffered (r_key (rs_rows s ! trigger_row s trigger))"

text \<open>Everything but subscriptions and trigger tokens.\<close>

definition triggers_only :: "rules_dispatcher \<Rightarrow> rules_dispatcher \<Rightarrow> bool" where
  "triggers_only s s' \<longleftrightarrow>
     rs_data s' = rs_data s \<and> rs_objects s' = rs_objects s \<and> rs_rules s' = rs_rules s \<and> rs_timers s' = rs_timers s \<and> rs_clients s' = rs_clients s \<and>
     rs_next_id s' = rs_next_id s \<and> rs_timer_tokens s' = rs_timer_tokens s \<and> rs_enable_tokens s' = rs_enable_tokens s"

lemma triggers_only_refl [simp]: "triggers_only s s"
  and triggers_only_trans: "triggers_only s s1 \<Longrightarrow> triggers_only s1 s2 \<Longrightarrow> triggers_only s s2"
  by (simp_all add: triggers_only_def)

lemma subscribe_triggers_ok:
  assumes "dd_inv (rs_dispatcher s)" and "\<forall>t \<in> set ts. resolved s t" and "distinct ts"
    and "\<forall>t \<in> set ts. map_of (map_at (rs_trigger_tokens s) rule_id) t = None"
  shows "\<exists>s' toks. subscribe_triggers obj rule_id ts s = Inr (True, s') \<and> dd_inv (rs_dispatcher s') \<and> triggers_only s s' \<and> length toks = length ts \<and>
           map_at (rs_trigger_tokens s') rule_id = map_at (rs_trigger_tokens s) rule_id @ zip ts toks \<and>
           (\<forall>r t. if (r, t) \<in> set (zip (map (trigger_row s) ts) toks) then rs_view s r t = None else rs_view s' r t = rs_view s r t)"
  using assms
proof (induction ts arbitrary: s)
  case Nil
  then show ?case by (intro exI[of _ s] exI[of _ "[]"]) simp
next
  case (Cons x ts)
  obtain path where q: "query_row_by_string x (rs_data s) = Inr (Some (trigger_row s x, path))" and lt: "trigger_row s x < length (rs_rows s)"
    and key: "key_buffered (r_key (rs_rows s ! trigger_row s x))"
    using Cons.prems(2) by (auto simp: resolved_def)
  from dd_subscribe_view[OF Cons.prems(1) lt key, of "Evaluate obj"] obtain p dd where
    d: "dd_subscribe (Some (trigger_row s x)) (Evaluate obj) (rs_dispatcher s) = Inr (p, dd)" "dd_inv dd"
    "length (ss_rows (dd_subs dd)) = length (rs_rows s)" "rs_view s (trigger_row s x) (sp_token p) = None"
    "\<forall>r t. (r, t) \<noteq> (trigger_row s x, sp_token p) \<longrightarrow> subs_view (dd_subs dd) r t = rs_view s r t" by (elim exE conjE) (rule that)
  define s1 where "s1 = s\<lparr>rs_dispatcher := dd, rs_trigger_tokens := map_put rule_id (emplace x (sp_token p) (map_at (rs_trigger_tokens s) rule_id)) (rs_trigger_tokens s)\<rparr>"
  have new: "map_of (map_at (rs_trigger_tokens s) rule_id) x = None" using Cons.prems(4) by simp
  have tok: "map_at (rs_trigger_tokens s1) rule_id = map_at (rs_trigger_tokens s) rule_id @ [(x, sp_token p)]"
    using new by (simp add: s1_def map_at_map_put emplace_def)
  have sel: "rs_dispatcher s1 = dd" "rs_data s1 = rs_data s" "triggers_only s s1" by (auto simp: s1_def triggers_only_def)
  have row: "trigger_row s1 = trigger_row s" using sel(2) by (simp add: trigger_row_def fun_eq_iff)
  have "dd_inv (rs_dispatcher s1)" "\<forall>t \<in> set ts. resolved s1 t" "distinct ts" "\<forall>t \<in> set ts. map_of (map_at (rs_trigger_tokens s1) rule_id) t = None"
    using Cons.prems sel d(2,3) row tok dd_subscribe_keys[OF d(1)] by (auto simp: resolved_def)
  from Cons.IH[OF this] obtain s' toks where
    s': "subscribe_triggers obj rule_id ts s1 = Inr (True, s')" "dd_inv (rs_dispatcher s')" "triggers_only s1 s'" "length toks = length ts"
    "map_at (rs_trigger_tokens s') rule_id = map_at (rs_trigger_tokens s1) rule_id @ zip ts toks"
    "\<forall>r t. if (r, t) \<in> set (zip (map (trigger_row s1) ts) toks) then rs_view s1 r t = None else rs_view s' r t = rs_view s1 r t"
    by (elim exE conjE) (rule that)
  have "if (r, t) \<in> set (zip (map (trigger_row s) (x # ts)) (sp_token p # toks)) then rs_view s r t = None else rs_view s' r t = rs_view s r t" for r t
  proof (cases "(r, t) = (trigger_row s x, sp_token p)")
    case False
    then have "rs_view s1 r t = rs_view s r t" using d(5) sel(1) by simp
    with s'(6)[rule_format, of r t] False row show ?thesis by (auto split: if_splits)
  qed (use d(4) in simp)
  moreover have "subscribe_triggers obj rule_id (x # ts) s = Inr (True, s')" using q d(1) s'(1) by (simp add: s1_def)
  ultimately show ?case using s'(2,4,5) tok triggers_only_trans[OF sel(3) s'(3)] by (intro exI[of _ s'] exI[of _ "sp_token p # toks"]) simp
qed

lemma unsubscribe_triggers_ok:
  assumes "dd_inv (rs_dispatcher s)" and "\<forall>t \<in> set ts. \<exists>rid path. query_row_by_string t (rs_data s) = Inr (Some (rid, path))" and "distinct ts"
    and "length toks = length ts" and "map_at (rs_trigger_tokens s) rule_id = zip ts toks"
  shows "\<exists>s'. unsubscribe_triggers rule_id ts s = Inr (True, s') \<and> dd_inv (rs_dispatcher s') \<and> triggers_only s s' \<and>
           map_at (rs_trigger_tokens s') rule_id = [] \<and>
           (\<forall>r t. rs_view s' r t = (if (r, t) \<in> set (zip (map (trigger_row s) ts) toks) then None else rs_view s r t))"
  using assms
proof (induction ts arbitrary: s toks)
  case Nil
  then show ?case by simp
next
  case (Cons x ts)
  from Cons.prems(4) obtain tok toks' where toks: "toks = tok # toks'" "length toks' = length ts" by (cases toks) auto
  obtain path where q: "query_row_by_string x (rs_data s) = Inr (Some (trigger_row s x, path))"
    using Cons.prems(2) by (force simp: trigger_row_def)
  from dd_unsubscribe_view[OF Cons.prems(1), of "trigger_row s x" tok] obtain ok dd where
    d: "dd_unsubscribe False (Some (trigger_row s x)) tok (rs_dispatcher s) = Inr (ok, dd)" "dd_inv dd"
    "subs_view (dd_subs dd) = (rs_view s)(trigger_row s x := (rs_view s (trigger_row s x))(tok := None))" by (elim exE conjE) (rule that)
  define s1 where "s1 = s\<lparr>rs_dispatcher := dd, rs_trigger_tokens := map_put rule_id (al_remove x (map_at (rs_trigger_tokens s) rule_id)) (rs_trigger_tokens s)\<rparr>"
  have "x \<notin> fst ` set (zip ts toks')" using Cons.prems(3) by (auto dest: set_zip_leftD)
  then have at: "map_at (rs_trigger_tokens s1) rule_id = zip ts toks'"
    using Cons.prems(5) toks by (simp add: s1_def map_at_map_put al_remove_def) (simp add: al_remove_notin[unfolded al_remove_def])
  have sel: "rs_dispatcher s1 = dd" "rs_data s1 = rs_data s" "triggers_only s s1" by (auto simp: s1_def triggers_only_def)
  have row: "trigger_row s1 = trigger_row s" using sel(2) by (simp add: trigger_row_def fun_eq_iff)
  have "dd_inv (rs_dispatcher s1)" "\<forall>t \<in> set ts. \<exists>rid path. query_row_by_string t (rs_data s1) = Inr (Some (rid, path))" "distinct ts"
    using Cons.prems sel d(2) by auto
  from Cons.IH[OF this toks(2) at] obtain s' where
    s': "unsubscribe_triggers rule_id ts s1 = Inr (True, s')" "dd_inv (rs_dispatcher s')" "triggers_only s1 s'" "map_at (rs_trigger_tokens s') rule_id = []"
    "\<forall>r t. rs_view s' r t = (if (r, t) \<in> set (zip (map (trigger_row s1) ts) toks') then None else rs_view s1 r t)" by (elim exE conjE) (rule that)
  have "rs_view s' r t = (if (r, t) \<in> set (zip (map (trigger_row s) (x # ts)) toks) then None else rs_view s r t)" for r t
    using s'(5)[rule_format, of r t] d(3) sel(1) row toks(1) by (cases "(r, t) = (trigger_row s x, tok)") (auto split: if_splits)
  moreover have "unsubscribe_triggers rule_id (x # ts) s = Inr (True, s')"
    using q d(1) s'(1) Cons.prems(5) toks(1) by (simp add: s1_def)
  ultimately show ?case using s'(2,4) triggers_only_trans[OF sel(3) s'(3)] by blast
qed

text \<open>A row that has room gives a token.\<close>

lemma signal_count_view:
  assumes "subs_inv s"
  shows "length (row_signal s rid) = card (dom (subs_view s rid))"
proof (cases "map_of (ss_callbacks s) rid")
  case (Some e)
  from subs_invD(2)[OF assms subs_invD(3)[OF assms Some]] Some have "signal_inv (row_signal s rid)" by (simp add: row_ok_def row_signal_def)
  then have "distinct (map fst (row_signal s rid))" unfolding signal_inv_def strict_sorted_iff by blast
  from distinct_card[OF this] show ?thesis by (simp add: subs_view_def[abs_def] dom_map_of_conv_image_fst)
qed (simp add: subs_view_def[abs_def] row_signal_def)

lemma subscribe_room:
  assumes "subs_inv s" and "int (card (dom (subs_view s rid))) < Callbacks.INT_MAX" and "subscribe (Some rid) (Some f) s = Inr (p, s')"
  shows "sp_row p = Some rid"
proof (cases "map_of (ss_callbacks s) rid")
  case None
  with assms(3) show ?thesis by (auto simp: subscribe_def signal_subscribe_empty res_simps Let_def signal_token_undefined_def)
next
  case (Some e)
  let ?sig = "ss_signals s (rc_row_callback e)"
  have sig: "row_signal s rid = ?sig" using Some by (simp add: row_signal_def)
  from subs_invD(2)[OF assms(1) subs_invD(3)[OF assms(1) Some]] Some have "signal_inv ?sig" by (simp add: row_ok_def)
  moreover obtain token n sig' where ss: "signal_subscribe f ?sig = (token, n, sig')" by (cases "signal_subscribe f ?sig") auto
  ultimately have "token \<noteq> signal_token_undefined"
    using signal_subscribe_cases[of ?sig f token n sig'] signal_count_view[OF assms(1), of rid] assms(2) sig by (auto simp: signal_token_undefined_def)
  with assms(3) Some ss show ?thesis by (auto simp: subscribe_def res_simps Let_def)
qed

lemma dd_subscribe_token:
  assumes "dd_inv s" and "rid < length (ss_rows (dd_subs s))" and "key_buffered (r_key (ss_rows (dd_subs s) ! rid))"
    and "int (card (dom (subs_view (dd_subs s) rid))) < Callbacks.INT_MAX"
  shows "\<exists>p s'. dd_subscribe (Some rid) f s = Inr (p, s') \<and> dd_inv s' \<and> length (ss_rows (dd_subs s')) = length (ss_rows (dd_subs s)) \<and>
           subs_view (dd_subs s) rid (sp_token p) = None \<and>
           subs_view (dd_subs s') = (subs_view (dd_subs s))(rid := (subs_view (dd_subs s) rid)(sp_token p \<mapsto> length (dd_wrappers s))) \<and>
           (\<exists>w. dd_wrappers s' = dd_wrappers s @ [w] \<and> rw_func w = f) \<and>
           (map_of (ss_callbacks (dd_subs s)) rid = None \<longrightarrow> sp_token p = 0)"
proof -
  note inv = dd_invD[OF assms(1)]
  from dd_subscribe_ok[OF assms(1-3), of f] obtain p s' w where s': "dd_subscribe (Some rid) f s = Inr (p, s')" "dd_inv s'"
    "dd_wrappers s' = dd_wrappers s @ [w]" "rw_func w = f"
    "p = no_params \<and> subs_view (dd_subs s') = subs_view (dd_subs s) \<or>
     sp_row p = Some rid \<and> subs_view (dd_subs s) rid (sp_token p) = None \<and>
     subs_view (dd_subs s') = (subs_view (dd_subs s))(rid := (subs_view (dd_subs s) rid)(sp_token p \<mapsto> length (dd_wrappers s)))"
    by (elim exE conjE) (rule that)
  from s'(1) obtain subs where u: "subscribe (Some rid) (Some (length (dd_wrappers s))) (dd_subs s) = Inr (p, subs)" "dd_subs s' = subs"
    by (auto simp: dd_subscribe_def res_simps)
  have "p \<noteq> no_params" using subscribe_room[OF inv(1) assms(4) u(1)] by (auto simp: no_params_def)
  moreover have "map_of (ss_callbacks (dd_subs s)) rid = None \<longrightarrow> sp_token p = 0" "length (ss_rows (dd_subs s')) = length (ss_rows (dd_subs s))"
    using subscribe_correct[OF inv(1) assms(2), of "length (dd_wrappers s)"] u by auto
  ultimately show ?thesis using s' by (intro exI[of _ p] exI[of _ s']) simp
qed

section \<open>An example\<close>

definition example_task :: "int64 \<Rightarrow> task_struct" where
  "example_task v = \<lparr>ts_rule_id = 1, ts_task_id = 0, ts_interval = 100, ts_func = Write_number 4 v True\<rparr>"

definition example_rule :: "string list \<Rightarrow> rule" where
  "example_rule triggers =
     \<lparr>ru_id = 1, ru_name = ''Alarm'', ru_triggers = triggers, ru_true_tasks = [example_task 1], ru_false_tasks = [example_task 0],
      ru_expression = Some (Operand_function (Row_value 0))\<rparr>"

definition example_rules :: "string list \<Rightarrow> rules_dispatcher" where
  "example_rules triggers =
     \<lparr>rs_dispatcher = rules_dd (replicate 5 (rule_row INT32 4 None)), rs_data = example_rules_data\<lparr>rg_existence_map := [(1, 3)]\<rparr>,
      rs_objects = [example_rule triggers], rs_rules = [0], rs_timers = [], rs_clients = [], rs_next_id = 0, rs_next_timer = 0,
      rs_timer_tokens = [], rs_trigger_tokens = [], rs_enable_tokens = []\<rparr>"

lemma example_rules_sel [simp]:
  "rs_dispatcher (example_rules ts) = rules_dd (replicate 5 (rule_row INT32 4 None))" "rs_objects (example_rules ts) = [example_rule ts]"
  "rs_next_id (example_rules ts) = 0" "rs_trigger_tokens (example_rules ts) = []" "rs_timers (example_rules ts) = []"
  "rs_timer_tokens (example_rules ts) = []" "rs_rules (example_rules ts) = [0]"
  "query_rule_existence_row 1 (rs_data (example_rules ts)) = Some 3"
  by (simp_all add: example_rules_def query_rule_existence_row_def)

lemma example_rules_inv:
  "dd_inv (rs_dispatcher (example_rules ts))" "timers_inv (example_rules ts)" "rule_ok (example_rules ts) (example_rule ts)"
  "query_rule_by_id 1 (example_rules ts) = Some 0" "rule_timers (example_rules ts) = (\<lambda>_ _. None)"
proof -
  show "dd_inv (rs_dispatcher (example_rules ts))" using rules_dd_inv[of "replicate 5 (rule_row INT32 4 None)"] by simp
  have tt: "task_token (example_rules ts) a b = None" for a b by (simp add: task_token_def map_at_def)
  then show "timers_inv (example_rules ts)" by (simp add: timers_inv_def)
  show rt: "rule_timers (example_rules ts) = (\<lambda>_ _. None)" using tt by (simp add: rule_timers_def fun_eq_iff)
  show "rule_ok (example_rules ts) (example_rule ts)"
    by (simp add: rule_ok_def rt example_rule_def example_task_def task_ok_def)
  show "query_rule_by_id 1 (example_rules ts) = Some 0" by (simp add: query_rule_by_id_def example_rule_def)
qed

lemma rule_row_key: "r_key (rule_row t n md) = sample_key"
  by (simp add: rule_row_def memory_row_impl_def)

lemma example_trigger:
  "resolved (example_rules ts) ''iSpeed''" "trigger_row (example_rules ts) ''iSpeed'' = 0"
  "map_of (ss_callbacks (dd_subs (rs_dispatcher (example_rules ts)))) 0 = None"
  by (simp_all add: resolved_def trigger_row_def example_rules_def query_row_by_string_def example_rules_data_def rules_data_create_def rules_dd_def
    rule_row_key sample_key_buffered(1))

lemma example_condition:
  assumes "row_inv (rows ! 0)" and "r_max_size (rows ! 0) = 4" and "ri_type (r_info (rows ! 0)) = INT32"
    and "row_value (rows ! 0) = bs" and "bs = [] \<or> bs = [1, 0, 0, 0]"
  shows "evaluate_expression (evaluation_env rows) (ru_expression (example_rule ts)) = Inr (bs \<noteq> [])"
proof -
  have "row_read_all (rows ! 0) (Some (replicate 8 0)) = Inr (True, Some (take 4 (bs @ replicate 4 0) @ replicate 4 0))"
    using row_read_pads[OF assms(1), of 4 "replicate 8 0"] assms(2,4) by (simp add: row_read_all_def)
  moreover have "take 4 (take 4 (bs @ replicate 4 0) @ replicate 4 0) = (if bs = [] then [0, 0, 0, 0] else [1, 0, 0, 0 :: byte])"
    using assms(5) by (auto simp: numeral_eq_Suc)
  then have "read_unsigned 4 (take 4 (bs @ replicate 4 0) @ replicate 4 0) = (if bs = [] then 0 else 1)" by (simp add: read_unsigned_def)
  then have "read_signed 4 (take 4 (bs @ replicate 4 0) @ replicate 4 0) = (if bs = [] then 0 else 1)" by (simp add: read_signed_def)
  ultimately show ?thesis using assms(3)
    by (simp add: evaluate_expression_def evaluation_env_def example_rule_def call_row_function_def number_value_def dbl_eq_def)
qed

lemma example_rule_subscribed:
  "\<exists>p d. dd_subscribe (Some 0) (Evaluate 0) (rs_dispatcher (example_rules ts)) = Inr (p, d) \<and> dd_inv d \<and> dd_running d \<and> dd_queue d = [] \<and>
     dd_functions d 0 = [Evaluate 0] \<and>
     ss_rows (dd_subs d) = (replicate 5 (rule_row INT32 4 None))[0 := snd (row_subscribe_callback 1 (rule_row INT32 4 None))]"
proof -
  let ?d = "rs_dispatcher (example_rules ts)"
  note inv = dd_invD[OF example_rules_inv(1)[of ts]]
  have sel: "dd_wrappers ?d = []" "dd_queue ?d = []" "dd_running ?d" "ss_rows (dd_subs ?d) = replicate 5 (rule_row INT32 4 None)" "ss_next (dd_subs ?d) = 0"
    by (simp_all add: rules_dd_def)
  from dd_subscribe_ok[OF example_rules_inv(1)[of ts], of 0 "Evaluate 0"] sel rule_row_key[of INT32 4 None] sample_key_buffered(1) obtain p d w where
    d: "dd_subscribe (Some 0) (Evaluate 0) ?d = Inr (p, d)" "dd_inv d" "dd_running d" "dd_queue d = []" "dd_wrappers d = [w]" "rw_func w = Evaluate 0"
    by auto
  from d(1) sel(1) have "subscribe (Some 0) (Some 0) (dd_subs ?d) = Inr (p, dd_subs d)" by (auto simp: dd_subscribe_def res_simps)
  with subscribe_correct[OF inv(1), of 0 0] example_trigger(3)[of ts] sel(4) have w: "dd_subs d = with_entry 0 [(0, 0)] (dd_subs ?d)" by auto
  have "signal_inv [(0, 0 :: nat)]" by (simp add: signal_inv_def Callbacks.INT_MAX_def)
  from with_entry_inv[OF inv(1) _ example_trigger(3) this] sel(4) w have "row_signal (dd_subs d) 0 = [(0, 0)]" by simp
  then have "dd_functions d 0 = [Evaluate 0]" using d(5,6) by (simp add: dd_functions_def)
  moreover have "ss_rows (dd_subs d) = (replicate 5 (rule_row INT32 4 None))[0 := snd (row_subscribe_callback 1 (rule_row INT32 4 None))]"
    using w sel(4,5) by (simp add: with_entry_def)
  ultimately show ?thesis using d(1-4) by blast
qed

section \<open>Properties\<close>

text \<open>C8. Evaluating a rule. Whatever timers of the rule were waiting before, afterwards exactly the delayed tasks of the branch that
  was chosen wait, each with its own interval and function; the timers of other rules are untouched; and the row of
  the rule has the result. No evaluation fails once the condition has a value and the tasks fit their rows.\<close>

theorem evaluate_keeps_one_branch:
  assumes "dd_inv (rs_dispatcher s)" and "dd_running (rs_dispatcher s)" and "timers_inv s" and "obj < length (rs_objects s)"
    and "r = rs_objects s ! obj" and "rule_ok s r" and "evaluate_expression (evaluation_env (rs_rows s)) (ru_expression r) = Inr res"
    and "rs_next_id s + int (length (branch_tasks res r)) < Context_Timers.INT_MAX"
  shows "\<exists>s'. evaluate now junk obj s = Inr (res, s') \<and> timers_inv s' \<and>
           rule_timers s' = (rule_timers s)(ru_id r := map_of (map timer_entry (filter delayed (branch_tasks res r)))) \<and>
           (\<forall>e. query_rule_existence_row (ru_id r) (rs_data s) = Some e \<and> row_accepts (rs_rows s ! e) (Some []) 4 0 \<longrightarrow>
              row_value (rs_rows s' ! e) = le_bytes 4 (if res then RULE_TRUE else RULE_FALSE))"
  using evaluate_ok[OF assms, of now junk] by blast

theorem evaluate_keeps_one_branch_witness:
  "\<exists>s'. evaluate 0 (\<lambda>_. 0) 0 (example_rules []) = Inr (False, s') \<and> rule_timers s' 1 = [0 \<mapsto> (100, Write_number 4 0 True)] \<and>
     row_value (rs_rows s' ! 3) = [1, 0, 0, 0]"
proof -
  let ?s = "example_rules []"
  have "evaluate_expression (evaluation_env (rs_rows ?s)) (ru_expression (example_rule [])) = Inr False"
    using example_condition[of "rs_rows ?s" "[]"] by simp
  moreover have "le_bytes 4 RULE_FALSE = [1, 0, 0, 0]" by (simp add: le_bytes_def RULE_FALSE_def numeral_eq_Suc)
  ultimately show ?thesis
    using evaluate_keeps_one_branch[OF example_rules_inv(1) _ example_rules_inv(2), of "[]" 0 "example_rule []" False 0 "\<lambda>_. 0"] example_rules_inv(3)[of "[]"]
    by (auto simp: example_rules_inv(5) branch_tasks_def row_accepts_def Context_Timers.INT_MAX_def example_rule_def example_task_def delayed_def timer_entry_def)
qed

text \<open>C4. From a change to the result. A write that changes a row whose first subscriber is a rule queues its evaluation; the worker
  then evaluates the condition over the new values, leaves the timers of the branch that holds, and publishes the result.\<close>

theorem trigger_change_evaluates_rule:
  assumes "dd_inv (rs_dispatcher s)" and "dd_running (rs_dispatcher s)" and "timers_inv s" and "obj < length (rs_objects s)"
    and "r = rs_objects s ! obj" and "rule_ok s r" and "dd_queue (rs_dispatcher s) = []"
    and "rid < length (rs_rows s)" and "dd_functions (rs_dispatcher s) rid = Evaluate obj # others"
    and "data_ok (Some bs) sz" and "row_accepts (rs_rows s ! rid) (Some bs) sz priority" and "row_value (rs_rows s ! rid) \<noteq> take (unat sz) bs"
    and "dd_write junk rid (Some bs) sz force priority (rs_dispatcher s) = Inr (ok, dd)"
    and "evaluate_expression (evaluation_env (ss_rows (dd_subs dd))) (ru_expression r) = Inr res"
    and "rs_next_id s + int (length (branch_tasks res r)) < Context_Timers.INT_MAX"
  shows "\<exists>s'. rules_perform now junk parse (s\<lparr>rs_dispatcher := dd\<rparr>) = Inr s' \<and>
           rule_timers s' = (rule_timers s)(ru_id r := map_of (map timer_entry (filter delayed (branch_tasks res r)))) \<and>
           (\<forall>e. query_rule_existence_row (ru_id r) (rs_data s) = Some e \<and> row_accepts (rs_rows s ! e) (Some []) 4 0 \<longrightarrow>
              row_value (rs_rows s' ! e) = le_bytes 4 (if res then RULE_TRUE else RULE_FALSE))"
proof -
  from dd_write_written[OF assms(1,2,8,10), of junk force priority] assms(13) have w: "written (rs_dispatcher s) dd" by auto
  from dd_write_accepted[OF assms(1,2,8,10,11), of junk force] assms(9,12,13) have
    pend: "dd_pending dd = dd_pending (rs_dispatcher s) @ map (\<lambda>f. (f, rid, sz, take (unat sz) bs)) (Evaluate obj # others)" by auto
  have none: "dd_pending (rs_dispatcher s) = []" using assms(7) by (simp add: dd_pending_def)
  from dd_write_queue[OF assms(13)] assms(7) pend obtain wid a q where q: "dd_queue dd = Data_item wid a # q"
    by (cases "dd_queue dd") (auto simp: dd_pending_def)
  from dd_perform_data[OF _ q] w obtain c dd1 where
    p: "dd_perform dd = Inr (Some c, dd1)" "dd_inv dd1" "dd_running dd1" "dd_pending dd = c # dd_pending dd1" "dd_subs dd1 = dd_subs dd"
    by (auto simp: written_def)
  have c: "c = (Evaluate obj, rid, sz, take (unat sz) bs)" using p(4) pend none by simp
  let ?s = "s\<lparr>rs_dispatcher := dd1\<rparr>"
  have fr: "rows_frame (rs_rows s) (rs_rows ?s)" using w p(5) by (simp add: written_def)
  have tm: "rule_timers ?s = rule_timers s" "timers_inv ?s" using assms(3) timers_inv_cong[of ?s s] rule_timers_cong[of ?s s] by simp_all
  have rule: "rule_ok ?s r" using assms(6) tm(1) task_ok_frame[OF fr] fr by (auto simp: rule_ok_def rows_frame_def)
  have pre: "dd_inv (rs_dispatcher ?s)" "dd_running (rs_dispatcher ?s)" "obj < length (rs_objects ?s)" "r = rs_objects ?s ! obj"
    "evaluate_expression (evaluation_env (rs_rows ?s)) (ru_expression r) = Inr res"
    "rs_next_id ?s + int (length (branch_tasks res r)) < Context_Timers.INT_MAX" using p(2,3,5) assms(4,5,14,15) by simp_all
  from evaluate_ok[OF pre(1,2) tm(2) pre(3,4) rule pre(5,6), of now junk] obtain s' where
    s': "evaluate now junk obj ?s = Inr (res, s')"
    "rule_timers s' = (rule_timers ?s)(ru_id r := map_of (map timer_entry (filter delayed (branch_tasks res r))))"
    "\<forall>e. query_rule_existence_row (ru_id r) (rs_data ?s) = Some e \<and> row_accepts (rs_rows ?s ! e) (Some []) 4 0 \<longrightarrow>
       row_value (rs_rows s' ! e) = le_bytes 4 (if res then RULE_TRUE else RULE_FALSE)" by (elim exE conjE) (rule that)
  have "row_accepts (rs_rows ?s ! e) (Some []) 4 0" if "query_rule_existence_row (ru_id r) (rs_data s) = Some e" "row_accepts (rs_rows s ! e) (Some []) 4 0" for e
  proof -
    have "row_frame (rs_rows s ! e) (rs_rows ?s ! e)" using that(1) assms(6) fr by (simp add: rule_ok_def rows_frame_def)
    with that(2) show ?thesis by (simp add: row_frame_def row_accepts_def is_empty_type_def)
  qed
  with s'(3) have "\<forall>e. query_rule_existence_row (ru_id r) (rs_data s) = Some e \<and> row_accepts (rs_rows s ! e) (Some []) 4 0 \<longrightarrow>
       row_value (rs_rows s' ! e) = le_bytes 4 (if res then RULE_TRUE else RULE_FALSE)" by simp
  moreover have "rules_perform now junk parse (s\<lparr>rs_dispatcher := dd\<rparr>) = Inr s'" using p(1) c s'(1) by (simp add: rules_perform_def)
  ultimately show ?thesis using s'(2) tm(1) by auto
qed

theorem trigger_change_evaluates_rule_witness:
  "\<exists>p d dd s'. dd_subscribe (Some 0) (Evaluate 0) (rs_dispatcher (example_rules [])) = Inr (p, d) \<and>
     dd_write (\<lambda>_. 0) 0 (Some [1, 0, 0, 0]) 4 False 0 d = Inr (True, dd) \<and>
     rules_perform 0 (\<lambda>_. 0) (\<lambda>d. Inr ([], d)) ((example_rules [])\<lparr>rs_dispatcher := dd\<rparr>) = Inr s' \<and>
     rule_timers s' 1 = [0 \<mapsto> (100, Write_number 4 1 True)] \<and> row_value (rs_rows s' ! 3) = [0, 0, 0, 0]"
proof -
  from example_rule_subscribed[of "[]"] obtain p d where
    d: "dd_subscribe (Some 0) (Evaluate 0) (rs_dispatcher (example_rules [])) = Inr (p, d)" "dd_inv d" "dd_running d" "dd_queue d = []"
    "dd_functions d 0 = [Evaluate 0]" and
    rows: "ss_rows (dd_subs d) = (replicate 5 (rule_row INT32 4 None))[0 := snd (row_subscribe_callback 1 (rule_row INT32 4 None))]"
    by (elim exE conjE) (rule that)
  have r0: "r_max_size (ss_rows (dd_subs d) ! 0) = 4" "ri_type (r_info (ss_rows (dd_subs d) ! 0)) = INT32" "r_write_priority (ss_rows (dd_subs d) ! 0) = 0"
    "row_value (ss_rows (dd_subs d) ! 0) = []"
    using rows rule_row_simps(7)[of INT32 4 None] by (simp_all add: row_subscribe_callback_def split_beta row_value_def split: option.splits)
  have len: "length (ss_rows (dd_subs d)) = 5" and r3: "ss_rows (dd_subs d) ! 3 = rule_row INT32 4 None" and r4: "r_max_size (ss_rows (dd_subs d) ! 4) = 4"
    using rows by simp_all
  have data: "data_ok (Some [1, 0, 0, 0]) 4" by (simp add: data_ok_def)
  have acc: "row_accepts (ss_rows (dd_subs d) ! 0) (Some [1, 0, 0, 0]) 4 0" using r0 by (simp add: row_accepts_def is_empty_type_def)
  from dd_write_accepted[OF d(2,3) _ data acc, of "\<lambda>_. 0" False] len obtain dd where
    w: "dd_write (\<lambda>_. 0) 0 (Some [1, 0, 0, 0]) 4 False 0 d = Inr (True, dd)" "dd_inv dd" "row_value (ss_rows (dd_subs dd) ! 0) = [1, 0, 0, 0]" by auto
  have fr: "row_frame (ss_rows (dd_subs d) ! 0) (ss_rows (dd_subs dd) ! 0)" "length (ss_rows (dd_subs dd)) = 5"
    using dd_write_rows[OF d(2) _ data w(1)] len by simp_all
  have cond: "evaluate_expression (evaluation_env (ss_rows (dd_subs dd))) (ru_expression (example_rule [])) = Inr True"
    using example_condition[of "ss_rows (dd_subs dd)" "[1, 0, 0, 0]" "[]"] dd_invD(2)[OF w(2), of 0] w(3) fr r0 by (simp add: row_frame_def)
  define s where "s = (example_rules [])\<lparr>rs_dispatcher := d\<rparr>"
  have sel: "rs_dispatcher s = d" "rs_objects s = [example_rule []]" "rs_next_id s = 0" "rs_data s = rs_data (example_rules [])"
    "s\<lparr>rs_dispatcher := dd\<rparr> = (example_rules [])\<lparr>rs_dispatcher := dd\<rparr>" by (simp_all add: s_def)
  have tm: "timers_inv s" "rule_timers s = (\<lambda>_ _. None)"
    using example_rules_inv(2,5)[of "[]"] timers_inv_cong[of s "example_rules []"] rule_timers_cong[of s "example_rules []"] by (simp_all add: s_def)
  have ok: "rule_ok s (example_rule [])" using tm(2) sel(1,4) len r4 by (simp add: rule_ok_def example_rule_def example_task_def task_ok_def)
  have lb: "le_bytes 4 RULE_TRUE = [0, 0, 0, 0]" by (simp add: le_bytes_def RULE_TRUE_def numeral_eq_Suc)
  from trigger_change_evaluates_rule[of s 0 "example_rule []" 0 "[]" "[1, 0, 0, 0]" 4 0 "\<lambda>_. 0" False True dd True 0 "\<lambda>d. Inr ([], d)"]
  obtain s' where s': "rules_perform 0 (\<lambda>_. 0) (\<lambda>d. Inr ([], d)) (s\<lparr>rs_dispatcher := dd\<rparr>) = Inr s'"
    "rule_timers s' = (rule_timers s)(1 := map_of (map timer_entry (filter delayed (branch_tasks True (example_rule [])))))"
    "row_value (rs_rows s' ! 3) = [0, 0, 0, 0]"
    using sel d tm(1) ok len data acc r0(4) w(1) cond r3 lb
    by (auto simp: Context_Timers.INT_MAX_def branch_tasks_def example_rule_def row_accepts_def)
  have "rule_timers s' 1 = [0 \<mapsto> (100, Write_number 4 1 True)]"
    using s'(2) by (simp add: branch_tasks_def example_rule_def example_task_def delayed_def timer_entry_def)
  then show ?thesis using d(1) w(1) s'(1,3) sel(5) by auto
qed

text \<open>C19. Disabling takes back what enabling subscribed. For a rule with at least one trigger, whose triggers are all different and
  all known, on rows with keys of 1 to 16 bytes, and for which no tokens were stored before, the subscriptions of every row are
  as before once its triggers were subscribed and unsubscribed, and no token is left.\<close>

theorem triggers_round_trip:
  assumes "dd_inv (rs_dispatcher s)" and "query_rule_by_id rule_id s = Some obj" and "ru_triggers (rs_objects s ! obj) = ts"
    and "ts \<noteq> []" and "distinct ts" and "\<forall>t \<in> set ts. resolved s t" and "map_at (rs_trigger_tokens s) rule_id = []"
  shows "\<exists>s1 s2. subscribe_rule_triggers rule_id s = Inr (True, s1) \<and> unsubscribe_rule_triggers rule_id s1 = Inr (True, s2) \<and>
           rs_view s2 = rs_view s \<and> map_at (rs_trigger_tokens s2) rule_id = []"
proof -
  have none: "\<forall>t \<in> set ts. map_of (map_at (rs_trigger_tokens s) rule_id) t = None" using assms(7) by simp
  from subscribe_triggers_ok[OF assms(1,6,5) none, of obj] obtain s1 toks where
    s1: "subscribe_triggers obj rule_id ts s = Inr (True, s1)" "dd_inv (rs_dispatcher s1)" "triggers_only s s1" "length toks = length ts"
    "map_at (rs_trigger_tokens s1) rule_id = zip ts toks"
    "\<forall>r t. if (r, t) \<in> set (zip (map (trigger_row s) ts) toks) then rs_view s r t = None else rs_view s1 r t = rs_view s r t"
    using assms(7) by auto
  have sel: "rs_data s1 = rs_data s" "rs_objects s1 = rs_objects s" "query_rule_by_id rule_id s1 = Some obj"
    using s1(3) assms(2) by (simp_all add: triggers_only_def query_rule_by_id_def)
  have row: "trigger_row s1 = trigger_row s" using sel(1) by (simp add: trigger_row_def fun_eq_iff)
  have "\<forall>t \<in> set ts. \<exists>rid path. query_row_by_string t (rs_data s1) = Inr (Some (rid, path))" using assms(6) sel(1) by (auto simp: resolved_def)
  from unsubscribe_triggers_ok[OF s1(2) this assms(5) s1(4,5)] obtain s2 where
    s2: "unsubscribe_triggers rule_id ts s1 = Inr (True, s2)" "map_at (rs_trigger_tokens s2) rule_id = []"
    "\<forall>r t. rs_view s2 r t = (if (r, t) \<in> set (zip (map (trigger_row s) ts) toks) then None else rs_view s1 r t)"
    unfolding row by (elim exE conjE) (rule that)
  have "rs_view s2 r t = rs_view s r t" for r t
    using s1(6)[rule_format, of r t] s2(3)[rule_format, of r t] by (auto split: if_splits)
  then have "rs_view s2 = rs_view s" by (intro ext)
  moreover have "zip ts toks \<noteq> []" using s1(4) assms(4) by (cases ts; cases toks) auto
  ultimately show ?thesis
    using s1(1,5) s2(1,2) sel assms(2,3,7) by (auto simp: subscribe_rule_triggers_def unsubscribe_rule_triggers_def)
qed

theorem triggers_round_trip_witness:
  "\<exists>s1 s2. subscribe_rule_triggers 1 (example_rules [''iSpeed'']) = Inr (True, s1) \<and> unsubscribe_rule_triggers 1 s1 = Inr (True, s2) \<and>
     rs_view s2 = rs_view (example_rules [''iSpeed''])"
  using triggers_round_trip[OF example_rules_inv(1,4), of "[''iSpeed'']" "[''iSpeed'']"] example_trigger(1)[of "[''iSpeed'']"]
  by (auto simp: map_at_def example_rule_def)

text \<open>A trigger that occurs twice keeps a rule subscribed. The second token is not stored, so that after the rule was disabled a
  subscription is left, which goes on evaluating the rule.\<close>

theorem duplicate_trigger_stays_subscribed:
  assumes "dd_inv (rs_dispatcher s)" and "query_rule_by_id rule_id s = Some obj" and "ru_triggers (rs_objects s ! obj) = [t, t]"
    and "resolved s t" and "map_at (rs_trigger_tokens s) rule_id = []"
    and "map_of (ss_callbacks (dd_subs (rs_dispatcher s))) (trigger_row s t) = None"
  shows "\<exists>s1 s2 token wid. subscribe_rule_triggers rule_id s = Inr (True, s1) \<and> unsubscribe_rule_triggers rule_id s1 = Inr (True, s2) \<and>
           map_at (rs_trigger_tokens s2) rule_id = [] \<and> rs_view s2 (trigger_row s t) token = Some wid \<and>
           rw_func (dd_wrappers (rs_dispatcher s2) ! wid) = Evaluate obj"
proof -
  let ?rid = "trigger_row s t" and ?n = "length (dd_wrappers (rs_dispatcher s))"
  obtain path where q: "query_row_by_string t (rs_data s) = Inr (Some (?rid, path))" and lt: "?rid < length (rs_rows s)"
    and key: "key_buffered (r_key (rs_rows s ! ?rid))" using assms(4) by (auto simp: resolved_def)
  have empty: "rs_view s ?rid = Map.empty" using assms(6) by (simp add: subs_view_def[abs_def] row_signal_def)
  then have room: "int (card (dom (rs_view s ?rid))) < Callbacks.INT_MAX" by (simp add: Callbacks.INT_MAX_def)
  from dd_subscribe_token[OF assms(1) lt key room, of "Evaluate obj"] assms(6) obtain p d1 w1 where
    d1: "dd_subscribe (Some ?rid) (Evaluate obj) (rs_dispatcher s) = Inr (p, d1)" "dd_inv d1" "?rid < length (ss_rows (dd_subs d1))"
    "subs_view (dd_subs d1) = (rs_view s)(?rid := [0 \<mapsto> ?n])" "dd_wrappers d1 = dd_wrappers (rs_dispatcher s) @ [w1]" "sp_token p = 0"
    using lt empty by auto
  have "key_buffered (r_key (ss_rows (dd_subs d1) ! ?rid))" "int (card (dom (subs_view (dd_subs d1) ?rid))) < Callbacks.INT_MAX"
    using key dd_subscribe_keys[OF d1(1)] d1(4) by (simp_all add: Callbacks.INT_MAX_def)
  from dd_subscribe_token[OF d1(2,3) this, of "Evaluate obj"] obtain p' d2 w2 where
    d2: "dd_subscribe (Some ?rid) (Evaluate obj) d1 = Inr (p', d2)" "dd_inv d2" "subs_view (dd_subs d1) ?rid (sp_token p') = None"
    "subs_view (dd_subs d2) = (subs_view (dd_subs d1))(?rid := (subs_view (dd_subs d1) ?rid)(sp_token p' \<mapsto> length (dd_wrappers d1)))"
    "dd_wrappers d2 = dd_wrappers d1 @ [w2]" "rw_func w2 = Evaluate obj" by (elim exE conjE) (rule that)
  have b: "sp_token p' \<noteq> 0" using d2(3) d1(4) by auto
  from dd_unsubscribe_view[OF d2(2), of ?rid 0] obtain ok d3 where
    d3: "dd_unsubscribe False (Some ?rid) 0 d2 = Inr (ok, d3)" "dd_inv d3" "dd_wrappers d3 = dd_wrappers d2"
    "subs_view (dd_subs d3) = (subs_view (dd_subs d2))(?rid := (subs_view (dd_subs d2) ?rid)(0 := None))" by (elim exE conjE) (rule that)
  from dd_unsubscribe_view[OF d3(2), of ?rid 0] obtain ok' d4 where
    d4: "dd_unsubscribe False (Some ?rid) 0 d3 = Inr (ok', d4)" "dd_wrappers d4 = dd_wrappers d3"
    "subs_view (dd_subs d4) = (subs_view (dd_subs d3))(?rid := (subs_view (dd_subs d3) ?rid)(0 := None))" by (elim exE conjE) (rule that)
  let ?m1 = "map_put rule_id [(t, 0)] (rs_trigger_tokens s)"
  define s1 where "s1 = s\<lparr>rs_dispatcher := d2, rs_trigger_tokens := map_put rule_id [(t, 0)] ?m1\<rparr>"
  define s2 where "s2 = s\<lparr>rs_dispatcher := d4, rs_trigger_tokens := map_put rule_id [] (map_put rule_id [] (map_put rule_id [(t, 0)] ?m1))\<rparr>"
  have "subscribe_rule_triggers rule_id s = Inr (True, s1)"
    using assms(2,3,5) q d1(1,6) d2(1) by (simp add: subscribe_rule_triggers_def map_at_map_put emplace_def s1_def)
  moreover have "unsubscribe_rule_triggers rule_id s1 = Inr (True, s2)"
    using assms(2,3) q d3(1) d4(1) by (simp add: unsubscribe_rule_triggers_def query_rule_by_id_def map_at_map_put al_remove_def s1_def s2_def Let_def)
  moreover have "rs_view s2 ?rid (sp_token p') = Some (length (dd_wrappers d1))" using b d2(4) d3(4) d4(3) by (simp add: s2_def)
  moreover have "rw_func (dd_wrappers (rs_dispatcher s2) ! length (dd_wrappers d1)) = Evaluate obj" using d2(5,6) d3(3) d4(2) by (simp add: s2_def)
  ultimately show ?thesis
    by (intro exI[of _ s1] exI[of _ s2] exI[of _ "sp_token p'"] exI[of _ "length (dd_wrappers d1)"]) (simp add: s2_def map_at_map_put)
qed

theorem duplicate_trigger_stays_subscribed_witness:
  "\<exists>s1 s2 token wid. subscribe_rule_triggers 1 (example_rules [''iSpeed'', ''iSpeed'']) = Inr (True, s1) \<and>
     unsubscribe_rule_triggers 1 s1 = Inr (True, s2) \<and> rs_view s2 0 token = Some wid \<and> rw_func (dd_wrappers (rs_dispatcher s2) ! wid) = Evaluate 0"
  using duplicate_trigger_stays_subscribed[OF example_rules_inv(1,4), of "[''iSpeed'', ''iSpeed'']" "''iSpeed''"]
    example_trigger[of "[''iSpeed'', ''iSpeed'']"]
  by (auto simp: map_at_def example_rule_def)

end
