(* ===== verification/Memory_Stream.thy ===== *)
theory Memory_Stream
  imports Cpp_Prelude
begin

text \<open>
  The memory stream (\<^verbatim>\<open>Modules/streams/memory_stream/memory_stream.cpp\<close>): a buffer and a 64-bit
  position. The sum of position and length is formed at 64 bits, as in the source, and a signed
  overflow in \<^verbatim>\<open>set_position\<close> is undefined behaviour.

  The locale \<open>byte_stream\<close> is the contract of a stream with a position; the memory stream is its
  interpretation.
\<close>

section \<open>State and operations\<close>

datatype stream_status =
    status_no_error | status_feature_unsupported | status_write_failed | status_read_failed | status_close_failed | status_open_failed

datatype relative_position = rel_begin | rel_current | rel_end

record memory_stream =
  ms_buffer :: bytes
  ms_position :: uint64

definition ms_size :: "memory_stream \<Rightarrow> size_t" where
  "ms_size s = of_nat (length (ms_buffer s))"

definition ms_reset :: "bool \<Rightarrow> memory_stream \<Rightarrow> stream_status \<times> memory_stream" where
  "ms_reset wipe_data s =
     (let s1 = (if wipe_data then s\<lparr>ms_buffer := mem_zero (ms_buffer s)\<rparr> else s)
      in (status_no_error, s1\<lparr>ms_position := 0\<rparr>))"

text \<open>The constructor from a size; \<open>junk\<close> is the contents of the new buffer before it is wiped.\<close>

definition ms_create_size :: "(nat \<Rightarrow> byte) \<Rightarrow> 32 word \<Rightarrow> memory_stream" where
  "ms_create_size junk sz =
     snd (ms_reset True \<lparr>ms_buffer = map junk [0..<unat sz], ms_position = 0\<rparr>)"

definition ms_create_buffer :: "bytes option \<Rightarrow> memory_stream option" where
  "ms_create_buffer buffer = map_option (\<lambda>b. \<lparr>ms_buffer = b, ms_position = 0\<rparr>) buffer"

text \<open>The caller's buffer, and the number of bytes read if it is set.\<close>

definition ms_read_bytes ::
  "memory_stream \<Rightarrow> bytes \<Rightarrow> size_t \<Rightarrow> (stream_status \<times> bytes \<times> size_t option \<times> memory_stream) result" where
  "ms_read_bytes s data n =
     (if ms_position s + n > ms_size s then Inr (status_read_failed, data, None, s)
      else res_bind (mem_read (ms_buffer s) (unat (ms_position s)) (unat n)) (\<lambda>bs.
             res_map (\<lambda>data'. (status_no_error, data', Some n, s\<lparr>ms_position := ms_position s + n\<rparr>))
               (mem_write data 0 bs)))"

definition ms_write_bytes ::
  "memory_stream \<Rightarrow> bytes \<Rightarrow> size_t \<Rightarrow> (stream_status \<times> size_t option \<times> memory_stream) result" where
  "ms_write_bytes s data n =
     (if ms_position s + n > ms_size s then Inr (status_write_failed, None, s)
      else res_bind (mem_read data 0 (unat n)) (\<lambda>bs.
             res_map (\<lambda>buf. (status_no_error, Some n, s\<lparr>ms_buffer := buf, ms_position := ms_position s + n\<rparr>))
               (mem_write (ms_buffer s) (unat (ms_position s)) bs)))"

definition ms_set_position ::
  "memory_stream \<Rightarrow> int64 \<Rightarrow> relative_position \<Rightarrow> (stream_status \<times> uint64 \<times> memory_stream) result" where
  "ms_set_position s offset relative_to =
     (let start = (case relative_to of rel_begin \<Rightarrow> 0 | rel_end \<Rightarrow> sint (ms_size s) | rel_current \<Rightarrow> sint (ms_position s));
          index = start + sint offset
      in if index < - (2 ^ 63) \<or> 2 ^ 63 \<le> index then Inl Undefined
         else if index < 0 \<or> of_int index \<ge> ms_size s then Inr (status_read_failed, ms_position s, s)
         else Inr (status_no_error, of_int index, s\<lparr>ms_position := of_int index\<rparr>))"

definition ms_get_position :: "memory_stream \<Rightarrow> stream_status \<times> uint64" where
  "ms_get_position s = (status_no_error, ms_position s)"

definition ms_flush :: "memory_stream \<Rightarrow> stream_status" where
  "ms_flush s = status_no_error"

definition ms_inv :: "memory_stream \<Rightarrow> bool" where
  "ms_inv s \<longleftrightarrow> length (ms_buffer s) < 2 ^ 63 \<and> unat (ms_position s) \<le> length (ms_buffer s)"

section \<open>Arithmetic at 64 bits\<close>

lemma unat_of_nat63: "n < 2 ^ 63 \<Longrightarrow> unat (of_nat n :: 64 word) = n"
  by (simp add: unsigned_of_nat take_bit_nat_eq_self)

lemma ms_size_unat: "ms_inv s \<Longrightarrow> unat (ms_size s) = length (ms_buffer s)"
  by (simp add: ms_inv_def ms_size_def unat_of_nat63)

lemma sum_wraps:
  fixes a b m :: nat
  assumes "(a + b) mod m = 0" and "0 < a" and "b < m" and "a < m"
  shows "b = m - a"
proof -
  have "m dvd a + b" using assms(1) by (simp add: mod_eq_0_iff_dvd)
  then obtain k where k: "a + b = m * k" by (rule dvdE)
  with assms(2) have "k \<noteq> 0" by (cases "k = 0") auto
  moreover have "\<not> 2 \<le> k"
  proof
    assume "2 \<le> k"
    then have "m * 2 \<le> m * k" by (rule mult_le_mono2)
    with k assms(3,4) show False by simp
  qed
  ultimately have "k = 1" by simp
  with k show ?thesis by simp
qed

lemma unat_sum: "unat (a :: 64 word) + unat b < 2 ^ 64 \<Longrightarrow> unat (a + b) = unat a + unat b"
  by (simp add: unat_word_ariths)

lemma ms_fits:
  assumes "ms_inv s" and "unat n < 2 ^ 63"
  shows "ms_position s + n > ms_size s \<longleftrightarrow> length (ms_buffer s) < unat (ms_position s) + unat n"
proof -
  have "unat (ms_position s + n) = unat (ms_position s) + unat n"
    using assms by (intro unat_sum) (auto simp: ms_inv_def)
  then show ?thesis using ms_size_unat[OF assms(1)] by (simp add: word_less_nat_alt)
qed

lemma ms_write_ok:
  assumes "ms_inv s" and "unat n \<le> length data" and "unat (ms_position s) + unat n \<le> length (ms_buffer s)"
  shows "\<exists>s'. ms_write_bytes s data n = Inr (status_no_error, Some n, s') \<and> ms_inv s' \<and>
           unat (ms_position s') = unat (ms_position s) + unat n \<and>
           ms_buffer s' = take (unat (ms_position s)) (ms_buffer s) @ take (unat n) data @
             drop (unat (ms_position s) + unat n) (ms_buffer s)"
proof -
  have n: "unat n < 2 ^ 63" using assms(1,3) by (simp add: ms_inv_def)
  have "\<not> ms_position s + n > ms_size s" using ms_fits[OF assms(1) n] assms(3) by simp
  moreover have "unat (ms_position s + n) = unat (ms_position s) + unat n"
    using assms(1,3) n by (intro unat_sum) (simp add: ms_inv_def)
  ultimately show ?thesis
    using assms by (simp add: ms_write_bytes_def mem_read_def mem_write_def ms_inv_def)
qed

lemma ms_read_ok:
  assumes "ms_inv s" and "unat n \<le> length data" and "unat (ms_position s) + unat n \<le> length (ms_buffer s)"
  shows "\<exists>s'. ms_read_bytes s data n =
             Inr (status_no_error, take (unat n) (drop (unat (ms_position s)) (ms_buffer s)) @ drop (unat n) data, Some n, s') \<and>
           ms_inv s' \<and> unat (ms_position s') = unat (ms_position s) + unat n \<and> ms_buffer s' = ms_buffer s"
proof -
  have n: "unat n < 2 ^ 63" using assms(1,3) by (simp add: ms_inv_def)
  have "\<not> ms_position s + n > ms_size s" using ms_fits[OF assms(1) n] assms(3) by simp
  moreover have "unat (ms_position s + n) = unat (ms_position s) + unat n"
    using assms(1,3) n by (intro unat_sum) (simp add: ms_inv_def)
  ultimately show ?thesis
    using assms by (simp add: ms_read_bytes_def mem_read_def mem_write_def ms_inv_def)
qed

lemma sint_of_nat63: "n < 2 ^ 63 \<Longrightarrow> sint (of_nat n :: 64 word) = int n"
  by (simp add: signed_of_nat signed_take_bit_int_eq_self)

lemma ms_seek_ok:
  assumes "ms_inv s" and "i < length (ms_buffer s)"
  shows "ms_set_position s (of_nat i) rel_begin = Inr (status_no_error, of_nat i, s\<lparr>ms_position := of_nat i\<rparr>) \<and>
         ms_inv (s\<lparr>ms_position := of_nat i\<rparr>)"
proof -
  have i: "i < 2 ^ 63" using assms by (simp add: ms_inv_def)
  then have "\<not> of_nat i \<ge> ms_size s"
    using ms_size_unat[OF assms(1)] assms(2) by (simp add: word_le_nat_alt unat_of_nat63)
  with i show ?thesis
    using assms by (simp add: ms_set_position_def sint_of_nat63 ms_inv_def unat_of_nat63 Let_def)
qed

section \<open>The contract of a stream with a position\<close>

locale byte_stream =
  fixes inv :: "'s \<Rightarrow> bool"
    and content :: "'s \<Rightarrow> bytes"
    and pos :: "'s \<Rightarrow> nat"
    and put :: "bytes \<Rightarrow> 's \<Rightarrow> 's option"
    and get :: "nat \<Rightarrow> 's \<Rightarrow> (bytes \<times> 's) option"
    and seek :: "nat \<Rightarrow> 's \<Rightarrow> 's option"
  assumes put_ok: "inv s \<Longrightarrow> pos s + length bs \<le> length (content s) \<Longrightarrow>
      \<exists>s'. put bs s = Some s' \<and> inv s' \<and> pos s' = pos s + length bs \<and>
           content s' = take (pos s) (content s) @ bs @ drop (pos s + length bs) (content s)"
    and put_full: "inv s \<Longrightarrow> length (content s) < pos s + length bs \<Longrightarrow> length bs < 2 ^ 63 \<Longrightarrow> put bs s = None"
    and get_ok: "inv s \<Longrightarrow> pos s + n \<le> length (content s) \<Longrightarrow>
      \<exists>s'. get n s = Some (take n (drop (pos s) (content s)), s') \<and> inv s' \<and> pos s' = pos s + n \<and> content s' = content s"
    and seek_ok: "inv s \<Longrightarrow> i < length (content s) \<Longrightarrow>
      \<exists>s'. seek i s = Some s' \<and> inv s' \<and> pos s' = i \<and> content s' = content s"
begin

lemma put_seek_get:
  assumes "inv s" and "bs \<noteq> []" and "pos s + length bs \<le> length (content s)"
  shows "\<exists>s1 s2 s3. put bs s = Some s1 \<and> seek (pos s) s1 = Some s2 \<and> get (length bs) s2 = Some (bs, s3) \<and>
           inv s3 \<and> pos s3 = pos s1 \<and> content s3 = content s1"
proof -
  obtain s1 where s1: "put bs s = Some s1" "inv s1" "pos s1 = pos s + length bs"
    "content s1 = take (pos s) (content s) @ bs @ drop (pos s + length bs) (content s)"
    using put_ok[OF assms(1,3)] by blast
  have len: "length (content s1) = length (content s)" using s1(4) assms(3) by simp
  have "pos s < length (content s1)" using len assms(2,3) by (cases bs) auto
  then obtain s2 where s2: "seek (pos s) s1 = Some s2" "inv s2" "pos s2 = pos s" "content s2 = content s1"
    using seek_ok[OF s1(2)] by blast
  then obtain s3 where s3: "get (length bs) s2 = Some (take (length bs) (drop (pos s) (content s1)), s3)" "inv s3"
    "pos s3 = pos s + length bs" "content s3 = content s1"
    using get_ok[OF s2(2), of "length bs"] len assms(3) by auto
  moreover have "take (length bs) (drop (pos s) (content s1)) = bs"
    using s1(4) assms(3) by simp
  ultimately show ?thesis using s1 s2 by auto
qed

lemma put_put:
  assumes "inv s" and "pos s + length (a @ b) \<le> length (content s)"
  shows "\<exists>s1 s2 s3. put a s = Some s1 \<and> put b s1 = Some s2 \<and> put (a @ b) s = Some s3 \<and>
           content s2 = content s3 \<and> pos s2 = pos s3"
proof -
  obtain s1 where s1: "put a s = Some s1" "inv s1" "pos s1 = pos s + length a"
    "content s1 = take (pos s) (content s) @ a @ drop (pos s + length a) (content s)"
    using put_ok[OF assms(1), of a] assms(2) by auto
  have "pos s1 + length b \<le> length (content s1)" using s1 assms(2) by simp
  then obtain s2 where s2: "put b s1 = Some s2" "pos s2 = pos s1 + length b"
    "content s2 = take (pos s1) (content s1) @ b @ drop (pos s1 + length b) (content s1)"
    using put_ok[OF s1(2)] by blast
  obtain s3 where s3: "put (a @ b) s = Some s3" "pos s3 = pos s + length (a @ b)"
    "content s3 = take (pos s) (content s) @ (a @ b) @ drop (pos s + length (a @ b)) (content s)"
    using put_ok[OF assms] by blast
  have "take (pos s1) (content s1) = take (pos s) (content s) @ a"
    "drop (pos s1 + length b) (content s1) = drop (pos s + length (a @ b)) (content s)"
    using s1(3,4) assms(2) by (simp_all add: add.commute add.left_commute)
  with s1 s2 s3 show ?thesis by auto
qed

end

definition ms_put :: "bytes \<Rightarrow> memory_stream \<Rightarrow> memory_stream option" where
  "ms_put bs s =
     (case ms_write_bytes s bs (of_nat (length bs)) of
        Inr (status_no_error, _, s') \<Rightarrow> Some s'
      | _ \<Rightarrow> None)"

definition ms_get :: "nat \<Rightarrow> memory_stream \<Rightarrow> (bytes \<times> memory_stream) option" where
  "ms_get n s =
     (case ms_read_bytes s (replicate n 0) (of_nat n) of
        Inr (status_no_error, data, _, s') \<Rightarrow> Some (data, s')
      | _ \<Rightarrow> None)"

definition ms_seek :: "nat \<Rightarrow> memory_stream \<Rightarrow> memory_stream option" where
  "ms_seek i s =
     (case ms_set_position s (of_nat i) rel_begin of
        Inr (status_no_error, _, s') \<Rightarrow> Some s'
      | _ \<Rightarrow> None)"

interpretation mstream: byte_stream ms_inv ms_buffer "\<lambda>s. unat (ms_position s)" ms_put ms_get ms_seek
proof (unfold_locales, goal_cases)
  case (1 s bs)
  then have "length bs < 2 ^ 63" by (simp add: ms_inv_def)
  with 1 ms_write_ok[of s "of_nat (length bs)" bs] show ?case by (auto simp: ms_put_def unat_of_nat63)
next
  case (2 s bs)
  then show ?case using ms_fits[of s "of_nat (length bs)"] by (simp add: ms_put_def unat_of_nat63 ms_write_bytes_def)
next
  case (3 s n)
  then have "n < 2 ^ 63" by (simp add: ms_inv_def)
  with 3 ms_read_ok[of s "of_nat n" "replicate n 0"] show ?case by (auto simp: ms_get_def unat_of_nat63)
next
  case (4 s i)
  then have "i < 2 ^ 63" by (simp add: ms_inv_def)
  with ms_seek_ok[OF 4] show ?case by (auto simp: ms_seek_def unat_of_nat63)
qed

section \<open>Properties\<close>

text \<open>What is written to a memory stream with enough room is read back after going back to where the
  write began, and two writes in a row are one write of both texts.\<close>

theorem stream_write_read_back:
  assumes "ms_inv s" and "a \<noteq> []" and "unat (ms_position s) + length (a @ b) \<le> length (ms_buffer s)"
  shows "(\<exists>s1 s2 s3. ms_put a s = Some s1 \<and> ms_seek (unat (ms_position s)) s1 = Some s2 \<and>
            ms_get (length a) s2 = Some (a, s3) \<and> ms_position s3 = ms_position s1 \<and> ms_buffer s3 = ms_buffer s1) \<and>
         (\<exists>s1 s2. ms_put a s = Some s1 \<and> ms_put b s1 = Some s2 \<and> ms_put (a @ b) s = Some s2)"
proof (rule conjI)
  have "unat (ms_position s) + length a \<le> length (ms_buffer s)" using assms(3) by simp
  from mstream.put_seek_get[OF assms(1,2) this]
  show "\<exists>s1 s2 s3. ms_put a s = Some s1 \<and> ms_seek (unat (ms_position s)) s1 = Some s2 \<and>
      ms_get (length a) s2 = Some (a, s3) \<and> ms_position s3 = ms_position s1 \<and> ms_buffer s3 = ms_buffer s1"
    by (auto simp: word_unat_eq_iff)
  show "\<exists>s1 s2. ms_put a s = Some s1 \<and> ms_put b s1 = Some s2 \<and> ms_put (a @ b) s = Some s2"
    using mstream.put_put[OF assms(1,3)] by (auto simp: word_unat_eq_iff intro!: memory_stream.equality)
qed

definition sample_stream :: memory_stream where
  "sample_stream = \<lparr>ms_buffer = [1, 2, 3, 4], ms_position = 1\<rparr>"

lemma sample_stream_inv: "ms_inv sample_stream"
  by (simp add: ms_inv_def sample_stream_def)

theorem stream_write_read_back_witness:
  "\<exists>s1 s2 s3. ms_put [8, 9] sample_stream = Some s1 \<and> ms_seek 1 s1 = Some s2 \<and> ms_get 2 s2 = Some ([8, 9], s3)"
  using stream_write_read_back[OF sample_stream_inv, of "[8, 9]" "[]"]
  by (auto simp: sample_stream_def numeral_2_eq_2)

text \<open>The bound test adds position and length at 64 bits: away from the beginning, a length for which
  the sum wraps around passes the test and the copy leaves the buffer, reading and writing.\<close>

theorem stream_length_wraps:
  assumes "ms_inv s" and "0 < ms_position s"
  shows "ms_read_bytes s data (- ms_position s) = Inl Undefined \<and>
         (length data < 2 ^ 63 \<longrightarrow> ms_write_bytes s data (- ms_position s) = Inl Undefined)"
proof -
  have "(unat (ms_position s) + unat (- ms_position s)) mod 18446744073709551616 = 0"
    using unat_word_ariths(1)[of "ms_position s" "- ms_position s"] by simp
  moreover have "0 < unat (ms_position s)" using assms(2) by (simp add: word_less_nat_alt)
  moreover have "unat (- ms_position s) < 18446744073709551616" "unat (ms_position s) < 18446744073709551616"
    using unsigned_less[of "- ms_position s"] unsigned_less[of "ms_position s"] by simp_all
  ultimately have "unat (- ms_position s) = 18446744073709551616 - unat (ms_position s)"
    by (rule sum_wraps)
  moreover have "unat (ms_position s) < 2 ^ 63" "length (ms_buffer s) < 2 ^ 63"
    using assms(1) by (auto simp: ms_inv_def)
  ultimately have "unat (ms_position s) + unat (- ms_position s) > length (ms_buffer s)"
    "unat (- ms_position s) > 2 ^ 63" by auto
  then show ?thesis by (simp add: ms_read_bytes_def ms_write_bytes_def mem_read_def)
qed

theorem stream_length_wraps_witness: "ms_read_bytes sample_stream [] (- 1) = Inl Undefined"
  using stream_length_wraps[OF sample_stream_inv, of "[]"] by (simp add: sample_stream_def)

text \<open>\<^verbatim>\<open>set_position\<close> accepts exactly the indices inside the buffer, so the end of the stream itself, where
  a write that fills the buffer leaves the position, cannot be reached by it.\<close>

theorem stream_seek_bounds:
  assumes "ms_inv s" and "i < 2 ^ 63"
  shows "ms_set_position s (of_nat i) rel_begin =
           (if i < length (ms_buffer s) then Inr (status_no_error, of_nat i, s\<lparr>ms_position := of_nat i\<rparr>)
            else Inr (status_read_failed, ms_position s, s)) \<and>
         ms_set_position s 0 rel_end = Inr (status_read_failed, ms_position s, s)"
proof -
  have l: "length (ms_buffer s) < 2 ^ 63" using assms(1) by (simp add: ms_inv_def)
  have "(of_nat i \<ge> ms_size s) = (length (ms_buffer s) \<le> i)"
    using ms_size_unat[OF assms(1)] assms(2) by (simp add: word_le_nat_alt unat_of_nat63)
  moreover have "sint (ms_size s) = int (length (ms_buffer s))"
    using l by (simp add: ms_size_def sint_of_nat63)
  ultimately show ?thesis
    using assms(2) l by (simp add: ms_set_position_def sint_of_nat63 Let_def ms_size_def)
qed

theorem stream_seek_bounds_witness: "ms_set_position sample_stream 0 rel_end = Inr (status_read_failed, 1, sample_stream)"
  using stream_seek_bounds[OF sample_stream_inv, of 0] by (simp add: sample_stream_def)

end
