(* ===== verification/Protocols.thy ===== *)
theory Protocols
  imports Types_Util "HOL-Library.Sublist"
begin

text \<open>
  Framing of messages: the reassembling receive of the TCP port
  (\<^verbatim>\<open>Modules/communication/ports/tcp_client_port_impl.cpp\<close>) and the protocols on top of a port
  (\<^verbatim>\<open>Modules/communication/protocols\<close>): fixed length, variable length, delimiters.

  A protocol is a function of its port's \<^verbatim>\<open>recieve\<close>, which fills the caller's buffer from an offset.
  The locale \<open>channel\<close> is what a protocol relies on: a port delivers the bytes that were sent, in order, all that
  were asked for or an error; the TCP port is its interpretation. The loops of the delimiter protocol
  run until a delimiter or an error comes, so they are \<^theory_text>\<open>partial_function\<close>s.
\<close>

section \<open>The TCP port\<close>

datatype communication_status = DISCONNECTED | CONNECTED

datatype communication_error =
    NO_ERRORS | NO_PERMISSION | ACCESS_DENIED | HOST_UNREACHABLE | TIMED_OUT | CONNECTION_REFUSED | UNKNOWN_ERROR

definition ParseError :: "int \<Rightarrow> communication_error" where
  "ParseError ec =
     (if ec = 0 then NO_ERRORS else if ec = 1 then NO_PERMISSION else if ec = 13 then ACCESS_DENIED
      else if ec = 113 then HOST_UNREACHABLE else if ec = 110 then TIMED_OUT
      else if ec = 111 then CONNECTION_REFUSED else UNKNOWN_ERROR)"

text \<open>
  The socket of the operating system is a parameter: \<open>receive n sk\<close> is the bytes that one call of
  \<^verbatim>\<open>m_socket.receive\<close> with room for \<open>n\<close> bytes delivers, its error code and the socket afterwards. What
  the port relies on is \<open>stream_socket\<close>: a call delivers the next bytes of the stream, at least one and
  at most \<open>n\<close>, or none with an error code once the stream is over.
\<close>

type_synonym 'sk receiver = "nat \<Rightarrow> 'sk \<Rightarrow> bytes \<times> int \<times> 'sk"

definition stream_socket :: "'sk receiver \<Rightarrow> ('sk \<Rightarrow> bytes) \<Rightarrow> bool" where
  "stream_socket receive incoming \<longleftrightarrow>
     (\<forall>n sk bs ec sk'. receive n sk = (bs, ec, sk') \<longrightarrow>
        length bs \<le> n \<and> incoming sk = bs @ incoming sk' \<and>
        (bs \<noteq> [] \<longrightarrow> ec = 0) \<and> (0 < n \<and> bs = [] \<longrightarrow> incoming sk = [] \<and> ec \<noteq> 0))"

record 'sk tcp_client_port =
  tp_socket :: 'sk
  tp_status :: communication_status

type_synonym 'p received = "(nat \<times> bytes \<times> communication_error \<times> 'p) result"

text \<open>The loop of \<^verbatim>\<open>recieve\<close>; \<open>ec\<close> is the error code of the last call, \<open>off\<close> the place of
  \<^verbatim>\<open>bytes_arr\<close> in the caller's memory.\<close>

function tcp_loop ::
  "'sk receiver \<Rightarrow> nat \<Rightarrow> nat \<Rightarrow> nat \<Rightarrow> int \<Rightarrow> bytes \<Rightarrow> nat \<Rightarrow> 'sk tcp_client_port \<Rightarrow> 'sk tcp_client_port received" where
  "tcp_loop receive sz nTotal nDataleft ec buf off p =
     (if nTotal < sz then
        let (bs, ec', sk) = receive nDataleft (tp_socket p); p' = p\<lparr>tp_socket := sk\<rparr> in
        if bs = [] then Inr (0, buf, ParseError ec', p'\<lparr>tp_status := DISCONNECTED\<rparr>)
        else res_bind (mem_write buf (off + nTotal) bs) (\<lambda>buf'.
               tcp_loop receive sz (nTotal + length bs) (nDataleft - length bs) ec' buf' off p')
      else Inr (nTotal, buf, ParseError ec, p))"
  by pat_completeness auto
termination
  by (relation "measure (\<lambda>(receive, sz, nTotal, nDataleft, ec, buf, off, p). sz - nTotal)")
    (auto simp flip: length_greater_0_conv)

declare tcp_loop.simps [simp del]

definition tcp_recieve ::
  "'sk receiver \<Rightarrow> 'sk tcp_client_port \<Rightarrow> bytes \<Rightarrow> nat \<Rightarrow> nat \<Rightarrow> 'sk tcp_client_port received" where
  "tcp_recieve receive p buf off sz = tcp_loop receive sz 0 sz 0 buf off p"

section \<open>Fixed and variable length\<close>

text \<open>\<open>rcv p buf off n\<close> is the port's \<^verbatim>\<open>recieve(buf + off, n)\<close>; the protocols ignore the caller's \<open>sz\<close>.\<close>

definition fixed_length_recieve ::
  "('p \<Rightarrow> bytes \<Rightarrow> nat \<Rightarrow> nat \<Rightarrow> 'p received) \<Rightarrow> nat \<Rightarrow> 'p \<Rightarrow> bytes \<Rightarrow> nat \<Rightarrow> 'p received" where
  "fixed_length_recieve rcv m_nLength p buf sz = rcv p buf 0 m_nLength"

definition fixed_length_send ::
  "('p \<Rightarrow> bytes \<Rightarrow> nat \<Rightarrow> nat \<times> 'p) \<Rightarrow> nat \<Rightarrow> 'p \<Rightarrow> bytes \<Rightarrow> nat \<Rightarrow> nat \<times> 'p" where
  "fixed_length_send port_send m_nLength p buf sz = port_send p buf m_nLength"

record variable_length_protocol =
  vl_SizeOfDataSize :: size_t
  vl_PlaceOfDataSize :: size_t
  vl_ConstatSizeAddition :: size_t
  vl_Absolute_data_size :: bool
  vl_MaxDataSize :: size_t
  vl_EndianMismatch :: bool

definition variable_length_create ::
  "endian \<Rightarrow> size_t \<Rightarrow> size_t \<Rightarrow> size_t \<Rightarrow> bool \<Rightarrow> size_t \<Rightarrow> endian \<Rightarrow> variable_length_protocol" where
  "variable_length_create platform nSizeOfDataSize nPlaceOfDataSize nConstatSizeAddition bAbsolute_data_size nMaxDataSize eEndian =
     \<lparr>vl_SizeOfDataSize = nSizeOfDataSize, vl_PlaceOfDataSize = nPlaceOfDataSize,
      vl_ConstatSizeAddition = nConstatSizeAddition, vl_Absolute_data_size = bAbsolute_data_size,
      vl_MaxDataSize = nMaxDataSize, vl_EndianMismatch = (eEndian \<noteq> platform)\<rparr>"

definition word16_of :: "bytes \<Rightarrow> 16 word" where
  "word16_of bs = ucast (bs ! 0) OR push_bit 8 (ucast (bs ! 1))"

definition word32_of :: "bytes \<Rightarrow> 32 word" where
  "word32_of bs =
     ucast (bs ! 0) OR push_bit 8 (ucast (bs ! 1)) OR push_bit 16 (ucast (bs ! 2)) OR push_bit 24 (ucast (bs ! 3))"

definition read_data_size :: "variable_length_protocol \<Rightarrow> bytes \<Rightarrow> size_t result" where
  "read_data_size v buf =
     (if vl_SizeOfDataSize v = 1 then res_map (\<lambda>bs. ucast (bs ! 0)) (mem_read buf (unat (vl_PlaceOfDataSize v)) 1)
      else if vl_SizeOfDataSize v = 2 then
        res_map (\<lambda>bs. ucast (if vl_EndianMismatch v then endian_swap16 (word16_of bs) else word16_of bs))
          (mem_read buf (unat (vl_PlaceOfDataSize v)) 2)
      else if vl_SizeOfDataSize v = 4 then
        res_map (\<lambda>bs. ucast (if vl_EndianMismatch v then endian_swap32 (word32_of bs) else word32_of bs))
          (mem_read buf (unat (vl_PlaceOfDataSize v)) 4)
      else Inr 0)"

definition variable_length_recieve ::
  "('p \<Rightarrow> bytes \<Rightarrow> nat \<Rightarrow> nat \<Rightarrow> 'p received) \<Rightarrow> variable_length_protocol \<Rightarrow> 'p \<Rightarrow> bytes \<Rightarrow> nat \<Rightarrow> 'p received" where
  "variable_length_recieve rcv v p buf sz =
     (let header = vl_PlaceOfDataSize v + vl_SizeOfDataSize v in
      res_bind (rcv p buf 0 (unat header)) (\<lambda>(nNumRecived, buf1, err, p1).
        if nNumRecived = 0 then Inr (0, buf1, err, p1)
        else res_bind (read_data_size v buf1) (\<lambda>nDataSize0.
          if nDataSize0 = 0 then Inr (nNumRecived, buf1, err, p1)
          else
            let nDataSize1 = nDataSize0 + vl_ConstatSizeAddition v;
                nDataSize = (if vl_Absolute_data_size v then nDataSize1 - header else nDataSize1)
            in if nDataSize + header > vl_MaxDataSize v then Inr (0, buf1, err, p1)
               else if of_nat nNumRecived = nDataSize + header then Inr (nNumRecived, buf1, err, p1)
               else res_bind (rcv p1 buf1 (unat header) (unat nDataSize)) (\<lambda>(n2, buf2, err2, p2).
                      if n2 = 0 then Inr (0, buf2, err2, p2)
                      else Inr (unat (of_nat n2 + header), buf2, err2, p2)))))"

section \<open>Delimiters\<close>

text \<open>A couple is a start and an end delimiter; the constructor refuses empty ones.\<close>

type_synonym delimiters = "bytes \<times> bytes"

definition delimiter_protocol_create :: "delimiters list option \<Rightarrow> delimiters list option" where
  "delimiter_protocol_create couples =
     (case couples of
        None \<Rightarrow> None
      | Some ds \<Rightarrow> if ds = [] \<or> (\<exists>d \<in> set ds. fst d = [] \<or> snd d = []) then None else Some ds)"

definition blank :: byte where "blank = 32"

definition fresh_window :: "bytes \<Rightarrow> bytes" where
  "fresh_window d = replicate (length d) blank"

definition put_last :: "byte \<Rightarrow> bytes \<Rightarrow> bytes" where
  "put_last c w = butlast w @ [c]"

definition shift_left :: "bytes \<Rightarrow> bytes" where
  "shift_left w = tl w @ [blank]"

text \<open>The scan over the couples: the index of the first window that equals its delimiter; the windows
  before it are shifted.\<close>

fun scan_windows :: "nat \<Rightarrow> bytes list \<Rightarrow> bytes list \<Rightarrow> nat option \<times> bytes list" where
  "scan_windows i (d # ds) (w # ws) =
     (if w = d then (Some i, w # ws)
      else case scan_windows (Suc i) ds ws of (r, ws') \<Rightarrow> (r, shift_left w # ws'))"
| "scan_windows i _ ws = (None, ws)"

partial_function (option) find_start ::
  "('p \<Rightarrow> bytes \<Rightarrow> nat \<Rightarrow> nat \<Rightarrow> 'p received) \<Rightarrow> byte \<Rightarrow> bytes list \<Rightarrow> bytes list \<Rightarrow> 'p \<Rightarrow>
   ((communication_error + nat \<times> bytes) \<times> 'p) result option" where
  "find_start rcv uninit ds ws p =
     (case rcv p [uninit] 0 1 of
        Inl e \<Rightarrow> Some (Inl e)
      | Inr (_, cbuf, err, p') \<Rightarrow>
          if err \<noteq> NO_ERRORS then Some (Inr (Inl err, p'))
          else (case scan_windows 0 ds (map (put_last (cbuf ! 0)) ws) of
                  (Some i, ws') \<Rightarrow> Some (Inr (Inr (i, ws' ! i), p'))
                | (None, ws') \<Rightarrow> find_start rcv uninit ds ws' p'))"

partial_function (option) find_end ::
  "('p \<Rightarrow> bytes \<Rightarrow> nat \<Rightarrow> nat \<Rightarrow> 'p received) \<Rightarrow> byte \<Rightarrow> bytes \<Rightarrow> bytes \<Rightarrow> bytes \<Rightarrow> nat \<Rightarrow> nat \<Rightarrow> 'p \<Rightarrow> 'p received option" where
  "find_end rcv uninit d w buf n sz p =
     (case rcv p [uninit] 0 1 of
        Inl e \<Rightarrow> Some (Inl e)
      | Inr (_, cbuf, err, p') \<Rightarrow>
          if err \<noteq> NO_ERRORS then Some (Inr (0, buf, err, p'))
          else let w' = put_last (cbuf ! 0) w in
               if n \<ge> sz then Some (Inr (0, buf, err, p'))
               else (case mem_write buf n [cbuf ! 0] of
                       Inl e \<Rightarrow> Some (Inl e)
                     | Inr buf' \<Rightarrow>
                         if w' = d then Some (Inr (Suc n, buf', err, p'))
                         else find_end rcv uninit d (shift_left w') buf' (Suc n) sz p'))"

definition delimiter_recieve ::
  "('p \<Rightarrow> bytes \<Rightarrow> nat \<Rightarrow> nat \<Rightarrow> 'p received) \<Rightarrow> byte \<Rightarrow> delimiters list \<Rightarrow> 'p \<Rightarrow> bytes \<Rightarrow> nat \<Rightarrow> 'p received option" where
  "delimiter_recieve rcv uninit couples p buf sz =
     (case find_start rcv uninit (map fst couples) (map (fresh_window \<circ> fst) couples) p of
        None \<Rightarrow> None
      | Some (Inl e) \<Rightarrow> Some (Inl e)
      | Some (Inr (Inl err, p')) \<Rightarrow> Some (Inr (0, buf, err, p'))
      | Some (Inr (Inr (i, w), p')) \<Rightarrow>
          (case mem_write buf 0 w of
             Inl e \<Rightarrow> Some (Inl e)
           | Inr buf' \<Rightarrow> find_end rcv uninit (snd (couples ! i)) (fresh_window (snd (couples ! i))) buf' (length w) sz p'))"

section \<open>The TCP port reassembles the stream\<close>

definition overwrite :: "bytes \<Rightarrow> nat \<Rightarrow> bytes \<Rightarrow> bytes" where
  "overwrite buf off bs = take off buf @ bs @ drop (off + length bs) buf"

lemma length_overwrite [simp]: "off + length bs \<le> length buf \<Longrightarrow> length (overwrite buf off bs) = length buf"
  by (simp add: overwrite_def)

lemma overwrite_Nil [simp]: "overwrite buf off [] = buf"
  by (simp add: overwrite_def)

lemma overwrite_append:
  "off + length (a @ b) \<le> length buf \<Longrightarrow>
   overwrite (overwrite buf off a) (off + length a) b = overwrite buf off (a @ b)"
  by (simp add: overwrite_def add.commute add.left_commute)

lemma mem_write_overwrite: "off + length bs \<le> length buf \<Longrightarrow> mem_write buf off bs = Inr (overwrite buf off bs)"
  by (simp add: mem_write_def overwrite_def)

lemma stream_socketD:
  assumes "stream_socket receive incoming" and "receive n sk = (bs, ec, sk')"
  shows "length bs \<le> n" and "incoming sk = bs @ incoming sk'" and "bs \<noteq> [] \<Longrightarrow> ec = 0"
    and "0 < n \<Longrightarrow> bs = [] \<Longrightarrow> incoming sk = [] \<and> ec \<noteq> 0"
  using assms unfolding stream_socket_def by blast+

lemma ParseError_eq_NO_ERRORS [simp]: "ParseError ec = NO_ERRORS \<longleftrightarrow> ec = 0"
  by (simp add: ParseError_def)

lemma ParseError_0 [simp]: "ParseError 0 = NO_ERRORS"
  by simp

lemma tcp_loop_step:
  assumes "nTotal < sz" and "receive nDataleft (tp_socket p) = (bs, ec', sk)" and "bs \<noteq> []"
    and "off + nTotal + length bs \<le> length buf"
  shows "tcp_loop receive sz nTotal nDataleft ec buf off p =
         tcp_loop receive sz (nTotal + length bs) (nDataleft - length bs) ec'
           (overwrite buf (off + nTotal) bs) off (p\<lparr>tp_socket := sk\<rparr>)"
  using assms by (subst tcp_loop.simps) (simp add: mem_write_overwrite)

lemma tcp_loop_enough:
  assumes "stream_socket receive incoming" and "nTotal \<le> sz" and "nDataleft = sz - nTotal" and "ec = 0"
    and "nDataleft \<le> length (incoming (tp_socket p))" and "off + sz \<le> length buf"
  shows "\<exists>p'. tcp_loop receive sz nTotal nDataleft ec buf off p =
                Inr (sz, overwrite buf (off + nTotal) (take nDataleft (incoming (tp_socket p))), NO_ERRORS, p') \<and>
              incoming (tp_socket p') = drop nDataleft (incoming (tp_socket p)) \<and> tp_status p' = tp_status p"
  using assms
proof (induction receive sz nTotal nDataleft ec buf off p rule: tcp_loop.induct)
  case (1 receive sz nTotal nDataleft ec buf off p)
  show ?case
  proof (cases "nTotal < sz")
    case False
    with 1 show ?thesis by (simp add: tcp_loop.simps)
  next
    case True
    obtain bs ec' sk where r: "receive nDataleft (tp_socket p) = (bs, ec', sk)" by (metis prod_cases3)
    note sk = stream_socketD[OF "1.prems"(1) r]
    have bs: "bs \<noteq> []" using sk(4) True "1.prems"(3,5) by auto
    have fits: "off + nTotal + length bs \<le> length buf" using sk(1) True "1.prems"(3,6) by simp
    let ?p = "p\<lparr>tp_socket := sk\<rparr>" and ?buf = "overwrite buf (off + nTotal) bs"
    have "\<exists>p'. tcp_loop receive sz (nTotal + length bs) (nDataleft - length bs) ec' ?buf off ?p =
        Inr (sz, overwrite ?buf (off + (nTotal + length bs)) (take (nDataleft - length bs) (incoming (tp_socket ?p))), NO_ERRORS, p') \<and>
        incoming (tp_socket p') = drop (nDataleft - length bs) (incoming (tp_socket ?p)) \<and> tp_status p' = tp_status ?p"
      using "1.IH"[OF True r[symmetric] refl refl refl bs] "1.prems" sk bs fits True
      by (simp add: mem_write_overwrite)
    then show ?thesis
      using tcp_loop_step[of nTotal sz receive nDataleft p bs ec' sk off buf ec, OF True r bs fits] sk(1,2) fits True "1.prems"(3,6)
      by (simp add: add.assoc flip: overwrite_append)
  qed
qed

lemma tcp_loop_short:
  assumes "stream_socket receive incoming" and "nTotal \<le> sz" and "nDataleft = sz - nTotal"
    and "length (incoming (tp_socket p)) < nDataleft" and "off + sz \<le> length buf"
  shows "\<exists>err p'. tcp_loop receive sz nTotal nDataleft ec buf off p =
                Inr (0, overwrite buf (off + nTotal) (incoming (tp_socket p)), err, p') \<and> err \<noteq> NO_ERRORS \<and>
              incoming (tp_socket p') = [] \<and> tp_status p' = DISCONNECTED"
  using assms
proof (induction receive sz nTotal nDataleft ec buf off p rule: tcp_loop.induct)
  case (1 receive sz nTotal nDataleft ec buf off p)
  have True: "nTotal < sz" using "1.prems"(3,4) by simp
  obtain bs ec' sk where r: "receive nDataleft (tp_socket p) = (bs, ec', sk)" by (metis prod_cases3)
  note sk = stream_socketD[OF "1.prems"(1) r]
  show ?case
  proof (cases "bs = []")
    case bs: True
    with sk "1.prems"(3) True have "incoming (tp_socket p) = [] \<and> ec' \<noteq> 0 \<and> incoming sk = []" by simp
    then show ?thesis using bs True r by (simp add: tcp_loop.simps)
  next
    case bs: False
    have fits: "off + nTotal + length bs \<le> length buf" using sk(1) True "1.prems"(3,5) by simp
    let ?p = "p\<lparr>tp_socket := sk\<rparr>" and ?buf = "overwrite buf (off + nTotal) bs"
    have "\<exists>err p'. tcp_loop receive sz (nTotal + length bs) (nDataleft - length bs) ec' ?buf off ?p =
        Inr (0, overwrite ?buf (off + (nTotal + length bs)) (incoming (tp_socket ?p)), err, p') \<and> err \<noteq> NO_ERRORS \<and>
        incoming (tp_socket p') = [] \<and> tp_status p' = DISCONNECTED"
      using "1.IH"[OF True r[symmetric] refl refl refl bs] "1.prems" sk bs fits True
      by (simp add: mem_write_overwrite)
    then show ?thesis
      using tcp_loop_step[of nTotal sz receive nDataleft p bs ec' sk off buf ec, OF True r bs fits] sk(1,2) fits True "1.prems"(3,4,5)
      by (simp add: add.assoc flip: overwrite_append)
  qed
qed

lemma tcp_loop_overrun:
  assumes "stream_socket receive incoming" and "nTotal \<le> sz" and "nDataleft = sz - nTotal" and "off + nTotal \<le> length buf"
    and "length buf < off + sz" and "length buf < off + nTotal + length (incoming (tp_socket p))"
  shows "tcp_loop receive sz nTotal nDataleft ec buf off p = Inl Undefined"
  using assms
proof (induction receive sz nTotal nDataleft ec buf off p rule: tcp_loop.induct)
  case (1 receive sz nTotal nDataleft ec buf off p)
  have True: "nTotal < sz" using "1.prems"(4,5) by simp
  obtain bs ec' sk where r: "receive nDataleft (tp_socket p) = (bs, ec', sk)" by (metis prod_cases3)
  note sk = stream_socketD[OF "1.prems"(1) r]
  have bs: "bs \<noteq> []" using sk(4) True "1.prems"(3,4,6) by auto
  show ?case
  proof (cases "off + nTotal + length bs \<le> length buf")
    case False
    with bs True r show ?thesis by (simp add: tcp_loop.simps mem_write_def)
  next
    case fits: True
    then show ?thesis
      using "1.IH"[OF True r[symmetric] refl refl refl bs] "1.prems" sk
        tcp_loop_step[of nTotal sz receive nDataleft p bs ec' sk off buf ec, OF True r bs fits]
      by (simp add: mem_write_overwrite)
  qed
qed

section \<open>Data sizes and windows\<close>

lemma mem_read_append: "mem_read a off n = Inr bs \<Longrightarrow> mem_read (a @ b) off n = Inr bs"
  by (auto simp: mem_read_def split: if_splits)

lemma read_data_size_append: "read_data_size v a = Inr d \<Longrightarrow> read_data_size v (a @ b) = Inr d"
  by (auto simp: read_data_size_def res_map_Inr mem_read_append split: if_splits)

text \<open>The bytes of a number in a size field, from its digits to the base 256; and what the protocol reads from them.\<close>

definition size_digit :: "nat \<Rightarrow> nat \<Rightarrow> byte" where
  "size_digit m i = word_of_nat (m div 256 ^ i)"

definition size_field :: "endian \<Rightarrow> nat \<Rightarrow> nat \<Rightarrow> bytes" where
  "size_field e k m = (let ds = map (size_digit m) [0..<k] in if e = LITTLE then ds else rev ds)"

lemma size_field_length [simp]: "length (size_field e k m) = k"
  by (simp add: size_field_def Let_def)

lemma size_digit_bit: "bit (size_digit m i) j \<longleftrightarrow> j < 8 \<and> bit m (8 * i + j)"
proof -
  have "m div 256 ^ i = drop_bit (8 * i) m" by (simp add: drop_bit_eq_div power_mult)
  then show ?thesis by (auto simp: size_digit_def bit_simps add.commute)
qed

lemma size_field_bytes:
  "size_field LITTLE 1 m = [size_digit m 0]" "size_field BIG 1 m = [size_digit m 0]"
  "size_field LITTLE 2 m = [size_digit m 0, size_digit m 1]" "size_field BIG 2 m = [size_digit m 1, size_digit m 0]"
  "size_field LITTLE 4 m = [size_digit m 0, size_digit m 1, size_digit m 2, size_digit m 3]"
  "size_field BIG 4 m = [size_digit m 3, size_digit m 2, size_digit m 1, size_digit m 0]"
  by (simp_all add: size_field_def upt_rec numeral_2_eq_2 numeral_3_eq_3)

lemma size_field_16:
  "word16_of (size_field LITTLE 2 m) = word_of_nat m" "endian_swap16 (word16_of (size_field BIG 2 m)) = word_of_nat m"
  unfolding size_field_bytes word16_of_def endian_swap16_def by (rule bit_word_eqI; force simp: bit_simps size_digit_bit)+

lemma byte_ranges:
  fixes i :: nat
  assumes "i < 32"
  obtains "i < 8" | "8 \<le> i" "i < 16" | "16 \<le> i" "i < 24" | "24 \<le> i" "i < 32"
  using assms by linarith

lemma size_field_32:
  "word32_of (size_field LITTLE 4 m) = word_of_nat m" "endian_swap32 (word32_of (size_field BIG 4 m)) = word_of_nat m"
proof -
  have "bit (word32_of (size_field LITTLE 4 m)) i = bit (word_of_nat m :: 32 word) i" if "i < 32" for i
    using that by (cases i rule: byte_ranges) (auto simp: size_field_bytes word32_of_def bit_simps size_digit_bit)
  then show "word32_of (size_field LITTLE 4 m) = word_of_nat m" by (intro bit_word_eqI) simp
  have "bit (endian_swap32 (word32_of (size_field BIG 4 m))) i = bit (word_of_nat m :: 32 word) i" if "i < 32" for i
    using that by (cases i rule: byte_ranges) (auto simp: size_field_bytes word32_of_def endian_swap32_def masks bit_simps size_digit_bit)
  then show "endian_swap32 (word32_of (size_field BIG 4 m)) = word_of_nat m" by (intro bit_word_eqI) simp
qed

lemma widened_size:
  assumes "m < 2 ^ LENGTH('a::len)" and "LENGTH('a) \<le> 64"
  shows "(ucast (word_of_nat m :: 'a word) :: size_t) = of_nat m"
proof (rule word_unat_eq_iff[THEN iffD2])
  have "(2 :: nat) ^ LENGTH('a) \<le> 2 ^ 64" using assms(2) by (intro power_increasing) auto
  with assms(1) have "m < 2 ^ 64" by linarith
  with assms show "unat (ucast (word_of_nat m :: 'a word) :: size_t) = unat (of_nat m :: size_t)"
    by (simp add: unsigned_ucast_eq unsigned_of_nat take_bit_nat_eq_self)
qed

lemma read_size_field:
  assumes "k = 1 \<or> k = 2 \<or> k = 4" and "m < 256 ^ k" and "length pre = unat place" and "v = variable_length_create LITTLE (of_nat k) place add absolute maxsize e"
  shows "read_data_size v (pre @ size_field e k m) = Inr (of_nat m)"
proof -
  have rd: "mem_read (pre @ size_field e k m) (unat place) k = Inr (size_field e k m)"
    using assms(3) by (simp add: mem_read_def)
  have swap: "vl_EndianMismatch v = (e = BIG)" "vl_PlaceOfDataSize v = place" "vl_SizeOfDataSize v = of_nat k"
    by (cases e; simp add: assms(4) variable_length_create_def)+
  from assms(1) show ?thesis
  proof (elim disjE)
    assume k: "k = 1"
    have "size_field e 1 m ! 0 = word_of_nat m" by (cases e) (simp_all add: size_field_bytes[unfolded One_nat_def] size_digit_def)
    moreover have "(ucast (word_of_nat m :: byte) :: size_t) = of_nat m" using widened_size[of m, where 'a = 8] assms(2) k by simp
    ultimately show ?thesis using rd swap k by (simp add: read_data_size_def)
  next
    assume k: "k = 2"
    have "(ucast (word_of_nat m :: 16 word) :: size_t) = of_nat m" using widened_size[of m, where 'a = 16] assms(2) k by simp
    then show ?thesis using rd swap k size_field_16[of m] by (cases e) (simp_all add: read_data_size_def)
  next
    assume k: "k = 4"
    have "(ucast (word_of_nat m :: 32 word) :: size_t) = of_nat m" using widened_size[of m, where 'a = 32] assms(2) k by simp
    then show ?thesis using rd swap k size_field_32[of m] by (cases e) (simp_all add: read_data_size_def)
  qed
qed

definition payload_size :: "variable_length_protocol \<Rightarrow> size_t \<Rightarrow> size_t" where
  "payload_size v d =
     (if vl_Absolute_data_size v then d + vl_ConstatSizeAddition v - (vl_PlaceOfDataSize v + vl_SizeOfDataSize v)
      else d + vl_ConstatSizeAddition v)"

definition header_size :: "variable_length_protocol \<Rightarrow> nat" where
  "header_size v = unat (vl_PlaceOfDataSize v + vl_SizeOfDataSize v)"

lemma variable_length_recieve_payload:
  "variable_length_recieve rcv v p buf sz =
     (let header = vl_PlaceOfDataSize v + vl_SizeOfDataSize v in
      res_bind (rcv p buf 0 (unat header)) (\<lambda>(nNumRecived, buf1, err, p1).
        if nNumRecived = 0 then Inr (0, buf1, err, p1)
        else res_bind (read_data_size v buf1) (\<lambda>d.
          if d = 0 then Inr (nNumRecived, buf1, err, p1)
          else if payload_size v d + header > vl_MaxDataSize v then Inr (0, buf1, err, p1)
          else if of_nat nNumRecived = payload_size v d + header then Inr (nNumRecived, buf1, err, p1)
          else res_bind (rcv p1 buf1 (unat header) (unat (payload_size v d))) (\<lambda>(n2, buf2, err2, p2).
                 if n2 = 0 then Inr (0, buf2, err2, p2)
                 else Inr (unat (of_nat n2 + header), buf2, err2, p2)))))"
  by (simp only: variable_length_recieve_def Let_def payload_size_def)

text \<open>The window holds the last characters of the blanks followed by the input.\<close>

definition window :: "bytes \<Rightarrow> bytes \<Rightarrow> bytes" where
  "window d xs = drop (length xs) (replicate (length d) blank @ xs)"

definition closes :: "bytes \<Rightarrow> bytes \<Rightarrow> bool" where
  "closes d xs \<longleftrightarrow> suffix d (replicate (length d) blank @ xs)"

lemma closes_window: "closes d xs \<longleftrightarrow> window d xs = d"
proof
  assume "closes d xs"
  then obtain zs where zs: "replicate (length d) blank @ xs = zs @ d" by (auto simp: closes_def suffix_def)
  then have "length zs = length xs" by (metis add.commute add_right_cancel length_append length_replicate)
  then show "window d xs = d" by (simp add: window_def zs)
next
  assume "window d xs = d"
  then show "closes d xs" by (metis closes_def suffix_drop window_def)
qed

lemma closes_suffix:
  assumes "d \<noteq> []" and "hd d \<noteq> blank"
  shows "closes d xs \<longleftrightarrow> suffix d xs"
proof
  assume "closes d xs"
  then obtain zs where zs: "replicate (length d) blank @ xs = zs @ d" by (auto simp: closes_def suffix_def)
  have "length d \<le> length zs"
  proof (rule ccontr)
    assume "\<not> length d \<le> length zs"
    then have "(zs @ d) ! length zs = blank" using zs by (metis leI nth_append nth_replicate length_replicate)
    then show False using assms by (simp add: nth_append hd_conv_nth)
  qed
  then show "suffix d xs" using zs by (auto simp: suffix_def append_eq_append_conv_if)
qed (auto simp: closes_def suffix_def)

lemma length_window [simp]: "length (window d xs) = length d"
  by (simp add: window_def)

lemma window_snoc: "d \<noteq> [] \<Longrightarrow> window d (xs @ [c]) = tl (window d xs) @ [c]"
proof -
  assume d: "d \<noteq> []"
  let ?l = "replicate (length d) blank @ xs"
  have "drop (Suc (length xs)) (?l @ [c]) = drop (Suc (length xs)) ?l @ [c]"
    using d by (subst drop_append) (cases d, auto)
  moreover have "drop (Suc (length xs)) ?l = tl (drop (length xs) ?l)"
    by (simp only: drop_Suc tl_drop)
  ultimately show "window d (xs @ [c]) = tl (window d xs) @ [c]"
    by (simp only: window_def length_append_singleton append_assoc)
qed

lemma put_last_shift: "d \<noteq> [] \<Longrightarrow> put_last c (shift_left (window d xs)) = window d (xs @ [c])"
  by (simp add: put_last_def shift_left_def window_snoc)

lemma fresh_window_shift: "d \<noteq> [] \<Longrightarrow> fresh_window d = shift_left (window d [])"
  by (cases d) (simp_all add: fresh_window_def shift_left_def window_def replicate_append_same)

lemma scan_windows_none:
  "(\<forall>d. d \<in> set ds \<longrightarrow> f d \<noteq> d) \<Longrightarrow> scan_windows n ds (map f ds) = (None, map (\<lambda>d. shift_left (f d)) ds)"
  by (induction ds arbitrary: n) auto

lemma scan_windows_first:
  "i < length ds \<Longrightarrow> f (ds ! i) = ds ! i \<Longrightarrow> (\<forall>j. j < i \<longrightarrow> f (ds ! j) \<noteq> ds ! j) \<Longrightarrow>
   \<exists>ws. scan_windows n ds (map f ds) = (Some (n + i), ws) \<and> ws ! i = ds ! i"
proof (induction ds arbitrary: n i)
  case (Cons d ds)
  show ?case
  proof (cases i)
    case (Suc k)
    then have "f d \<noteq> d" using Cons.prems(3) by auto
    moreover have "\<forall>j. j < k \<longrightarrow> f (ds ! j) \<noteq> ds ! j" using Cons.prems(3) Suc by (metis Suc_mono nth_Cons_Suc)
    ultimately show ?thesis using Cons.IH[of k "Suc n"] Cons.prems Suc by auto
  qed (use Cons.prems in auto)
qed simp

section \<open>What a protocol relies on\<close>

locale channel =
  fixes ready :: "'p \<Rightarrow> bool"
    and pending :: "'p \<Rightarrow> bytes"
    and rcv :: "'p \<Rightarrow> bytes \<Rightarrow> nat \<Rightarrow> nat \<Rightarrow> 'p received"
  assumes enough: "ready p \<Longrightarrow> n \<le> length (pending p) \<Longrightarrow> off + n \<le> length buf \<Longrightarrow>
      \<exists>p'. rcv p buf off n = Inr (n, overwrite buf off (take n (pending p)), NO_ERRORS, p') \<and>
           ready p' \<and> pending p' = drop n (pending p)"
    and short: "ready p \<Longrightarrow> length (pending p) < n \<Longrightarrow> off + n \<le> length buf \<Longrightarrow>
      \<exists>err p'. rcv p buf off n = Inr (0, overwrite buf off (pending p), err, p') \<and> err \<noteq> NO_ERRORS \<and>
           ready p' \<and> pending p' = []"
    and overrun: "ready p \<Longrightarrow> off \<le> length buf \<Longrightarrow> length buf < off + n \<Longrightarrow>
      length buf < off + length (pending p) \<Longrightarrow> rcv p buf off n = Inl Undefined"
begin

lemma one_byte:
  assumes "ready p" and "pending p = c # cs"
  shows "\<exists>p'. rcv p [u] 0 1 = Inr (1, [c], NO_ERRORS, p') \<and> ready p' \<and> pending p' = cs"
  using enough[OF assms(1), of 1 0 "[u]"] assms(2) by (simp add: overwrite_def)

lemma no_byte:
  assumes "ready p" and "pending p = []"
  shows "\<exists>err p'. rcv p [u] 0 1 = Inr (0, [u], err, p') \<and> err \<noteq> NO_ERRORS \<and> ready p' \<and> pending p' = []"
  using short[OF assms(1), of 1 0 "[u]"] assms(2) by simp

lemma variable_length_frame:
  assumes "ready p" and "pending p = hdr @ body @ rest" and "length hdr = header_size v" and "hdr \<noteq> []"
    and "read_data_size v hdr = Inr d" and "d \<noteq> 0" and "payload_size v d = of_nat (length body)"
    and "length (hdr @ body) \<le> length buf" and "length buf < 2 ^ 64"
    and "of_nat (length (hdr @ body)) \<le> vl_MaxDataSize v"
  shows "\<exists>p'. variable_length_recieve rcv v p buf sz =
           Inr (length (hdr @ body), overwrite buf 0 (hdr @ body), NO_ERRORS, p') \<and> ready p' \<and> pending p' = rest"
proof -
  let ?h = "vl_PlaceOfDataSize v + vl_SizeOfDataSize v"
  obtain p1 where p1: "rcv p buf 0 (unat ?h) = Inr (length hdr, overwrite buf 0 hdr, NO_ERRORS, p1)" "ready p1"
    "pending p1 = body @ rest"
    using enough[OF assms(1), of "length hdr" 0 buf] assms(2,3,8) by (auto simp: header_size_def)
  have rd: "read_data_size v (overwrite buf 0 hdr) = Inr d"
    using read_data_size_append[OF assms(5)] by (simp add: overwrite_def)
  have h: "?h = of_nat (length hdr)" using assms(3) by (simp add: header_size_def)
  have sum: "of_nat (length body) + ?h = of_nat (length (hdr @ body))" by (simp add: h add.commute)
  have lens: "unat (of_nat (length (hdr @ body)) :: 64 word) = length (hdr @ body)"
    "unat (of_nat (length body) :: 64 word) = length body" "unat (of_nat (length hdr) :: 64 word) = length hdr"
    using assms(8,9) by (simp_all add: unsigned_of_nat take_bit_nat_eq_self del: of_nat_add length_append)
      (simp_all add: take_bit_nat_eq_self)
  have pl: "payload_size v d + ?h = of_nat (length (hdr @ body))" using sum assms(7) by simp
  obtain p2 where p2: "rcv p1 (overwrite buf 0 hdr) (length hdr) (length body) =
      Inr (length body, overwrite buf 0 (hdr @ body), NO_ERRORS, p2)" "ready p2" "pending p2 = rest"
    using enough[OF p1(2), of "length body" "length hdr" "overwrite buf 0 hdr"] p1(3) assms(8) overwrite_append[of 0 hdr body buf]
    by auto
  show ?thesis
  proof (cases "body = []")
    case True
    then show ?thesis
      using p1 rd assms(2,4,6,10) pl
      by (simp add: variable_length_recieve_payload Let_def not_less)
  next
    case False
    have ne: "(of_nat (length hdr) :: size_t) \<noteq> of_nat (length (hdr @ body))"
      using lens(1,3) False by (metis add_cancel_right_right length_0_conv length_append)
    have "unat (of_nat (length body) + ?h) = length (hdr @ body)" by (simp only: sum lens(1))
    moreover have "unat ?h = length hdr" "unat (payload_size v d) = length body" using h lens assms(7) by simp_all
    ultimately show ?thesis
      using p1 p2 rd assms(4,6,10) pl ne False
      by (simp add: variable_length_recieve_payload Let_def not_less)
  qed
qed

lemma variable_length_empty:
  assumes "ready p" and "pending p = hdr @ rest" and "length hdr = header_size v" and "hdr \<noteq> []"
    and "read_data_size v hdr = Inr 0" and "length hdr \<le> length buf"
  shows "\<exists>p'. variable_length_recieve rcv v p buf sz = Inr (length hdr, overwrite buf 0 hdr, NO_ERRORS, p') \<and> ready p' \<and> pending p' = rest"
proof -
  let ?h = "vl_PlaceOfDataSize v + vl_SizeOfDataSize v"
  obtain p1 where p1: "rcv p buf 0 (unat ?h) = Inr (length hdr, overwrite buf 0 hdr, NO_ERRORS, p1)" "ready p1" "pending p1 = rest"
    using enough[OF assms(1), of "length hdr" 0 buf] assms(2,3,6) by (auto simp: header_size_def)
  have "read_data_size v (overwrite buf 0 hdr) = Inr 0" using read_data_size_append[OF assms(5)] by (simp add: overwrite_def)
  with p1 assms(4) show ?thesis by (simp add: variable_length_recieve_def Let_def)
qed

text \<open>An absolute size smaller than the header passes the size test, since the subtraction of the header
  wraps around and the test adds it again.\<close>

lemma variable_length_wrapped:
  assumes "ready p" and "pending p = hdr @ flood" and "length hdr = header_size v" and "hdr \<noteq> []"
    and "read_data_size v hdr = Inr d" and "d \<noteq> 0" and "vl_Absolute_data_size v"
    and "unat (d + vl_ConstatSizeAddition v) < length hdr" and "d + vl_ConstatSizeAddition v \<le> vl_MaxDataSize v"
    and "length hdr \<le> length buf" and "length buf < 2 ^ 63" and "length buf < length hdr + length flood"
  shows "variable_length_recieve rcv v p buf sz = Inl Undefined"
proof -
  let ?h = "vl_PlaceOfDataSize v + vl_SizeOfDataSize v" and ?d = "d + vl_ConstatSizeAddition v"
  obtain p1 where p1: "rcv p buf 0 (unat ?h) = Inr (length hdr, overwrite buf 0 hdr, NO_ERRORS, p1)" "ready p1"
    "pending p1 = flood"
    using enough[OF assms(1), of "length hdr" 0 buf] assms(2,3,10) by (auto simp: header_size_def)
  have rd: "read_data_size v (overwrite buf 0 hdr) = Inr d"
    using read_data_size_append[OF assms(5)] by (simp add: overwrite_def)
  have h: "?h = of_nat (length hdr)" "unat ?h = length hdr" using assms(3) by (simp_all add: header_size_def)
  have pl: "payload_size v d + ?h = ?d" using assms(7) by (simp add: payload_size_def)
  have "unat (payload_size v d) = 2 ^ 64 + unat ?d - length hdr"
    using assms(7,8,10,11) h(2) by (simp add: payload_size_def unat_sub_if_size word_size)
  then have big: "length buf < length hdr + unat (payload_size v d)" using assms(10,11) by simp
  have "rcv p1 (overwrite buf 0 hdr) (length hdr) (unat (payload_size v d)) = Inl Undefined"
    using overrun[OF p1(2), of "length hdr" "overwrite buf 0 hdr"] big p1(3) assms(10,12) by simp
  moreover have "(of_nat (length hdr) :: size_t) \<noteq> ?d" using assms(8) h by auto
  ultimately show ?thesis
    using p1(1) rd assms(4,6,9) pl h by (simp add: variable_length_recieve_payload Let_def not_less)
qed

lemma find_start_finds:
  assumes "ready p" and "pending p = ys @ rest" and "ys \<noteq> []" and "\<forall>d. d \<in> set ds \<longrightarrow> d \<noteq> []"
    and "\<forall>k d. 0 < k \<and> k < length ys \<and> d \<in> set ds \<longrightarrow> \<not> closes d (xs @ take k ys)"
    and "i < length ds" and "closes (ds ! i) (xs @ ys)" and "\<forall>j. j < i \<longrightarrow> \<not> closes (ds ! j) (xs @ ys)"
  shows "\<exists>p'. find_start rcv u ds (map (\<lambda>d. shift_left (window d xs)) ds) p = Some (Inr (Inr (i, ds ! i), p')) \<and>
           ready p' \<and> pending p' = rest"
  using assms
proof (induction ys arbitrary: xs p)
  case (Cons c ys)
  obtain p1 where p1: "rcv p [u] 0 1 = Inr (1, [c], NO_ERRORS, p1)" "ready p1" "pending p1 = ys @ rest"
    using one_byte[OF Cons.prems(1)] Cons.prems(2) by auto
  let ?f = "\<lambda>d. window d (xs @ [c])"
  have put: "map (put_last c) (map (\<lambda>d. shift_left (window d xs)) ds) = map ?f ds"
    using Cons.prems(4) by (simp add: put_last_shift)
  show ?case
  proof (cases "ys = []")
    case True
    with Cons.prems(6-8) obtain ws where "scan_windows 0 ds (map ?f ds) = (Some i, ws)" "ws ! i = ds ! i"
      using scan_windows_first[of i ds ?f 0] by (auto simp: closes_window)
    then show ?thesis using p1 True by (subst find_start.simps) (simp add: put del: map_map)
  next
    case False
    have "\<not> closes d (xs @ [c])" if "d \<in> set ds" for d
      using Cons.prems(5)[rule_format, of 1 d] that False by (cases ys) auto
    then have "scan_windows 0 ds (map ?f ds) = (None, map (\<lambda>d. shift_left (window d (xs @ [c]))) ds)"
      by (intro scan_windows_none) (auto simp: closes_window)
    moreover have "\<forall>k d. 0 < k \<and> k < length ys \<and> d \<in> set ds \<longrightarrow> \<not> closes d ((xs @ [c]) @ take k ys)"
    proof (intro allI impI)
      fix k d assume "0 < k \<and> k < length ys \<and> d \<in> set ds"
      then show "\<not> closes d ((xs @ [c]) @ take k ys)" using Cons.prems(5)[rule_format, of "Suc k" d] by simp
    qed
    ultimately show ?thesis
      using Cons.IH[OF p1(2,3) False Cons.prems(4), of "xs @ [c]"] Cons.prems(6-8) p1
      by (subst find_start.simps) (simp add: put del: map_map)
  qed
qed simp

lemma find_end_finds:
  assumes "ready p" and "pending p = ys @ rest" and "ys \<noteq> []" and "d \<noteq> []"
    and "\<forall>k. 0 < k \<and> k < length ys \<longrightarrow> \<not> closes d (xs @ take k ys)" and "closes d (xs @ ys)"
    and "n + length ys \<le> sz" and "sz \<le> length buf"
  shows "\<exists>p'. find_end rcv u d (shift_left (window d xs)) buf n sz p =
             Some (Inr (n + length ys, overwrite buf n ys, NO_ERRORS, p')) \<and> ready p' \<and> pending p' = rest"
  using assms
proof (induction ys arbitrary: xs p buf n)
  case (Cons c ys)
  obtain p1 where p1: "rcv p [u] 0 1 = Inr (1, [c], NO_ERRORS, p1)" "ready p1" "pending p1 = ys @ rest"
    using one_byte[OF Cons.prems(1)] Cons.prems(2) by auto
  have put: "put_last c (shift_left (window d xs)) = window d (xs @ [c])"
    using Cons.prems(4) by (simp add: put_last_shift)
  have w: "n < sz" "mem_write buf n [c] = Inr (overwrite buf n [c])"
    using Cons.prems(7,8) by (simp_all add: mem_write_overwrite)
  show ?case
  proof (cases "ys = []")
    case True
    then show ?thesis using p1 put w Cons.prems(6) by (subst find_end.simps) (simp add: closes_window)
  next
    case False
    have "\<not> closes d (xs @ [c])"
      using Cons.prems(5)[rule_format, of 1] False by (cases ys) auto
    moreover have "\<forall>k. 0 < k \<and> k < length ys \<longrightarrow> \<not> closes d ((xs @ [c]) @ take k ys)"
    proof (intro allI impI)
      fix k assume "0 < k \<and> k < length ys"
      then show "\<not> closes d ((xs @ [c]) @ take k ys)" using Cons.prems(5)[rule_format, of "Suc k"] by simp
    qed
    moreover have "overwrite (overwrite buf n [c]) (Suc n) ys = overwrite buf n (c # ys)"
      using overwrite_append[of n "[c]" ys buf] Cons.prems(7,8) by simp
    ultimately show ?thesis
      using Cons.IH[OF p1(2,3) False Cons.prems(4), of "xs @ [c]" "Suc n" "overwrite buf n [c]"] Cons.prems(6-8) p1 put w
      by (subst find_end.simps) (simp add: closes_window)
  qed
qed simp

lemma delimiter_frame_finds:
  assumes "ready p" and "pending p = xs @ ys @ rest" and "xs \<noteq> []" and "ys \<noteq> []"
    and "\<forall>d. d \<in> set couples \<longrightarrow> fst d \<noteq> [] \<and> snd d \<noteq> []" and "i < length couples"
    and "\<forall>k d. 0 < k \<and> k < length xs \<and> d \<in> set couples \<longrightarrow> \<not> closes (fst d) (take k xs)"
    and "closes (fst (couples ! i)) xs" and "\<forall>j. j < i \<longrightarrow> \<not> closes (fst (couples ! j)) xs"
    and "\<forall>k. 0 < k \<and> k < length ys \<longrightarrow> \<not> closes (snd (couples ! i)) (take k ys)"
    and "closes (snd (couples ! i)) ys"
    and "length (fst (couples ! i) @ ys) \<le> sz" and "sz \<le> length buf"
  shows "\<exists>p'. delimiter_recieve rcv u couples p buf sz =
           Some (Inr (length (fst (couples ! i) @ ys), overwrite buf 0 (fst (couples ! i) @ ys), NO_ERRORS, p')) \<and>
         ready p' \<and> pending p' = rest"
proof -
  let ?ds = "map fst couples" and ?s = "fst (couples ! i)" and ?e = "snd (couples ! i)"
  have ne: "?s \<noteq> []" "?e \<noteq> []" using assms(5)[rule_format, OF nth_mem[OF assms(6)]] by auto
  have nth: "?ds ! j = fst (couples ! j)" if "j \<le> i" for j using that assms(6) by simp
  have pre: "\<forall>d. d \<in> set ?ds \<longrightarrow> d \<noteq> []" using assms(5) by fastforce
  have pre2: "\<forall>k d. 0 < k \<and> k < length xs \<and> d \<in> set ?ds \<longrightarrow> \<not> closes d ([] @ take k xs)"
    using assms(7) by fastforce
  have fresh: "map (fresh_window \<circ> fst) couples = map (\<lambda>d. shift_left (window d [])) ?ds"
    using assms(5) by (auto simp: fresh_window_shift)
  obtain p1 where p1: "find_start rcv u ?ds (map (\<lambda>d. shift_left (window d [])) ?ds) p = Some (Inr (Inr (i, ?s), p1))"
    "ready p1" "pending p1 = ys @ rest"
    using find_start_finds[OF assms(1-3) pre, of "[]" i u] pre2 assms(6,8,9) nth by (auto simp del: map_map)
  obtain p2 where p2: "find_end rcv u ?e (shift_left (window ?e [])) (overwrite buf 0 ?s) (length ?s) sz p1 =
      Some (Inr (length ?s + length ys, overwrite (overwrite buf 0 ?s) (length ?s) ys, NO_ERRORS, p2))"
    "ready p2" "pending p2 = rest"
    using find_end_finds[OF p1(2,3) assms(4) ne(2), of "[]" "length ?s" sz "overwrite buf 0 ?s" u] assms(10-13) by auto
  have "mem_write buf 0 ?s = Inr (overwrite buf 0 ?s)" using assms(12,13) by (simp add: mem_write_overwrite)
  then show ?thesis
    using p1(1) p2 overwrite_append[of 0 ?s ys buf] assms(12,13)
    by (simp add: delimiter_recieve_def fresh fresh_window_shift[OF ne(2)] del: map_map)
qed

lemma delimiter_start_overflows:
  assumes "ready p" and "pending p = xs @ rest" and "xs \<noteq> []" and "s \<noteq> []"
    and "\<forall>k. 0 < k \<and> k < length xs \<longrightarrow> \<not> closes s (take k xs)" and "closes s xs" and "length buf < length s"
  shows "delimiter_recieve rcv u [(s, e)] p buf sz = Some (Inl Undefined)"
proof -
  obtain p1 where "find_start rcv u [s] (map (\<lambda>d. shift_left (window d [])) [s]) p = Some (Inr (Inr (0, s), p1))"
    using find_start_finds[OF assms(1-3), of "[s]" "[]" 0 u] assms(4-6) by auto
  then show ?thesis
    using assms(7) by (simp add: delimiter_recieve_def fresh_window_shift[OF assms(4)] mem_write_def)
qed

lemma find_start_returns:
  assumes "ready p"
  shows "\<exists>r p'. find_start rcv u ds ws p = Some (Inr (r, p')) \<and> ready p'"
  using assms
proof (induction "pending p" arbitrary: ws p)
  case Nil
  obtain err p1 where "rcv p [u] 0 1 = Inr (0, [u], err, p1)" "err \<noteq> NO_ERRORS" "ready p1"
    using no_byte[OF Nil.prems] Nil.hyps by metis
  then show ?case by (subst find_start.simps) simp
next
  case (Cons c cs)
  obtain p1 where p1: "rcv p [u] 0 1 = Inr (1, [c], NO_ERRORS, p1)" "ready p1" "pending p1 = cs"
    using one_byte[OF Cons.prems] Cons.hyps(2) by metis
  obtain r ws' where "scan_windows 0 ds (map (put_last c) ws) = (r, ws')" by fastforce
  then show ?case
    using p1 Cons.hyps(1)[OF p1(3)[symmetric] p1(2), of ws'] by (subst find_start.simps) (auto split: option.splits)
qed

lemma find_end_returns:
  assumes "ready p"
  shows "\<exists>r. find_end rcv u d w buf n sz p = Some r"
  using assms
proof (induction "pending p" arbitrary: w buf n p)
  case Nil
  obtain err p1 where "rcv p [u] 0 1 = Inr (0, [u], err, p1)" "err \<noteq> NO_ERRORS" "ready p1"
    using no_byte[OF Nil.prems] Nil.hyps by metis
  then show ?case by (subst find_end.simps) simp
next
  case (Cons c cs)
  obtain p1 where p1: "rcv p [u] 0 1 = Inr (1, [c], NO_ERRORS, p1)" "ready p1" "pending p1 = cs"
    using one_byte[OF Cons.prems] Cons.hyps(2) by metis
  show ?case
    using p1 Cons.hyps(1)[OF p1(3)[symmetric] p1(2)]
    by (subst find_end.simps) (auto simp: Let_def split: sum.splits)
qed

lemma delimiter_returns:
  assumes "ready p"
  shows "\<exists>r. delimiter_recieve rcv u couples p buf sz = Some r"
proof -
  obtain r p1 where "find_start rcv u (map fst couples) (map (fresh_window \<circ> fst) couples) p = Some (Inr (r, p1))" "ready p1"
    using find_start_returns[OF assms] by blast
  then show ?thesis
    using find_end_returns by (auto simp: delimiter_recieve_def split: sum.splits)
qed

end

interpretation tcp: channel "\<lambda>p. stream_socket receive incoming" "\<lambda>p. incoming (tp_socket p)" "tcp_recieve receive"
  for receive incoming
proof (unfold_locales, goal_cases)
  case (1 p n off buf)
  then show ?case using tcp_loop_enough[of receive incoming 0 n n 0 p off buf] by (auto simp: tcp_recieve_def)
next
  case (2 p n off buf)
  then show ?case using tcp_loop_short[of receive incoming 0 n n p off buf 0] by (auto simp: tcp_recieve_def)
next
  case (3 p off buf n)
  then show ?case using tcp_loop_overrun[of receive incoming 0 n n off buf p 0] by (simp add: tcp_recieve_def)
qed

section \<open>A socket that delivers segments\<close>

text \<open>A concrete socket: segments of any sizes, then end of file (code 2).\<close>

fun segments_receive :: "bytes list receiver" where
  "segments_receive n [] = ([], 2, [])"
| "segments_receive n (seg # segs) =
     (if seg = [] then segments_receive n segs else (take n seg, 0, drop n seg # segs))"

lemma segments_stream: "stream_socket segments_receive concat"
proof -
  have "length bs \<le> n \<and> concat sk = bs @ concat sk' \<and> (bs \<noteq> [] \<longrightarrow> ec = 0) \<and>
      (0 < n \<and> bs = [] \<longrightarrow> concat sk = [] \<and> ec \<noteq> 0)"
    if "segments_receive n sk = (bs, ec, sk')" for n sk bs ec sk'
    using that by (induction n sk rule: segments_receive.induct) (auto split: if_splits)
  then show ?thesis unfolding stream_socket_def by blast
qed

definition sample_port :: "bytes list \<Rightarrow> bytes list tcp_client_port" where
  "sample_port segs = \<lparr>tp_socket = segs, tp_status = CONNECTED\<rparr>"

lemma sample_port_socket [simp]: "tp_socket (sample_port segs) = segs"
  by (simp add: sample_port_def)

section \<open>Properties\<close>

text \<open>C37. However the network cuts the stream into segments, \<^verbatim>\<open>recieve\<close> of the TCP port puts exactly the next
  \<open>n\<close> bytes of the stream into the caller's buffer and keeps the rest for the next call; when the
  stream ends before, it returns 0 with an error and the port is disconnected.\<close>

theorem tcp_reassembles:
  assumes "stream_socket receive incoming" and "off + n \<le> length buf"
  shows "if n \<le> length (incoming (tp_socket p))
         then \<exists>p'. tcp_recieve receive p buf off n = Inr (n, overwrite buf off (take n (incoming (tp_socket p))), NO_ERRORS, p') \<and>
                incoming (tp_socket p') = drop n (incoming (tp_socket p)) \<and> tp_status p' = tp_status p
         else \<exists>buf' err p'. tcp_recieve receive p buf off n = Inr (0, buf', err, p') \<and> err \<noteq> NO_ERRORS \<and>
                length buf' = length buf \<and> tp_status p' = DISCONNECTED"
  using tcp_loop_enough[of receive incoming 0 n n 0 p off buf] tcp_loop_short[of receive incoming 0 n n p off buf 0] assms
  by (auto simp: tcp_recieve_def)

theorem tcp_reassembles_witness:
  "(\<exists>p'. tcp_recieve segments_receive (sample_port [[1], [], [2, 3, 4]]) [0, 0, 0] 0 3 = Inr (3, [1, 2, 3], NO_ERRORS, p')) \<and>
   (\<exists>buf err p'. tcp_recieve segments_receive (sample_port [[1]]) [0, 0, 0] 0 3 = Inr (0, buf, err, p') \<and> err \<noteq> NO_ERRORS)"
  using tcp_reassembles[OF segments_stream, of 0 3 "[0, 0, 0]" "sample_port [[1], [], [2, 3, 4]]"]
    tcp_reassembles[OF segments_stream, of 0 3 "[0, 0, 0]" "sample_port [[1]]"]
  by (auto simp: overwrite_def numeral_3_eq_3)


definition sample_variable :: "bool \<Rightarrow> variable_length_protocol" where
  "sample_variable absolute =
     \<lparr>vl_SizeOfDataSize = 2, vl_PlaceOfDataSize = 1, vl_ConstatSizeAddition = 0,
      vl_Absolute_data_size = absolute, vl_MaxDataSize = 16, vl_EndianMismatch = False\<rparr>"


text \<open>With an absolute size field, a header that announces less than its own length passes the size test,
  since the subtraction wraps around at 64 bits and the test adds the header again: the port is asked
  for almost \<open>2 ^ 64\<close> bytes and what the peer goes on sending is written behind the caller's buffer.\<close>

theorem variable_length_underflow_overruns:
  assumes "stream_socket receive incoming" and "incoming (tp_socket p) = hdr @ flood"
    and "length hdr = header_size v" and "hdr \<noteq> []"
    and "read_data_size v hdr = Inr d" and "d \<noteq> 0" and "vl_Absolute_data_size v"
    and "unat (d + vl_ConstatSizeAddition v) < length hdr" and "d + vl_ConstatSizeAddition v \<le> vl_MaxDataSize v"
    and "length hdr \<le> length buf" and "length buf < 2 ^ 63" and "length buf < length hdr + length flood"
  shows "variable_length_recieve (tcp_recieve receive) v p buf sz = Inl Undefined"
  using tcp.variable_length_wrapped[OF assms] .

theorem variable_length_underflow_overruns_witness:
  "variable_length_recieve (tcp_recieve segments_receive) (sample_variable True) (sample_port [[7, 1, 0, 8, 9]])
     [0, 0, 0, 0] 4 = Inl Undefined"
proof -
  have "read_data_size (sample_variable True) [7, 1, 0] = Inr 1"
    by (simp add: read_data_size_def sample_variable_def mem_read_def word16_of_def)
  moreover have "header_size (sample_variable True) = 3"
    by (simp add: header_size_def sample_variable_def)
  ultimately show ?thesis
    using variable_length_underflow_overruns[OF segments_stream, of "sample_port [[7, 1, 0, 8, 9]]" "[7, 1, 0]" "[8, 9]"
        "sample_variable True" 1 "[0, 0, 0, 0]" 4]
    by (simp add: sample_variable_def)
qed

text \<open>C38. The delimiter protocol over TCP: bytes up to the first start delimiter of any couple are skipped, then
  everything up to and including the first end delimiter of that couple is delivered, start and end
  delimiter included, and what follows is left for the next call. A delimiter is found where it is a
  suffix of the bytes read so far, preceded by as many blanks as it has characters.\<close>

theorem delimiter_frame_received:
  assumes "stream_socket receive incoming" and "incoming (tp_socket p) = xs @ ys @ rest" and "xs \<noteq> []" and "ys \<noteq> []"
    and "delimiter_protocol_create (Some couples) = Some couples" and "i < length couples"
    and "\<forall>k d. 0 < k \<and> k < length xs \<and> d \<in> set couples \<longrightarrow> \<not> closes (fst d) (take k xs)"
    and "closes (fst (couples ! i)) xs" and "\<forall>j. j < i \<longrightarrow> \<not> closes (fst (couples ! j)) xs"
    and "\<forall>k. 0 < k \<and> k < length ys \<longrightarrow> \<not> closes (snd (couples ! i)) (take k ys)"
    and "closes (snd (couples ! i)) ys"
    and "length (fst (couples ! i) @ ys) \<le> sz" and "sz \<le> length buf"
  shows "\<exists>p'. delimiter_recieve (tcp_recieve receive) u couples p buf sz =
           Some (Inr (length (fst (couples ! i) @ ys), overwrite buf 0 (fst (couples ! i) @ ys), NO_ERRORS, p')) \<and>
         incoming (tp_socket p') = rest"
proof -
  have "\<forall>d. d \<in> set couples \<longrightarrow> fst d \<noteq> [] \<and> snd d \<noteq> []"
    using assms(5) by (auto simp: delimiter_protocol_create_def split: if_splits)
  from tcp.delimiter_frame_finds[OF assms(1-4) this assms(6-13), of u] show ?thesis by blast
qed

theorem delimiter_frame_received_witness:
  "\<exists>p'. delimiter_recieve (tcp_recieve segments_receive) 0 [([36], [13, 10])] (sample_port [[1, 36, 7], [13, 10, 5]])
          [0, 0, 0, 0] 4 = Some (Inr (4, [36, 7, 13, 10], NO_ERRORS, p')) \<and> concat (tp_socket p') = [5]"
proof -
  have "closes [36] [1, 36]" "\<not> closes [36] [1]" "closes [13, 10] [7, 13, 10]"
    "\<not> closes [13, 10] [7]" "\<not> closes [13, 10] [7, 13]"
    by (simp_all add: closes_window window_def blank_def)
  moreover have "\<forall>k. 0 < k \<and> k < length [1 :: byte, 36] \<longrightarrow> k = 1"
    "\<forall>k. 0 < k \<and> k < length [7 :: byte, 13, 10] \<longrightarrow> k = 1 \<or> k = 2" by auto
  ultimately show ?thesis
    using delimiter_frame_received[OF segments_stream, of "sample_port [[1, 36, 7], [13, 10, 5]]" "[1, 36]" "[7, 13, 10]" "[5]"
        "[([36], [13, 10])]" 0 4 "[0, 0, 0, 0]" 0]
    by (fastforce simp: delimiter_protocol_create_def overwrite_def)
qed

text \<open>Receiving with delimiters always returns, over every stream that ends: with a frame, with 0 and an
  error, or by leaving the buffer.\<close>

theorem delimiter_receive_returns:
  assumes "stream_socket receive incoming"
  shows "\<exists>r. delimiter_recieve (tcp_recieve receive) u couples p buf sz = Some r"
  using tcp.delimiter_returns[OF assms] .

theorem delimiter_receive_returns_witness:
  "\<exists>r. delimiter_recieve (tcp_recieve segments_receive) 0 [([36], [13])] (sample_port [[1, 36], [7]]) [0] 1 = Some r"
  by (rule delimiter_receive_returns[OF segments_stream])

text \<open>The start delimiter is copied without a test of the caller's size: a buffer shorter than it is
  overrun as soon as the delimiter arrives, whatever size was passed.\<close>

theorem delimiter_start_unchecked:
  assumes "stream_socket receive incoming" and "incoming (tp_socket p) = xs @ rest" and "s \<noteq> []" and "hd s \<noteq> blank"
    and "suffix s xs" and "\<forall>k. k < length xs \<longrightarrow> \<not> suffix s (take k xs)" and "length buf < length s"
  shows "delimiter_recieve (tcp_recieve receive) u [(s, e)] p buf sz = Some (Inl Undefined)"
proof -
  have "xs \<noteq> []" using assms(3,5) by auto
  from tcp.delimiter_start_overflows[OF assms(1,2) this assms(3) _ _ assms(7)] closes_suffix[OF assms(3,4)] assms(5,6)
  show ?thesis by simp
qed

theorem delimiter_start_unchecked_witness:
  "delimiter_recieve (tcp_recieve segments_receive) 0 [([36, 37], [13])] (sample_port [[36], [37, 5]]) [0] 1 = Some (Inl Undefined)"
proof -
  have "\<not> suffix [36, 37 :: byte] (take k [36, 37])" if "k < length [36, 37 :: byte]" for k
    using that by (auto simp: less_Suc_eq dest: suffix_length_le)
  then show ?thesis
    using delimiter_start_unchecked[OF segments_stream, of "sample_port [[36], [37, 5]]" "[36, 37]" "[5]" "[36, 37]" "[0]" 0 "[13]" 1]
    by (simp add: blank_def)
qed

end
