(* ===== verification/Comm_Channel.thy ===== *)
theory Comm_Channel
  imports Protocols
begin

text \<open>
  Channels with a receiving thread (\<^verbatim>\<open>Include/utils/communication.hpp\<close>): \<^verbatim>\<open>comm_client_channel\<close>, which reads messages in a
  thread of its own and raises signals, and the accepting thread of \<^verbatim>\<open>async_server_channel\<close>.

  The channel below is an interface; each of its calls is one step with any answer that the interface allows, a \<open>response\<close>.
  The only assumption is that \<^verbatim>\<open>recieve\<close> returns no more bytes than it was asked for. The receiving thread and the calls
  of \<^verbatim>\<open>connect\<close> and \<^verbatim>\<open>disconnect\<close> by any number of threads interleave at their accesses to the flag, to the thread object
  and to the channel. A joinable thread object that gets a new thread ends the program, which is \<open>cc_aborted\<close>. The log
  has the calls and returns, the messages that arrived and the signals that were raised. Subscribers do not call back.
\<close>

section \<open>The client channel\<close>

datatype comm_event = Data_read bytes | Comm_stat communication_status | Comm_err communication_error

datatype response = Nothing | Status communication_status | Got bytes communication_error | Opened bool

text \<open>Where the receiving thread is: behind the head of the loop it asks for the status; \<open>R_raise\<close> raises signals and goes on.\<close>

datatype recv_phase =
    R_start | R_head | R_switch | R_read | R_reconnect | R_connect | R_single | R_raise "comm_event list" recv_phase | R_end

datatype recv_thread = No_thread | Thread recv_phase communication_error

text \<open>Where a call is. The flag tells whether \<^verbatim>\<open>disconnect\<close> runs inside of \<^verbatim>\<open>connect\<close>; \<open>C_close\<close> also has the result of the exchange.\<close>

datatype call_phase =
    C_idle | C_connect | C_disconnect bool | C_close bool bool | C_join bool | C_reopen | C_flag | C_spawn

datatype comm_log =
    Connect_call nat | Connect_return nat bool | Disconnect_call nat | Disconnect_return nat
  | Received bytes | Raised comm_event

record comm_client =
  cc_max_message_size :: size_t
  cc_automatic_reconnect :: bool
  cc_thread_is_alive :: bool
  cc_recieving_thread :: recv_thread
  cc_calls :: "nat \<Rightarrow> call_phase"
  cc_aborted :: bool
  cc_log :: "comm_log list"

text \<open>
  The constructor gets the channel, here its status, or no channel. When the channel is connected already, it calls \<^verbatim>\<open>connect\<close>: the call of
  thread 0 is under way then. (Other threads could not use the object before the constructor returns; the steps below let them.)
\<close>

definition comm_client_create :: "size_t \<Rightarrow> communication_status option \<Rightarrow> bool \<Rightarrow> comm_client result" where
  "comm_client_create max_message_size chan automatic_reconnect =
     (if max_message_size = 0 then Inl (Throws (Invalid_argument ''max_message_size''))
      else case chan of
             None \<Rightarrow> Inl (Throws (Invalid_argument ''protocol''))
           | Some status \<Rightarrow>
               Inr \<lparr>cc_max_message_size = max_message_size, cc_automatic_reconnect = automatic_reconnect, cc_thread_is_alive = False,
                    cc_recieving_thread = No_thread, cc_calls = (\<lambda>c. if c = 0 \<and> status = CONNECTED then C_connect else C_idle),
                    cc_aborted = False, cc_log = (if status = CONNECTED then [Connect_call 0] else [])\<rparr>)"

text \<open>The thread function \<^verbatim>\<open>recieve\<close>, with the variable \<^verbatim>\<open>err\<close>.\<close>

fun recieve_next :: "bool \<Rightarrow> bool \<Rightarrow> response \<Rightarrow> recv_phase \<Rightarrow> communication_error \<Rightarrow> (recv_phase \<times> communication_error) option" where
  "recieve_next auto alive (Status st) R_start err = Some (R_raise [Comm_stat st] (if auto then R_head else R_single), err)"
| "recieve_next auto alive Nothing R_head err = Some (if alive then R_switch else R_end, err)"
| "recieve_next auto alive (Status CONNECTED) R_switch err = Some (R_read, err)"
| "recieve_next auto alive (Status DISCONNECTED) R_switch err =
     Some (R_raise [Comm_stat DISCONNECTED, Comm_err err] R_reconnect, err)"
| "recieve_next auto alive (Got bs e) R_read err =
     Some (R_raise ((if bs \<noteq> [] then [Data_read bs] else []) @ [Comm_err e, Comm_stat CONNECTED]) R_head, e)"
| "recieve_next auto alive Nothing R_reconnect err =
     Some (if alive then R_connect else R_raise [Comm_stat CONNECTED] R_head, err)"
| "recieve_next auto alive (Opened ok) R_connect err = Some (if ok then R_raise [Comm_stat CONNECTED] R_head else R_reconnect, err)"
| "recieve_next auto alive (Got bs e) R_single err =
     Some (if bs \<noteq> [] then R_raise [Comm_err e, Comm_stat CONNECTED, Data_read bs] R_single
           else R_raise [Comm_err e, Comm_stat DISCONNECTED] R_end, e)"
| "recieve_next auto alive Nothing (R_raise (ev # evs) k) err = Some (R_raise evs k, err)"
| "recieve_next auto alive Nothing (R_raise [] k) err = Some (k, err)"
| "recieve_next auto alive _ _ err = None"

fun recieve_log :: "response \<Rightarrow> recv_phase \<Rightarrow> comm_log list" where
  "recieve_log (Got bs e) ph = [Received bs]"
| "recieve_log Nothing (R_raise (ev # evs) k) = [Raised ev]"
| "recieve_log _ _ = []"

text \<open>The end of \<^verbatim>\<open>disconnect\<close>: it returns to the caller or to \<^verbatim>\<open>connect\<close>.\<close>

definition disconnect_end :: "nat \<Rightarrow> bool \<Rightarrow> comm_client \<Rightarrow> comm_client" where
  "disconnect_end c inside s =
     (if inside then s\<lparr>cc_calls := (cc_calls s)(c := C_reopen)\<rparr>
      else s\<lparr>cc_calls := (cc_calls s)(c := C_idle), cc_log := cc_log s @ [Disconnect_return c]\<rparr>)"

definition connect_end :: "nat \<Rightarrow> bool \<Rightarrow> comm_client \<Rightarrow> comm_client" where
  "connect_end c ok s = s\<lparr>cc_calls := (cc_calls s)(c := C_idle), cc_log := cc_log s @ [Connect_return c ok]\<rparr>"

fun disconnect_next :: "nat \<Rightarrow> response \<Rightarrow> call_phase \<Rightarrow> comm_client \<Rightarrow> comm_client option" where
  "disconnect_next c Nothing (C_disconnect inside) s =
     Some (s\<lparr>cc_thread_is_alive := False, cc_calls := (cc_calls s)(c := C_close inside (cc_thread_is_alive s))\<rparr>)"
| "disconnect_next c (Opened _) (C_close inside sync) s =
     Some (if sync then s\<lparr>cc_calls := (cc_calls s)(c := C_join inside)\<rparr> else disconnect_end c inside s)"
| "disconnect_next c Nothing (C_join inside) s =
     (case cc_recieving_thread s of
        No_thread \<Rightarrow> Some (disconnect_end c inside s)
      | Thread ph _ \<Rightarrow> if ph = R_end then Some (disconnect_end c inside (s\<lparr>cc_recieving_thread := No_thread\<rparr>)) else None)"
| "disconnect_next c _ _ s = None"

fun connect_next :: "nat \<Rightarrow> response \<Rightarrow> call_phase \<Rightarrow> comm_client \<Rightarrow> comm_client option" where
  "connect_next c Nothing C_connect s =
     (if cc_automatic_reconnect s then Some (s\<lparr>cc_calls := (cc_calls s)(c := C_flag)\<rparr>) else None)"
| "connect_next c (Status st) C_connect s =
     (if cc_automatic_reconnect s then None
      else Some (s\<lparr>cc_calls := (cc_calls s)(c := (if st \<noteq> CONNECTED then C_disconnect True else C_flag))\<rparr>))"
| "connect_next c (Opened ok) C_reopen s = Some (if ok then s\<lparr>cc_calls := (cc_calls s)(c := C_flag)\<rparr> else connect_end c False s)"
| "connect_next c Nothing C_flag s =
     Some (if cc_thread_is_alive s then connect_end c True s
           else s\<lparr>cc_thread_is_alive := True, cc_calls := (cc_calls s)(c := C_spawn)\<rparr>)"
| "connect_next c Nothing C_spawn s =
     Some (if cc_recieving_thread s \<noteq> No_thread then s\<lparr>cc_aborted := True\<rparr>
           else connect_end c True (s\<lparr>cc_recieving_thread := Thread R_start NO_ERRORS\<rparr>))"
| "connect_next c _ _ s = None"

definition response_ok :: "size_t \<Rightarrow> response \<Rightarrow> bool" where
  "response_ok n resp \<longleftrightarrow> (\<forall>bs e. resp = Got bs e \<longrightarrow> length bs \<le> unat n)"

inductive comm_step :: "nat set \<Rightarrow> comm_client \<Rightarrow> comm_client \<Rightarrow> bool" for C where
  recieves: "\<not> cc_aborted s \<Longrightarrow> cc_recieving_thread s = Thread ph err \<Longrightarrow> response_ok (cc_max_message_size s) resp \<Longrightarrow>
     recieve_next (cc_automatic_reconnect s) (cc_thread_is_alive s) resp ph err = Some (ph', err') \<Longrightarrow>
     comm_step C s (s\<lparr>cc_recieving_thread := Thread ph' err', cc_log := cc_log s @ recieve_log resp ph\<rparr>)"
| connect: "\<not> cc_aborted s \<Longrightarrow> c \<in> C \<Longrightarrow> cc_calls s c = C_idle \<Longrightarrow>
     comm_step C s (s\<lparr>cc_calls := (cc_calls s)(c := C_connect), cc_log := cc_log s @ [Connect_call c]\<rparr>)"
| disconnect: "\<not> cc_aborted s \<Longrightarrow> c \<in> C \<Longrightarrow> cc_calls s c = C_idle \<Longrightarrow>
     comm_step C s (s\<lparr>cc_calls := (cc_calls s)(c := C_disconnect False), cc_log := cc_log s @ [Disconnect_call c]\<rparr>)"
| connects: "\<not> cc_aborted s \<Longrightarrow> connect_next c resp (cc_calls s c) s = Some s' \<Longrightarrow> comm_step C s s'"
| disconnects: "\<not> cc_aborted s \<Longrightarrow> disconnect_next c resp (cc_calls s c) s = Some s' \<Longrightarrow> comm_step C s s'"

inductive comm_reach :: "nat set \<Rightarrow> comm_client \<Rightarrow> comm_client \<Rightarrow> bool" for C where
  reach_start: "comm_reach C s s"
| reach_step: "comm_reach C s0 s \<Longrightarrow> comm_step C s s' \<Longrightarrow> comm_reach C s0 s'"

text \<open>Sending: \<open>sent\<close> is the answer of the channel.\<close>

definition comm_send :: "(bytes \<Rightarrow> nat) \<Rightarrow> bytes option \<Rightarrow> size_t \<Rightarrow> comm_client \<Rightarrow> bool" where
  "comm_send sent buffer n s =
     (case buffer of
        None \<Rightarrow> False
      | Some bs \<Rightarrow> if n = 0 \<or> cc_max_message_size s < n then False else 0 < sent (take (unat n) bs))"

text \<open>The reader that subscribers get: it copies exactly a value of \<open>k\<close> bytes, or refers to one at the start of the message.\<close>

definition reader_read_to :: "nat \<Rightarrow> bytes \<Rightarrow> bytes result" where
  "reader_read_to k bs =
     (if length bs \<noteq> k then Inl (Throws (Runtime_error ''Reading size mismatch. Wrong data type?'')) else mem_read bs 0 k)"

definition reader_read :: "nat \<Rightarrow> bytes \<Rightarrow> bytes result" where
  "reader_read k bs =
     (if length bs < k then Inl (Throws (Runtime_error ''Reading size mismatch. Wrong data type?'')) else mem_read bs 0 k)"

section \<open>Runs\<close>

text \<open>A run as data: which thread moves and what the channel answers.\<close>

datatype move = Recv response | Call_connect nat | Call_disconnect nat | In_connect nat response | In_disconnect nat response

fun comm_move :: "nat set \<Rightarrow> move \<Rightarrow> comm_client \<Rightarrow> comm_client option" where
  "comm_move C (Recv resp) s =
     (case cc_recieving_thread s of
        No_thread \<Rightarrow> None
      | Thread ph err \<Rightarrow>
          if response_ok (cc_max_message_size s) resp
          then (case recieve_next (cc_automatic_reconnect s) (cc_thread_is_alive s) resp ph err of
                  None \<Rightarrow> None
                | Some (ph', err') \<Rightarrow> Some (s\<lparr>cc_recieving_thread := Thread ph' err', cc_log := cc_log s @ recieve_log resp ph\<rparr>))
          else None)"
| "comm_move C (Call_connect c) s =
     (if c \<in> C \<and> cc_calls s c = C_idle
      then Some (s\<lparr>cc_calls := (cc_calls s)(c := C_connect), cc_log := cc_log s @ [Connect_call c]\<rparr>) else None)"
| "comm_move C (Call_disconnect c) s =
     (if c \<in> C \<and> cc_calls s c = C_idle
      then Some (s\<lparr>cc_calls := (cc_calls s)(c := C_disconnect False), cc_log := cc_log s @ [Disconnect_call c]\<rparr>) else None)"
| "comm_move C (In_connect c resp) s = connect_next c resp (cc_calls s c) s"
| "comm_move C (In_disconnect c resp) s = disconnect_next c resp (cc_calls s c) s"

fun comm_run :: "nat set \<Rightarrow> move list \<Rightarrow> comm_client \<Rightarrow> comm_client option" where
  "comm_run C [] s = Some s"
| "comm_run C (m # ms) s =
     (if cc_aborted s then None else case comm_move C m s of None \<Rightarrow> None | Some s' \<Rightarrow> comm_run C ms s')"

lemma comm_move_step: "\<not> cc_aborted s \<Longrightarrow> comm_move C m s = Some s' \<Longrightarrow> comm_step C s s'"
  by (cases m) (auto intro: comm_step.intros split: recv_thread.splits if_splits option.splits)

lemma comm_run_reach: "comm_run C ms s = Some s' \<Longrightarrow> comm_reach C s0 s \<Longrightarrow> comm_reach C s0 s'"
  by (induction C ms s rule: comm_run.induct) (auto intro: comm_move_step reach_step split: if_splits option.splits)

section \<open>One thread calls\<close>

text \<open>Whether the last call that completed or began was a \<^verbatim>\<open>disconnect\<close> that returned.\<close>

definition closed :: "comm_log list \<Rightarrow> bool" where
  "closed l = fold (\<lambda>x b. case x of Disconnect_return _ \<Rightarrow> True | Connect_call _ \<Rightarrow> False | _ \<Rightarrow> b) l False"

lemma closed_append [simp]: "closed (l @ [x]) = (case x of Disconnect_return _ \<Rightarrow> True | Connect_call _ \<Rightarrow> False | _ \<Rightarrow> closed l)"
  by (cases x) (simp_all add: closed_def)

lemma closed_Nil [simp]: "\<not> closed []"
  by (simp add: closed_def)

definition quiet :: "comm_log list \<Rightarrow> bool" where
  "quiet l \<longleftrightarrow> (\<forall>l1 e l2. l = l1 @ Raised e # l2 \<longrightarrow> \<not> closed l1)"

lemma quiet_append [simp]: "quiet (l @ [x]) \<longleftrightarrow> quiet l \<and> (\<forall>e. x = Raised e \<longrightarrow> \<not> closed l)"
proof
  assume q: "quiet (l @ [x])"
  have "\<not> closed l1" if "l = l1 @ Raised e # l2" for l1 e l2
    using q[unfolded quiet_def, rule_format, of l1 e "l2 @ [x]"] that by simp
  moreover have "\<not> closed l" if "x = Raised e" for e
    using q[unfolded quiet_def, rule_format, of l e "[]"] that by simp
  ultimately show "quiet l \<and> (\<forall>e. x = Raised e \<longrightarrow> \<not> closed l)" by (simp add: quiet_def)
next
  assume q: "quiet l \<and> (\<forall>e. x = Raised e \<longrightarrow> \<not> closed l)"
  have "\<not> closed l1" if "l @ [x] = l1 @ Raised e # l2" for l1 e l2
    using that q by (cases l2 rule: rev_cases) (auto simp: quiet_def)
  then show "quiet (l @ [x])" by (simp add: quiet_def)
qed

lemma quiet_Nil [simp]: "quiet []"
  by (simp add: quiet_def)

definition phase_ok :: "call_phase \<Rightarrow> bool \<Rightarrow> bool \<Rightarrow> bool" where
  "phase_ok ph alive thread \<longleftrightarrow>
     (case ph of
        C_spawn \<Rightarrow> alive \<and> \<not> thread
      | C_close _ sync \<Rightarrow> \<not> alive \<and> thread = sync
      | C_join _ \<Rightarrow> \<not> alive \<and> thread
      | _ \<Rightarrow> alive = thread)"

definition one_caller :: "comm_client \<Rightarrow> bool" where
  "one_caller s \<longleftrightarrow>
     \<not> cc_aborted s \<and> (\<forall>c. c \<noteq> 0 \<longrightarrow> cc_calls s c = C_idle) \<and>
     phase_ok (cc_calls s 0) (cc_thread_is_alive s) (cc_recieving_thread s \<noteq> No_thread) \<and>
     (closed (cc_log s) \<longrightarrow> cc_recieving_thread s = No_thread \<and> cc_calls s 0 \<in> {C_idle, C_disconnect False, C_close False False}) \<and>
     quiet (cc_log s)"

lemma one_caller_other: "one_caller s \<Longrightarrow> cc_calls s c \<noteq> C_idle \<Longrightarrow> c = 0"
  by (auto simp: one_caller_def)

lemma connect_one_caller:
  assumes "one_caller s" and "connect_next c resp (cc_calls s c) s = Some s'"
  shows "one_caller s'"
proof -
  have "cc_calls s c \<noteq> C_idle" using assms(2) by auto
  then have "c = 0" using assms(1) one_caller_other by blast
  with assms show ?thesis
    by (cases "(c, resp, cc_calls s c, s)" rule: connect_next.cases)
      (auto simp: connect_end_def one_caller_def phase_ok_def split: if_splits)
qed

lemma disconnect_one_caller:
  assumes "one_caller s" and "disconnect_next c resp (cc_calls s c) s = Some s'"
  shows "one_caller s'"
proof -
  have "cc_calls s c \<noteq> C_idle" using assms(2) by auto
  then have "c = 0" using assms(1) one_caller_other by blast
  with assms show ?thesis
    by (cases "(c, resp, cc_calls s c, s)" rule: disconnect_next.cases)
      (auto simp: disconnect_end_def one_caller_def phase_ok_def split: if_splits recv_thread.splits)
qed

lemma recieve_one_caller:
  assumes "one_caller s" and "cc_recieving_thread s = Thread ph err"
  shows "one_caller (s\<lparr>cc_recieving_thread := Thread ph' err', cc_log := cc_log s @ recieve_log resp ph\<rparr>)"
  using assms by (cases "(resp, ph)" rule: recieve_log.cases) (auto simp: one_caller_def)

lemma step_one_caller:
  assumes "comm_step {0} s s'" and "one_caller s"
  shows "one_caller s'"
  using assms
proof (cases rule: comm_step.cases)
  case (recieves ph err resp ph' err')
  with recieve_one_caller assms(2) show ?thesis by simp
next
  case (connects c resp)
  with connect_one_caller assms(2) show ?thesis by blast
next
  case (disconnects c resp)
  with disconnect_one_caller assms(2) show ?thesis by blast
qed (auto simp: one_caller_def phase_ok_def)

lemma reach_one_caller: "comm_reach {0} s0 s \<Longrightarrow> one_caller s0 \<Longrightarrow> one_caller s"
  by (induction rule: comm_reach.induct) (auto intro: step_one_caller)

lemma create_one_caller: "comm_client_create n chan auto = Inr s \<Longrightarrow> one_caller s"
  by (auto simp: comm_client_create_def one_caller_def phase_ok_def quiet_def closed_def Cons_eq_append_conv split: if_splits option.splits)


section \<open>Messages\<close>

fun event_data :: "comm_event \<Rightarrow> bytes list" where
  "event_data (Data_read bs) = [bs]"
| "event_data _ = []"

definition raised_data :: "comm_log list \<Rightarrow> bytes list" where
  "raised_data l = concat (map (\<lambda>x. case x of Raised e \<Rightarrow> event_data e | _ \<Rightarrow> []) l)"

definition received_data :: "comm_log list \<Rightarrow> bytes list" where
  "received_data l = concat (map (\<lambda>x. case x of Received bs \<Rightarrow> if bs = [] then [] else [bs] | _ \<Rightarrow> []) l)"

lemma data_append [simp]:
  "raised_data (l @ l') = raised_data l @ raised_data l'" "received_data (l @ l') = received_data l @ received_data l'"
  "raised_data [] = []" "received_data [] = []"
  "raised_data (x # l) = (case x of Raised e \<Rightarrow> event_data e | _ \<Rightarrow> []) @ raised_data l"
  "received_data (x # l) = (case x of Received bs \<Rightarrow> if bs = [] then [] else [bs] | _ \<Rightarrow> []) @ received_data l"
  by (simp_all add: raised_data_def received_data_def)

primrec phase_data :: "recv_phase \<Rightarrow> bytes list" where
  "phase_data R_start = []"
| "phase_data R_head = []"
| "phase_data R_switch = []"
| "phase_data R_read = []"
| "phase_data R_reconnect = []"
| "phase_data R_connect = []"
| "phase_data R_single = []"
| "phase_data (R_raise evs k) = concat (map event_data evs) @ phase_data k"
| "phase_data R_end = []"

fun thread_data :: "recv_thread \<Rightarrow> bytes list" where
  "thread_data No_thread = []"
| "thread_data (Thread ph err) = phase_data ph"

definition delivers :: "comm_client \<Rightarrow> bool" where
  "delivers s \<longleftrightarrow>
     raised_data (cc_log s) @ thread_data (cc_recieving_thread s) = received_data (cc_log s) \<and>
     (\<forall>bs \<in> set (received_data (cc_log s)). bs \<noteq> [] \<and> length bs \<le> unat (cc_max_message_size s))"

lemma recieve_data:
  "recieve_next auto alive resp ph err = Some (ph', err') \<Longrightarrow>
   raised_data (recieve_log resp ph) @ phase_data ph' = phase_data ph @ received_data (recieve_log resp ph)"
  by (cases "(auto, alive, resp, ph, err)" rule: recieve_next.cases) auto

lemma recieve_bounds:
  "response_ok n resp \<Longrightarrow> bs \<in> set (received_data (recieve_log resp ph)) \<Longrightarrow> bs \<noteq> [] \<and> length bs \<le> unat n"
  by (cases "(resp, ph)" rule: recieve_log.cases) (auto simp: response_ok_def split: if_splits)

text \<open>No message is received while another one waits to be raised.\<close>

lemma recieve_empty:
  "recieve_next auto alive resp ph err = Some (ph', err') \<Longrightarrow> received_data (recieve_log resp ph) = [] \<or> phase_data ph = []"
  by (cases "(auto, alive, resp, ph, err)" rule: recieve_next.cases) auto

definition same_data :: "comm_client \<Rightarrow> comm_client \<Rightarrow> bool" where
  "same_data s s' \<longleftrightarrow>
     raised_data (cc_log s') = raised_data (cc_log s) \<and> received_data (cc_log s') = received_data (cc_log s) \<and>
     thread_data (cc_recieving_thread s') = thread_data (cc_recieving_thread s) \<and> cc_max_message_size s' = cc_max_message_size s"

lemma connect_data: "connect_next c resp ph s = Some s' \<Longrightarrow> same_data s s'"
  by (cases "(c, resp, ph, s)" rule: connect_next.cases) (auto simp: same_data_def connect_end_def split: if_splits)

lemma disconnect_data: "disconnect_next c resp ph s = Some s' \<Longrightarrow> same_data s s'"
  by (cases "(c, resp, ph, s)" rule: disconnect_next.cases)
    (auto simp: same_data_def disconnect_end_def split: if_splits recv_thread.splits)

lemma same_data_delivers: "same_data s s' \<Longrightarrow> delivers s \<Longrightarrow> delivers s'"
  by (simp add: same_data_def delivers_def)

lemma step_delivers:
  assumes "comm_step C s s'" and "delivers s"
  shows "delivers s'"
  using assms
proof (cases rule: comm_step.cases)
  case (recieves ph err resp ph' err')
  have "raised_data (cc_log s) @ raised_data (recieve_log resp ph) @ phase_data ph' = received_data (cc_log s) @ received_data (recieve_log resp ph)"
    using recieve_data[OF recieves(5)] assms(2) recieves(3) by (simp add: delivers_def)
  with recieves assms(2) recieve_bounds[OF recieves(4)] show ?thesis by (auto simp: delivers_def)
next
  case (connects c resp)
  with connect_data same_data_delivers assms(2) show ?thesis by blast
next
  case (disconnects c resp)
  with disconnect_data same_data_delivers assms(2) show ?thesis by blast
qed (auto simp: delivers_def)

lemma reach_delivers: "comm_reach C s0 s \<Longrightarrow> delivers s0 \<Longrightarrow> delivers s"
  by (induction rule: comm_reach.induct) (auto intro: step_delivers)

lemma step_max: "comm_step C s s' \<Longrightarrow> cc_max_message_size s' = cc_max_message_size s"
  by (induction rule: comm_step.induct) (auto dest: connect_data disconnect_data simp: same_data_def)

lemma reach_max: "comm_reach C s0 s \<Longrightarrow> cc_max_message_size s = cc_max_message_size s0"
  by (induction rule: comm_reach.induct) (auto dest: step_max)

section \<open>The end of the thread\<close>

text \<open>How many steps the thread of a reconnecting channel still has once the flag is cleared.\<close>

primrec steps_left :: "recv_phase \<Rightarrow> nat" where
  "steps_left R_start = 4"
| "steps_left R_head = 1"
| "steps_left R_switch = 8"
| "steps_left R_read = 6"
| "steps_left R_reconnect = 4"
| "steps_left R_connect = 5"
| "steps_left R_single = 0"
| "steps_left (R_raise evs k) = length evs + 1 + steps_left k"
| "steps_left R_end = 0"

fun recieve_run :: "bool \<Rightarrow> bool \<Rightarrow> response list \<Rightarrow> recv_phase \<Rightarrow> communication_error \<Rightarrow> (recv_phase \<times> communication_error) option" where
  "recieve_run auto alive [] ph err = Some (ph, err)"
| "recieve_run auto alive (resp # resps) ph err =
     (case recieve_next auto alive resp ph err of None \<Rightarrow> None | Some (ph', err') \<Rightarrow> recieve_run auto alive resps ph' err')"

primrec auto_phase :: "recv_phase \<Rightarrow> bool" where
  "auto_phase R_start = True"
| "auto_phase R_head = True"
| "auto_phase R_switch = True"
| "auto_phase R_read = True"
| "auto_phase R_reconnect = True"
| "auto_phase R_connect = True"
| "auto_phase R_single = False"
| "auto_phase (R_raise evs k) = auto_phase k"
| "auto_phase R_end = True"

lemma steps_left_decrease:
  "recieve_next True False resp ph err = Some (ph', err') \<Longrightarrow> auto_phase ph \<Longrightarrow> auto_phase ph' \<and> steps_left ph' < steps_left ph"
  by (cases "(True, False, resp, ph, err)" rule: recieve_next.cases) auto

lemma recieve_run_bound:
  "recieve_run True False resps ph err = Some (ph', err') \<Longrightarrow> auto_phase ph \<Longrightarrow> auto_phase ph' \<and> length resps + steps_left ph' \<le> steps_left ph"
proof (induction resps arbitrary: ph err)
  case (Cons resp resps)
  from Cons.prems(1) obtain ph1 err1 where r: "recieve_next True False resp ph err = Some (ph1, err1)" "recieve_run True False resps ph1 err1 = Some (ph', err')"
    by (auto split: option.splits)
  from steps_left_decrease[OF r(1) Cons.prems(2)] Cons.IH[OF r(2)] show ?case by auto
qed simp

lemma recieve_progress: "auto_phase ph \<Longrightarrow> ph \<noteq> R_end \<Longrightarrow> \<exists>resp r. recieve_next True alive resp ph err = Some r"
proof (cases ph)
  case R_start
  then show ?thesis by (intro exI[of _ "Status CONNECTED"]) simp
next
  case R_switch
  then show ?thesis by (intro exI[of _ "Status CONNECTED"]) simp
next
  case R_read
  then show ?thesis by (intro exI[of _ "Got [] NO_ERRORS"]) simp
next
  case R_connect
  then show ?thesis by (intro exI[of _ "Opened True"]) simp
next
  case (R_raise evs k)
  then show ?thesis by (intro exI[of _ Nothing]) (cases evs; simp)
qed (auto intro: exI[of _ Nothing])


section \<open>The accepting thread of a server\<close>

datatype accept_response = Done | Refused | Accepted "nat option"

datatype accept_phase = A_head | A_accept | A_failed | A_connect | A_end

record async_server =
  as_running :: bool
  as_accept_thread :: "accept_phase option"
  as_aborted :: bool
  as_announced :: "nat option list"

text \<open>The thread function \<^verbatim>\<open>accept\<close>; a client that the server accepts is announced by the signal \<^verbatim>\<open>on_accept\<close>.\<close>

fun accept_next :: "bool \<Rightarrow> accept_response \<Rightarrow> accept_phase \<Rightarrow> (accept_phase \<times> nat option list) option" where
  "accept_next running Done A_head = Some (if running then A_accept else A_end, [])"
| "accept_next running Refused A_accept = Some (A_failed, [])"
| "accept_next running (Accepted client) A_accept = Some (A_head, [client])"
| "accept_next running Done A_failed = Some (if running then A_connect else A_head, [])"
| "accept_next running Done A_connect = Some (A_head, [])"
| "accept_next running _ _ = None"

definition server_accepts :: "accept_response \<Rightarrow> async_server \<Rightarrow> async_server option" where
  "server_accepts resp s =
     (case as_accept_thread s of
        None \<Rightarrow> None
      | Some ph \<Rightarrow>
          (case accept_next (as_running s) resp ph of
             None \<Rightarrow> None
           | Some (ph', clients) \<Rightarrow> Some (s\<lparr>as_accept_thread := Some ph', as_announced := as_announced s @ clients\<rparr>)))"

definition server_connect :: "async_server \<Rightarrow> async_server" where
  "server_connect s =
     (if as_accept_thread s \<noteq> None then s\<lparr>as_running := True, as_aborted := True\<rparr>
      else s\<lparr>as_running := True, as_accept_thread := Some A_head\<rparr>)"

text \<open>\<^verbatim>\<open>disconnect\<close> clears the flag and waits for the thread.\<close>

definition server_stop :: "async_server \<Rightarrow> async_server" where
  "server_stop s = s\<lparr>as_running := False\<rparr>"

definition server_join :: "async_server \<Rightarrow> async_server option" where
  "server_join s =
     (case as_accept_thread s of
        None \<Rightarrow> Some s
      | Some ph \<Rightarrow> if ph = A_end then Some (s\<lparr>as_accept_thread := None\<rparr>) else None)"

text \<open>What the subscribers of \<^verbatim>\<open>comm_server_channel\<close> get of an announced client.\<close>

definition comm_server_accept :: "size_t \<Rightarrow> nat option \<Rightarrow> (nat \<times> size_t) list" where
  "comm_server_accept max_message_size client = (case client of None \<Rightarrow> [] | Some c \<Rightarrow> [(c, max_message_size)])"

primrec accepts_left :: "accept_phase \<Rightarrow> nat" where
  "accepts_left A_head = 1"
| "accepts_left A_accept = 3"
| "accepts_left A_failed = 2"
| "accepts_left A_connect = 2"
| "accepts_left A_end = 0"

fun server_run :: "accept_response list \<Rightarrow> async_server \<Rightarrow> async_server option" where
  "server_run [] s = Some s"
| "server_run (r # rs) s = (case server_accepts r s of None \<Rightarrow> None | Some s' \<Rightarrow> server_run rs s')"

lemma server_accepts_stopped:
  assumes "server_accepts r s = Some s'" and "\<not> as_running s" and "as_accept_thread s = Some ph"
  shows "\<not> as_running s' \<and> (\<exists>ph'. as_accept_thread s' = Some ph' \<and> accepts_left ph' < accepts_left ph)"
  using assms by (cases "(False, r, ph)" rule: accept_next.cases) (auto simp: server_accepts_def)

lemma server_accepts_announced:
  "server_accepts r s = Some s' \<Longrightarrow> as_announced s' = as_announced s @ (case r of Accepted c \<Rightarrow> [c] | _ \<Rightarrow> [])"
proof -
  assume a: "server_accepts r s = Some s'"
  then obtain ph where "as_accept_thread s = Some ph" by (auto simp: server_accepts_def split: option.splits)
  with a show ?thesis by (cases "(as_running s, r, ph)" rule: accept_next.cases) (auto simp: server_accepts_def)
qed

section \<open>Properties\<close>

text \<open>C11. After \<^verbatim>\<open>disconnect\<close> nothing is raised. While only one thread connects and disconnects, the program is never ended by a thread
  object, and no signal is raised between the return of \<^verbatim>\<open>disconnect\<close> and the next call of \<^verbatim>\<open>connect\<close>, whatever the
  channel answers.\<close>

theorem disconnect_is_quiet:
  assumes "comm_client_create n chan auto = Inr s0" and "comm_reach {0} s0 s"
  shows "\<not> cc_aborted s \<and> (\<forall>l1 e l2. cc_log s = l1 @ Raised e # l2 \<longrightarrow> \<not> closed l1) \<and>
         (closed (cc_log s) \<longrightarrow> cc_recieving_thread s = No_thread \<and> \<not> cc_thread_is_alive s)"
proof -
  have "one_caller s" using reach_one_caller[OF assms(2) create_one_caller[OF assms(1)]] .
  then show ?thesis by (auto simp: one_caller_def quiet_def phase_ok_def)
qed

text \<open>A run of a channel that does not reconnect: connect, one message, disconnect.\<close>

definition example_client :: "bool \<Rightarrow> comm_client" where
  "example_client auto =
     \<lparr>cc_max_message_size = 16, cc_automatic_reconnect = auto, cc_thread_is_alive = False, cc_recieving_thread = No_thread,
      cc_calls = (\<lambda>_. C_idle), cc_aborted = False, cc_log = []\<rparr>"

definition example_connects :: "move list" where
  "example_connects = [Call_connect 0, In_connect 0 (Status CONNECTED), In_connect 0 Nothing, In_connect 0 Nothing]"

definition example_message :: "move list" where
  "example_message =
     [Recv (Status CONNECTED), Recv Nothing, Recv Nothing, Recv (Got [1, 2] NO_ERRORS), Recv Nothing, Recv Nothing, Recv Nothing,
      Recv Nothing, Recv (Got [] TIMED_OUT), Recv Nothing, Recv Nothing, Recv Nothing]"

definition example_disconnects :: "move list" where
  "example_disconnects = [Call_disconnect 0, In_disconnect 0 Nothing, In_disconnect 0 (Opened True), In_disconnect 0 Nothing]"

lemmas example_moves = example_client_def example_connects_def example_message_def example_disconnects_def

lemma example_client_create: "comm_client_create 16 (Some DISCONNECTED) auto = Inr (example_client auto)"
  by (simp add: comm_client_create_def example_client_def)

lemma comm_run_append: "comm_run C (ms @ ms') s = (case comm_run C ms s of None \<Rightarrow> None | Some s' \<Rightarrow> comm_run C ms' s')"
  by (induction C ms s rule: comm_run.induct) (auto split: option.splits)

lemma example_received:
  "\<exists>s. comm_run {0} (example_connects @ example_message) (example_client False) = Some s \<and>
     cc_thread_is_alive s \<and> cc_recieving_thread s = Thread R_end TIMED_OUT \<and> cc_calls s 0 = C_idle \<and> \<not> cc_automatic_reconnect s \<and>
     raised_data (cc_log s) = [[1, 2]] \<and> \<not> cc_aborted s"
  by (simp add: example_moves response_ok_def connect_end_def)

lemma example_closed:
  "\<exists>s. comm_run {0} (example_connects @ example_message @ example_disconnects) (example_client False) = Some s \<and> closed (cc_log s) \<and>
     raised_data (cc_log s) = [[1, 2]]"
  by (simp add: example_moves response_ok_def connect_end_def disconnect_end_def closed_def)

theorem disconnect_is_quiet_witness:
  "\<exists>s. comm_run {0} (example_connects @ example_message @ example_disconnects) (example_client False) = Some s \<and> closed (cc_log s) \<and>
     raised_data (cc_log s) = [[1, 2]] \<and> \<not> cc_aborted s \<and> cc_recieving_thread s = No_thread"
proof -
  from example_closed obtain s where s: "comm_run {0} (example_connects @ example_message @ example_disconnects) (example_client False) = Some s"
    "closed (cc_log s)" "raised_data (cc_log s) = [[1, 2]]" by blast
  from disconnect_is_quiet[OF example_client_create comm_run_reach[OF s(1) reach_start]] s show ?thesis by blast
qed

text \<open>C12. Messages. Whatever threads connect and disconnect, the messages that subscribers get, followed by those that the thread is about to
  raise, are the messages that the channel returned, in order; none is empty or larger than the maximal size.\<close>

theorem messages_in_order:
  assumes "comm_client_create n chan auto = Inr s0" and "comm_reach C s0 s"
  shows "raised_data (cc_log s) @ thread_data (cc_recieving_thread s) = received_data (cc_log s) \<and>
         (\<forall>bs \<in> set (raised_data (cc_log s)). bs \<noteq> [] \<and> length bs \<le> unat n)"
proof -
  have s0: "delivers s0" "cc_max_message_size s0 = n" using assms(1) by (auto simp: comm_client_create_def delivers_def split: if_splits option.splits)
  have d: "delivers s" "cc_max_message_size s = n" using reach_delivers[OF assms(2) s0(1)] reach_max[OF assms(2)] s0(2) by auto
  then have "set (raised_data (cc_log s)) \<subseteq> set (received_data (cc_log s))" by (auto simp: delivers_def) (metis UnCI set_append)
  with d show ?thesis by (auto simp: delivers_def)
qed

theorem messages_in_order_witness:
  "\<exists>s. comm_run {0} (example_connects @ example_message) (example_client False) = Some s \<and> received_data (cc_log s) = [[1, 2]]"
proof -
  from example_received obtain s where s: "comm_run {0} (example_connects @ example_message) (example_client False) = Some s"
    "cc_recieving_thread s = Thread R_end TIMED_OUT" "raised_data (cc_log s) = [[1, 2]]" by blast
  from messages_in_order[OF example_client_create comm_run_reach[OF s(1) reach_start]] s show ?thesis by simp
qed

text \<open>The thread of a reconnecting channel ends. Once \<^verbatim>\<open>disconnect\<close> has cleared the flag the thread makes at most a fixed number of
  steps, whatever the channel answers, and it does not stop before its end.\<close>

theorem cleared_receiver_ends:
  assumes "auto_phase ph" and "recieve_run True False resps ph err = Some (ph', err')"
  shows "length resps \<le> steps_left ph - steps_left ph' \<and>
         (ph' = R_end \<or> (\<exists>resp ph'' err''. recieve_next True False resp ph' err' = Some (ph'', err'') \<and> steps_left ph'' < steps_left ph'))"
proof -
  note b = recieve_run_bound[OF assms(2,1)]
  have "\<exists>resp ph'' err''. recieve_next True False resp ph' err' = Some (ph'', err'') \<and> steps_left ph'' < steps_left ph'" if "ph' \<noteq> R_end"
  proof -
    from recieve_progress[of ph' False err'] b that obtain resp ph'' err'' where r: "recieve_next True False resp ph' err' = Some (ph'', err'')" by auto
    with steps_left_decrease[OF r] b show ?thesis by blast
  qed
  with b show ?thesis by auto
qed

theorem cleared_receiver_ends_witness:
  "recieve_run True False [Got [1] NO_ERRORS, Nothing, Nothing, Nothing, Nothing, Nothing] R_read NO_ERRORS = Some (R_end, NO_ERRORS) \<and>
   length [Got [1] NO_ERRORS, Nothing, Nothing, Nothing, Nothing, Nothing] \<le> 6"
  using cleared_receiver_ends[of R_read "[Got [1] NO_ERRORS, Nothing, Nothing, Nothing, Nothing, Nothing]" NO_ERRORS R_end NO_ERRORS] by simp

text \<open>A connected channel that nobody reads. When a receive returned nothing, the thread of a channel that does not reconnect has ended but the
  flag is still set; as long as the channel says that it is connected, \<^verbatim>\<open>connect\<close> returns true and starts no thread.\<close>

theorem connect_without_receiver:
  assumes "cc_recieving_thread s = Thread R_end err" and "cc_thread_is_alive s" and "\<not> cc_automatic_reconnect s" and "\<not> cc_aborted s"
    and "cc_calls s c = C_idle" and "c \<in> C"
  shows "\<exists>s'. comm_run C [Call_connect c, In_connect c (Status CONNECTED), In_connect c Nothing] s = Some s' \<and>
           cc_log s' = cc_log s @ [Connect_call c, Connect_return c True] \<and> cc_recieving_thread s' = Thread R_end err \<and> cc_thread_is_alive s' \<and>
           (\<forall>resp. comm_move C (Recv resp) s' = None)"
  using assms by (auto simp: connect_end_def)

theorem connect_without_receiver_witness:
  "\<exists>s s'. comm_reach {0} (example_client False) s \<and>
     comm_run {0} [Call_connect 0, In_connect 0 (Status CONNECTED), In_connect 0 Nothing] s = Some s' \<and> cc_recieving_thread s' = Thread R_end TIMED_OUT"
proof -
  from example_received obtain s where s: "comm_run {0} (example_connects @ example_message) (example_client False) = Some s"
    "cc_thread_is_alive s" "cc_recieving_thread s = Thread R_end TIMED_OUT" "cc_calls s 0 = C_idle" "\<not> cc_automatic_reconnect s" "\<not> cc_aborted s" by blast
  from connect_without_receiver[OF s(3,2,5,6,4), of "{0}"] comm_run_reach[OF s(1) reach_start] show ?thesis by blast
qed

text \<open>Two threads. When one thread connects while another one is between clearing the flag and the end of its \<^verbatim>\<open>disconnect\<close>, the new
  thread is assigned to a joinable thread object, which ends the program.\<close>

theorem concurrent_connect_aborts:
  "\<exists>s. comm_reach {0, 1} (example_client auto) s \<and> cc_aborted s"
proof -
  let ?first = "if auto then Nothing else Status CONNECTED"
  have "\<exists>s. comm_run {0, 1} [Call_connect 0, In_connect 0 ?first, In_connect 0 Nothing, In_connect 0 Nothing, Call_disconnect 0,
      In_disconnect 0 Nothing, Call_connect 1, In_connect 1 ?first, In_connect 1 Nothing, In_connect 1 Nothing] (example_client auto) = Some s \<and> cc_aborted s"
    by (cases auto) (simp_all add: example_client_def connect_end_def)
  then show ?thesis using comm_run_reach reach_start by blast
qed

text \<open>The accepting thread. Every client that the server accepts is announced once and in order, and once the flag is cleared the thread
  ends after at most three steps.\<close>

theorem server_announces_and_stops:
  assumes "server_run rs s = Some s'"
  shows "as_announced s' = as_announced s @ concat (map (\<lambda>r. case r of Accepted c \<Rightarrow> [c] | _ \<Rightarrow> []) rs) \<and>
         (\<not> as_running s \<and> as_accept_thread s \<noteq> None \<longrightarrow> length rs \<le> 3)"
proof -
  have ann: "as_announced s' = as_announced s @ concat (map (\<lambda>r. case r of Accepted c \<Rightarrow> [c] | _ \<Rightarrow> []) rs)"
    using assms by (induction rs s rule: server_run.induct) (auto dest: server_accepts_announced split: option.splits)
  have "length rs \<le> accepts_left ph" if "\<not> as_running s" "as_accept_thread s = Some ph" for ph
    using assms that
  proof (induction rs s arbitrary: ph rule: server_run.induct)
    case (2 r rs s)
    from "2.prems"(1) obtain s1 where s1: "server_accepts r s = Some s1" "server_run rs s1 = Some s'" by (auto split: option.splits)
    from server_accepts_stopped[OF s1(1) "2.prems"(2,3)] obtain ph1 where ph1: "\<not> as_running s1" "as_accept_thread s1 = Some ph1" "accepts_left ph1 < accepts_left ph" by blast
    from "2.IH"[OF s1(1,2) ph1(1,2)] ph1(3) show ?case by simp
  qed simp
  moreover have "accepts_left ph \<le> 3" for ph by (cases ph) simp_all
  ultimately show ?thesis using ann by (auto intro: order_trans)
qed

theorem server_announces_and_stops_witness:
  "\<exists>s. server_run [Done, Accepted (Some 7), Done, Refused, Done, Done] (server_connect \<lparr>as_running = False, as_accept_thread = None, as_aborted = False, as_announced = []\<rparr>) = Some s \<and>
     as_announced s = [Some 7]"
proof -
  let ?s = "server_connect \<lparr>as_running = False, as_accept_thread = None, as_aborted = False, as_announced = []\<rparr>"
  have "\<exists>s. server_run [Done, Accepted (Some 7), Done, Refused, Done, Done] ?s = Some s" by (simp add: server_connect_def server_accepts_def)
  then obtain s where s: "server_run [Done, Accepted (Some 7), Done, Refused, Done, Done] ?s = Some s" by blast
  from server_announces_and_stops[OF s] have "as_announced s = [Some 7]" by (simp add: server_connect_def)
  with s show ?thesis by blast
qed

end
