(* ===== verification/State_Machine.thy ===== *)
theory State_Machine
  imports Cpp_Prelude
begin

text \<open>
  The state machine of the modern API (\<^verbatim>\<open>ModernAPI/StateMachine.hpp\<close>). A state keeps its transitions in
  a fixed array; the machine keeps its states in a map, a process status, a status record that it
  writes to a row, a timer for the current state and one for the process.

  The virtual methods of a state are code of the application. A method that may move the machine is an
  \<open>activity\<close>: it computes on the application's own data \<open>'u\<close>, may call \<^verbatim>\<open>PerformTransition\<close> any number of
  times, going on with the answers, and returns a boolean at last. The other methods only change the
  application's data. Following the null pointer that \<^verbatim>\<open>nodeTable[id]\<close> gives for a missing state is
  \<open>Undefined\<close>. The bodies that are sent to the dispatcher run one after the other, so each is one step. A time-out of a state is
  handled by the thread of its timer, beside these bodies and without a lock: \<^verbatim>\<open>HandleStateTimeOut\<close> is modelled as what it does alone,
  the races with the bodies are not, and the properties of runs are those of machines without time-outs. That \<^verbatim>\<open>stop\<close> of the timer
  can hang when the two threads meet is shown on a model of the timer alone.
  The loop of \<^verbatim>\<open>SwitchToNextState\<close> may run forever and is a \<^theory_text>\<open>partial_function\<close>.
\<close>

section \<open>States\<close>

datatype StateType = STATE_UNINITIALIZED | STATE_DEFAULT | STATE_END_SUCCESS | STATE_END_FAIL | STATE_END_ABORT

record transition_pair =
  tr_opcode :: "16 word"
  tr_nextState :: "16 word"

datatype 'u activity =
    Returns bool 'u
  | Performs "16 word" 'u "bool \<Rightarrow> 'u \<Rightarrow> 'u activity"

record ('u, 'd) State =
  st_stateID :: int
  st_stateType :: StateType
  st_transitionsArray :: "transition_pair list"
  st_numOfTransitions :: nat
  st_nodeTimeOut :: int
  st_Initialize :: "'u \<Rightarrow> 'u"
  st_HandleEnteredState :: "'u \<Rightarrow> 'u activity"
  st_HandleExitState :: "'u \<Rightarrow> 'u"
  st_HandleData :: "'d \<Rightarrow> 32 word \<Rightarrow> 'u \<Rightarrow> 'u activity"
  st_HandleTimeout :: "'u \<Rightarrow> 'u activity"
  st_OnPaused :: "'u \<Rightarrow> 'u"
  st_OnResume :: "'u \<Rightarrow> 'u"

definition MAX_TRANSITIONS_COUNT_PER_STATE :: nat where "MAX_TRANSITIONS_COUNT_PER_STATE = 500"

definition MAX_NUM_OF_TRANSITIONS_PER_STATE :: nat where "MAX_NUM_OF_TRANSITIONS_PER_STATE = 32"

text \<open>The constructor; the default methods of \<^verbatim>\<open>Initialize\<close>, \<^verbatim>\<open>HandleTimeout\<close>, \<^verbatim>\<open>OnPaused\<close> and
  \<^verbatim>\<open>OnResume\<close> do nothing.\<close>

definition State_create ::
  "('u \<Rightarrow> 'u activity) \<Rightarrow> ('u \<Rightarrow> 'u) \<Rightarrow> ('d \<Rightarrow> 32 word \<Rightarrow> 'u \<Rightarrow> 'u activity) \<Rightarrow> int \<Rightarrow> int \<Rightarrow> StateType \<Rightarrow> ('u, 'd) State" where
  "State_create entered exited handle_data stateID nodeTimeOut stateType =
     \<lparr>st_stateID = stateID, st_stateType = stateType,
      st_transitionsArray = replicate MAX_TRANSITIONS_COUNT_PER_STATE \<lparr>tr_opcode = 0, tr_nextState = 0\<rparr>,
      st_numOfTransitions = 0, st_nodeTimeOut = nodeTimeOut,
      st_Initialize = id, st_HandleEnteredState = entered, st_HandleExitState = exited, st_HandleData = handle_data,
      st_HandleTimeout = Returns False, st_OnPaused = id, st_OnResume = id\<rparr>"

definition AddTransition :: "16 word \<Rightarrow> 16 word \<Rightarrow> ('u, 'd) State \<Rightarrow> (bool \<times> ('u, 'd) State) result" where
  "AddTransition opcode nextState st =
     (if st_numOfTransitions st \<ge> MAX_NUM_OF_TRANSITIONS_PER_STATE then Inr (False, st)
      else if st_numOfTransitions st \<ge> length (st_transitionsArray st) then Inl Undefined
      else Inr (True, st\<lparr>st_transitionsArray := (st_transitionsArray st)
             [st_numOfTransitions st := \<lparr>tr_opcode = opcode, tr_nextState = nextState\<rparr>],
           st_numOfTransitions := st_numOfTransitions st + 1\<rparr>))"

definition FindTransition :: "16 word \<Rightarrow> ('u, 'd) State \<Rightarrow> int" where
  "FindTransition currentOpcode st =
     (case find (\<lambda>t. currentOpcode = tr_opcode t) (take (st_numOfTransitions st) (st_transitionsArray st)) of
        Some t \<Rightarrow> sint (tr_nextState t)
      | None \<Rightarrow> -1)"

section \<open>The machine\<close>

datatype ProcessStatus =
    PROCESS_NOT_STARTED | PROCESS_IN_THE_MIDDLE | PROCESS_FINISHED_FAIL | PROCESS_FINISHED_TIMEOUT_ERROR
  | PROCESS_FINISHED_SUCCESSFULY | PROCESS_FINISHED_KILLED | PROCESS_FINISHED_ABORTED | PROCESS_PAUSED

datatype StateMachineStatusEnum = STATE_MACHINE_NOT_VALID | STATE_MACHINE_VALID

datatype TimeoutStatusEnum = TIMEOUT_NOT_EXPIRED | TIMEOUT_EXPIRED

record StateMachineEntryStruct =
  nIsValid :: StateMachineStatusEnum
  nProcessStatus :: int
  nLastOpcode :: int
  nLastTransition :: int
  nCurrentState :: int
  nIsTimeout :: TimeoutStatusEnum

text \<open>The node table is kept in the order of the keys, as in \<^verbatim>\<open>std::map\<close>. A timer is the interval it
  runs with. The row is the sequence of the values written to it, each with its force flag, if the
  machine has a row.\<close>

record ('u, 'd) StateMachine =
  sm_nodeTable :: "(int \<times> ('u, 'd) State) list"
  sm_processStatus :: ProcessStatus
  sm_LastprocessStatus :: ProcessStatus
  sm_pStateTimer :: "int option"
  sm_pProcessTimer :: "int option"
  sm_nProcessTimeOut :: int
  sm_rowStateMachineSts :: "(StateMachineEntryStruct \<times> bool) list option"
  sm_stStateMachineSts :: StateMachineEntryStruct
  sm_OnSwitchingState :: "'u \<Rightarrow> 'u"
  sm_user :: 'u

definition StateMachine_create :: "(StateMachineEntryStruct \<times> bool) list option \<Rightarrow> ('u \<Rightarrow> 'u) \<Rightarrow> 'u \<Rightarrow> ('u, 'd) StateMachine" where
  "StateMachine_create row hook u =
     \<lparr>sm_nodeTable = [], sm_processStatus = PROCESS_NOT_STARTED, sm_LastprocessStatus = PROCESS_NOT_STARTED,
      sm_pStateTimer = None, sm_pProcessTimer = None, sm_nProcessTimeOut = 0, sm_rowStateMachineSts = row,
      sm_stStateMachineSts = \<lparr>nIsValid = STATE_MACHINE_NOT_VALID, nProcessStatus = 0, nLastOpcode = 0, nLastTransition = 0,
        nCurrentState = 0, nIsTimeout = TIMEOUT_NOT_EXPIRED\<rparr>,
      sm_OnSwitchingState = hook, sm_user = u\<rparr>"

definition GetState :: "int \<Rightarrow> ('u, 'd) StateMachine \<Rightarrow> ('u, 'd) State option" where
  "GetState i m = map_of (sm_nodeTable m) i"

definition AddState :: "('u, 'd) State \<Rightarrow> ('u, 'd) StateMachine \<Rightarrow> (bool \<times> ('u, 'd) StateMachine) result" where
  "AddState st m =
     (if GetState (st_stateID st) m \<noteq> None then Inl (Throws (Runtime_error ''a state with same id already exists''))
      else Inr (True, m\<lparr>sm_nodeTable := insort_key fst (st_stateID st, st) (sm_nodeTable m)\<rparr>))"

abbreviation current :: "('u, 'd) StateMachine \<Rightarrow> int" where
  "current m \<equiv> nCurrentState (sm_stStateMachineSts m)"

text \<open>\<^verbatim>\<open>m_StateGraph.nodeTable[m_stStateMachineSts.nCurrentState]->...\<close>\<close>

definition current_node :: "('u, 'd) StateMachine \<Rightarrow> ('u, 'd) State result" where
  "current_node m = (case GetState (current m) m of None \<Rightarrow> Inl Undefined | Some st \<Rightarrow> Inr st)"

definition PerformTransition :: "16 word \<Rightarrow> ('u, 'd) StateMachine \<Rightarrow> (bool \<times> ('u, 'd) StateMachine) result" where
  "PerformTransition transitionOpcode m =
     (let m1 = m\<lparr>sm_stStateMachineSts := (sm_stStateMachineSts m)\<lparr>nLastOpcode := sint transitionOpcode\<rparr>\<rparr> in
      res_bind (current_node m1) (\<lambda>st.
        let nTempNextState = FindTransition transitionOpcode st in
        if nTempNextState = -1 then Inr (False, m1)
        else case GetState nTempNextState m1 of
               None \<Rightarrow> Inr (False, m1)
             | Some next \<Rightarrow>
                 if st_stateType next \<noteq> STATE_UNINITIALIZED
                 then Inr (True, m1\<lparr>sm_stStateMachineSts := (sm_stStateMachineSts m1)\<lparr>nCurrentState := nTempNextState\<rparr>,
                              sm_user := st_HandleExitState st (sm_user m1)\<rparr>)
                 else Inr (False, m1)))"

primrec run_activity :: "'u activity \<Rightarrow> ('u, 'd) StateMachine \<Rightarrow> (bool \<times> ('u, 'd) StateMachine) result" where
  "run_activity (Returns b u) m = Inr (b, m\<lparr>sm_user := u\<rparr>)"
| "run_activity (Performs opcode u k) m =
     res_bind (PerformTransition opcode (m\<lparr>sm_user := u\<rparr>)) (\<lambda>(b, m1). run_activity (k b (sm_user m1)) m1)"

definition timer_start :: "int \<Rightarrow> int option result" where
  "timer_start interval = (if interval \<le> 0 then Inl (Throws (Out_of_range ''interval'')) else Inr (Some interval))"

definition StopStateTimer :: "('u, 'd) StateMachine \<Rightarrow> ('u, 'd) StateMachine" where
  "StopStateTimer m = m\<lparr>sm_pStateTimer := None\<rparr>"

definition StartStateTimer :: "('u, 'd) StateMachine \<Rightarrow> ('u, 'd) StateMachine result" where
  "StartStateTimer m =
     res_bind (current_node m) (\<lambda>st.
       if st_nodeTimeOut st > 0 then res_map (\<lambda>t. m\<lparr>sm_pStateTimer := t\<rparr>) (timer_start (st_nodeTimeOut st))
       else Inr m)"

definition write_status :: "bool \<Rightarrow> ('u, 'd) StateMachine \<Rightarrow> ('u, 'd) StateMachine" where
  "write_status force m =
     m\<lparr>sm_rowStateMachineSts := map_option (\<lambda>ws. ws @ [(sm_stStateMachineSts m, force)]) (sm_rowStateMachineSts m)\<rparr>"

definition process_finished :: "('u, 'd) StateMachine \<Rightarrow> bool" where
  "process_finished m \<longleftrightarrow>
     sm_processStatus m = PROCESS_FINISHED_SUCCESSFULY \<or> sm_processStatus m = PROCESS_FINISHED_FAIL \<or>
     sm_processStatus m = PROCESS_FINISHED_ABORTED"

definition finish_process :: "StateType \<Rightarrow> ('u, 'd) StateMachine \<Rightarrow> ('u, 'd) StateMachine" where
  "finish_process newStateType m =
     (if newStateType = STATE_END_SUCCESS
      then m\<lparr>sm_pProcessTimer := None, sm_processStatus := PROCESS_FINISHED_SUCCESSFULY\<rparr>
      else if newStateType = STATE_END_FAIL
      then m\<lparr>sm_pProcessTimer := None, sm_processStatus := PROCESS_FINISHED_FAIL\<rparr>
      else if newStateType = STATE_END_ABORT
      then m\<lparr>sm_pProcessTimer := None, sm_processStatus := PROCESS_FINISHED_ABORTED\<rparr>
      else m)"

definition OnSwitchingState :: "('u, 'd) StateMachine \<Rightarrow> ('u, 'd) StateMachine" where
  "OnSwitchingState m = m\<lparr>sm_user := sm_OnSwitchingState m (sm_user m)\<rparr>"

definition switch_body :: "('u, 'd) StateMachine \<Rightarrow> (bool \<times> ('u, 'd) StateMachine) result" where
  "switch_body m =
     res_bind (current_node m) (\<lambda>st.
       let m1 = write_status False (OnSwitchingState (finish_process (st_stateType st) m)) in
       res_bind (current_node m1) (\<lambda>st1. run_activity (st_HandleEnteredState st1 (sm_user m1)) m1))"

partial_function (option) switch_loop :: "('u, 'd) StateMachine \<Rightarrow> (bool \<times> ('u, 'd) StateMachine) result option" where
  "switch_loop m =
     (case switch_body m of
        Inl e \<Rightarrow> Some (Inl e)
      | Inr (isMovedToNext, m1) \<Rightarrow>
          if isMovedToNext \<and> \<not> process_finished m1 then switch_loop m1 else Some (Inr (isMovedToNext, m1)))"

definition SwitchToNextState :: "('u, 'd) StateMachine \<Rightarrow> ('u, 'd) StateMachine result option" where
  "SwitchToNextState m =
     map_option (\<lambda>r. res_bind r (\<lambda>(isMovedToNext, m1).
         let m2 = (if isMovedToNext \<and> process_finished m1 then OnSwitchingState m1 else m1) in
         res_bind (current_node m2) (\<lambda>st. if st_nodeTimeOut st > 0 then StartStateTimer m2 else Inr m2)))
       (switch_loop m)"

section \<open>Events\<close>

definition initialize_states :: "('u, 'd) StateMachine \<Rightarrow> ('u, 'd) StateMachine" where
  "initialize_states m = m\<lparr>sm_user := fold (\<lambda>p u. st_Initialize (snd p) u) (sm_nodeTable m) (sm_user m)\<rparr>"

definition reset_run :: "int \<Rightarrow> int \<Rightarrow> ('u, 'd) StateMachine \<Rightarrow> ('u, 'd) StateMachine result" where
  "reset_run nProcessTimeOut nFirstStateToRun m =
     (let m1 = initialize_states m;
          m2 = (if sm_processStatus m1 \<noteq> PROCESS_NOT_STARTED then StopStateTimer (m1\<lparr>sm_pProcessTimer := None\<rparr>) else m1);
          m3 = m2\<lparr>sm_nProcessTimeOut := nProcessTimeOut,
                  sm_stStateMachineSts := (sm_stStateMachineSts m2)\<lparr>nIsValid := STATE_MACHINE_VALID, nCurrentState := nFirstStateToRun\<rparr>\<rparr>
      in res_map (\<lambda>m4. m4\<lparr>sm_processStatus := PROCESS_IN_THE_MIDDLE\<rparr>)
           (if nProcessTimeOut \<noteq> 0
            then res_map (\<lambda>t. m3\<lparr>sm_pProcessTimer := t,
                     sm_stStateMachineSts := (sm_stStateMachineSts m3)\<lparr>nIsTimeout := TIMEOUT_NOT_EXPIRED\<rparr>\<rparr>)
                   (timer_start nProcessTimeOut)
            else Inr m3))"

definition InitializeResetRun :: "int \<Rightarrow> int \<Rightarrow> ('u, 'd) StateMachine \<Rightarrow> ('u, 'd) StateMachine result option" where
  "InitializeResetRun nProcessTimeOut nFirstStateToRun m =
     (case reset_run nProcessTimeOut nFirstStateToRun m of
        Inl e \<Rightarrow> Some (Inl e)
      | Inr m1 \<Rightarrow> SwitchToNextState m1)"

definition Pause :: "('u, 'd) StateMachine \<Rightarrow> ('u, 'd) StateMachine result" where
  "Pause m =
     (if sm_processStatus m \<noteq> PROCESS_PAUSED then
        let m1 = (StopStateTimer m)\<lparr>sm_LastprocessStatus := sm_processStatus m, sm_processStatus := PROCESS_PAUSED\<rparr> in
        res_map (\<lambda>st. m1\<lparr>sm_user := st_OnPaused st (sm_user m1)\<rparr>) (current_node m1)
      else Inr m)"

definition Resume :: "('u, 'd) StateMachine \<Rightarrow> ('u, 'd) StateMachine result" where
  "Resume m =
     (if sm_processStatus m = PROCESS_PAUSED then
        res_bind (StartStateTimer m) (\<lambda>m1.
          let m2 = m1\<lparr>sm_processStatus := sm_LastprocessStatus m1\<rparr> in
          res_map (\<lambda>st. m2\<lparr>sm_user := st_OnResume st (sm_user m2)\<rparr>) (current_node m2))
      else Inr m)"

definition CallState :: "'d \<Rightarrow> 32 word \<Rightarrow> ('u, 'd) StateMachine \<Rightarrow> (bool \<times> ('u, 'd) StateMachine) result option" where
  "CallState data opcode m =
     (if sm_processStatus m \<noteq> PROCESS_IN_THE_MIDDLE then Some (Inr (False, m))
      else case res_bind (current_node m) (\<lambda>st. run_activity (st_HandleData st data opcode (sm_user m)) m) of
             Inl e \<Rightarrow> Some (Inl e)
           | Inr (isMovedToNext, m1) \<Rightarrow>
               if isMovedToNext then map_option (res_map (Pair True)) (SwitchToNextState (StopStateTimer m1))
               else Some (Inr (True, m1)))"

definition HandleStateTimeOut :: "('u, 'd) StateMachine \<Rightarrow> ('u, 'd) StateMachine result option" where
  "HandleStateTimeOut m =
     (case res_bind (current_node m) (\<lambda>st. run_activity (st_HandleTimeout st (sm_user m)) m) of
        Inl e \<Rightarrow> Some (Inl e)
      | Inr (isMovedToNext, m1) \<Rightarrow>
          let m2 = write_status True (m1\<lparr>sm_stStateMachineSts := (sm_stStateMachineSts m1)\<lparr>nIsTimeout := TIMEOUT_EXPIRED\<rparr>\<rparr>) in
          if isMovedToNext then SwitchToNextState (StopStateTimer m2) else Some (Inr m2))"

definition HandleProcessTimeOut :: "('u, 'd) StateMachine \<Rightarrow> ('u, 'd) StateMachine" where
  "HandleProcessTimeOut m = (StopStateTimer m)\<lparr>sm_pProcessTimer := None, sm_processStatus := PROCESS_FINISHED_TIMEOUT_ERROR\<rparr>"

text \<open>What can happen to a machine once its states were added. The process timer has no subscriber, so that
  its ticks change nothing and are no event.\<close>

datatype 'd event = Run int int | Pausing | Resuming | Data 'd "32 word" | State_timeout

definition handle_event :: "'d event \<Rightarrow> ('u, 'd) StateMachine \<Rightarrow> ('u, 'd) StateMachine result option" where
  "handle_event e m =
     (case e of
        Run t s \<Rightarrow> InitializeResetRun t s m
      | Pausing \<Rightarrow> Some (Pause m)
      | Resuming \<Rightarrow> Some (Resume m)
      | Data d opcode \<Rightarrow> map_option (res_map snd) (CallState d opcode m)
      | State_timeout \<Rightarrow> HandleStateTimeOut m)"

definition enabled :: "'d event \<Rightarrow> ('u, 'd) StateMachine \<Rightarrow> bool" where
  "enabled e m =
     (case e of
        Run t s \<Rightarrow> GetState s m \<noteq> None
      | State_timeout \<Rightarrow> sm_pStateTimer m \<noteq> None
      | _ \<Rightarrow> True)"

inductive sm_reach :: "('u, 'd) StateMachine \<Rightarrow> ('u, 'd) StateMachine \<Rightarrow> bool" where
  sm_start: "sm_reach m m"
| sm_event: "sm_reach m0 m \<Longrightarrow> enabled e m \<Longrightarrow> handle_event e m = Some (Inr m') \<Longrightarrow> sm_reach m0 m'"

section \<open>What every step keeps\<close>

named_theorems sm_simps \<open>the small operations of the machine\<close>

lemmas small_steps [sm_simps] =
  current_node_def GetState_def StopStateTimer_def write_status_def OnSwitchingState_def

definition located :: "('u, 'd) StateMachine \<Rightarrow> bool" where
  "located m \<longleftrightarrow> GetState (current m) m \<noteq> None"

text \<open>The graph of states stays, and two fields of the status record are never written.\<close>

definition keeps :: "('u, 'd) StateMachine \<Rightarrow> ('u, 'd) StateMachine \<Rightarrow> bool" where
  "keeps m m' \<longleftrightarrow> sm_nodeTable m' = sm_nodeTable m \<and>
     nProcessStatus (sm_stStateMachineSts m') = nProcessStatus (sm_stStateMachineSts m) \<and>
     nLastTransition (sm_stStateMachineSts m') = nLastTransition (sm_stStateMachineSts m)"

text \<open>What an activity does not touch.\<close>

definition same_process :: "('u, 'd) StateMachine \<Rightarrow> ('u, 'd) StateMachine \<Rightarrow> bool" where
  "same_process m m' \<longleftrightarrow> sm_processStatus m' = sm_processStatus m \<and> sm_LastprocessStatus m' = sm_LastprocessStatus m \<and>
     sm_pStateTimer m' = sm_pStateTimer m \<and> sm_pProcessTimer m' = sm_pProcessTimer m"

lemma keeps_trans: "keeps a b \<Longrightarrow> keeps b c \<Longrightarrow> keeps a c"
  by (simp add: keeps_def)

lemma keeps_refl [simp]: "keeps m m"
  by (simp add: keeps_def)

lemma same_process_trans: "same_process a b \<Longrightarrow> same_process b c \<Longrightarrow> same_process a c"
  by (simp add: same_process_def)

lemma GetState_keeps: "keeps m m' \<Longrightarrow> GetState i m' = GetState i m"
  by (simp add: keeps_def GetState_def)

lemma locatedE: "located m \<Longrightarrow> (\<And>st. GetState (current m) m = Some st \<Longrightarrow> current_node m = Inr st \<Longrightarrow> P) \<Longrightarrow> P"
  by (auto simp: located_def current_node_def)

lemma PerformTransition_ok:
  assumes "located m"
  shows "\<exists>b m'. PerformTransition opcode m = Inr (b, m') \<and> located m' \<and> keeps m m' \<and> same_process m m'"
  using assms
  by (auto simp: PerformTransition_def located_def Let_def keeps_def same_process_def sm_simps split: option.splits)

lemma run_activity_ok:
  "located m \<Longrightarrow> \<exists>b m'. run_activity a m = Inr (b, m') \<and> located m' \<and> keeps m m' \<and> same_process m m'"
proof (induction a arbitrary: m)
  case (Returns b u)
  then show ?case by (simp add: located_def keeps_def same_process_def GetState_def)
next
  case (Performs opcode u k)
  have "located (m\<lparr>sm_user := u\<rparr>)" using Performs.prems by (simp add: located_def GetState_def)
  then obtain b m1 where m1: "PerformTransition opcode (m\<lparr>sm_user := u\<rparr>) = Inr (b, m1)" "located m1"
    "keeps (m\<lparr>sm_user := u\<rparr>) m1" "same_process (m\<lparr>sm_user := u\<rparr>) m1"
    using PerformTransition_ok by metis
  then obtain b' m2 where "run_activity (k b (sm_user m1)) m1 = Inr (b', m2)" "located m2" "keeps m1 m2" "same_process m1 m2"
    using Performs.IH[OF _ _ m1(2)] by (metis rangeI)
  with m1 show ?case by (auto simp: keeps_def same_process_def)
qed

lemma switch_body_ok:
  assumes "located m"
  shows "\<exists>b m'. switch_body m = Inr (b, m') \<and> located m' \<and> keeps m m'"
proof -
  obtain st where st: "GetState (current m) m = Some st" "current_node m = Inr st" using assms by (rule locatedE)
  let ?m1 = "write_status False (OnSwitchingState (finish_process (st_stateType st) m))"
  have m1: "located ?m1" "keeps m ?m1" "current_node ?m1 = Inr st"
    using st assms by (auto simp: located_def keeps_def finish_process_def sm_simps)
  then obtain b m2 where "run_activity (st_HandleEnteredState st (sm_user ?m1)) ?m1 = Inr (b, m2)" "located m2" "keeps ?m1 m2"
    using run_activity_ok by blast
  with m1 st show ?thesis by (auto simp: switch_body_def Let_def intro: keeps_trans)
qed

text \<open>Induction over the rounds of the loop.\<close>

lemma switch_loop_rounds [consumes 1, case_names fault again stop]:
  assumes "switch_loop m = Some r"
    and fault: "\<And>m e. switch_body m = Inl e \<Longrightarrow> P m (Inl e)"
    and more: "\<And>m m1 r. switch_body m = Inr (True, m1) \<Longrightarrow> \<not> process_finished m1 \<Longrightarrow> P m1 r \<Longrightarrow> P m r"
    and stop: "\<And>m b m1. switch_body m = Inr (b, m1) \<Longrightarrow> b \<longrightarrow> process_finished m1 \<Longrightarrow> P m (Inr (b, m1))"
  shows "P m r"
proof (rule switch_loop.raw_induct[OF _ assms(1)])
  fix f m r
  assume IH: "\<And>m r. f m = Some r \<Longrightarrow> P m r"
    and step: "(case switch_body m of Inl e \<Rightarrow> Some (Inl e)
      | Inr (isMovedToNext, m1) \<Rightarrow> if isMovedToNext \<and> \<not> process_finished m1 then f m1 else Some (Inr (isMovedToNext, m1))) = Some r"
  show "P m r"
  proof (cases "switch_body m")
    case (Inl e)
    with step fault show ?thesis by auto
  next
    case (Inr p)
    obtain b m1 where p: "p = (b, m1)" by fastforce
    show ?thesis
    proof (cases "b \<and> \<not> process_finished m1")
      case True
      with step Inr p have "f m1 = Some r" by simp
      with True Inr p more IH show ?thesis by auto
    next
      case False
      with step Inr p stop[of m b m1] show ?thesis by auto
    qed
  qed
qed

lemma switch_loop_ok:
  assumes "switch_loop m = Some r" and "located m"
  shows "\<exists>b m'. r = Inr (b, m') \<and> located m' \<and> keeps m m'"
  using assms
proof (induction rule: switch_loop_rounds)
  case (fault m e)
  then show ?case using switch_body_ok[of m] by simp
next
  case (again m m1 r)
  then show ?case using switch_body_ok[of m] by (auto intro: keeps_trans)
next
  case (stop m b m1)
  then show ?case using switch_body_ok[of m] by simp
qed

lemma StartStateTimer_ok: "located m \<Longrightarrow> \<exists>t. StartStateTimer m = Inr (m\<lparr>sm_pStateTimer := t\<rparr>)"
proof (erule locatedE)
  fix st
  assume "current_node m = Inr st"
  then have "StartStateTimer m =
      Inr (m\<lparr>sm_pStateTimer := if st_nodeTimeOut st > 0 then Some (st_nodeTimeOut st) else sm_pStateTimer m\<rparr>)"
    by (simp add: StartStateTimer_def timer_start_def)
  then show ?thesis by blast
qed

lemma located_updates [simp]:
  "located (m\<lparr>sm_pStateTimer := t\<rparr>) = located m" "located (m\<lparr>sm_pProcessTimer := t\<rparr>) = located m"
  "located (m\<lparr>sm_processStatus := s\<rparr>) = located m" "located (m\<lparr>sm_LastprocessStatus := s\<rparr>) = located m"
  "located (m\<lparr>sm_user := u\<rparr>) = located m" "located (OnSwitchingState m) = located m" "located (StopStateTimer m) = located m"
  "located (write_status b m) = located m" "located (initialize_states m) = located m"
  by (simp_all add: located_def initialize_states_def sm_simps)

lemma keeps_updates [simp]:
  "keeps a (m\<lparr>sm_pStateTimer := t\<rparr>) = keeps a m" "keeps a (m\<lparr>sm_pProcessTimer := t\<rparr>) = keeps a m"
  "keeps a (m\<lparr>sm_processStatus := s\<rparr>) = keeps a m" "keeps a (m\<lparr>sm_LastprocessStatus := s\<rparr>) = keeps a m"
  "keeps a (m\<lparr>sm_user := u\<rparr>) = keeps a m" "keeps a (OnSwitchingState m) = keeps a m" "keeps a (StopStateTimer m) = keeps a m"
  "keeps a (write_status b m) = keeps a m" "keeps a (initialize_states m) = keeps a m"
  "keeps a (m\<lparr>sm_nProcessTimeOut := n\<rparr>) = keeps a m"
  by (simp_all add: keeps_def initialize_states_def sm_simps)

lemma SwitchToNextState_eq:
  "SwitchToNextState m =
     map_option (\<lambda>r. res_bind r (\<lambda>(b, m1). StartStateTimer (if b \<and> process_finished m1 then OnSwitchingState m1 else m1)))
       (switch_loop m)"
proof -
  have "res_bind (current_node n) (\<lambda>st. if st_nodeTimeOut st > 0 then StartStateTimer n else Inr n) = StartStateTimer n"
    for n :: "('a, 'b) StateMachine"
    by (cases "current_node n") (auto simp: StartStateTimer_def)
  then show ?thesis by (simp only: SwitchToNextState_def Let_def)
qed

lemma SwitchToNextState_ok:
  assumes "SwitchToNextState m = Some r" and "located m"
  shows "\<exists>m'. r = Inr m' \<and> located m' \<and> keeps m m'"
proof -
  obtain b m1 where m1: "switch_loop m = Some (Inr (b, m1))" "located m1" "keeps m m1"
    using assms switch_loop_ok[of m] by (fastforce simp: SwitchToNextState_def)
  let ?m2 = "if b \<and> process_finished m1 then OnSwitchingState m1 else m1"
  have m2: "located ?m2" "keeps m ?m2" using m1(2,3) by auto
  have "r = StartStateTimer ?m2" using assms(1) m1(1) by (simp add: SwitchToNextState_eq)
  with StartStateTimer_ok[OF m2(1)] m2 show ?thesis by auto
qed

lemma reset_run_ok:
  assumes "GetState s m \<noteq> None" and "0 \<le> t"
  shows "\<exists>m'. reset_run t s m = Inr m' \<and> located m' \<and> keeps m m' \<and> sm_processStatus m' = PROCESS_IN_THE_MIDDLE \<and>
           current m' = s \<and> (sm_processStatus m \<noteq> PROCESS_NOT_STARTED \<longrightarrow> sm_pStateTimer m' = None)"
  using assms
  by (cases "t = 0")
    (auto simp: reset_run_def Let_def timer_start_def located_def keeps_def initialize_states_def sm_simps)

lemma reset_run_fails: "t < 0 \<Longrightarrow> reset_run t s m = Inl (Throws (Out_of_range ''interval''))"
  by (simp add: reset_run_def Let_def timer_start_def)

lemma run_missing:
  assumes "0 \<le> t" and "GetState s m = None"
  shows "InitializeResetRun t s m = Some (Inl Undefined)"
proof -
  obtain m1 where m1: "reset_run t s m = Inr m1" "current_node m1 = Inl Undefined" using assms
    by (cases "t = 0") (auto simp: reset_run_def Let_def timer_start_def initialize_states_def sm_simps)
  then have "switch_loop m1 = Some (Inl Undefined)" by (simp add: switch_loop.simps switch_body_def)
  with m1(1) show ?thesis by (simp add: InitializeResetRun_def SwitchToNextState_def)
qed

lemma Run_ok:
  assumes "InitializeResetRun t s m = Some r" and "GetState s m \<noteq> None" and "0 \<le> t"
  shows "\<exists>m'. r = Inr m' \<and> located m' \<and> keeps m m'"
proof -
  obtain m1 where m1: "reset_run t s m = Inr m1" "located m1" "keeps m m1" using reset_run_ok[OF assms(2,3)] by blast
  then show ?thesis using assms(1) SwitchToNextState_ok[of m1 r] by (auto simp: InitializeResetRun_def intro: keeps_trans)
qed

lemma activity_then_switch_ok:
  assumes "located m" and "keeps m0 m"
    and "(case res_bind (current_node m) (\<lambda>st. run_activity (a st) m) of
            Inl e \<Rightarrow> Some (Inl e)
          | Inr (b, m1) \<Rightarrow> if b then SwitchToNextState (StopStateTimer (f m1)) else Some (Inr (f m1))) = Some r"
    and "\<And>m1. located (f m1) = located m1" and "\<And>m1. keeps m0 (f m1) = keeps m0 m1"
  shows "\<exists>m'. r = Inr m' \<and> located m' \<and> keeps m0 m'"
proof -
  obtain st where st: "current_node m = Inr st" using assms(1) by (rule locatedE)
  obtain b m1 where m1: "run_activity (a st) m = Inr (b, m1)" "located m1" "keeps m m1"
    using run_activity_ok[OF assms(1)] by blast
  have k: "keeps m0 (f m1)" using assms(2,5) m1(3) keeps_trans by blast
  show ?thesis
  proof (cases b)
    case True
    then have "SwitchToNextState (StopStateTimer (f m1)) = Some r" using assms(3) st m1 by simp
    then show ?thesis using SwitchToNextState_ok[of "StopStateTimer (f m1)" r] m1(2) assms(4) k
      by (metis keeps_trans keeps_updates(7) located_updates(7))
  next
    case False
    then show ?thesis using assms(3,4) st m1 k by auto
  qed
qed

text \<open>Both kinds of events that ask the current state go on the same way.\<close>

definition ask_state ::
  "(('u, 'd) State \<Rightarrow> 'u activity) \<Rightarrow> (('u, 'd) StateMachine \<Rightarrow> ('u, 'd) StateMachine) \<Rightarrow> ('u, 'd) StateMachine \<Rightarrow>
   ('u, 'd) StateMachine result option" where
  "ask_state a f m =
     (case res_bind (current_node m) (\<lambda>st. run_activity (a st) m) of
        Inl e \<Rightarrow> Some (Inl e)
      | Inr (b, m1) \<Rightarrow> if b then SwitchToNextState (StopStateTimer (f m1)) else Some (Inr (f m1)))"

definition mark_timeout :: "('u, 'd) StateMachine \<Rightarrow> ('u, 'd) StateMachine" where
  "mark_timeout m = write_status True (m\<lparr>sm_stStateMachineSts := (sm_stStateMachineSts m)\<lparr>nIsTimeout := TIMEOUT_EXPIRED\<rparr>\<rparr>)"

lemma handle_Data:
  "handle_event (Data d opcode) m =
     (if sm_processStatus m \<noteq> PROCESS_IN_THE_MIDDLE then Some (Inr m)
      else ask_state (\<lambda>st. st_HandleData st d opcode (sm_user m)) id m)"
proof -
  have "res_map snd (res_map (Pair True) r) = r" for r :: "('a, 'b) StateMachine result" by (cases r) auto
  then show ?thesis
    by (auto simp: handle_event_def CallState_def ask_state_def option.map_comp comp_def option.map_ident split: sum.splits)
qed

lemma handle_State_timeout:
  "handle_event State_timeout m = ask_state (\<lambda>st. st_HandleTimeout st (sm_user m)) mark_timeout m"
  by (simp add: handle_event_def HandleStateTimeOut_def ask_state_def mark_timeout_def Let_def split: sum.split)

lemma mark_timeout_ok [simp]:
  "located (mark_timeout m) = located m" "keeps a (mark_timeout m) = keeps a m"
  "current (mark_timeout m) = current m" "same_process a (mark_timeout m) = same_process a m"
  by (simp_all add: mark_timeout_def located_def keeps_def same_process_def sm_simps)

lemma ask_state_ok:
  assumes "ask_state a f m = Some r" and "located m"
    and "\<And>m1. located (f m1) = located m1" and "\<And>m1. keeps m (f m1) = keeps m m1"
  shows "\<exists>m'. r = Inr m' \<and> located m' \<and> keeps m m'"
  using activity_then_switch_ok[OF assms(2) keeps_refl assms(1)[unfolded ask_state_def] assms(3,4)] .

lemma handle_event_ok:
  assumes "handle_event e m = Some r" and "located m" and "enabled e m"
  shows "(\<exists>m'. r = Inr m' \<and> located m' \<and> keeps m m') \<or> r = Inl (Throws (Out_of_range ''interval''))"
proof (cases e)
  case (Run t s)
  show ?thesis
  proof (cases "0 \<le> t")
    case True
    with Run assms show ?thesis using Run_ok[of t s m r] by (auto simp: handle_event_def enabled_def)
  next
    case False
    with Run assms(1) show ?thesis using reset_run_fails[of t s m] by (auto simp: handle_event_def InitializeResetRun_def)
  qed
next
  case Pausing
  then show ?thesis using assms(1,2) by (auto simp: handle_event_def Pause_def Let_def located_def keeps_def sm_simps)
next
  case Resuming
  obtain t where "StartStateTimer m = Inr (m\<lparr>sm_pStateTimer := t\<rparr>)" using StartStateTimer_ok[OF assms(2)] by blast
  then show ?thesis
    using Resuming assms(1,2) by (auto simp: handle_event_def Resume_def Let_def located_def keeps_def sm_simps)
next
  case (Data d opcode)
  then show ?thesis
    using assms(1,2) ask_state_ok[of _ id m r] by (auto simp: handle_Data split: if_splits)
next
  case State_timeout
  then show ?thesis
    using assms(1,2) ask_state_ok[of _ mark_timeout m r] by (auto simp: handle_State_timeout)
qed

lemma reach_keeps:
  assumes "sm_reach m0 m" and "located m0"
  shows "located m \<and> keeps m0 m"
  using assms
proof (induction rule: sm_reach.induct)
  case (sm_event m0 m e m')
  then show ?case using handle_event_ok[of e m "Inr m'"] by (auto intro: keeps_trans)
qed simp

section \<open>Machines without time-outs\<close>

text \<open>
  The timer of the states has a dispatcher and a thread of its own, so that \<^verbatim>\<open>HandleStateTimeOut\<close> runs beside the bodies that
  are sent to the dispatcher of the machine, without any lock. A machine whose states have no time-out never starts this timer, and there
  the steps above are all that happens.
\<close>

definition untimed :: "('u, 'd) StateMachine \<Rightarrow> bool" where
  "untimed m \<longleftrightarrow> sm_pStateTimer m = None \<and> (\<forall>i st. GetState i m = Some st \<longrightarrow> st_nodeTimeOut st \<le> 0)"

lemma untimed_cong: "keeps m m' \<Longrightarrow> sm_pStateTimer m' = sm_pStateTimer m \<Longrightarrow> untimed m' = untimed m"
  by (simp add: untimed_def GetState_keeps)

lemma untimed_updates [simp]:
  "untimed (OnSwitchingState m) = untimed m" "untimed (mark_timeout m) = untimed m" "untimed (m\<lparr>sm_user := u\<rparr>) = untimed m"
  "untimed (m\<lparr>sm_processStatus := st\<rparr>) = untimed m" "untimed (m\<lparr>sm_LastprocessStatus := st\<rparr>) = untimed m"
  by (simp_all add: untimed_def mark_timeout_def sm_simps)

lemma untimed_StopStateTimer [simp]: "untimed m \<Longrightarrow> untimed (StopStateTimer m)"
  by (simp add: untimed_def sm_simps)

lemma untimed_StartStateTimer: "untimed m \<Longrightarrow> StartStateTimer m = Inr m' \<Longrightarrow> m' = m"
  by (auto simp: untimed_def StartStateTimer_def current_node_def split: option.splits if_splits)
    (metis linorder_not_less)

lemma switch_body_timer: "switch_body m = Inr (b, m') \<Longrightarrow> located m \<Longrightarrow> sm_pStateTimer m' = sm_pStateTimer m"
proof -
  assume sb: "switch_body m = Inr (b, m')" and "located m"
  then obtain st where st: "current_node m = Inr st" by (blast elim: locatedE)
  let ?m1 = "write_status False (OnSwitchingState (finish_process (st_stateType st) m))"
  have m1: "located ?m1" "current_node ?m1 = Inr st" "sm_pStateTimer ?m1 = sm_pStateTimer m"
    using st \<open>located m\<close> by (auto simp: located_def finish_process_def sm_simps)
  from sb st m1(2) have "run_activity (st_HandleEnteredState st (sm_user ?m1)) ?m1 = Inr (b, m')" by (simp add: switch_body_def Let_def)
  with run_activity_ok[OF m1(1), of "st_HandleEnteredState st (sm_user ?m1)"] m1(3) show ?thesis by (auto simp: same_process_def)
qed

lemma switch_loop_timer:
  assumes "switch_loop m = Some r" and "located m"
  shows "\<forall>b m'. r = Inr (b, m') \<longrightarrow> sm_pStateTimer m' = sm_pStateTimer m"
  using assms
proof (induction rule: switch_loop_rounds)
  case (again m m1 r)
  then show ?case using switch_body_ok[of m] switch_body_timer[of m True m1] by auto
qed (use switch_body_timer in auto)

lemma SwitchToNextState_untimed:
  assumes "SwitchToNextState m = Some (Inr m')" and "located m" and "untimed m"
  shows "untimed m'"
proof -
  obtain b m1 where m1: "switch_loop m = Some (Inr (b, m1))" "keeps m m1"
    using assms(1,2) switch_loop_ok[of m] by (fastforce simp: SwitchToNextState_def)
  have "untimed m1" using untimed_cong[OF m1(2)] switch_loop_timer[OF m1(1) assms(2)] assms(3) by simp
  then have u: "untimed (if b \<and> process_finished m1 then OnSwitchingState m1 else m1)" by simp
  have "StartStateTimer (if b \<and> process_finished m1 then OnSwitchingState m1 else m1) = Inr m'" using assms(1) m1(1) by (simp add: SwitchToNextState_eq)
  from untimed_StartStateTimer[OF u this] u show ?thesis by simp
qed

lemma ask_state_untimed:
  assumes "ask_state a f m = Some (Inr m')" and "located m" and "untimed m" and "\<And>m1. located (f m1) = located m1" and "\<And>m1. untimed (f m1) = untimed m1"
  shows "untimed m'"
proof -
  obtain st where st: "current_node m = Inr st" using assms(2) by (rule locatedE)
  obtain b m1 where m1: "run_activity (a st) m = Inr (b, m1)" "located m1" "keeps m m1" "same_process m m1"
    using run_activity_ok[OF assms(2)] by blast
  have u: "untimed (f m1)" using untimed_cong[OF m1(3)] m1(4) assms(3,5) by (simp add: same_process_def)
  show ?thesis
  proof (cases b)
    case True
    with assms(1) st m1(1) have "SwitchToNextState (StopStateTimer (f m1)) = Some (Inr m')" by (simp add: ask_state_def)
    from SwitchToNextState_untimed[OF this] u m1(2) assms(4) show ?thesis by simp
  next
    case False
    with assms(1) st m1(1) u show ?thesis by (simp add: ask_state_def)
  qed
qed

lemma event_untimed:
  assumes "handle_event e m = Some (Inr m')" and "located m" and "enabled e m" and "untimed m"
  shows "untimed m'"
proof (cases e)
  case (Run t s)
  then have run: "InitializeResetRun t s m = Some (Inr m')" "GetState s m \<noteq> None" using assms(1,3) by (auto simp: handle_event_def enabled_def)
  then have t: "0 \<le> t" using reset_run_fails[of t s m] by (force simp: InitializeResetRun_def)
  obtain m1 where m1: "reset_run t s m = Inr m1" "located m1" "keeps m m1" using reset_run_ok[OF run(2) t] by blast
  have "sm_pStateTimer m1 = None" using m1(1) assms(4)
    by (auto simp: reset_run_def Let_def timer_start_def initialize_states_def untimed_def sm_simps split: if_splits)
  then have "untimed m1" using untimed_cong[OF m1(3)] assms(4) by (simp add: untimed_def)
  moreover have "SwitchToNextState m1 = Some (Inr m')" using run(1) m1(1) by (simp add: InitializeResetRun_def)
  ultimately show ?thesis using SwitchToNextState_untimed m1(2) by blast
next
  case Pausing
  then show ?thesis using assms(1,4) by (auto simp: handle_event_def Pause_def Let_def res_simps split: if_splits)
next
  case Resuming
  then show ?thesis using assms(1,4) untimed_StartStateTimer[OF assms(4)]
    by (auto simp: handle_event_def Resume_def Let_def res_simps split: if_splits)
next
  case (Data d opcode)
  then show ?thesis using assms(1,2,4) ask_state_untimed[of _ id m m'] by (auto simp: handle_Data split: if_splits)
next
  case State_timeout
  then show ?thesis using assms(3,4) by (simp add: enabled_def untimed_def)
qed

lemma reach_untimed:
  assumes "sm_reach m0 m" and "located m0" and "untimed m0"
  shows "untimed m"
  using assms
proof (induction rule: sm_reach.induct)
  case (sm_event m0 m e m')
  then show ?case using reach_keeps[OF sm_event.hyps(1)] event_untimed[of e m m'] by simp
qed simp

section \<open>The timer of the states\<close>

text \<open>
  Two threads use the timer (\<^verbatim>\<open>Include/utils/timer.hpp\<close>): the one of the machine, which stops it, and the one of the timer's own
  dispatcher, which calls \<^verbatim>\<open>HandleStateTimeOut\<close>, and this stops the timer too when the state has moved. \<^verbatim>\<open>stop\<close> takes the mutex;
  when the timer runs it waits, with the mutex held, until the timer's thread has finished what it does (\<^verbatim>\<open>unregister_timer\<close>
  synchronises with it and the end of the dispatcher joins it), unless it is the timer's thread that calls.
\<close>

datatype stop_phase = Not_stopping | Locking | Waiting

record state_timer =
  tm_running :: bool
  tm_locked :: bool
  tm_machine :: stop_phase
  tm_ticking :: bool
  tm_tick :: stop_phase

inductive timer_step :: "state_timer \<Rightarrow> state_timer \<Rightarrow> bool" where
  tick: "tm_running t \<Longrightarrow> \<not> tm_ticking t \<Longrightarrow> timer_step t (t\<lparr>tm_ticking := True\<rparr>)"
| tick_return: "tm_ticking t \<Longrightarrow> tm_tick t = Not_stopping \<Longrightarrow> timer_step t (t\<lparr>tm_ticking := False\<rparr>)"
| tick_stops: "tm_ticking t \<Longrightarrow> tm_tick t = Not_stopping \<Longrightarrow> timer_step t (t\<lparr>tm_tick := Locking\<rparr>)"
| tick_stopped: "tm_tick t = Locking \<Longrightarrow> \<not> tm_locked t \<Longrightarrow> timer_step t (t\<lparr>tm_tick := Not_stopping, tm_running := False\<rparr>)"
| machine_stops: "tm_machine t = Not_stopping \<Longrightarrow> timer_step t (t\<lparr>tm_machine := Locking\<rparr>)"
| machine_locks: "tm_machine t = Locking \<Longrightarrow> \<not> tm_locked t \<Longrightarrow> tm_running t \<Longrightarrow> timer_step t (t\<lparr>tm_machine := Waiting, tm_locked := True\<rparr>)"
| machine_idle: "tm_machine t = Locking \<Longrightarrow> \<not> tm_locked t \<Longrightarrow> \<not> tm_running t \<Longrightarrow> timer_step t (t\<lparr>tm_machine := Not_stopping\<rparr>)"
| machine_stopped: "tm_machine t = Waiting \<Longrightarrow> \<not> tm_ticking t \<Longrightarrow>
     timer_step t (t\<lparr>tm_machine := Not_stopping, tm_locked := False, tm_running := False\<rparr>)"

inductive timer_reach :: "state_timer \<Rightarrow> state_timer \<Rightarrow> bool" where
  timer_begin: "timer_reach t t"
| timer_next: "timer_reach t0 t \<Longrightarrow> timer_step t t' \<Longrightarrow> timer_reach t0 t'"

inductive_cases timer_stepE: "timer_step t t'"

definition timer_started :: state_timer where
  "timer_started = \<lparr>tm_running = True, tm_locked = False, tm_machine = Not_stopping, tm_ticking = False, tm_tick = Not_stopping\<rparr>"

section \<open>Disciplined states\<close>

text \<open>An activity announces its moves if it returns true exactly when one of its transitions succeeded. The
  states of a disciplined machine do so, and its end states have no transitions.\<close>

primrec announces :: "'u activity \<Rightarrow> bool \<Rightarrow> bool" where
  "announces (Returns b u) moved = (b = moved)"
| "announces (Performs opcode u k) moved = (\<forall>b u. announces (k b u) (moved \<or> b))"

definition status_of :: "StateType \<Rightarrow> ProcessStatus" where
  "status_of t =
     (case t of STATE_END_SUCCESS \<Rightarrow> PROCESS_FINISHED_SUCCESSFULY | STATE_END_FAIL \<Rightarrow> PROCESS_FINISHED_FAIL
      | STATE_END_ABORT \<Rightarrow> PROCESS_FINISHED_ABORTED | _ \<Rightarrow> PROCESS_IN_THE_MIDDLE)"

definition disciplined_state :: "('u, 'd) State \<Rightarrow> bool" where
  "disciplined_state st \<longleftrightarrow>
     (\<forall>u. announces (st_HandleEnteredState st u) False) \<and> (\<forall>u. announces (st_HandleTimeout st u) False) \<and>
     (\<forall>d opcode u. announces (st_HandleData st d opcode u) False) \<and>
     (status_of (st_stateType st) = PROCESS_IN_THE_MIDDLE \<or> st_numOfTransitions st = 0)"

definition disciplined :: "('u, 'd) StateMachine \<Rightarrow> bool" where
  "disciplined m \<longleftrightarrow> (\<forall>i st. GetState i m = Some st \<longrightarrow> disciplined_state st)"

lemma disciplined_keeps: "keeps m m' \<Longrightarrow> disciplined m' = disciplined m"
  by (simp add: disciplined_def GetState_keeps)

lemma PerformTransition_moves:
  assumes "PerformTransition opcode m = Inr (b, m')" and "current_node m = Inr st"
  shows "if b then current m' = FindTransition opcode st \<and> FindTransition opcode st \<noteq> -1 else current m' = current m"
  using assms by (auto simp: PerformTransition_def Let_def sm_simps split: option.splits if_splits)

lemma no_transitions: "st_numOfTransitions st = 0 \<Longrightarrow> FindTransition opcode st = -1"
  by (simp add: FindTransition_def)

lemma current_node_user [simp]: "current_node (m\<lparr>sm_user := u\<rparr>) = current_node m"
  by (simp add: sm_simps)

lemma current_node_located: "current_node m = Inr st \<Longrightarrow> located m \<and> GetState (current m) m = Some st"
  by (simp add: current_node_def located_def split: option.splits)

lemma current_node_same: "keeps m m' \<Longrightarrow> current m' = current m \<Longrightarrow> current_node m' = current_node m"
  by (simp add: current_node_def GetState_keeps)

text \<open>What a transition of an activity does, step by step.\<close>

lemma PerformsE:
  assumes "run_activity (Performs opcode u k) m = Inr (b, m')" and "current_node m = Inr st"
  obtains b1 m1 where "run_activity (k b1 (sm_user m1)) m1 = Inr (b, m')" and "keeps m m1" and "located m1"
    and "if b1 then current m1 = FindTransition opcode st \<and> FindTransition opcode st \<noteq> -1 else current m1 = current m"
proof -
  have loc: "located (m\<lparr>sm_user := u\<rparr>)" using assms(2) current_node_located by auto
  obtain b1 m1 where p: "PerformTransition opcode (m\<lparr>sm_user := u\<rparr>) = Inr (b1, m1)"
    "run_activity (k b1 (sm_user m1)) m1 = Inr (b, m')"
    using assms(1) by (auto simp: res_simps)
  have "located m1" "keeps m m1"
    using PerformTransition_ok[OF loc, of opcode] p(1) by (auto simp: keeps_def)
  with p PerformTransition_moves[OF p(1)] assms(2) show ?thesis by (intro that) auto
qed

lemma announced_still:
  "announces a moved \<Longrightarrow> run_activity a m = Inr (b, m') \<Longrightarrow> current_node m = Inr st \<Longrightarrow>
   (\<not> b \<longrightarrow> current m' = current m \<and> \<not> moved) \<and> (st_numOfTransitions st = 0 \<longrightarrow> current m' = current m \<and> b = moved)"
proof (induction a arbitrary: m moved st)
  case (Performs opcode u k)
  from Performs.prems(2,3) obtain b1 m1 where m1: "run_activity (k b1 (sm_user m1)) m1 = Inr (b, m')" "keeps m m1" "located m1"
    "if b1 then current m1 = FindTransition opcode st \<and> FindTransition opcode st \<noteq> -1 else current m1 = current m"
    by (rule PerformsE)
  obtain st1 where st1: "current_node m1 = Inr st1" using m1(3) by (rule locatedE)
  have IH: "(\<not> b \<longrightarrow> current m' = current m1 \<and> \<not> (moved \<or> b1)) \<and>
      (st_numOfTransitions st1 = 0 \<longrightarrow> current m' = current m1 \<and> b = (moved \<or> b1))"
    using Performs.prems(1) by (intro Performs.IH[OF rangeI rangeI _ m1(1) st1]) simp
  have none: "st_numOfTransitions st = 0 \<longrightarrow> \<not> b1" using m1(4) no_transitions[of st opcode] by auto
  show ?case
  proof (cases b1)
    case True
    with IH none show ?thesis by simp
  next
    case False
    with m1(4) have "current m1 = current m" by simp
    moreover from current_node_same[OF m1(2) this] st1 Performs.prems(3) have "st1 = st" by simp
    ultimately show ?thesis using IH False by simp
  qed
qed auto

section \<open>The status matches the state\<close>

definition settled_run :: "('u, 'd) StateMachine \<Rightarrow> bool" where
  "settled_run m \<longleftrightarrow>
     (\<exists>st. GetState (current m) m = Some st \<and> sm_processStatus m = status_of (st_stateType st) \<and>
        (sm_processStatus m \<noteq> PROCESS_IN_THE_MIDDLE \<longrightarrow> sm_pProcessTimer m = None))"

text \<open>The status is the one that belongs to the type of the current state, the process timer runs only in
  the middle of a process, and a paused machine remembers such a status and has no state timer.\<close>

definition settled :: "('u, 'd) StateMachine \<Rightarrow> bool" where
  "settled m \<longleftrightarrow>
     (if sm_processStatus m = PROCESS_PAUSED
      then settled_run (m\<lparr>sm_processStatus := sm_LastprocessStatus m\<rparr>) \<and> sm_pStateTimer m = None
      else settled_run m)"

lemma status_of_not_paused [simp]: "status_of t \<noteq> PROCESS_PAUSED" "status_of t \<noteq> PROCESS_NOT_STARTED"
  by (cases t; simp add: status_of_def)+

lemma settled_run_settled: "settled_run m \<Longrightarrow> settled m"
  using status_of_not_paused(1)[symmetric] by (auto simp: settled_def settled_run_def)

lemma finish_process_status:
  "sm_processStatus m = PROCESS_IN_THE_MIDDLE \<Longrightarrow>
   sm_processStatus (finish_process t m) = status_of t \<and>
   (status_of t \<noteq> PROCESS_IN_THE_MIDDLE \<longrightarrow> sm_pProcessTimer (finish_process t m) = None)"
  by (cases t) (simp_all add: finish_process_def status_of_def)

lemma switch_body_settles:
  assumes "switch_body m = Inr (b, m')" and "located m" and "disciplined m" and "sm_processStatus m = PROCESS_IN_THE_MIDDLE"
  shows "if b then sm_processStatus m' = PROCESS_IN_THE_MIDDLE else settled_run m'"
proof -
  obtain st where st: "GetState (current m) m = Some st" "current_node m = Inr st" using assms(2) by (rule locatedE)
  let ?m1 = "write_status False (OnSwitchingState (finish_process (st_stateType st) m))"
  have m1: "current_node ?m1 = Inr st" "current ?m1 = current m" "sm_processStatus ?m1 = status_of (st_stateType st)"
    "status_of (st_stateType st) \<noteq> PROCESS_IN_THE_MIDDLE \<longrightarrow> sm_pProcessTimer ?m1 = None"
    using st finish_process_status[OF assms(4), of "st_stateType st"] by (auto simp: finish_process_def sm_simps)
  have run: "run_activity (st_HandleEnteredState st (sm_user ?m1)) ?m1 = Inr (b, m')"
    using assms(1) st(2) m1(1) by (simp add: switch_body_def Let_def)
  have same: "same_process ?m1 m'" "keeps ?m1 m'"
    using run_activity_ok[of ?m1 "st_HandleEnteredState st (sm_user ?m1)"] current_node_located[OF m1(1)] run by auto
  have d: "disciplined_state st" using assms(3) st(1) by (auto simp: disciplined_def)
  then have still: "(\<not> b \<longrightarrow> current m' = current m) \<and> (st_numOfTransitions st = 0 \<longrightarrow> current m' = current m \<and> \<not> b)"
    using announced_still[OF _ run m1(1), of False] m1(2) by (auto simp: disciplined_state_def)
  show ?thesis
  proof (cases b)
    case True
    with still d have "status_of (st_stateType st) = PROCESS_IN_THE_MIDDLE" by (auto simp: disciplined_state_def)
    with True m1(3) same(1) show ?thesis by (simp add: same_process_def)
  next
    case False
    have "GetState (current m') m' = Some st"
      using False still GetState_keeps[OF same(2)] m1(2) current_node_located[OF m1(1)] by simp
    with False m1(3,4) same(1) show ?thesis by (auto simp: settled_run_def same_process_def)
  qed
qed

lemma switch_loop_settles:
  assumes "switch_loop m = Some r" and "located m" and "disciplined m" and "sm_processStatus m = PROCESS_IN_THE_MIDDLE"
  shows "\<exists>m'. r = Inr (False, m') \<and> settled_run m'"
  using assms
proof (induction rule: switch_loop_rounds)
  case (fault m e)
  then show ?case using switch_body_ok[of m] by simp
next
  case (again m m1 r)
  have "located m1" "keeps m m1" using switch_body_ok[OF again.prems(1)] again.hyps(1) by auto
  with again switch_body_settles[OF again.hyps(1) again.prems] disciplined_keeps show ?case by auto
next
  case (stop m b m1)
  then show ?case using switch_body_settles[OF stop(1,3,4,5)] by (auto simp: process_finished_def split: if_splits)
qed

lemma SwitchToNextState_settles:
  assumes "SwitchToNextState m = Some (Inr m')" and "located m" and "disciplined m" and "sm_processStatus m = PROCESS_IN_THE_MIDDLE"
  shows "settled m'"
proof -
  obtain m1 where m1: "switch_loop m = Some (Inr (False, m1))" "settled_run m1"
    using assms switch_loop_settles[of m] by (fastforce simp: SwitchToNextState_eq)
  then have "located m1" by (auto simp: settled_run_def located_def)
  then obtain t where "m' = m1\<lparr>sm_pStateTimer := t\<rparr>"
    using assms(1) m1(1) StartStateTimer_ok[of m1] by (auto simp: SwitchToNextState_eq)
  with m1(2) show ?thesis by (intro settled_run_settled) (simp add: settled_run_def GetState_def)
qed

lemma settled_located: "settled m \<Longrightarrow> located m"
  by (auto simp: settled_def settled_run_def located_def GetState_def split: if_splits)

lemma settled_run_keeps:
  assumes "settled_run m" and "keeps m m'" and "same_process m m'" and "current m' = current m"
  shows "settled_run m'"
  using assms GetState_keeps[OF assms(2)] by (auto simp: settled_run_def same_process_def)

lemma ask_state_settles:
  assumes "ask_state a f m = Some (Inr m')" and "disciplined m" and "settled_run m"
    and "\<And>st. GetState (current m) m = Some st \<Longrightarrow> disciplined_state st \<Longrightarrow> announces (a st) False"
    and "\<And>m1. located (f m1) = located m1" and "\<And>m1. keeps m (f m1) = keeps m m1"
    and "\<And>m1. same_process m (f m1) = same_process m m1" and "\<And>m1. current (f m1) = current m1"
  shows "settled m'"
proof -
  have loc: "located m" using assms(3) by (auto simp: settled_run_def located_def)
  then obtain st where st: "GetState (current m) m = Some st" "current_node m = Inr st" by (rule locatedE)
  have d: "disciplined_state st" using assms(2) st(1) by (auto simp: disciplined_def)
  obtain b m1 where m1: "run_activity (a st) m = Inr (b, m1)" "located m1" "keeps m m1" "same_process m m1"
    using run_activity_ok[OF loc] by blast
  have still: "(\<not> b \<longrightarrow> current m1 = current m) \<and> (st_numOfTransitions st = 0 \<longrightarrow> \<not> b)"
    using announced_still[OF assms(4)[OF st(1) d] m1(1) st(2)] by simp
  show ?thesis
  proof (cases b)
    case False
    then have "m' = f m1" using assms(1) st m1 by (simp add: ask_state_def)
    with settled_run_keeps[OF assms(3)] assms(6-8) m1 still False show ?thesis by (simp add: settled_run_settled)
  next
    case True
    with still d have "sm_processStatus m = PROCESS_IN_THE_MIDDLE"
      using assms(3) st(1) by (auto simp: disciplined_state_def settled_run_def)
    then have "sm_processStatus (f m1) = PROCESS_IN_THE_MIDDLE"
      using assms(7)[of m1] m1(4) by (simp add: same_process_def)
    moreover have "disciplined (StopStateTimer (f m1))"
      using assms(2,6) m1(3) disciplined_keeps[of m "StopStateTimer (f m1)"] by simp
    ultimately show ?thesis
      using True assms(1,5) st m1 SwitchToNextState_settles[of "StopStateTimer (f m1)" m']
      by (simp add: ask_state_def StopStateTimer_def)
  qed
qed

lemma event_settles:
  assumes "handle_event e m = Some (Inr m')" and "enabled e m" and "disciplined m" and "settled m"
  shows "settled m'"
proof (cases e)
  case (Run t s)
  have t: "0 \<le> t"
  proof (rule ccontr)
    assume "\<not> 0 \<le> t"
    then show False using assms(1) Run reset_run_fails[of t s m] by (simp add: handle_event_def InitializeResetRun_def)
  qed
  then obtain m1 where m1: "reset_run t s m = Inr m1" "located m1" "keeps m m1" "sm_processStatus m1 = PROCESS_IN_THE_MIDDLE"
    using reset_run_ok[of s m t] Run assms(2) by (auto simp: enabled_def)
  then show ?thesis
    using assms(1,3) Run SwitchToNextState_settles[of m1 m'] disciplined_keeps[OF m1(3)]
    by (simp add: handle_event_def InitializeResetRun_def)
next
  case Pausing
  then show ?thesis
    using assms(1,4) by (auto simp: handle_event_def Pause_def Let_def settled_def settled_run_def res_simps sm_simps split: if_splits)
next
  case Resuming
  obtain t where "StartStateTimer m = Inr (m\<lparr>sm_pStateTimer := t\<rparr>)"
    using StartStateTimer_ok[OF settled_located[OF assms(4)]] by blast
  then show ?thesis
    using Resuming assms(1,4) by (auto simp: handle_event_def Resume_def Let_def settled_def settled_run_def res_simps sm_simps split: if_splits)
next
  case (Data d opcode)
  then show ?thesis
    using assms ask_state_settles[of _ id m m']
    by (auto simp: handle_Data settled_def disciplined_state_def split: if_splits)
next
  case State_timeout
  then show ?thesis
    using assms ask_state_settles[of _ mark_timeout m m']
    by (auto simp: handle_State_timeout settled_def enabled_def disciplined_state_def split: if_splits)
qed

section \<open>Acyclic machines\<close>

definition ranked :: "(int \<Rightarrow> nat) \<Rightarrow> ('u, 'd) StateMachine \<Rightarrow> bool" where
  "ranked rank m \<longleftrightarrow>
     (\<forall>i st opcode. GetState i m = Some st \<and> FindTransition opcode st \<noteq> -1 \<longrightarrow> rank (FindTransition opcode st) < rank i)"

lemma ranked_keeps: "keeps m m' \<Longrightarrow> ranked rank m' = ranked rank m"
  by (simp add: ranked_def GetState_keeps)

lemma announced_descends:
  "announces a moved \<Longrightarrow> run_activity a m = Inr (b, m') \<Longrightarrow> located m \<Longrightarrow> ranked rank m \<Longrightarrow>
   rank (current m') \<le> rank (current m) \<and> (b \<and> \<not> moved \<longrightarrow> rank (current m') < rank (current m))"
proof (induction a arbitrary: m moved)
  case (Performs opcode u k)
  obtain st where st: "GetState (current m) m = Some st" "current_node m = Inr st" using Performs.prems(3) by (rule locatedE)
  from Performs.prems(2) st(2) obtain b1 m1 where m1: "run_activity (k b1 (sm_user m1)) m1 = Inr (b, m')" "keeps m m1" "located m1"
    "if b1 then current m1 = FindTransition opcode st \<and> FindTransition opcode st \<noteq> -1 else current m1 = current m"
    by (rule PerformsE)
  have r: "ranked rank m1" using Performs.prems(4) ranked_keeps[OF m1(2)] by simp
  have IH: "rank (current m') \<le> rank (current m1) \<and> (b \<and> \<not> (moved \<or> b1) \<longrightarrow> rank (current m') < rank (current m1))"
    using Performs.prems(1) by (intro Performs.IH[OF rangeI rangeI _ m1(1,3) r]) simp
  have "b1 \<longrightarrow> rank (current m1) < rank (current m)"
    using Performs.prems(4) st(1) m1(4) unfolding ranked_def by (metis (full_types))
  with IH m1(4) show ?case by (cases b1) auto
qed auto

lemma switch_body_descends:
  assumes "switch_body m = Inr (True, m')" and "located m" and "disciplined m" and "ranked rank m"
  shows "rank (current m') < rank (current m)"
proof -
  obtain st where st: "GetState (current m) m = Some st" "current_node m = Inr st" using assms(2) by (rule locatedE)
  let ?m1 = "write_status False (OnSwitchingState (finish_process (st_stateType st) m))"
  have m1: "current_node ?m1 = Inr st" "current ?m1 = current m" "located ?m1" "ranked rank ?m1"
    using st assms(2,4) by (auto simp: finish_process_def ranked_def located_def sm_simps)
  have "announces (st_HandleEnteredState st (sm_user ?m1)) False"
    using assms(3) st(1) by (auto simp: disciplined_def disciplined_state_def)
  moreover have "run_activity (st_HandleEnteredState st (sm_user ?m1)) ?m1 = Inr (True, m')"
    using assms(1) st(2) m1(1) by (simp add: switch_body_def Let_def)
  ultimately show ?thesis using announced_descends[OF _ _ m1(3,4)] m1(2) by fastforce
qed

lemma switch_loop_returns:
  assumes "located m" and "disciplined m" and "ranked rank m"
  shows "\<exists>r. switch_loop m = Some r"
  using assms
proof (induction "rank (current m)" arbitrary: m rule: less_induct)
  case less
  obtain b m1 where m1: "switch_body m = Inr (b, m1)" "located m1" "keeps m m1" using switch_body_ok[OF less.prems(1)] by blast
  show ?case
  proof (cases "b \<and> \<not> process_finished m1")
    case True
    have "ranked rank m1" using less.prems(3) ranked_keeps[OF m1(3)] by simp
    then have "\<exists>r. switch_loop m1 = Some r"
      using less.hyps[OF _ m1(2)] switch_body_descends[of m m1 rank] m1 True less.prems disciplined_keeps[OF m1(3)] by simp
    then show ?thesis using m1 True by (subst switch_loop.simps) simp
  next
    case False
    then show ?thesis using m1 by (subst switch_loop.simps) auto
  qed
qed

lemma SwitchToNextState_returns:
  "located m \<Longrightarrow> disciplined m \<Longrightarrow> ranked rank m \<Longrightarrow> \<exists>r. SwitchToNextState m = Some r"
  using switch_loop_returns[of m rank] by (auto simp: SwitchToNextState_eq)

lemma ask_state_returns:
  assumes "located m" and "disciplined m" and "ranked rank m"
    and "\<And>m1. located (f m1) = located m1" and "\<And>m1. keeps m (f m1) = keeps m m1"
  shows "\<exists>r. ask_state a f m = Some r"
proof -
  obtain st where st: "current_node m = Inr st" using assms(1) by (rule locatedE)
  obtain b m1 where m1: "run_activity (a st) m = Inr (b, m1)" "located m1" "keeps m m1"
    using run_activity_ok[OF assms(1)] by blast
  have "keeps m (StopStateTimer (f m1))" "located (StopStateTimer (f m1))" using assms(4,5) m1 by simp_all
  then have "\<exists>r. SwitchToNextState (StopStateTimer (f m1)) = Some r"
    using SwitchToNextState_returns[of "StopStateTimer (f m1)" rank] disciplined_keeps ranked_keeps assms(2,3) by blast
  then show ?thesis using st m1 by (auto simp: ask_state_def)
qed

lemma event_returns:
  assumes "enabled e m" and "located m" and "disciplined m" and "ranked rank m"
  shows "\<exists>r. handle_event e m = Some r"
proof (cases e)
  case (Run t s)
  show ?thesis
  proof (cases "0 \<le> t")
    case True
    then obtain m1 where m1: "reset_run t s m = Inr m1" "located m1" "keeps m m1"
      using reset_run_ok[of s m t] Run assms(1) by (auto simp: enabled_def)
    then show ?thesis
      using SwitchToNextState_returns[of m1 rank] disciplined_keeps[OF m1(3)] ranked_keeps[OF m1(3)] assms(3,4) Run
      by (simp add: handle_event_def InitializeResetRun_def)
  next
    case False
    then show ?thesis using Run reset_run_fails[of t s m] by (simp add: handle_event_def InitializeResetRun_def)
  qed
next
  case (Data d opcode)
  then show ?thesis using ask_state_returns[OF assms(2-4), of id] by (simp add: handle_Data)
next
  case State_timeout
  then show ?thesis using ask_state_returns[OF assms(2-4), of mark_timeout] by (simp add: handle_State_timeout)
qed (simp_all add: handle_event_def)

section \<open>The transition table\<close>

primrec add_transitions :: "(16 word \<times> 16 word) list \<Rightarrow> ('u, 'd) State \<Rightarrow> (bool list \<times> ('u, 'd) State) result" where
  "add_transitions [] st = Inr ([], st)"
| "add_transitions (t # ts) st =
     res_bind (AddTransition (fst t) (snd t) st) (\<lambda>(b, st1). res_map (apfst ((#) b)) (add_transitions ts st1))"

definition holds_transitions :: "(16 word \<times> 16 word) list \<Rightarrow> ('u, 'd) State \<Rightarrow> bool" where
  "holds_transitions ts st \<longleftrightarrow>
     st_numOfTransitions st = length ts \<and> length ts \<le> MAX_NUM_OF_TRANSITIONS_PER_STATE \<and>
     length (st_transitionsArray st) = MAX_TRANSITIONS_COUNT_PER_STATE \<and>
     take (length ts) (st_transitionsArray st) = map (\<lambda>t. \<lparr>tr_opcode = fst t, tr_nextState = snd t\<rparr>) ts"

lemma AddTransition_holds:
  assumes "holds_transitions old st"
  shows "\<exists>st'. AddTransition (fst t) (snd t) st = Inr (length old < MAX_NUM_OF_TRANSITIONS_PER_STATE, st') \<and>
           holds_transitions (take MAX_NUM_OF_TRANSITIONS_PER_STATE (old @ [t])) st'"
  using assms
  by (auto simp: AddTransition_def holds_transitions_def MAX_NUM_OF_TRANSITIONS_PER_STATE_def
      MAX_TRANSITIONS_COUNT_PER_STATE_def take_Suc_conv_app_nth)

lemma map_beyond: "m \<le> a \<Longrightarrow> map (\<lambda>k. k < m) [a..<a + n] = replicate n False" for m :: nat
  by (intro nth_equalityI) auto

lemma add_transitions_holds:
  "holds_transitions old st \<Longrightarrow>
   \<exists>st'. add_transitions ts st = Inr (map (\<lambda>k. k < MAX_NUM_OF_TRANSITIONS_PER_STATE) [length old..<length old + length ts], st') \<and>
         holds_transitions (take MAX_NUM_OF_TRANSITIONS_PER_STATE (old @ ts)) st'"
proof (induction ts arbitrary: old st)
  case Nil
  then show ?case by (simp add: holds_transitions_def)
next
  case (Cons t ts)
  obtain st1 where st1: "AddTransition (fst t) (snd t) st = Inr (length old < MAX_NUM_OF_TRANSITIONS_PER_STATE, st1)"
    "holds_transitions (take MAX_NUM_OF_TRANSITIONS_PER_STATE (old @ [t])) st1"
    using AddTransition_holds[OF Cons.prems] by blast
  have le: "length old \<le> MAX_NUM_OF_TRANSITIONS_PER_STATE" using Cons.prems by (simp add: holds_transitions_def)
  show ?case
  proof (cases "length old < MAX_NUM_OF_TRANSITIONS_PER_STATE")
    case True
    then have "take MAX_NUM_OF_TRANSITIONS_PER_STATE (old @ [t]) = old @ [t]" by simp
    moreover have "[length old..<length old + length (t # ts)] = length old # [length (old @ [t])..<length (old @ [t]) + length ts]"
      by (simp add: upt_conv_Cons del: upt_Suc)
    ultimately show ?thesis using Cons.IH[of "old @ [t]" st1] st1 True
      by (auto simp del: take_append upt_Suc)
  next
    case False
    with le have full: "length old = MAX_NUM_OF_TRANSITIONS_PER_STATE" by simp
    with Cons.IH[of old st1] st1 show ?thesis
      using map_beyond[of MAX_NUM_OF_TRANSITIONS_PER_STATE "length old" "length ts"]
        map_beyond[of MAX_NUM_OF_TRANSITIONS_PER_STATE "length old" "length (t # ts)"]
      by (auto simp del: upt_Suc)
  qed
qed

lemma find_map_pairs:
  "find (\<lambda>t. opcode = tr_opcode t) (map (\<lambda>t. \<lparr>tr_opcode = fst t, tr_nextState = snd t\<rparr>) ts) =
   map_option (\<lambda>t. \<lparr>tr_opcode = fst t, tr_nextState = snd t\<rparr>) (find (\<lambda>t. fst t = opcode) ts)"
  by (induction ts) auto

lemma State_create_empty: "holds_transitions [] (State_create e x h i t ty)"
  by (simp add: holds_transitions_def State_create_def)

section \<open>Properties\<close>

text \<open>A small machine for the examples: state 0 moves to the end state 1 when data with opcode 1 arrive.\<close>

definition move_on :: "unit \<Rightarrow> 32 word \<Rightarrow> unit \<Rightarrow> unit activity" where
  "move_on d opcode u = Performs (ucast opcode) u Returns"

definition sample_state :: "(unit, unit) State" where
  "sample_state =
     (State_create (Returns False) id move_on 0 0 STATE_DEFAULT)
       \<lparr>st_transitionsArray := [\<lparr>tr_opcode = 1, tr_nextState = 1\<rparr>], st_numOfTransitions := 1\<rparr>"

definition sample_end :: "(unit, unit) State" where
  "sample_end = State_create (Returns False) id (\<lambda>d opcode. Returns False) 1 0 STATE_END_SUCCESS"

definition sample_machine :: "(unit, unit) StateMachine" where
  "sample_machine =
     (StateMachine_create None id ())
       \<lparr>sm_nodeTable := [(0, sample_state), (1, sample_end)], sm_processStatus := PROCESS_IN_THE_MIDDLE\<rparr>"

lemma sample_states:
  "GetState i sample_machine = (if i = 0 then Some sample_state else if i = 1 then Some sample_end else None)"
  by (simp add: GetState_def sample_machine_def)

lemma sample_current: "current sample_machine = 0" "sm_processStatus sample_machine = PROCESS_IN_THE_MIDDLE"
  by (simp_all add: sample_machine_def StateMachine_create_def)

lemma sample_ready: "located sample_machine" "settled sample_machine" "disciplined sample_machine" "untimed sample_machine"
proof -
  show "located sample_machine" by (simp add: located_def sample_states sample_current)
  show "settled sample_machine"
    by (intro settled_run_settled)
      (simp add: settled_run_def sample_states sample_current sample_state_def State_create_def status_of_def)
  show "disciplined sample_machine"
    by (auto simp: disciplined_def disciplined_state_def sample_states sample_state_def sample_end_def State_create_def
        status_of_def move_on_def)
  show "untimed sample_machine"
    by (auto simp: untimed_def sample_states sample_state_def sample_end_def State_create_def) (simp add: sample_machine_def StateMachine_create_def)
qed

lemma sample_ranked: "ranked (\<lambda>i. if i = 0 then 1 else 0) sample_machine"
  by (auto simp: ranked_def sample_states sample_state_def sample_end_def State_create_def FindTransition_def split: option.splits)

text \<open>C33. Take a machine that stands on one of its states and whose states have no time-outs. Whatever the methods of its states do, and
  whatever the order of runs that begin on one of its states, of data and of pauses and resumptions, the machine never follows a missing
  state, it stands on one of its states and keeps them, its state timer is never started, and neither the process status nor the last transition
  of its status record is ever written. (A run that begins on a missing state is not tested by the code and follows a null pointer. With
  time-outs the timer's thread runs beside the machine, which is not covered.)\<close>

theorem machine_never_lost:
  assumes "located m0" and "untimed m0" and "sm_reach m0 m"
  shows "located m \<and> sm_nodeTable m = sm_nodeTable m0 \<and> sm_pStateTimer m = None \<and>
         nProcessStatus (sm_stStateMachineSts m) = nProcessStatus (sm_stStateMachineSts m0) \<and>
         nLastTransition (sm_stStateMachineSts m) = nLastTransition (sm_stStateMachineSts m0) \<and>
         (\<forall>e. enabled e m \<longrightarrow> handle_event e m \<noteq> Some (Inl Undefined)) \<and>
         (\<forall>t s. 0 \<le> t \<longrightarrow> GetState s m = None \<longrightarrow> handle_event (Run t s) m = Some (Inl Undefined))"
proof -
  have m: "located m \<and> keeps m0 m" using reach_keeps[OF assms(3,1)] .
  have "handle_event (Run t s) m = Some (Inl Undefined)" if "0 \<le> t" "GetState s m = None" for t s
    using run_missing[OF that] by (simp add: handle_event_def)
  then show ?thesis using m handle_event_ok[of _ m "Inl Undefined"] reach_untimed[OF assms(3,1,2)] by (auto simp: keeps_def untimed_def)
qed

theorem machine_never_lost_witness: "handle_event (Data () 1) sample_machine \<noteq> Some (Inl Undefined)"
  using machine_never_lost[OF sample_ready(1,4) sm_start] by (simp add: enabled_def)


lemma sample_moves:
  "\<exists>m'. handle_event (Data () 1) sample_machine = Some (Inr m') \<and> current m' = 1 \<and> sm_processStatus m' \<noteq> PROCESS_PAUSED"
proof -
  have "(ucast (1 :: 32 word) :: 16 word) = 1" by simp
  then show ?thesis
    by (simp add: handle_Data ask_state_def sample_machine_def StateMachine_create_def sample_state_def sample_end_def
        State_create_def move_on_def PerformTransition_def FindTransition_def SwitchToNextState_eq switch_loop.simps
        switch_body_def finish_process_def StartStateTimer_def Let_def sm_simps)
qed




text \<open>The two threads of a timer can wait for each other forever. While the timer's thread handles a time-out that moved the machine and asks for the
  mutex, the thread of the machine holds it and waits for the timer's thread: no step is left.\<close>

theorem timeout_stop_deadlocks:
  "\<exists>t. timer_reach timer_started t \<and> tm_machine t = Waiting \<and> tm_tick t = Locking \<and> (\<forall>t'. \<not> timer_step t t')"
proof -
  let ?t = "\<lparr>tm_running = True, tm_locked = True, tm_machine = Waiting, tm_ticking = True, tm_tick = Locking\<rparr>"
  have a: "timer_step timer_started (timer_started\<lparr>tm_ticking := True\<rparr>)" (is "timer_step _ ?a") by (rule tick) (simp_all add: timer_started_def)
  have b: "timer_step ?a (?a\<lparr>tm_tick := Locking\<rparr>)" (is "timer_step _ ?b") by (rule tick_stops) (simp_all add: timer_started_def)
  have c: "timer_step ?b (?b\<lparr>tm_machine := Locking\<rparr>)" (is "timer_step _ ?c") by (rule machine_stops) (simp add: timer_started_def)
  have d: "timer_step ?c (?c\<lparr>tm_machine := Waiting, tm_locked := True\<rparr>)" by (rule machine_locks) (simp_all add: timer_started_def)
  have "timer_reach timer_started ?t"
    using timer_next[OF timer_next[OF timer_next[OF timer_next[OF timer_begin a] b] c] d] by (simp add: timer_started_def)
  moreover have "\<not> timer_step ?t t'" for t' by (auto elim: timer_stepE)
  ultimately show ?thesis by (intro exI[of _ ?t]) simp
qed

text \<open>The transition table of a state: the first 32 transitions added to a new state are accepted and the
  others refused, without leaving the array; a look-up finds the first accepted transition with the opcode and
  answers \<open>-1\<close> when there is none.\<close>

theorem transition_table:
  "\<exists>st. add_transitions ts (State_create en ex da i t ty) = Inr (map (\<lambda>k. k < 32) [0..<length ts], st) \<and>
        (\<forall>opcode. FindTransition opcode st =
           (case find (\<lambda>t. fst t = opcode) (take 32 ts) of Some t \<Rightarrow> sint (snd t) | None \<Rightarrow> -1))"
proof -
  obtain st where st: "add_transitions ts (State_create en ex da i t ty) = Inr (map (\<lambda>k. k < 32) [0..<length ts], st)"
    "holds_transitions (take 32 ts) st"
    using add_transitions_holds[OF State_create_empty, of ts en ex da i t ty]
    by (auto simp: MAX_NUM_OF_TRANSITIONS_PER_STATE_def)
  have "take (st_numOfTransitions st) (st_transitionsArray st) = map (\<lambda>t. \<lparr>tr_opcode = fst t, tr_nextState = snd t\<rparr>) (take 32 ts)"
    using st(2) by (simp add: holds_transitions_def)
  then show ?thesis
    using st(1) by (auto simp: FindTransition_def find_map_pairs split: option.splits)
qed

text \<open>Resuming a machine after a pause gives back its process status and the timer of its state, for its full
  interval; pausing twice and resuming a machine that is not paused change nothing.\<close>

theorem pause_resume:
  assumes "GetState (current m) m = Some st" and "sm_processStatus m \<noteq> PROCESS_PAUSED"
  shows "\<exists>p r. Pause m = Inr p \<and> Pause p = Inr p \<and> Resume p = Inr r \<and> Resume r = Inr r \<and>
           sm_pStateTimer p = None \<and> sm_processStatus r = sm_processStatus m \<and> current r = current m \<and>
           sm_pStateTimer r = (if st_nodeTimeOut st > 0 then Some (st_nodeTimeOut st) else None) \<and>
           sm_user r = st_OnResume st (st_OnPaused st (sm_user m))"
proof -
  let ?p = "(StopStateTimer m)\<lparr>sm_LastprocessStatus := sm_processStatus m, sm_processStatus := PROCESS_PAUSED,
      sm_user := st_OnPaused st (sm_user m)\<rparr>"
  have p: "Pause m = Inr ?p" using assms by (simp add: Pause_def Let_def sm_simps)
  let ?t = "if st_nodeTimeOut st > 0 then Some (st_nodeTimeOut st) else None"
  have "Resume ?p = Inr (?p\<lparr>sm_pStateTimer := ?t, sm_processStatus := sm_processStatus m,
      sm_user := st_OnResume st (st_OnPaused st (sm_user m))\<rparr>)"
    using assms by (simp add: Resume_def StartStateTimer_def timer_start_def Let_def sm_simps)
  with p show ?thesis using assms(2) by (auto simp: Pause_def Resume_def StopStateTimer_def)
qed

theorem pause_resume_witness:
  "\<exists>p r. Pause sample_machine = Inr p \<and> Resume p = Inr r \<and> sm_processStatus r = PROCESS_IN_THE_MIDDLE"
  using pause_resume[of sample_machine sample_state] by (auto simp: sample_states sample_current)

end
