(* ===== verification/Dispatcher.thy ===== *)
theory Dispatcher
  imports Context_Timers "HOL-Library.Multiset" "HOL-Library.Sublist"
begin

text \<open>
  The worker thread of a context and its clients (\<^verbatim>\<open>simple_context\<close> in
  \<^verbatim>\<open>Include/utils/dispatcher.hpp\<close>), as interleavings of steps. A step is what one thread does while it
  holds the mutex, or one access to an atomic variable. The condition variable is modelled as it is
  specified: the worker evaluates the predicate and blocks while it holds the mutex, a notification
  wakes it only if it is blocked, and it may wake up spuriously.

  Actions are numbers. The lists of the actions that were accepted, started and cancelled are kept for
  the statements only. \<open>Faulty\<close> is undefined behaviour and \<open>Terminated\<close> an exception that leaves the
  thread function.

  The steps of clients are those of other threads and of actions that queue: an action that calls \<^verbatim>\<open>begin_invoke\<close> without
  \<^verbatim>\<open>force_async\<close> on its own context runs the new action at once, inside of itself, which is a part of that action here and not a step. Timers do
  not dispose their context and do not throw.
\<close>

section \<open>State\<close>

datatype async_state = as_pending | as_running | as_completed | as_exception | as_cancelled

datatype phase =
    Head
  | Checking "timer list" "int option"
  | Blocking "timer list" "int option"
  | Blocked "timer list" "int option"
  | Woken "timer list" "int option"
  | Running "timer list" "nat list" bool
  | Invoking nat "nat list" bool
  | Stopped
  | Terminated "nat list"
  | Faulty

datatype disposal = Alive | Joining | Disposed

record simple_context =
  cx_running :: bool
  cx_suspendable :: bool
  cx_suspended :: bool
  cx_stack_stopper :: bool
  cx_idle :: bool
  cx_adding_timer :: bool
  cx_exception_handler :: bool
  cx_actions :: "nat list"
  cx_timers :: timers
  cx_now :: int
  cx_phase :: phase
  cx_disposal :: disposal
  cx_state :: "nat \<Rightarrow> async_state"
  cx_accepted :: "nat list"
  cx_started :: "nat list"
  cx_cancelled :: "nat list"
  cx_ticks :: "nat list"

definition simple_context_create :: "bool \<Rightarrow> bool \<Rightarrow> bool \<Rightarrow> simple_context" where
  "simple_context_create is_suspendable start_suspended handler =
     \<lparr>cx_running = True, cx_suspendable = is_suspendable, cx_suspended = start_suspended, cx_stack_stopper = False,
      cx_idle = False, cx_adding_timer = False, cx_exception_handler = handler, cx_actions = [], cx_timers = [], cx_now = 0,
      cx_phase = Head, cx_disposal = Alive, cx_state = (\<lambda>_. as_pending),
      cx_accepted = [], cx_started = [], cx_cancelled = [], cx_ticks = []\<rparr>"

section \<open>Actions\<close>

definition set_state :: "nat \<Rightarrow> async_state \<Rightarrow> simple_context \<Rightarrow> simple_context" where
  "set_state a s c = c\<lparr>cx_state := (cx_state c)(a := s)\<rparr>"

text \<open>The end of \<^verbatim>\<open>base_async_action::invoke\<close>, with the outcome of \<^verbatim>\<open>perform\<close>.\<close>

definition action_end :: "nat \<Rightarrow> bool \<Rightarrow> simple_context \<Rightarrow> simple_context" where
  "action_end a completed_successfully c = set_state a (if completed_successfully then as_completed else as_exception) c"

text \<open>\<^verbatim>\<open>wait\<close>: no result while it blocks.\<close>

definition action_wait :: "bool \<Rightarrow> int \<Rightarrow> nat \<Rightarrow> simple_context \<Rightarrow> bool result option" where
  "action_wait invoke_required timeout a c =
     (if timeout < 0 then Some (Inr False)
      else if (cx_state c a = as_pending \<or> cx_state c a = as_running) \<and> \<not> invoke_required
      then Some (Inl (Throws (Logic_error ''AsyncAction cannot be synchronized from the context it's scheduled to run or currently running'')))
      else if cx_state c a = as_completed \<or> cx_state c a = as_exception \<or> cx_state c a = as_cancelled
      then Some (Inr (cx_state c a \<noteq> as_cancelled))
      else None)"

section \<open>Clients\<close>

definition notify_one :: "simple_context \<Rightarrow> simple_context" where
  "notify_one c = (case cx_phase c of Blocked ts d \<Rightarrow> c\<lparr>cx_phase := Woken ts d\<rparr> | _ \<Rightarrow> c)"

definition mutex_free :: "simple_context \<Rightarrow> bool" where
  "mutex_free c = (case cx_phase c of Checking _ _ \<Rightarrow> False | Blocking _ _ \<Rightarrow> False | _ \<Rightarrow> True)"

definition add_action :: "nat \<Rightarrow> simple_context \<Rightarrow> simple_context result" where
  "add_action a c =
     (if \<not> cx_running c then Inl (Throws (Logic_error ''Context disposed''))
      else Inr (notify_one (c\<lparr>cx_actions := cx_actions c @ [a], cx_idle := False, cx_accepted := cx_accepted c @ [a]\<rparr>)))"

text \<open>An exception of an action goes to the handler; without a handler it is thrown on, which the first
  component says.\<close>

definition invoke_action_end :: "nat \<Rightarrow> bool \<Rightarrow> simple_context \<Rightarrow> bool \<times> simple_context" where
  "invoke_action_end a ok c = (\<not> ok \<and> \<not> cx_exception_handler c, action_end a ok c)"

text \<open>\<open>ok\<close> is the outcome of an action that is invoked at once, in the thread of the context.\<close>

definition begin_invoke :: "nat option \<Rightarrow> bool \<Rightarrow> bool \<Rightarrow> bool \<Rightarrow> simple_context \<Rightarrow> (bool \<times> simple_context) result" where
  "begin_invoke action force_async invoke_required ok c =
     (case action of
        None \<Rightarrow> Inl (Throws (Invalid_argument ''action''))
      | Some a \<Rightarrow>
          if force_async \<or> invoke_required then res_map (Pair False) (add_action a c)
          else Inr (invoke_action_end a ok c))"

definition context_add_timer :: "nat \<Rightarrow> int \<Rightarrow> rat \<Rightarrow> nat \<Rightarrow> 32 word \<Rightarrow> simple_context \<Rightarrow> int \<times> simple_context" where
  "context_add_timer fresh i interval invokable invocation_count c =
     (case add_timer (cx_now c) fresh i interval invokable invocation_count (cx_timers c) of
        (token, ts) \<Rightarrow> (token, notify_one (c\<lparr>cx_timers := ts, cx_adding_timer := True\<rparr>)))"

definition context_remove_timer :: "int \<Rightarrow> simple_context \<Rightarrow> bool \<times> simple_context" where
  "context_remove_timer i c = (case remove_timer i (cx_timers c) of (r, ts) \<Rightarrow> (r, c\<lparr>cx_timers := ts\<rparr>))"

definition suspend :: "simple_context \<Rightarrow> bool \<times> simple_context" where
  "suspend c = (if \<not> cx_suspendable c then (False, c) else (True, c\<lparr>cx_suspended := True\<rparr>))"

definition resume :: "simple_context \<Rightarrow> bool \<times> simple_context" where
  "resume c =
     (if \<not> cx_suspendable c then (False, c)
      else (True, if cx_suspended c then notify_one (c\<lparr>cx_suspended := False\<rparr>) else c))"

definition cancel_actions :: "simple_context \<Rightarrow> simple_context" where
  "cancel_actions c =
     c\<lparr>cx_state := (\<lambda>a. if a \<in> set (cx_actions c) then as_cancelled else cx_state c a),
       cx_cancelled := cx_cancelled c @ cx_actions c, cx_actions := []\<rparr>"

text \<open>\<^verbatim>\<open>dispose\<close> from another thread, up to the \<^verbatim>\<open>join\<close>, and after it; and from the thread of the context.\<close>

definition dispose_start :: "simple_context \<Rightarrow> simple_context" where
  "dispose_start c = (if cx_running c then notify_one (c\<lparr>cx_running := False, cx_disposal := Joining\<rparr>) else c)"

definition dispose_end :: "simple_context \<Rightarrow> simple_context" where
  "dispose_end c = (cancel_actions c)\<lparr>cx_disposal := Disposed\<rparr>"

definition dispose_inside :: "simple_context \<Rightarrow> simple_context" where
  "dispose_inside c =
     (if cx_running c
      then (cancel_actions (c\<lparr>cx_running := False, cx_stack_stopper := True\<rparr>))\<lparr>cx_disposal := Disposed\<rparr>
      else c)"

section \<open>The worker\<close>

definition is_suspended :: "simple_context \<Rightarrow> bool" where
  "is_suspended c \<longleftrightarrow> cx_suspendable c \<and> cx_suspended c"

definition wait_pred :: "simple_context \<Rightarrow> bool" where
  "wait_pred c \<longleftrightarrow>
     (if \<not> cx_suspendable c then cx_actions c \<noteq> [] \<or> cx_adding_timer c \<or> \<not> cx_running c
      else ((cx_actions c \<noteq> [] \<or> cx_adding_timer c) \<and> \<not> cx_suspended c) \<or> \<not> cx_running c)"

text \<open>From the end of the wait to the release of the mutex.\<close>

definition collect :: "bool \<Rightarrow> timer list \<Rightarrow> int \<Rightarrow> simple_context \<Rightarrow> simple_context" where
  "collect timer_iteration ts deadline c =
     (let stop_thread = (\<not> cx_running c) in
      if is_suspended c then c\<lparr>cx_phase := Running [] [] stop_thread\<rparr>
      else
        let c1 = c\<lparr>cx_adding_timer := False, cx_actions := []\<rparr>; pending = cx_actions c in
        if timer_iteration then
          (case check_timers deadline ts (cx_timers c) of
             Inl e \<Rightarrow> c\<lparr>cx_phase := Faulty\<rparr>
           | Inr (ts', m_timers) \<Rightarrow>
               c1\<lparr>cx_timers := m_timers, cx_idle := (ts' = [] \<and> pending = []), cx_phase := Running ts' pending stop_thread\<rparr>)
        else c1\<lparr>cx_idle := (cx_idle c \<and> pending = []), cx_phase := Running [] pending stop_thread\<rparr>)"

definition worker_head :: "simple_context \<Rightarrow> simple_context" where
  "worker_head c =
     (if cx_stack_stopper c then c\<lparr>cx_phase := Stopped\<rparr>
      else if is_suspended c then c\<lparr>cx_idle := True, cx_phase := Checking [] None\<rparr>
      else case get_next_timers (cx_now c) (cx_timers c) 0 of
             (m_timers, ts, deadline, wait_interval) \<Rightarrow>
               let c1 = c\<lparr>cx_timers := m_timers, cx_idle := True\<rparr> in
               if ts = [] then c1\<lparr>cx_phase := Checking [] None\<rparr>
               else if wait_interval > 0 then c1\<lparr>cx_phase := Checking ts (Some deadline)\<rparr>
               else collect True ts deadline c1)"

definition run_timer :: "(nat \<Rightarrow> client_wrapper list \<Rightarrow> client_wrapper list) \<Rightarrow> timer \<Rightarrow> simple_context \<Rightarrow> simple_context" where
  "run_timer react t c =
     (case find (\<lambda>p. tm_object (snd p) = tm_object t) (cx_timers c) of
        None \<Rightarrow> c
      | Some p \<Rightarrow>
          (case timer_invoke react (snd p) of (t', invoked) \<Rightarrow>
             c\<lparr>cx_timers := map (\<lambda>q. if tm_object (snd q) = tm_object t then (fst q, t') else q) (cx_timers c),
               cx_ticks := cx_ticks c @ invoked\<rparr>))"

section \<open>Interleavings\<close>

datatype step_kind = Work | Call | Registration | Spurious | Time

inductive cx_step :: "step_kind \<Rightarrow> simple_context \<Rightarrow> simple_context \<Rightarrow> bool" where
  w_head: "cx_phase c = Head \<Longrightarrow> cx_step Work c (worker_head c)"
| w_pass: "cx_phase c = Checking ts d \<Longrightarrow> wait_pred c \<Longrightarrow> cx_step Work c (collect False ts 0 c)"
| w_late: "cx_phase c = Checking ts (Some dl) \<Longrightarrow> \<not> wait_pred c \<Longrightarrow> dl \<le> cx_now c \<Longrightarrow> cx_step Work c (collect True ts dl c)"
| w_wait: "cx_phase c = Checking ts d \<Longrightarrow> \<not> wait_pred c \<Longrightarrow> (\<forall>dl. d = Some dl \<longrightarrow> cx_now c < dl) \<Longrightarrow>
     cx_step Work c (c\<lparr>cx_phase := Blocking ts d\<rparr>)"
| w_block: "cx_phase c = Blocking ts d \<Longrightarrow> cx_step Work c (c\<lparr>cx_phase := Blocked ts d\<rparr>)"
| w_timeout: "cx_phase c = Blocked ts (Some dl) \<Longrightarrow> dl \<le> cx_now c \<Longrightarrow> cx_step Work c (c\<lparr>cx_phase := Checking ts (Some dl)\<rparr>)"
| w_wake: "cx_phase c = Woken ts d \<Longrightarrow> cx_step Work c (c\<lparr>cx_phase := Checking ts d\<rparr>)"
| w_spurious: "cx_phase c = Blocked ts d \<Longrightarrow> cx_step Spurious c (c\<lparr>cx_phase := Woken ts d\<rparr>)"
| w_timer: "cx_phase c = Running (t # ts) as stop \<Longrightarrow> \<not> cx_stack_stopper c \<Longrightarrow>
     cx_step Work c ((run_timer react t c)\<lparr>cx_phase := Running ts as stop\<rparr>)"
| w_timers_stop: "cx_phase c = Running (t # ts) as stop \<Longrightarrow> cx_stack_stopper c \<Longrightarrow>
     cx_step Work c (c\<lparr>cx_phase := Running [] as stop\<rparr>)"
| w_cancel: "cx_phase c = Running [] (a # as) stop \<Longrightarrow> cx_stack_stopper c \<Longrightarrow>
     cx_step Work c ((set_state a as_cancelled c)\<lparr>cx_cancelled := cx_cancelled c @ [a], cx_phase := Running [] as stop\<rparr>)"
| w_invoke: "cx_phase c = Running [] (a # as) stop \<Longrightarrow> \<not> cx_stack_stopper c \<Longrightarrow>
     cx_step Work c ((set_state a as_running c)\<lparr>cx_started := cx_started c @ [a], cx_phase := Invoking a as stop\<rparr>)"
| w_return: "cx_phase c = Invoking a as stop \<Longrightarrow> invoke_action_end a ok c = (thrown, c') \<Longrightarrow>
     cx_step Work c (c'\<lparr>cx_phase := (if thrown then Terminated as else Running [] as stop)\<rparr>)"
| w_loop: "cx_phase c = Running [] [] stop \<Longrightarrow> cx_step Work c (c\<lparr>cx_phase := (if stop then Stopped else Head)\<rparr>)"
| c_add: "mutex_free c \<Longrightarrow> a \<notin> set (cx_accepted c) \<Longrightarrow> begin_invoke (Some a) force True ok c = Inr (thrown, c') \<Longrightarrow> cx_step Call c c'"
| c_timer: "mutex_free c \<Longrightarrow> context_add_timer fresh i interval invokable n c = (token, c') \<Longrightarrow> cx_step Registration c c'"
| c_untimer: "mutex_free c \<Longrightarrow> context_remove_timer i c = (r, c') \<Longrightarrow> cx_step Call c c'"
| c_suspend: "suspend c = (r, c') \<Longrightarrow> cx_step Call c c'"
| c_resume: "resume c = (r, c') \<Longrightarrow> cx_step Call c c'"
| c_dispose: "cx_step Call c (dispose_start c)"
| c_joined: "cx_disposal c = Joining \<Longrightarrow> cx_phase c = Stopped \<Longrightarrow> cx_step Call c (dispose_end c)"
| i_dispose: "cx_phase c = Invoking a as stop \<Longrightarrow> cx_step Call c (dispose_inside c)"
| t_time: "cx_now c \<le> n \<Longrightarrow> cx_step Time c (c\<lparr>cx_now := n\<rparr>)"

inductive cx_reach :: "step_kind set \<Rightarrow> simple_context \<Rightarrow> simple_context \<Rightarrow> bool" for K where
  cx_refl: "cx_reach K c c"
| cx_more: "cx_reach K c0 c \<Longrightarrow> k \<in> K \<Longrightarrow> cx_step k c c' \<Longrightarrow> cx_reach K c0 c'"

section \<open>What every step keeps\<close>

fun hand :: "phase \<Rightarrow> nat list" where
  "hand (Running ts as stop) = as"
| "hand (Invoking a as stop) = as"
| "hand (Terminated as) = as"
| "hand p = []"

abbreviation in_hand :: "simple_context \<Rightarrow> nat list" where
  "in_hand c \<equiv> hand (cx_phase c)"

definition ledger :: "simple_context \<Rightarrow> bool" where
  "ledger c \<longleftrightarrow>
     distinct (cx_accepted c) \<and>
     subseq (cx_started c @ in_hand c @ cx_actions c) (cx_accepted c) \<and>
     mset (cx_accepted c) = mset (cx_started c) + mset (cx_cancelled c) + mset (in_hand c) + mset (cx_actions c)"

definition lifecycle :: "simple_context \<Rightarrow> bool" where
  "lifecycle c \<longleftrightarrow>
     (cx_disposal c = Alive \<longleftrightarrow> cx_running c) \<and> (cx_running c \<longrightarrow> cx_cancelled c = []) \<and>
     (cx_stack_stopper c \<longrightarrow> cx_disposal c = Disposed) \<and> (cx_disposal c = Joining \<longrightarrow> cx_cancelled c = []) \<and>
     (cx_disposal c = Disposed \<longrightarrow> cx_actions c = [])"

text \<open>The state of an action tells where it is.\<close>

definition states_ok :: "simple_context \<Rightarrow> bool" where
  "states_ok c \<longleftrightarrow>
     (\<forall>a. cx_state c a = as_running \<longleftrightarrow> (\<exists>as stop. cx_phase c = Invoking a as stop)) \<and>
     (\<forall>a. cx_state c a = as_cancelled \<longleftrightarrow> a \<in> set (cx_cancelled c)) \<and>
     (\<forall>a. cx_state c a = as_completed \<or> cx_state c a = as_exception \<or> cx_state c a = as_running \<longleftrightarrow> a \<in> set (cx_started c))"

lemma notify_one_fields [simp]:
  "cx_running (notify_one c) = cx_running c"
  "cx_suspendable (notify_one c) = cx_suspendable c"
  "cx_suspended (notify_one c) = cx_suspended c"
  "cx_stack_stopper (notify_one c) = cx_stack_stopper c"
  "cx_disposal (notify_one c) = cx_disposal c"
  "cx_state (notify_one c) = cx_state c"
  "cx_accepted (notify_one c) = cx_accepted c"
  "cx_started (notify_one c) = cx_started c"
  "cx_cancelled (notify_one c) = cx_cancelled c"
  "cx_now (notify_one c) = cx_now c"
  "cx_actions (notify_one c) = cx_actions c"
  "cx_timers (notify_one c) = cx_timers c"
  "cx_adding_timer (notify_one c) = cx_adding_timer c"
  "in_hand (notify_one c) = in_hand c"
  by (simp_all add: notify_one_def split: phase.splits)

lemma collect_fields [simp]:
  "cx_running (collect it ts dl c) = cx_running c"
  "cx_suspendable (collect it ts dl c) = cx_suspendable c"
  "cx_suspended (collect it ts dl c) = cx_suspended c"
  "cx_stack_stopper (collect it ts dl c) = cx_stack_stopper c"
  "cx_disposal (collect it ts dl c) = cx_disposal c"
  "cx_state (collect it ts dl c) = cx_state c"
  "cx_accepted (collect it ts dl c) = cx_accepted c"
  "cx_started (collect it ts dl c) = cx_started c"
  "cx_cancelled (collect it ts dl c) = cx_cancelled c"
  "cx_now (collect it ts dl c) = cx_now c"
  by (auto simp: collect_def Let_def split: sum.splits)

lemma collect_queue: "in_hand (collect it ts dl c) @ cx_actions (collect it ts dl c) = cx_actions c"
  by (auto simp: collect_def Let_def split: sum.splits)

lemma collect_empty: "cx_actions c = [] \<Longrightarrow> cx_actions (collect it ts dl c) = []"
  using collect_queue[of it ts dl c] by simp

lemma collect_phase: "(\<exists>ts' as stop. cx_phase (collect it ts dl c) = Running ts' as stop) \<or> cx_phase (collect it ts dl c) = Faulty"
  by (auto simp: collect_def Let_def split: sum.splits)

text \<open>What the head of the loop does: it stops, goes to wait, or runs timers that are due.\<close>

lemma worker_head_cases:
  obtains "worker_head c = c\<lparr>cx_phase := Stopped\<rparr>" and "cx_stack_stopper c"
  | m i ts d where "worker_head c = c\<lparr>cx_timers := m, cx_idle := i, cx_phase := Checking ts d\<rparr>"
  | m i ts dl where "worker_head c = collect True ts dl (c\<lparr>cx_timers := m, cx_idle := i\<rparr>)"
proof -
  obtain m ts dl w where g: "get_next_timers (cx_now c) (cx_timers c) 0 = (m, ts, dl, w)" by (metis prod_cases4)
  consider (stop) "cx_stack_stopper c" | (suspended) "\<not> cx_stack_stopper c" "is_suspended c"
    | (none) "\<not> cx_stack_stopper c" "\<not> is_suspended c" "ts = []"
    | (wait) "\<not> cx_stack_stopper c" "\<not> is_suspended c" "ts \<noteq> []" "0 < w"
    | (due) "\<not> cx_stack_stopper c" "\<not> is_suspended c" "ts \<noteq> []" "w = 0" by blast
  then show thesis
  proof cases
    case stop
    then show ?thesis by (intro that(1)) (simp_all add: worker_head_def)
  next
    case suspended
    then show ?thesis by (intro that(2)[where m = "cx_timers c" and i = True and ts = "[]" and d = None]) (simp add: worker_head_def)
  next
    case none
    then show ?thesis using g by (intro that(2)[where m = m and i = True and ts = "[]" and d = None]) (simp add: worker_head_def)
  next
    case wait
    then show ?thesis using g by (intro that(2)[where m = m and i = True and ts = ts and d = "Some dl"]) (simp add: worker_head_def)
  next
    case due
    then show ?thesis using g by (intro that(3)[where m = m and i = True and ts = ts and dl = dl]) (simp add: worker_head_def)
  qed
qed

lemma worker_head_fields [simp]:
  "cx_running (worker_head c) = cx_running c"
  "cx_suspendable (worker_head c) = cx_suspendable c"
  "cx_suspended (worker_head c) = cx_suspended c"
  "cx_stack_stopper (worker_head c) = cx_stack_stopper c"
  "cx_disposal (worker_head c) = cx_disposal c"
  "cx_state (worker_head c) = cx_state c"
  "cx_accepted (worker_head c) = cx_accepted c"
  "cx_started (worker_head c) = cx_started c"
  "cx_cancelled (worker_head c) = cx_cancelled c"
  "cx_now (worker_head c) = cx_now c"
  by (rule worker_head_cases[of c]; simp)+

lemma worker_head_queue: "in_hand (worker_head c) @ cx_actions (worker_head c) = cx_actions c"
  by (rule worker_head_cases[of c]) (simp_all add: collect_queue[unfolded])

lemma run_timer_fields [simp]:
  "cx_running (run_timer react t c) = cx_running c"
  "cx_suspendable (run_timer react t c) = cx_suspendable c"
  "cx_suspended (run_timer react t c) = cx_suspended c"
  "cx_stack_stopper (run_timer react t c) = cx_stack_stopper c"
  "cx_disposal (run_timer react t c) = cx_disposal c"
  "cx_state (run_timer react t c) = cx_state c"
  "cx_accepted (run_timer react t c) = cx_accepted c"
  "cx_started (run_timer react t c) = cx_started c"
  "cx_cancelled (run_timer react t c) = cx_cancelled c"
  "cx_now (run_timer react t c) = cx_now c"
  "cx_actions (run_timer react t c) = cx_actions c"
  "cx_adding_timer (run_timer react t c) = cx_adding_timer c"
  "cx_phase (run_timer react t c) = cx_phase c"
  "cx_exception_handler (run_timer react t c) = cx_exception_handler c"
  by (simp_all add: run_timer_def split: option.splits prod.splits)

lemma worker_head_empty: "cx_actions c = [] \<Longrightarrow> cx_actions (worker_head c) = []"
  using worker_head_queue[of c] by simp

lemmas context_calls =
  begin_invoke_def add_action_def context_add_timer_def context_remove_timer_def suspend_def resume_def dispose_start_def
  dispose_end_def dispose_inside_def cancel_actions_def set_state_def action_end_def invoke_action_end_def

lemma lifecycle_step: "cx_step k c c' \<Longrightarrow> lifecycle c \<Longrightarrow> lifecycle c'"
  by (erule cx_step.cases)
    (auto simp: lifecycle_def context_calls collect_empty worker_head_empty split: prod.splits if_splits)

lemma subseq_initial: "subseq (xs @ ys) zs \<Longrightarrow> subseq xs zs"
  by (meson prefixI prefix_imp_subseq subseq_order.order_trans)

lemma ledger_cancel:
  assumes "ledger c" and "cx_accepted c' = cx_accepted c" and "cx_started c' = cx_started c" and "in_hand c' = in_hand c"
    and "cx_cancelled c' = cx_cancelled c @ cx_actions c" and "cx_actions c' = []"
  shows "ledger c'"
  using assms subseq_initial[of "cx_started c @ in_hand c" "cx_actions c" "cx_accepted c"] by (simp add: ledger_def)

lemma ledger_step:
  assumes "cx_step k c c'" and "ledger c"
  shows "ledger c'"
  using assms(1)
proof (cases rule: cx_step.cases)
  case w_head
  then show ?thesis
    using assms(2) worker_head_queue[of c] mset_append[of "in_hand (worker_head c)" "cx_actions (worker_head c)"]
    by (simp add: ledger_def)
next
  case (w_pass ts d)
  then show ?thesis
    using assms(2) collect_queue[of False ts 0 c] mset_append[of "in_hand (collect False ts 0 c)" "cx_actions (collect False ts 0 c)"]
    by (simp add: ledger_def)
next
  case (w_late ts dl)
  then show ?thesis
    using assms(2) collect_queue[of True ts dl c] mset_append[of "in_hand (collect True ts dl c)" "cx_actions (collect True ts dl c)"]
    by (simp add: ledger_def)
next
  case (w_cancel a as stop)
  have "subseq (cx_started c @ as @ cx_actions c) (cx_started c @ (a # as) @ cx_actions c)"
    using list_emb_Cons[OF subseq_order.order_refl, of "as @ cx_actions c" a] by (intro list_emb_append_mono) auto
  then show ?thesis using w_cancel assms(2) subseq_order.order_trans by (fastforce simp: ledger_def set_state_def)
next
  case (c_add a force ok)
  then have "cx_running c" "c' = notify_one (c\<lparr>cx_actions := cx_actions c @ [a], cx_idle := False, cx_accepted := cx_accepted c @ [a]\<rparr>)"
    by (auto simp: begin_invoke_def add_action_def split: if_splits)
  moreover have "in_hand (c\<lparr>cx_actions := cx_actions c @ [a], cx_idle := False, cx_accepted := cx_accepted c @ [a]\<rparr>) = in_hand c"
    by (simp add:)
  moreover have "subseq ((cx_started c @ in_hand c @ cx_actions c) @ [a]) (cx_accepted c @ [a])"
    using assms(2) by (intro list_emb_append_mono) (simp_all add: ledger_def)
  ultimately show ?thesis using assms(2) c_add(3) by (simp add: ledger_def)
next
  case c_joined
  then show ?thesis by (intro ledger_cancel[OF assms(2)]) (simp_all add: dispose_end_def cancel_actions_def)
next
  case (i_dispose a as stop)
  then show ?thesis
    using assms(2) by (cases "cx_running c")
      (auto simp: dispose_inside_def cancel_actions_def intro!: ledger_cancel[OF assms(2)])
qed (use assms(2) in \<open>auto simp: ledger_def context_calls split: prod.splits if_splits\<close>)

lemma ledger_disjoint:
  assumes "ledger c"
  shows "distinct (cx_started c @ cx_cancelled c @ in_hand c @ cx_actions c)"
proof -
  have "mset (cx_accepted c) = mset (cx_started c @ cx_cancelled c @ in_hand c @ cx_actions c)"
    using assms by (simp add: ledger_def)
  then show ?thesis using assms by (metis ledger_def mset_eq_imp_distinct_iff)
qed

lemma not_invoking_collect: "cx_phase (collect it ts dl c) \<noteq> Invoking a as stop"
  using collect_phase[of it ts dl c] by auto

lemma not_invoking_head: "cx_phase c = Head \<Longrightarrow> cx_phase (worker_head c) \<noteq> Invoking a as stop"
  by (rule worker_head_cases[of c]) (simp_all add: not_invoking_collect)

lemma notify_invoking [simp]: "cx_phase (notify_one c) = Invoking a as stop \<longleftrightarrow> cx_phase c = Invoking a as stop"
  by (simp add: notify_one_def split: phase.splits)

lemma states_step:
  assumes "cx_step k c c'" and "states_ok c" and "ledger c"
  shows "states_ok c'"
  using assms(1)
proof (cases rule: cx_step.cases)
  case (w_invoke a as stop)
  have "a \<notin> set (cx_started c)" "a \<notin> set (cx_cancelled c)"
    using ledger_disjoint[OF assms(3)] w_invoke by auto
  then show ?thesis using w_invoke assms(2) unfolding states_ok_def set_state_def by auto
next
  case (w_cancel a as stop)
  have "a \<notin> set (cx_started c)" "a \<notin> set (cx_cancelled c)"
    using ledger_disjoint[OF assms(3)] w_cancel by auto
  then show ?thesis using w_cancel assms(2) unfolding states_ok_def set_state_def by auto
next
  case (w_return a as stop ok)
  then have "cx_state c a = as_running" using assms(2) by (auto simp: states_ok_def)
  moreover from this have "cx_state c a \<noteq> as_cancelled" by simp
  ultimately have "a \<in> set (cx_started c)" "a \<notin> set (cx_cancelled c)" using assms(2) unfolding states_ok_def by blast+
  then show ?thesis
    using w_return assms(2) unfolding states_ok_def invoke_action_end_def action_end_def set_state_def
    by (auto split: if_splits)
next
  case c_joined
  have "set (cx_actions c) \<inter> set (cx_started c) = {}" using ledger_disjoint[OF assms(3)] by auto
  then show ?thesis using c_joined assms(2) unfolding states_ok_def dispose_end_def cancel_actions_def by auto
next
  case (i_dispose a as stop)
  have "set (cx_actions c) \<inter> set (cx_started c) = {}" using ledger_disjoint[OF assms(3)] by auto
  then show ?thesis using i_dispose assms(2) unfolding states_ok_def dispose_inside_def cancel_actions_def by auto
qed (use assms(2) in \<open>auto simp: states_ok_def context_calls not_invoking_collect not_invoking_head split: prod.splits if_splits\<close>)

text \<open>A worker of a context that cannot be suspended sleeps only while there is nothing to do.\<close>

definition awake :: "simple_context \<Rightarrow> bool" where
  "awake c \<longleftrightarrow>
     (\<forall>ts d. cx_phase c = Blocking ts d \<or> cx_phase c = Blocked ts d \<longrightarrow> \<not> cx_suspendable c \<longrightarrow>
        cx_actions c = [] \<and> \<not> cx_adding_timer c)"

lemma notify_phases [simp]:
  "cx_phase (notify_one c) = Blocking ts d \<longleftrightarrow> cx_phase c = Blocking ts d" "cx_phase (notify_one c) \<noteq> Blocked ts d"
  by (simp_all add: notify_one_def split: phase.splits)

lemma sleeping_collect: "cx_phase (collect it ts dl c) \<noteq> Blocking ts' d \<and> cx_phase (collect it ts dl c) \<noteq> Blocked ts' d"
  using collect_phase[of it ts dl c] by auto

lemma sleeping_head: "cx_phase (worker_head c) \<noteq> Blocking ts' d \<and> cx_phase (worker_head c) \<noteq> Blocked ts' d"
  by (rule worker_head_cases[of c]) (simp_all add: sleeping_collect)

lemma awake_step: "cx_step k c c' \<Longrightarrow> awake c \<Longrightarrow> awake c'"
  by (erule cx_step.cases)
    (auto simp: awake_def context_calls sleeping_collect sleeping_head mutex_free_def wait_pred_def split: prod.splits if_splits phase.splits)

section \<open>Properties\<close>

definition context_ok :: "simple_context \<Rightarrow> bool" where
  "context_ok c \<longleftrightarrow> lifecycle c \<and> ledger c \<and> states_ok c \<and> awake c"

lemma context_ok_create: "context_ok (simple_context_create s u h)"
  by (simp add: context_ok_def simple_context_create_def lifecycle_def ledger_def states_ok_def awake_def)

lemma context_ok_reach: "cx_reach K c0 c \<Longrightarrow> context_ok c0 \<Longrightarrow> context_ok c"
  by (induction rule: cx_reach.induct) (auto simp: context_ok_def lifecycle_step ledger_step states_step awake_step)

text \<open>C2. A context that has never been disposed has started its actions in the order in which they were accepted,
  each once, and the others are waiting in that order, whatever the interleaving of its clients and its
  worker. In every state, disposed or not, an accepted action is in exactly one place: started, cancelled,
  in the hands of the worker or in the queue; the started ones are in the order of acceptance, and at most one
  action is running.\<close>

theorem actions_run_in_order:
  assumes "cx_reach UNIV (simple_context_create s u h) c"
  shows "(cx_running c \<longrightarrow> cx_accepted c = cx_started c @ in_hand c @ cx_actions c) \<and>
         subseq (cx_started c) (cx_accepted c) \<and>
         distinct (cx_started c @ cx_cancelled c @ in_hand c @ cx_actions c) \<and>
         set (cx_accepted c) = set (cx_started c @ cx_cancelled c @ in_hand c @ cx_actions c) \<and>
         (\<forall>a b. cx_state c a = as_running \<and> cx_state c b = as_running \<longrightarrow> a = b)"
proof -
  have ok: "lifecycle c" "ledger c" "states_ok c"
    using context_ok_reach[OF assms context_ok_create] by (simp_all add: context_ok_def)
  have "cx_accepted c = cx_started c @ in_hand c @ cx_actions c" if "cx_running c"
  proof -
    have "mset (cx_accepted c) = mset (cx_started c @ in_hand c @ cx_actions c)"
      using ok(1,2) that by (simp add: ledger_def lifecycle_def)
    then have "length (cx_accepted c) = length (cx_started c @ in_hand c @ cx_actions c)" by (rule mset_eq_length)
    then show ?thesis using ok(2) subseq_same_length unfolding ledger_def by metis
  qed
  moreover have "subseq (cx_started c) (cx_accepted c)"
    using ok(2) subseq_order.order_trans[of "cx_started c" "cx_started c @ in_hand c @ cx_actions c"]
    by (auto simp: ledger_def intro: prefix_imp_subseq)
  moreover have "set (cx_accepted c) = set (cx_started c @ cx_cancelled c @ in_hand c @ cx_actions c)"
    using ok(2) by (intro mset_eq_setD) (simp add: ledger_def)
  moreover have "\<forall>a b. cx_state c a = as_running \<and> cx_state c b = as_running \<longrightarrow> a = b"
    using ok(3) by (auto simp: states_ok_def)
  ultimately show ?thesis using ledger_disjoint[OF ok(2)] by simp
qed

definition sample_context :: simple_context where
  "sample_context = simple_context_create False False False"

definition queued_context :: simple_context where
  "queued_context = sample_context\<lparr>cx_actions := [5], cx_idle := False, cx_accepted := [5]\<rparr>"

lemma queued_reach: "cx_reach UNIV sample_context queued_context"
proof -
  have "cx_step Call sample_context queued_context"
    by (rule c_add[of _ 5 False False False])
      (simp_all add: sample_context_def queued_context_def simple_context_create_def mutex_free_def begin_invoke_def
        add_action_def notify_one_def)
  then show ?thesis using cx_more[OF cx_refl] by blast
qed

theorem actions_run_in_order_witness: "cx_accepted queued_context = cx_started queued_context @ in_hand queued_context @ cx_actions queued_context"
  using actions_run_in_order[OF queued_reach[unfolded sample_context_def]]
  by (simp add: queued_context_def sample_context_def simple_context_create_def)

text \<open>C6. When a context is disposed and its worker has stopped, every accepted action was started or cancelled,
  so that nobody waits for it in vain: waiting for it from outside returns, true exactly when it was
  performed.\<close>

theorem disposed_context_releases_waiters:
  assumes "cx_reach UNIV (simple_context_create s u h) c" and "cx_disposal c = Disposed" and "cx_phase c = Stopped"
    and "a \<in> set (cx_accepted c)"
  shows "action_wait True 0 a c = Some (Inr (a \<in> set (cx_started c)))"
proof -
  have ok: "lifecycle c" "ledger c" "states_ok c"
    using context_ok_reach[OF assms(1) context_ok_create] by (simp_all add: context_ok_def)
  have "set (cx_accepted c) = set (cx_started c @ cx_cancelled c @ in_hand c @ cx_actions c)"
    using ok(2) by (intro mset_eq_setD) (simp add: ledger_def)
  then have a: "a \<in> set (cx_started c) \<or> a \<in> set (cx_cancelled c)"
    using ok(1) assms(2-4) by (simp add: lifecycle_def )
  have dis: "set (cx_started c) \<inter> set (cx_cancelled c) = {}" using ledger_disjoint[OF ok(2)] by auto
  have st: "a \<in> set (cx_started c) \<Longrightarrow> cx_state c a = as_completed \<or> cx_state c a = as_exception"
    "a \<in> set (cx_cancelled c) \<Longrightarrow> cx_state c a = as_cancelled"
    using ok(3) assms(3) unfolding states_ok_def by (metis phase.distinct)+
  from a show ?thesis
  proof
    assume "a \<in> set (cx_started c)"
    with st(1) show ?thesis by (auto simp: action_wait_def)
  next
    assume "a \<in> set (cx_cancelled c)"
    with st(2) dis show ?thesis by (auto simp: action_wait_def)
  qed
qed

definition stopping_trace :: "simple_context list" where
  "stopping_trace =
     (let c1 = dispose_start queued_context; c2 = worker_head c1; c3 = collect False [] 0 c2;
          c4 = (set_state 5 as_running c3)\<lparr>cx_started := [5], cx_phase := Invoking 5 [] True\<rparr>;
          c5 = (action_end 5 True c4)\<lparr>cx_phase := Running [] [] True\<rparr>;
          c6 = c5\<lparr>cx_phase := Stopped\<rparr>
      in [c1, c2, c3, c4, c5, c6, dispose_end c6])"

lemmas sample_simps =
  queued_context_def sample_context_def simple_context_create_def dispose_start_def worker_head_def collect_def set_state_def
  action_end_def dispose_end_def cancel_actions_def notify_one_def is_suspended_def get_next_timers_def wait_pred_def
  invoke_action_end_def

lemma stopped_reach:
  obtains c where "cx_reach UNIV sample_context c" and "cx_disposal c = Disposed" and "cx_phase c = Stopped"
    and "cx_accepted c = [5]" and "cx_started c = [5]"
proof -
  let ?c = "\<lambda>i. stopping_trace ! i"
  note ev = stopping_trace_def Let_def sample_simps
  have "cx_step Call queued_context (?c 0)" using c_dispose[of queued_context] by (simp add: stopping_trace_def Let_def)
  moreover have "cx_step Work (?c 0) (?c 1)" using w_head[of "?c 0"] by (simp add: ev)
  moreover have "cx_step Work (?c 1) (?c 2)" using w_pass[of "?c 1" "[]" None] by (simp add: ev)
  moreover have "cx_step Work (?c 2) (?c 3)" using w_invoke[of "?c 2" 5 "[]" True] by (simp add: ev)
  moreover have "cx_step Work (?c 3) (?c 4)" using w_return[of "?c 3" 5 "[]" True True False "action_end 5 True (?c 3)"] by (simp add: ev)
  moreover have "cx_step Work (?c 4) (?c 5)" using w_loop[of "?c 4" True] by (simp add: ev)
  moreover have "cx_step Call (?c 5) (?c 6)" using c_joined[of "?c 5"] by (simp add: ev)
  ultimately have "cx_reach UNIV sample_context (?c 6)" using queued_reach cx_more UNIV_I by metis
  then show thesis by (rule that) (simp_all add: ev)
qed

theorem disposed_context_releases_waiters_witness: "\<exists>c. action_wait True 0 5 c = Some (Inr True)"
proof -
  obtain c where c: "cx_reach UNIV sample_context c" "cx_disposal c = Disposed" "cx_phase c = Stopped"
    "cx_accepted c = [5]" "cx_started c = [5]" by (rule stopped_reach)
  then have "5 \<in> set (cx_accepted c)" by simp
  from disposed_context_releases_waiters[OF c(1)[unfolded sample_context_def] c(2,3) this] c(5) show ?thesis by auto
qed

lemma suspendable_reach: "cx_reach K c0 c \<Longrightarrow> cx_suspendable c = cx_suspendable c0"
proof (induction rule: cx_reach.induct)
  case (cx_more c0 c k c')
  have "cx_suspendable c' = cx_suspendable c"
    using cx_more.hyps(3) by (rule cx_step.cases) (auto simp: context_calls split: prod.splits if_splits)
  with cx_more.IH show ?case by simp
qed simp



text \<open>C34. \<^verbatim>\<open>dispose\<close> clears \<^verbatim>\<open>m_running\<close> and notifies without holding the mutex. When that happens between the
  worker's test of the predicate and its blocking, the notification is lost: the worker sleeps and the disposing
  thread waits in \<^verbatim>\<open>join\<close> for good, whatever the clients go on doing, short of a spurious wake-up or the
  registration of a timer.\<close>

theorem dispose_may_hang:
  "\<exists>c. cx_reach UNIV (simple_context_create False u h) c \<and> \<not> cx_running c \<and> cx_disposal c = Joining \<and>
       (\<forall>c'. cx_reach {Work, Call, Time} c c' \<longrightarrow> cx_phase c' = Blocked [] None \<and> cx_disposal c' = Joining)"
proof -
  let ?c0 = "simple_context_create False u h"
  define c1 where "c1 = ?c0\<lparr>cx_idle := True, cx_phase := Checking [] None\<rparr>"
  have f: "cx_running c1" "\<not> cx_suspendable c1" "cx_phase c1 = Checking [] None" "cx_actions c1 = []" "\<not> cx_adding_timer c1"
    by (simp_all add: c1_def simple_context_create_def)
  let ?c2 = "c1\<lparr>cx_phase := Blocking [] None\<rparr>"
  let ?c3 = "?c2\<lparr>cx_running := False, cx_disposal := Joining\<rparr>" and ?c4 = "?c2\<lparr>cx_running := False, cx_disposal := Joining, cx_phase := Blocked [] None\<rparr>"
  have "worker_head ?c0 = c1"
    by (simp add: c1_def worker_head_def simple_context_create_def is_suspended_def get_next_timers_def)
  then have "cx_step Work ?c0 c1" using w_head[of ?c0] by (simp add: simple_context_create_def)
  moreover have "cx_step Work c1 ?c2" using w_wait[of c1 "[]" None] f by (simp add: wait_pred_def)
  moreover have "cx_step Call ?c2 ?c3" using c_dispose[of ?c2] f(1) by (simp add: dispose_start_def notify_one_def)
  moreover have "cx_step Work ?c3 ?c4" using w_block[of ?c3 "[]" None] by simp
  ultimately have reach: "cx_reach UNIV ?c0 ?c4" by (meson UNIV_I cx_more cx_refl)
  let ?stuck = "\<lambda>c. cx_phase c = Blocked [] None \<and> cx_disposal c = Joining \<and> \<not> cx_running c \<and> \<not> cx_suspendable c"
  have step: "?stuck c'" if "cx_step k c c'" "?stuck c" "k \<in> {Work, Call, Time}" for k c c'
    using that by (cases rule: cx_step.cases)
      (auto simp: begin_invoke_def add_action_def context_remove_timer_def suspend_def resume_def dispose_start_def split: prod.splits)
  have "?stuck c'" if "cx_reach {Work, Call, Time} c c'" "?stuck c" for c c'
    using that by (induction rule: cx_reach.induct) (auto dest: step)
  moreover have "?stuck ?c4" using f(2) by simp
  ultimately show ?thesis using reach by (intro exI[of _ ?c4]) auto
qed

theorem dispose_may_hang_witness: "\<exists>c. cx_reach UNIV (simple_context_create False False False) c \<and> cx_disposal c = Joining"
  using dispose_may_hang[of False False] by blast

end
