(* ===== verification/Data_Files.thy ===== *)
theory Data_Files
  imports Ini_File
begin

text \<open>
  The binary file and the log file of \<^verbatim>\<open>Modules/files/common_files\<close>, and the handler that flushes registered files.

  A \<^verbatim>\<open>std::fstream\<close> is the record \<open>fstream\<close> (open, failed, at the end, position) next to the contents of its file;
  the operations are those of the standard on both. A file whose flush returns early stays open, as in the code, and
  the next \<^verbatim>\<open>open\<close> then only sets the fail bit. The log file keeps its length as a decimal line of 21 characters at
  its start and writes through two buffers. Sizes of buffers are natural numbers, sizes of files 64-bit words.
\<close>

section \<open>Streams on a file\<close>

record fstream =
  fs_open :: bool
  fs_fail :: bool
  fs_eof :: bool
  fs_pos :: nat

definition fstream_closed :: fstream where
  "fstream_closed = \<lparr>fs_open = False, fs_fail = False, fs_eof = False, fs_pos = 0\<rparr>"

text \<open>Opening an open stream fails and leaves it open.\<close>

definition fs_open_at :: "bool \<Rightarrow> fstream \<Rightarrow> fstream" where
  "fs_open_at possible fs =
     (if fs_open fs \<or> \<not> possible then fs\<lparr>fs_fail := True\<rparr>
      else \<lparr>fs_open = True, fs_fail = False, fs_eof = False, fs_pos = 0\<rparr>)"

definition fs_close :: "fstream \<Rightarrow> fstream" where
  "fs_close fs = fs\<lparr>fs_open := False\<rparr>"

definition fs_clear :: "fstream \<Rightarrow> fstream" where
  "fs_clear fs = fs\<lparr>fs_fail := False, fs_eof := False\<rparr>"

definition fs_seek :: "int64 \<Rightarrow> fstream \<Rightarrow> fstream" where
  "fs_seek off fs =
     (if fs_fail fs then fs
      else if sint off < 0 then fs\<lparr>fs_fail := True\<rparr>
      else fs\<lparr>fs_pos := nat (sint off)\<rparr>)"

definition fs_overwrite :: "string \<Rightarrow> nat \<Rightarrow> string \<Rightarrow> string" where
  "fs_overwrite c p data = take p c @ replicate (p - length c) (CHR 0x00) @ data @ drop (p + length data) c"

definition fs_write :: "string \<Rightarrow> fstream \<times> string \<Rightarrow> fstream \<times> string" where
  "fs_write data = (\<lambda>(fs, c).
     if fs_fail fs \<or> fs_eof fs then (fs\<lparr>fs_fail := True\<rparr>, c)
     else (fs\<lparr>fs_pos := fs_pos fs + length data\<rparr>, fs_overwrite c (fs_pos fs) data))"

text \<open>\<^verbatim>\<open>istream::getline(buffer, n)\<close> and \<^verbatim>\<open>std::getline\<close>.\<close>

definition fs_getline_n :: "nat \<Rightarrow> fstream \<Rightarrow> string \<Rightarrow> string \<times> fstream" where
  "fs_getline_n n fs c =
     (if fs_fail fs \<or> fs_eof fs then ([], fs\<lparr>fs_fail := True\<rparr>)
      else let avail = drop (fs_pos fs) c; line = takeWhile ((\<noteq>) LF) avail
           in if length line > n - 1
              then (take (n - 1) line, fs\<lparr>fs_pos := fs_pos fs + (n - 1), fs_fail := True\<rparr>)
              else if length line < length avail then (line, fs\<lparr>fs_pos := fs_pos fs + length line + 1\<rparr>)
              else (line, fs\<lparr>fs_pos := fs_pos fs + length line, fs_eof := True, fs_fail := (line = [])\<rparr>))"

definition fs_getline :: "fstream \<Rightarrow> string \<Rightarrow> string \<times> fstream" where
  "fs_getline fs c =
     (if fs_fail fs \<or> fs_eof fs then ([], fs\<lparr>fs_fail := True\<rparr>)
      else let avail = drop (fs_pos fs) c; line = takeWhile ((\<noteq>) LF) avail
           in if length line < length avail then (line, fs\<lparr>fs_pos := fs_pos fs + length line + 1\<rparr>)
              else (line, fs\<lparr>fs_pos := fs_pos fs + length line, fs_eof := True, fs_fail := (line = [])\<rparr>))"

definition fs_read :: "nat \<Rightarrow> fstream \<Rightarrow> string \<Rightarrow> string \<times> fstream" where
  "fs_read n fs c =
     (if fs_fail fs \<or> fs_eof fs then ([], fs\<lparr>fs_fail := True\<rparr>)
      else let got = take n (drop (fs_pos fs) c)
           in (got, fs\<lparr>fs_pos := fs_pos fs + length got, fs_eof := (length got < n), fs_fail := (length got < n)\<rparr>))"

section \<open>The binary file\<close>

record bin_file =
  bf_path :: string
  bf_buffer :: string
  bf_size :: nat
  bf_max_file_size :: nat
  bf_need_update :: bool

definition bin_file_construct :: "string \<Rightarrow> nat \<Rightarrow> bin_file" where
  "bin_file_construct path max_file_size =
     \<lparr>bf_path = path, bf_buffer = replicate max_file_size (CHR 0x00), bf_size = 0, bf_max_file_size = max_file_size,
      bf_need_update = False\<rparr>"

definition bin_file_create :: "string option \<Rightarrow> nat \<Rightarrow> bin_file option" where
  "bin_file_create file_path max_file_size =
     (case file_path of
        None \<Rightarrow> None
      | Some path \<Rightarrow> if max_file_size = 0 then None else Some (bin_file_construct path max_file_size))"

definition bin_flush :: "bin_file \<Rightarrow> disk \<Rightarrow> (bool \<times> bin_file \<times> disk) result" where
  "bin_flush f d =
     (if \<not> bf_need_update f then Inr (True, f, d)
      else case open_for_writing (bf_path f) d of
             None \<Rightarrow> Inr (False, f, d)
           | Some d' \<Rightarrow>
               res_map (\<lambda>data.
                 (True, f\<lparr>bf_buffer := replicate (bf_max_file_size f) (CHR 0x00), bf_size := 0, bf_need_update := False\<rparr>,
                  d'\<lparr>dk_contents := (dk_contents d')(bf_path f \<mapsto> data)\<rparr>)) (mem_read (bf_buffer f) 0 (bf_size f)))"

text \<open>The value returned is the conversion of \<^verbatim>\<open>true\<close> or \<^verbatim>\<open>false\<close> to a size.\<close>

definition bin_write_file :: "string option \<Rightarrow> nat \<Rightarrow> bin_file \<Rightarrow> (nat \<times> bin_file) result" where
  "bin_write_file buffer n f =
     (case buffer of
        None \<Rightarrow> Inr (0, f)
      | Some b \<Rightarrow>
          if n = 0 then Inr (0, f)
          else let n' = (if n > bf_max_file_size f then bf_max_file_size f else n)
               in res_bind (mem_read b 0 n') (\<lambda>data. res_map (\<lambda>b'.
                    (1, f\<lparr>bf_buffer := b', bf_size := n', bf_need_update := True\<rparr>)) (mem_write (bf_buffer f) 0 data)))"

definition bin_read_file :: "string option \<Rightarrow> nat \<Rightarrow> bin_file \<Rightarrow> disk \<Rightarrow> (nat \<times> string option) result" where
  "bin_read_file buffer n f d =
     (case buffer of
        None \<Rightarrow> Inr (0, None)
      | Some b \<Rightarrow>
          if n = 0 then Inr (0, Some b)
          else let n' = (if n > bf_max_file_size f then bf_max_file_size f else n)
               in case dk_contents d (bf_path f) of
                    None \<Rightarrow> Inr (0, Some b)
                  | Some c \<Rightarrow> res_map (\<lambda>b'. (length (take n' c), Some b')) (mem_write b 0 (take n' c)))"

section \<open>The log file\<close>

definition FILE_HEADER_LENGTH :: nat where
  "FILE_HEADER_LENGTH = 21"

definition NUM_OF_BUFFERS :: nat where
  "NUM_OF_BUFFERS = 2"

record log_file =
  lf_path :: string
  m_is_cyclic :: bool
  m_max_buff_size :: nat
  m_max_file_size :: size_t
  m_header_data :: string
  m_lines_to_skip :: nat
  m_buffers :: "string list"
  m_curr_buff :: nat
  m_curr_buff_size :: nat
  m_buff_to_write :: "nat option"
  m_buff_size_to_write :: nat
  m_curr_file_size :: size_t
  m_is_empty :: bool
  m_file :: fstream

text \<open>\<^verbatim>\<open>m_curr_file_size\<close> is not initialised; it is written before it is read.\<close>

definition log_file_construct :: "string \<Rightarrow> bool \<Rightarrow> nat \<Rightarrow> size_t \<Rightarrow> string option \<Rightarrow> nat \<Rightarrow> size_t \<Rightarrow> log_file result" where
  "log_file_construct path is_cyclic max_buff_size max_file_size header_data lines_to_skip garbage =
     (case header_data of
        None \<Rightarrow> Inl Undefined
      | Some header \<Rightarrow>
          Inr \<lparr>lf_path = path, m_is_cyclic = is_cyclic, m_max_buff_size = max_buff_size, m_max_file_size = max_file_size,
           m_header_data = header, m_lines_to_skip = lines_to_skip,
           m_buffers = replicate NUM_OF_BUFFERS (replicate max_buff_size (CHR 0x00)),
           m_curr_buff = 0, m_curr_buff_size = 0, m_buff_to_write = None, m_buff_size_to_write = 0,
           m_curr_file_size = garbage, m_is_empty = True, m_file = fstream_closed\<rparr>)"

definition switch_buffers :: "log_file \<Rightarrow> log_file" where
  "switch_buffers f =
     (let next_buff = (m_curr_buff f + 1) mod NUM_OF_BUFFERS
      in f\<lparr>m_buff_to_write := Some (m_curr_buff f), m_buff_size_to_write := m_curr_buff_size f,
           m_curr_buff := next_buff, m_curr_buff_size := 0,
           m_buffers := (m_buffers f)[next_buff := replicate (m_max_buff_size f) (CHR 0x00)]\<rparr>)"

definition log_write :: "string option \<Rightarrow> nat \<Rightarrow> log_file \<Rightarrow> (nat \<times> log_file) result" where
  "log_write buffer n f =
     (case buffer of
        None \<Rightarrow> Inr (0, f)
      | Some b \<Rightarrow>
          if n = 0 \<or> n \<ge> m_max_buff_size f then Inr (0, f)
          else if m_curr_buff_size f + n > m_max_buff_size f \<and> m_buff_to_write f \<noteq> None then Inr (0, f)
          else let f' = (if m_curr_buff_size f + n > m_max_buff_size f then switch_buffers f else f)
               in res_bind (mem_read b 0 n) (\<lambda>data. res_map (\<lambda>b'.
                    (n, f'\<lparr>m_buffers := (m_buffers f')[m_curr_buff f' := b'], m_curr_buff_size := m_curr_buff_size f' + n\<rparr>))
                      (mem_write (m_buffers f' ! m_curr_buff f') (m_curr_buff_size f') data)))"

text \<open>The line is the C string of the buffer, whatever size is given.\<close>

definition log_write_line :: "string option \<Rightarrow> nat \<Rightarrow> log_file \<Rightarrow> (nat \<times> log_file) result" where
  "log_write_line buffer n f =
     (case buffer of
        None \<Rightarrow> Inr (0, f)
      | Some b \<Rightarrow>
          if n = 0 \<or> n \<ge> m_max_buff_size f then Inr (0, f)
          else if CHR 0x00 \<notin> set b then Inl Undefined
          else log_write (Some (c_string b @ [LF])) (length (c_string b @ [LF])) f)"

definition get_cyclic_file_curr_pos :: "fstream \<Rightarrow> string \<Rightarrow> (size_t \<times> fstream) result" where
  "get_cyclic_file_curr_pos fs c =
     (case fs_getline_n FILE_HEADER_LENGTH (fs_seek 0 fs) c of (line, fs1) \<Rightarrow>
        let fs2 = (if fs_eof fs1 \<or> fs_fail fs1 then fs_clear fs1 else fs1)
        in res_map (\<lambda>i. (scast (i :: 32 word), fs2)) (ato (c_string line)))"

text \<open>\<^verbatim>\<open>"%20lu\n"\<close>.\<close>

definition pos_line :: "size_t \<Rightarrow> string" where
  "pos_line pos = (let t = nat_text (unat pos) in replicate (20 - length t) CHR '' '' @ t @ [LF])"

definition set_cyclic_file_curr_pos :: "size_t \<Rightarrow> fstream \<times> string \<Rightarrow> nat \<times> fstream \<times> string" where
  "set_cyclic_file_curr_pos pos = (\<lambda>(fs, c).
     case fs_write (pos_line pos) (fs_seek 0 fs, c) of (fs', c') \<Rightarrow>
       (if fs_fail fs' then 0 else length (pos_line pos), fs', c'))"

definition reposition_to_write :: "log_file \<Rightarrow> string \<Rightarrow> (size_t \<times> log_file \<times> string) result" where
  "reposition_to_write f c =
     res_map (\<lambda>(len, fs).
       if len = 0
       then (case set_cyclic_file_curr_pos (of_nat FILE_HEADER_LENGTH) (fs, c) of (r, fs', c') \<Rightarrow>
               (of_nat r, f\<lparr>m_is_empty := True, m_curr_file_size := of_nat FILE_HEADER_LENGTH, m_file := fs'\<rparr>, c'))
       else (len, f\<lparr>m_is_empty := False, m_curr_file_size := len, m_file := fs_seek len fs\<rparr>, c))
       (get_cyclic_file_curr_pos (m_file f) c)"

text \<open>\<open>lines\<close> counts down from the number of lines to pass.\<close>

fun restart_loop :: "nat \<Rightarrow> size_t \<Rightarrow> size_t \<Rightarrow> fstream \<Rightarrow> string \<Rightarrow> size_t \<times> fstream" where
  "restart_loop 0 bytes_count max_file_size fs c = (bytes_count, fs_seek bytes_count fs)"
| "restart_loop (Suc lines) bytes_count max_file_size fs c =
     (case fs_getline fs c of (str, fs1) \<Rightarrow>
        if fs_eof fs1 \<or> fs_fail fs1 \<or> bytes_count > max_file_size then (0, fs_clear fs1)
        else restart_loop lines (bytes_count + of_nat (length str) + 1) max_file_size fs1 c)"

definition restart_file :: "bool \<Rightarrow> log_file \<Rightarrow> string \<Rightarrow> size_t \<times> log_file" where
  "restart_file skip_header f c =
     (case restart_loop (if skip_header then m_lines_to_skip f + 1 else 1) 0 (m_max_file_size f) (fs_seek 0 (m_file f)) c of
        (n, fs) \<Rightarrow> (n, f\<lparr>m_file := fs\<rparr>))"

text \<open>The steps of \<^verbatim>\<open>flush\<close> after the file is open: the header of an empty file, the check of the limit, the buffer and
  the new length. The result of \<open>flush_body\<close> is the value returned, the object and the contents.\<close>

definition write_header :: "log_file \<Rightarrow> string \<Rightarrow> bool \<times> log_file \<times> string" where
  "write_header f c =
     (if m_header_data f \<noteq> [] \<and> m_is_empty f
      then case fs_write (m_header_data f) (m_file f, c) of (fs, c') \<Rightarrow>
             if fs_fail fs then (False, f\<lparr>m_file := fs_close fs\<rparr>, c')
             else (True, f\<lparr>m_file := fs, m_curr_file_size := m_curr_file_size f + of_nat (length (m_header_data f)),
                           m_is_empty := False\<rparr>, c')
      else (True, f, c))"

definition write_buffer :: "log_file \<Rightarrow> string \<Rightarrow> (bool \<times> log_file \<times> string) result" where
  "write_buffer f c =
     (case m_buff_to_write f of
        None \<Rightarrow> Inl Undefined
      | Some i \<Rightarrow>
          res_map (\<lambda>data.
            case fs_write data (m_file f, c) of (fs, c') \<Rightarrow>
              if fs_fail fs then (False, f\<lparr>m_file := fs_close fs\<rparr>, c')
              else let n = m_curr_file_size f + of_nat (m_buff_size_to_write f)
                   in case set_cyclic_file_curr_pos n (fs, c') of (_, fs', c'') \<Rightarrow>
                        (True, f\<lparr>m_file := fs_close fs', m_curr_file_size := n, m_buff_to_write := None,
                                 m_buff_size_to_write := 0\<rparr>, c''))
            (if i < length (m_buffers f) then mem_read (m_buffers f ! i) 0 (m_buff_size_to_write f) else Inl Undefined))"

definition flush_body :: "log_file \<Rightarrow> string \<Rightarrow> (bool \<times> log_file \<times> string) result" where
  "flush_body f0 c0 =
     res_bind (reposition_to_write (if m_buff_to_write f0 = None then switch_buffers f0 else f0) c0) (\<lambda>(r, f1, c1).
       if r = 0 then Inr (False, f1, c1)
       else case write_header f1 c1 of (ok, f2, c2) \<Rightarrow>
         if \<not> ok then Inr (False, f2, c2)
         else if m_curr_file_size f2 + of_nat (m_buff_size_to_write f2) \<ge> m_max_file_size f2
         then if \<not> m_is_cyclic f2 then Inr (False, f2, c2)
              else case restart_file True f2 c2 of (n, f3) \<Rightarrow> write_buffer (f3\<lparr>m_curr_file_size := n\<rparr>) c2
         else write_buffer f2 c2)"

definition log_flush :: "log_file \<Rightarrow> disk \<Rightarrow> (bool \<times> log_file \<times> disk) result" where
  "log_flush f d =
     (let path = lf_path f;
          d1 = (if dk_contents d path = None \<and> dk_writable d path
                then d\<lparr>dk_contents := (dk_contents d)(path := Some [])\<rparr> else d);
          fs = fs_open_at (dk_contents d1 path \<noteq> None \<and> dk_writable d1 path) (m_file f)
      in if \<not> fs_open fs then Inr (False, f\<lparr>m_file := fs\<rparr>, d1)
         else res_map (\<lambda>(ok, f', c'). (ok, f', d1\<lparr>dk_contents := (dk_contents d1)(path := Some c')\<rparr>))
                (flush_body (f\<lparr>m_file := fs\<rparr>) (case dk_contents d1 path of None \<Rightarrow> [] | Some c \<Rightarrow> c)))"

definition log_read_file :: "string option \<Rightarrow> nat \<Rightarrow> bool \<Rightarrow> log_file \<Rightarrow> disk \<Rightarrow> (nat \<times> string option \<times> log_file) result" where
  "log_read_file buffer n skip_header f d =
     (case buffer of
        None \<Rightarrow> Inr (0, None, f)
      | Some b \<Rightarrow>
          if n = 0 then Inr (0, Some b, f)
          else let fs = fs_open_at (dk_contents d (lf_path f) \<noteq> None \<and> dk_writable d (lf_path f)) (m_file f);
                   c = (case dk_contents d (lf_path f) of None \<Rightarrow> [] | Some c \<Rightarrow> c)
               in if \<not> fs_open fs then Inr (0, Some b, f\<lparr>m_file := fs\<rparr>)
                  else case restart_file skip_header (f\<lparr>m_file := fs\<rparr>) c of (_, f1) \<Rightarrow>
                    (case fs_read n (m_file f1) c of (got, fs2) \<Rightarrow>
                       res_bind (mem_write b 0 got) (\<lambda>b1. res_map (\<lambda>b2.
                         (length got, Some b2, f1\<lparr>m_file := fs_close fs2\<rparr>)) (mem_write b1 (length got) [CHR 0x00]))))"

section \<open>The handler\<close>

definition subscribe_file :: "'f \<Rightarrow> 'f list \<Rightarrow> bool \<times> 'f list" where
  "subscribe_file file files = (True, if file \<in> set files then files else files @ [file])"

definition unsubscribe_file :: "'f \<Rightarrow> 'f list \<Rightarrow> bool \<times> 'f list" where
  "unsubscribe_file file files = (if file \<in> set files then (True, remove1 file files) else (False, files))"

section \<open>The length line\<close>

lemma nat_text_length: "0 < k \<Longrightarrow> n < 10 ^ k \<Longrightarrow> length (nat_text n) \<le> k"
proof (induction k arbitrary: n)
  case (Suc k)
  show ?case
  proof (cases "n < 10")
    case True
    then show ?thesis by (simp add: nat_text.simps[of n])
  next
    case False
    then have "k \<noteq> 0" using Suc.prems by (cases k) auto
    moreover have "n div 10 < 10 ^ k" using Suc.prems by (simp add: less_mult_imp_div_less mult.commute)
    ultimately have "length (nat_text (n div 10)) \<le> k" using Suc.IH by simp
    with False show ?thesis by (simp add: nat_text.simps[of n])
  qed
qed simp

lemma pos_line_length [simp]: "length (pos_line n) = 21"
proof -
  have "unat n < 2 ^ 64" using unsigned_less[of n] by simp
  then have "length (nat_text (unat n)) \<le> 20" by (intro nat_text_length) auto
  then show ?thesis by (simp add: pos_line_def Let_def)
qed

definition pos_digits :: "size_t \<Rightarrow> string" where
  "pos_digits n = replicate (20 - length (nat_text (unat n))) CHR '' '' @ nat_text (unat n)"

lemma pos_line_digits: "pos_line n = pos_digits n @ [LF]"
  by (simp add: pos_line_def pos_digits_def Let_def)

lemma pos_digits_length [simp]: "length (pos_digits n) = 20"
  using pos_line_length[of n] by (simp add: pos_line_digits)

lemma pos_digits_chars: "c \<in> set (pos_digits n) \<Longrightarrow> c \<noteq> LF \<and> c \<noteq> CHR 0x00"
  using nat_text_digits[of "unat n"] by (auto simp: pos_digits_def is_digit_char_def char_in_def)

lemma pos_digits_value: "signed_value (pos_digits n) = int (unat n)"
proof -
  obtain c cs where t: "nat_text (unat n) = c # cs" "is_digit_char c"
    using nat_text_digits[of "unat n"] by (cases "nat_text (unat n)") auto
  have "dropWhile is_space (replicate k CHR '' '' @ c # cs) = c # cs" for k
    using digit_not_special[OF t(2)] by (induction k) (auto simp: is_space_def)
  then have "dropWhile is_space (pos_digits n) = nat_text (unat n)" by (simp add: pos_digits_def t)
  moreover have "dropWhile is_space (nat_text (unat n)) = nat_text (unat n)" using digit_not_special[OF t(2)] by (simp add: t)
  ultimately have "signed_value (pos_digits n) = signed_value (nat_text (unat n))" by (simp add: signed_value_def)
  also have "\<dots> = int (unat n)" using signed_value_int_text[of "int (unat n)"] by (simp add: int_text_def)
  finally show ?thesis .
qed

lemma uint_small:
  assumes "unat (n :: size_t) < 2 ^ 31"
  shows "- 2147483648 \<le> uint n \<and> uint n < 2147483648"
proof -
  have "int (unat n) < int (2 ^ 31)" using assms unfolding of_nat_less_iff .
  moreover have "- 2147483648 \<le> int (unat n)" by linarith
  ultimately show ?thesis by simp
qed

lemma ato_pos_digits:
  assumes "unat n < 2 ^ 31"
  shows "ato (c_string (pos_digits n)) = Inr (word_of_int (int (unat n)) :: 32 word)"
    and "scast (word_of_int (int (unat n)) :: 32 word) = n"
proof -
  have "c_string (pos_digits n) = pos_digits n" using pos_digits_chars by (intro c_string_id) blast
  then show "ato (c_string (pos_digits n)) = Inr (word_of_int (int (unat n)) :: 32 word)"
    using uint_small[OF assms] by (simp add: ato_def pos_digits_value Let_def)
  have "signed_take_bit 31 (int (unat n)) = int (unat n)"
    using uint_small[OF assms] by (intro signed_take_bit_int_eq_self) simp_all
  then have "sint (word_of_int (int (unat n)) :: 32 word) = int (unat n)" by (subst sint_sbintrunc') simp
  then show "scast (word_of_int (int (unat n)) :: 32 word) = n" by (simp add: scast_eq)
qed

section \<open>The steps of a flush\<close>

abbreviation good :: "fstream \<Rightarrow> bool" where
  "good fs \<equiv> \<not> fs_fail fs \<and> \<not> fs_eof fs"

lemma fs_seek_0 [simp]: "good fs \<Longrightarrow> fs_seek 0 fs = fs\<lparr>fs_pos := 0\<rparr>"
  by (simp add: fs_seek_def)

lemma fs_seek_size: "good fs \<Longrightarrow> unat n < 2 ^ 31 \<Longrightarrow> fs_seek n fs = fs\<lparr>fs_pos := unat n\<rparr>"
proof -
  assume g: "good fs" and n: "unat n < 2 ^ 31"
  have "sint n = int (unat n)"
    using uint_small[OF n] by (simp add: sint_uint signed_take_bit_int_eq_self)
  with g show ?thesis by (simp add: fs_seek_def)
qed

lemma fs_write_good: "good fs \<Longrightarrow> fs_write data (fs, c) = (fs\<lparr>fs_pos := fs_pos fs + length data\<rparr>, fs_overwrite c (fs_pos fs) data)"
  by (simp add: fs_write_def)

lemma fs_overwrite_append: "fs_overwrite (a @ b @ r) (length a) b' = a @ b' @ drop (length b') (b @ r)"
  by (simp add: fs_overwrite_def)

lemma fs_overwrite_end: "fs_overwrite c (length c) data = c @ data"
  by (simp add: fs_overwrite_def)

lemma fs_overwrite_start: "fs_overwrite (a @ r) 0 b = b @ drop (length b) (a @ r)"
  by (simp add: fs_overwrite_def)

lemma get_pos:
  assumes "good fs" and "unat n < 2 ^ 31"
  shows "get_cyclic_file_curr_pos fs (pos_line n @ r) = Inr (n, fs\<lparr>fs_pos := 21\<rparr>)"
proof -
  have "takeWhile ((\<noteq>) LF) (pos_line n @ r) = pos_digits n"
    unfolding pos_line_digits append_assoc by (subst takeWhile_append2) (auto dest: pos_digits_chars)
  then have "fs_getline_n FILE_HEADER_LENGTH (fs_seek 0 fs) (pos_line n @ r) = (pos_digits n, fs\<lparr>fs_pos := 21\<rparr>)"
    using assms(1) by (simp add: fs_getline_n_def FILE_HEADER_LENGTH_def)
  with assms ato_pos_digits[OF assms(2)] show ?thesis by (simp add: get_cyclic_file_curr_pos_def)
qed

text \<open>On an empty file, and on a stream that has failed, the position read is 0.\<close>

lemma ato_empty: "ato (c_string []) = Inr (0 :: 32 word)"
  by (simp add: ato_def signed_value_def c_string_def)

lemma get_pos_empty: "good fs \<Longrightarrow> get_cyclic_file_curr_pos fs [] = Inr (0, fs\<lparr>fs_pos := 0\<rparr>)"
  by (simp add: get_cyclic_file_curr_pos_def fs_getline_n_def FILE_HEADER_LENGTH_def fs_clear_def ato_empty)

lemma get_pos_failed: "fs_fail fs \<Longrightarrow> get_cyclic_file_curr_pos fs c = Inr (0, fs_clear fs)"
  by (simp add: get_cyclic_file_curr_pos_def fs_getline_n_def fs_seek_def FILE_HEADER_LENGTH_def fs_clear_def ato_empty)

lemma set_pos: "good fs \<Longrightarrow> set_cyclic_file_curr_pos n (fs, c) = (21, fs\<lparr>fs_pos := 21\<rparr>, fs_overwrite c 0 (pos_line n))"
  by (simp add: set_cyclic_file_curr_pos_def fs_write_good)

text \<open>A well formed log: the length line tells the length of the file.\<close>

definition log_text :: "string \<Rightarrow> string" where
  "log_text body = pos_line (of_nat (21 + length body)) @ body"

lemma log_text_length [simp]: "length (log_text body) = 21 + length body"
  by (simp add: log_text_def)

lemma unat_small: "n < 2 ^ 31 \<Longrightarrow> unat (of_nat n :: size_t) = n"
  by (simp add: unsigned_of_nat take_bit_nat_eq_self)

lemma reposition_text:
  assumes "good (m_file f)" and "21 + length body < 2 ^ 31"
  shows "reposition_to_write f (log_text body) =
         Inr (of_nat (21 + length body),
              f\<lparr>m_is_empty := False, m_curr_file_size := of_nat (21 + length body),
                m_file := (m_file f)\<lparr>fs_pos := 21 + length body\<rparr>\<rparr>, log_text body)"
proof -
  have n: "unat (of_nat (21 + length body) :: size_t) = 21 + length body" using assms(2) by (rule unat_small)
  then have "(of_nat (21 + length body) :: size_t) \<noteq> 0" by (metis add_is_0 unat_0 zero_neq_numeral)
  moreover have "unat (of_nat (21 + length body) :: size_t) < 2 ^ 31" using n assms(2) by simp
  ultimately show ?thesis using assms get_pos[OF assms(1), of "of_nat (21 + length body)" body] n
    by (simp add: reposition_to_write_def log_text_def fs_seek_size del: of_nat_add)
qed

lemma reposition_empty:
  assumes "(good (m_file f) \<and> c = []) \<or> (fs_fail (m_file f))"
  shows "reposition_to_write f c =
         Inr (21, f\<lparr>m_is_empty := True, m_curr_file_size := 21,
                m_file := (m_file f)\<lparr>fs_pos := 21, fs_fail := False, fs_eof := False\<rparr>\<rparr>, fs_overwrite c 0 (pos_line 21))"
  using assms by (auto simp: reposition_to_write_def get_pos_empty get_pos_failed set_pos fs_clear_def FILE_HEADER_LENGTH_def)

section \<open>Pending data\<close>

definition log_inv :: "log_file \<Rightarrow> bool" where
  "log_inv f \<longleftrightarrow>
     length (m_buffers f) = 2 \<and> (\<forall>b \<in> set (m_buffers f). length b = m_max_buff_size f) \<and> m_curr_buff f < 2 \<and>
     m_curr_buff_size f \<le> m_max_buff_size f \<and>
     (case m_buff_to_write f of
        None \<Rightarrow> True
      | Some i \<Rightarrow> i < 2 \<and> i \<noteq> m_curr_buff f \<and> m_buff_size_to_write f \<le> m_max_buff_size f)"

definition to_write :: "log_file \<Rightarrow> string" where
  "to_write f = (case m_buff_to_write f of None \<Rightarrow> [] | Some i \<Rightarrow> take (m_buff_size_to_write f) (m_buffers f ! i))"

definition pending :: "log_file \<Rightarrow> string" where
  "pending f = to_write f @ take (m_curr_buff_size f) (m_buffers f ! m_curr_buff f)"

lemma log_inv_construct:
  "log_file_construct path cyclic max_buff max_file header skip garbage = Inr f \<Longrightarrow> log_inv f \<and> pending f = []"
  by (auto simp: log_file_construct_def log_inv_def pending_def to_write_def NUM_OF_BUFFERS_def split: option.splits)

lemma log_inv_buffer: "log_inv f \<Longrightarrow> i < 2 \<Longrightarrow> length (m_buffers f ! i) = m_max_buff_size f"
  by (auto simp: log_inv_def)

lemma switch_buffers_pending:
  assumes "log_inv f" and "m_buff_to_write f = None"
  shows "log_inv (switch_buffers f) \<and> pending (switch_buffers f) = pending f \<and>
         to_write (switch_buffers f) = pending f \<and> m_curr_buff_size (switch_buffers f) = 0 \<and>
         m_buff_to_write (switch_buffers f) = Some (m_curr_buff f) \<and> length (pending f) = m_buff_size_to_write (switch_buffers f)"
proof -
  have "m_curr_buff f = 0 \<or> m_curr_buff f = 1" using assms(1) by (auto simp: log_inv_def)
  then have "(m_curr_buff f + 1) mod NUM_OF_BUFFERS \<noteq> m_curr_buff f" "(m_curr_buff f + 1) mod NUM_OF_BUFFERS < 2"
    by (auto simp: NUM_OF_BUFFERS_def)
  with assms log_inv_buffer[OF assms(1), of "m_curr_buff f"] show ?thesis
    by (auto simp: switch_buffers_def Let_def log_inv_def pending_def to_write_def dest!: subsetD[OF set_update_subset_insert])
qed

lemma log_write_pending:
  assumes "log_inv f" and "n \<le> length b"
  shows "\<exists>m f'. log_write (Some b) n f = Inr (m, f') \<and> log_inv f' \<and> m_file f' = m_file f \<and>
           ((m = n \<and> pending f' = pending f @ take n b) \<or> (m = 0 \<and> f' = f))"
proof -
  let ?full = "m_curr_buff_size f + n > m_max_buff_size f"
  show ?thesis
  proof (cases "n = 0 \<or> n \<ge> m_max_buff_size f \<or> (?full \<and> m_buff_to_write f \<noteq> None)")
    case True
    then show ?thesis using assms by (auto simp: log_write_def)
  next
    case False
    define g where "g = (if ?full then switch_buffers f else f)"
    have g: "log_inv g" "pending g = pending f" "m_curr_buff_size g + n \<le> m_max_buff_size g" "m_file g = m_file f"
      using False assms switch_buffers_pending[OF assms(1)] by (auto simp: g_def switch_buffers_def Let_def)
    have cur: "m_curr_buff g < 2" using g(1) by (simp add: log_inv_def)
    have len: "length (m_buffers g ! m_curr_buff g) = m_max_buff_size g" using log_inv_buffer[OF g(1) cur] .
    define b' where "b' = take (m_curr_buff_size g) (m_buffers g ! m_curr_buff g) @ take n b @
                            drop (m_curr_buff_size g + n) (m_buffers g ! m_curr_buff g)"
    define f' where "f' = g\<lparr>m_buffers := (m_buffers g)[m_curr_buff g := b'], m_curr_buff_size := m_curr_buff_size g + n\<rparr>"
    have "log_write (Some b) n f = Inr (n, f')"
      using False assms(2) g(3) len
      by (auto simp: log_write_def mem_read_def mem_write_def min_absorb2 f'_def b'_def simp flip: g_def)
    moreover have "log_inv f'" using g(1,3) len assms(2)
      by (auto simp: log_inv_def f'_def b'_def min_absorb2 dest!: subsetD[OF set_update_subset_insert] split: option.splits)
    moreover have "to_write f' = to_write g" using g(1) by (auto simp: to_write_def f'_def log_inv_def split: option.splits)
    moreover have "take (m_curr_buff_size g + n) b' = take (m_curr_buff_size g) (m_buffers g ! m_curr_buff g) @ take n b"
      using g(3) len assms(2) by (simp add: b'_def min_absorb2)
    moreover have "m_buffers f' ! m_curr_buff f' = b'" using g(1) cur by (simp add: f'_def log_inv_def)
    ultimately have "pending f' = pending g @ take n b" by (simp add: pending_def) (simp add: f'_def)
    with \<open>log_write (Some b) n f = Inr (n, f')\<close> \<open>log_inv f'\<close> g(2,4) show ?thesis by (auto simp: f'_def)
  qed
qed

section \<open>A flush appends the pending buffer\<close>

lemma write_buffer_appends:
  assumes "log_inv f" and "m_buff_to_write f = Some i" and "good (m_file f)" and "fs_pos (m_file f) = 21 + length body"
    and "m_curr_file_size f = of_nat (21 + length body)"
  shows "\<exists>f'. write_buffer f (pos_line n @ body @ r) =
           Inr (True, f', log_text (body @ to_write f) @ drop (length (to_write f)) r) \<and> log_inv f' \<and>
           pending f' = take (m_curr_buff_size f) (m_buffers f ! m_curr_buff f) \<and> \<not> fs_open (m_file f') \<and> lf_path f' = lf_path f \<and>
           m_header_data f' = m_header_data f \<and> m_max_file_size f' = m_max_file_size f"
proof -
  have i: "i < 2" "m_buff_size_to_write f \<le> m_max_buff_size f" "length (m_buffers f) = 2"
    using assms(1,2) by (auto simp: log_inv_def)
  have d: "length (to_write f) = m_buff_size_to_write f"
    using log_inv_buffer[OF assms(1) i(1)] i(2) assms(2) by (simp add: to_write_def)
  have "mem_read (m_buffers f ! i) 0 (m_buff_size_to_write f) = Inr (to_write f)"
    using log_inv_buffer[OF assms(1) i(1)] i(2) assms(2) by (simp add: mem_read_def to_write_def)
  moreover have "fs_overwrite (pos_line n @ body @ r) (21 + length body) (to_write f) =
      pos_line n @ body @ to_write f @ drop (length (to_write f)) r"
    using fs_overwrite_append[of "pos_line n @ body" "[]" r "to_write f"] by simp
  moreover have "fs_overwrite (pos_line n @ body @ to_write f @ s) 0 (pos_line m) = pos_line m @ body @ to_write f @ s" for m s
    by (simp add: fs_overwrite_start)
  moreover have "m_curr_file_size f + of_nat (m_buff_size_to_write f) = of_nat (21 + length (body @ to_write f))"
    by (simp add: assms(5) d)
  ultimately show ?thesis using assms i
    by (auto simp: write_buffer_def fs_write_good set_pos Let_def log_text_def fs_close_def log_inv_def pending_def to_write_def
        simp del: of_nat_add of_nat_numeral)
qed

lemma write_header_appends:
  assumes "m_is_empty f" and "good (m_file f)" and "fs_pos (m_file f) = 21" and "m_curr_file_size f = 21"
  shows "\<exists>f'. write_header f (pos_line n @ r) = (True, f', pos_line n @ m_header_data f @ drop (length (m_header_data f)) r) \<and>
           good (m_file f') \<and> fs_pos (m_file f') = 21 + length (m_header_data f) \<and>
           m_curr_file_size f' = of_nat (21 + length (m_header_data f)) \<and>
           f' = f\<lparr>m_file := m_file f', m_curr_file_size := m_curr_file_size f', m_is_empty := m_is_empty f'\<rparr>"
  using assms fs_overwrite_append[of "pos_line n" "[]" r "m_header_data f"]
  by (auto simp: write_header_def fs_write_good)

lemma log_inv_update [simp]:
  "log_inv (m_file_update u f) = log_inv f" "log_inv (m_curr_file_size_update v f) = log_inv f" "log_inv (m_is_empty_update w f) = log_inv f"
  by (simp_all add: log_inv_def split: option.split)

lemma to_write_update [simp]:
  "to_write (m_file_update u f) = to_write f" "to_write (m_curr_file_size_update v f) = to_write f" "to_write (m_is_empty_update w f) = to_write f"
  by (simp_all add: to_write_def split: option.split)

lemma pending_update [simp]: "pending (m_file_update u f) = pending f"
  by (simp add: pending_def)

text \<open>The buffer a flush writes.\<close>

definition flushed :: "log_file \<Rightarrow> string" where
  "flushed f = (if m_buff_to_write f = None then pending f else to_write f)"

lemma flushed_update [simp]: "flushed (m_file_update u f) = flushed f"
  by (simp add: flushed_def)

lemma flush_buffers:
  assumes "log_inv f" and "g = (if m_buff_to_write f = None then switch_buffers f else f)"
  shows "\<exists>i. log_inv g \<and> m_buff_to_write g = Some i \<and> to_write g = flushed f \<and> length (flushed f) = m_buff_size_to_write g \<and>
           flushed f @ take (m_curr_buff_size g) (m_buffers g ! m_curr_buff g) = pending f \<and> m_file g = m_file f \<and>
           lf_path g = lf_path f \<and> m_header_data g = m_header_data f \<and> m_max_file_size g = m_max_file_size f \<and> m_is_cyclic g = m_is_cyclic f"
proof (cases "m_buff_to_write f")
  case None
  with switch_buffers_pending[OF assms(1)] assms(2) show ?thesis
    by (simp add: flushed_def) (simp add: switch_buffers_def Let_def)
next
  case (Some i)
  then have "i < 2" "m_buff_size_to_write f \<le> m_max_buff_size f" using assms(1) by (auto simp: log_inv_def)
  with Some assms log_inv_buffer[OF assms(1), of i] show ?thesis
    by (simp add: flushed_def pending_def) (simp add: to_write_def)
qed

lemma size_below:
  assumes "a + b < 2 ^ 31" and "a + b < unat (m :: size_t)"
  shows "\<not> of_nat a + of_nat b \<ge> m"
proof -
  have "unat (of_nat a + of_nat b :: size_t) = a + b" using unat_small[OF assms(1)] by simp
  with assms(2) show ?thesis by (simp add: word_le_nat_alt)
qed

lemma flush_text:
  assumes "log_inv f" and "good (m_file f)"
    and "21 + length body + length (flushed f) < 2 ^ 31" and "21 + length body + length (flushed f) < unat (m_max_file_size f)"
  shows "\<exists>f'. flush_body f (log_text body) = Inr (True, f', log_text (body @ flushed f)) \<and> log_inv f' \<and>
           flushed f @ pending f' = pending f \<and> \<not> fs_open (m_file f') \<and> lf_path f' = lf_path f \<and>
           m_header_data f' = m_header_data f \<and> m_max_file_size f' = m_max_file_size f"
proof -
  define g where "g = (if m_buff_to_write f = None then switch_buffers f else f)"
  from flush_buffers[OF assms(1) g_def] obtain i where
    g: "log_inv g" "m_buff_to_write g = Some i" "to_write g = flushed f" "length (flushed f) = m_buff_size_to_write g"
    "flushed f @ take (m_curr_buff_size g) (m_buffers g ! m_curr_buff g) = pending f" "m_file g = m_file f"
    "lf_path g = lf_path f" "m_header_data g = m_header_data f" "m_max_file_size g = m_max_file_size f" by blast
  define h where "h = g\<lparr>m_is_empty := False, m_curr_file_size := of_nat (21 + length body),
                       m_file := (m_file g)\<lparr>fs_pos := 21 + length body\<rparr>\<rparr>"
  have "21 + length body < 2 ^ 31" using assms(3) by simp
  with assms(2) g(6) have rep: "reposition_to_write g (log_text body) = Inr (of_nat (21 + length body), h, log_text body)"
    unfolding h_def by (intro reposition_text) auto
  have nz: "(of_nat (21 + length body) :: size_t) \<noteq> 0"
    using unat_small[of "21 + length body"] assms(3) by (metis add_is_0 add_lessD1 unat_0 zero_neq_numeral)
  have "write_header h c = (True, h, c)" for c by (simp add: write_header_def h_def)
  moreover have "\<not> m_curr_file_size h + of_nat (m_buff_size_to_write h) \<ge> m_max_file_size h"
    using size_below[of "21 + length body" "m_buff_size_to_write g"] assms(3,4) g(4,9)
    by (simp add: h_def del: of_nat_add)
  ultimately have fb: "flush_body f (log_text body) = write_buffer h (log_text body)"
    using rep nz by (simp add: flush_body_def flip: g_def)
  have "log_inv h" "m_buff_to_write h = Some i" "good (m_file h)" "fs_pos (m_file h) = 21 + length body"
    "m_curr_file_size h = of_nat (21 + length body)" using g assms(2) by (simp_all add: h_def)
  from write_buffer_appends[OF this, of "of_nat (21 + length body)" "[]"] obtain f' where
    "flush_body f (log_text body) = Inr (True, f', log_text (body @ to_write h))"
    "log_inv f'" "pending f' = take (m_curr_buff_size h) (m_buffers h ! m_curr_buff h)" "\<not> fs_open (m_file f')"
    "lf_path f' = lf_path h" "m_header_data f' = m_header_data h" "m_max_file_size f' = m_max_file_size h"
    using fb unfolding log_text_def[of body] by auto
  with g show ?thesis by (intro exI[of _ f']) (simp add: h_def)
qed

text \<open>On an empty file and on a stream that has failed, a flush starts the file again: the length line, the header and the
  buffer are written over what is there.\<close>

lemma flush_restarts:
  assumes "log_inv f" and "(good (m_file f) \<and> c = [] \<and> r = []) \<or> (fs_fail (m_file f) \<and> (\<exists>n. c = pos_line n @ r))"
    and "21 + length (m_header_data f) + length (flushed f) < 2 ^ 31"
    and "21 + length (m_header_data f) + length (flushed f) < unat (m_max_file_size f)"
  shows "\<exists>f'. flush_body f c =
             Inr (True, f', log_text (m_header_data f @ flushed f) @ drop (length (m_header_data f @ flushed f)) r) \<and> log_inv f' \<and>
           flushed f @ pending f' = pending f \<and> \<not> fs_open (m_file f') \<and> lf_path f' = lf_path f \<and>
           m_header_data f' = m_header_data f \<and> m_max_file_size f' = m_max_file_size f"
proof -
  define g where "g = (if m_buff_to_write f = None then switch_buffers f else f)"
  from flush_buffers[OF assms(1) g_def] obtain i where
    g: "log_inv g" "m_buff_to_write g = Some i" "to_write g = flushed f" "length (flushed f) = m_buff_size_to_write g"
    "flushed f @ take (m_curr_buff_size g) (m_buffers g ! m_curr_buff g) = pending f" "m_file g = m_file f"
    "lf_path g = lf_path f" "m_header_data g = m_header_data f" "m_max_file_size g = m_max_file_size f" by blast
  define h where "h = g\<lparr>m_is_empty := True, m_curr_file_size := 21,
                       m_file := (m_file g)\<lparr>fs_pos := 21, fs_fail := False, fs_eof := False\<rparr>\<rparr>"
  have "fs_overwrite c 0 (pos_line 21) = pos_line 21 @ r" using assms(2) by (auto simp: fs_overwrite_start fs_overwrite_def)
  then have rep: "reposition_to_write g c = Inr (21, h, pos_line 21 @ r)"
    using reposition_empty[of g c] assms(2) g(6) by (auto simp: h_def)
  obtain k where k: "write_header h (pos_line 21 @ r) = (True, k, pos_line 21 @ m_header_data f @ drop (length (m_header_data f)) r)"
    and k2: "good (m_file k)" "fs_pos (m_file k) = 21 + length (m_header_data f)" "m_curr_file_size k = of_nat (21 + length (m_header_data f))"
    and k3: "k = h\<lparr>m_file := m_file k, m_curr_file_size := m_curr_file_size k, m_is_empty := m_is_empty k\<rparr>"
    using write_header_appends[of h 21 r] g(8) by (auto simp: h_def)
  have k4: "log_inv k" "m_buff_to_write k = Some i" "to_write k = flushed f" "m_buff_size_to_write k = length (flushed f)"
    "m_max_file_size k = m_max_file_size f" "lf_path k = lf_path f" "m_header_data k = m_header_data f"
    "m_curr_buff_size k = m_curr_buff_size g" "m_buffers k = m_buffers g" "m_curr_buff k = m_curr_buff g"
    using g by (subst k3, simp add: h_def)+
  have "\<not> m_curr_file_size k + of_nat (m_buff_size_to_write k) \<ge> m_max_file_size k"
    using size_below[of "21 + length (m_header_data f)" "length (flushed f)"] assms(3,4) k2(3) k4
    by (simp del: of_nat_add)
  with rep k have fb: "flush_body f c = write_buffer k (pos_line 21 @ m_header_data f @ drop (length (m_header_data f)) r)"
    by (simp add: flush_body_def flip: g_def)
  from write_buffer_appends[OF k4(1,2) k2, of 21 "drop (length (m_header_data f)) r"] obtain f' where
    "flush_body f c = Inr (True, f', log_text (m_header_data f @ flushed f) @ drop (length (flushed f)) (drop (length (m_header_data f)) r))"
    "log_inv f'" "pending f' = take (m_curr_buff_size g) (m_buffers g ! m_curr_buff g)" "\<not> fs_open (m_file f')"
    "lf_path f' = lf_path f" "m_header_data f' = m_header_data f" "m_max_file_size f' = m_max_file_size f"
    unfolding fb k4 by blast
  with g(5) show ?thesis by (intro exI[of _ f']) (simp add: add.commute)
qed

section \<open>Writing and flushing in any order\<close>

text \<open>What is in the file behind the length line; a file that does not exist yet begins with the header.\<close>

definition log_body :: "log_file \<Rightarrow> disk \<Rightarrow> string" where
  "log_body f d =
     (case dk_contents d (lf_path f) of None \<Rightarrow> m_header_data f | Some c \<Rightarrow> if c = [] then m_header_data f else drop 21 c)"

definition log_disk :: "log_file \<Rightarrow> disk \<Rightarrow> bool" where
  "log_disk f d \<longleftrightarrow> dk_writable d (lf_path f) \<and>
     (case dk_contents d (lf_path f) of
        None \<Rightarrow> True
      | Some c \<Rightarrow> c = [] \<or> c = log_text (drop 21 c))"

definition log_room :: "log_file \<Rightarrow> disk \<Rightarrow> bool" where
  "log_room f d \<longleftrightarrow> 21 + length (log_body f d) + length (flushed f) < 2 ^ 31 \<and>
     21 + length (log_body f d) + length (flushed f) < unat (m_max_file_size f)"

definition log_ready :: "log_file \<Rightarrow> disk \<Rightarrow> bool" where
  "log_ready f d \<longleftrightarrow> log_inv f \<and> \<not> fs_open (m_file f) \<and> log_disk f d"

lemma log_text_inject: "log_text b = c \<Longrightarrow> drop 21 c = b \<and> c \<noteq> [] \<and> c = log_text (drop 21 c)"
  by (auto simp: log_text_def pos_line_digits)

lemma log_flush_appends:
  assumes "log_ready f d" and "log_room f d"
  shows "\<exists>f' d'. log_flush f d = Inr (True, f', d') \<and> log_ready f' d' \<and>
           log_body f' d' = log_body f d @ flushed f \<and> flushed f @ pending f' = pending f"
proof -
  let ?p = "lf_path f" and ?fs = "\<lparr>fs_open = True, fs_fail = False, fs_eof = False, fs_pos = 0\<rparr>"
  let ?c = "case dk_contents d ?p of None \<Rightarrow> [] | Some c \<Rightarrow> c" and ?f = "f\<lparr>m_file := \<lparr>fs_open = True, fs_fail = False, fs_eof = False, fs_pos = 0\<rparr>\<rparr>"
  have r: "log_inv f" "\<not> fs_open (m_file f)" "dk_writable d ?p" using assms(1) by (auto simp: log_ready_def log_disk_def)
  have i: "log_inv ?f" "flushed ?f = flushed f" "good (m_file ?f)" using r(1) by (simp_all add: flushed_def)
  have "\<exists>f'. flush_body ?f ?c = Inr (True, f', log_text (log_body f d @ flushed f)) \<and> log_inv f' \<and>
           flushed f @ pending f' = pending f \<and> \<not> fs_open (m_file f') \<and> lf_path f' = ?p"
  proof (cases "?c = []")
    case True
    then have b: "log_body f d = m_header_data f" by (auto simp: log_body_def split: option.splits)
    with flush_restarts[OF i(1), of ?c "[]"] True assms(2) i show ?thesis by (auto simp: log_room_def)
  next
    case False
    then have c: "?c = log_text (log_body f d)"
      using assms(1) by (auto simp: log_ready_def log_disk_def log_body_def split: option.splits)
    with flush_text[OF i(1,3), of "log_body f d"] assms(2) i show ?thesis by (auto simp: log_room_def)
  qed
  then obtain f' where f': "flush_body ?f ?c = Inr (True, f', log_text (log_body f d @ flushed f))" "log_inv f'"
    "flushed f @ pending f' = pending f" "\<not> fs_open (m_file f')" "lf_path f' = ?p" by blast
  define d1 where "d1 = (if dk_contents d ?p = None \<and> dk_writable d ?p then d\<lparr>dk_contents := (dk_contents d)(?p := Some [])\<rparr> else d)"
  have d1: "dk_contents d1 ?p = Some ?c" "dk_writable d1 = dk_writable d"
    using r(3) by (auto simp: d1_def split: option.splits)
  then have "log_flush f d = Inr (True, f', d1\<lparr>dk_contents := (dk_contents d1)(?p := Some (log_text (log_body f d @ flushed f)))\<rparr>)"
    using r f'(1) unfolding log_flush_def Let_def d1_def[symmetric] by (simp add: fs_open_at_def)
  moreover have "log_text (log_body f d @ flushed f) = log_text (drop 21 (log_text (log_body f d @ flushed f)))"
    "drop 21 (log_text (log_body f d @ flushed f)) = log_body f d @ flushed f" "log_text (log_body f d @ flushed f) \<noteq> []"
    using log_text_inject[OF refl, of "log_body f d @ flushed f"] by simp_all
  ultimately show ?thesis using f' r(3) d1(2)
    by (intro exI conjI) (auto simp: log_ready_def log_disk_def log_body_def)
qed

inductive log_run :: "log_file \<times> disk \<Rightarrow> string list \<Rightarrow> log_file \<times> disk \<Rightarrow> bool" for s where
  log_start: "log_run s [] s"
| log_put: "log_run s accepted (f, d) \<Longrightarrow> n \<le> length b \<Longrightarrow> log_write (Some b) n f = Inr (m, f') \<Longrightarrow>
    log_run s (accepted @ [take m b]) (f', d)"
| log_save: "log_run s accepted (f, d) \<Longrightarrow> log_room f d \<Longrightarrow> log_flush f d = Inr (ok, f', d') \<Longrightarrow>
    log_run s accepted (f', d')"

inductive_cases log_runE: "log_run s accepted s'"

lemma log_write_paths:
  assumes "log_write (Some b) n f = Inr (m, f')"
  shows "lf_path f' = lf_path f \<and> m_header_data f' = m_header_data f"
  using assms by (auto simp: log_write_def Let_def switch_buffers_def res_simps split: if_splits)

lemma log_run_correct:
  assumes "log_run s accepted s'" and "log_ready (fst s) (snd s)"
  shows "log_ready (fst s') (snd s') \<and>
         log_body (fst s') (snd s') @ pending (fst s') = log_body (fst s) (snd s) @ pending (fst s) @ concat accepted"
  using assms
proof (induction rule: log_run.induct)
  case (log_put accepted f d n b m f')
  then have inv: "log_inv f" by (simp add: log_ready_def)
  from log_write_pending[OF inv log_put.hyps(2)] log_put.hyps(3) have w: "log_inv f'" "m_file f' = m_file f"
    "m = n \<and> pending f' = pending f @ take n b \<or> m = 0 \<and> f' = f" by auto
  have "log_body f' d = log_body f d" "log_disk f' d = log_disk f d"
    using log_write_paths[OF log_put.hyps(3)] by (simp_all add: log_disk_def log_body_def split: option.split)
  with w log_put.IH log_put.prems show ?case by (auto simp: log_ready_def)
next
  case (log_save accepted f d ok f' d')
  with log_flush_appends[of f d] show ?case by auto
qed simp

section \<open>Properties\<close>

text \<open>C18. The log loses and reorders nothing. In every run of writes and flushes of a new log file, on a file that is absent,
  empty or a log, as long as the file has room: the data behind the length line, followed by what the two buffers hold,
  is what the file had at the start followed by all data that was accepted, in the order of the calls; and no write
  leaves its buffer.\<close>

theorem log_loses_nothing:
  assumes "log_file_construct path cyclic max_buff max_file header skip garbage = Inr f0" and "log_disk f0 d0"
    and "log_run (f0, d0) accepted (f, d)"
  shows "log_body f d @ pending f = log_body f0 d0 @ concat accepted \<and>
         (\<forall>b n. n \<le> length b \<longrightarrow> is_ok (log_write (Some b) n f)) \<and>
         (log_room f d \<longrightarrow> (\<exists>f' d'. log_flush f d = Inr (True, f', d')))"
proof -
  have i: "log_inv f0" "pending f0 = []" using log_inv_construct[OF assms(1)] by simp_all
  moreover have "\<not> fs_open (m_file f0)"
    using assms(1) by (auto simp: log_file_construct_def fstream_closed_def split: option.splits)
  ultimately have "log_ready f0 d0" using assms(2) by (simp add: log_ready_def)
  with log_run_correct[OF assms(3)] have r: "log_ready f d" "log_body f d @ pending f = log_body f0 d0 @ concat accepted"
    by (simp_all add: i)
  moreover have "is_ok (log_write (Some b) n f)" if "n \<le> length b" for b n
    using log_write_pending[OF _ that, of f] r(1) by (auto simp: log_ready_def is_ok_iff)
  moreover have "log_room f d \<Longrightarrow> \<exists>f' d'. log_flush f d = Inr (True, f', d')"
    using log_flush_appends[OF r(1)] by blast
  ultimately show ?thesis by blast
qed

definition example_log :: log_file where
  "example_log = \<lparr>lf_path = ''l'', m_is_cyclic = False, m_max_buff_size = 3, m_max_file_size = 100, m_header_data = ''H'',
     m_lines_to_skip = 0, m_buffers = replicate 2 (replicate 3 (CHR 0x00)), m_curr_buff = 0, m_curr_buff_size = 0,
     m_buff_to_write = None, m_buff_size_to_write = 0, m_curr_file_size = 7, m_is_empty = True, m_file = fstream_closed\<rparr>"

theorem log_loses_nothing_witness:
  "\<exists>f d. log_run (example_log, \<lparr>dk_contents = Map.empty, dk_writable = (\<lambda>p. True)\<rparr>) [''ab'', ''cd''] (f, d) \<and>
     log_body f d @ pending f = ''Habcd''"
proof -
  let ?d = "\<lparr>dk_contents = Map.empty, dk_writable = (\<lambda>p. True)\<rparr>"
  have c: "log_file_construct ''l'' False 3 100 (Some ''H'') 0 7 = Inr example_log"
    by (simp add: log_file_construct_def example_log_def NUM_OF_BUFFERS_def)
  have "log_inv example_log" using log_inv_construct[OF c] by simp
  then obtain m f1 where w1: "log_write (Some ''ab'') 2 example_log = Inr (m, f1)" "log_inv f1" and m: "m = 2 \<or> m = 0"
    using log_write_pending[of example_log 2 "''ab''"] by auto
  have "m = 2" using w1(1) by (simp add: log_write_def example_log_def mem_read_def mem_write_def)
  from log_put[OF log_start _ w1(1), of ?d] have r1: "log_run (example_log, ?d) [''ab''] (f1, ?d)" by (simp add: \<open>m = 2\<close>)
  have f1: "f1 = example_log\<lparr>m_buffers := [''ab'' @ [CHR 0x00], replicate 3 (CHR 0x00)], m_curr_buff_size := 2\<rparr>"
    using w1(1) by (auto simp: log_write_def example_log_def mem_read_def mem_write_def numeral_2_eq_2 numeral_3_eq_3)
  obtain m2 f2 where w2: "log_write (Some ''cd'') 2 f1 = Inr (m2, f2)" "m2 = 2"
    by (simp add: f1 log_write_def example_log_def switch_buffers_def NUM_OF_BUFFERS_def mem_read_def mem_write_def numeral_2_eq_2 numeral_3_eq_3)
  from log_put[OF r1 _ w2(1)] have r2: "log_run (example_log, ?d) [''ab'', ''cd''] (f2, ?d)" by (simp add: w2(2))
  have "log_disk example_log ?d" by (simp add: log_disk_def)
  moreover have "log_body example_log ?d = ''H''" by (simp add: log_body_def example_log_def)
  ultimately have "log_body f2 ?d @ pending f2 = ''Habcd''" using log_loses_nothing[OF c _ r2] by simp
  with r2 show ?thesis by blast
qed

text \<open>A full log that is not cyclic starts again. When the buffer does not fit any more, \<^verbatim>\<open>flush\<close> returns false and
  leaves the file open; the next \<^verbatim>\<open>flush\<close> cannot open it again, takes the failed stream for an empty file, and
  writes the header and the buffer over the oldest data.\<close>

theorem full_log_starts_again:
  assumes "log_ready f d" and "\<not> m_is_cyclic f" and "dk_contents d (lf_path f) = Some (log_text body)"
    and "21 + length body + length (flushed f) < 2 ^ 31" and "unat (m_max_file_size f) \<le> 21 + length body + length (flushed f)"
    and "21 + length (m_header_data f) + length (flushed f) < unat (m_max_file_size f)"
  shows "\<exists>f1. log_flush f d = Inr (False, f1, d) \<and>
           (\<exists>f2 d2. log_flush f1 d = Inr (True, f2, d2) \<and>
              dk_contents d2 (lf_path f) =
                Some (log_text (m_header_data f @ flushed f) @ drop (length (m_header_data f @ flushed f)) body))"
proof -
  let ?p = "lf_path f" and ?f = "f\<lparr>m_file := \<lparr>fs_open = True, fs_fail = False, fs_eof = False, fs_pos = 0\<rparr>\<rparr>"
  have r: "log_inv f" "\<not> fs_open (m_file f)" "dk_writable d ?p" using assms(1) by (auto simp: log_ready_def log_disk_def)
  define g where "g = (if m_buff_to_write ?f = None then switch_buffers ?f else ?f)"
  have "flushed ?f = flushed f" by (simp add: flushed_def)
  with flush_buffers[of ?f g] g_def r(1) obtain i where
    g: "log_inv g" "m_buff_to_write g = Some i" "to_write g = flushed f" "length (flushed f) = m_buff_size_to_write g" "m_file g = m_file ?f"
    "lf_path g = lf_path f" "m_header_data g = m_header_data f" "m_max_file_size g = m_max_file_size f" "m_is_cyclic g = m_is_cyclic f" by auto
  define h where "h = g\<lparr>m_is_empty := False, m_curr_file_size := of_nat (21 + length body),
                       m_file := (m_file g)\<lparr>fs_pos := 21 + length body\<rparr>\<rparr>"
  have n: "unat (of_nat (21 + length body) + of_nat (m_buff_size_to_write g) :: size_t) = 21 + length body + length (flushed f)"
    using unat_small[OF assms(4)] g(4) by simp
  have nz: "(of_nat (21 + length body) :: size_t) \<noteq> 0"
    using unat_small[of "21 + length body"] assms(4) by (metis add_is_0 add_lessD1 unat_0 zero_neq_numeral)
  have rep: "reposition_to_write g (log_text body) = Inr (of_nat (21 + length body), h, log_text body)"
    unfolding h_def by (rule reposition_text) (use g(5) assms(4) in auto)
  have "m_curr_file_size h + of_nat (m_buff_size_to_write h) \<ge> m_max_file_size h"
    using n assms(5) g(8) unfolding word_le_nat_alt by (simp add: h_def del: of_nat_add)
  then have fb: "flush_body ?f (log_text body) = Inr (False, h, log_text body)"
    using rep nz assms(2) g(9) unfolding flush_body_def g_def[symmetric] by (simp add: write_header_def) (simp add: h_def)
  have "d\<lparr>dk_contents := (dk_contents d)(?p \<mapsto> log_text body)\<rparr> = d" using assms(3) by (simp add: fun_upd_idem)
  then have 1: "log_flush f d = Inr (False, h, d)"
    using r assms(3) fb by (simp add: log_flush_def fs_open_at_def)
  have hf: "log_inv h" "flushed h = flushed f" "m_header_data h = m_header_data f" "m_max_file_size h = m_max_file_size f"
    "lf_path h = ?p" "fs_open (m_file h)" using g by (simp_all add: h_def flushed_def)
  define k where "k = h\<lparr>m_file := (m_file h)\<lparr>fs_fail := True\<rparr>\<rparr>"
  have kf: "log_inv k" "flushed k = flushed f" "m_header_data k = m_header_data f" "m_max_file_size k = m_max_file_size f" "fs_fail (m_file k)"
    using hf by (simp_all add: k_def)
  have "\<exists>n. log_text body = pos_line n @ body" by (auto simp: log_text_def)
  with flush_restarts[OF kf(1), of "log_text body" body] kf assms(6) order.strict_trans2[OF assms(6) assms(5)] assms(4)
  obtain f2 where "flush_body (h\<lparr>m_file := (m_file h)\<lparr>fs_fail := True\<rparr>\<rparr>) (log_text body) =
      Inr (True, f2, log_text (m_header_data f @ flushed f) @ drop (length (m_header_data f @ flushed f)) body)"
    unfolding k_def[symmetric] by auto
  then have "log_flush h d = Inr (True, f2, d\<lparr>dk_contents := (dk_contents d)(?p \<mapsto>
      log_text (m_header_data f @ flushed f) @ drop (length (m_header_data f @ flushed f)) body)\<rparr>)"
    using r(3) hf(5,6) assms(3) by (simp add: log_flush_def fs_open_at_def)
  with 1 show ?thesis by (intro exI[of _ h]) auto
qed

definition example_full_log :: log_file where
  "example_full_log = example_log\<lparr>m_max_file_size := 25, m_buffers := [''ab'' @ [CHR 0x00], replicate 3 (CHR 0x00)], m_curr_buff_size := 2\<rparr>"

theorem full_log_starts_again_witness:
  "\<exists>f1 f2 d2. log_flush example_full_log \<lparr>dk_contents = [''l'' \<mapsto> log_text ''Hxy''], dk_writable = (\<lambda>p. True)\<rparr> =
       Inr (False, f1, \<lparr>dk_contents = [''l'' \<mapsto> log_text ''Hxy''], dk_writable = (\<lambda>p. True)\<rparr>) \<and>
     log_flush f1 \<lparr>dk_contents = [''l'' \<mapsto> log_text ''Hxy''], dk_writable = (\<lambda>p. True)\<rparr> = Inr (True, f2, d2) \<and>
     dk_contents d2 ''l'' = Some (log_text ''Hab'')"
proof -
  let ?d = "\<lparr>dk_contents = [''l'' \<mapsto> log_text ''Hxy''], dk_writable = (\<lambda>p. True)\<rparr>"
  have t: "drop 21 (log_text ''Hxy'') = ''Hxy''" using log_text_inject[OF refl, of "''Hxy''"] by blast
  have "log_inv example_full_log"
    by (simp add: log_inv_def example_full_log_def example_log_def)
  then have 1: "log_ready example_full_log ?d"
    by (simp add: log_ready_def log_disk_def example_full_log_def example_log_def fstream_closed_def t)
  have "flushed example_full_log = ''ab''"
    by (simp add: flushed_def pending_def to_write_def example_full_log_def example_log_def)
  with full_log_starts_again[OF 1, of "''Hxy''"] show ?thesis
    by (auto simp: example_full_log_def example_log_def)
qed

text \<open>\<^verbatim>\<open>read_file\<close> terminates what it has read: with a buffer of the size that is passed and at least that much data in
  the file it writes one byte behind the buffer.\<close>

theorem log_read_writes_behind_buffer:
  assumes "\<not> fs_open (m_file f)" and "dk_writable d (lf_path f)" and "dk_contents d (lf_path f) = Some (log_text body)"
    and "0 < n" and "n \<le> length body" and "length b = n"
  shows "log_read_file (Some b) n False f d = Inl Undefined"
proof -
  let ?fs = "\<lparr>fs_open = True, fs_fail = False, fs_eof = False, fs_pos = 0\<rparr>"
  have tw: "takeWhile ((\<noteq>) LF) (pos_line m @ r) = pos_digits m" for m r
    unfolding pos_line_digits append_assoc by (subst takeWhile_append2) (auto dest: pos_digits_chars)
  then have "fs_getline ?fs (log_text body) = (pos_digits (of_nat (21 + length body)), ?fs\<lparr>fs_pos := 21\<rparr>)"
    by (simp add: fs_getline_def log_text_def)
  then have "restart_file False (f\<lparr>m_file := ?fs\<rparr>) (log_text body) = (21, f\<lparr>m_file := ?fs\<lparr>fs_pos := 21\<rparr>\<rparr>)"
    by (simp add: restart_file_def fs_seek_def)
  moreover have "fs_read n (?fs\<lparr>fs_pos := 21\<rparr>) (log_text body) = (take n body, ?fs\<lparr>fs_pos := 21 + n\<rparr>)"
    using assms(5) by (simp add: fs_read_def log_text_def min_absorb2)
  ultimately show ?thesis using assms by (simp add: log_read_file_def fs_open_at_def mem_write_def min_absorb2)
qed

theorem log_read_writes_behind_buffer_witness:
  "log_read_file (Some ''..'') 2 False example_log \<lparr>dk_contents = [''l'' \<mapsto> log_text ''Hxy''], dk_writable = (\<lambda>p. True)\<rparr> = Inl Undefined"
  by (rule log_read_writes_behind_buffer[where body = "''Hxy''"]) (simp_all add: example_log_def fstream_closed_def)

text \<open>The binary file: what is written and flushed is what is read, cut to the maximal size. The value returned by
  \<^verbatim>\<open>write_file\<close> is 1 and not the number of bytes.\<close>

theorem bin_file_round_trip:
  assumes "bf_max_file_size f = length (bf_buffer f)" and "0 < n" and "n \<le> length b" and "dk_writable d (bf_path f)"
    and "0 < bf_max_file_size f" and "n \<le> length out"
  shows "\<exists>f1 f2 d2. bin_write_file (Some b) n f = Inr (1, f1) \<and> bin_flush f1 d = Inr (True, f2, d2) \<and>
           bin_read_file (Some out) n f2 d2 =
             Inr (min n (bf_max_file_size f), Some (take (min n (bf_max_file_size f)) b @ drop (min n (bf_max_file_size f)) out))"
  using assms by (auto simp: bin_write_file_def mem_read_def mem_write_def bin_flush_def open_for_writing_def bin_read_file_def Let_def)

theorem bin_file_round_trip_witness:
  "\<exists>f1 f2 d2. bin_write_file (Some ''abc'') 3 (bin_file_construct ''p'' 2) = Inr (1, f1) \<and>
     bin_flush f1 \<lparr>dk_contents = Map.empty, dk_writable = (\<lambda>p. True)\<rparr> = Inr (True, f2, d2) \<and>
     bin_read_file (Some ''...'') 3 f2 d2 = Inr (2, Some ''ab.'')"
  using bin_file_round_trip[of "bin_file_construct ''p'' 2" 3 "''abc''" "\<lparr>dk_contents = Map.empty, dk_writable = (\<lambda>p. True)\<rparr>" "''...''"]
  by (simp add: bin_file_construct_def)

end
