(* ===== verification/Errors_Manager.thy ===== *)
theory Errors_Manager
  imports Cpp_Prelude
begin

text \<open>
  The errors manager (\<^verbatim>\<open>ModernAPI/ErrorsManagement.hpp\<close>, types in \<^verbatim>\<open>Common/Common.h\<close>): rows of triggers report that something is all right or
  has failed; each report updates the status of an error, and each update of an error is counted in the groups of the error.

  The manager is a database dispatcher: its functions are queued by writes and run by one worker in order, as
  \<^verbatim>\<open>Database_Dispatcher\<close> shows. Here the rows are given by the values they hold, and the queue by the calls that wait. Every write of
  an error is forced to be reported, so it queues one call with a copy of the error. A report carries the time at which
  its call runs. Loading the tables from XML is left out.
\<close>

section \<open>State\<close>

datatype status_enum = STATUS_NONE | STATUS_FAIL | STATUS_OK

datatype error_status_enum = NOT_EXIST | EXIST | PEND_TO_EXIST | VANISHED | REPEATED | PEND_TO_REPEAT

datatype bool_enum = BOOL_NONE | BOOL_FALSE | BOOL_TRUE

record error_status =
  es_status :: error_status_enum
  es_timeStamp :: int64
  es_pendable :: bool_enum
  es_errorKey :: int
  es_currentCount :: "16 word"
  es_Valid :: bool

record error_store =
  st_Description :: string
  st_DelayToSet :: uint64
  st_RepeatsToSet :: "16 word"

record error_group =
  eg_complex :: bool
  eg_numOfExistingErrors :: int
  eg_lastError :: string

datatype error_call = Report int status_enum uint64 | Changed int error_status

record errors_manager =
  em_store :: "int \<Rightarrow> error_store"
  em_errors :: "int \<Rightarrow> error_status"
  em_groups :: "error_group list"
  em_groups_of :: "int \<Rightarrow> nat list"
  em_queue :: "error_call list"

section \<open>An error\<close>

text \<open>The row of an error when it is made: it can be pending when its delay is positive.\<close>

definition error_create :: "int \<Rightarrow> error_store \<Rightarrow> int64 \<Rightarrow> error_status" where
  "error_create key st now =
     \<lparr>es_status = NOT_EXIST, es_timeStamp = now, es_pendable = (if 0 < st_DelayToSet st then BOOL_TRUE else BOOL_FALSE), es_errorKey = key,
      es_currentCount = 0, es_Valid = True\<rparr>"

text \<open>The four tests in a row, each on the status that the ones before it left.\<close>

definition set_status :: "error_status_enum \<Rightarrow> error_status_enum" where
  "set_status st0 =
     (let st1 = (if st0 = VANISHED then REPEATED else st0);
          st2 = (if st1 = NOT_EXIST then EXIST else st1);
          st3 = (if st2 = PEND_TO_EXIST then EXIST else st2)
      in if st3 = PEND_TO_REPEAT then REPEATED else st3)"

definition fail_error :: "error_store \<Rightarrow> uint64 \<Rightarrow> error_status \<Rightarrow> error_status" where
  "fail_error st now e =
     (let count = es_currentCount e + 1;
          pendable = (if es_timeStamp e + st_DelayToSet st < now then BOOL_FALSE else es_pendable e);
          status = (if st_RepeatsToSet st = 0 \<or> (sint (st_RepeatsToSet st) dvd uint count \<and> pendable = BOOL_FALSE)
                    then set_status (es_status e) else es_status e);
          status' = (if pendable = BOOL_TRUE
                     then (if status = NOT_EXIST \<or> (status = VANISHED \<and> count = 1) then PEND_TO_EXIST else PEND_TO_REPEAT)
                     else status)
      in e\<lparr>es_currentCount := count, es_pendable := pendable, es_status := status'\<rparr>)"

text \<open>\<open>None\<close> is the early return for an error that is not valid: nothing is written.\<close>

definition update_error :: "error_store \<Rightarrow> uint64 \<Rightarrow> status_enum \<Rightarrow> error_status \<Rightarrow> error_status option" where
  "update_error st now report e =
     (if \<not> es_Valid e then None
      else Some ((case report of
                    STATUS_OK \<Rightarrow> if es_status e = EXIST \<or> es_status e = REPEATED then e\<lparr>es_status := VANISHED\<rparr> else e
                  | STATUS_FAIL \<Rightarrow> fail_error st now e
                  | STATUS_NONE \<Rightarrow> e\<lparr>es_status := NOT_EXIST\<rparr>)\<lparr>es_timeStamp := now\<rparr>))"

section \<open>A group\<close>

definition STRING_ERROR_DESCRIPTION_LENGTH :: nat where
  "STRING_ERROR_DESCRIPTION_LENGTH = 256"

definition INT_MAX :: int where
  "INT_MAX = 2147483647"

text \<open>The description is copied without a test of its length.\<close>

definition group_copy :: "(int \<Rightarrow> error_store) \<Rightarrow> error_status \<Rightarrow> error_group \<Rightarrow> error_group result" where
  "group_copy store e g =
     (if eg_complex g
      then (if STRING_ERROR_DESCRIPTION_LENGTH \<le> length (st_Description (store (es_errorKey e))) then Inl Undefined
            else Inr (g\<lparr>eg_lastError := st_Description (store (es_errorKey e))\<rparr>))
      else Inr g)"

definition update_group_error :: "(int \<Rightarrow> error_store) \<Rightarrow> error_status \<Rightarrow> error_group \<Rightarrow> error_group result" where
  "update_group_error store e g =
     res_bind (group_copy store e g) (\<lambda>g1.
       let count = eg_numOfExistingErrors g
       in if es_status e = REPEATED \<or> es_status e = EXIST
          then (if count = INT_MAX then Inl Undefined else Inr (g1\<lparr>eg_numOfExistingErrors := count + 1\<rparr>))
          else if es_status e = VANISHED \<or> es_status e = NOT_EXIST
          then (if 0 < count then Inr (g1\<lparr>eg_numOfExistingErrors := count - 1\<rparr>) else Inr g)
          else Inr g1)"

section \<open>The manager\<close>

text \<open>A write to a trigger row queues a report.\<close>

definition report_error :: "int \<Rightarrow> status_enum \<Rightarrow> uint64 \<Rightarrow> errors_manager \<Rightarrow> errors_manager" where
  "report_error key report now s = s\<lparr>em_queue := em_queue s @ [Report key report now]\<rparr>"

fun update_groups :: "error_status \<Rightarrow> nat list \<Rightarrow> errors_manager \<Rightarrow> errors_manager result" where
  "update_groups e [] s = Inr s"
| "update_groups e (g # gs) s =
     res_bind (update_group_error (em_store s) e (em_groups s ! g)) (\<lambda>g'.
       update_groups e gs (s\<lparr>em_groups := (em_groups s)[g := g']\<rparr>))"

definition errors_perform :: "errors_manager \<Rightarrow> errors_manager result" where
  "errors_perform s =
     (case em_queue s of
        [] \<Rightarrow> Inr s
      | Report key report now # q \<Rightarrow>
          (case update_error (em_store s key) now report (em_errors s key) of
             None \<Rightarrow> Inr (s\<lparr>em_queue := q\<rparr>)
           | Some e \<Rightarrow> Inr (s\<lparr>em_errors := (em_errors s)(key := e), em_queue := q @ [Changed key e]\<rparr>))
      | Changed key e # q \<Rightarrow> update_groups e (em_groups_of s key) (s\<lparr>em_queue := q\<rparr>))"


section \<open>Runs of reports\<close>

fun update_errors :: "error_store \<Rightarrow> (status_enum \<times> uint64) list \<Rightarrow> error_status \<Rightarrow> error_status" where
  "update_errors st [] e = e"
| "update_errors st ((report, now) # rs) e =
     update_errors st rs (case update_error st now report e of None \<Rightarrow> e | Some e' \<Rightarrow> e')"

text \<open>The life of an error as it is meant: it exists when it failed, vanishes when it is all right again, is repeated when it fails after that, and
  is forgotten by a report without a status.\<close>

fun life :: "status_enum \<Rightarrow> error_status_enum \<Rightarrow> error_status_enum" where
  "life STATUS_OK st = (if st = EXIST \<or> st = REPEATED then VANISHED else st)"
| "life STATUS_FAIL st = (if st = NOT_EXIST then EXIST else if st = VANISHED then REPEATED else st)"
| "life STATUS_NONE st = NOT_EXIST"

definition is_pending :: "error_status_enum \<Rightarrow> bool" where
  "is_pending st \<longleftrightarrow> st = PEND_TO_EXIST \<or> st = PEND_TO_REPEAT"

lemma life_not_pending: "\<not> is_pending st \<Longrightarrow> \<not> is_pending (life report st)"
  by (cases report) (auto simp: is_pending_def)

lemma set_status_life: "\<not> is_pending st \<Longrightarrow> set_status st = life STATUS_FAIL st"
  by (cases st) (auto simp: is_pending_def set_status_def)

lemma update_error_life:
  assumes "es_Valid e" and "es_pendable e = BOOL_FALSE" and "\<not> is_pending (es_status e)" and "st_RepeatsToSet st = 0 \<or> st_RepeatsToSet st = 1"
  shows "\<exists>e'. update_error st now report e = Some e' \<and> es_Valid e' \<and> es_pendable e' = BOOL_FALSE \<and> es_status e' = life report (es_status e) \<and>
           es_errorKey e' = es_errorKey e"
proof (cases report)
  case STATUS_FAIL
  then show ?thesis using assms set_status_life[OF assms(3)] by (auto simp: update_error_def fail_error_def Let_def)
qed (use assms in \<open>auto simp: update_error_def\<close>)

lemma update_errors_life:
  "es_Valid e \<Longrightarrow> es_pendable e = BOOL_FALSE \<Longrightarrow> \<not> is_pending (es_status e) \<Longrightarrow> st_RepeatsToSet st = 0 \<or> st_RepeatsToSet st = 1 \<Longrightarrow>
   es_status (update_errors st rs e) = fold life (map fst rs) (es_status e)"
proof (induction rs arbitrary: e)
  case (Cons r rs)
  obtain report now where r: "r = (report, now)" by (cases r)
  from update_error_life[OF Cons.prems, of now report] obtain e' where e': "update_error st now report e = Some e'" "es_Valid e'" "es_pendable e' = BOOL_FALSE"
    "es_status e' = life report (es_status e)" by blast
  from Cons.IH[OF e'(2,3) _ Cons.prems(4)] life_not_pending[OF Cons.prems(3), of report] e' r show ?case by simp
qed simp

text \<open>Times that follow each other closely, without wrapping.\<close>

fun close_times :: "uint64 \<Rightarrow> uint64 \<Rightarrow> uint64 list \<Rightarrow> bool" where
  "close_times delay t [] \<longleftrightarrow> True"
| "close_times delay t (now # ts) \<longleftrightarrow> now \<le> t + delay \<and> close_times delay now ts"

lemma fail_close:
  assumes "es_pendable e = BOOL_TRUE" and "now \<le> es_timeStamp e + st_DelayToSet st"
  shows "es_pendable (fail_error st now e) = BOOL_TRUE \<and> is_pending (es_status (fail_error st now e)) \<and> es_Valid (fail_error st now e) = es_Valid e"
  using assms by (auto simp: fail_error_def Let_def is_pending_def not_less)

lemma frequent_fails:
  "es_Valid e \<Longrightarrow> es_pendable e = BOOL_TRUE \<Longrightarrow> close_times (st_DelayToSet st) (es_timeStamp e) ts \<Longrightarrow> ts \<noteq> [] \<or> is_pending (es_status e) \<Longrightarrow>
   is_pending (es_status (update_errors st (map (Pair STATUS_FAIL) ts) e))"
proof (induction ts arbitrary: e)
  case (Cons now ts)
  let ?e = "(fail_error st now e)\<lparr>es_timeStamp := now\<rparr>"
  have f: "es_pendable ?e = BOOL_TRUE" "is_pending (es_status ?e)" "es_Valid ?e" "es_timeStamp ?e = now"
    using fail_close[of e now st] Cons.prems by simp_all
  have "update_error st now STATUS_FAIL e = Some ?e" using Cons.prems(1) by (simp add: update_error_def)
  with Cons.IH[of ?e] f Cons.prems(3) show ?case by simp
qed simp

section \<open>Counts\<close>

definition counts_ok :: "errors_manager \<Rightarrow> bool" where
  "counts_ok s \<longleftrightarrow>
     (\<forall>g \<in> set (em_groups s). 0 \<le> eg_numOfExistingErrors g \<and> eg_numOfExistingErrors g \<le> INT_MAX) \<and>
     (\<forall>key. \<forall>g \<in> set (em_groups_of s key). g < length (em_groups s))"

lemma update_group_range:
  "update_group_error store e g = Inr g' \<Longrightarrow> 0 \<le> eg_numOfExistingErrors g \<and> eg_numOfExistingErrors g \<le> INT_MAX \<Longrightarrow>
   0 \<le> eg_numOfExistingErrors g' \<and> eg_numOfExistingErrors g' \<le> INT_MAX"
  by (auto simp: update_group_error_def group_copy_def Let_def split: if_splits)

lemma update_groups_ok:
  "update_groups e gs s = Inr s' \<Longrightarrow> counts_ok s \<Longrightarrow> \<forall>g \<in> set gs. g < length (em_groups s) \<Longrightarrow>
   counts_ok s' \<and> em_errors s' = em_errors s \<and> em_queue s' = em_queue s"
proof (induction e gs s rule: update_groups.induct)
  case (2 e g gs s)
  from "2.prems"(1) obtain g' where g': "update_group_error (em_store s) e (em_groups s ! g) = Inr g'"
    "update_groups e gs (s\<lparr>em_groups := (em_groups s)[g := g']\<rparr>) = Inr s'" by (cases "update_group_error (em_store s) e (em_groups s ! g)") auto
  have "0 \<le> eg_numOfExistingErrors g' \<and> eg_numOfExistingErrors g' \<le> INT_MAX"
    using update_group_range[OF g'(1)] "2.prems"(2,3) by (auto simp: counts_ok_def)
  then have "counts_ok (s\<lparr>em_groups := (em_groups s)[g := g']\<rparr>)" using "2.prems"(2) by (auto simp: counts_ok_def dest!: set_update_subset_insert[THEN subsetD])
  with "2.IH"[OF g'(2)] "2.prems"(3) show ?case by simp
qed simp

lemma perform_counts: "errors_perform s = Inr s' \<Longrightarrow> counts_ok s \<Longrightarrow> counts_ok s'"
proof (cases "em_queue s")
  case (Cons c q)
  assume p: "errors_perform s = Inr s'" "counts_ok s"
  show ?thesis
  proof (cases c)
    case (Report key report now)
    with p Cons show ?thesis by (auto simp: errors_perform_def counts_ok_def split: option.splits)
  next
    case (Changed key e)
    then have "update_groups e (em_groups_of s key) (s\<lparr>em_queue := q\<rparr>) = Inr s'" using p(1) Cons by (simp add: errors_perform_def)
    from update_groups_ok[OF this] p(2) show ?thesis by (auto simp: counts_ok_def)
  qed
qed (auto simp: errors_perform_def)

section \<open>Properties\<close>

text \<open>C21. An error that is set at once lives as it is meant to. Without a delay, and with every failure setting it, the status after any reports is that of the
  life of an error.\<close>

theorem error_life:
  assumes "st_DelayToSet st = 0" and "st_RepeatsToSet st = 0 \<or> st_RepeatsToSet st = 1"
  shows "es_status (update_errors st reports (error_create key st start)) = fold life (map fst reports) NOT_EXIST"
  using update_errors_life[of "error_create key st start" st reports] assms by (simp add: error_create_def is_pending_def)

theorem error_life_witness:
  "es_status (update_errors \<lparr>st_Description = [], st_DelayToSet = 0, st_RepeatsToSet = 0\<rparr> [(STATUS_FAIL, 5), (STATUS_OK, 6), (STATUS_FAIL, 7)]
     (error_create 1 \<lparr>st_Description = [], st_DelayToSet = 0, st_RepeatsToSet = 0\<rparr> 0)) = REPEATED"
  by (subst error_life) simp_all

text \<open>Failures that come often are never set. The delay counts from the last report, not from the first: an error that is reported again before its
  delay is over stays pending, however long it fails.\<close>

theorem frequent_failures_never_set:
  assumes "0 < st_DelayToSet st" and "ts \<noteq> []" and "close_times (st_DelayToSet st) start ts"
  shows "is_pending (es_status (update_errors st (map (Pair STATUS_FAIL) ts) (error_create key st start)))"
  using frequent_fails[of "error_create key st start" st ts] assms by (simp add: error_create_def)

theorem frequent_failures_never_set_witness:
  "is_pending (es_status (update_errors \<lparr>st_Description = [], st_DelayToSet = 10, st_RepeatsToSet = 1\<rparr> (map (Pair STATUS_FAIL) [8, 16, 24, 32])
     (error_create 1 \<lparr>st_Description = [], st_DelayToSet = 10, st_RepeatsToSet = 1\<rparr> 0)))"
  by (rule frequent_failures_never_set) simp_all

text \<open>A new error is taken for a repeated one. When an error that never existed is reported twice while it is pending, and then once more after the
  delay, it becomes \<^verbatim>\<open>REPEATED\<close>.\<close>

theorem new_error_is_repeated:
  assumes "0 < st_DelayToSet st" and "st_RepeatsToSet st = 1" and "t1 \<le> start + st_DelayToSet st" and "t2 \<le> t1 + st_DelayToSet st"
    and "t2 + st_DelayToSet st < t3"
  shows "map (\<lambda>n. es_status (update_errors st (take n [(STATUS_FAIL, t1), (STATUS_FAIL, t2), (STATUS_FAIL, t3)]) (error_create key st start))) [0, 1, 2, 3] =
           [NOT_EXIST, PEND_TO_EXIST, PEND_TO_REPEAT, REPEATED]"
  using assms by (simp add: error_create_def update_error_def fail_error_def Let_def set_status_def not_less[symmetric] numeral_2_eq_2 numeral_3_eq_3)

theorem new_error_is_repeated_witness:
  "map (\<lambda>n. es_status (update_errors \<lparr>st_Description = [], st_DelayToSet = 10, st_RepeatsToSet = 1\<rparr>
       (take n [(STATUS_FAIL, 3), (STATUS_FAIL, 6), (STATUS_FAIL, 20)]) (error_create 1 \<lparr>st_Description = [], st_DelayToSet = 10, st_RepeatsToSet = 1\<rparr> 0))) [0, 1, 2, 3] =
     [NOT_EXIST, PEND_TO_EXIST, PEND_TO_REPEAT, REPEATED]"
  by (rule new_error_is_repeated) simp_all

text \<open>Groups count reports, not errors. An error that exists and fails again is counted once more, although its status does not change, and one
  that has vanished is taken away again by every report that it is all right.\<close>

theorem group_counts_reports:
  assumes "em_queue s = []" and "em_groups_of s key = [g]" and "g < length (em_groups s)" and "\<not> eg_complex (em_groups s ! g)"
    and "es_Valid (em_errors s key)" and "es_pendable (em_errors s key) = BOOL_FALSE" and "st_RepeatsToSet (em_store s key) = 0"
    and "report = STATUS_FAIL \<and> es_status (em_errors s key) = EXIST \<and> eg_numOfExistingErrors (em_groups s ! g) < INT_MAX \<and> d = 1 \<or>
         report = STATUS_OK \<and> es_status (em_errors s key) = VANISHED \<and> 0 < eg_numOfExistingErrors (em_groups s ! g) \<and> d = - 1"
  shows "\<exists>s'. res_bind (errors_perform (report_error key report now s)) errors_perform = Inr s' \<and>
           es_status (em_errors s' key) = es_status (em_errors s key) \<and>
           eg_numOfExistingErrors (em_groups s' ! g) = eg_numOfExistingErrors (em_groups s ! g) + d"
proof -
  have "\<not> is_pending (es_status (em_errors s key))" "st_RepeatsToSet (em_store s key) = 0 \<or> st_RepeatsToSet (em_store s key) = 1"
    using assms(7,8) by (auto simp: is_pending_def)
  from update_error_life[OF assms(5,6) this, of now report] obtain e where
    e: "update_error (em_store s key) now report (em_errors s key) = Some e" "es_status e = life report (es_status (em_errors s key))" by blast
  have st: "es_status e = es_status (em_errors s key)" using e(2) assms(8) by auto
  show ?thesis using assms(1-4,8) e(1) st by (auto simp: report_error_def errors_perform_def update_group_error_def group_copy_def)
qed

theorem group_counts_reports_witness:
  "\<exists>s'. res_bind (errors_perform (report_error 1 STATUS_FAIL 7
       \<lparr>em_store = (\<lambda>_. \<lparr>st_Description = [], st_DelayToSet = 0, st_RepeatsToSet = 0\<rparr>),
        em_errors = (\<lambda>_. \<lparr>es_status = EXIST, es_timeStamp = 5, es_pendable = BOOL_FALSE, es_errorKey = 1, es_currentCount = 1, es_Valid = True\<rparr>),
        em_groups = [\<lparr>eg_complex = False, eg_numOfExistingErrors = 1, eg_lastError = []\<rparr>], em_groups_of = (\<lambda>_. [0]), em_queue = []\<rparr>)) errors_perform = Inr s' \<and>
     es_status (em_errors s' 1) = EXIST \<and> eg_numOfExistingErrors (em_groups s' ! 0) = 2"
  using group_counts_reports[of "\<lparr>em_store = (\<lambda>_. \<lparr>st_Description = [], st_DelayToSet = 0, st_RepeatsToSet = 0\<rparr>),
        em_errors = (\<lambda>_. \<lparr>es_status = EXIST, es_timeStamp = 5, es_pendable = BOOL_FALSE, es_errorKey = 1, es_currentCount = 1, es_Valid = True\<rparr>),
        em_groups = [\<lparr>eg_complex = False, eg_numOfExistingErrors = 1, eg_lastError = []\<rparr>], em_groups_of = (\<lambda>_. [0]), em_queue = []\<rparr>" 1 0 STATUS_FAIL 1 7]
  by (auto simp: INT_MAX_def)

end
