(* ===== verification/Application.thy ===== *)
theory Application
  imports Ini_File
begin

text \<open>
  The command line of an application (\<^verbatim>\<open>Modules/core/ezframework/application.cpp\<close>, \<^verbatim>\<open>ezframework.cpp\<close>): splitting of the line that
  the user types, the map of commands, the commands of the framework itself, the list of loggers, and the loop that reads lines
  until the application exits.

  A callback of the application is a number; a call of it is recorded with the command, the count and the array it gets.
  \<^verbatim>\<open>color_print\<close> formats into a buffer of 1024 characters; what it prints is recorded. Text that the code passes as the format
  itself is scanned for conversions, each of which reads an argument that is not there. The options that Boost reads from
  the command line of the process, and the text of a version, are parameters.
\<close>

unbundle bit_operations_syntax

section \<open>Splitting a line\<close>

definition quote_char :: char where
  "quote_char = CHR 0x22"

text \<open>\<^verbatim>\<open>str[prev]\<close> behind the text is the NUL character.\<close>

partial_function (option) quote_loop :: "string \<Rightarrow> string \<Rightarrow> nat \<Rightarrow> string list \<Rightarrow> string list option" where
  "quote_loop str delim prev tokens =
     (let quoted = (prev < length str \<and> str ! prev = quote_char)
      in case (if quoted then str_find str [quote_char] (prev + 1)
               else Some (case str_find str delim prev of None \<Rightarrow> length str | Some p \<Rightarrow> p)) of
           None \<Rightarrow> Some tokens
         | Some pos \<Rightarrow>
             let start = (if quoted then prev + 1 else prev);
                 tokens' = tokens @ [take (pos - start) (drop start str)];
                 prev' = pos + length delim + (if quoted then 1 else 0)
             in if pos < length str \<and> prev' < length str then quote_loop str delim prev' tokens' else Some tokens')"

definition split_string_with_quote :: "string \<Rightarrow> string \<Rightarrow> string list option" where
  "split_string_with_quote str delim = quote_loop str delim 0 []"

section \<open>The console\<close>

fun color_code :: "colors \<Rightarrow> 8 word" where
  "color_code UNDEFINED_COLOR = 0"
| "color_code RED = 1"
| "color_code GREEN = 2"
| "color_code YELLOW = 4"
| "color_code BLUE = 8"
| "color_code MAGENTA = 16"
| "color_code CYAN = 32"
| "color_code WHITE = 64"

record console =
  has_color_filter :: bool
  filtered_color :: "8 word"

definition color_filter :: "8 word \<Rightarrow> bool \<Rightarrow> console \<Rightarrow> console" where
  "color_filter color enabled c =
     (let base = (if has_color_filter c \<noteq> enabled then 0 else filtered_color c)
      in \<lparr>has_color_filter = enabled, filtered_color = (if color \<noteq> 0 then base OR color else color)\<rparr>)"

text \<open>Whether the console prints text of a colour.\<close>

definition color_shown :: "bool \<Rightarrow> colors \<Rightarrow> console \<Rightarrow> bool" where
  "color_shown force color c \<longleftrightarrow>
     force \<or>
     (if \<not> has_color_filter c then \<not> (filtered_color c = 0 \<or> filtered_color c AND color_code color \<noteq> 0)
      else filtered_color c = 0 \<or> filtered_color c AND color_code color \<noteq> 0)"

definition BUFFER_SIZE :: nat where
  "BUFFER_SIZE = 1024"

fun format_text :: "string \<Rightarrow> string result" where
  "format_text [] = Inr []"
| "format_text (c # cs) =
     (if c = CHR ''%''
      then (case cs of [] \<Rightarrow> Inl Undefined | d # ds \<Rightarrow> if d = CHR ''%'' then res_map ((#) c) (format_text ds) else Inl Undefined)
      else res_map ((#) c) (format_text cs))"

section \<open>State\<close>

record logger =
  lg_name :: string
  lg_filter :: severity
  lg_enabled :: bool

datatype cli_callback = Help | Exit_cmd | Print_cmd | Ezversion | Log_cmd | User nat

record cli_cmd =
  cmd_cmd :: string
  cmd_description :: string
  cmd_callback :: cli_callback

record main_app =
  ma_callbacks :: "(string \<times> cli_cmd) list"
  ma_info_vector :: "string list"
  ma_loggers :: "logger list"
  ma_log_level :: severity
  ma_verbose :: bool
  ma_cli_enabled :: bool
  ma_is_running :: bool
  ma_error_code :: bool
  ma_app_name :: string
  ma_console :: console
  ma_output :: "string list"
  ma_calls :: "(nat \<times> string \<times> nat \<times> string list) list"

definition newline :: string where
  "newline = [CHR 0x0A]"

definition print_text :: "string \<Rightarrow> main_app \<Rightarrow> main_app" where
  "print_text txt s = s\<lparr>ma_output := ma_output s @ [take (BUFFER_SIZE - 1) txt]\<rparr>"

definition print_format :: "string \<Rightarrow> main_app \<Rightarrow> main_app result" where
  "print_format fmt s = res_map (\<lambda>txt. print_text txt s) (format_text fmt)"

definition parse_boolean :: "string option \<Rightarrow> bool option" where
  "parse_boolean str =
     (case str of
        None \<Rightarrow> None
      | Some s \<Rightarrow> if s = ''off'' \<or> s = ''false'' then Some False else if s = ''on'' \<or> s = ''true'' then Some True else None)"

section \<open>Commands and loggers\<close>

definition add_cli_cmd :: "string option \<Rightarrow> string \<Rightarrow> cli_callback option \<Rightarrow> main_app \<Rightarrow> bool \<times> main_app" where
  "add_cli_cmd cmd description callback s =
     (case (cmd, callback) of
        (Some c, Some f) \<Rightarrow>
          (True, s\<lparr>ma_callbacks := al_remove c (ma_callbacks s) @ [(c, \<lparr>cmd_cmd = c, cmd_description = description, cmd_callback = f\<rparr>)]\<rparr>)
      | _ \<Rightarrow> (False, s))"

definition delete_cmd :: "string \<Rightarrow> main_app \<Rightarrow> bool \<times> main_app" where
  "delete_cmd cmd s =
     (if cmd = [] \<or> map_of (ma_callbacks s) cmd = None then (False, s)
      else (True, s\<lparr>ma_callbacks := al_remove cmd (ma_callbacks s)\<rparr>))"

definition add_custom_info :: "string option \<Rightarrow> main_app \<Rightarrow> bool \<times> main_app" where
  "add_custom_info info s =
     (case info of None \<Rightarrow> (False, s) | Some i \<Rightarrow> (True, s\<lparr>ma_info_vector := ma_info_vector s @ [i]\<rparr>))"

definition get_custom_info_by_index :: "nat \<Rightarrow> main_app \<Rightarrow> string option" where
  "get_custom_info_by_index index s = (if length (ma_info_vector s) \<le> index then None else Some (ma_info_vector s ! index))"

definition add_logger :: "logger option \<Rightarrow> main_app \<Rightarrow> bool \<times> main_app" where
  "add_logger logger s =
     (case logger of
        None \<Rightarrow> (False, s)
      | Some l \<Rightarrow>
          let warnings = replicate (length (filter (\<lambda>m. lg_name m = lg_name l) (ma_loggers s)))
                ((''duplicate log name created: '' @ lg_name l) @ newline)
          in (True, s\<lparr>ma_loggers := ma_loggers s @ [l],
                      ma_output := (if ma_verbose s then ma_output s @ warnings else ma_output s)\<rparr>))"

fun find_logger :: "string \<Rightarrow> nat \<Rightarrow> logger list \<Rightarrow> nat option" where
  "find_logger name i [] = None"
| "find_logger name i (l # ls) = (if lg_name l = name then Some i else find_logger name (i + 1) ls)"

definition remove_logger :: "string \<Rightarrow> main_app \<Rightarrow> bool \<times> main_app" where
  "remove_logger name s =
     (case find_logger name 0 (ma_loggers s) of
        None \<Rightarrow> (False, s)
      | Some i \<Rightarrow> (True, s\<lparr>ma_loggers := take i (ma_loggers s) @ drop (i + 1) (ma_loggers s)\<rparr>))"

definition query_logger :: "string \<Rightarrow> main_app \<Rightarrow> nat option" where
  "query_logger name s = find_logger name 0 (ma_loggers s)"

definition query_logger_by_index :: "size_t \<Rightarrow> main_app \<Rightarrow> nat option result" where
  "query_logger_by_index index s =
     (if unat index > length (ma_loggers s) then Inr None
      else if unat index < length (ma_loggers s) then Inr (Some (unat index)) else Inl Undefined)"

definition loggers_count :: "main_app \<Rightarrow> size_t" where
  "loggers_count s = of_nat (length (ma_loggers s))"

definition set_logger :: "nat \<Rightarrow> (logger \<Rightarrow> logger) \<Rightarrow> main_app \<Rightarrow> main_app" where
  "set_logger i f s = s\<lparr>ma_loggers := (ma_loggers s)[i := f (ma_loggers s ! i)]\<rparr>"

text \<open>The loops over all loggers by index.\<close>

definition set_logs_enabled :: "bool \<Rightarrow> main_app \<Rightarrow> main_app" where
  "set_logs_enabled enable s = fold (\<lambda>i. set_logger i (lg_enabled_update (\<lambda>_. enable))) [0..<length (ma_loggers s)] s"

definition set_logs_filter :: "severity \<Rightarrow> main_app \<Rightarrow> main_app" where
  "set_logs_filter sev s = fold (\<lambda>i. set_logger i (lg_filter_update (\<lambda>_. sev))) [0..<length (ma_loggers s)] s"

definition bool_digit :: "bool \<Rightarrow> string" where
  "bool_digit b = (if b then ''1'' else ''0'')"

text \<open>
  The loop over the loggers prints each of them with its index, a \<^verbatim>\<open>size_t\<close> that is passed for the conversion \<^verbatim>\<open>%d\<close> of an \<^verbatim>\<open>int\<close>: this is
  undefined behaviour in the first turn of the loop.
\<close>

definition print_log_list :: "main_app \<Rightarrow> main_app result" where
  "print_log_list s = (if length (ma_loggers s) = 0 then Inr s else Inl Undefined)"

section \<open>Handlers of the commands\<close>

definition MAX_PARAMS :: nat where
  "MAX_PARAMS = 20"

text \<open>An element of the array of parameters: the array is a null pointer without parameters, and only its first elements are set.\<close>

definition param :: "string list \<Rightarrow> nat \<Rightarrow> string result" where
  "param params i = (if i < length params then Inr (params ! i) else Inl Undefined)"

function params_text :: "string list \<Rightarrow> nat \<Rightarrow> nat \<Rightarrow> string result" where
  "params_text params i n =
     (if i < n
      then res_bind (param params i) (\<lambda>p.
             res_map (\<lambda>rest. p @ (if i + 1 < n then '','' else []) @ rest) (params_text params (i + 1) n))
      else Inr [])"
  by pat_completeness auto
termination
  by (relation "measure (\<lambda>(params, i, n). n - i)") auto

declare params_text.simps [simp del]

definition report_unsupported :: "string \<Rightarrow> nat \<Rightarrow> string list \<Rightarrow> main_app \<Rightarrow> main_app result" where
  "report_unsupported cmd n params s =
     (if n = 0 then print_format (''Command: '' @ [CHR 0x27] @ cmd @ [CHR 0x27] @ '' unknown'' @ newline) s
      else res_bind (params_text params 0 n) (\<lambda>ps.
             print_format (''Command: '' @ [CHR 0x27] @ cmd @ [CHR 0x27] @ '' unknown with params: '' @ ps @ newline) s))"

definition report_invalid_arguments :: "string \<Rightarrow> nat \<Rightarrow> string list \<Rightarrow> main_app \<Rightarrow> main_app result" where
  "report_invalid_arguments cmd n params s =
     res_bind (if n = 0 then Inr (''Command: '' @ [CHR 0x27] @ cmd @ [CHR 0x27])
               else res_map (\<lambda>ps. ''Command: '' @ cmd @ [CHR 0x27] @ '' with params: '' @ ps) (params_text params 0 n))
       (\<lambda>txt. print_format (txt @ '' has invalid/missing arguments'' @ newline) s)"

definition help_handler :: "main_app \<Rightarrow> main_app" where
  "help_handler s = fold (\<lambda>(_, c). print_text (cmd_cmd c @ '': '' @ cmd_description c @ newline @ newline)) (ma_callbacks s) s"

definition app_exit :: "int \<Rightarrow> main_app \<Rightarrow> main_app" where
  "app_exit error_code s = s\<lparr>ma_error_code := (error_code \<noteq> 0), ma_is_running := False\<rparr>"

fun parse_colors :: "string list \<Rightarrow> 8 word \<Rightarrow> 8 word option" where
  "parse_colors [] result_color = Some result_color"
| "parse_colors (str # strs) result_color =
     (case parse_color str of None \<Rightarrow> None | Some color \<Rightarrow> parse_colors strs (result_color OR color_code color))"

definition set_color_filter :: "8 word \<Rightarrow> bool \<Rightarrow> main_app \<Rightarrow> main_app" where
  "set_color_filter color enabled s = s\<lparr>ma_console := color_filter color enabled (ma_console s)\<rparr>"

text \<open>\<open>None\<close> is splitting that does not return, which does not happen with this delimiter.\<close>

definition print_handler :: "string \<Rightarrow> nat \<Rightarrow> string list \<Rightarrow> main_app \<Rightarrow> main_app result" where
  "print_handler cmd n params s =
     (if n = 0 then report_invalid_arguments cmd n params s
      else res_bind (param params 0) (\<lambda>p0.
        case parse_boolean (Some p0) of
          None \<Rightarrow> report_invalid_arguments cmd n params s
        | Some enabled \<Rightarrow>
            if n = 1 then Inr (set_color_filter 0 enabled s)
            else res_bind (param params 1) (\<lambda>p1.
              case split_string p1 ''|'' of
                None \<Rightarrow> Inl Undefined
              | Some colors_list \<Rightarrow>
                  (case parse_colors colors_list 0 of
                     None \<Rightarrow> report_invalid_arguments cmd n params s
                   | Some result_color \<Rightarrow> Inr (set_color_filter result_color enabled s)))))"

definition stoi :: "string \<Rightarrow> int result" where
  "stoi str =
     (let v = signed_value str
      in if v < - (2 ^ 31) \<or> 2 ^ 31 \<le> v then Inl (Throws (Out_of_range ''stoi'')) else Inr v)"

definition undefined_log :: "string \<Rightarrow> main_app \<Rightarrow> main_app" where
  "undefined_log what s = print_text (''undefined Log '' @ what @ newline) s"

text \<open>The logger that the second parameter names, by index or by name; \<open>Inl\<close> inside is the text of the refusal.\<close>

definition log_target :: "string \<Rightarrow> main_app \<Rightarrow> (string + nat) result" where
  "log_target str s =
     (if is_numeric str
      then res_bind (stoi str) (\<lambda>v. res_map (\<lambda>l. case l of None \<Rightarrow> Inl ''index'' | Some i \<Rightarrow> Inr i) (query_logger_by_index (of_int v) s))
      else Inr (case query_logger str s of None \<Rightarrow> Inl ''name'' | Some i \<Rightarrow> Inr i))"

definition log_get :: "string \<Rightarrow> main_app \<Rightarrow> main_app" where
  "log_get name s =
     (case query_logger name s of
        None \<Rightarrow> undefined_log ''name'' s
      | Some i \<Rightarrow>
          print_text ('' Log: '' @ lg_name (ma_loggers s ! i) @ '' Filter: '' @ severity_name (lg_filter (ma_loggers s ! i)) @
                      '' Enabled:'' @ bool_digit (lg_enabled (ma_loggers s ! i)) @ '' '' @ newline) s)"

definition log_one :: "string \<Rightarrow> string list \<Rightarrow> string \<Rightarrow> main_app \<Rightarrow> main_app result" where
  "log_one cmd params p s =
     (if p = ''list'' then print_log_list s
      else if p = ''disable'' then Inr (set_logs_enabled False s)
      else if p = ''enable'' then Inr (set_logs_enabled True s)
      else report_invalid_arguments cmd 1 params s)"

definition log_two :: "string \<Rightarrow> string list \<Rightarrow> string \<Rightarrow> string \<Rightarrow> main_app \<Rightarrow> main_app result" where
  "log_two cmd params p q s =
     (if p = ''set''
      then (case parse_severity (Some q) of None \<Rightarrow> report_invalid_arguments cmd 2 params s | Some sev \<Rightarrow> Inr (set_logs_filter sev s))
      else if p = ''get'' then Inr (log_get q s) else Inr s)"

definition log_three :: "string \<Rightarrow> string list \<Rightarrow> string \<Rightarrow> string \<Rightarrow> string \<Rightarrow> main_app \<Rightarrow> main_app result" where
  "log_three cmd params p q r s =
     res_bind (log_target q s) (\<lambda>t.
       case t of
         Inl what \<Rightarrow> Inr (undefined_log what s)
       | Inr i \<Rightarrow>
           if p \<noteq> ''set'' then report_invalid_arguments cmd 3 params s
           else (case parse_severity (Some r) of
                   Some sev \<Rightarrow> Inr (set_logger i (lg_filter_update (\<lambda>_. sev)) s)
                 | None \<Rightarrow>
                     if r = ''enable'' then Inr (set_logger i (lg_enabled_update (\<lambda>_. True)) s)
                     else if r = ''disable'' then Inr (set_logger i (lg_enabled_update (\<lambda>_. False)) s)
                     else report_invalid_arguments cmd 3 params s))"

definition log_handler :: "string \<Rightarrow> nat \<Rightarrow> string list \<Rightarrow> main_app \<Rightarrow> main_app result" where
  "log_handler cmd n params s =
     res_bind (param params 0) (\<lambda>p.
       if n = 1 then log_one cmd params p s
       else if n = 2 then res_bind (param params 1) (\<lambda>q. log_two cmd params p q s)
       else if n = 3 then res_bind (param params 1) (\<lambda>q. res_bind (param params 2) (\<lambda>r. log_three cmd params p q r s))
       else report_invalid_arguments cmd n params s)"

section \<open>Reading lines\<close>

fun on_cli_input :: "string \<Rightarrow> cli_callback \<Rightarrow> string \<Rightarrow> nat \<Rightarrow> string list \<Rightarrow> main_app \<Rightarrow> main_app result" where
  "on_cli_input version Help cmd n params s = Inr (help_handler s)"
| "on_cli_input version Exit_cmd cmd n params s = Inr (app_exit 0 s)"
| "on_cli_input version Print_cmd cmd n params s = print_handler cmd n params s"
| "on_cli_input version Ezversion cmd n params s = Inr (print_text (''ezFramework Version: '' @ version @ newline) s)"
| "on_cli_input version Log_cmd cmd n params s = log_handler cmd n params s"
| "on_cli_input version (User k) cmd n params s = Inr (s\<lparr>ma_calls := ma_calls s @ [(k, cmd, n, params)]\<rparr>)"

definition log_description :: string where
  "log_description =
     ''log list - Print all logs in the system and its severity filter '' @ newline @ '' log get <log name> - print log severity filter'' @ newline @
     '' log set <sevirity filter> [<log name>| <log index>] if log name not set it will assign to all logs- set new severity filter'' @ newline @
     '' - set the same severity filter to all logs ''"

definition add_cli_cmds :: "main_app \<Rightarrow> main_app" where
  "add_cli_cmds s =
     fold (\<lambda>(cmd, description, f) s. snd (add_cli_cmd (Some cmd) description (Some f) s))
       [(''help'', ''shows this help'', Help), (''exit'', ''exit the application'', Exit_cmd),
        (''print'', ''<off|on> <color> stop/resume colored console print display/hide the colors separated by |'', Print_cmd),
        (''ezversion'', ''print infrastructure version'', Ezversion), (''log'', log_description, Log_cmd)] s"

fun what_text :: "cpp_exception \<Rightarrow> string" where
  "what_text (Logic_error w) = w"
| "what_text (Runtime_error w) = w"
| "what_text (Invalid_argument w) = w"
| "what_text (Out_of_range w) = w"

text \<open>One line. \<open>None\<close> is a split that does not return.\<close>

definition cli_line :: "string \<Rightarrow> string \<Rightarrow> main_app \<Rightarrow> main_app result option" where
  "cli_line version input s =
     (if input = [] then Some (Inr s)
      else case split_string_with_quote input '' '' of
             None \<Rightarrow> None
           | Some [] \<Rightarrow> Some (Inr s)
           | Some (cmd # params_list) \<Rightarrow>
               Some (case map_of (ma_callbacks s) cmd of
                       None \<Rightarrow> if cmd \<noteq> [] then report_unsupported cmd 0 [] s else Inr s
                     | Some c \<Rightarrow> on_cli_input version (cmd_callback c) cmd (length params_list) (take MAX_PARAMS params_list) s))"

text \<open>The loop over the lines that the user types. At the end of the input \<^verbatim>\<open>getline\<close> returns empty lines for ever, which is \<open>None\<close>.\<close>

fun cli_loop :: "string \<Rightarrow> string list \<Rightarrow> main_app \<Rightarrow> (int \<times> main_app) result option" where
  "cli_loop version lines s =
     (if \<not> ma_is_running s then Some (Inr (if ma_error_code s then 1 else 0, s))
      else case lines of
             [] \<Rightarrow> None
           | input # rest \<Rightarrow>
               let s1 = print_text (ma_app_name s @ ''>'') s
               in (case cli_line version input s1 of
                  None \<Rightarrow> None
                | Some (Inl Undefined) \<Rightarrow> Some (Inl Undefined)
                | Some (Inl (Throws e)) \<Rightarrow> Some (Inr (- 1, print_text (''cli exception: '' @ what_text e) s1))
                | Some (Inr s') \<Rightarrow> cli_loop version rest s'))"

declare cli_loop.simps [simp del]

text \<open>Without the command line the thread only waits for \<^verbatim>\<open>exit\<close>, which another thread calls with the code \<open>request\<close>, or never.\<close>

definition run_no_cli :: "int option \<Rightarrow> main_app \<Rightarrow> (int \<times> main_app) result option" where
  "run_no_cli request s =
     (let s1 = (if \<not> ma_verbose s then set_color_filter 0 False s else s)
      in case request of
           None \<Rightarrow> None
         | Some code \<Rightarrow> let s2 = app_exit code (s1\<lparr>ma_is_running := True\<rparr>) in Some (Inr (if ma_error_code s2 then 1 else 0, s2)))"

definition main_loop :: "string \<Rightarrow> string list \<Rightarrow> int option \<Rightarrow> main_app \<Rightarrow> (int \<times> main_app) result option" where
  "main_loop version lines request s =
     (let s1 = s\<lparr>ma_is_running := True\<rparr>
      in if \<not> ma_cli_enabled s then run_no_cli request s1 else cli_loop version lines s1)"

section \<open>Paths and options\<close>

definition conflicting_options :: "(string \<Rightarrow> bool option) \<Rightarrow> string \<Rightarrow> string \<Rightarrow> unit result" where
  "conflicting_options vm opt1 opt2 =
     (if vm opt1 = Some False \<and> vm opt2 = Some False
      then Inl (Throws (Logic_error (''Conflicting options '' @ [CHR 0x27] @ opt1 @ [CHR 0x27] @ '' and '' @ [CHR 0x27] @ opt2 @ [CHR 0x27] @ ''.'')))
      else Inr ())"

definition option_dependency :: "(string \<Rightarrow> bool option) \<Rightarrow> string \<Rightarrow> string \<Rightarrow> unit result" where
  "option_dependency vm for_what required_option =
     (if vm for_what = Some False \<and> vm required_option \<noteq> Some False
      then Inl (Throws (Logic_error (''Option '' @ [CHR 0x27] @ for_what @ [CHR 0x27] @ '' requires option '' @ [CHR 0x27] @ required_option @ [CHR 0x27] @ ''.'')))
      else Inr ())"

definition finalize_path :: "string \<Rightarrow> string result" where
  "finalize_path path =
     (if path = [] then Inl Undefined
      else Inr (if last path \<noteq> CHR ''/'' \<and> last path \<noteq> CHR 0x5C then path @ ''/'' else path))"

text \<open>The paths behind the options; \<open>expand\<close> is the expansion of environment variables. \<open>rfind\<close> looks for the suffix of a file anywhere.\<close>

definition database_path :: "(string \<Rightarrow> string) \<Rightarrow> string \<Rightarrow> string \<Rightarrow> string result" where
  "database_path expand app_path option =
     (if option = [] then Inr (app_path @ ''/DE/'')
      else let path = expand option in if str_find path ''.xml'' 0 = None then finalize_path path else Inr path)"

definition user_path :: "(string \<Rightarrow> string) \<Rightarrow> string \<Rightarrow> string result" where
  "user_path expand option =
     (if option = [] then Inr (expand (''~/.config/ElbitSystemsLtd/'' @ ''/Configuration/'')) else finalize_path (expand option))"

definition factory_path :: "(string \<Rightarrow> string) \<Rightarrow> string \<Rightarrow> string \<Rightarrow> string result" where
  "factory_path expand app_path option =
     (if option = [] then Inr (app_path @ ''/Configuration/'') else finalize_path (expand option))"


section \<open>Splitting and spelling\<close>

lemma matches_char: "matches_at str [c] j \<longleftrightarrow> j < length str \<and> str ! j = c"
  by (auto simp: matches_at_def take_Suc_conv_app_nth hd_drop_conv_nth)

lemma str_find_eq:
  assumes "matches_at str pat p" and "i \<le> p" and "\<And>j. i \<le> j \<Longrightarrow> j < p \<Longrightarrow> \<not> matches_at str pat j"
  shows "str_find str pat i = Some p"
proof (cases "str_find str pat i")
  case None
  from str_find_NoneD[OF None assms(2)] assms(1) show ?thesis by simp
next
  case (Some q)
  from str_find_SomeD[OF Some] assms have "\<not> q < p" "\<not> p < q" by auto
  with Some show ?thesis by simp
qed

lemma str_find_char:
  assumes "c \<notin> set w"
  shows "str_find (pre @ w @ c # rest) [c] (length pre) = Some (length pre + length w)"
  using assms by (intro str_find_eq) (auto simp: matches_char nth_append)

lemma str_find_no_delim:
  assumes "c \<notin> set w"
  shows "str_find (pre @ w) [c] (length pre) = None"
proof (cases "str_find (pre @ w) [c] (length pre)")
  case (Some q)
  from str_find_SomeD[OF Some] assms show ?thesis by (auto simp: matches_char nth_append)
qed simp

text \<open>How a word is typed: in quotes when it has none inside, or as it is when it has no blank and does not begin with a quote.\<close>

definition word_text :: "bool \<times> string \<Rightarrow> string" where
  "word_text w = (if fst w then quote_char # snd w @ [quote_char] else snd w)"

definition word_ok :: "bool \<times> string \<Rightarrow> bool" where
  "word_ok w \<longleftrightarrow> (if fst w then quote_char \<notin> set (snd w) else snd w \<noteq> [] \<and> CHR '' '' \<notin> set (snd w) \<and> hd (snd w) \<noteq> quote_char)"

definition line_text :: "(bool \<times> string) list \<Rightarrow> string" where
  "line_text ws = join '' '' (map word_text ws)"

lemma quote_loop_quoted:
  assumes "quote_char \<notin> set w" and "str = pre @ quote_char # w @ quote_char # rest"
  shows "quote_loop str '' '' (length pre) acc =
           (if length rest \<le> 1 then Some (acc @ [w]) else quote_loop str '' '' (Suc (Suc (Suc (length pre + length w)))) (acc @ [w]))"
proof -
  have f: "str_find str [quote_char] (length pre + 1) = Some (length pre + length w + 1)"
    using str_find_char[OF assms(1), of "pre @ [quote_char]" rest] assms(2) by simp
  have q: "length pre < length str \<and> str ! length pre = quote_char" "take (length w) (drop (length pre + 1) str) = w"
    "length str = length pre + length w + 2 + length rest" using assms(2) by (simp_all add: nth_append)
  show ?thesis using f q by (subst quote_loop.simps) (auto simp: Let_def)
qed

lemma quote_loop_plain:
  assumes "w \<noteq> []" and "CHR '' '' \<notin> set w" and "hd w \<noteq> quote_char" and "str = pre @ w @ rest" and "rest = [] \<or> hd rest = CHR '' ''"
  shows "quote_loop str '' '' (length pre) acc =
           (if length rest \<le> 1 then Some (acc @ [w]) else quote_loop str '' '' (length pre + length w + 1) (acc @ [w]))"
proof -
  have f: "(case str_find str '' '' (length pre) of None \<Rightarrow> length str | Some p \<Rightarrow> p) = length pre + length w"
    using str_find_char[OF assms(2), of pre "tl rest"] str_find_no_delim[OF assms(2), of pre] assms(4,5) by (cases rest) auto
  have q: "str ! length pre \<noteq> quote_char" "take (length w) (drop (length pre) str) = w" "length str = length pre + length w + length rest"
    using assms(1,3,4) by (simp_all add: nth_append hd_conv_nth)
  show ?thesis using f q by (subst quote_loop.simps) (auto simp: Let_def)
qed

lemma quote_loop_word:
  assumes "word_ok w" and "str = pre @ word_text w @ rest" and "rest = [] \<or> hd rest = CHR '' ''"
  shows "quote_loop str '' '' (length pre) acc =
           (if length rest \<le> 1 then Some (acc @ [snd w]) else quote_loop str '' '' (length (pre @ word_text w @ '' '')) (acc @ [snd w]))"
proof (cases "fst w")
  case True
  then have "quote_char \<notin> set (snd w)" "str = pre @ quote_char # snd w @ quote_char # rest" using assms(1,2) by (simp_all add: word_ok_def word_text_def)
  from quote_loop_quoted[OF this, of acc] True show ?thesis by (simp add: word_text_def)
next
  case False
  then have "snd w \<noteq> []" "CHR '' '' \<notin> set (snd w)" "hd (snd w) \<noteq> quote_char" "str = pre @ snd w @ rest"
    using assms(1,2) by (simp_all add: word_ok_def word_text_def)
  from quote_loop_plain[OF this assms(3), of acc] False show ?thesis by (simp add: word_text_def)
qed

lemma word_text_ne: "word_ok w \<Longrightarrow> word_text w \<noteq> []"
  by (auto simp: word_ok_def word_text_def)

lemma quote_loop_words:
  "ws \<noteq> [] \<Longrightarrow> \<forall>w \<in> set ws. word_ok w \<Longrightarrow> quote_loop (pre @ line_text ws) '' '' (length pre) acc = Some (acc @ map snd ws)"
proof (induction ws arbitrary: pre acc)
  case (Cons w ws)
  show ?case
  proof (cases ws)
    case Nil
    then show ?thesis using quote_loop_word[of w "pre @ word_text w" pre "[]" acc] Cons.prems by (simp add: line_text_def)
  next
    case (Cons w' ws')
    have l: "line_text (w # ws) = word_text w @ '' '' @ line_text ws" "line_text ws \<noteq> []"
      using Cons word_text_ne[of w'] Cons.prems by (cases ws'; simp add: line_text_def)+
    have "quote_loop (pre @ line_text (w # ws)) '' '' (length pre) acc =
        quote_loop ((pre @ word_text w @ '' '') @ line_text ws) '' '' (length (pre @ word_text w @ '' '')) (acc @ [snd w])"
      using quote_loop_word[of w "pre @ line_text (w # ws)" pre "'' '' @ line_text ws" acc] Cons.prems l by (simp add: Suc_le_eq)
    with Cons.IH[of "pre @ word_text w @ '' ''" "acc @ [snd w]"] Cons Cons.prems show ?thesis by simp
  qed
qed simp

lemma split_words: "ws \<noteq> [] \<Longrightarrow> \<forall>w \<in> set ws. word_ok w \<Longrightarrow> split_string_with_quote (line_text ws) '' '' = Some (map snd ws)"
  using quote_loop_words[of ws "[]" "[]"] by (simp add: split_string_with_quote_def)

lemma line_text_ne: "ws \<noteq> [] \<Longrightarrow> \<forall>w \<in> set ws. word_ok w \<Longrightarrow> line_text ws \<noteq> []"
  using word_text_ne by (cases ws rule: remdups_adj.cases) (auto simp: line_text_def)


section \<open>Safety of lines\<close>

lemma format_text_plain: "CHR ''%'' \<notin> set str \<Longrightarrow> format_text str = Inr str"
  by (induction str) auto

lemma format_text_percent: "format_text (pre @ [CHR ''%'', c] @ rest) = Inl Undefined" if "CHR ''%'' \<notin> set pre" and "c \<noteq> CHR ''%''"
  using that by (induction pre) auto

lemma params_text_chars:
  "i \<le> n \<Longrightarrow> n \<le> length params \<Longrightarrow> \<exists>txt. params_text params i n = Inr txt \<and> set txt \<subseteq> insert (CHR '','') (\<Union>(set ` set params))"
proof (induction "n - i" arbitrary: i)
  case 0
  then show ?case by (subst params_text.simps) simp
next
  case (Suc k)
  then have i: "i < n" "i < length params" by simp_all
  have "k = n - (i + 1)" "i + 1 \<le> n" using Suc.hyps(2) i by simp_all
  from Suc.hyps(1)[OF this Suc.prems(2)] obtain out where
    t: "params_text params (i + 1) n = Inr out" "set out \<subseteq> insert (CHR '','') (\<Union>(set ` set params))" by (elim exE conjE) (rule that)
  have "set (params ! i) \<subseteq> \<Union>(set ` set params)" using nth_mem[OF i(2)] by blast
  then have "set (params ! i @ (if i + 1 < n then '','' else []) @ out) \<subseteq> insert (CHR '','') (\<Union>(set ` set params))" using t(2) by auto
  moreover have "params_text params i n = Inr (params ! i @ (if i + 1 < n then '','' else []) @ out)"
    using i t(1) by (subst params_text.simps) (simp add: param_def)
  ultimately show ?case by blast
qed

definition plain :: "string \<Rightarrow> bool" where
  "plain txt \<longleftrightarrow> CHR ''%'' \<notin> set txt"

lemma plain_params: "\<forall>p \<in> set params. plain p \<Longrightarrow> n \<le> length params \<Longrightarrow> \<exists>txt. params_text params 0 n = Inr txt \<and> plain txt"
  using params_text_chars[of 0 n params] by (fastforce simp: plain_def)

lemma print_format_plain: "plain txt \<Longrightarrow> \<exists>s'. print_format txt s = Inr s'"
  by (simp add: print_format_def format_text_plain plain_def)

lemma report_invalid_ok:
  assumes "plain cmd" and "\<forall>p \<in> set params. plain p" and "n \<le> length params"
  shows "\<exists>s'. report_invalid_arguments cmd n params s = Inr s'"
proof -
  from plain_params[OF assms(2,3)] obtain out where "params_text params 0 n = Inr out" "plain out" by blast
  then show ?thesis using assms(1)
    by (simp add: report_invalid_arguments_def) (auto intro!: print_format_plain simp: plain_def newline_def)
qed

definition no_ub :: "'a result \<Rightarrow> bool" where
  "no_ub r \<longleftrightarrow> r \<noteq> Inl Undefined"

lemma no_ub_simps [simp]: "no_ub (Inr x)" "no_ub (Inl (Throws e))"
  by (simp_all add: no_ub_def)

lemma no_ub_report:
  "plain cmd \<Longrightarrow> \<forall>p \<in> set params. plain p \<Longrightarrow> n \<le> length params \<Longrightarrow> no_ub (report_invalid_arguments cmd n params s)"
  using report_invalid_ok[of cmd params n s] by (auto simp: no_ub_def)

lemma print_handler_ok:
  assumes "plain cmd" and "\<forall>p \<in> set params. plain p" and "n = length params"
  shows "no_ub (print_handler cmd n params s)"
proof -
  have "1 < length params" if "params \<noteq> []" "length params \<noteq> 1" using that by (cases params) auto
  then show ?thesis using no_ub_report[OF assms(1,2), of n s] assms(3)
    by (auto simp: print_handler_def param_def split_string_ref split: option.splits)
qed

text \<open>The loggers are not listed unless there is none, and the second parameter of three is not the number of loggers.\<close>

definition log_index_ok :: "string list \<Rightarrow> main_app \<Rightarrow> bool" where
  "log_index_ok params s \<longleftrightarrow>
     (params = [''list''] \<longrightarrow> ma_loggers s = []) \<and>
     (length params = 3 \<and> is_numeric (params ! 1) \<longrightarrow> unat (of_int (signed_value (params ! 1)) :: size_t) \<noteq> length (ma_loggers s))"

lemma log_target_ok: "log_index_ok [p, q, r] s \<Longrightarrow> no_ub (log_target q s)"
  by (auto simp: log_index_ok_def log_target_def stoi_def query_logger_by_index_def Let_def)

lemma log_three_ok:
  assumes "log_index_ok [p, q, r] s" and "plain cmd" and "\<forall>x \<in> {p, q, r}. plain x"
  shows "no_ub (log_three cmd [p, q, r] p q r s)"
  using log_target_ok[OF assms(1)] no_ub_report[of cmd "[p, q, r]" 3 s] assms(2,3)
  by (cases "log_target q s") (auto simp: log_three_def no_ub_def split: sum.splits option.splits)

lemma log_handler_ok:
  assumes "log_index_ok params s" and "plain cmd" and "\<forall>p \<in> set params. plain p" and "params \<noteq> []"
  shows "no_ub (log_handler cmd (length params) params s)"
proof -
  note rep = no_ub_report[OF assms(2,3) order_refl, of s]
  consider p where "params = [p]" | p q where "params = [p, q]" | p q r where "params = [p, q, r]" | "3 < length params"
    using assms(4) by (cases params rule: list.exhaust; cases "tl params"; cases "tl (tl params)"; cases "tl (tl (tl params))") auto
  then show ?thesis
  proof cases
    case 3
    with log_three_ok[of p q r s cmd] assms show ?thesis by (simp add: log_handler_def param_def)
  qed (use rep assms(1) in \<open>auto simp: log_handler_def param_def log_one_def log_two_def print_log_list_def log_index_ok_def numeral_2_eq_2 split: option.splits\<close>)
qed

lemma params_text_short: "i \<le> length params \<Longrightarrow> length params < n \<Longrightarrow> params_text params i n = Inl Undefined"
proof (induction "length params - i" arbitrary: i)
  case 0
  then show ?case by (subst params_text.simps) (simp add: param_def)
next
  case (Suc k)
  then have "params_text params (i + 1) n = Inl Undefined" by (intro Suc.hyps(1)) auto
  with Suc show ?case by (subst params_text.simps) (simp add: param_def res_map_def)
qed

lemma nat_text_hd: "\<exists>c cs. nat_text n = c # cs \<and> is_digit_char c \<and> (\<forall>x \<in> set cs. is_digit_char x)"
  using nat_text_digits[of n] by (cases "nat_text n") auto

lemma digit_char_not: "is_digit_char c \<Longrightarrow> \<not> is_space c \<and> c \<noteq> CHR ''-'' \<and> c \<noteq> CHR ''+'' \<and> c \<noteq> CHR '' '' \<and> c \<noteq> quote_char"
  by (auto simp: is_digit_char_def is_space_def char_in_def quote_char_def)

lemma nat_text_number: "is_numeric (nat_text n) \<and> signed_value (nat_text n) = int n"
proof -
  obtain c cs where c: "nat_text n = c # cs" "is_digit_char c" "\<forall>x \<in> set cs. is_digit_char x" using nat_text_hd by blast
  have all: "takeWhile is_digit_char cs = cs" "dropWhile is_digit_char cs = []" using c(3) by auto
  show ?thesis using c digit_char_not[OF c(2)] nat_text_digits[of n] by (simp add: all is_numeric_def skip_minus_def signed_value_def)
qed

lemma nat_text_word: "word_ok (False, nat_text n)"
proof -
  obtain c cs where c: "nat_text n = c # cs" "is_digit_char c" "\<forall>x \<in> set cs. is_digit_char x" using nat_text_hd by blast
  then show ?thesis using digit_char_not by (auto simp: word_ok_def)
qed

section \<open>Properties\<close>

text \<open>Every line of arguments can be typed. Words in quotes, or plain words, separated by single blanks, are split into exactly these words.\<close>

theorem command_line_round_trip:
  assumes "ws \<noteq> []" and "\<forall>w \<in> set ws. word_ok w"
  shows "split_string_with_quote (line_text ws) '' '' = Some (map snd ws)"
  using split_words assms by blast

theorem command_line_round_trip_witness:
  "split_string_with_quote (line_text [(False, ''open''), (True, ''my file''), (True, [])]) '' '' = Some [''open'', ''my file'', []]"
  using command_line_round_trip[of "[(False, ''open''), (True, ''my file''), (True, [])]"] by (simp add: word_ok_def quote_char_def)

definition example_app :: main_app where
  "example_app =
     \<lparr>ma_callbacks = [], ma_info_vector = [], ma_loggers = [], ma_log_level = INFO, ma_verbose = False, ma_cli_enabled = True, ma_is_running = False,
      ma_error_code = False, ma_app_name = ''app'', ma_console = \<lparr>has_color_filter = True, filtered_color = 0\<rparr>, ma_output = [], ma_calls = []\<rparr>"

text \<open>C27. A typed command reaches its callback. After a command was added, typing it with at most 20 words calls its callback once, with the
  words; an earlier callback of the same command is replaced.\<close>

theorem typed_command_reaches_callback:
  assumes "add_cli_cmd (Some cmd) description (Some (User k)) s = (ok, s1)" and "word_ok (q, cmd)" and "\<forall>w \<in> set ws. word_ok w"
    and "length ws \<le> MAX_PARAMS"
  shows "ok \<and> cli_line version (line_text ((q, cmd) # ws)) s1 =
           Some (Inr (s1\<lparr>ma_calls := ma_calls s @ [(k, cmd, length ws, map snd ws)]\<rparr>))"
proof -
  have s1: "ok" "map_of (ma_callbacks s1) cmd = Some \<lparr>cmd_cmd = cmd, cmd_description = description, cmd_callback = User k\<rparr>"
    "ma_calls s1 = ma_calls s" using assms(1) by (auto simp: add_cli_cmd_def map_of_al_remove map_add_def)
  have ws: "(q, cmd) # ws \<noteq> []" "\<forall>w \<in> set ((q, cmd) # ws). word_ok w" using assms(2,3) by auto
  show ?thesis using s1 split_words[OF ws] line_text_ne[OF ws] assms(4) by (simp add: cli_line_def)
qed


theorem typed_command_reaches_callback_witness:
  "\<exists>s1. add_cli_cmd (Some ''open'') [] (Some (User 5)) example_app = (True, s1) \<and>
     cli_line [] (line_text [(False, ''open''), (True, ''my file'')]) s1 = Some (Inr (s1\<lparr>ma_calls := [(5, ''open'', 1, [''my file''])]\<rparr>))"
proof -
  obtain ok s1 where a: "add_cli_cmd (Some ''open'') [] (Some (User 5)) example_app = (ok, s1)" by fastforce
  from typed_command_reaches_callback[OF a, of False "[(True, ''my file'')]" "[]"] a show ?thesis
    by (simp add: word_ok_def quote_char_def MAX_PARAMS_def example_app_def)
qed

text \<open>C28. Lines that are harmless. A line whose words have no percent sign and that has at most 20 parameters is handled without undefined behaviour,
  unless its command is the one for loggers and it has no parameters, or the single parameter \<^verbatim>\<open>list\<close> while there is a logger, or three
  parameters with the index just behind the last logger as the second. The callbacks of users do not end the program.\<close>

theorem plain_lines_are_safe:
  assumes "split_string_with_quote input '' '' = Some (cmd # params)" and "plain cmd" and "\<forall>p \<in> set params. plain p"
    and "length params \<le> MAX_PARAMS"
    and "\<forall>c. map_of (ma_callbacks s) cmd = Some c \<and> cmd_callback c = Log_cmd \<longrightarrow> params \<noteq> [] \<and> log_index_ok params s"
  shows "\<exists>r. cli_line version input s = Some r \<and> r \<noteq> Inl Undefined"
proof -
  have take: "take MAX_PARAMS params = params" using assms(4) by simp
  have unknown: "no_ub (report_unsupported cmd 0 [] s)"
    using print_format_plain[of "''Command: '' @ [CHR 0x27] @ cmd @ [CHR 0x27] @ '' unknown'' @ newline" s] assms(2)
    by (auto simp: report_unsupported_def plain_def newline_def)
  have "no_ub (on_cli_input version (cmd_callback c) cmd (length params) params s)" if "map_of (ma_callbacks s) cmd = Some c" for c
    using print_handler_ok[OF assms(2,3) refl, of s] log_handler_ok[OF _ assms(2,3), of s] assms(5) that by (cases "cmd_callback c") auto
  with unknown take show ?thesis using assms(1) by (auto simp: cli_line_def no_ub_def split: option.splits)
qed

theorem plain_lines_are_safe_witness:
  "\<exists>r. cli_line [] (line_text [(False, ''log''), (False, ''set''), (False, ''7''), (False, ''enable'')]) (add_cli_cmds example_app) = Some r \<and> r \<noteq> Inl Undefined"
proof -
  have "split_string_with_quote (line_text [(False, ''log''), (False, ''set''), (False, ''7''), (False, ''enable'')]) '' '' = Some [''log'', ''set'', ''7'', ''enable'']"
    by (subst split_words) (auto simp: word_ok_def quote_char_def)
  then show ?thesis
    by (rule plain_lines_are_safe)
      (auto simp: plain_def MAX_PARAMS_def log_index_ok_def signed_value_def is_space_def is_digit_char_def char_in_def add_cli_cmds_def add_cli_cmd_def example_app_def)
qed

text \<open>Lines that are not. An unknown command is printed as a format: one with a conversion is undefined behaviour. So is \<^verbatim>\<open>log\<close> without
  parameters, \<^verbatim>\<open>log list\<close> when there is a logger, \<^verbatim>\<open>log set\<close> with the index behind the last logger, which the test lets pass, and \<^verbatim>\<open>log\<close> with more
  than 20 parameters.\<close>

theorem lines_with_undefined_behaviour:
  assumes "map_of (ma_callbacks s) ''log'' = Some c" and "cmd_callback c = Log_cmd" and "length (ma_loggers s) < 2 ^ 31"
  shows "(CHR ''%'' \<notin> set pre \<and> d \<noteq> CHR ''%'' \<and> quote_char \<notin> set (pre @ d # post) \<and> map_of (ma_callbacks s) (pre @ CHR ''%'' # d # post) = None \<longrightarrow>
            cli_line version (line_text [(True, pre @ CHR ''%'' # d # post)]) s = Some (Inl Undefined)) \<and>
         cli_line version (line_text [(False, ''log'')]) s = Some (Inl Undefined) \<and>
         (ma_loggers s \<noteq> [] \<longrightarrow> cli_line version (line_text [(False, ''log''), (False, ''list'')]) s = Some (Inl Undefined)) \<and>
         cli_line version (line_text [(False, ''log''), (False, ''set''), (False, nat_text (length (ma_loggers s))), (False, ''enable'')]) s = Some (Inl Undefined) \<and>
         (MAX_PARAMS < length ws \<and> (\<forall>w \<in> set ws. word_ok w) \<longrightarrow>
            cli_line version (line_text ((False, ''log'') # ws)) s = Some (Inl Undefined))"
proof -
  have log: "cli_line version (line_text ((False, ''log'') # vs)) s = Some (log_handler ''log'' (length vs) (take MAX_PARAMS (map snd vs)) s)"
    if "\<forall>w \<in> set vs. word_ok w" for vs
  proof -
    have ok: "\<forall>w \<in> set ((False, ''log'') # vs). word_ok w" using that by (auto simp: word_ok_def quote_char_def)
    from split_words[OF _ ok] line_text_ne[OF _ ok] assms(1,2) show ?thesis by (simp add: cli_line_def)
  qed
  have percent: "cli_line version (line_text [(True, pre @ CHR ''%'' # d # post)]) s = Some (Inl Undefined)"
    if h: "CHR ''%'' \<notin> set pre" "d \<noteq> CHR ''%''" "quote_char \<notin> set (pre @ d # post)" "map_of (ma_callbacks s) (pre @ CHR ''%'' # d # post) = None"
  proof -
    have ok: "\<forall>w \<in> set [(True, pre @ CHR ''%'' # d # post)]. word_ok w" using h(3) by (auto simp: word_ok_def quote_char_def)
    have "format_text ((''Command: '' @ [CHR 0x27] @ pre) @ [CHR ''%'', d] @ (post @ [CHR 0x27] @ '' unknown'' @ newline)) = Inl Undefined"
      by (rule format_text_percent) (use h in auto)
    then have "report_unsupported (pre @ CHR ''%'' # d # post) 0 [] s = Inl Undefined" by (simp add: report_unsupported_def print_format_def)
    with split_words[OF _ ok] line_text_ne[OF _ ok] h(4) show ?thesis by (simp add: cli_line_def)
  qed
  have many: "log_handler ''log'' (length vs) (take MAX_PARAMS (map snd vs)) s = Inl Undefined" if "MAX_PARAMS < length vs" for vs :: "(bool \<times> string) list"
  proof -
    have "params_text (take MAX_PARAMS (map snd vs)) 0 (length vs) = Inl Undefined" using that by (intro params_text_short) auto
    moreover have "vs \<noteq> []" using that by auto
    ultimately show ?thesis using that by (simp add: log_handler_def report_invalid_arguments_def param_def MAX_PARAMS_def)
  qed
  have "unat (of_nat (length (ma_loggers s)) :: size_t) = length (ma_loggers s)" using assms(3) by (simp add: unsigned_of_nat take_bit_nat_eq_self_iff)
  then have index: "log_handler ''log'' 3 [''set'', nat_text (length (ma_loggers s)), ''enable''] s = Inl Undefined"
    using nat_text_number[of "length (ma_loggers s)"] assms(3)
    by (simp add: log_handler_def param_def log_three_def log_target_def stoi_def query_logger_by_index_def)
  have words: "\<forall>w \<in> set [(False, ''set''), (False, nat_text (length (ma_loggers s))), (False, ''enable'')]. word_ok w"
    using nat_text_word[of "length (ma_loggers s)"] by (auto simp: word_ok_def quote_char_def)
  have lst: "\<forall>w \<in> set [(False, ''list'')]. word_ok w" by (auto simp: word_ok_def quote_char_def)
  show ?thesis using percent many log[of ws] log[of "[]"] log[OF words] log[OF lst] index
    by (auto simp: log_handler_def param_def MAX_PARAMS_def log_one_def print_log_list_def)
qed

theorem lines_with_undefined_behaviour_witness:
  "cli_line [] (line_text [(True, ''%s'')]) (add_cli_cmds example_app) = Some (Inl Undefined) \<and>
   cli_line [] (line_text [(False, ''log''), (False, ''set''), (False, ''0''), (False, ''enable'')]) (add_cli_cmds example_app) = Some (Inl Undefined)"
proof -
  have m: "map_of (ma_callbacks (add_cli_cmds example_app)) ''log'' = Some \<lparr>cmd_cmd = ''log'', cmd_description = log_description, cmd_callback = Log_cmd\<rparr>"
    "map_of (ma_callbacks (add_cli_cmds example_app)) ''%s'' = None" "ma_loggers (add_cli_cmds example_app) = []"
    by (simp_all add: add_cli_cmds_def add_cli_cmd_def example_app_def al_remove_def)
  have "nat_text 0 = ''0''" by (subst nat_text.simps) code_simp
  from lines_with_undefined_behaviour[OF m(1), of "[]" "CHR ''s''" "[]" "[]" "[]"] m this show ?thesis by (simp add: quote_char_def)
qed

text \<open>Exit codes. \<^verbatim>\<open>m_error_code\<close> is a \<^verbatim>\<open>bool\<close>: whatever code other than 0 the application exits with, the main loop returns 1, in
  the loop of the command line as without it.\<close>

theorem exit_code_is_truncated:
  assumes "error_code \<noteq> 0"
  shows "cli_loop version lines (app_exit error_code s) = Some (Inr (1, app_exit error_code s)) \<and>
         (\<not> ma_cli_enabled s \<longrightarrow> (\<exists>s'. main_loop version lines (Some error_code) s = Some (Inr (1, s'))))"
  using assms by (subst cli_loop.simps) (simp add: app_exit_def main_loop_def run_no_cli_def Let_def)

theorem exit_code_is_truncated_witness:
  "cli_loop [] [''help''] (app_exit 42 example_app) = Some (Inr (1, app_exit 42 example_app)) \<and>
   (\<exists>s'. main_loop [] [] (Some 42) (example_app\<lparr>ma_cli_enabled := False\<rparr>) = Some (Inr (1, s')))"
  using exit_code_is_truncated[of 42 "[]" "[''help'']" example_app]
    exit_code_is_truncated[of 42 "[]" "[]" "example_app\<lparr>ma_cli_enabled := False\<rparr>"] by simp

end
