(* ===== verification/Xml_Text.thy ===== *)
theory Xml_Text
  imports Ini_File
begin

text \<open>
  The text of values in XML files: the conversions of integers and truth values of the bundled pugixml
  (\<^verbatim>\<open>Modules/files/common_files/pugixml/pugixml.cpp\<close>) and the expansion of environment variables
  (\<^verbatim>\<open>Include/utils/strings.hpp\<close>, as it is compiled for Linux).

  A text is a C string: behind its last character the code reads NUL, which is no blank, no sign and no digit. The type
  \<^verbatim>\<open>U\<close> of the templates is the word type of the result. The numbers with a point are converted by the C library and left out.
\<close>

section \<open>Integers\<close>

definition pugi_space :: "char \<Rightarrow> bool" where
  "pugi_space c \<longleftrightarrow> c \<in> {CHR 0x09, CHR 0x0A, CHR 0x0D, CHR '' ''}"

definition xml_digit_value :: "char \<Rightarrow> nat" where
  "xml_digit_value c = (if is_digit_char c then of_char c - 48 else if of_char c < (97 :: nat) then of_char c - 55 else of_char c - 87)"

definition is_hex_char :: "char \<Rightarrow> bool" where
  "is_hex_char c \<longleftrightarrow> is_digit_char c \<or> char_in CHR ''a'' c CHR ''f'' \<or> char_in CHR ''A'' c CHR ''F''"

definition digits_word :: "nat \<Rightarrow> string \<Rightarrow> 'a::len word" where
  "digits_word base ds = fold (\<lambda>c result. result * word_of_nat base + word_of_nat (xml_digit_value c)) ds 0"

definition max_digits10 :: "nat \<Rightarrow> nat" where
  "max_digits10 bits = (if bits = 64 then 20 else if bits = 32 then 10 else 5)"

definition max_lead :: "nat \<Rightarrow> char" where
  "max_lead bits = (if bits = 64 then CHR ''1'' else if bits = 32 then CHR ''4'' else CHR ''6'')"

definition decimal_overflow :: "string \<Rightarrow> 'a::len word \<Rightarrow> bool" where
  "decimal_overflow ds result \<longleftrightarrow>
     (let n = LENGTH('a); lead = (of_char (hd ds) :: nat) in
      max_digits10 n \<le> length ds \<and>
      \<not> (length ds = max_digits10 n \<and> (lead < of_char (max_lead n) \<or> lead = of_char (max_lead n) \<and> drop_bit (n - 1) result \<noteq> 0)))"

definition string_to_integer :: "'a::len word \<Rightarrow> 'a word \<Rightarrow> string \<Rightarrow> 'a word" where
  "string_to_integer minv maxv value =
     (let s0 = dropWhile pugi_space value;
          negative = (take 1 s0 = ''-'');
          s = (if take 1 s0 = ''+'' \<or> take 1 s0 = ''-'' then drop 1 s0 else s0);
          hex = (take 1 s = ''0'' \<and> (take 1 (drop 1 s) = ''x'' \<or> take 1 (drop 1 s) = ''X''));
          ds = (if hex then takeWhile is_hex_char (dropWhile (\<lambda>c. c = CHR ''0'') (drop 2 s))
                else takeWhile is_digit_char (dropWhile (\<lambda>c. c = CHR ''0'') s));
          result = (digits_word (if hex then 16 else 10) ds :: 'a word);
          overflow = (if hex then LENGTH('a) div 8 * 2 < length ds else decimal_overflow ds result)
      in if negative then (if overflow \<or> 0 - minv < result then minv else 0 - result)
         else (if overflow \<or> maxv < result then maxv else result))"

definition get_value_int :: "string \<Rightarrow> 32 word" where
  "get_value_int = string_to_integer (2 ^ 31) (2 ^ 31 - 1)"

definition get_value_uint :: "string \<Rightarrow> 32 word" where
  "get_value_uint = string_to_integer 0 (- 1)"

definition get_value_llong :: "string \<Rightarrow> 64 word" where
  "get_value_llong = string_to_integer (2 ^ 63) (2 ^ 63 - 1)"

definition get_value_ullong :: "string \<Rightarrow> 64 word" where
  "get_value_ullong = string_to_integer 0 (- 1)"

definition get_value_bool :: "string \<Rightarrow> bool" where
  "get_value_bool value \<longleftrightarrow> (case value of [] \<Rightarrow> False | first # _ \<Rightarrow> first \<in> {CHR ''1'', CHR ''t'', CHR ''T'', CHR ''y'', CHR ''Y''})"

text \<open>The digits are put in front of those that are there, from the last one; the division of unsigned numbers is that of their values.\<close>

fun integer_digits :: "nat \<Rightarrow> string \<Rightarrow> string" where
  "integer_digits rest acc =
     (let acc' = char_of (48 + rest mod 10) # acc; rest' = rest div 10
      in if rest' \<noteq> 0 then integer_digits rest' acc' else acc')"

definition integer_to_string :: "'a::len word \<Rightarrow> bool \<Rightarrow> string" where
  "integer_to_string value negative =
     (let ds = integer_digits (unat (if negative then 0 - value else value)) [] in if negative then CHR ''-'' # ds else ds)"

definition set_value_bool :: "bool \<Rightarrow> string" where
  "set_value_bool value = (if value then ''true'' else ''false'')"

text \<open>\<^verbatim>\<open>xml_text::set\<close> for signed and unsigned numbers.\<close>

definition set_signed :: "'a::len word \<Rightarrow> string" where
  "set_signed rhs = integer_to_string rhs (sint rhs < 0)"

definition set_unsigned :: "'a::len word \<Rightarrow> string" where
  "set_unsigned rhs = integer_to_string rhs False"

section \<open>Environment variables\<close>

text \<open>The leftmost \<^verbatim>\<open>${name}\<close> with a name that is not empty and has no closing brace: what is before it, the name, and what is behind it.\<close>

fun env_search :: "string \<Rightarrow> (string \<times> string \<times> string) option" where
  "env_search [] = None"
| "env_search (c # s) =
     (let name = takeWhile (\<lambda>x. x \<noteq> CHR ''}'') (drop 1 s); rest = drop (length name) (drop 1 s)
      in if c = CHR ''$'' \<and> take 1 s = ''{'' \<and> name \<noteq> [] \<and> rest \<noteq> [] then Some ([], name, drop 1 rest)
         else map_option (\<lambda>(pre, name, post). (c # pre, name, post)) (env_search s))"

text \<open>The loop goes on while there is a variable. The value of a variable may name the variable again, so it may not end.\<close>

partial_function (option) expand_variables :: "(string \<Rightarrow> string option) \<Rightarrow> string \<Rightarrow> string option" where
  "expand_variables env text =
     (case env_search text of
        None \<Rightarrow> Some text
      | Some (pre, name, post) \<Rightarrow> expand_variables env (pre @ (case env name of None \<Rightarrow> [] | Some v \<Rightarrow> v) @ post))"

declare expand_variables.simps [code]

text \<open>
  A loop that neither ends nor does input or output is undefined behaviour in C++, and so is the use of a missing \<^verbatim>\<open>HOME\<close>.
\<close>

definition auto_expand_environment_variables :: "(string \<Rightarrow> string option) \<Rightarrow> string \<Rightarrow> string result" where
  "auto_expand_environment_variables env text =
     (case expand_variables env text of
        None \<Rightarrow> Inl Undefined
      | Some t \<Rightarrow>
          if CHR ''~'' \<in> set t
          then (case env ''HOME'' of
                  None \<Rightarrow> Inl Undefined
                | Some home \<Rightarrow> Inr (takeWhile (\<lambda>c. c \<noteq> CHR ''~'') t @ home @ ''/'' @ drop 1 (dropWhile (\<lambda>c. c \<noteq> CHR ''~'') t)))
          else Inr t)"

section \<open>A printed integer is read back\<close>

declare integer_digits.simps [simp del]

lemma integer_digits_text: "integer_digits n acc = nat_text n @ acc"
proof (induction n acc rule: integer_digits.induct)
  case (1 n acc)
  show ?case
  proof (cases "n < 10")
    case True
    then show ?thesis by (simp add: nat_text.simps[of n] integer_digits.simps[of n])
  next
    case False
    then show ?thesis using 1[OF refl refl] by (subst integer_digits.simps, subst nat_text.simps) (simp add: Let_def)
  qed
qed

lemma digits_word_value: "\<forall>c \<in> set ds. is_digit_char c \<Longrightarrow> digits_word 10 ds = word_of_nat (digits_value 0 ds)"
proof (induction ds rule: rev_induct)
  case (snoc c ds)
  then have "xml_digit_value c = of_char c - 48" by (simp add: xml_digit_value_def)
  with snoc show ?case by (simp add: digits_word_def digits_value_snoc)
qed (simp add: digits_word_def)

text \<open>The number of digits, and the first of them.\<close>

lemma nat_text_bounds:
  assumes "0 < n"
  shows "10 ^ (length (nat_text n) - 1) \<le> n \<and> n < 10 ^ length (nat_text n) \<and>
         of_char (hd (nat_text n)) = 48 + n div 10 ^ (length (nat_text n) - 1) \<and> 0 < length (nat_text n)"
  using assms
proof (induction n rule: nat_text.induct)
  case (1 n)
  show ?case
  proof (cases "n < 10")
    case True
    then show ?thesis using "1.prems" by (simp add: nat_text.simps[of n])
  next
    case False
    let ?m = "n div 10"
    have ih: "10 ^ (length (nat_text ?m) - 1) \<le> ?m" "?m < 10 ^ length (nat_text ?m)"
      "of_char (hd (nat_text ?m)) = 48 + ?m div 10 ^ (length (nat_text ?m) - 1)" "0 < length (nat_text ?m)" using 1 False by auto
    have t: "nat_text n = nat_text ?m @ [char_of (48 + n mod 10)]" using False by (subst nat_text.simps) simp
    obtain k where k: "length (nat_text ?m) = Suc k" using ih(4) by (cases "length (nat_text ?m)") auto
    have p: "n div (10 * 10 ^ k) = ?m div 10 ^ k" by (simp add: div_mult2_eq)
    have "hd (nat_text n) = hd (nat_text ?m)" unfolding t using ih(4) by (simp del: nat_text.simps)
    then have h: "of_char (hd (nat_text n)) = 48 + n div 10 ^ Suc k" using ih(3) k p by simp
    have l: "length (nat_text n) = Suc (Suc k)" unfolding t using k by simp
    have "10 ^ k \<le> ?m" "?m < 10 ^ Suc k" using ih(1,2) k by simp_all
    then have "10 ^ k * 10 \<le> n" "n < 10 ^ Suc k * 10" using less_eq_div_iff_mult_less_eq[of 10 "10 ^ k" n] div_less_iff_less_mult[of 10 n "10 ^ Suc k"] by simp_all
    then show ?thesis unfolding l by (simp add: h)
  qed
qed

lemma text_lead: "0 < n \<Longrightarrow> hd (nat_text n) \<noteq> CHR ''0''"
proof
  assume n: "0 < n" and h: "hd (nat_text n) = CHR ''0''"
  have "0 < n div 10 ^ (length (nat_text n) - 1)" using nat_text_bounds[OF n] by (simp add: div_greater_zero_iff)
  moreover have "(of_char (hd (nat_text n)) :: nat) = 48 + n div 10 ^ (length (nat_text n) - 1)" using nat_text_bounds[OF n] by simp
  moreover have "(of_char (hd (nat_text n)) :: nat) = 48" unfolding h by simp
  ultimately show False by simp
qed

lemma text_skip_zeros: "dropWhile (\<lambda>c. c = CHR ''0'') (nat_text n) = (if n = 0 then [] else nat_text n)"
proof (cases "n = 0")
  case False
  then show ?thesis using text_lead[of n] by (cases "nat_text n") (auto simp del: nat_text.simps)
next
  case True
  have "char_of (48 :: nat) = CHR ''0''" by code_simp
  with True show ?thesis by (simp add: nat_text.simps[of 0])
qed

text \<open>A number of the width of the type is never taken for an overflow.\<close>

lemma no_decimal_overflow:
  assumes "LENGTH('a::len) = 32 \<or> LENGTH('a) = 64" and "0 < n" and "n < 2 ^ LENGTH('a)"
  shows "\<not> decimal_overflow (nat_text n) (word_of_nat n :: 'a word)"
proof -
  let ?L = "length (nat_text n)" and ?M = "max_digits10 LENGTH('a)"
  have b: "10 ^ (?L - 1) \<le> n" "of_char (hd (nat_text n)) = 48 + n div 10 ^ (?L - 1)" using nat_text_bounds[OF assms(2)] by auto
  have small: "?L \<le> ?M"
  proof (rule ccontr)
    assume "\<not> ?L \<le> ?M"
    then have "(10 :: nat) ^ ?M \<le> 10 ^ (?L - 1)" by (intro power_increasing) auto
    also note b(1)
    finally show False using assms(1,3) by (auto simp: max_digits10_def)
  qed
  have lead: "n div 10 ^ (?M - 1) + 48 < of_char (max_lead LENGTH('a)) \<or>
      n div 10 ^ (?M - 1) + 48 = of_char (max_lead LENGTH('a)) \<and> 2 ^ (LENGTH('a) - 1) \<le> n"
    using assms(1)
  proof
    assume w: "LENGTH('a) = 32"
    then have "n div 10 ^ 9 < 5" using assms(3) by (simp add: div_less_iff_less_mult)
    moreover have "4 * 10 ^ 9 \<le> n" if "n div 10 ^ 9 = 4" using times_div_less_eq_dividend[of "10 ^ 9" n] that by simp
    ultimately show ?thesis using w by (cases "n div 10 ^ 9 = 4") (auto simp: max_digits10_def max_lead_def)
  next
    assume w: "LENGTH('a) = 64"
    then have "n div 10 ^ 19 < 2" using assms(3) by (simp add: div_less_iff_less_mult)
    moreover have "10 ^ 19 \<le> n" if "n div 10 ^ 19 = 1" using times_div_less_eq_dividend[of "10 ^ 19" n] that by simp
    ultimately show ?thesis using w by (cases "n div 10 ^ 19 = 1") (auto simp: max_digits10_def max_lead_def)
  qed
  have "drop_bit (LENGTH('a) - 1) (word_of_nat n :: 'a word) \<noteq> 0" if "2 ^ (LENGTH('a) - 1) \<le> n"
  proof
    assume "drop_bit (LENGTH('a) - 1) (word_of_nat n :: 'a word) = 0"
    then have "unat (drop_bit (LENGTH('a) - 1) (word_of_nat n :: 'a word)) = 0" by simp
    then have "drop_bit (LENGTH('a) - 1) n = 0" using assms(3) by (simp only: unat_drop_bit_eq unat_of_nat) simp
    then have "n div 2 ^ (LENGTH('a) - 1) = 0" by (simp only: drop_bit_eq_div)
    with that show False by (simp add: div_eq_0_iff)
  qed
  with small lead b(2) show ?thesis by (auto simp: decimal_overflow_def Let_def)
qed

text \<open>The digits that are left of a printed number.\<close>

lemma decimal_digits:
  assumes "LENGTH('a::len) = 32 \<or> LENGTH('a) = 64" and "n < 2 ^ LENGTH('a)"
  shows "\<exists>ds. takeWhile is_digit_char (dropWhile (\<lambda>c. c = CHR ''0'') (nat_text n)) = ds \<and> (digits_word 10 ds :: 'a word) = word_of_nat n \<and>
           \<not> decimal_overflow ds (word_of_nat n :: 'a word)"
proof (cases "n = 0")
  case True
  then show ?thesis using assms(1) by (auto simp: text_skip_zeros digits_word_def decimal_overflow_def max_digits10_def Let_def)
next
  case False
  then have "takeWhile is_digit_char (dropWhile (\<lambda>c. c = CHR ''0'') (nat_text n)) = nat_text n"
    using nat_text_digits[of n] by (simp add: text_skip_zeros takeWhile_eq_all_conv)
  with False show ?thesis using no_decimal_overflow[OF assms(1) _ assms(2)] nat_text_digits[of n] by (simp add: digits_word_value)
qed

lemma not_hex: "\<not> (take 1 (drop 1 (nat_text n)) = ''x'' \<or> take 1 (drop 1 (nat_text n)) = ''X'')"
proof -
  have "c \<noteq> CHR ''x'' \<and> c \<noteq> CHR ''X''" if "c \<in> set (nat_text n)" for c
    using nat_text_digits[of n] that by (auto simp: is_digit_char_def char_in_def)
  then show ?thesis by (cases "nat_text n"; cases "tl (nat_text n)") auto
qed

text \<open>What \<^verbatim>\<open>string_to_integer\<close> makes of a printed number.\<close>

lemma string_to_integer_nat:
  assumes "LENGTH('a::len) = 32 \<or> LENGTH('a) = 64" and "n < 2 ^ LENGTH('a)" and "(word_of_nat n :: 'a word) \<le> maxv"
  shows "string_to_integer minv maxv (nat_text n) = (word_of_nat n :: 'a word)"
proof -
  obtain c cs where t: "nat_text n = c # cs" "is_digit_char c" using nat_text_digits[of n] by (cases "nat_text n") auto
  have c: "\<not> pugi_space c" "c \<noteq> CHR ''-''" "c \<noteq> CHR ''+''" using t(2) by (auto simp: pugi_space_def is_digit_char_def char_in_def)
  have s: "dropWhile pugi_space (nat_text n) = nat_text n" "take 1 (nat_text n) \<noteq> ''-''" "take 1 (nat_text n) \<noteq> ''+''" using c t(1) by auto
  obtain ds where ds: "takeWhile is_digit_char (dropWhile (\<lambda>c. c = CHR ''0'') (nat_text n)) = ds" "(digits_word 10 ds :: 'a word) = word_of_nat n"
    "\<not> decimal_overflow ds (word_of_nat n :: 'a word)" using decimal_digits[OF assms(1,2)] by blast
  show ?thesis using not_hex[of n] s ds leD[OF assms(3)] by (simp add: string_to_integer_def Let_def)
qed

lemma string_to_integer_neg:
  assumes "LENGTH('a::len) = 32 \<or> LENGTH('a) = 64" and "n < 2 ^ LENGTH('a)" and "(word_of_nat n :: 'a word) \<le> 0 - minv"
  shows "string_to_integer minv maxv (CHR ''-'' # nat_text n) = (0 - word_of_nat n :: 'a word)"
proof -
  have s: "dropWhile pugi_space (CHR ''-'' # nat_text n) = CHR ''-'' # nat_text n" by (simp add: pugi_space_def)
  obtain ds where ds: "takeWhile is_digit_char (dropWhile (\<lambda>c. c = CHR ''0'') (nat_text n)) = ds" "(digits_word 10 ds :: 'a word) = word_of_nat n"
    "\<not> decimal_overflow ds (word_of_nat n :: 'a word)" using decimal_digits[OF assms(1,2)] by blast
  show ?thesis unfolding string_to_integer_def s using not_hex[of n] ds leD[OF assms(3)] by (simp add: Let_def)
qed

text \<open>Unsigned numbers, and signed ones, among them the least, whose value has no positive counterpart.\<close>

lemma unsigned_read_back:
  assumes "LENGTH('a::len) = 32 \<or> LENGTH('a) = 64"
  shows "string_to_integer 0 (- 1) (set_unsigned (w :: 'a word)) = w"
  using string_to_integer_nat[OF assms, of "unat w" "- 1" 0]
  by (simp add: set_unsigned_def integer_to_string_def integer_digits_text word_order.extremum)

lemma sint_negative: "sint w < 0 \<longleftrightarrow> 2 ^ (LENGTH('a) - 1) \<le> unat (w :: 'a::len word)"
proof -
  have "unat w < 2 * 2 ^ (LENGTH('a) - 1)" 
  proof -
    have "unat w < 2 ^ LENGTH('a)" by (rule unsigned_less)
    also have "\<dots> = 2 * 2 ^ (LENGTH('a) - 1)" using power_minus_mult[of "LENGTH('a)" "2 :: nat"] by simp
    finally show ?thesis .
  qed
  then have "unat w div 2 ^ (LENGTH('a) - 1) < 2" by (simp add: div_less_iff_less_mult)
  moreover have "sint w < 0 \<longleftrightarrow> odd (unat w div 2 ^ (LENGTH('a) - 1))"

  proof -
    have "bit w (LENGTH('a) - 1) \<longleftrightarrow> bit (unat w) (LENGTH('a) - 1)" by (simp add: bit_unsigned_iff)
    then show ?thesis using bit_last_iff[of w] by (simp add: bit_iff_odd)
  qed
  moreover have "0 < unat w div 2 ^ (LENGTH('a) - 1) \<longleftrightarrow> 2 ^ (LENGTH('a) - 1) \<le> unat w" by (simp add: div_greater_zero_iff)
  ultimately show ?thesis by (auto simp: less_2_cases_iff)
qed

lemma unat_half: "unat (2 ^ (LENGTH('a) - 1) :: 'a::len word) = 2 ^ (LENGTH('a) - 1)"
proof -
  have "(0 :: 'a word) < 2 ^ (LENGTH('a) - 1)" by (simp add: word_gt_0)
  from uint_2p[OF this] show ?thesis by (simp add: unat_eq_nat_uint nat_power_eq)
qed

lemma minus_antitone:
  assumes "v \<le> w" and "v \<noteq> 0"
  shows "- w \<le> - (v :: 'a::len word)"
proof -
  have "w \<noteq> 0" using assms by auto
  have m: "uint (- x) = 2 ^ LENGTH('a) - uint x" if "x \<noteq> 0" for x :: "'a word"
  proof -
    have "0 < uint x" "uint x < 2 ^ LENGTH('a)" using that by (simp_all add: word_neq_0_conv word_less_def)
    then show ?thesis by (simp add: uint_word_ariths(4) zmod_zminus1_eq_if)
  qed
  show ?thesis using assms(1) m[OF assms(2)] m[OF \<open>w \<noteq> 0\<close>] by (simp add: word_le_def)
qed

lemma signed_read_back:
  assumes "LENGTH('a::len) = 32 \<or> LENGTH('a) = 64"
  shows "string_to_integer (2 ^ (LENGTH('a) - 1)) (2 ^ (LENGTH('a) - 1) - 1) (set_signed (w :: 'a word)) = w"
proof (cases "sint w < 0")
  case False
  then have "unat w < 2 ^ (LENGTH('a) - 1)" by (simp add: sint_negative)
  moreover have "unat (2 ^ (LENGTH('a) - 1) - 1 :: 'a word) = 2 ^ (LENGTH('a) - 1) - 1"
    using unat_minus_one[of "2 ^ (LENGTH('a) - 1) :: 'a word"] unat_half[where 'a = 'a] by simp
  ultimately have "word_of_nat (unat w) \<le> (2 ^ (LENGTH('a) - 1) - 1 :: 'a word)" by (simp add: word_le_nat_alt)
  from string_to_integer_nat[OF assms _ this] False show ?thesis by (simp add: set_signed_def integer_to_string_def integer_digits_text)
next
  case True
  then have "2 ^ (LENGTH('a) - 1) \<le> w" using unat_half[where 'a = 'a] by (simp add: sint_negative word_le_nat_alt)
  then have "word_of_nat (unat (- w)) \<le> (0 - 2 ^ (LENGTH('a) - 1) :: 'a word)" using minus_antitone[of "2 ^ (LENGTH('a) - 1)" w] by simp
  from string_to_integer_neg[OF assms _ this] True show ?thesis by (simp add: set_signed_def integer_to_string_def integer_digits_text)
qed

lemma int_read_back: "get_value_int (set_signed w) = w" "get_value_uint (set_unsigned w) = w"
  "get_value_llong (set_signed v) = v" "get_value_ullong (set_unsigned v) = v" "get_value_bool (set_value_bool b) = b"
  using signed_read_back[of w] unsigned_read_back[of w] signed_read_back[of v] unsigned_read_back[of v]
  by (simp_all add: get_value_int_def get_value_uint_def get_value_llong_def get_value_ullong_def get_value_bool_def set_value_bool_def)

text \<open>The text fits the array of 64 characters that pugixml has for it.\<close>

lemma nat_text_width: "n < 2 ^ 64 \<Longrightarrow> length (nat_text n) \<le> 20"
proof (rule ccontr)
  assume n: "n < 2 ^ 64" and l: "\<not> length (nat_text n) \<le> 20"
  then have "0 < n" by (cases n) (simp_all add: nat_text.simps[of 0])
  moreover have "(10 :: nat) ^ 20 \<le> 10 ^ (length (nat_text n) - 1)" using l by (intro power_increasing) auto
  ultimately have "10 ^ 20 \<le> n" using nat_text_bounds[of n] by linarith
  with n show False by simp
qed

lemma integer_to_string_fits:
  assumes "LENGTH('a::len) \<le> 64"
  shows "length (integer_to_string (w :: 'a word) negative) < 64"
proof -
  have "unat v < 2 ^ 64" for v :: "'a word"
  proof -
    have "unat v < 2 ^ LENGTH('a)" by (rule unsigned_less)
    also have "(2 :: nat) ^ LENGTH('a) \<le> 2 ^ 64" using assms by (intro power_increasing) auto
    finally show ?thesis .
  qed
  from nat_text_width[OF this[of w]] nat_text_width[OF this[of "- w"]] show ?thesis
    by (simp add: integer_to_string_def integer_digits_text Let_def)
qed

section \<open>Texts without variables\<close>

lemma env_search_plain: "CHR ''$'' \<notin> set s \<Longrightarrow> env_search s = None"
  by (induction s) (auto simp: Let_def)

lemma expand_plain:
  assumes "CHR ''$'' \<notin> set s" and "CHR ''~'' \<notin> set s"
  shows "auto_expand_environment_variables env s = Inr s"
  using assms env_search_plain[OF assms(1)] by (simp add: auto_expand_environment_variables_def expand_variables.simps)

text \<open>A variable whose value has neither a variable nor a tilde is replaced once.\<close>

lemma env_search_app:
  "CHR ''$'' \<notin> set pre \<Longrightarrow> name \<noteq> [] \<Longrightarrow> CHR ''}'' \<notin> set name \<Longrightarrow>
     env_search (pre @ ''${'' @ name @ ''}'' @ post) = Some (pre, name, post)"
proof (induction pre)
  case Nil
  then have "takeWhile (\<lambda>x. x \<noteq> CHR ''}'') (name @ ''}'' @ post) = name"
    by (subst takeWhile_append2) auto
  with Nil show ?case by simp
qed (auto simp: Let_def)

lemma expand_one:
  assumes "CHR ''$'' \<notin> set (pre @ v @ post)" and "CHR ''~'' \<notin> set (pre @ v @ post)" and "name \<noteq> []" and "CHR ''}'' \<notin> set name"
    and "env name = Some v"
  shows "auto_expand_environment_variables env (pre @ ''${'' @ name @ ''}'' @ post) = Inr (pre @ v @ post)"
proof -
  have "CHR ''$'' \<notin> set pre" using assms(1) by simp
  from env_search_app[OF this assms(3,4), of post] have "expand_variables env (pre @ ''${'' @ name @ ''}'' @ post) = Some (pre @ v @ post)"
    using env_search_plain[OF assms(1)] assms(5) by (subst expand_variables.simps, simp, subst expand_variables.simps, simp)
  then show ?thesis using assms(2) by (simp add: auto_expand_environment_variables_def)
qed

end
