(* ===== verification/Config_Store.thy ===== *)
theory Config_Store
  imports Rules_Data Application Xml_Text
begin

text \<open>
  Parameters in XML files (\<^verbatim>\<open>ModernAPI/XMLLoader.hpp\<close>): each element of a file is the value of a row, as the bytes of a packed structure.
  The store loads the factory settings and the settings of the user over them into the rows of a table, and writes the values of rows
  back to the elements of the user.

  An element is a tree of typed fields of the document in memory. The text of integers and truth values is made and read by the bundled
  pugixml, and environment variables are expanded in strings, see \<^verbatim>\<open>Xml_Text\<close>. The numbers with a point are converted by \<^verbatim>\<open>strtod\<close> and
  \<^verbatim>\<open>snprintf\<close> of the C library; these conversions and the environment of the process are the parameter \<open>conv\<close>. Arrays of the code have
  their sizes, and copying outside of them is undefined. The rows are those of \<^verbatim>\<open>Memory_Row\<close>. Left out are the descriptions of rows
  that loading builds, comments, the creation of missing elements of the user (\<^verbatim>\<open>AddElement\<close>), the file on the disk below the
  document, the subscriptions after loading and printing.
\<close>

section \<open>Elements and conversions\<close>

datatype cfg = Cfg (c_name: string) (c_type: string) (c_size: int) (c_value: "string option") (c_children: "cfg list")

record conv =
  cv_as_float :: "string \<Rightarrow> bytes"
  cv_as_double :: "string \<Rightarrow> bytes"
  cv_float_text :: "bytes \<Rightarrow> string"
  cv_double_text :: "bytes \<Rightarrow> string"
  cv_env :: "string \<Rightarrow> string option"

datatype leaf_kind = Int_leaf nat | Long_leaf | Uint_leaf nat | Ulong_leaf | Double_leaf | Float_leaf | String_leaf | Bool_leaf

text \<open>The chain of comparisons that \<^verbatim>\<open>LoadElement\<close> and \<^verbatim>\<open>WriteElement\<close> have in common.\<close>

definition leaf_kind_of :: "string \<Rightarrow> leaf_kind option" where
  "leaf_kind_of t =
     (if t = ''INT'' then Some (Int_leaf 4)
      else if t = ''INT8_T'' \<or> t = ''CHAR'' then Some (Int_leaf 1)
      else if t = ''INT16_T'' then Some (Int_leaf 2)
      else if t = ''INT32_T'' then Some (Int_leaf 4)
      else if t = ''INT64_T'' then Some Long_leaf
      else if t = ''UINT8_T'' then Some (Uint_leaf 1)
      else if t = ''UINT16_T'' then Some (Uint_leaf 2)
      else if t = ''UINT32_T'' then Some (Uint_leaf 4)
      else if t = ''UINT64_T'' then Some Ulong_leaf
      else if t = ''DOUBLE'' then Some Double_leaf
      else if t = ''FLOAT'' then Some Float_leaf
      else if t = ''STRING'' then Some String_leaf
      else if t = ''BOOL'' \<or> t = ''BOOLEAN'' then Some Bool_leaf
      else None)"

text \<open>The size attribute as \<^verbatim>\<open>size_t\<close>.\<close>

definition string_size :: "cfg \<Rightarrow> nat" where
  "string_size el = unat (of_int (c_size el) :: size_t)"

fun leaf_size :: "cfg \<Rightarrow> leaf_kind \<Rightarrow> nat" where
  "leaf_size el (Int_leaf k) = k"
| "leaf_size el (Uint_leaf k) = k"
| "leaf_size el Long_leaf = 8"
| "leaf_size el Ulong_leaf = 8"
| "leaf_size el Double_leaf = 8"
| "leaf_size el Float_leaf = 4"
| "leaf_size el Bool_leaf = 1"
| "leaf_size el String_leaf = string_size el"

definition LOAD_BUFFER_SIZE :: nat where
  "LOAD_BUFFER_SIZE = 2048"

definition MAX_NESTING_DEPTH :: nat where
  "MAX_NESTING_DEPTH = 10"

section \<open>Loading an element\<close>

fun number_bytes :: "conv \<Rightarrow> leaf_kind \<Rightarrow> string \<Rightarrow> bytes" where
  "number_bytes cv (Int_leaf k) v = le_bytes k (get_value_int v)"
| "number_bytes cv (Uint_leaf k) v = le_bytes k (get_value_uint v)"
| "number_bytes cv Long_leaf v = le_bytes 8 (get_value_llong v)"
| "number_bytes cv Ulong_leaf v = le_bytes 8 (get_value_ullong v)"
| "number_bytes cv Double_leaf v = cv_as_double cv v"
| "number_bytes cv Float_leaf v = cv_as_float cv v"
| "number_bytes cv Bool_leaf v = [if get_value_bool v then 1 else 0]"
| "number_bytes cv String_leaf v = []"

definition text_bytes :: "string \<Rightarrow> bytes" where
  "text_bytes s = map (\<lambda>c. word_of_nat (of_char c)) s"

text \<open>A string is copied from a text that ends with NUL, whatever its length is.\<close>

definition leaf_string_bytes :: "conv \<Rightarrow> cfg \<Rightarrow> bytes result" where
  "leaf_string_bytes cv el =
     (let v = (case c_value el of None \<Rightarrow> [] | Some v \<Rightarrow> v)
      in if LOAD_BUFFER_SIZE \<le> length v then Inl Undefined
         else res_bind (auto_expand_environment_variables (cv_env cv) v) (\<lambda>t. mem_read (text_bytes t @ [0]) 0 (string_size el)))"

definition leaf_bytes :: "conv \<Rightarrow> cfg \<Rightarrow> bytes result" where
  "leaf_bytes cv el =
     (case leaf_kind_of (c_type el) of
        None \<Rightarrow> Inl (Throws (Runtime_error ''failed to parse xml file''))
      | Some kind \<Rightarrow>
          if kind = String_leaf then leaf_string_bytes cv el
          else (case c_value el of
                  None \<Rightarrow> Inl (Throws (Runtime_error ''XmlNodeBase''))
                | Some v \<Rightarrow> Inr (number_bytes cv kind v)))"

definition is_struct :: "cfg \<Rightarrow> bool" where
  "is_struct el \<longleftrightarrow> c_type el = ''STRUCT''"

text \<open>\<open>p\<close> is the pointer \<^verbatim>\<open>o_buffer\<close> as an offset into the array \<open>buf\<close>, \<open>n\<close> the variable \<^verbatim>\<open>o_buffer_size\<close>, and \<open>d\<close> the depth, which every child sets back.\<close>

fun load_element :: "conv \<Rightarrow> nat \<Rightarrow> cfg \<Rightarrow> bytes \<Rightarrow> nat \<Rightarrow> nat \<Rightarrow> (bytes \<times> nat) result"
  and load_children :: "conv \<Rightarrow> nat \<Rightarrow> cfg list \<Rightarrow> bytes \<Rightarrow> nat \<Rightarrow> nat \<Rightarrow> (bytes \<times> nat) result" where
  "load_element cv d (Cfg name t sz v cs) buf p n =
     (if t = ''STRUCT'' then load_children cv d cs buf p n
      else res_bind (leaf_bytes cv (Cfg name t sz v cs)) (\<lambda>bs. res_map (\<lambda>buf'. (buf', n + length bs)) (mem_write buf p bs)))"
| "load_children cv d [] buf p n = Inr (buf, n)"
| "load_children cv d (c # cs) buf p n =
     res_bind
       (if is_struct c
        then (if MAX_NESTING_DEPTH \<le> d + 1 then Inl (Throws (Runtime_error ''failed to parse xml file''))
              else res_bind (load_element cv (d + 1) c (replicate LOAD_BUFFER_SIZE 0) 0 0) (\<lambda>(o_buff, o_bSize).
                   res_bind (mem_read o_buff 0 o_bSize) (\<lambda>bs. res_map (\<lambda>buf'. (buf', n + o_bSize)) (mem_write buf (p + n) bs))))
        else load_element cv 0 c buf (p + n) n)
       (\<lambda>(buf', n'). load_children cv 0 cs buf' p n')"

section \<open>Writing an element\<close>

fun number_text :: "conv \<Rightarrow> leaf_kind \<Rightarrow> bytes \<Rightarrow> string result" where
  "number_text cv (Int_leaf k) bs = Inr (set_signed (word_of_int (read_signed k bs) :: 32 word))"
| "number_text cv (Uint_leaf k) bs = Inr (set_unsigned (word_of_int (read_unsigned k bs) :: 32 word))"
| "number_text cv Long_leaf bs = Inr (set_signed (word_of_int (read_signed 8 bs) :: 64 word))"
| "number_text cv Ulong_leaf bs = Inr (set_unsigned (word_of_int (read_unsigned 8 bs) :: 64 word))"
| "number_text cv Double_leaf bs = Inr (cv_double_text cv bs)"
| "number_text cv Float_leaf bs = Inr (cv_float_text cv bs)"
| "number_text cv Bool_leaf bs =
     (if bs = [0] then Inr (set_value_bool False) else if bs = [1] then Inr (set_value_bool True) else Inl Undefined)"
| "number_text cv String_leaf bs =
     (let buff = bs @ replicate (256 - length bs) 0; chars = map (\<lambda>b. char_of (unat b)) buff
      in if 256 < length bs \<or> 0 \<notin> set buff then Inl Undefined else Inr (c_string chars))"

definition write_leaf :: "conv \<Rightarrow> cfg \<Rightarrow> bytes \<Rightarrow> nat \<Rightarrow> nat \<Rightarrow> (cfg \<times> nat) result" where
  "write_leaf cv el buf p n =
     (case leaf_kind_of (c_type el) of
        None \<Rightarrow> Inl (Throws (Runtime_error ''failed to parse xml file''))
      | Some kind \<Rightarrow>
          res_bind (mem_read buf p (leaf_size el kind)) (\<lambda>bs.
            res_map (\<lambda>v. (Cfg (c_name el) (c_type el) (c_size el) (Some v) (c_children el), n + leaf_size el kind)) (number_text cv kind bs)))"

fun write_element :: "conv \<Rightarrow> cfg \<Rightarrow> bytes \<Rightarrow> nat \<Rightarrow> nat \<Rightarrow> (cfg \<times> nat) result"
  and write_children :: "conv \<Rightarrow> cfg list \<Rightarrow> bytes \<Rightarrow> nat \<Rightarrow> nat \<Rightarrow> (cfg list \<times> nat) result" where
  "write_element cv (Cfg name t sz v cs) buf p n =
     (if t = ''STRUCT'' then res_map (\<lambda>(cs', n'). (Cfg name t sz v cs', n')) (write_children cv cs buf p n)
      else write_leaf cv (Cfg name t sz v cs) buf p n)"
| "write_children cv [] buf p n = Inr ([], n)"
| "write_children cv (c # cs) buf p n =
     res_bind
       (if is_struct c then res_map (\<lambda>(c', o_bs). (c', n + o_bs)) (write_element cv c buf (p + n) 0)
        else write_element cv c buf (p + n) n)
       (\<lambda>(c', n'). res_map (\<lambda>(cs', n''). (c' # cs', n'')) (write_children cv cs buf p n'))"


section \<open>Numbers survive their text\<close>

lemma le_nat_less: "le_nat bs < 256 ^ length bs"
proof (induction bs)
  case (Cons b bs)
  have "unat b < 256" using unsigned_less[of b] by simp
  moreover have "256 * le_nat bs + 256 \<le> 256 * 256 ^ length bs" using Cons by simp
  ultimately show ?case by simp
qed simp

lemma le_bytes_of_int:
  assumes "length bs = k" and "8 * k \<le> LENGTH('a::len)" and "s mod 2 ^ (8 * k) = int (le_nat bs)"
  shows "le_bytes k (word_of_int s :: 'a word) = bs"
proof (rule bytes_eqI)
  have "take_bit (8 * k) (unat (word_of_int s :: 'a word)) = nat (take_bit (8 * k) s)"
    using assms(2) by (simp add: unsigned_of_int take_bit_nat_eq min_absorb1)
  also have "\<dots> = le_nat bs" using assms(3) by (simp add: take_bit_eq_mod)
  finally show "bit (le_nat (le_bytes k (word_of_int s :: 'a word))) i = bit (le_nat bs) i" for i by (simp add: le_nat_le_bytes)
qed (simp add: assms(1))

lemma read_unsigned_range: "length bs = k \<Longrightarrow> read_unsigned k bs = int (le_nat bs) \<and> 0 \<le> read_unsigned k bs \<and> read_unsigned k bs < 2 ^ (8 * k)"
  using le_nat_less[of bs] by (auto simp: read_unsigned_def power_mult[symmetric] power_mult)

lemma read_signed_range:
  assumes "length bs = k" and "0 < k"
  shows "read_signed k bs mod 2 ^ (8 * k) = int (le_nat bs) \<and> - (2 ^ (8 * k - 1)) \<le> read_signed k bs \<and> read_signed k bs < 2 ^ (8 * k - 1)"
proof -
  note u = read_unsigned_range[OF assms(1)]
  have p: "(2::int) ^ (8 * k) = 2 * 2 ^ (8 * k - 1)" using power_minus_mult[of "8 * k" "2 :: int"] assms(2) by simp
  have "(read_unsigned k bs - 2 ^ (8 * k)) mod 2 ^ (8 * k) = read_unsigned k bs mod 2 ^ (8 * k)" by simp
  then show ?thesis using u p by (simp add: read_signed_def Let_def)
qed

text \<open>Bytes of a leaf that loading reads back from the text that writing makes of them.\<close>

fun value_ok :: "conv \<Rightarrow> leaf_kind \<Rightarrow> bytes \<Rightarrow> bool" where
  "value_ok cv Double_leaf bs \<longleftrightarrow> cv_as_double cv (cv_double_text cv bs) = bs"
| "value_ok cv Float_leaf bs \<longleftrightarrow> cv_as_float cv (cv_float_text cv bs) = bs"
| "value_ok cv Bool_leaf bs \<longleftrightarrow> bs = [0] \<or> bs = [1]"
| "value_ok cv String_leaf bs \<longleftrightarrow>
     length bs < 256 \<and> 0 \<notin> set (butlast bs) \<and> text_bytes ''$'' ! 0 \<notin> set bs \<and> text_bytes ''~'' ! 0 \<notin> set bs"
| "value_ok cv _ bs \<longleftrightarrow> True"

lemma number_round_trip:
  assumes "leaf_kind_of t = Some kind" and "kind \<noteq> String_leaf" and "length bs = leaf_size el kind" and "value_ok cv kind bs"
  shows "\<exists>v. number_text cv kind bs = Inr v \<and> number_bytes cv kind v = bs"
proof (cases kind)
  case (Int_leaf k)
  then have k: "k = 1 \<or> k = 2 \<or> k = 4" using assms(1) by (auto simp: leaf_kind_of_def split: if_splits)
  then have "read_signed k bs mod 2 ^ (8 * k) = int (le_nat bs)" using read_signed_range[of bs k] assms(3) Int_leaf by auto
  with le_bytes_of_int[where 'a = 32, of bs k] k assms(3) Int_leaf show ?thesis by (auto simp: int_read_back)
next
  case (Uint_leaf k)
  then have k: "k = 1 \<or> k = 2 \<or> k = 4" using assms(1) by (auto simp: leaf_kind_of_def split: if_splits)
  then have "read_unsigned k bs mod 2 ^ (8 * k) = int (le_nat bs)" using read_unsigned_range[of bs k] assms(3) Uint_leaf by auto
  with le_bytes_of_int[where 'a = 32, of bs k] k assms(3) Uint_leaf show ?thesis by (auto simp: int_read_back)
next
  case Long_leaf
  then have "read_signed 8 bs mod 2 ^ (8 * 8) = int (le_nat bs)" using read_signed_range[of bs 8] assms(3) by auto
  with le_bytes_of_int[where 'a = 64, of bs 8] assms(3) Long_leaf show ?thesis by (auto simp: int_read_back)
next
  case Ulong_leaf
  then have "read_unsigned 8 bs mod 2 ^ (8 * 8) = int (le_nat bs)" using read_unsigned_range[of bs 8] assms(3) by auto
  with le_bytes_of_int[where 'a = 64, of bs 8] assms(3) Ulong_leaf show ?thesis by (auto simp: int_read_back)
qed (use assms in \<open>auto simp: int_read_back\<close>)

text \<open>A character is in a text when its byte is among the bytes.\<close>

lemma byte_char_in: "c \<in> set (map (\<lambda>b. char_of (unat b)) bs) \<Longrightarrow> text_bytes [c] ! 0 \<in> set (bs :: bytes)"
proof -
  assume "c \<in> set (map (\<lambda>b. char_of (unat b)) bs)"
  then obtain b where b: "b \<in> set bs" "c = char_of (unat b)" by auto
  have "unat b < 256" using unsigned_less[of b] by simp
  then have "text_bytes [c] ! 0 = b" using b(2) by (simp add: text_bytes_def)
  with b(1) show ?thesis by simp
qed

lemma byte_less: "unat (b :: byte) < 256"
  using unsigned_less[of b] by simp

lemma text_bytes_chars: "text_bytes (map (\<lambda>b. char_of (unat b)) bs) = bs"
proof -
  have "word_of_nat (of_char (char_of (unat b) :: char)) = b" for b :: byte using byte_less[of b] by simp
  then show ?thesis by (simp add: text_bytes_def comp_def)
qed

lemma char_of_byte_zero: "char_of (unat b) = (char_of (0 :: nat) :: char) \<longleftrightarrow> (b :: byte) = 0"
proof
  assume "char_of (unat b) = (char_of (0 :: nat) :: char)"
  then have "of_char (char_of (unat b) :: char) = (of_char (char_of (0 :: nat) :: char) :: nat)" by simp
  then show "b = 0" using byte_less[of b] by (simp add: unat_eq_zero)
qed simp

lemma string_round_trip:
  assumes "value_ok cv String_leaf bs" and "length bs = string_size el"
  shows "\<exists>v. number_text cv String_leaf bs = Inr v \<and> leaf_string_bytes cv (Cfg name t (c_size el) (Some v) cs) = Inr bs"
proof -
  define w where "w = takeWhile (\<lambda>b. b \<noteq> 0) bs"
  let ?v = "map (\<lambda>b. char_of (unat b) :: char) w"
  have nz: "0 \<notin> set (butlast bs)" and len: "length bs < 256" using assms(1) by auto
  have w: "w = bs \<or> (bs = w @ [0])"
  proof (cases bs rule: rev_cases)
    case (snoc ys y)
    with nz have "\<forall>b \<in> set ys. b \<noteq> 0" by auto
    with snoc show ?thesis by (cases "y = 0") (auto simp: w_def takeWhile_append2)
  qed (simp add: w_def)
  have "takeWhile (\<lambda>b. b \<noteq> 0) (bs @ replicate (256 - length bs) 0) = w"
  proof (cases "\<forall>b \<in> set bs. b \<noteq> 0")
    case True
    then have wb: "w = bs" by (simp add: w_def)
    have "takeWhile (\<lambda>b. b \<noteq> 0) (replicate (256 - length bs) (0 :: byte)) = []" by (cases "256 - length bs") simp_all
    with True show ?thesis unfolding wb by (simp add: takeWhile_append2)
  next
    case False
    then show ?thesis by (auto simp: w_def takeWhile_append)
  qed
  moreover have "((\<lambda>c. c \<noteq> char_of (0 :: nat)) \<circ> (\<lambda>b. char_of (unat b) :: char)) = (\<lambda>b :: byte. b \<noteq> 0)"
    by (rule ext) (simp only: comp_def char_of_byte_zero)
  ultimately have "c_string (map (\<lambda>b. char_of (unat b)) (bs @ replicate (256 - length bs) 0)) = ?v"
    by (simp only: c_string_def takeWhile_map)
  moreover have "0 \<in> set (bs @ replicate (256 - length bs) 0)" using len by auto
  ultimately have "number_text cv String_leaf bs = Inr ?v" using len by (simp add: Let_def)
  moreover have "auto_expand_environment_variables (cv_env cv) ?v = Inr ?v"
  proof (rule expand_plain)
    have "set w \<subseteq> set bs" by (auto simp: w_def dest: set_takeWhileD)
    then show "CHR ''$'' \<notin> set ?v" "CHR ''~'' \<notin> set ?v" using assms(1) byte_char_in[of "CHR ''$''" w] byte_char_in[of "CHR ''~''" w] by auto
  qed
  moreover have "length w < 2048" "mem_read (w @ [0]) 0 (length bs) = Inr bs" using w len by (auto simp: mem_read_def)
  ultimately show ?thesis using assms(2) text_bytes_chars[of w] by (simp add: leaf_string_bytes_def string_size_def LOAD_BUFFER_SIZE_def)
qed

section \<open>Loading is encoding\<close>

text \<open>The packed bytes of an element, its size, and how deep structures nest in it.\<close>

fun encode :: "conv \<Rightarrow> cfg \<Rightarrow> bytes" where
  "encode cv (Cfg name t sz v cs) =
     (if t = ''STRUCT'' then concat (map (encode cv) cs)
      else (case leaf_bytes cv (Cfg name t sz v cs) of Inl _ \<Rightarrow> [] | Inr bs \<Rightarrow> bs))"

fun leaves_ok :: "conv \<Rightarrow> cfg \<Rightarrow> bool" where
  "leaves_ok cv (Cfg name t sz v cs) \<longleftrightarrow>
     (if t = ''STRUCT'' then (\<forall>c \<in> set cs. leaves_ok cv c) else (\<exists>bs. leaf_bytes cv (Cfg name t sz v cs) = Inr bs))"

fun nesting :: "cfg \<Rightarrow> nat" where
  "nesting (Cfg name t sz v cs) = (if t = ''STRUCT'' then Suc (Max (set (0 # map nesting cs))) else 0)"

lemma mem_write_at: "mem_write (pre @ old @ post) (length pre) bs = Inr (pre @ bs @ post)" if "length old = length bs"
  using that by (simp add: mem_write_def)

lemma load_leaf:
  assumes "\<not> is_struct c" and "leaves_ok cv c" and "length old = length (encode cv c)"
  shows "load_element cv d c (pre @ old @ post) (length pre) n = Inr (pre @ encode cv c @ post, n + length (encode cv c))"
  using assms by (cases c) (auto simp: is_struct_def mem_write_at)

lemma nesting_child: "c \<in> set cs \<Longrightarrow> nesting c \<le> Max (set (0 # map nesting cs))"
  by (intro Max_ge) auto

definition load_spec :: "conv \<Rightarrow> cfg list \<Rightarrow> bool" where
  "load_spec cv cs \<longleftrightarrow>
     (\<forall>d pre old post p. (\<forall>c \<in> set cs. leaves_ok cv c) \<longrightarrow> length old = length (concat (map (encode cv) cs)) \<longrightarrow>
        length (concat (map (encode cv) cs)) \<le> LOAD_BUFFER_SIZE \<longrightarrow> (\<forall>c \<in> set cs. d + nesting c < MAX_NESTING_DEPTH) \<longrightarrow> p \<le> length pre \<longrightarrow>
        load_children cv d cs (pre @ old @ post) p (length pre - p) =
          Inr (pre @ concat (map (encode cv) cs) @ post, length pre - p + length (concat (map (encode cv) cs))))"

lemma load_specD:
  assumes "load_spec cv cs" and "\<And>c. c \<in> set cs \<Longrightarrow> leaves_ok cv c" and "length old = length (concat (map (encode cv) cs))"
    and "length (concat (map (encode cv) cs)) \<le> LOAD_BUFFER_SIZE" and "\<And>c. c \<in> set cs \<Longrightarrow> d + nesting c < MAX_NESTING_DEPTH" and "p \<le> length pre"
  shows "load_children cv d cs (pre @ old @ post) p (length pre - p) =
           Inr (pre @ concat (map (encode cv) cs) @ post, length pre - p + length (concat (map (encode cv) cs)))"
  using assms by (simp add: load_spec_def)

lemma load_children_ok:
  "load_spec cv cs"
proof (induction "size_list size cs" arbitrary: cs rule: less_induct)
  case less
  show ?case
  proof (cases cs)
    case Nil
    then show ?thesis by (simp add: load_spec_def)
  next
    case (Cons c cs')
    have rest: "load_spec cv cs'" using less Cons by simp
    have inner: "load_spec cv (c_children c)" using less Cons by (cases c) simp
    show ?thesis unfolding load_spec_def Cons
    proof (intro allI impI)
      fix d p :: nat and pre old post :: bytes
      let ?E = "encode cv c" and ?R = "concat (map (encode cv) cs')"
      assume ok: "\<forall>c \<in> set (c # cs'). leaves_ok cv c" and old: "length old = length (concat (map (encode cv) (c # cs')))"
        and fits: "length (concat (map (encode cv) (c # cs'))) \<le> LOAD_BUFFER_SIZE" and deep: "\<forall>x \<in> set (c # cs'). d + nesting x < MAX_NESTING_DEPTH" and p: "p \<le> length pre"
      define o1 o2 where "o1 = take (length ?E) old" and "o2 = drop (length ?E) old"
      then have o: "old = o1 @ o2" "length o1 = length ?E" "length o2 = length ?R" using old by auto
      have cont: "load_children cv 0 cs' ((pre @ ?E) @ o2 @ post) p (length (pre @ ?E) - p) = Inr ((pre @ ?E) @ ?R @ post, length (pre @ ?E) - p + length ?R)"
        using ok fits deep o(3) p by (intro load_specD[OF rest]) auto
      show "load_children cv d (c # cs') (pre @ old @ post) p (length pre - p) =
          Inr (pre @ concat (map (encode cv) (c # cs')) @ post, length pre - p + length (concat (map (encode cv) (c # cs'))))"
      proof (cases "is_struct c")
        case False
        have "load_element cv 0 c (pre @ o1 @ (o2 @ post)) (length pre) (length pre - p) = Inr (pre @ ?E @ (o2 @ post), length pre - p + length ?E)"
          using load_leaf[OF False _ o(2)] ok by simp
        with False cont p o(1) show ?thesis by simp
      next
        case True
        then have E: "?E = concat (map (encode cv) (c_children c))" "nesting c = Suc (Max (set (0 # map nesting (c_children c))))"
          by (cases c; simp add: is_struct_def)+
        let ?z = "replicate LOAD_BUFFER_SIZE 0 :: bytes"
        have "load_children cv (d + 1) (c_children c) ([] @ take (length ?E) ?z @ drop (length ?E) ?z) 0 (length ([] :: bytes) - 0) =
            Inr ([] @ ?E @ drop (length ?E) ?z, length ([] :: bytes) - 0 + length ?E)"
        unfolding E(1)
        proof (rule load_specD[OF inner])
          show "leaves_ok cv x" if "x \<in> set (c_children c)" for x using ok True that by (cases c) (auto simp: is_struct_def)
          show "d + 1 + nesting x < MAX_NESTING_DEPTH" if "x \<in> set (c_children c)" for x using nesting_child[OF that] deep E(2) by auto
        qed (use fits E(1) in auto)
        then have "load_children cv (d + 1) (c_children c) ?z 0 0 = Inr (?E @ drop (length ?E) ?z, length ?E)"
          by (simp only: append_Nil append_take_drop_id list.size diff_self_eq_0 diff_zero add_0)
        then have "load_element cv (d + 1) c ?z 0 0 = Inr (?E @ drop (length ?E) ?z, length ?E)" using True by (cases c) (simp add: is_struct_def del: drop_replicate)
        moreover have "d + 1 < MAX_NESTING_DEPTH" using deep E(2) by auto
        moreover have "mem_write (pre @ o1 @ (o2 @ post)) (length pre) ?E = Inr (pre @ ?E @ (o2 @ post))" using mem_write_at[OF o(2)] .
        ultimately show ?thesis using True cont p o(1) fits by (simp add: mem_read_def del: drop_replicate)
      qed
    qed
  qed
qed


lemma load_is_encode:
  assumes "leaves_ok cv el" and "length (encode cv el) \<le> LOAD_BUFFER_SIZE" and "nesting el \<le> MAX_NESTING_DEPTH"
  shows "load_element cv 0 el (replicate LOAD_BUFFER_SIZE 0) 0 0 =
           Inr (encode cv el @ drop (length (encode cv el)) (replicate LOAD_BUFFER_SIZE 0), length (encode cv el))"
proof -
  let ?z = "replicate LOAD_BUFFER_SIZE 0 :: bytes" and ?E = "encode cv el"
  have z: "[] @ take (length ?E) ?z @ drop (length ?E) ?z = ?z" by (simp only: append_Nil append_take_drop_id)
  show ?thesis
  proof (cases "is_struct el")
    case False
    from load_leaf[OF this assms(1), where pre = "[]" and old = "take (length ?E) ?z" and post = "drop (length ?E) ?z" and d = 0 and n = 0] assms(2)
    show ?thesis unfolding z by simp
  next
    case True
    then have E: "?E = concat (map (encode cv) (c_children el))" "nesting el = Suc (Max (set (0 # map nesting (c_children el))))"
      "load_element cv 0 el ?z 0 0 = load_children cv 0 (c_children el) ?z 0 (length ([] :: bytes) - 0)"
      by (cases el; simp add: is_struct_def)+
    have "load_children cv 0 (c_children el) ([] @ take (length ?E) ?z @ drop (length ?E) ?z) 0 (length ([] :: bytes) - 0) =
        Inr ([] @ ?E @ drop (length ?E) ?z, length ([] :: bytes) - 0 + length ?E)"
      unfolding E(1)
    proof (rule load_specD[OF load_children_ok])
      show "leaves_ok cv x" if "x \<in> set (c_children el)" for x using assms(1) True that by (cases el) (auto simp: is_struct_def)
      show "0 + nesting x < MAX_NESTING_DEPTH" if "x \<in> set (c_children el)" for x using nesting_child[OF that] assms(3) E(2) by auto
    qed (use assms(2) E(1) in auto)
    then show ?thesis unfolding z E(3) by simp
  qed
qed

section \<open>Writing and loading again\<close>

text \<open>Bytes that fit an element: every field is one that loading reads back.\<close>

fun cfg_size :: "cfg \<Rightarrow> nat" where
  "cfg_size (Cfg name t sz v cs) =
     (if t = ''STRUCT'' then sum_list (map cfg_size cs)
      else (case leaf_kind_of t of None \<Rightarrow> 0 | Some kind \<Rightarrow> leaf_size (Cfg name t sz v cs) kind))"

fun fits :: "conv \<Rightarrow> cfg \<Rightarrow> bytes \<Rightarrow> bool"
  and fits_children :: "conv \<Rightarrow> cfg list \<Rightarrow> bytes \<Rightarrow> bool" where
  "fits cv (Cfg name t sz v cs) bs \<longleftrightarrow>
     (if t = ''STRUCT'' then fits_children cv cs bs
      else (case leaf_kind_of t of None \<Rightarrow> False
            | Some kind \<Rightarrow> length bs = leaf_size (Cfg name t sz v cs) kind \<and> value_ok cv kind bs))"
| "fits_children cv [] bs \<longleftrightarrow> bs = []"
| "fits_children cv (c # cs) bs \<longleftrightarrow> fits cv c (take (cfg_size c) bs) \<and> fits_children cv cs (drop (cfg_size c) bs)"

text \<open>What writing makes of an element: it holds the bytes, and has the shape of the element.\<close>

definition holds :: "conv \<Rightarrow> cfg \<Rightarrow> bytes \<Rightarrow> cfg \<Rightarrow> bool" where
  "holds cv el bs el' \<longleftrightarrow> encode cv el' = bs \<and> leaves_ok cv el' \<and> nesting el' = nesting el \<and> is_struct el' = is_struct el"

lemma write_leaf_holds:
  assumes "\<not> is_struct el" and "fits cv el bs"
  shows "\<exists>el'. write_leaf cv el (pre @ bs @ post) (length pre) n = Inr (el', n + length bs) \<and> holds cv el bs el'"
proof (cases el)
  case (Cfg name t sz v cs)
  from assms(1,2) obtain kind where k: "leaf_kind_of t = Some kind" "length bs = leaf_size el kind" "value_ok cv kind bs" "t \<noteq> ''STRUCT''"
    by (auto simp: Cfg is_struct_def split: option.splits)
  have rd: "mem_read (pre @ bs @ post) (length pre) (leaf_size el kind) = Inr bs" using k(2) by (simp add: mem_read_def)
  have "\<exists>w. number_text cv kind bs = Inr w \<and> leaf_bytes cv (Cfg name t sz (Some w) cs) = Inr bs"
  proof (cases "kind = String_leaf")
    case True
    with string_round_trip[of cv bs el name t cs] k Cfg show ?thesis by (simp add: leaf_bytes_def del: number_text.simps)
  next
    case False
    with number_round_trip[OF k(1) _ k(2,3)] k(1) show ?thesis by (auto simp: leaf_bytes_def)
  qed
  then obtain w where "number_text cv kind bs = Inr w" "leaf_bytes cv (Cfg name t sz (Some w) cs) = Inr bs" by blast
  with k rd Cfg show ?thesis by (simp add: write_leaf_def holds_def is_struct_def)
qed


lemma fits_length:
  "fits cv el bs \<Longrightarrow> length bs = cfg_size el"
  "fits_children cv cs bs \<Longrightarrow> length bs = sum_list (map cfg_size cs)"
proof (induction cv el bs and cv cs bs rule: fits_fits_children.induct)
  case (1 cv name t sz v cs bs)
  then show ?case by (auto split: if_splits option.splits)
next
  case (3 cv c cs bs)
  then have "length (take (cfg_size c) bs) = cfg_size c" "length (drop (cfg_size c) bs) = sum_list (map cfg_size cs)" by auto
  then show ?case by simp
qed simp

lemma holds_struct:
  "list_all2 (\<lambda>(c, b) c'. holds cv c b c') (zip cs bss) cs' \<Longrightarrow> length bss = length cs \<Longrightarrow>
     holds cv (Cfg name ''STRUCT'' sz v cs) (concat bss) (Cfg name ''STRUCT'' sz v cs')"
proof -
  assume a: "list_all2 (\<lambda>(c, b) c'. holds cv c b c') (zip cs bss) cs'" and l: "length bss = length cs"
  have len: "length cs' = length cs" using list_all2_lengthD[OF a] l by simp
  have h: "holds cv (cs ! i) (bss ! i) (cs' ! i)" if "i < length cs" for i
    using list_all2_nthD[OF a, of i] that l by simp
  have "map (encode cv) cs' = bss" using h len l by (intro nth_equalityI) (auto simp: holds_def)
  moreover have "map nesting cs' = map nesting cs" using h len by (intro nth_equalityI) (auto simp: holds_def)
  moreover have "\<forall>c \<in> set cs'. leaves_ok cv c" using h len by (auto simp: in_set_conv_nth holds_def)
  ultimately show ?thesis by (simp add: holds_def is_struct_def image_set[symmetric] del: image_set)
qed

lemma write_holds:
  "fits cv el bs \<Longrightarrow> buf = pre @ bs @ post \<Longrightarrow> (if is_struct el then p + n else p) = length pre \<Longrightarrow>
     \<exists>el'. write_element cv el buf p n = Inr (el', n + length bs) \<and> holds cv el bs el'"
  "fits_children cv cs bs \<Longrightarrow> buf = pre @ bs @ post \<Longrightarrow> p + n = length pre \<Longrightarrow>
     \<exists>cs' bss. write_children cv cs buf p n = Inr (cs', n + length bs) \<and> bs = concat bss \<and> length bss = length cs \<and>
       list_all2 (\<lambda>(c, b) c'. holds cv c b c') (zip cs bss) cs'"
proof (induction cv el buf p n and cv cs buf p n arbitrary: pre bs post and pre bs post rule: write_element_write_children.induct)
  case (1 cv name t sz v cs buf p n)
  show ?case
  proof (cases "t = ''STRUCT''")
    case True
    then have "fits_children cv cs bs" "p + n = length pre" using "1.prems" by (auto simp: is_struct_def)
    from "1.IH"[OF True this(1) "1.prems"(2) this(2)]
    obtain cs' bss where "write_children cv cs buf p n = Inr (cs', n + length bs)" "bs = concat bss" "length bss = length cs"
      "list_all2 (\<lambda>(c, b) c'. holds cv c b c') (zip cs bss) cs'" by (elim exE conjE) (rule that)
    with True holds_struct[of cv cs bss cs' name sz v] show ?thesis by simp
  next
    case False
    with 1 write_leaf_holds[of "Cfg name t sz v cs" cv bs pre post n] show ?thesis by (simp add: is_struct_def)
  qed
next
  case (3 cv c cs buf p n)
  define b1 b2 where "b1 = take (cfg_size c) bs" and "b2 = drop (cfg_size c) bs"
  then have f: "fits cv c b1" "fits_children cv cs b2" "bs = b1 @ b2" using "3.prems" by auto
  have "\<exists>c'. (if is_struct c then res_map (\<lambda>(c', o_bs). (c', n + o_bs)) (write_element cv c buf (p + n) 0) else write_element cv c buf (p + n) n) =
      Inr (c', n + length b1) \<and> holds cv c b1 c'"
  proof (cases "is_struct c")
    case True
    then obtain c' where "write_element cv c buf (p + n) 0 = Inr (c', 0 + length b1)" "holds cv c b1 c'"
      using "3.IH"(1)[OF True f(1), of pre "b2 @ post"] "3.prems" f(3) by auto
    with True show ?thesis by simp
  next
    case False
    then show ?thesis using "3.IH"(2)[OF False f(1), of pre "b2 @ post"] "3.prems" f(3) by auto
  qed
  then obtain c' where c': "(if is_struct c then res_map (\<lambda>(c', o_bs). (c', n + o_bs)) (write_element cv c buf (p + n) 0) else write_element cv c buf (p + n) n) =
      Inr (c', n + length b1)" "holds cv c b1 c'" by blast
  have "\<exists>cs' bss. write_children cv cs buf p (n + length b1) = Inr (cs', n + length b1 + length b2) \<and> b2 = concat bss \<and> length bss = length cs \<and>
       list_all2 (\<lambda>(c, b) c'. holds cv c b c') (zip cs bss) cs'"
    by (rule "3.IH"(3)[OF c'(1) refl f(2), of "pre @ b1" post]) (use "3.prems"(2,3) f(3) in simp_all)
  then obtain cs' bss where r: "write_children cv cs buf p (n + length b1) = Inr (cs', n + length b1 + length b2)" "b2 = concat bss" "length bss = length cs"
       "list_all2 (\<lambda>(c, b) c'. holds cv c b c') (zip cs bss) cs'" by (elim exE conjE) (rule that)
  have w: "write_children cv (c # cs) buf p n = Inr (c' # cs', n + length bs)" using c'(1) r(1) f(3) by (simp only: write_children.simps) simp
  show ?case by (rule exI[of _ "c' # cs'"], rule exI[of _ "b1 # bss"]) (use w r f(3) c'(2) in simp)
qed simp


section \<open>Loading the settings\<close>

text \<open>
  The store keeps its files in a map from the hierarchy to the file, which the constructor fills; loading goes over the map in the order of
  the keys, and over the elements below the root of each file. A file is the list of these elements with their attributes \<^verbatim>\<open>index\<close> and
  \<^verbatim>\<open>prototype\<close>, or has no root. The structure \<^verbatim>\<open>rowInfo\<close> is not initialised, so its \<^verbatim>\<open>type\<close> is what the stack holds, the parameter
  \<open>le_type\<close>. The rows are those of \<^verbatim>\<open>memory_row_impl\<close>; \<open>le_key\<close> gives their keys.
\<close>

datatype file_hierarchy = FACTORY_SETTINGS | DEVELOPER_SETTINGS | USER_SETTINGS

fun hierarchy_value :: "file_hierarchy \<Rightarrow> nat" where
  "hierarchy_value FACTORY_SETTINGS = 0"
| "hierarchy_value DEVELOPER_SETTINGS = 1"
| "hierarchy_value USER_SETTINGS = 2"

lemma hierarchy_value_inject: "hierarchy_value a = hierarchy_value b \<longleftrightarrow> a = b"
  by (cases a; cases b) simp_all

instantiation file_hierarchy :: linorder
begin

definition less_eq_file_hierarchy :: "file_hierarchy \<Rightarrow> file_hierarchy \<Rightarrow> bool" where
  "less_eq_file_hierarchy a b \<longleftrightarrow> hierarchy_value a \<le> hierarchy_value b"

definition less_file_hierarchy :: "file_hierarchy \<Rightarrow> file_hierarchy \<Rightarrow> bool" where
  "less_file_hierarchy a b \<longleftrightarrow> hierarchy_value a < hierarchy_value b"

instance
  by standard (auto simp: less_eq_file_hierarchy_def less_file_hierarchy_def hierarchy_value_inject)

end

record setting =
  s_index :: int
  s_proto :: "string option"
  s_elem :: cfg

record loaded =
  l_rows :: "int \<Rightarrow> unit row option"
  l_number :: int

record load_env =
  le_conv :: conv
  le_junk :: "nat \<Rightarrow> byte"
  le_key :: "int \<Rightarrow> key"
  le_type :: type_enum

text \<open>\<^verbatim>\<open>std::map\<close>: the entries are in the order of their keys, and \<^verbatim>\<open>insert\<close> leaves the entry of a key that is there.\<close>

type_synonym xml_file = "setting list option"
type_synonym file_settings_map = "(file_hierarchy \<times> xml_file) list"

fun std_map_insert :: "'k::linorder \<Rightarrow> 'v \<Rightarrow> ('k \<times> 'v) list \<Rightarrow> ('k \<times> 'v) list" where
  "std_map_insert k v [] = [(k, v)]"
| "std_map_insert k v ((k', v') # es) =
     (if k < k' then (k, v) # (k', v') # es else if k = k' then (k', v') # es else (k', v') # std_map_insert k v es)"

text \<open>The files of the constructor: the file of the user is there only when it was configured and could be created.\<close>

definition file_settings_map_create :: "xml_file \<Rightarrow> xml_file option \<Rightarrow> file_settings_map" where
  "file_settings_map_create factory user =
     (let m = std_map_insert FACTORY_SETTINGS factory [] in case user of None \<Rightarrow> m | Some file \<Rightarrow> std_map_insert USER_SETTINGS file m)"

definition loaded_empty :: loaded where
  "loaded_empty = \<lparr>l_rows = (\<lambda>_. None), l_number = 0\<rparr>"

definition setting_info :: "load_env \<Rightarrow> setting \<Rightarrow> row_info" where
  "setting_info env s =
     \<lparr>ri_type = le_type env, ri_name = c_name (s_elem s), ri_description = [],
      ri_type_name = (case s_proto s of None \<Rightarrow> c_name (s_elem s) | Some p \<Rightarrow> p)\<rparr>"

definition index_wrong :: "file_hierarchy \<Rightarrow> setting \<Rightarrow> loaded \<Rightarrow> bool" where
  "index_wrong h s l \<longleftrightarrow>
     (if h = FACTORY_SETTINGS then s_index s \<noteq> l_number l else s_index s > l_number l \<or> s_index s < 0)"

definition setting_row :: "load_env \<Rightarrow> setting \<Rightarrow> nat \<Rightarrow> loaded \<Rightarrow> unit row result" where
  "setting_row env s n l =
     (case l_rows l (s_index s) of
        None \<Rightarrow>
          if n = 0 \<and> le_type env \<noteq> EMPTY_TYPE then Inl (Throws (Invalid_argument ''size''))
          else (case memory_row_create (le_junk env) (le_key env (s_index s)) (word_of_nat n) (setting_info env s) (Some ()) None of
                  None \<Rightarrow> Inl (Throws (Runtime_error ''Failed to add row. Already exists?''))
                | Some r \<Rightarrow> Inr r)
      | Some r \<Rightarrow>
          if unat (row_data_size r) < n then Inl (Throws (Runtime_error ''Row id with different size'')) else Inr r)"

definition load_setting :: "load_env \<Rightarrow> file_hierarchy \<Rightarrow> setting \<Rightarrow> loaded \<Rightarrow> loaded result" where
  "load_setting env h s l =
     res_bind (load_element (le_conv env) 0 (s_elem s) (replicate LOAD_BUFFER_SIZE 0) 0 0) (\<lambda>(buffer, bufSize).
       if index_wrong h s l then Inl (Throws (Runtime_error ''Error in XML file''))
       else res_bind (setting_row env s bufSize l) (\<lambda>r.
              res_bind (row_write_bytes (le_junk env) r (Some buffer) (word_of_nat bufSize) True 0) (\<lambda>(ok, r', ns).
                if \<not> ok then Inl (Throws (Runtime_error ''Failed to write row data''))
                else Inr \<lparr>l_rows = (l_rows l)(s_index s \<mapsto> r'),
                          l_number = (if s_index s = l_number l then l_number l + 1 else l_number l)\<rparr>)))"

fun load_settings :: "load_env \<Rightarrow> file_hierarchy \<Rightarrow> setting list \<Rightarrow> loaded \<Rightarrow> loaded result" where
  "load_settings env h [] l = Inr l"
| "load_settings env h (s # ss) l = res_bind (load_setting env h s l) (load_settings env h ss)"

definition load_file :: "load_env \<Rightarrow> file_hierarchy \<Rightarrow> xml_file \<Rightarrow> loaded \<Rightarrow> loaded result" where
  "load_file env h file l =
     (case file of
        None \<Rightarrow> Inl (Throws (Runtime_error (''XMLLoader - Cannot find '' @ [CHR 0x27] @ ''root'' @ [CHR 0x27])))
      | Some ss \<Rightarrow> load_settings env h ss l)"

fun load_files :: "load_env \<Rightarrow> file_settings_map \<Rightarrow> loaded \<Rightarrow> loaded result" where
  "load_files env [] l = Inr l"
| "load_files env ((h, file) # files) l = res_bind (load_file env h file l) (load_files env files)"

fun exception_what :: "cpp_exception \<Rightarrow> string" where
  "exception_what (Logic_error s) = s"
| "exception_what (Runtime_error s) = s"
| "exception_what (Invalid_argument s) = s"
| "exception_what (Out_of_range s) = s"

fun rethrow :: "'a result \<Rightarrow> 'a result" where
  "rethrow (Inl (Throws e)) = Inl (Throws (Runtime_error (exception_what e)))"
| "rethrow r = r"

definition load_all :: "load_env \<Rightarrow> file_settings_map \<Rightarrow> loaded result" where
  "load_all env files = rethrow (load_files env files loaded_empty)"

text \<open>Loading stays inside of the buffer, or is undefined.\<close>

lemma mem_write_bounds: "mem_write buf p bs = Inr buf' \<Longrightarrow> length buf' = length buf \<and> p + length bs \<le> length buf"
  by (auto simp: mem_write_def split: if_splits)

lemma load_bounds:
  "load_element cv d el buf p n = Inr (buf', n') \<Longrightarrow> (if is_struct el then p + n else p) \<le> length buf \<Longrightarrow>
     length buf' = length buf \<and> n \<le> n' \<and> (if is_struct el then p + n' else p + (n' - n)) \<le> length buf"
  "load_children cv d cs buf p n = Inr (buf', n') \<Longrightarrow> p + n \<le> length buf \<Longrightarrow> length buf' = length buf \<and> n \<le> n' \<and> p + n' \<le> length buf"
proof (induction cv d el buf p n and cv d cs buf p n arbitrary: buf' n' and buf' n' rule: load_element_load_children.induct)
  case (1 cv d name t sz v cs buf p n)
  then show ?case by (auto simp: is_struct_def res_bind_Inr res_map_Inr split: if_splits dest: mem_write_bounds)
next
  case (3 cv d c cs buf p n)
  let ?first = "if is_struct c
        then (if MAX_NESTING_DEPTH \<le> d + 1 then Inl (Throws (Runtime_error ''failed to parse xml file''))
              else res_bind (load_element cv (d + 1) c (replicate LOAD_BUFFER_SIZE 0) 0 0) (\<lambda>(o_buff, o_bSize).
                   res_bind (mem_read o_buff 0 o_bSize) (\<lambda>bs. res_map (\<lambda>buf'. (buf', n + o_bSize)) (mem_write buf (p + n) bs))))
        else load_element cv 0 c buf (p + n) n"
  obtain buf1 n1 where first: "?first = Inr (buf1, n1)" and rest: "load_children cv 0 cs buf1 p n1 = Inr (buf', n')"
    using "3.prems"(1) by (auto simp: res_bind_Inr simp del: if_split)
  have b1: "length buf1 = length buf \<and> n \<le> n1 \<and> p + n1 \<le> length buf"
  proof (cases "is_struct c")
    case True
    with first show ?thesis
      by (auto simp: res_bind_Inr res_map_Inr mem_read_def split: if_splits dest!: mem_write_bounds)
  next
    case False
    with first "3.IH"(2)[OF False, of buf1 n1] "3.prems"(2) show ?thesis by auto
  qed
  with "3.IH"(3)[OF first refl rest] show ?case by auto
qed simp


definition good_row :: "unit row \<Rightarrow> bool" where
  "good_row r \<longleftrightarrow> row_inv r \<and> \<not> is_empty_type r \<and> r_write_priority r = 0"

definition loaded_inv :: "loaded \<Rightarrow> bool" where
  "loaded_inv l \<longleftrightarrow> 0 \<le> l_number l \<and> dom (l_rows l) = {0..<l_number l} \<and> (\<forall>i r. l_rows l i = Some r \<longrightarrow> good_row r)"

lemma forced_write:
  assumes "good_row r" and "row_write_bytes junk r (Some buf) sz True 0 = Inr (True, r', ns)" and "unat sz \<le> length buf"
  shows "good_row r' \<and> row_value r' = take (unat sz) buf"
proof -
  have "sz \<le> r_max_size r" "0 < sz" using assms(1,2)
    by (auto simp: row_write_bytes_def good_row_def word_neq_0_conv not_less split: if_splits)
  with assms(1) have acc: "row_accepts r (Some buf) sz 0" by (simp add: row_accepts_def good_row_def)
  have "data_ok (Some buf) sz" using assms(3) by (simp add: data_ok_def)
  with acc assms(1) obtain r'' where "row_write_bytes junk r (Some buf) sz True 0 = Inr (True, r'', if True \<or> row_value r \<noteq> take (unat sz) buf
      then map (\<lambda>c. (c, sz, Some buf)) (r_callbacks r) else [])" "row_inv r''" "row_value r'' = take (unat sz) buf" "row_frame r r''"
    using row_write_accepted[of r buf sz 0 junk True] by (auto simp: good_row_def)
  with assms(1,2) show ?thesis by (auto simp: good_row_def row_frame_def is_empty_type_def)
qed

lemma setting_row_good:
  assumes "setting_row env s n l = Inr r" and "loaded_inv l" and "le_type env \<noteq> EMPTY_TYPE" and "n \<le> LOAD_BUFFER_SIZE"
  shows "good_row r"
proof (cases "l_rows l (s_index s)")
  case None
  have n: "unat (word_of_nat n :: size_t) = n" using assms(4) by (simp add: unat_of_nat LOAD_BUFFER_SIZE_def)
  have "(word_of_nat n :: size_t) \<noteq> UNBOUNDED_ROW_SIZE"
  proof
    assume "(word_of_nat n :: size_t) = UNBOUNDED_ROW_SIZE"
    then have "n = unat (- 1 :: size_t)" using n by (simp add: UNBOUNDED_ROW_SIZE_def)
    with assms(4) show False by (simp add: LOAD_BUFFER_SIZE_def unsigned_minus_1_eq_mask mask_eq_exp_minus_1)
  qed
  with None assms(1,3) n show ?thesis
    by (auto simp: setting_row_def setting_info_def memory_row_create_def memory_row_impl_def good_row_def row_inv_def row_capacity_def
        is_empty_type_def mem_zero_def split: if_splits)
next
  case (Some r')
  then show ?thesis using assms(1,2) by (auto simp: setting_row_def loaded_inv_def split: if_splits)
qed

lemma load_setting_ok:
  assumes "load_setting env h s l = Inr l'" and "loaded_inv l" and "le_type env \<noteq> EMPTY_TYPE"
  shows "\<exists>buf k r. load_element (le_conv env) 0 (s_elem s) (replicate LOAD_BUFFER_SIZE 0) 0 0 = Inr (buf, k) \<and> row_value r = take k buf \<and>
           l_rows l' = (l_rows l)(s_index s \<mapsto> r) \<and> loaded_inv l'"
proof -
  from assms(1) obtain buf k r r' ns where ld: "load_element (le_conv env) 0 (s_elem s) (replicate LOAD_BUFFER_SIZE 0) 0 0 = Inr (buf, k)"
    and i: "\<not> index_wrong h s l" and r: "setting_row env s k l = Inr r"
    and w: "row_write_bytes (le_junk env) r (Some buf) (word_of_nat k) True 0 = Inr (True, r', ns)"
    and l': "l' = \<lparr>l_rows = (l_rows l)(s_index s \<mapsto> r'), l_number = (if s_index s = l_number l then l_number l + 1 else l_number l)\<rparr>"
    by (auto simp: load_setting_def res_bind_Inr split: if_splits)
  have k: "length buf = LOAD_BUFFER_SIZE" "k \<le> LOAD_BUFFER_SIZE" using load_bounds(1)[OF ld] by (cases "is_struct (s_elem s)"; simp)+
  then have "unat (word_of_nat k :: size_t) = k" by (simp add: unat_of_nat LOAD_BUFFER_SIZE_def)
  with forced_write[OF setting_row_good[OF r assms(2,3) k(2)] w] k have g: "good_row r'" "row_value r' = take k buf" by auto
  have "loaded_inv l'" using assms(2) i g(1) unfolding l' loaded_inv_def index_wrong_def by (auto split: if_splits)
  with ld g l' show ?thesis by (intro exI[of _ buf] exI[of _ k] exI[of _ r']) simp
qed

definition last_setting :: "setting list \<Rightarrow> int \<Rightarrow> cfg option" where
  "last_setting ss i = map_of (rev (map (\<lambda>s. (s_index s, s_elem s)) ss)) i"

lemma last_setting_Cons: "last_setting (s # ss) i = (case last_setting ss i of None \<Rightarrow> if i = s_index s then Some (s_elem s) else None | Some e \<Rightarrow> Some e)"
  by (simp add: last_setting_def map_add_def split: option.split)

lemma load_settings_layers:
  assumes "load_settings env h ss l = Inr l'" and "loaded_inv l" and "le_type env \<noteq> EMPTY_TYPE"
  shows "loaded_inv l' \<and> (\<forall>i. case last_setting ss i of
           None \<Rightarrow> l_rows l' i = l_rows l i
         | Some el \<Rightarrow> \<exists>buf k r. load_element (le_conv env) 0 el (replicate LOAD_BUFFER_SIZE 0) 0 0 = Inr (buf, k) \<and>
             l_rows l' i = Some r \<and> row_value r = take k buf)"
  using assms
proof (induction ss arbitrary: l)
  case Nil
  then show ?case by (simp add: last_setting_def)
next
  case (Cons s ss)
  then obtain l1 where l1: "load_setting env h s l = Inr l1" "load_settings env h ss l1 = Inr l'" by (auto simp: res_bind_Inr)
  from load_setting_ok[OF l1(1) Cons.prems(2,3)] obtain buf k r where
    ld: "load_element (le_conv env) 0 (s_elem s) (replicate LOAD_BUFFER_SIZE 0) 0 0 = Inr (buf, k)" "row_value r = take k buf"
    and rows: "l_rows l1 = (l_rows l)(s_index s \<mapsto> r)" and inv: "loaded_inv l1" by (elim exE conjE) (rule that)
  note IH = Cons.IH[OF l1(2) inv Cons.prems(3)]
  show ?case
  proof (intro conjI allI)
    show "loaded_inv l'" using IH by blast
    fix i
    from IH have "case last_setting ss i of
           None \<Rightarrow> l_rows l' i = l_rows l1 i
         | Some el \<Rightarrow> \<exists>buf k r. load_element (le_conv env) 0 el (replicate LOAD_BUFFER_SIZE 0) 0 0 = Inr (buf, k) \<and>
             l_rows l' i = Some r \<and> row_value r = take k buf" by blast
    with ld rows show "case last_setting (s # ss) i of
           None \<Rightarrow> l_rows l' i = l_rows l i
         | Some el \<Rightarrow> \<exists>buf k r. load_element (le_conv env) 0 el (replicate LOAD_BUFFER_SIZE 0) 0 0 = Inr (buf, k) \<and>
             l_rows l' i = Some r \<and> row_value r = take k buf"
      by (cases "last_setting ss i"; cases "i = s_index s") (auto simp: last_setting_Cons simp del: load_element.simps)
  qed
qed


section \<open>Properties\<close>

text \<open>An environment without variables, and values with a point that are all zero.\<close>

definition decimal_conv :: conv where
  "decimal_conv =
     \<lparr>cv_as_float = (\<lambda>_. replicate 4 0), cv_as_double = (\<lambda>_. replicate 8 0), cv_float_text = (\<lambda>_. ''0''), cv_double_text = (\<lambda>_. ''0''),
      cv_env = (\<lambda>_. None)\<rparr>"

text \<open>C13. A row survives saving. Take the bytes of a row with the layout of an element of the user: every field has the size of its
  type; a string has the full size of its attribute, less than 256 bytes, no NUL but at its very end, no dollar sign and no tilde (which
  loading would expand); a truth value is 0 or 1; and a number with a point is one that the C library reads back from the text it
  prints. Then \<^verbatim>\<open>WriteElement\<close> stores them in the element, and loading the element that it leaves gives exactly these bytes in the
  buffer, with the size of the row. The row has at most the 2048 bytes of the buffer, and structures nest up to the limit of the loader.
  Strings that are shorter than their attribute are read past their end, see below.
\<close>

theorem settings_round_trip:
  assumes "fits cv el bs" and "length bs \<le> LOAD_BUFFER_SIZE" and "nesting el \<le> MAX_NESTING_DEPTH"
  shows "\<exists>el'. write_element cv el bs 0 0 = Inr (el', length bs) \<and>
           load_element cv 0 el' (replicate LOAD_BUFFER_SIZE 0) 0 0 = Inr (bs @ replicate (LOAD_BUFFER_SIZE - length bs) 0, length bs)"
proof -
  have "\<exists>el'. write_element cv el bs 0 0 = Inr (el', 0 + length bs) \<and> holds cv el bs el'"
    by (rule write_holds(1)[OF assms(1), of _ "[]" "[]"]) simp_all
  then obtain el' where el': "write_element cv el bs 0 0 = Inr (el', length bs)" "holds cv el bs el'" by auto
  with load_is_encode[of cv el'] assms(2,3) show ?thesis by (auto simp: holds_def)
qed

definition example_element :: cfg where
  "example_element =
     Cfg ''camera'' ''STRUCT'' 0 None
       [Cfg ''gain'' ''INT16_T'' 0 (Some ''3'') [],
        Cfg ''mode'' ''STRUCT'' 0 None [Cfg ''on'' ''BOOL'' 0 (Some ''false'') [], Cfg ''id'' ''UINT8_T'' 0 (Some ''1'') []],
        Cfg ''name'' ''STRING'' 4 (Some ''abc'') []]"

lemma example_fits: "fits decimal_conv example_element [254, 255, 1, 200, 120, 121, 122, 0]"
  by (simp add: example_element_def leaf_kind_of_def string_size_def text_bytes_def)

theorem settings_round_trip_witness:
  "\<exists>el'. write_element decimal_conv example_element [254, 255, 1, 200, 120, 121, 122, 0] 0 0 = Inr (el', 8) \<and>
     load_element decimal_conv 0 el' (replicate LOAD_BUFFER_SIZE 0) 0 0 =
       Inr ([254, 255, 1, 200, 120, 121, 122, 0] @ replicate (LOAD_BUFFER_SIZE - 8) 0, 8)"
proof -
  have "length ([254, 255, 1, 200, 120, 121, 122, 0] :: bytes) \<le> LOAD_BUFFER_SIZE" by (simp add: LOAD_BUFFER_SIZE_def)
  moreover have "nesting example_element \<le> MAX_NESTING_DEPTH" by (simp add: example_element_def MAX_NESTING_DEPTH_def)
  moreover have "length ([254, 255, 1, 200, 120, 121, 122, 0] :: bytes) = 8" by simp
  ultimately show ?thesis using settings_round_trip[OF example_fits] by (simp only:)
qed

text \<open>What a file says of a row, and what the row of an element is.\<close>

definition file_setting :: "xml_file option \<Rightarrow> int \<Rightarrow> cfg option" where
  "file_setting file i = (case file of Some (Some ss) \<Rightarrow> last_setting ss i | _ \<Rightarrow> None)"

definition row_from :: "load_env \<Rightarrow> loaded \<Rightarrow> int \<Rightarrow> cfg \<Rightarrow> bool" where
  "row_from env l i el \<longleftrightarrow>
     (\<exists>buf k r. load_element (le_conv env) 0 el (replicate LOAD_BUFFER_SIZE 0) 0 0 = Inr (buf, k) \<and> l_rows l i = Some r \<and> row_value r = take k buf)"

lemma row_from_cong: "l_rows l i = l_rows l' i \<Longrightarrow> row_from env l i el = row_from env l' i el"
  by (simp add: row_from_def del: load_element.simps)

lemma load_file_layers:
  assumes "load_file env h file l = Inr l'" and "loaded_inv l" and "le_type env \<noteq> EMPTY_TYPE"
  shows "loaded_inv l' \<and> (case file_setting (Some file) i of None \<Rightarrow> l_rows l' i = l_rows l i | Some el \<Rightarrow> row_from env l' i el)"
proof -
  from assms(1) obtain ss where ss: "file = Some ss" "load_settings env h ss l = Inr l'" by (auto simp: load_file_def split: option.splits)
  note a = load_settings_layers[OF ss(2) assms(2,3)]
  from spec[OF conjunct2[OF a], of i] conjunct1[OF a] show ?thesis
    by (cases "last_setting ss i") (simp_all add: ss(1) file_setting_def row_from_def del: load_element.simps)
qed

text \<open>C14. The settings of the user win. Take the map of files as the constructor fills it: the factory settings, and the settings of
  the user if there are any. When \<^verbatim>\<open>Load\<close> succeeds on an empty table, the rows are numbered from zero without gaps; a row for which the user
  has an element has the value of that element (the last one, if several have its index), and a row for which only the factory has an element
  has the value of the factory; there are no other rows. This needs that the uninitialised type of the new rows is not the empty type by chance.
\<close>

theorem last_setting_wins:
  assumes "load_all env (file_settings_map_create factory user) = Inr l" and "le_type env \<noteq> EMPTY_TYPE"
  shows "dom (l_rows l) = {0..<l_number l} \<and>
         (\<forall>i. case file_setting user i of
                Some el \<Rightarrow> row_from env l i el
              | None \<Rightarrow> (case file_setting (Some factory) i of Some el \<Rightarrow> row_from env l i el | None \<Rightarrow> l_rows l i = None))"
proof -
  have ld: "load_files env (file_settings_map_create factory user) loaded_empty = Inr l" using assms(1) unfolding load_all_def
    by (cases "load_files env (file_settings_map_create factory user) loaded_empty" rule: rethrow.cases) simp_all
  have e: "loaded_inv loaded_empty" by (auto simp: loaded_inv_def loaded_empty_def)
  obtain l1 where l1: "load_file env FACTORY_SETTINGS factory loaded_empty = Inr l1"
    "case user of None \<Rightarrow> l = l1 | Some file \<Rightarrow> load_file env USER_SETTINGS file l1 = Inr l"
    using ld by (cases user) (auto simp: file_settings_map_create_def less_file_hierarchy_def res_bind_Inr)
  note a = load_file_layers[OF l1(1) e assms(2)]
  show ?thesis
  proof (cases user)
    case None
    have "\<forall>i. case file_setting (Some factory) i of Some el \<Rightarrow> row_from env l i el | None \<Rightarrow> l_rows l i = None"
    proof
      show "case file_setting (Some factory) i of Some el \<Rightarrow> row_from env l i el | None \<Rightarrow> l_rows l i = None" for i
        using conjunct2[OF a, of i] None l1(2) by (auto simp: loaded_empty_def split: option.splits)
    qed
    then show ?thesis using conjunct1[OF a] None l1(2) by (simp add: file_setting_def[of None] loaded_inv_def)
  next
    case (Some uf)
    with l1(2) have u: "load_file env USER_SETTINGS uf l1 = Inr l" by simp
    note b = load_file_layers[OF u conjunct1[OF a] assms(2)]
    have "case file_setting user i of
            Some el \<Rightarrow> row_from env l i el
          | None \<Rightarrow> (case file_setting (Some factory) i of Some el \<Rightarrow> row_from env l i el | None \<Rightarrow> l_rows l i = None)" for i
      using conjunct2[OF a, of i] conjunct2[OF b, of i] row_from_cong[of l i l1 env] Some by (auto simp: loaded_empty_def split: option.splits)
    then show ?thesis using conjunct1[OF b] by (simp add: loaded_inv_def)
  qed
qed

definition example_env :: load_env where
  "example_env = \<lparr>le_conv = decimal_conv, le_junk = (\<lambda>_. 0), le_key = (\<lambda>i. sample_key), le_type = UNKNOWN\<rparr>"

definition example_setting :: "int \<Rightarrow> string \<Rightarrow> setting" where
  "example_setting i v = \<lparr>s_index = i, s_proto = None, s_elem = Cfg ''gain'' ''INT16_T'' 0 (Some v) []\<rparr>"

definition example_files :: file_settings_map where
  "example_files = file_settings_map_create (Some [example_setting 0 ''3'', example_setting 1 ''-5'']) (Some (Some [example_setting 0 ''7'']))"

lemma example_loads: "\<not> isl (load_all example_env example_files)"
  by code_simp

lemma example_values:
  "case load_element (le_conv example_env) 0 (s_elem (example_setting 0 ''7'')) (replicate LOAD_BUFFER_SIZE 0) 0 0 of
     Inl _ \<Rightarrow> False | Inr (buf, k) \<Rightarrow> take k buf = [7, 0]"
  "case load_element (le_conv example_env) 0 (s_elem (example_setting 1 ''-5'')) (replicate LOAD_BUFFER_SIZE 0) 0 0 of
     Inl _ \<Rightarrow> False | Inr (buf, k) \<Rightarrow> take k buf = [251, 255]"
  by code_simp+

theorem last_setting_wins_witness:
  "\<exists>l r r'. load_all example_env example_files = Inr l \<and> dom (l_rows l) = {0..<l_number l} \<and>
     l_rows l 0 = Some r \<and> row_value r = [7, 0] \<and> l_rows l 1 = Some r' \<and> row_value r' = [251, 255]"
proof -
  let ?f = "Some [example_setting 0 ''3'', example_setting 1 ''-5'']" and ?u = "Some (Some [example_setting 0 ''7''])"
  obtain l where l: "load_all example_env (file_settings_map_create ?f ?u) = Inr l" using example_loads
    by (cases "load_all example_env example_files") (auto simp: example_files_def)
  have t: "le_type example_env \<noteq> EMPTY_TYPE" by (simp add: example_env_def)
  note a = last_setting_wins[OF l t]
  have "file_setting ?u 0 = Some (s_elem (example_setting 0 ''7''))" "file_setting ?u 1 = None"
    "file_setting (Some ?f) 1 = Some (s_elem (example_setting 1 ''-5''))"
    by (simp_all add: file_setting_def last_setting_def example_setting_def)
  with spec[OF conjunct2[OF a], of 0] spec[OF conjunct2[OF a], of 1]
  have "row_from example_env l 0 (s_elem (example_setting 0 ''7''))" "row_from example_env l 1 (s_elem (example_setting 1 ''-5''))" by simp_all
  with example_values conjunct1[OF a] l show ?thesis unfolding row_from_def example_files_def by (auto simp del: load_element.simps)
qed

text \<open>A short string is read past its end. \<^verbatim>\<open>LoadElement\<close> copies as many bytes as the attribute \<^verbatim>\<open>size\<close> says from the text, so an element whose text is shorter
  than its size by more than the terminator has undefined behaviour.
\<close>

theorem short_string_overread:
  assumes "c_type el = ''STRING''" and "c_value el = Some v" and "length v < LOAD_BUFFER_SIZE" 
    and "auto_expand_environment_variables (cv_env cv) v = Inr t" and "length t + 1 < string_size el"
  shows "load_element cv d el buf p n = Inl Undefined"
  using assms by (cases el) (simp add: leaf_bytes_def leaf_kind_of_def leaf_string_bytes_def mem_read_def text_bytes_def string_size_def)

theorem short_string_overread_witness:
  "load_element decimal_conv 0 (Cfg ''name'' ''STRING'' 32 (Some ''abc'') []) (replicate LOAD_BUFFER_SIZE 0) 0 0 = Inl Undefined"
  by (rule short_string_overread[where v = "''abc''" and t = "''abc''"]) (simp_all add: string_size_def LOAD_BUFFER_SIZE_def expand_plain)

end
