(* ===== verification/Spec2Isabelle.thy ===== *)
theory Spec2Isabelle
  imports Rules_Dispatcher Memory_Stream Comm_Channel State_Machine Dispatcher Data_Files Errors_Manager Config_Store
begin

text \<open>
  A verification library for UtilityFramework, a C++ application framework: an in-memory database with
  change notification, a context that runs actions and timers on a worker thread, rules that are read from
  files and evaluated over the database, a state machine for processes, framing protocols over
  communication ports, streams and utilities.

  \<^bold>\<open>Conventions.\<close> One theory models one component and is named below. Definitions keep the names of the
  functions they translate, with the name of the class in front where two classes share a method name. An
  object is a record, a reference to an object is a number, a map of the code is an association list in the
  order of traversal. Machine integers are words of their width where the code computes with them; sizes of
  memory that exists are natural numbers. A call that can fail returns a \<open>result\<close>: \<open>Inr\<close> a value or \<open>Inl\<close> a
  fault, \<open>Throws\<close> an exception or \<open>Undefined\<close> behaviour. Raw memory is a byte list and every access
  outside of it is \<open>Undefined\<close>, so theorems that conclude \<open>Inr\<close> are memory safety theorems. Code outside
  of the repository (sockets, \<^verbatim>\<open>std::hash\<close>, the environment, \<^verbatim>\<open>std::stod\<close>) and code of the application
  (callbacks, methods of states, parsers of rows) is a parameter; what is assumed of it is a premise.

  \<^bold>\<open>Theories and sources\<close> (paths below \<^verbatim>\<open>src/\<close>).

  \<^item> \<^verbatim>\<open>Cpp_Prelude\<close>: results, raw memory, association lists, and the lemmas on them that the other theories use.

  \<^item> \<^verbatim>\<open>Callbacks\<close> (\<^verbatim>\<open>Include/utils/callback_handler.hpp\<close>, \<^verbatim>\<open>signal.hpp\<close>): registration and raising of
    callbacks and signals. Raising works on a copy of the subscribers, in an array on the stack or on the heap, and
    stays inside it.

  \<^item> \<^verbatim>\<open>Db_Key\<close>, \<^verbatim>\<open>Memory_Row\<close>, \<^verbatim>\<open>Database\<close>, \<^verbatim>\<open>Database_Properties\<close> (\<^verbatim>\<open>Include/core/database.h\<close>,
    \<^verbatim>\<open>Include/utils/database.hpp\<close>, \<^verbatim>\<open>Modules/database/memory_database\<close>): keys, rows, tables and datasets. The
    state is a heap of rows and tables that own each other through maps; the operations are those of the interfaces.
    The locale \<open>byte_cell\<close> is the contract of a row, \<open>keyed_store\<close> and \<open>observed_store\<close> those of tables and
    datasets, each interpreted on the model. Shown: the invariant of every reachable state, the contents after writes,
    refused writes, notification of all clients, round trips of adding and removing.

  \<^item> \<^verbatim>\<open>Subscriptions\<close>, \<^verbatim>\<open>Database_Dispatcher\<close>, \<^verbatim>\<open>Data_Binder\<close> (\<^verbatim>\<open>Include/utils/database.hpp\<close>): functions that clients
    subscribe to rows, with tokens and collectors; the dispatcher that hands the changes over to its worker through pooled
    copies; rows that are bound to other rows. The locale \<open>subscription_service\<close> is what tokens and collectors rely on.
    Shown: subscriptions are a map from rows and tokens to functions; every subscriber gets every accepted change of a row whose
    key has 1 to 16 bytes, and every change throws for other keys, since \<^verbatim>\<open>buffered_key\<close> refuses them; calls are made in the order
    of the changes with the bytes of the change; a bound row that has one source, no other writer and agreed with its source at
    first agrees with it whenever the queue is empty; a call that is made after its subscription was taken back.

  \<^item> \<^verbatim>\<open>Dispatcher\<close>, \<^verbatim>\<open>Context_Timers\<close> (\<^verbatim>\<open>Include/utils/dispatcher.hpp\<close>): a context with its worker thread
    as a step relation over the interleavings of worker, clients, clock and condition variable, and its timers as
    functions. Shown: exactly-once execution in order, no waiter left after disposal, no sleep while there is work in contexts
    that cannot be suspended and are not stopping, the choice of timers; and defects, lost notifications on disposal and resumption
    and an erasure through invalid iterators.

  \<^item> \<^verbatim>\<open>Rules_Expression\<close>, \<^verbatim>\<open>Rules_Parser\<close> (\<^verbatim>\<open>Modules/rules\<close>): tokens, shunting yard, tree, evaluation; the
    reading of a rule file, given as an element tree. Shown: a condition of one element without inclusive comparisons is
    evaluated to the meaning that precedence and associativity give it, from the XML tokens on; rejection of unbalanced conditions; safety of evaluation; the order of
    rules; and how inclusive comparisons are misread.

  \<^item> \<^verbatim>\<open>Rules_Data\<close>, \<^verbatim>\<open>Rules_Dispatcher\<close> (\<^verbatim>\<open>Modules/rules\<close>, \<^verbatim>\<open>Include/utils/rules.hpp\<close>): rows, enumerations and
    functions by name, the tasks of rules, and the rules at work: subscription of triggers, evaluation, delayed tasks,
    enabling, reloading. Shown: from a change of a trigger to the published result, after which exactly the delayed tasks
    of the chosen branch wait; that subscribing and unsubscribing distinct triggers that can be resolved is neutral; what a condition reads back of what a task
    wrote; and defects (triggers named twice, big endian fields, constants with a fraction, integers for \<^verbatim>\<open>FLOAT\<close> rows).

  \<^item> \<^verbatim>\<open>State_Machine\<close> (\<^verbatim>\<open>ModernAPI/StateMachine.hpp\<close>): states with their transition arrays, the machine, its
    timers and events. The methods of the states are trees of calls of \<^verbatim>\<open>PerformTransition\<close>. Shown, for machines whose
    states have no time-out, so that all of their code runs on their context: the machine never leaves its graph, its status
    matches its state, it answers every event when its graph has no cycle and its states announce their moves. A time-out runs on
    the thread of its timer; a second step relation over the timer, its mutex and its thread shows that a time-out that leaves its
    state while the context stops the timer ends in a deadlock.

  \<^item> \<^verbatim>\<open>Protocols\<close> (\<^verbatim>\<open>Modules/communication\<close>): the receiving TCP port and the fixed length, variable length and
    delimiter protocols. The locale \<open>channel\<close> is what a protocol relies on; the TCP port over any stream socket is its
    interpretation. Shown: frames are delivered whole for every segmentation, where the size field of the variable length protocol is
    encoded independently of the code that reads it; two buffer overruns.

  \<^item> \<^verbatim>\<open>Comm_Channel\<close> (\<^verbatim>\<open>Include/utils/communication.hpp\<close>): the channels that read in a thread of their own. The receiving
    thread and the calls of \<^verbatim>\<open>connect\<close> and \<^verbatim>\<open>disconnect\<close> by any number of threads are a step relation over their accesses to the
    flag, the thread object and the channel, which may answer anything its interface allows. Shown: no signal after a
    disconnect, delivery of all messages in order, the end of the thread once the flag is cleared, the announcement of
    accepted clients; a channel that is connected but not read, and a program that ends when two threads connect and disconnect.

  \<^item> \<^verbatim>\<open>Object_Pool\<close>, \<^verbatim>\<open>Buffers\<close> (\<^verbatim>\<open>Include/utils/ref_count_base.hpp\<close>, \<^verbatim>\<open>ref_count_object_pool.hpp\<close>,
    \<^verbatim>\<open>buffer_allocator.hpp\<close>): reference counts, pools of objects, the bounds-checked buffer and the allocator of buffers. The
    locales \<open>object_factory\<close> and \<open>reliable_factory\<close> are what a pool relies on. Shown: no object is handed out twice while
    it is used, allocators keep to their bounds.

  \<^item> \<^verbatim>\<open>Binary_Metadata\<close>, \<^verbatim>\<open>Binary_Parser\<close> (\<^verbatim>\<open>Modules/parsers/binary_parser\<close>, \<^verbatim>\<open>Include/utils/parser.hpp\<close>): descriptions
    of messages with enumerations, bounds, bit fields and nested structures, and typed access to a message in a shared
    buffer. The locale \<open>field_record\<close> is the contract of a message. Shown: a description built by the interface with bits that
    fit their field, elements of the nested size and sizes that do not wrap (the code checks none of these) has a sound layout; a
    message is a record of independent fields; nested parsers sit where the path to them leads and stay inside of the buffer;
    validation decides the bounds of messages without arrays in the byte order of the host; and the defects of arrays and of
    elements taken by name.

  \<^item> \<^verbatim>\<open>Ini_File\<close>, \<^verbatim>\<open>Data_Files\<close> (\<^verbatim>\<open>Modules/files/common_files\<close>): the INI file, which meets the locale \<open>settings\<close>; the
    binary file, the log file with its buffers, and the handler of files. Shown: an INI file is a map on keys none of which ends
    with another, and persists on texts without line ends, comments and brackets; what happens on others; a log loses nothing that
    was written.

  \<^item> \<^verbatim>\<open>Application\<close> (\<^verbatim>\<open>Modules/core/ezframework\<close>): the command line: splitting of lines, the map of commands, the commands of
    the framework, loggers, the colour filter, the main loop. Shown: every list of words can be typed, a typed command reaches its
    callback once, lines that are safe and lines that are not (\<^verbatim>\<open>log list\<close> among them, once there is a logger), the truncated exit code.

  \<^item> \<^verbatim>\<open>Errors_Manager\<close> (\<^verbatim>\<open>ModernAPI/ErrorsManagement.hpp\<close>): errors with delay and repetition, and their groups, updated by the
    reports of triggers. Shown: the life of an error without delay; errors that are never set, new errors that count as
    repeated, groups that count reports.

  \<^item> \<^verbatim>\<open>Xml_Text\<close> (\<^verbatim>\<open>Modules/files/common_files/pugixml\<close>, \<^verbatim>\<open>Include/utils/strings.hpp\<close>): the integers that pugixml reads and prints at their widths, and
    the expansion of environment variables. Shown: every integer is read back as it was printed; text without variables is
    expanded to itself.

  \<^item> \<^verbatim>\<open>Config_Store\<close> (\<^verbatim>\<open>ModernAPI/XMLLoader.hpp\<close>): the settings of factory and user as typed XML elements, loaded into rows and
    written back; the files are kept in a \<^verbatim>\<open>std::map\<close> that orders factory before user. Only the text of floating point numbers and
    the environment are parameters. Shown: writing and loading give the same bytes when every value is as long as its size says,
    the settings of the user win and rows have no gaps, loading stays inside its buffer; shorter strings are read past their end.

  \<^item> \<^verbatim>\<open>Memory_Stream\<close> (\<^verbatim>\<open>Modules/streams/memory_stream\<close>): a buffer with a 64-bit position; the locale \<open>byte_stream\<close>.

  \<^item> \<^verbatim>\<open>Strings_Util\<close>, \<^verbatim>\<open>Types_Util\<close> (\<^verbatim>\<open>Include/utils/strings.hpp\<close>, \<^verbatim>\<open>types.hpp\<close>): splitting, hexadecimal
    text, names of enumerations, the type table and byte order.

  \<^bold>\<open>Loops.\<close> Loops that always end are structural or have a measure. Those that depend on input or on code of the
  application (splitting with an empty delimiter, waiting for a delimiter, moving through states, expanding variables) are
  \<^theory_text>\<open>partial_function\<close>s into \<open>option\<close>, where \<open>None\<close> is not returning; theorems say under which conditions they return.
  No fuel is used.

  \<^bold>\<open>How the parts meet.\<close> A row raises the callbacks of its handler; a table subscribes its data callbacks at its rows;
  a dataset detaches the tables it removes, and they their rows: this is one state in \<^verbatim>\<open>Database\<close>. A subscription is a
  callback of the row with a signal; the dispatcher subscribes wrappers with pools and a queue on top of it; the binder and
  the rules are its clients. A rule is read by the parser and handed to the expression builder (the end-to-end property of
  \<^verbatim>\<open>Rules_Parser\<close>); at work it is subscribed to rows, evaluated by the worker of the dispatcher, starts timers of the
  context and writes rows, which triggers other rules (\<^verbatim>\<open>Rules_Dispatcher\<close>). The parser of messages sits on the safe
  buffer and on descriptions; the rules read and write fields of rows through the nodes of a description. The allocator sits
  on the pool. The protocols sit on the port through \<open>channel\<close>, and the client channel is the thread that reads from them. The context
  drives timers through the functions of \<^verbatim>\<open>Context_Timers\<close>. The errors manager is a client of the database dispatcher; the XML
  configuration fills rows of a table with the operations of \<^verbatim>\<open>Memory_Row\<close>.

  \<^bold>\<open>Not modelled.\<close> Vendored code (nlohmann JSON, pugixml but for its integers, parts of Boost) and what only maps its trees (XML files, the JSON
  form of messages); wrappers of the modern API that only forward to the interfaces modelled here; samples. Ports
  other than TCP receiving, HTTP, web sockets, loggers, controllers, compression and GStreamer elements, which are
  sequences of calls of libraries and of the operating system. Image conversion, shared memory video and the loading of
  modules. Within modelled components: the options that Boost reads from the command line of the process; loading the tables of the errors
  manager; missing elements that the XML configuration creates; floating point text (\<^verbatim>\<open>printf\<close>, \<^verbatim>\<open>strtod\<close>) is a parameter or left
  out; threads only interleave in \<^verbatim>\<open>Dispatcher\<close>, \<^verbatim>\<open>Comm_Channel\<close> and the timer of
  \<^verbatim>\<open>State_Machine\<close>, elsewhere an operation is one step, so the races of a state's time-out with the events of its machine are
  outside of the model; actions that a worker posts to its own context, timers that throw or dispose their context; moving a context
  and actions with results; printing; allocation is assumed to succeed.
\<close>

end
